(* ===== verification/Prelude.thy ===== *)
theory Prelude
  imports Main "HOL-Library.Word"
begin

text \<open>
  Shared vocabulary of the development: machine integer types, byte buffers, the C library
  routines the firmware calls on them (\<^verbatim>\<open>memcpy\<close>, \<^verbatim>\<open>memset\<close>, \<^verbatim>\<open>strcmp\<close> on NUL-terminated
  arrays, little-endian loads and stores), and the generic lemmas on lists and words that the
  component theories share.
\<close>

unbundle bit_operations_syntax

type_synonym u8 = "8 word"
type_synonym u16 = "16 word"
type_synonym u32 = "32 word"
type_synonym bytes = "u8 list"

named_theorems layout_simps \<open>sizes and offsets of on-flash layouts\<close>
named_theorems buf_simps \<open>reads and writes of byte buffers\<close>

section \<open>Error codes of the kernel\<close>

definition RT_EOK :: int where "RT_EOK = 0"
definition RT_ERROR :: int where "RT_ERROR = 1"
definition RT_ETIMEOUT :: int where "RT_ETIMEOUT = 2"
definition RT_EFULL :: int where "RT_EFULL = 3"
definition RT_EINVAL :: int where "RT_EINVAL = 10"

section \<open>Byte buffers\<close>

text \<open>
  \<^verbatim>\<open>memcpy(&dst[i], src, n)\<close> on an array held as a list: the bytes \<open>i ..< i + n\<close> of \<open>dst\<close> are
  replaced by the first \<open>n\<close> bytes of \<open>src\<close>.
\<close>

definition buf_write :: "'a list \<Rightarrow> nat \<Rightarrow> 'a list \<Rightarrow> 'a list" where
  "buf_write dst i src = take i dst @ src @ drop (i + length src) dst"

definition buf_read :: "'a list \<Rightarrow> nat \<Rightarrow> nat \<Rightarrow> 'a list" where
  "buf_read src i n = take n (drop i src)"

lemma length_buf_write [simp]:
  "i + length src \<le> length dst \<Longrightarrow> length (buf_write dst i src) = length dst"
  by (simp add: buf_write_def)

lemma length_buf_read [simp]: "i + n \<le> length src \<Longrightarrow> length (buf_read src i n) = n"
  by (simp add: buf_read_def)

lemma nth_buf_write:
  assumes "i + length src \<le> length dst" "k < length dst"
  shows "buf_write dst i src ! k =
         (if i \<le> k \<and> k < i + length src then src ! (k - i) else dst ! k)"
  using assms by (auto simp: buf_write_def nth_append min_def)

lemma nth_buf_read [simp]: "i + n \<le> length src \<Longrightarrow> k < n \<Longrightarrow> buf_read src i n ! k = src ! (i + k)"
  by (simp add: buf_read_def)

lemma buf_read_write_same [buf_simps]:
  "i + length src \<le> length dst \<Longrightarrow> buf_read (buf_write dst i src) i (length src) = src"
  by (simp add: buf_read_def buf_write_def)

lemma buf_read_write_other [buf_simps]:
  assumes "i + length src \<le> length dst" "j + n \<le> length dst" "j + n \<le> i \<or> i + length src \<le> j"
  shows "buf_read (buf_write dst i src) j n = buf_read dst j n"
  using assms by (intro nth_equalityI) (auto simp: nth_buf_write)

lemma buf_read_append [buf_simps]:
  "buf_read src i m @ buf_read src (i + m) n = buf_read src i (m + n)"
  by (simp add: buf_read_def take_add add.commute)

section \<open>Little-endian words\<close>

definition le32 :: "u8 \<Rightarrow> u8 \<Rightarrow> u8 \<Rightarrow> u8 \<Rightarrow> u32" where
  "le32 b0 b1 b2 b3 =
     (ucast b0 :: u32) OR push_bit 8 (ucast b1) OR push_bit 16 (ucast b2) OR push_bit 24 (ucast b3)"

definition byte_of :: "u32 \<Rightarrow> nat \<Rightarrow> u8" where
  "byte_of w i = ucast (drop_bit (8 * i) w)"

definition le32_bytes :: "u32 \<Rightarrow> bytes" where
  "le32_bytes w = [byte_of w 0, byte_of w 1, byte_of w 2, byte_of w 3]"

definition get_le32 :: "bytes \<Rightarrow> nat \<Rightarrow> u32" where
  "get_le32 b i = le32 (b ! i) (b ! (i + 1)) (b ! (i + 2)) (b ! (i + 3))"

lemma length_le32_bytes [simp]: "length (le32_bytes w) = 4"
  by (simp add: le32_bytes_def)

lemma less_8_cases: "n < (8::nat) \<longleftrightarrow> n \<in> {0,1,2,3,4,5,6,7}"
  by auto

lemma bit_u8_less: "bit (b::u8) n \<Longrightarrow> n < 8"
  using bit_imp_le_length[of b n] by simp

lemma bit_u32_less: "bit (w::u32) n \<Longrightarrow> n < 32"
  using bit_imp_le_length[of w n] by simp

lemma u8_no_high_bit [simp]: "\<not> bit (b::u8) (8 + n)"
  by (auto dest: bit_u8_less)

lemma u32_high_bit: "bit (w::u32) (8 + n) \<Longrightarrow> n < 24"
  by (auto dest: bit_u32_less)

lemma ucast_u8_u32_u8 [simp]: "(ucast (ucast (b::u8) :: u32) :: u8) = b"
  by (rule bit_word_eqI) (simp add: bit_simps)

lemma ucast_u8_u32_inject [simp]: "(ucast (a::u8) :: u32) = ucast b \<longleftrightarrow> a = b"
  by (metis ucast_u8_u32_u8)

lemma u8_and_ff [simp]: "255 AND (b::u8) = b"
proof -
  have "(255::u8) = -1" by simp
  then show ?thesis by (metis and.left_neutral)
qed

lemma less_4_cases: "n < (4::nat) \<longleftrightarrow> n \<in> {0,1,2,3}"
  by auto

lemma xor_right_cancel [simp]: "(a::'a::len word) XOR c = b XOR c \<longleftrightarrow> a = b"
  by (metis xor.assoc xor.right_neutral xor_self_eq)

lemma xor_left_cancel [simp]: "(c::'a::len word) XOR a = c XOR b \<longleftrightarrow> a = b"
  by (metis xor_right_cancel xor.commute)

lemma bit_le32:
  "bit (le32 b0 b1 b2 b3) n \<longleftrightarrow>
     (if n < 8 then bit b0 n else if n < 16 then bit b1 (n - 8)
      else if n < 24 then bit b2 (n - 16) else if n < 32 then bit b3 (n - 24) else False)"
  by (auto simp: le32_def bit_simps dest: bit_imp_le_length)

lemma bit_byte_of: "bit (byte_of w i) n \<longleftrightarrow> n < 8 \<and> bit w (8 * i + n)"
  by (auto simp: byte_of_def bit_simps ac_simps)

lemma byte_of_le32 [simp]:
  "byte_of (le32 b0 b1 b2 b3) 0 = b0"
  "byte_of (le32 b0 b1 b2 b3) (Suc 0) = b1"
  "byte_of (le32 b0 b1 b2 b3) 2 = b2"
  "byte_of (le32 b0 b1 b2 b3) 3 = b3"
  by (auto intro!: bit_word_eqI simp: bit_byte_of bit_le32)

lemma le32_byte_of [simp]:
  "le32 (byte_of w 0) (byte_of w (Suc 0)) (byte_of w 2) (byte_of w 3) = w"
  by (rule bit_word_eqI) (simp add: bit_byte_of bit_le32, auto)

lemma byte_of_xor: "byte_of (a XOR b) i = byte_of a i XOR byte_of b i"
  by (auto intro!: bit_word_eqI simp: bit_byte_of bit_simps)

lemma le32_xor:
  "le32 a0 a1 a2 a3 XOR le32 b0 b1 b2 b3 =
   le32 (a0 XOR b0) (a1 XOR b1) (a2 XOR b2) (a3 XOR b3)"
  by (auto intro!: bit_word_eqI simp: bit_le32 bit_simps)

lemma le32_inject:
  "le32 a0 a1 a2 a3 = le32 b0 b1 b2 b3 \<longleftrightarrow> a0 = b0 \<and> a1 = b1 \<and> a2 = b2 \<and> a3 = b3"
  by (metis byte_of_le32)

lemma get_le32_bytes:
  "i + 4 \<le> length b \<Longrightarrow> le32_bytes (get_le32 b i) = buf_read b i 4"
proof (intro nth_equalityI)
  fix k assume len: "i + 4 \<le> length b" and "k < length (le32_bytes (get_le32 b i))"
  then have "k = 0 \<or> k = 1 \<or> k = 2 \<or> k = 3" by auto
  with len show "le32_bytes (get_le32 b i) ! k = buf_read b i 4 ! k"
    by (auto simp: le32_bytes_def get_le32_def)
qed simp

section \<open>C strings\<close>

text \<open>
  The prefix of a character array up to its NUL terminator, and \<^verbatim>\<open>strcmp\<close> equality of two
  arrays: the arrays are equal as C strings when these prefixes are.
\<close>

definition c_str :: "bytes \<Rightarrow> bytes" where
  "c_str b = takeWhile (\<lambda>c. c \<noteq> 0) b"

definition bytes_of_string :: "string \<Rightarrow> bytes" where
  "bytes_of_string s = map of_char s"

text \<open>A character array of \<open>n\<close> bytes initialised from a literal, padded with NUL.\<close>

definition char_array :: "nat \<Rightarrow> string \<Rightarrow> bytes" where
  "char_array n s = take n (bytes_of_string s @ replicate n 0)"

lemma length_char_array [simp]: "length (char_array n s) = n"
  by (simp add: char_array_def)

lemma c_str_take: "c_str (take k x) = take k (c_str x)"
  unfolding c_str_def by (induction x arbitrary: k) (auto simp: take_Cons' split: if_splits)

text \<open>A string that ends within the first \<open>k\<close> bytes depends on those bytes only.\<close>

lemma c_str_prefix:
  assumes "take k x = take k y" "length (c_str x) < k"
  shows "c_str y = c_str x"
proof -
  have eq: "take k (c_str y) = c_str x"
    using assms c_str_take[of k x] c_str_take[of k y] by simp
  with assms(2) have "min (length (c_str y)) k < k" by (metis length_take)
  then have "take k (c_str y) = c_str y" by (auto simp: min_def split: if_splits)
  with eq show ?thesis by simp
qed

lemma length_c_str_le: "length (c_str x) \<le> length x"
  by (simp add: c_str_def length_takeWhile_le)

lemma length_c_str_less: "0 \<in> set x \<Longrightarrow> length (c_str x) < length x"
  unfolding c_str_def by (induction x) auto

lemma c_str_append: "0 \<in> set x \<Longrightarrow> c_str (x @ y) = c_str x"
  unfolding c_str_def by (metis (mono_tags, lifting) takeWhile_append1)

end
