(* ===== verification/Crc32.thy ===== *)
theory Crc32
  imports Prelude
begin

text \<open>
  \<^verbatim>\<open>bootloader/src/rt_fota_crc.c\<close>: the table-driven CRC-32 that protects the header and the
  body of an upgrade image. The static array \<^verbatim>\<open>crc_tab\<close> is a value passed to the routines that
  read it; \<^verbatim>\<open>rt_fota_crc_init\<close> computes it. A buffer argument \<^verbatim>\<open>(buf, len)\<close> is the list of the
  \<^verbatim>\<open>len\<close> bytes the loop reads.
\<close>

section \<open>Model\<close>

definition bitrev_step :: "nat \<Rightarrow> nat \<Rightarrow> u32 \<times> u32 \<Rightarrow> u32 \<times> u32" where
  "bitrev_step width i = (\<lambda>(poly, var).
     (drop_bit 1 poly,
      if poly AND 1 \<noteq> 0 then var OR push_bit (width - 1 - i) 1 else var))"

definition bitrev :: "u32 \<Rightarrow> nat \<Rightarrow> u32" where
  "bitrev poly width = snd (fold (bitrev_step width) [0..<width] (poly, 0))"

definition crc_shift :: "u32 \<Rightarrow> u32 \<Rightarrow> u32" where
  "crc_shift poly c = (if c AND 1 \<noteq> 0 then poly XOR drop_bit 1 c else drop_bit 1 c)"

definition crc32_init :: "u32 \<Rightarrow> u32 list" where
  "crc32_init poly0 =
     (let poly = bitrev poly0 32
      in map (\<lambda>i. (crc_shift poly ^^ 8) (of_nat i)) [0..<256])"

fun crc32 :: "u32 list \<Rightarrow> u32 \<Rightarrow> bytes \<Rightarrow> u32" where
  "crc32 crc_tab crc_init [] = crc_init"
| "crc32 crc_tab crc_init (b # buf) =
     (let index = (ucast (crc_init XOR ucast b) :: u8)
      in crc32 crc_tab (drop_bit 8 crc_init XOR crc_tab ! unat index) buf)"

definition rt_fota_crc :: "u32 list \<Rightarrow> bytes \<Rightarrow> u32" where
  "rt_fota_crc crc_tab buf = crc32 crc_tab 0xFFFFFFFF buf XOR 0xFFFFFFFF"

definition rt_fota_step_crc :: "u32 list \<Rightarrow> u32 \<Rightarrow> bytes \<Rightarrow> u32" where
  "rt_fota_step_crc crc_tab crc buf = crc32 crc_tab crc buf"

definition POLYNOMIAL :: u32 where
  "POLYNOMIAL = 0x04c11db7"

definition rt_fota_crc_init :: "u32 list" where
  "rt_fota_crc_init = crc32_init POLYNOMIAL"

section \<open>Reference: CRC-32 by polynomial division\<close>

text \<open>
  The definition of the checksum, independent of the code: the bits of the message, the lowest bit of a byte first, go through
  the division by the polynomial 04C11DB7 in the normal order of its coefficients; the remainder starts with all ones, and is read
  backwards and inverted.
\<close>

definition divide_bit :: "u32 \<Rightarrow> bool \<Rightarrow> u32" where
  "divide_bit c b = (if bit c 31 \<noteq> b then push_bit 1 c XOR 0x04C11DB7 else push_bit 1 c)"

definition message_bits :: "bytes \<Rightarrow> bool list" where
  "message_bits bs = concat (map (\<lambda>b. map (bit b) [0..<8]) bs)"

definition reflect :: "u32 \<Rightarrow> u32" where
  "reflect c = horner_sum of_bool 2 (map (\<lambda>i. bit c (31 - i)) [0..<32])"

definition crc32_reference :: "bytes \<Rightarrow> u32" where
  "crc32_reference bs = NOT (reflect (fold (\<lambda>b c. divide_bit c b) (message_bits bs) 0xFFFFFFFF))"

text \<open>The register of the code, which is reflected, and what a byte does to it.\<close>

definition crc_poly :: u32 where
  "crc_poly = 0xEDB88320"

definition crc_byte :: "u32 \<Rightarrow> u8 \<Rightarrow> u32" where
  "crc_byte c b = (crc_shift crc_poly ^^ 8) (c XOR ucast b)"

definition crc_serial :: "u32 \<Rightarrow> bytes \<Rightarrow> u32" where
  "crc_serial c bs = fold (\<lambda>b c. crc_byte c b) bs c"

section \<open>Lemmas\<close>

lemma bitrev_polynomial: "bitrev POLYNOMIAL 32 = crc_poly"
  by (simp add: bitrev_def bitrev_step_def POLYNOMIAL_def crc_poly_def upt_conv_Cons)

lemma bit_crc_poly_31: "bit crc_poly 31"
  by (simp add: crc_poly_def)

lemma and_1_bit0: "(c::u32) AND 1 \<noteq> 0 \<longleftrightarrow> bit c 0"
  by (simp add: and_one_eq odd_iff_mod_2_eq_one bit_0)

lemma crc_shift_xor: "crc_shift p (a XOR b) = crc_shift p a XOR crc_shift p b"
  by (auto simp: crc_shift_def and_1_bit0 bit_simps intro!: bit_word_eqI)

lemma crc_shift_xor_funpow:
  "(crc_shift p ^^ n) (a XOR b) = (crc_shift p ^^ n) a XOR (crc_shift p ^^ n) b"
  by (induction n) (simp_all add: crc_shift_xor)

text \<open>A value whose \<open>n\<close> low bits are clear is only shifted by \<open>n\<close> rounds.\<close>

lemma crc_shift_funpow_low_clear:
  assumes "\<And>k. k < n \<Longrightarrow> \<not> bit c k"
  shows "(crc_shift p ^^ n) c = drop_bit n c"
  using assms
proof (induction n arbitrary: c)
  case 0
  then show ?case by simp
next
  case (Suc n)
  have "crc_shift p c = drop_bit 1 c"
    using Suc.prems[of 0] by (simp add: crc_shift_def and_1_bit0)
  moreover have "(crc_shift p ^^ n) (drop_bit 1 c) = drop_bit n (drop_bit 1 c)"
    by (rule Suc.IH) (use Suc.prems in \<open>simp add: bit_simps\<close>)
  ultimately show ?case by (simp add: funpow_swap1)
qed

lemma bit_31_crc_shift: "bit p 31 \<Longrightarrow> bit (crc_shift p c) 31 \<longleftrightarrow> bit c 0"
  by (auto simp: crc_shift_def and_1_bit0 bit_simps dest: bit_imp_le_length)

lemma crc_shift_inj:
  assumes "bit p 31"
  shows "inj (crc_shift p)"
proof (rule injI)
  fix a b assume eq: "crc_shift p a = crc_shift p b"
  then have b0: "bit a 0 = bit b 0"
    using bit_31_crc_shift[OF assms] by metis
  with eq have "drop_bit 1 a = drop_bit 1 b"
    by (simp add: crc_shift_def and_1_bit0 split: if_splits)
  then have "bit a (Suc n) = bit b (Suc n)" for n
    by (metis bit_drop_bit_eq comp_apply plus_1_eq_Suc)
  with b0 show "a = b"
    by (intro bit_word_eqI) (metis not0_implies_Suc)
qed

lemma crc_shift_funpow_inj: "bit p 31 \<Longrightarrow> inj (crc_shift p ^^ n)"
  by (induction n) (auto simp: crc_shift_inj intro: inj_compose)

lemma length_rt_fota_crc_init [simp]: "length rt_fota_crc_init = 256"
  by (simp add: rt_fota_crc_init_def crc32_init_def Let_def)

lemma rt_fota_crc_init_nth:
  "i < 256 \<Longrightarrow> rt_fota_crc_init ! i = (crc_shift crc_poly ^^ 8) (of_nat i)"
  by (simp add: rt_fota_crc_init_def crc32_init_def Let_def bitrev_polynomial)

lemma split_low_byte:
  "(x::u32) = ucast (ucast x :: u8) XOR push_bit 8 (drop_bit 8 x)"
  by (auto intro!: bit_word_eqI simp: bit_simps)

lemma crc_table_step:
  "drop_bit 8 c XOR rt_fota_crc_init ! unat (ucast (c XOR ucast (b::u8)) :: u8) = crc_byte c b"
proof -
  let ?x = "c XOR ucast b :: u32" and ?f = "crc_shift crc_poly ^^ 8"
  let ?i = "ucast ?x :: u8"
  have i: "unat ?i < 256" using unsigned_less[of ?i] by simp
  have "?f ?x = ?f (ucast ?i XOR push_bit 8 (drop_bit 8 ?x))"
    by (subst split_low_byte) simp
  also have "\<dots> = ?f (ucast ?i) XOR ?f (push_bit 8 (drop_bit 8 ?x))"
    by (rule crc_shift_xor_funpow)
  also have "?f (push_bit 8 (drop_bit 8 ?x)) = drop_bit 8 (push_bit 8 (drop_bit 8 ?x))"
    by (rule crc_shift_funpow_low_clear) (simp add: bit_simps)
  also have "\<dots> = drop_bit 8 c"
    by (auto intro!: bit_word_eqI simp: bit_simps dest: u32_high_bit)
  finally show ?thesis
    using i by (simp add: crc_byte_def rt_fota_crc_init_nth xor.commute)
qed

lemma crc32_serial: "crc32 rt_fota_crc_init c bs = crc_serial c bs"
  by (induction bs arbitrary: c) (simp_all add: crc_serial_def crc_table_step)

lemma crc32_append: "crc32 tab c (xs @ ys) = crc32 tab (crc32 tab c xs) ys"
  by (induction xs arbitrary: c) (simp_all add: Let_def)

lemma crc_byte_inj_state: "crc_byte c b = crc_byte d b \<Longrightarrow> c = d"
  using crc_shift_funpow_inj[OF bit_crc_poly_31, of 8]
  by (auto simp: crc_byte_def dest!: injD)

lemma crc_byte_inj_byte: "crc_byte c a = crc_byte c b \<Longrightarrow> a = b"
proof -
  assume "crc_byte c a = crc_byte c b"
  then have "c XOR ucast a = c XOR (ucast b :: u32)"
    using crc_shift_funpow_inj[OF bit_crc_poly_31, of 8] by (auto simp: crc_byte_def dest!: injD)
  then show "a = b" by simp
qed

lemma crc_serial_inj: "crc_serial c bs = crc_serial d bs \<Longrightarrow> c = d"
  by (induction bs arbitrary: c d) (auto simp: crc_serial_def dest: crc_byte_inj_state)

lemma rt_fota_crc_one_byte:
  assumes "a \<noteq> b"
  shows "rt_fota_crc rt_fota_crc_init (xs @ a # ys) \<noteq> rt_fota_crc rt_fota_crc_init (xs @ b # ys)"
proof
  let ?c = "crc_serial 0xFFFFFFFF xs"
  assume "rt_fota_crc rt_fota_crc_init (xs @ a # ys) = rt_fota_crc rt_fota_crc_init (xs @ b # ys)"
  then have "crc_serial (crc_byte ?c a) ys = crc_serial (crc_byte ?c b) ys"
    by (simp add: rt_fota_crc_def crc32_serial crc_serial_def)
  then have "crc_byte ?c a = crc_byte ?c b" by (rule crc_serial_inj)
  with assms show False by (blast dest: crc_byte_inj_byte)
qed

subsection \<open>The division\<close>

lemma bit_reflect [simp]: "bit (reflect c) n \<longleftrightarrow> n < 32 \<and> bit c (31 - n)"
  by (simp add: reflect_def bit_horner_sum_bit_word_iff cong: conj_cong)

lemma reflect_divide_bit: "reflect (divide_bit c b) = crc_shift crc_poly (reflect c XOR of_bool b)"
proof -
  have poly: "bit crc_poly n \<longleftrightarrow> bit (0x04C11DB7 :: u32) (31 - n)" if "n < 32" for n
  proof -
    have "list_all (\<lambda>n. bit crc_poly n = bit (0x04C11DB7 :: u32) (31 - n)) [0..<32]" unfolding crc_poly_def by code_simp
    then show ?thesis using that by (simp add: list_all_iff)
  qed
  have drop: "drop_bit 1 (reflect c XOR of_bool b) = drop_bit 1 (reflect c)"
    by (rule bit_word_eqI) (auto simp: bit_simps bit_of_bool_iff)
  have push: "reflect (push_bit 1 c) = drop_bit 1 (reflect c)"
  proof (rule bit_word_eqI)
    fix n assume "n < LENGTH(32)"
    then show "bit (reflect (push_bit 1 c)) n \<longleftrightarrow> bit (drop_bit 1 (reflect c)) n"
      unfolding bit_reflect bit_push_bit_iff bit_drop_bit_eq o_apply by auto
  qed
  have lin: "reflect (x XOR y) = reflect x XOR reflect y" for x y
    by (rule bit_word_eqI) (auto simp: bit_simps)
  have p: "reflect 0x04C11DB7 = crc_poly" by (rule bit_word_eqI) (auto simp: poly)
  have low: "bit (reflect c XOR of_bool b) 0 \<longleftrightarrow> bit c 31 \<noteq> b" by (auto simp: bit_simps bit_of_bool_iff)
  show ?thesis unfolding divide_bit_def crc_shift_def and_1_bit0 low drop
    by (cases "bit c 31 \<noteq> b") (simp_all only: if_True if_False push lin p xor.commute not_True_eq_False not_False_eq_True)
qed

lemma reflect_divide: "reflect (fold (\<lambda>b c. divide_bit c b) bs c) = fold (\<lambda>b c. crc_shift crc_poly (c XOR of_bool b)) bs (reflect c)"
  by (induction bs arbitrary: c) (simp_all add: reflect_divide_bit)

text \<open>Feeding bits one by one is feeding them at once.\<close>

lemma feed_bits:
  "n \<le> 8 \<Longrightarrow> fold (\<lambda>b c. crc_shift p (c XOR of_bool b)) (map (bit w) [0..<n]) c =
    (crc_shift p ^^ n) (c XOR ucast (take_bit n (w :: u8)))"
proof (induction n)
  case (Suc n)
  let ?b = "of_bool (bit w n) :: u32"
  have "(crc_shift p ^^ n) (push_bit n ?b) = drop_bit n (push_bit n ?b)"
    by (rule crc_shift_funpow_low_clear) (simp add: bit_simps)
  also have "\<dots> = ?b" using Suc.prems by (auto intro!: bit_word_eqI simp: bit_simps bit_of_bool_iff)
  finally have b: "(crc_shift p ^^ n) (push_bit n ?b) = ?b" .
  have w: "(ucast (take_bit n w) :: u32) XOR push_bit n ?b = ucast (take_bit (Suc n) w)"
    using Suc.prems by (auto intro!: bit_word_eqI simp: bit_simps bit_of_bool_iff less_Suc_eq)
  have "fold (\<lambda>b c. crc_shift p (c XOR of_bool b)) (map (bit w) [0..<Suc n]) c =
      crc_shift p ((crc_shift p ^^ n) (c XOR ucast (take_bit n w)) XOR (crc_shift p ^^ n) (push_bit n ?b))"
    using Suc by (simp add: b)
  also have "\<dots> = (crc_shift p ^^ Suc n) (c XOR ucast (take_bit (Suc n) w))"
    by (simp add: crc_shift_xor_funpow[symmetric] xor.assoc w)
  finally show ?case .
qed simp

lemma feed_message: "fold (\<lambda>b c. crc_shift crc_poly (c XOR of_bool b)) (message_bits bs) c = crc_serial c bs"
proof (induction bs arbitrary: c)
  case (Cons b bs)
  have "take_bit 8 b = b" by (simp add: take_bit_word_eq_self)
  then have "fold (\<lambda>b c. crc_shift crc_poly (c XOR of_bool b)) (map (bit b) [0..<8]) c = crc_byte c b"
    using feed_bits[of 8 crc_poly b c] by (simp only: crc_byte_def)
  then show ?case using Cons by (simp add: message_bits_def crc_serial_def del: upt_rec_numeral)
qed (simp add: message_bits_def crc_serial_def)

lemma crc32_reference_serial: "crc32_reference bs = crc_serial 0xFFFFFFFF bs XOR 0xFFFFFFFF"
proof -
  have ones: "(0xFFFFFFFF :: u32) = - 1" by simp
  have "reflect 0xFFFFFFFF = 0xFFFFFFFF" unfolding ones by (rule bit_word_eqI) simp
  moreover have "NOT c = c XOR 0xFFFFFFFF" for c :: u32 unfolding ones by (rule bit_word_eqI) (simp add: bit_simps)
  ultimately show ?thesis by (simp add: crc32_reference_def reflect_divide feed_message)
qed

section \<open>Properties\<close>

text \<open>
  C20: the table-driven CRC of the boot loader, run with the table that \<^verbatim>\<open>rt_fota_crc_init\<close>
  builds at start-up, is CRC-32 on every message: the division of the message by the polynomial 04C11DB7, bit by bit, with
  reflected bytes and remainder, initial value and final inversion FFFFFFFF.
\<close>

theorem rt_fota_crc_is_crc32:
  "rt_fota_crc rt_fota_crc_init buf = crc32_reference buf"
  by (simp add: rt_fota_crc_def crc32_serial crc32_reference_serial)

text \<open>
  The CRC detects every corruption confined to one byte: two messages that differ in exactly
  one byte have different checksums.
\<close>

theorem rt_fota_crc_detects_byte_error:
  assumes "a \<noteq> b"
  shows "rt_fota_crc rt_fota_crc_init (xs @ a # ys) \<noteq> rt_fota_crc rt_fota_crc_init (xs @ b # ys)"
  using assms by (rule rt_fota_crc_one_byte)

theorem rt_fota_crc_detects_byte_error_witness:
  "rt_fota_crc rt_fota_crc_init [0x31, 0x32, 0x33] \<noteq> rt_fota_crc rt_fota_crc_init [0x31, 0x30, 0x33]"
  using rt_fota_crc_detects_byte_error[where a = "0x32" and b = "0x30" and xs = "[0x31]" and ys = "[0x33]"] by simp

end
