(* ===== verification/Flash.thy ===== *)
theory Flash
  imports Prelude
begin

text \<open>
  \<^verbatim>\<open>board/drv_flash.c\<close>: read, program and erase of the on-chip NOR flash, with the two wrappers of
  \<^verbatim>\<open>libraries/MHSCPU_Driver/src/mhscpu_qspi.c\<close> it calls. The wrappers enter the chip's mask ROM,
  whose code is not part of the repository: the two ROM routines are the fields of the record
  \<^verbatim>\<open>rom\<close> that every definition takes. The memory-mapped flash is a function from addresses to
  bytes; \<^verbatim>\<open>CACHE_CleanAll\<close> makes reads of it see what was programmed and has no other effect.

  \<^verbatim>\<open>rom_frame\<close> is what the driver relies on in every case (a ROM call changes nothing but the
  page or sector it was asked to change), \<^verbatim>\<open>rom_nor\<close> the documented NOR behaviour (erase sets
  every byte of the sector to FF, programming clears bits, both report success); \<^verbatim>\<open>nor_rom\<close> is the
  ideal chip and satisfies both.
\<close>

section \<open>Model\<close>

type_synonym flash = "u32 \<Rightarrow> u8"

definition X25Q_PAGE_SIZE :: nat where "X25Q_PAGE_SIZE = 256"
definition MH_FLASH_GRANULARITY :: nat where "MH_FLASH_GRANULARITY = 4096"
definition MH_FLASH_START_ADRESS :: u32 where "MH_FLASH_START_ADRESS = 0x01000000"
definition MH_FLASH_SIZE :: u32 where "MH_FLASH_SIZE = 4096 * 1024"
definition MH_FLASH_END_ADDRESS :: u32 where
  "MH_FLASH_END_ADDRESS = MH_FLASH_START_ADRESS + MH_FLASH_SIZE"


definition RT_ALIGN :: "u32 \<Rightarrow> u32 \<Rightarrow> u32" where
  "RT_ALIGN sz align = (sz + align - 1) AND NOT (align - 1)"

definition RT_ALIGN_DOWN :: "u32 \<Rightarrow> u32 \<Rightarrow> u32" where
  "RT_ALIGN_DOWN sz align = sz AND NOT (align - 1)"

text \<open>The ROM routines: \<open>True\<close> is \<^verbatim>\<open>QSPI_STATUS_OK\<close>.\<close>

record rom =
  ROM_QSPI_EraseSector :: "u32 \<Rightarrow> flash \<Rightarrow> bool \<times> flash"
  ROM_QSPI_ProgramPage :: "u32 \<Rightarrow> bytes \<Rightarrow> flash \<Rightarrow> bool \<times> flash"

definition FLASH_EraseSector :: "rom \<Rightarrow> u32 \<Rightarrow> flash \<Rightarrow> bool \<times> flash" where
  "FLASH_EraseSector r sectorAddress m = ROM_QSPI_EraseSector r sectorAddress m"

definition FLASH_ProgramPage :: "rom \<Rightarrow> u32 \<Rightarrow> bytes \<Rightarrow> flash \<Rightarrow> bool \<times> flash" where
  "FLASH_ProgramPage r addr buffer m = ROM_QSPI_ProgramPage r addr buffer m"

definition flash_bytes :: "flash \<Rightarrow> u32 \<Rightarrow> nat \<Rightarrow> bytes" where
  "flash_bytes m addr n = map (\<lambda>i. m (addr + of_nat i)) [0..<n]"

definition mh_flash_read :: "flash \<Rightarrow> u32 \<Rightarrow> u32 \<Rightarrow> int \<times> bytes" where
  "mh_flash_read m addr sz =
     (if addr + sz > MH_FLASH_END_ADDRESS then (-1, [])
      else (sint sz, flash_bytes m addr (unat sz)))"

definition data_check :: "bytes \<Rightarrow> bytes \<Rightarrow> int" where
  "data_check src dst = (if src \<noteq> dst then -1 else 0)"

fun erase_check :: "flash \<Rightarrow> u32 \<Rightarrow> nat \<Rightarrow> int" where
  "erase_check m addr 0 = 0"
| "erase_check m addr (Suc pagNum) =
     (if data_check (replicate X25Q_PAGE_SIZE 0xFF) (flash_bytes m addr X25Q_PAGE_SIZE) \<noteq> 0 then -1
      else erase_check m (addr + of_nat X25Q_PAGE_SIZE) pagNum)"

text \<open>
  The bytes \<^verbatim>\<open>memcpy\<close> takes from the caller's buffer; \<open>None\<close> when it reads past the buffer's end.
\<close>

definition caller_bytes :: "bytes \<Rightarrow> nat \<Rightarrow> nat \<Rightarrow> bytes option" where
  "caller_bytes buf i n = (if i + n \<le> length buf then Some (buf_read buf i n) else None)"

text \<open>
  The length of the next piece: a whole page, the rest, or up to the next page boundary. The
  three branches of the loop body are the same but for this length. \<^verbatim>\<open>written_size\<close> starts at 0
  and only its first step can pass \<^verbatim>\<open>size\<close>, by less than a page, so it does not wrap.
\<close>

definition write_piece :: "u32 \<Rightarrow> nat \<Rightarrow> nat \<Rightarrow> nat" where
  "write_piece addr sz written_size =
     (let addr_mod = unat (addr + of_nat written_size) mod X25Q_PAGE_SIZE;
          num_pages = (sz - written_size) div X25Q_PAGE_SIZE;
          num_rest = (sz - written_size) mod X25Q_PAGE_SIZE
      in if addr_mod = 0 then (if num_pages > 0 then X25Q_PAGE_SIZE else num_rest)
         else X25Q_PAGE_SIZE - addr_mod)"

lemma write_piece_pos: "written_size < sz \<Longrightarrow> 0 < write_piece addr sz written_size"
  by (auto simp: write_piece_def Let_def X25Q_PAGE_SIZE_def)

function mh_flash_write_loop ::
  "rom \<Rightarrow> u32 \<Rightarrow> bytes \<Rightarrow> nat \<Rightarrow> nat \<Rightarrow> flash \<Rightarrow> (int \<times> flash) option" where
  "mh_flash_write_loop r addr buf sz written_size m =
     (if written_size < sz then
        (let n = write_piece addr sz written_size; a = addr + of_nat written_size
         in case caller_bytes buf written_size n of
              None \<Rightarrow> None
            | Some write_buf \<Rightarrow>
                (case FLASH_ProgramPage r a write_buf m of (ok, m') \<Rightarrow>
                   if \<not> ok then Some (- RT_ERROR, m')
                   else if data_check write_buf (flash_bytes m' a n) \<noteq> 0 then Some (- RT_ERROR, m')
                   else mh_flash_write_loop r addr buf sz (written_size + n) m'))
      else Some (0, m))"
  by pat_completeness auto
termination
  using write_piece_pos
  by (relation "measure (\<lambda>(r, addr, buf, sz, written_size, m). sz - written_size)")
     (auto simp: Let_def diff_less_mono2)

declare mh_flash_write_loop.simps [simp del]

definition mh_flash_write ::
  "rom \<Rightarrow> u32 \<Rightarrow> bytes \<Rightarrow> u32 \<Rightarrow> flash \<Rightarrow> (int \<times> flash) option" where
  "mh_flash_write r addr buf sz m =
     (if addr mod 4 \<noteq> 0 then Some (- RT_EINVAL, m)
      else if addr + sz > MH_FLASH_END_ADDRESS then Some (- RT_EINVAL, m)
      else if sz < 1 then Some (- RT_EINVAL, m)
      else case mh_flash_write_loop r addr buf (unat sz) 0 m of
             None \<Rightarrow> None
           | Some (result, m') \<Rightarrow> Some (if result \<noteq> 0 then result else sint sz, m'))"

fun mh_flash_erase_loop :: "rom \<Rightarrow> nat \<Rightarrow> u32 \<Rightarrow> flash \<Rightarrow> int \<times> flash" where
  "mh_flash_erase_loop r 0 sector m = (0, m)"
| "mh_flash_erase_loop r (Suc k) sector m =
     (case FLASH_EraseSector r sector m of (ok, m') \<Rightarrow>
        if \<not> ok then (- RT_ERROR, m')
        else if erase_check m' sector 16 \<noteq> 0 then (- RT_ERROR, m')
        else mh_flash_erase_loop r k (sector + of_nat MH_FLASH_GRANULARITY) m')"

definition mh_flash_erase :: "rom \<Rightarrow> u32 \<Rightarrow> u32 \<Rightarrow> flash \<Rightarrow> int \<times> flash" where
  "mh_flash_erase r addr sz m =
     (if addr + sz > MH_FLASH_END_ADDRESS then (- RT_EINVAL, m)
      else if sz < 1 then (- RT_EINVAL, m)
      else let sector = RT_ALIGN_DOWN addr (of_nat MH_FLASH_GRANULARITY);
               sector_num = RT_ALIGN sz (of_nat MH_FLASH_GRANULARITY) div of_nat MH_FLASH_GRANULARITY
           in case mh_flash_erase_loop r (unat sector_num) sector m of (result, m') \<Rightarrow>
                (if result \<noteq> 0 then result else sint sz, m'))"

text \<open>The operations of \<^verbatim>\<open>mh_onchip_flash\<close>, at an offset of the device.\<close>

definition fal_flash_read :: "flash \<Rightarrow> u32 \<Rightarrow> u32 \<Rightarrow> int \<times> bytes" where
  "fal_flash_read m offset sz = mh_flash_read m (MH_FLASH_START_ADRESS + offset) sz"

definition fal_flash_write :: "rom \<Rightarrow> u32 \<Rightarrow> bytes \<Rightarrow> u32 \<Rightarrow> flash \<Rightarrow> (int \<times> flash) option" where
  "fal_flash_write r offset buf sz m = mh_flash_write r (MH_FLASH_START_ADRESS + offset) buf sz m"

definition fal_flash_erase :: "rom \<Rightarrow> u32 \<Rightarrow> u32 \<Rightarrow> flash \<Rightarrow> int \<times> flash" where
  "fal_flash_erase r offset sz m = mh_flash_erase r (MH_FLASH_START_ADRESS + offset) sz m"

section \<open>What the driver relies on\<close>

text \<open>\<open>x\<close> lies in the \<open>n\<close> bytes from \<open>a\<close> on (modulo the address space).\<close>

definition in_range :: "u32 \<Rightarrow> nat \<Rightarrow> u32 \<Rightarrow> bool" where
  "in_range a n x \<longleftrightarrow> unat (x - a) < n"

definition rom_frame :: "rom \<Rightarrow> bool" where
  "rom_frame r \<longleftrightarrow>
     (\<forall>a m x. unat a mod 4096 = 0 \<longrightarrow> \<not> in_range a 4096 x \<longrightarrow>
        snd (ROM_QSPI_EraseSector r a m) x = m x) \<and>
     (\<forall>a d m x. unat a mod 256 + length d \<le> 256 \<longrightarrow> \<not> in_range a (length d) x \<longrightarrow>
        snd (ROM_QSPI_ProgramPage r a d m) x = m x)"

definition rom_nor :: "rom \<Rightarrow> bool" where
  "rom_nor r \<longleftrightarrow>
     (\<forall>a m. unat a mod 4096 = 0 \<longrightarrow>
        ROM_QSPI_EraseSector r a m = (True, \<lambda>x. if in_range a 4096 x then 0xFF else m x)) \<and>
     (\<forall>a d m. unat a mod 256 + length d \<le> 256 \<longrightarrow>
        ROM_QSPI_ProgramPage r a d m =
          (True, \<lambda>x. if in_range a (length d) x then m x AND d ! unat (x - a) else m x))"

definition nor_rom :: rom where
  "nor_rom = \<lparr>
     ROM_QSPI_EraseSector = (\<lambda>a m. (True, \<lambda>x. if in_range a 4096 x then 0xFF else m x)),
     ROM_QSPI_ProgramPage = (\<lambda>a d m.
       (True, \<lambda>x. if in_range a (length d) x then m x AND d ! unat (x - a) else m x))\<rparr>"

lemma rom_nor_nor_rom: "rom_nor nor_rom"
  by (simp add: rom_nor_def nor_rom_def)

lemma rom_frame_nor_rom: "rom_frame nor_rom"
  by (simp add: rom_frame_def nor_rom_def)

lemma rom_nor_frame: "rom_nor r \<Longrightarrow> rom_frame r"
  by (simp add: rom_nor_def rom_frame_def)

section \<open>Lemmas\<close>

lemmas flash_consts =
  X25Q_PAGE_SIZE_def MH_FLASH_GRANULARITY_def MH_FLASH_START_ADRESS_def MH_FLASH_SIZE_def
  MH_FLASH_END_ADDRESS_def RT_ERROR_def RT_EINVAL_def

subsection \<open>Ranges of the address space\<close>

lemma length_flash_bytes [simp]: "length (flash_bytes m a n) = n"
  by (simp add: flash_bytes_def)

lemma nth_flash_bytes [simp]: "i < n \<Longrightarrow> flash_bytes m a n ! i = m (a + of_nat i)"
  by (simp add: flash_bytes_def)

lemma in_range_offset: "i < n \<Longrightarrow> in_range a n (a + of_nat i)"
  by (auto simp: in_range_def unat_of_nat intro: le_less_trans[OF mod_less_eq_dividend])

lemma in_rangeE:
  assumes "in_range a n x"
  obtains i where "i < n" "x = a + of_nat i"
proof
  show "unat (x - a) < n" using assms by (simp add: in_range_def)
  show "x = a + of_nat (unat (x - a))" by simp
qed

lemma flash_bytes_cong:
  "(\<And>x. in_range a n x \<Longrightarrow> m x = m' x) \<Longrightarrow> flash_bytes m a n = flash_bytes m' a n"
  by (auto simp: flash_bytes_def in_range_offset)

lemma flash_bytes_eqD:
  "flash_bytes m a n = flash_bytes m' a n \<Longrightarrow> in_range a n x \<Longrightarrow> m x = m' x"
  by (metis in_rangeE nth_flash_bytes)

lemma flash_bytes_append:
  "flash_bytes m a (p + q) = flash_bytes m a p @ flash_bytes m (a + of_nat p) q"
  by (rule nth_equalityI) (auto simp: nth_append ac_simps simp flip: of_nat_add)

lemma in_range_mono: "in_range a p x \<Longrightarrow> p \<le> q \<Longrightarrow> in_range a q x"
  by (simp add: in_range_def)

lemma in_range_split:
  assumes "p + q \<le> 2 ^ 32"
  shows "in_range a (p + q) x \<longleftrightarrow> in_range a p x \<or> in_range (a + of_nat p) q x"
    and "\<not> (in_range a p x \<and> in_range (a + of_nat p) q x)"
proof -
  define k where "k = unat (x - a)"
  have k: "k < 2 ^ 32" unfolding k_def using unsigned_less[of "x - a", where 'a = nat] by simp
  have "x - (a + of_nat p) = of_nat k - of_nat p" by (simp add: k_def algebra_simps)
  moreover have "of_nat k - of_nat p = (of_nat (if p \<le> k then k - p else 2 ^ 32 + k - p) :: u32)"
    using assms by (auto simp: of_nat_diff)
  ultimately have "unat (x - (a + of_nat p)) = (if p \<le> k then k - p else (2 ^ 32 + k - p) mod 2 ^ 32)"
    using k by (simp add: unat_of_nat)
  moreover have "(2 ^ 32 + k - p) mod 2 ^ 32 = 2 ^ 32 + k - p" if "\<not> p \<le> k"
    using that assms by (intro mod_less) linarith
  ultimately have u: "unat (x - (a + of_nat p)) = (if p \<le> k then k - p else 2 ^ 32 + k - p)"
    by simp
  show "in_range a (p + q) x \<longleftrightarrow> in_range a p x \<or> in_range (a + of_nat p) q x"
    and "\<not> (in_range a p x \<and> in_range (a + of_nat p) q x)"
    using assms k unfolding in_range_def u k_def[symmetric] by auto
qed

lemma unat_add_of_nat_mod:
  assumes "d dvd 2 ^ 32"
  shows "unat (a + of_nat k :: u32) mod d = (unat a + k) mod d"
proof -
  have "unat (a + of_nat k :: u32) = (unat a + k) mod 2 ^ 32"
    by (simp add: unat_word_ariths unat_of_nat mod_add_right_eq)
  then show ?thesis using mod_mod_cancel[OF assms, of "unat a + k"] by simp
qed

subsection \<open>Programming\<close>

text \<open>
  The first piece does not run past the end of the write: it starts on a page boundary, or the
  write reaches the next one.
\<close>

definition no_overshoot :: "u32 \<Rightarrow> nat \<Rightarrow> nat \<Rightarrow> bool" where
  "no_overshoot addr sz w \<longleftrightarrow>
     w < sz \<longrightarrow> (unat addr + w) mod 256 = 0 \<or> 256 - (unat addr + w) mod 256 \<le> sz - w"

lemma write_piece_nat:
  "write_piece addr sz w =
     (let amod = (unat addr + w) mod 256
      in if amod = 0 then (if 256 \<le> sz - w then 256 else (sz - w) mod 256) else 256 - amod)"
  by (simp add: write_piece_def X25Q_PAGE_SIZE_def unat_add_of_nat_mod Let_def div_greater_zero_iff)

lemma write_piece_le:
  "no_overshoot addr sz w \<Longrightarrow> w < sz \<Longrightarrow> write_piece addr sz w \<le> sz - w"
  by (auto simp: write_piece_nat no_overshoot_def Let_def)

lemma write_piece_in_page:
  "unat (addr + of_nat w) mod 256 + write_piece addr sz w \<le> 256"
  by (auto simp: write_piece_nat unat_add_of_nat_mod Let_def intro: less_imp_le)

lemma mod256_step:
  assumes "n = 256 - x mod (256::nat)"
  shows "(x + n) mod 256 = 0"
proof -
  have "x + n = 256 * (x div 256) + 256"
    using assms mult_div_mod_eq[of 256 x] mod_less_divisor[of 256 x] by linarith
  then show ?thesis by simp
qed

lemma no_overshoot_step:
  assumes "w < sz" "no_overshoot addr sz w"
  shows "no_overshoot addr sz (w + write_piece addr sz w)"
proof (cases "(unat addr + w) mod 256 = 0 \<and> sz - w < 256")
  case True
  with assms(1) show ?thesis by (auto simp: write_piece_nat no_overshoot_def)
next
  case False
  then have "write_piece addr sz w = 256 - (unat addr + w) mod 256"
    by (auto simp: write_piece_nat Let_def)
  then have "(unat addr + w + write_piece addr sz w) mod 256 = 0"
    by (rule mod256_step)
  then show ?thesis by (simp add: no_overshoot_def add.assoc)
qed

lemma caller_bytes_SomeD:
  "caller_bytes buf i n = Some d \<Longrightarrow> d = buf_read buf i n \<and> length d = n \<and> i + n \<le> length buf"
  by (auto simp: caller_bytes_def split: if_splits)

lemma FLASH_ProgramPage_frame:
  assumes "rom_frame r" "FLASH_ProgramPage r a d m = (ok, m')" "unat a mod 256 + length d \<le> 256"
    and "\<not> in_range a (length d) x"
  shows "m' x = m x"
  using assms unfolding rom_frame_def FLASH_ProgramPage_def by (metis snd_conv)

text \<open>One unfolding of the loop, as a case analysis.\<close>

lemma mh_flash_write_loop_cases:
  assumes "mh_flash_write_loop r addr buf sz w m = Some (res, m')" "w < sz"
  obtains d ok m1 where
    "d = buf_read buf w (write_piece addr sz w)" "length d = write_piece addr sz w"
    "FLASH_ProgramPage r (addr + of_nat w) d m = (ok, m1)"
    "(res = - RT_ERROR \<and> m' = m1) \<or>
     (flash_bytes m1 (addr + of_nat w) (write_piece addr sz w) = d \<and>
      mh_flash_write_loop r addr buf sz (w + write_piece addr sz w) m1 = Some (res, m'))"
  using assms
  by (subst (asm) mh_flash_write_loop.simps)
     (auto simp: Let_def data_check_def split: option.splits prod.splits if_splits
           dest!: caller_bytes_SomeD)

lemma mh_flash_write_loop_done: "\<not> w < sz \<Longrightarrow> mh_flash_write_loop r addr buf sz w m = Some (0, m)"
  by (simp add: mh_flash_write_loop.simps)

lemma mh_flash_write_loop_frame:
  assumes "rom_frame r" "sz \<le> 2 ^ 32"
    and "mh_flash_write_loop r addr buf sz w m = Some (res, m')"
    and "no_overshoot addr sz w" "\<not> in_range (addr + of_nat w) (sz - w) x"
  shows "m' x = m x"
  using assms(3-)
proof (induction "sz - w" arbitrary: w m rule: less_induct)
  case less
  let ?n = "write_piece addr sz w"
  show ?case
  proof (cases "w < sz")
    case True
    from less.prems(1) True obtain d ok m1 where
      d: "length d = ?n" "FLASH_ProgramPage r (addr + of_nat w) d m = (ok, m1)" and
      rest: "(res = - RT_ERROR \<and> m' = m1) \<or>
        mh_flash_write_loop r addr buf sz (w + ?n) m1 = Some (res, m')"
      by (cases rule: mh_flash_write_loop_cases) auto
    have n: "?n \<le> sz - w" "0 < ?n"
      using less.prems(2) True by (auto intro: write_piece_le write_piece_pos)
    have outside: "\<not> in_range (addr + of_nat w) ?n x"
      "\<not> in_range (addr + of_nat (w + ?n)) (sz - (w + ?n)) x"
      using in_range_split(1)[of ?n "sz - (w + ?n)" "addr + of_nat w" x] n assms(2) less.prems(3)
      by (simp_all add: add.assoc)
    have m1: "m1 x = m x"
      using assms(1) d(2) by (rule FLASH_ProgramPage_frame) (use d(1) outside(1) write_piece_in_page in auto)
    have "m' x = m1 x"
      using rest
    proof
      assume "mh_flash_write_loop r addr buf sz (w + ?n) m1 = Some (res, m')"
      then show ?thesis
        using n no_overshoot_step[OF True less.prems(2)] outside(2) by (intro less.hyps) auto
    qed simp
    with m1 show ?thesis by simp
  qed (use less.prems in \<open>simp add: mh_flash_write_loop_done\<close>)
qed

lemma mh_flash_write_loop_content:
  assumes "rom_frame r" "sz \<le> 2 ^ 32"
    and "mh_flash_write_loop r addr buf sz w m = Some (0, m')" "no_overshoot addr sz w"
  shows "flash_bytes m' (addr + of_nat w) (sz - w) = buf_read buf w (sz - w)"
  using assms(3-)
proof (induction "sz - w" arbitrary: w m rule: less_induct)
  case less
  let ?n = "write_piece addr sz w" and ?a = "addr + of_nat w"
  show ?case
  proof (cases "w < sz")
    case True
    from less.prems(1) True obtain d m1 where
      d: "d = buf_read buf w ?n" "flash_bytes m1 ?a ?n = d" and
      rest: "mh_flash_write_loop r addr buf sz (w + ?n) m1 = Some (0, m')"
      by (cases rule: mh_flash_write_loop_cases) (auto simp: RT_ERROR_def)
    have n: "?n \<le> sz - w" "0 < ?n"
      using less.prems(2) True by (auto intro: write_piece_le write_piece_pos)
    have no: "no_overshoot addr sz (w + ?n)"
      using True less.prems(2) by (rule no_overshoot_step)
    have "flash_bytes m' ?a ?n = flash_bytes m1 ?a ?n"
    proof (rule flash_bytes_cong)
      fix x assume "in_range ?a ?n x"
      then have "\<not> in_range (addr + of_nat (w + ?n)) (sz - (w + ?n)) x"
        using in_range_split(2)[of ?n "sz - (w + ?n)" ?a x] n assms(2) by (simp add: add.assoc)
      with assms(1,2) rest no show "m' x = m1 x" by (rule mh_flash_write_loop_frame)
    qed
    moreover have "flash_bytes m' (addr + of_nat (w + ?n)) (sz - (w + ?n)) =
        buf_read buf (w + ?n) (sz - (w + ?n))"
      using n no rest by (intro less.hyps) auto
    ultimately have "flash_bytes m' ?a (?n + (sz - (w + ?n))) = buf_read buf w (?n + (sz - (w + ?n)))"
      using d by (simp add: flash_bytes_append buf_read_append add.assoc)
    with n show ?thesis by simp
  qed (simp add: flash_bytes_def buf_read_def)
qed

lemma FLASH_ProgramPage_nor:
  assumes "rom_nor r" "unat a mod 256 + length d \<le> 256" "length d \<le> 2 ^ 32"
    and "\<And>x. in_range a (length d) x \<Longrightarrow> m x = 0xFF"
  obtains m' where "FLASH_ProgramPage r a d m = (True, m')" "flash_bytes m' a (length d) = d"
proof
  let ?m = "\<lambda>x. if in_range a (length d) x then m x AND d ! unat (x - a) else m x"
  show "FLASH_ProgramPage r a d m = (True, ?m)"
    using assms(1,2) by (simp add: rom_nor_def FLASH_ProgramPage_def)
  show "flash_bytes ?m a (length d) = d"
  proof (rule nth_equalityI)
    fix i assume "i < length (flash_bytes ?m a (length d))"
    then have "i < length d" by simp
    moreover from this have "unat (of_nat i :: u32) = i"
      using assms(3) by (simp add: unat_of_nat)
    ultimately show "flash_bytes ?m a (length d) ! i = d ! i"
      using in_range_offset[of i "length d" a] assms(4)[of "a + of_nat i"] by simp
  qed simp
qed

lemma mh_flash_write_loop_nor:
  assumes "rom_nor r" "sz \<le> 2 ^ 32" "sz \<le> length buf"
    and "no_overshoot addr sz w"
    and "\<And>x. in_range (addr + of_nat w) (sz - w) x \<Longrightarrow> m x = 0xFF"
  shows "\<exists>m'. mh_flash_write_loop r addr buf sz w m = Some (0, m')"
  using assms(4-)
proof (induction "sz - w" arbitrary: w m rule: less_induct)
  case less
  let ?n = "write_piece addr sz w" and ?a = "addr + of_nat w"
  show ?case
  proof (cases "w < sz")
    case True
    let ?d = "buf_read buf w ?n"
    have n: "?n \<le> sz - w" "0 < ?n"
      using less.prems(1) True by (auto intro: write_piece_le write_piece_pos)
    have d: "caller_bytes buf w ?n = Some ?d" "length ?d = ?n"
      using n assms(3) by (auto simp: caller_bytes_def)
    have split: "in_range ?a (sz - w) x \<longleftrightarrow> in_range ?a ?n x \<or> in_range (addr + of_nat (w + ?n)) (sz - (w + ?n)) x"
      and disj: "\<not> (in_range ?a ?n x \<and> in_range (addr + of_nat (w + ?n)) (sz - (w + ?n)) x)" for x
      using in_range_split[of ?n "sz - (w + ?n)" ?a x] n assms(2) by (simp_all add: add.assoc)
    have erased: "in_range ?a (length ?d) x \<Longrightarrow> m x = 0xFF" for x
      using d less.prems(2) split by simp
    have bound: "unat ?a mod 256 + length ?d \<le> 256" "length ?d \<le> 2 ^ 32"
      using d(2) n(1) assms(2) write_piece_in_page by auto
    obtain m1 where m1: "FLASH_ProgramPage r ?a ?d m = (True, m1)" "flash_bytes m1 ?a (length ?d) = ?d"
      using FLASH_ProgramPage_nor[OF assms(1) bound erased] .
    have "m1 x = 0xFF" if "in_range (addr + of_nat (w + ?n)) (sz - (w + ?n)) x" for x
    proof -
      have "m1 x = m x"
        using rom_nor_frame[OF assms(1)] m1(1) bound(1)
        by (rule FLASH_ProgramPage_frame) (use that disj d(2) in auto)
      with that less.prems(2) split show ?thesis by simp
    qed
    then have "\<exists>m'. mh_flash_write_loop r addr buf sz (w + ?n) m1 = Some (0, m')"
      using n no_overshoot_step[OF True less.prems(1)] by (intro less.hyps) auto
    with True d m1 show ?thesis
      by (subst mh_flash_write_loop.simps) (simp add: Let_def data_check_def)
  qed (simp add: mh_flash_write_loop_done)
qed

subsection \<open>Erasing\<close>

definition erased :: "flash \<Rightarrow> u32 \<Rightarrow> nat \<Rightarrow> bool" where
  "erased m a n \<longleftrightarrow> (\<forall>x. in_range a n x \<longrightarrow> m x = 0xFF)"

lemma erased_flash_bytes: "erased m a n \<longleftrightarrow> flash_bytes m a n = replicate n 0xFF"
proof
  assume "erased m a n"
  then show "flash_bytes m a n = replicate n 0xFF"
    by (intro nth_equalityI) (auto simp: erased_def in_range_offset)
next
  assume "flash_bytes m a n = replicate n 0xFF"
  then show "erased m a n"
    unfolding erased_def by (metis in_rangeE nth_flash_bytes nth_replicate)
qed

lemma erased_append: "erased m a (p + q) \<longleftrightarrow> erased m a p \<and> erased m (a + of_nat p) q"
  by (auto simp: erased_flash_bytes flash_bytes_append replicate_add)

lemma erased_subrange: "erased m a n \<Longrightarrow> k \<le> n \<Longrightarrow> erased m a k"
  by (auto simp: erased_def intro: in_range_mono)

lemma erase_check_eq_0: "erase_check m a k = 0 \<longleftrightarrow> erased m a (k * 256)"
proof (induction k arbitrary: a)
  case 0
  then show ?case by (simp add: erased_def in_range_def)
next
  case (Suc k)
  have "erased m a (Suc k * 256) \<longleftrightarrow> erased m a 256 \<and> erased m (a + 256) (k * 256)"
    using erased_append[of m a 256 "k * 256"] by simp
  moreover have "data_check (replicate X25Q_PAGE_SIZE 0xFF) (flash_bytes m a X25Q_PAGE_SIZE) = 0
      \<longleftrightarrow> erased m a 256"
    by (auto simp: data_check_def X25Q_PAGE_SIZE_def erased_flash_bytes)
  moreover have "erase_check m (a + of_nat X25Q_PAGE_SIZE) k = 0 \<longleftrightarrow> erased m (a + 256) (k * 256)"
    using Suc.IH[of "a + 256"] by (simp add: X25Q_PAGE_SIZE_def)
  ultimately show ?case by (simp only: erase_check.simps) (simp split: if_split)
qed

lemma FLASH_EraseSector_frame:
  assumes "rom_frame r" "FLASH_EraseSector r a m = (ok, m')" "unat a mod 4096 = 0"
    and "\<not> in_range a 4096 x"
  shows "m' x = m x"
  using assms unfolding rom_frame_def FLASH_EraseSector_def by (metis snd_conv)

lemma sector_step: "unat (a::u32) mod 4096 = 0 \<Longrightarrow> unat (a + of_nat MH_FLASH_GRANULARITY) mod 4096 = 0"
  using unat_add_of_nat_mod[of 4096 a 4096] by (simp add: MH_FLASH_GRANULARITY_def)

lemma sector_split:
  assumes "Suc k * 4096 \<le> 2 ^ 32"
  shows "in_range a (Suc k * 4096) x \<longleftrightarrow>
      in_range a 4096 x \<or> in_range (a + of_nat MH_FLASH_GRANULARITY) (k * 4096) x"
    and "\<not> (in_range a 4096 x \<and> in_range (a + of_nat MH_FLASH_GRANULARITY) (k * 4096) x)"
  using in_range_split[of 4096 "k * 4096" a x] assms by (simp_all add: MH_FLASH_GRANULARITY_def)

lemma mh_flash_erase_loop_frame:
  assumes "rom_frame r" "unat a mod 4096 = 0" "k * 4096 \<le> 2 ^ 32"
    and "mh_flash_erase_loop r k a m = (res, m')" "\<not> in_range a (k * 4096) x"
  shows "m' x = m x"
  using assms(2-)
proof (induction k arbitrary: a m)
  case (Suc k)
  obtain ok m1 where m1: "FLASH_EraseSector r a m = (ok, m1)" by fastforce
  have "m1 x = m x"
    using assms(1) m1 Suc.prems(1) by (rule FLASH_EraseSector_frame) (use Suc.prems sector_split in auto)
  moreover have "m' x = m1 x"
    using Suc.prems m1 sector_split[OF Suc.prems(2)] sector_step[OF Suc.prems(1)] Suc.IH
    by (auto split: if_splits)
  ultimately show ?case by simp
qed simp

lemma mh_flash_erase_loop_erased:
  assumes "rom_frame r" "unat a mod 4096 = 0" "k * 4096 \<le> 2 ^ 32"
    and "mh_flash_erase_loop r k a m = (0, m')"
  shows "erased m' a (k * 4096)"
  using assms(2-)
proof (induction k arbitrary: a m)
  case 0
  then show ?case by (simp add: erased_def in_range_def)
next
  case (Suc k)
  let ?b = "a + of_nat MH_FLASH_GRANULARITY"
  obtain ok m1 where "FLASH_EraseSector r a m = (ok, m1)" by fastforce
  with Suc.prems have rest: "erase_check m1 a 16 = 0" "mh_flash_erase_loop r k ?b m1 = (0, m')"
    by (auto simp: RT_ERROR_def split: if_splits)
  have "erased m' ?b (k * 4096)"
    using Suc.prems rest(2) by (intro Suc.IH) (auto simp: sector_step)
  moreover have "m' x = m1 x" if "in_range a 4096 x" for x
    using assms(1) sector_step[OF Suc.prems(1)] _ rest(2)
    by (rule mh_flash_erase_loop_frame) (use that Suc.prems sector_split in auto)
  ultimately show ?case
    using rest(1) sector_split(1)[OF Suc.prems(2)] by (auto simp: erase_check_eq_0 erased_def)
qed

lemma mh_flash_erase_loop_nor:
  assumes "rom_nor r" "unat a mod 4096 = 0"
  shows "\<exists>m'. mh_flash_erase_loop r k a m = (0, m')"
  using assms(2)
proof (induction k arbitrary: a m)
  case (Suc k)
  let ?m = "\<lambda>x. if in_range a 4096 x then 0xFF else m x"
  have "FLASH_EraseSector r a m = (True, ?m)"
    using assms(1) Suc.prems by (simp add: rom_nor_def FLASH_EraseSector_def)
  moreover have "erase_check ?m a 16 = 0"
    by (simp add: erase_check_eq_0 erased_def)
  ultimately show ?case
    using Suc.IH[OF sector_step[OF Suc.prems]] by simp
qed simp

lemma and_not_mask_word: "(w::u32) AND NOT (mask n) = push_bit n (drop_bit n w)"
  by (rule bit_word_eqI) (auto simp: bit_simps)

lemma unat_align_down: "unat ((w::u32) AND NOT (mask 12)) = unat w div 4096 * 4096"
proof -
  have "unat w div 4096 * 4096 < 2 ^ 32"
    using unsigned_less[of w, where 'a = nat] by (simp add: le_less_trans[OF div_times_less_eq_dividend])
  then show ?thesis
    by (simp add: and_not_mask_word push_bit_eq_mult drop_bit_eq_div unat_word_ariths unat_div)
qed

lemma RT_ALIGN_DOWN_aligned:
  assumes "unat a mod 4096 = 0"
  shows "RT_ALIGN_DOWN a (of_nat MH_FLASH_GRANULARITY) = a"
proof -
  have "unat (a AND NOT (mask 12)) = unat a"
    using assms by (simp add: unat_align_down minus_mod_eq_div_mult[symmetric])
  then show ?thesis
    by (simp add: RT_ALIGN_DOWN_def MH_FLASH_GRANULARITY_def mask_eq_exp_minus_1 word_unat_eq_iff)
qed

definition sectors :: "nat \<Rightarrow> nat" where
  "sectors n = (n + 4095) div 4096"

lemma sectors_ge: "n \<le> sectors n * 4096"
  by (simp add: sectors_def)

lemma sectors_le: "n \<le> k * 4096 \<Longrightarrow> sectors n \<le> k"
  by (simp add: sectors_def)

lemma sector_num_sectors:
  assumes "unat sz + 4095 < 2 ^ 32"
  shows "unat (RT_ALIGN sz (of_nat MH_FLASH_GRANULARITY) div of_nat MH_FLASH_GRANULARITY) = sectors (unat sz)"
proof -
  have "RT_ALIGN sz (of_nat MH_FLASH_GRANULARITY) = (sz + 4095) AND NOT (mask 12)"
    by (simp add: RT_ALIGN_def MH_FLASH_GRANULARITY_def mask_eq_exp_minus_1 add.commute)
  moreover have "unat (sz + 4095) = unat sz + 4095"
    using assms by (simp add: unat_word_ariths)
  ultimately show ?thesis
    by (simp only: unat_div unat_align_down) (simp add: MH_FLASH_GRANULARITY_def sectors_def)
qed

text \<open>A range that lies inside the flash, so that no address computation wraps.\<close>

definition within_flash :: "u32 \<Rightarrow> nat \<Rightarrow> bool" where
  "within_flash a n \<longleftrightarrow> unat MH_FLASH_START_ADRESS \<le> unat a \<and> unat a + n \<le> unat MH_FLASH_END_ADDRESS"

lemma within_flash_check:
  assumes "within_flash a (unat sz)"
  shows "\<not> a + sz > MH_FLASH_END_ADDRESS" "sint sz = int (unat sz)" "unat sz + 4095 < 2 ^ 32"
proof -
  have b: "unat a + unat sz \<le> 0x1400000" "unat sz \<le> 0x400000"
    using assms by (auto simp: within_flash_def flash_consts)
  then have "unat (a + sz) = unat a + unat sz" by (simp add: unat_word_ariths)
  with b show "\<not> a + sz > MH_FLASH_END_ADDRESS"
    by (simp add: word_less_nat_alt flash_consts)
  show "unat sz + 4095 < 2 ^ 32" using b by simp
  have "unat sz < 2 ^ 31" using b(2) by simp
  then have "int (unat sz) < int (2 ^ 31)" by (simp only: of_nat_less_iff)
  then have "uint sz < 2 ^ 31" by simp
  then show "sint sz = int (unat sz)"
    using unsigned_greater_eq[of sz, where 'a = int]
    by (simp add: sint_uint signed_take_bit_int_eq_self order_trans[of _ "0::int"])
qed

lemma mh_flash_read_within:
  "within_flash a (unat sz) \<Longrightarrow> mh_flash_read m a sz = (int (unat sz), flash_bytes m a (unat sz))"
  using within_flash_check[of a sz] by (simp add: mh_flash_read_def)

lemma mh_flash_write_loop_code:
  assumes "mh_flash_write_loop r addr buf sz w m = Some (res, m')"
  shows "res = 0 \<or> res = - RT_ERROR"
  using assms
proof (induction "sz - w" arbitrary: w m rule: less_induct)
  case less
  show ?case
  proof (cases "w < sz")
    case True
    let ?n = "write_piece addr sz w"
    have "sz - (w + ?n) < sz - w" using True write_piece_pos[OF True, of addr] by linarith
    with less.prems True show ?thesis
      by (cases rule: mh_flash_write_loop_cases) (use less.hyps in blast)+
  qed (use less.prems in \<open>simp add: mh_flash_write_loop_done\<close>)
qed

lemma mh_flash_write_result:
  assumes "mh_flash_write r addr buf sz m = Some (res, m')" "0 \<le> res"
  shows "res = sint sz" "mh_flash_write_loop r addr buf (unat sz) 0 m = Some (0, m')"
proof -
  from assms obtain res' where loop: "mh_flash_write_loop r addr buf (unat sz) 0 m = Some (res', m')"
    and r: "res = (if res' \<noteq> 0 then res' else sint sz)"
    by (auto simp: mh_flash_write_def RT_EINVAL_def split: if_splits option.splits)
  with assms(2) mh_flash_write_loop_code[OF loop] have "res' = 0" by (auto simp: RT_ERROR_def)
  with loop r show "res = sint sz" "mh_flash_write_loop r addr buf (unat sz) 0 m = Some (0, m')"
    by simp_all
qed

lemma u32_le_2p32: "unat (sz::u32) \<le> 2 ^ 32"
  using unsigned_less[of sz, where 'a = nat] by simp

lemma no_overshoot_0:
  "unat addr mod 256 = 0 \<or> 256 - unat addr mod 256 \<le> n \<Longrightarrow> no_overshoot addr n 0"
  by (simp add: no_overshoot_def)

lemma mh_flash_erase_result:
  assumes "mh_flash_erase r addr sz m = (res, m')" "0 \<le> res" "unat sz + 4095 < 2 ^ 32"
  shows "res = sint sz"
    "mh_flash_erase_loop r (sectors (unat sz)) (RT_ALIGN_DOWN addr (of_nat MH_FLASH_GRANULARITY)) m = (0, m')"
proof -
  have res: "mh_flash_erase_loop r k a m0 = (res', m'') \<Longrightarrow> res' = 0 \<or> res' = - RT_ERROR" for k a m0 res' m''
    by (induction k arbitrary: a m0) (auto split: prod.splits if_splits)
  from assms(1,2) obtain res' where
    loop: "mh_flash_erase_loop r (sectors (unat sz)) (RT_ALIGN_DOWN addr (of_nat MH_FLASH_GRANULARITY)) m = (res', m')"
    and r: "res = (if res' \<noteq> 0 then res' else sint sz)"
    by (auto simp: mh_flash_erase_def RT_EINVAL_def Let_def sector_num_sectors[OF assms(3)]
        split: if_splits prod.splits)
  with assms(2) res[OF loop] have "res' = 0" by (auto simp: RT_ERROR_def)
  with loop r show "res = sint sz"
    "mh_flash_erase_loop r (sectors (unat sz)) (RT_ALIGN_DOWN addr (of_nat MH_FLASH_GRANULARITY)) m = (0, m')"
    by simp_all
qed

lemma sectors_bound: "unat (sz::u32) + 4095 < 2 ^ 32 \<Longrightarrow> sectors (unat sz) * 4096 \<le> 2 ^ 32"
  by (simp add: sectors_def le_trans[OF div_times_less_eq_dividend])

lemma mh_flash_write_sound:
  assumes "rom_frame r"
    and "mh_flash_write r addr buf sz m = Some (res, m')" "0 \<le> res"
    and "unat addr mod 256 = 0 \<or> 256 - unat addr mod 256 \<le> unat sz"
  shows "res = sint sz \<and> flash_bytes m' addr (unat sz) = take (unat sz) buf \<and>
    (\<forall>x. \<not> in_range addr (unat sz) x \<longrightarrow> m' x = m x)"
proof (intro conjI allI impI)
  note ok = mh_flash_write_result[OF assms(2,3)]
  have no: "no_overshoot addr (unat sz) 0" using assms(4) by (rule no_overshoot_0)
  show "res = sint sz" by (rule ok(1))
  show "flash_bytes m' addr (unat sz) = take (unat sz) buf"
    using mh_flash_write_loop_content[OF assms(1) u32_le_2p32 ok(2) no] by (simp add: buf_read_def)
  show "m' x = m x" if "\<not> in_range addr (unat sz) x" for x
    using mh_flash_write_loop_frame[OF assms(1) u32_le_2p32 ok(2) no] that by simp
qed

text \<open>A successful erase erases whole sectors.\<close>

lemma mh_flash_erase_sectors:
  assumes "rom_frame r" "mh_flash_erase r addr sz m = (res, m')" "0 \<le> res"
    and "unat addr mod 4096 = 0" "unat sz + 4095 < 2 ^ 32"
  shows "erased m' addr (sectors (unat sz) * 4096)"
  using assms(1,4) sectors_bound[OF assms(5)]
    mh_flash_erase_result(2)[OF assms(2,3,5), unfolded RT_ALIGN_DOWN_aligned[OF assms(4)]]
  by (rule mh_flash_erase_loop_erased)

lemma mh_flash_erase_sound:
  assumes "rom_frame r" "mh_flash_erase r addr sz m = (res, m')" "0 \<le> res"
    and "unat addr mod 4096 = 0" "unat sz + 4095 < 2 ^ 32"
  shows "res = sint sz \<and> erased m' addr (unat sz) \<and>
    (\<forall>x. \<not> in_range addr (sectors (unat sz) * 4096) x \<longrightarrow> m' x = m x)"
proof (intro conjI allI impI)
  note ok = mh_flash_erase_result[OF assms(2,3,5), unfolded RT_ALIGN_DOWN_aligned[OF assms(4)]]
  note bound = sectors_bound[OF assms(5)]
  show "res = sint sz" by (rule ok(1))
  show "erased m' addr (unat sz)"
    using mh_flash_erase_sectors[OF assms] sectors_ge by (rule erased_subrange)
  show "m' x = m x" if "\<not> in_range addr (sectors (unat sz) * 4096) x" for x
    using assms(1,4) bound ok(2) that by (rule mh_flash_erase_loop_frame)
qed

lemma mh_flash_erase_nor:
  assumes "rom_nor r" "within_flash addr (unat sz)" "unat addr mod 4096 = 0" "0 < unat sz"
  shows "\<exists>m'. mh_flash_erase r addr sz m = (sint sz, m')"
  using mh_flash_erase_loop_nor[OF assms(1,3), of "sectors (unat sz)" m] assms(4)
    within_flash_check[OF assms(2)]
  by (auto simp: mh_flash_erase_def Let_def sector_num_sectors RT_ALIGN_DOWN_aligned[OF assms(3)]
      word_less_nat_alt)

lemma mh_flash_write_nor:
  assumes "rom_nor r" "within_flash addr (unat sz)" "unat addr mod 4 = 0" "0 < unat sz"
    and "unat addr mod 256 = 0 \<or> 256 - unat addr mod 256 \<le> unat sz"
    and "unat sz \<le> length buf" "erased m addr (unat sz)"
  shows "\<exists>m'. mh_flash_write r addr buf sz m = Some (sint sz, m')"
proof -
  have "addr mod 4 = 0"
    using assms(3) by (simp add: word_unat_eq_iff unat_mod)
  moreover have "\<exists>m'. mh_flash_write_loop r addr buf (unat sz) 0 m = Some (0, m')"
    using assms(1) u32_le_2p32 assms(6) no_overshoot_0[OF assms(5)]
    by (rule mh_flash_write_loop_nor) (use assms(7) in \<open>simp add: erased_def\<close>)
  ultimately show ?thesis
    using within_flash_check[OF assms(2)] assms(4) by (auto simp: mh_flash_write_def word_less_nat_alt)
qed

section \<open>Properties\<close>

text \<open>
  C25: a successful write stores exactly the caller's bytes and nothing else. Whatever the ROM does
  inside the pages it programs, when \<^verbatim>\<open>mh_flash_write\<close> reports success the flash holds the first
  \<open>sz\<close> bytes of the buffer at \<open>addr\<close> (the read-back of each page guarantees it), and every other
  address is unchanged, provided the write starts on a page boundary or reaches the next one.
\<close>

theorem mh_flash_write_correct:
  assumes "rom_frame r"
    and "mh_flash_write r addr buf sz m = Some (res, m')" "0 \<le> res"
    and "unat addr mod 256 = 0 \<or> 256 - unat addr mod 256 \<le> unat sz"
  shows "res = sint sz \<and> flash_bytes m' addr (unat sz) = take (unat sz) buf \<and>
    (\<forall>x. \<not> in_range addr (unat sz) x \<longrightarrow> m' x = m x)"
  using assms by (rule mh_flash_write_sound)

theorem mh_flash_write_correct_witness:
  "\<exists>m'. mh_flash_write nor_rom 0x01010000 [1, 2, 3, 4] 4 (\<lambda>_. 0xFF) = Some (4, m') \<and>
     flash_bytes m' 0x01010000 4 = [1, 2, 3, 4] \<and> m' 0x01010004 = 0xFF"
proof -
  obtain m' where w: "mh_flash_write nor_rom 0x01010000 [1, 2, 3, 4] 4 (\<lambda>_. 0xFF) = Some (sint (4::u32), m')"
    using mh_flash_write_nor[OF rom_nor_nor_rom, of "0x01010000" 4 "[1, 2, 3, 4]" "\<lambda>_. 0xFF"]
    by (auto simp: within_flash_def flash_consts erased_def)
  show ?thesis
    using w mh_flash_write_correct[OF rom_frame_nor_rom w] by (auto simp: in_range_def)
qed

text \<open>
  A successful erase from a sector boundary leaves every byte of the range FF and touches only
  the sectors the range covers.
\<close>

theorem mh_flash_erase_correct:
  assumes "rom_frame r" "mh_flash_erase r addr sz m = (res, m')" "0 \<le> res"
    and "unat addr mod 4096 = 0" "unat sz + 4095 < 2 ^ 32"
  shows "res = sint sz \<and> erased m' addr (unat sz) \<and>
    (\<forall>x. \<not> in_range addr (sectors (unat sz) * 4096) x \<longrightarrow> m' x = m x)"
  using assms by (rule mh_flash_erase_sound)

theorem mh_flash_erase_correct_witness:
  "\<exists>m'. mh_flash_erase nor_rom 0x01001000 5000 (\<lambda>_. 0) = (5000, m') \<and>
     erased m' 0x01001000 5000 \<and> m' 0x01003000 = 0"
proof -
  obtain m' where w: "mh_flash_erase nor_rom 0x01001000 5000 (\<lambda>_. 0) = (sint (5000::u32), m')"
    using mh_flash_erase_nor[OF rom_nor_nor_rom, of "0x01001000" 5000 "\<lambda>_. 0"]
    by (auto simp: within_flash_def flash_consts)
  show ?thesis
    using w mh_flash_erase_correct[OF rom_frame_nor_rom w] by (auto simp: in_range_def sectors_def)
qed

text \<open>
  On a chip with NOR behaviour the driver makes progress: erasing a range that starts on a
  sector boundary and writing it succeeds, and reading the range back returns the bytes written.
\<close>

theorem mh_flash_erase_write_read:
  assumes "rom_nor r" "within_flash addr (unat sz)" "unat addr mod 4096 = 0" "0 < unat sz"
    and "unat sz \<le> length buf"
  shows "\<exists>m1 m2. mh_flash_erase r addr sz m = (sint sz, m1) \<and>
    mh_flash_write r addr buf sz m1 = Some (sint sz, m2) \<and>
    mh_flash_read m2 addr sz = (sint sz, take (unat sz) buf)"
proof -
  note chk = within_flash_check[OF assms(2)]
  obtain m1 where m1: "mh_flash_erase r addr sz m = (sint sz, m1)"
    using mh_flash_erase_nor[OF assms(1-4)] by blast
  have pos: "0 \<le> sint sz" using chk(2) by simp
  have er: "erased m1 addr (unat sz)"
    using mh_flash_erase_sound[OF rom_nor_frame[OF assms(1)] m1 pos assms(3) chk(3)] by blast
  have al: "unat addr mod 4 = 0" "unat addr mod 256 = 0"
    using assms(3) by (simp_all add: mod_eq_0_iff_dvd) (auto elim: dvd_trans[rotated])
  then obtain m2 where m2: "mh_flash_write r addr buf sz m1 = Some (sint sz, m2)"
    using mh_flash_write_nor[OF assms(1,2) al(1) assms(4) _ assms(5) er] by auto
  have "flash_bytes m2 addr (unat sz) = take (unat sz) buf"
    using mh_flash_write_sound[OF rom_nor_frame[OF assms(1)] m2 pos] al(2) by blast
  with m1 m2 show ?thesis using mh_flash_read_within[OF assms(2)] chk(2) by simp
qed

theorem mh_flash_erase_write_read_witness:
  "\<exists>m1 m2. mh_flash_erase nor_rom 0x01001000 8 (\<lambda>_. 0) = (8, m1) \<and>
     mh_flash_write nor_rom 0x01001000 [1, 2, 3, 4, 5, 6, 7, 8, 9] 8 m1 = Some (8, m2) \<and>
     mh_flash_read m2 0x01001000 8 = (8, [1, 2, 3, 4, 5, 6, 7, 8])"
  using mh_flash_erase_write_read[OF rom_nor_nor_rom, of "0x01001000" 8 "[1, 2, 3, 4, 5, 6, 7, 8, 9]" "\<lambda>_. 0"]
  by (simp add: within_flash_def flash_consts)

text \<open>
  A write that starts inside a page and ends before the page does takes a whole page tail from
  the caller's buffer: with a buffer of exactly \<open>sz\<close> bytes it reads past the buffer's end. The
  piece length of the first iteration is not limited by the bytes left to write.
\<close>

theorem mh_flash_write_short_unaligned:
  assumes "unat addr mod 256 \<noteq> 0" "unat sz < 256 - unat addr mod 256" "length buf = unat sz"
    and "addr mod 4 = 0" "\<not> addr + sz > MH_FLASH_END_ADDRESS" "0 < unat sz"
  shows "mh_flash_write r addr buf sz m = None"
proof -
  have "write_piece addr (unat sz) 0 = 256 - unat addr mod 256"
    using assms(1) by (simp add: write_piece_nat)
  then have "caller_bytes buf 0 (write_piece addr (unat sz) 0) = None"
    using assms(2,3) by (simp add: caller_bytes_def)
  then have "mh_flash_write_loop r addr buf (unat sz) 0 m = None"
    using assms(6) by (subst mh_flash_write_loop.simps) (simp add: Let_def)
  with assms show ?thesis by (auto simp: mh_flash_write_def word_less_nat_alt)
qed

theorem mh_flash_write_short_unaligned_witness:
  "mh_flash_write nor_rom 0x01001004 [1, 2, 3, 4] 4 (\<lambda>_. 0xFF) = None"
  by (rule mh_flash_write_short_unaligned) (simp_all add: flash_consts)

text \<open>
  An erase that does not start on a sector boundary can report success and leave the end of the
  range as it was: the number of sectors is computed from the size alone.
\<close>

theorem mh_flash_erase_unaligned_incomplete:
  assumes "rom_nor r"
  shows "\<exists>m'. mh_flash_erase r 0x01001004 4096 m = (4096, m') \<and>
    in_range 0x01001004 4096 0x01002000 \<and> m' 0x01002000 = m 0x01002000"
proof -
  have al: "RT_ALIGN_DOWN 0x01001004 (of_nat MH_FLASH_GRANULARITY) = 0x01001000"
    by (simp add: RT_ALIGN_DOWN_def MH_FLASH_GRANULARITY_def)
  have num: "unat (RT_ALIGN 4096 (of_nat MH_FLASH_GRANULARITY) div of_nat MH_FLASH_GRANULARITY) = Suc 0"
    by (simp add: RT_ALIGN_def MH_FLASH_GRANULARITY_def)
  obtain m' where m': "mh_flash_erase_loop r (Suc 0) 0x01001000 m = (0, m')"
    using mh_flash_erase_loop_nor[OF assms, of "0x01001000" "Suc 0" m] by auto
  then have "mh_flash_erase r 0x01001004 4096 m = (4096, m')"
    unfolding mh_flash_erase_def Let_def al num by (simp add: flash_consts)
  moreover have "m' 0x01002000 = m 0x01002000"
    using rom_nor_frame[OF assms] _ _ m' by (rule mh_flash_erase_loop_frame) (simp_all add: in_range_def)
  ultimately show ?thesis by (auto simp: in_range_def)
qed

theorem mh_flash_erase_unaligned_incomplete_witness:
  "\<exists>m'. mh_flash_erase nor_rom 0x01001004 4096 (\<lambda>_. 0) = (4096, m') \<and> m' 0x01002000 = 0"
  using mh_flash_erase_unaligned_incomplete[OF rom_nor_nor_rom, of "\<lambda>_. 0"] by auto

end
