(* ===== verification/Fal.thy ===== *)
theory Fal
  imports Flash
begin

text \<open>
  The flash abstraction layer \<^verbatim>\<open>packages/fal-v0.5.0/src\<close> (\<^verbatim>\<open>fal.c\<close>, \<^verbatim>\<open>fal_flash.c\<close>,
  \<^verbatim>\<open>fal_partition.c\<close>) over the device and the partition table of \<^verbatim>\<open>board/ports/fal_cfg.h\<close>, in the
  configuration of the boot loader: the table is compiled in (\<^verbatim>\<open>FAL_PART_HAS_TABLE_CFG\<close>) and
  \<^verbatim>\<open>assert\<close> is empty (\<^verbatim>\<open>FAL_DEBUG\<close> is 0). The three static \<^verbatim>\<open>init_ok\<close> flags and the table pointer
  with its length are the record \<^verbatim>\<open>fal_state\<close>.

  The locale \<^verbatim>\<open>flash_device\<close> is the contract between the partition layer and a device driver;
  the locale \<^verbatim>\<open>onchip_flash\<close> (a ROM that satisfies \<^verbatim>\<open>rom_frame\<close>) implies it for the driver of
  \<^verbatim>\<open>drv_flash.c\<close>.
\<close>

section \<open>Model\<close>

definition FAL_DEV_NAME_MAX :: nat where "FAL_DEV_NAME_MAX = 24"
definition FAL_PART_MAGIC_WROD :: u32 where "FAL_PART_MAGIC_WROD = 0x45503130"

record fal_flash_dev =
  dev_name :: bytes
  dev_addr :: u32
  dev_len :: u32
  blk_size :: u32
  ops_read :: "flash \<Rightarrow> u32 \<Rightarrow> u32 \<Rightarrow> int \<times> bytes"
  ops_write :: "u32 \<Rightarrow> bytes \<Rightarrow> u32 \<Rightarrow> flash \<Rightarrow> (int \<times> flash) option"
  ops_erase :: "u32 \<Rightarrow> u32 \<Rightarrow> flash \<Rightarrow> int \<times> flash"

record fal_partition =
  magic_word :: u32
  part_name :: bytes
  flash_name :: bytes
  part_offset :: u32
  part_len :: u32

record fal_state =
  fal_ok :: bool
  flash_ok :: bool
  partition_ok :: bool
  partition_table :: "fal_partition list"

definition mh_onchip_flash :: "rom \<Rightarrow> fal_flash_dev" where
  "mh_onchip_flash r = \<lparr>
     dev_name = char_array FAL_DEV_NAME_MAX ''onchip_flash'',
     dev_addr = MH_FLASH_START_ADRESS,
     dev_len = MH_FLASH_SIZE,
     blk_size = of_nat MH_FLASH_GRANULARITY,
     ops_read = fal_flash_read, ops_write = fal_flash_write r, ops_erase = fal_flash_erase r\<rparr>"

definition device_table :: "rom \<Rightarrow> fal_flash_dev list" where
  "device_table r = [mh_onchip_flash r]"

definition mk_part :: "string \<Rightarrow> u32 \<Rightarrow> u32 \<Rightarrow> fal_partition" where
  "mk_part name off len = \<lparr>
     magic_word = FAL_PART_MAGIC_WROD,
     part_name = char_array FAL_DEV_NAME_MAX name,
     flash_name = char_array FAL_DEV_NAME_MAX ''onchip_flash'',
     part_offset = off, part_len = len\<rparr>"

text \<open>\<^verbatim>\<open>FAL_PART_TABLE\<close>: each partition starts where the one before it ends.\<close>

definition partition_table_def :: "fal_partition list" where
  "partition_table_def =
     (let G = of_nat MH_FLASH_GRANULARITY;
          FLASH_PARAM_OFFSET = 0; FLASH_PARAM_SIZE = 1 * G;
          BOOT_OFFSET = FLASH_PARAM_OFFSET + FLASH_PARAM_SIZE; BOOT_SIZE = 22 * G;
          PARAMETER_OFFSET = BOOT_OFFSET + BOOT_SIZE; PARAMETER_SIZE = 1 * G;
          APP_OFFSET = PARAMETER_OFFSET + PARAMETER_SIZE; APP_SIZE = 360 * G;
          FONT_OFFSET = APP_OFFSET + APP_SIZE; FONT_SIZE = 128 * G;
          OTA_OFFSET = FONT_OFFSET + FONT_SIZE; OTA_SIZE = 360 * G;
          FS_OFFSET = OTA_OFFSET + OTA_SIZE; FS_SIZE = 152 * G
      in [mk_part ''header'' FLASH_PARAM_OFFSET FLASH_PARAM_SIZE,
          mk_part ''boot'' BOOT_OFFSET BOOT_SIZE,
          mk_part ''param'' PARAMETER_OFFSET PARAMETER_SIZE,
          mk_part ''app'' APP_OFFSET APP_SIZE,
          mk_part ''font'' FONT_OFFSET FONT_SIZE,
          mk_part ''download'' OTA_OFFSET OTA_SIZE,
          mk_part ''fs'' FS_OFFSET FS_SIZE])"

definition fal_reset :: fal_state where
  "fal_reset = \<lparr>fal_ok = False, flash_ok = False, partition_ok = False, partition_table = []\<rparr>"

text \<open>The device of the table has no \<^verbatim>\<open>init\<close> routine, so initialisation only sets the flag.\<close>

definition fal_flash_init :: "fal_state \<Rightarrow> int \<times> fal_state" where
  "fal_flash_init s = (if flash_ok s then (0, s) else (0, s\<lparr>flash_ok := True\<rparr>))"

definition fal_flash_device_find :: "rom \<Rightarrow> bytes \<Rightarrow> fal_flash_dev option" where
  "fal_flash_device_find r name =
     find (\<lambda>d. c_str (take FAL_DEV_NAME_MAX name) = c_str (take FAL_DEV_NAME_MAX (dev_name d)))
       (device_table r)"

fun part_table_check :: "rom \<Rightarrow> fal_partition list \<Rightarrow> bool" where
  "part_table_check r [] = True"
| "part_table_check r (p # ps) =
     (case fal_flash_device_find r (flash_name p) of
        None \<Rightarrow> part_table_check r ps
      | Some flash_dev \<Rightarrow>
          if sint (part_offset p) \<ge> sint (dev_len flash_dev) then False else part_table_check r ps)"

definition fal_partition_init :: "rom \<Rightarrow> fal_state \<Rightarrow> int \<times> fal_state" where
  "fal_partition_init r s =
     (if partition_ok s then (int (length (partition_table s)), s)
      else if part_table_check r partition_table_def
      then (int (length partition_table_def),
            s\<lparr>partition_table := partition_table_def, partition_ok := True\<rparr>)
      else (0, s\<lparr>partition_table := []\<rparr>))"

definition fal_init :: "rom \<Rightarrow> fal_state \<Rightarrow> int \<times> fal_state" where
  "fal_init r s0 =
     (case fal_flash_init s0 of (res1, s1) \<Rightarrow>
      case (if res1 < 0 then (res1, s1) else fal_partition_init r s1) of (res, s) \<Rightarrow>
        (res, if res > 0 \<and> \<not> fal_ok s then s\<lparr>fal_ok := True\<rparr>
              else if res \<le> 0 then s\<lparr>fal_ok := False\<rparr> else s))"

definition fal_init_check :: "fal_state \<Rightarrow> int" where
  "fal_init_check s = (if fal_ok s then 1 else 0)"

definition fal_partition_find :: "fal_state \<Rightarrow> bytes \<Rightarrow> fal_partition option" where
  "fal_partition_find s name = find (\<lambda>p. c_str name = c_str (part_name p)) (partition_table s)"

definition fal_get_partition_table :: "fal_state \<Rightarrow> fal_partition list" where
  "fal_get_partition_table s = partition_table s"

definition fal_set_partition_table_temp :: "fal_partition list \<Rightarrow> fal_state \<Rightarrow> fal_state" where
  "fal_set_partition_table_temp table s = s\<lparr>partition_table := table\<rparr>"

definition fal_partition_read :: "rom \<Rightarrow> fal_partition \<Rightarrow> u32 \<Rightarrow> u32 \<Rightarrow> flash \<Rightarrow> int \<times> bytes" where
  "fal_partition_read r part addr sz m =
     (if addr + sz > part_len part then (-1, [])
      else case fal_flash_device_find r (flash_name part) of
             None \<Rightarrow> (-1, [])
           | Some flash_dev \<Rightarrow> ops_read flash_dev m (part_offset part + addr) sz)"

definition fal_partition_write ::
  "rom \<Rightarrow> fal_partition \<Rightarrow> u32 \<Rightarrow> bytes \<Rightarrow> u32 \<Rightarrow> flash \<Rightarrow> (int \<times> flash) option" where
  "fal_partition_write r part addr buf sz m =
     (if addr + sz > part_len part then Some (-1, m)
      else case fal_flash_device_find r (flash_name part) of
             None \<Rightarrow> Some (-1, m)
           | Some flash_dev \<Rightarrow> ops_write flash_dev (part_offset part + addr) buf sz m)"

definition fal_partition_erase :: "rom \<Rightarrow> fal_partition \<Rightarrow> u32 \<Rightarrow> u32 \<Rightarrow> flash \<Rightarrow> int \<times> flash" where
  "fal_partition_erase r part addr sz m =
     (if addr + sz > part_len part then (-1, m)
      else case fal_flash_device_find r (flash_name part) of
             None \<Rightarrow> (-1, m)
           | Some flash_dev \<Rightarrow> ops_erase flash_dev (part_offset part + addr) sz m)"

definition fal_partition_erase_all :: "rom \<Rightarrow> fal_partition \<Rightarrow> flash \<Rightarrow> int \<times> flash" where
  "fal_partition_erase_all r part m = fal_partition_erase r part 0 (part_len part) m"

section \<open>The device contract\<close>

text \<open>
  What the partition layer relies on: offsets below the device length address the cells of the
  device, a read returns them, a write that reports success has stored the caller's bytes and an
  erase that reports success has set the cells to FF, neither touching a cell outside the range
  (the sectors of the range, for an erase).
\<close>

locale flash_device =
  fixes dev :: fal_flash_dev and cell :: "nat \<Rightarrow> u32" and len :: nat
  assumes read_cells: "off + n \<le> len \<Longrightarrow>
      ops_read dev m (of_nat off) (of_nat n) = (int n, map (\<lambda>i. m (cell (off + i))) [0..<n])"
    and write_cells: "off + n \<le> len \<Longrightarrow> off mod 256 = 0 \<or> 256 - off mod 256 \<le> n \<Longrightarrow>
      ops_write dev (of_nat off) buf (of_nat n) m = Some (res, m') \<Longrightarrow> 0 \<le> res \<Longrightarrow>
      map (\<lambda>i. m' (cell (off + i))) [0..<n] = take n buf \<and>
      (\<forall>i < len. i < off \<or> off + n \<le> i \<longrightarrow> m' (cell i) = m (cell i))"
    and erase_cells: "off + n \<le> len \<Longrightarrow> off mod 4096 = 0 \<Longrightarrow>
      ops_erase dev (of_nat off) (of_nat n) m = (res, m') \<Longrightarrow> 0 \<le> res \<Longrightarrow>
      (\<forall>i < n. m' (cell (off + i)) = 0xFF) \<and>
      (\<forall>i < len. i < off \<or> off + sectors n * 4096 \<le> i \<longrightarrow> m' (cell i) = m (cell i))"

begin

lemma read_after_write:
  assumes "off + n \<le> len" "off mod 256 = 0 \<or> 256 - off mod 256 \<le> n"
    and "ops_write dev (of_nat off) buf (of_nat n) m = Some (res, m')" "0 \<le> res"
  shows "ops_read dev m' (of_nat off) (of_nat n) = (int n, take n buf)"
  using read_cells[OF assms(1), of m'] write_cells[OF assms] by simp

lemma read_other_after_write:
  assumes "off + n \<le> len" "off mod 256 = 0 \<or> 256 - off mod 256 \<le> n"
    and "ops_write dev (of_nat off) buf (of_nat n) m = Some (res, m')" "0 \<le> res"
    and "j + k \<le> len" "j + k \<le> off \<or> off + n \<le> j"
  shows "ops_read dev m' (of_nat j) (of_nat k) = ops_read dev m (of_nat j) (of_nat k)"
  using read_cells[OF assms(5)] write_cells[OF assms(1-4)] assms(5,6) by auto

lemma read_after_erase:
  assumes "off + n \<le> len" "off mod 4096 = 0"
    and "ops_erase dev (of_nat off) (of_nat n) m = (res, m')" "0 \<le> res" "j + k \<le> n"
  shows "ops_read dev m' (of_nat (off + j)) (of_nat k) = (int k, replicate k 0xFF)"
proof -
  have "map (\<lambda>i. m' (cell (off + j + i))) [0..<k] = replicate k 0xFF"
    using erase_cells[OF assms(1-4)] assms(5) by (intro nth_equalityI) (auto simp: add.assoc)
  with assms(1,5) show ?thesis using read_cells[of "off + j" k m'] by simp
qed

lemma read_other_after_erase:
  assumes "off + n \<le> len" "off mod 4096 = 0"
    and "ops_erase dev (of_nat off) (of_nat n) m = (res, m')" "0 \<le> res"
    and "j + k \<le> len" "j + k \<le> off \<or> off + sectors n * 4096 \<le> j"
  shows "ops_read dev m' (of_nat j) (of_nat k) = ops_read dev m (of_nat j) (of_nat k)"
  using read_cells[OF assms(5)] erase_cells[OF assms(1-4)] assms(5,6) by auto

end

text \<open>The driver of the on-chip flash, over a ROM that keeps to the range it is asked to change.\<close>

definition flash_cell :: "nat \<Rightarrow> u32" where
  "flash_cell i = MH_FLASH_START_ADRESS + of_nat i"

definition flash_len :: nat where
  "flash_len = 0x400000"

lemma unat_flash_cell: "i \<le> flash_len \<Longrightarrow> unat (flash_cell i) = 0x1000000 + i"
  by (simp add: flash_cell_def flash_len_def flash_consts unat_word_ariths unat_of_nat)

lemma within_flash_cell: "off + n \<le> flash_len \<Longrightarrow> within_flash (flash_cell off) n"
  using unat_flash_cell[of off] by (simp add: within_flash_def flash_consts flash_len_def)

lemma flash_bytes_cell: "flash_bytes m (flash_cell off) n = map (\<lambda>i. m (flash_cell (off + i))) [0..<n]"
  by (simp add: flash_bytes_def flash_cell_def add.assoc)

lemma in_range_cell:
  assumes "i < flash_len" "off \<le> flash_len"
  shows "in_range (flash_cell off) n (flash_cell i) \<longleftrightarrow>
    (if off \<le> i then i < off + n else 2 ^ 32 + i - off < n)"
proof -
  have "flash_cell i - flash_cell off = (of_nat (if off \<le> i then i - off else 2 ^ 32 + i - off) :: u32)"
    using assms by (auto simp: flash_cell_def of_nat_diff flash_len_def)
  moreover have "unat (of_nat (if off \<le> i then i - off else 2 ^ 32 + i - off) :: u32) =
      (if off \<le> i then i - off else 2 ^ 32 + i - off)"
    using assms by (auto simp: unat_of_nat flash_len_def)
  ultimately show ?thesis by (auto simp: in_range_def)
qed

lemma unat_of_nat_flash: "n \<le> flash_len \<Longrightarrow> unat (of_nat n :: u32) = n"
  by (simp add: unat_of_nat flash_len_def)

locale onchip_flash =
  fixes r :: rom
  assumes frame: "rom_frame r"

sublocale onchip_flash \<subseteq> dev: flash_device "mh_onchip_flash r" flash_cell flash_len
proof
  fix off n :: nat and m m' :: flash and buf :: bytes and res :: int
  assume range: "off + n \<le> flash_len"
  let ?a = "MH_FLASH_START_ADRESS + of_nat off" and ?n = "of_nat n :: u32"
  have a: "?a = flash_cell off" by (simp add: flash_cell_def)
  have n: "unat ?n = n" using range by (simp add: unat_of_nat_flash)
  have w: "within_flash ?a (unat ?n)" using range n by (simp add: a within_flash_cell)
  show "ops_read (mh_onchip_flash r) m (of_nat off) ?n =
      (int n, map (\<lambda>i. m (flash_cell (off + i))) [0..<n])"
    using mh_flash_read_within[OF w, of m] n
    by (simp add: mh_onchip_flash_def fal_flash_read_def a flash_bytes_cell)
  have mod: "unat ?a mod 256 = off mod 256" "unat ?a mod 4096 = off mod 4096"
    using range unat_flash_cell[of off] by (simp_all add: a mod_add_eq[symmetric])
  show "map (\<lambda>i. m' (flash_cell (off + i))) [0..<n] = take n buf \<and>
      (\<forall>i < flash_len. i < off \<or> off + n \<le> i \<longrightarrow> m' (flash_cell i) = m (flash_cell i))"
    if "off mod 256 = 0 \<or> 256 - off mod 256 \<le> n"
      "ops_write (mh_onchip_flash r) (of_nat off) buf ?n m = Some (res, m')" "0 \<le> res"
  proof -
    have "mh_flash_write r ?a buf ?n m = Some (res, m')"
      using that(2) by (simp add: mh_onchip_flash_def fal_flash_write_def)
    from mh_flash_write_sound[OF frame this that(3)] that(1) mod n
    have "flash_bytes m' ?a n = take n buf" "\<not> in_range ?a n x \<Longrightarrow> m' x = m x" for x
      by auto
    then show ?thesis using range by (auto simp: a flash_bytes_cell in_range_cell flash_len_def)
  qed
  show "(\<forall>i < n. m' (flash_cell (off + i)) = 0xFF) \<and>
      (\<forall>i < flash_len. i < off \<or> off + sectors n * 4096 \<le> i \<longrightarrow> m' (flash_cell i) = m (flash_cell i))"
    if "off mod 4096 = 0" "ops_erase (mh_onchip_flash r) (of_nat off) ?n m = (res, m')" "0 \<le> res"
  proof -
    have "mh_flash_erase r ?a ?n m = (res, m')"
      using that(2) by (simp add: mh_onchip_flash_def fal_flash_erase_def)
    from mh_flash_erase_sound[OF frame this that(3)] that(1) mod n within_flash_check(3)[OF w]
    have "erased m' ?a n" "\<not> in_range ?a (sectors n * 4096) x \<Longrightarrow> m' x = m x" for x
      by auto
    moreover have "sectors n * 4096 \<le> flash_len + 4095"
      using range by (simp add: sectors_def)
    ultimately show ?thesis
      using range by (auto simp: a erased_flash_bytes flash_bytes_cell in_range_cell flash_len_def
          list_eq_iff_nth_eq)
  qed
qed

interpretation nor: onchip_flash nor_rom
  by unfold_locales (rule rom_frame_nor_rom)

section \<open>Partitions\<close>

text \<open>
  A partition of the on-chip flash: it lies inside the device and consists of whole sectors.
  \<open>part_bytes\<close> is its content.
\<close>

definition part_wf :: "fal_partition \<Rightarrow> bool" where
  "part_wf p \<longleftrightarrow> unat (part_offset p) + unat (part_len p) \<le> flash_len \<and>
     unat (part_offset p) mod 4096 = 0 \<and> unat (part_len p) mod 4096 = 0 \<and>
     flash_name p = char_array FAL_DEV_NAME_MAX ''onchip_flash''"

definition part_bytes :: "flash \<Rightarrow> fal_partition \<Rightarrow> nat \<Rightarrow> nat \<Rightarrow> bytes" where
  "part_bytes m p a n = flash_bytes m (flash_cell (unat (part_offset p) + a)) n"

definition part_disjoint :: "fal_partition \<Rightarrow> fal_partition \<Rightarrow> bool" where
  "part_disjoint p q \<longleftrightarrow>
     unat (part_offset p) + unat (part_len p) \<le> unat (part_offset q) \<or>
     unat (part_offset q) + unat (part_len q) \<le> unat (part_offset p)"

lemma length_part_bytes [simp]: "length (part_bytes m p a n) = n"
  by (simp add: part_bytes_def)

lemma part_bytes_append: "part_bytes m p a (k + n) = part_bytes m p a k @ part_bytes m p (a + k) n"
  by (simp add: part_bytes_def flash_bytes_append flash_cell_def add.assoc)

lemma part_bytes_sub: "a + n \<le> k \<Longrightarrow> part_bytes m p a n = buf_read (part_bytes m p 0 k) a n"
  by (auto simp: part_bytes_def flash_bytes_cell buf_read_def take_map drop_map add.assoc
      intro!: nth_equalityI)

lemma fal_flash_device_find_onchip:
  "part_wf p \<Longrightarrow> fal_flash_device_find r (flash_name p) = Some (mh_onchip_flash r)"
  by (simp add: part_wf_def fal_flash_device_find_def device_table_def mh_onchip_flash_def)

lemma part_bounds:
  assumes "part_wf p" "a + n \<le> unat (part_len p)"
  shows "unat (part_offset p) + a + n \<le> flash_len" "a \<le> flash_len" "n \<le> flash_len"
    "\<not> (of_nat a + of_nat n :: u32) > part_len p"
    "part_offset p + of_nat a = of_nat (unat (part_offset p) + a)"
    "unat (part_len p) \<le> flash_len"
proof -
  show b: "unat (part_offset p) + a + n \<le> flash_len" "a \<le> flash_len" "n \<le> flash_len"
    "unat (part_len p) \<le> flash_len"
    using assms by (auto simp: part_wf_def)
  have "unat (of_nat (a + n) :: u32) = a + n"
    using b by (intro unat_of_nat_flash) linarith
  with assms(2) show "\<not> (of_nat a + of_nat n :: u32) > part_len p"
    by (simp add: word_less_nat_alt flip: of_nat_add)
  show "part_offset p + of_nat a = of_nat (unat (part_offset p) + a)" by simp
qed

lemma part_offset_mod:
  assumes "part_wf p"
  shows "(unat (part_offset p) + a) mod 256 = a mod 256" "(unat (part_offset p) + a) mod 4096 = a mod 4096"
    "(unat (part_offset p) + a) mod 4 = a mod 4"
proof -
  obtain k where k: "unat (part_offset p) = 4096 * k" using assms by (auto simp: part_wf_def)
  then have "unat (part_offset p) = 256 * (16 * k)" "unat (part_offset p) = 4 * (1024 * k)" by simp_all
  with k show "(unat (part_offset p) + a) mod 256 = a mod 256"
    "(unat (part_offset p) + a) mod 4096 = a mod 4096" "(unat (part_offset p) + a) mod 4 = a mod 4"
    by (metis mod_mult_self4)+
qed

context onchip_flash
begin

lemma part_read:
  assumes "part_wf p" "a + n \<le> unat (part_len p)"
  shows "fal_partition_read r p (of_nat a) (of_nat n) m = (int n, part_bytes m p a n)"
  using part_bounds[OF assms] dev.read_cells[of "unat (part_offset p) + a" n m]
  by (simp add: fal_partition_read_def fal_flash_device_find_onchip[OF assms(1)] part_bytes_def
      flash_bytes_cell del: of_nat_add)

lemma part_write:
  assumes "part_wf p" "a + n \<le> unat (part_len p)" "a mod 256 = 0 \<or> 256 - a mod 256 \<le> n"
    and "fal_partition_write r p (of_nat a) buf (of_nat n) m = Some (res, m')" "0 \<le> res"
  shows "part_bytes m' p a n = take n buf"
    and "part_wf q \<Longrightarrow> b + k \<le> unat (part_len q) \<Longrightarrow>
      part_disjoint p q \<or> (p = q \<and> (b + k \<le> a \<or> a + n \<le> b)) \<Longrightarrow>
      part_bytes m' q b k = part_bytes m q b k"
proof -
  let ?o = "unat (part_offset p) + a"
  have w: "ops_write (mh_onchip_flash r) (of_nat ?o) buf (of_nat n) m = Some (res, m')"
    using assms(4) part_bounds[OF assms(1,2)]
    by (simp add: fal_partition_write_def fal_flash_device_find_onchip[OF assms(1)] del: of_nat_add)
  note cells = dev.write_cells[OF part_bounds(1)[OF assms(1,2)] _ w assms(5), unfolded part_offset_mod[OF assms(1)], OF assms(3)]
  show "part_bytes m' p a n = take n buf"
    using cells by (simp add: part_bytes_def flash_bytes_cell)
  assume q: "part_wf q" "b + k \<le> unat (part_len q)"
    and d: "part_disjoint p q \<or> (p = q \<and> (b + k \<le> a \<or> a + n \<le> b))"
  have "unat (part_offset q) + b + i < flash_len" if "i < k" for i
    using that part_bounds(1)[OF q] by linarith
  moreover have "unat (part_offset q) + b + i < ?o \<or> ?o + n \<le> unat (part_offset q) + b + i" if "i < k" for i
    using that d q(2) assms(2) by (auto simp: part_disjoint_def)
  ultimately have "m' (flash_cell (unat (part_offset q) + b + i)) = m (flash_cell (unat (part_offset q) + b + i))"
    if "i < k" for i
    using cells that by blast
  then show "part_bytes m' q b k = part_bytes m q b k"
    by (auto simp: part_bytes_def flash_bytes_cell)
qed

lemma part_erase:
  assumes "part_wf p" "a + n \<le> unat (part_len p)" "a mod 4096 = 0"
    and "fal_partition_erase r p (of_nat a) (of_nat n) m = (res, m')" "0 \<le> res"
  shows "part_bytes m' p a n = replicate n 0xFF"
    and "part_wf q \<Longrightarrow> b + k \<le> unat (part_len q) \<Longrightarrow>
      part_disjoint p q \<or> (p = q \<and> (b + k \<le> a \<or> a + sectors n * 4096 \<le> b)) \<Longrightarrow>
      part_bytes m' q b k = part_bytes m q b k"
proof -
  let ?o = "unat (part_offset p) + a"
  have w: "ops_erase (mh_onchip_flash r) (of_nat ?o) (of_nat n) m = (res, m')"
    using assms(4) part_bounds[OF assms(1,2)]
    by (simp add: fal_partition_erase_def fal_flash_device_find_onchip[OF assms(1)] del: of_nat_add)
  note cells = dev.erase_cells[OF part_bounds(1)[OF assms(1,2)] _ w assms(5), unfolded part_offset_mod[OF assms(1)], OF assms(3)]
  show "part_bytes m' p a n = replicate n 0xFF"
    using cells by (intro nth_equalityI) (auto simp: part_bytes_def flash_bytes_cell)
  assume q: "part_wf q" "b + k \<le> unat (part_len q)"
    and d: "part_disjoint p q \<or> (p = q \<and> (b + k \<le> a \<or> a + sectors n * 4096 \<le> b))"
  obtain l where l: "unat (part_len p) = 4096 * l" using assms(1) by (auto simp: part_wf_def)
  obtain j where j: "a = 4096 * j" using assms(3) by auto
  have "n \<le> (l - j) * 4096" using assms(2) l j by (auto simp: diff_mult_distrib)
  then have s: "a + sectors n * 4096 \<le> unat (part_len p)"
    using sectors_le[of n "l - j"] assms(2) l j by (auto simp: diff_mult_distrib)
  have "unat (part_offset q) + b + i < flash_len" if "i < k" for i
    using that part_bounds(1)[OF q] by linarith
  moreover have "unat (part_offset q) + b + i < ?o \<or> ?o + sectors n * 4096 \<le> unat (part_offset q) + b + i"
    if "i < k" for i
    using that d q(2) s by (auto simp: part_disjoint_def)
  ultimately have "m' (flash_cell (unat (part_offset q) + b + i)) = m (flash_cell (unat (part_offset q) + b + i))"
    if "i < k" for i
    using cells that by blast
  then show "part_bytes m' q b k = part_bytes m q b k"
    by (auto simp: part_bytes_def flash_bytes_cell)
qed

end

lemma onchip_flashI: "rom_frame r \<Longrightarrow> onchip_flash r"
  by unfold_locales

lemmas part_read_frame = onchip_flash.part_read[OF onchip_flashI]
lemmas part_write_frame = onchip_flash.part_write[OF onchip_flashI]
lemmas part_erase_frame = onchip_flash.part_erase[OF onchip_flashI]

text \<open>On a NOR chip the operations succeed on ranges of the partition.\<close>

lemma part_erase_nor:
  assumes "rom_nor r" "part_wf p" "a + n \<le> unat (part_len p)" "a mod 4096 = 0" "0 < n"
  shows "\<exists>m'. fal_partition_erase r p (of_nat a) (of_nat n) m = (int n, m')"
proof -
  note b = part_bounds[OF assms(2,3)]
  let ?c = "flash_cell (unat (part_offset p) + a)"
  have n: "unat (of_nat n :: u32) = n" using b(3) by (rule unat_of_nat_flash)
  have w: "within_flash ?c (unat (of_nat n :: u32))" unfolding n using b(1) by (rule within_flash_cell)
  have "unat ?c mod 4096 = 0"
    using b(1) part_offset_mod(2)[OF assms(2), of a] assms(4) unat_flash_cell[of "unat (part_offset p) + a"]
    by (simp add: mod_add_eq[symmetric, of "0x1000000"])
  from mh_flash_erase_nor[OF assms(1) w this] assms(5) n
  obtain m' where "mh_flash_erase r ?c (of_nat n) m = (sint (of_nat n :: u32), m')" by auto
  with b(4,5) within_flash_check(2)[OF w] n show ?thesis
    by (auto simp: fal_partition_erase_def fal_flash_device_find_onchip[OF assms(2)] mh_onchip_flash_def
        fal_flash_erase_def flash_cell_def simp del: of_nat_add)
qed

lemma part_erase_sectors:
  assumes "rom_frame r" "part_wf p" "a + n \<le> unat (part_len p)" "a mod 4096 = 0"
    and "fal_partition_erase r p (of_nat a) (of_nat n) m = (res, m')" "0 \<le> res"
  shows "part_bytes m' p a (sectors n * 4096) = replicate (sectors n * 4096) 0xFF"
proof -
  note b = part_bounds[OF assms(2,3)]
  let ?c = "flash_cell (unat (part_offset p) + a)"
  have n: "unat (of_nat n :: u32) = n" using b(3) by (rule unat_of_nat_flash)
  have w: "within_flash ?c (unat (of_nat n :: u32))" unfolding n using b(1) by (rule within_flash_cell)
  have al: "unat ?c mod 4096 = 0"
    using b(1) part_offset_mod(2)[OF assms(2), of a] assms(4) unat_flash_cell[of "unat (part_offset p) + a"]
    by (simp add: mod_add_eq[symmetric, of "0x1000000"])
  have "mh_flash_erase r ?c (of_nat n) m = (res, m')"
    using assms(5) b(4,5)
    by (simp add: fal_partition_erase_def fal_flash_device_find_onchip[OF assms(2)] mh_onchip_flash_def
        fal_flash_erase_def flash_cell_def del: of_nat_add)
  from mh_flash_erase_sectors[OF assms(1) this assms(6) al within_flash_check(3)[OF w]]
  show ?thesis by (simp add: n erased_flash_bytes part_bytes_def)
qed

lemma part_write_nor:
  assumes "rom_nor r" "part_wf p" "a + n \<le> unat (part_len p)" "a mod 4 = 0" "0 < n"
    and "a mod 256 = 0 \<or> 256 - a mod 256 \<le> n" "n \<le> length buf" "part_bytes m p a n = replicate n 0xFF"
  shows "\<exists>m'. fal_partition_write r p (of_nat a) buf (of_nat n) m = Some (int n, m')"
proof -
  note b = part_bounds[OF assms(2,3)]
  let ?o = "unat (part_offset p) + a"
  let ?c = "flash_cell ?o"
  have n: "unat (of_nat n :: u32) = n" using b(3) by (rule unat_of_nat_flash)
  have w: "within_flash ?c (unat (of_nat n :: u32))" unfolding n using b(1) by (rule within_flash_cell)
  have c: "unat ?c = 0x1000000 + ?o" using b(1) by (intro unat_flash_cell) simp
  have al: "unat ?c mod 4 = 0" "unat ?c mod 256 = a mod 256"
    using assms(4) part_offset_mod[OF assms(2), of a] unfolding c
    by (simp_all add: mod_add_eq[symmetric, of "0x1000000"])
  from mh_flash_write_nor[OF assms(1) w al(1)] assms(5-8) n al(2)
  obtain m' where "mh_flash_write r ?c buf (of_nat n) m = Some (sint (of_nat n :: u32), m')"
    by (auto simp: erased_flash_bytes part_bytes_def)
  with b(4,5) within_flash_check(2)[OF w] n show ?thesis
    by (auto simp: fal_partition_write_def fal_flash_device_find_onchip[OF assms(2)] mh_onchip_flash_def
        fal_flash_write_def flash_cell_def simp del: of_nat_add)
qed

section \<open>The partition table\<close>

lemmas part_table_simps = partition_table_def_def mk_part_def Let_def MH_FLASH_GRANULARITY_def

lemma partition_table_wf: "p \<in> set partition_table_def \<Longrightarrow> part_wf p"
  by (auto simp: part_table_simps part_wf_def flash_len_def)

lemma partition_table_disjoint:
  "p \<in> set partition_table_def \<Longrightarrow> q \<in> set partition_table_def \<Longrightarrow> p \<noteq> q \<Longrightarrow> part_disjoint p q"
  by (auto simp: part_table_simps part_disjoint_def)

lemma part_table_check_ok: "part_table_check r partition_table_def"
  by (simp add: part_table_simps fal_flash_device_find_def device_table_def mh_onchip_flash_def
      MH_FLASH_SIZE_def)

lemma fal_init_reset:
  "fal_init r fal_reset =
     (7, \<lparr>fal_ok = True, flash_ok = True, partition_ok = True, partition_table = partition_table_def\<rparr>)"
  by (simp add: fal_init_def fal_flash_init_def fal_partition_init_def fal_reset_def part_table_check_ok)
     (simp add: part_table_simps)

lemma fal_partition_find_mem: "fal_partition_find s name = Some p \<Longrightarrow> p \<in> set (partition_table s)"
  by (auto simp: fal_partition_find_def find_Some_iff)

section \<open>Properties\<close>

text \<open>
  Initialisation from reset finds the compiled-in table well-formed: \<^verbatim>\<open>fal_init\<close> returns 7,
  marks the layer initialised, the partitions consist of whole sectors inside the flash, no two of
  them overlap and together they cover it exactly.
\<close>

theorem fal_init_partitions:
  "\<exists>s. fal_init r fal_reset = (7, s) \<and> fal_init_check s = 1 \<and>
     (\<forall>p \<in> set (partition_table s). part_wf p) \<and>
     (\<forall>p \<in> set (partition_table s). \<forall>q \<in> set (partition_table s). p \<noteq> q \<longrightarrow> part_disjoint p q) \<and>
     (\<Sum>p \<leftarrow> partition_table s. unat (part_len p)) = flash_len"
proof -
  have "(\<Sum>p \<leftarrow> partition_table_def. unat (part_len p)) = flash_len"
    by (simp add: part_table_simps flash_len_def)
  then show ?thesis
    using partition_table_wf partition_table_disjoint by (auto simp: fal_init_reset fal_init_check_def)
qed

theorem fal_init_partitions_witness:
  "\<exists>s. fal_init nor_rom fal_reset = (7, s) \<and> fal_init_check s = 1"
  using fal_init_partitions[of nor_rom] by blast

text \<open>
  What is written to a partition is what is read from it: after a write inside the partition
  that reports success, reading the same range returns the written bytes.
\<close>

theorem fal_partition_write_read:
  assumes "rom_frame r" "part_wf p" "unat addr + unat sz \<le> unat (part_len p)"
    and "unat addr mod 256 = 0 \<or> 256 - unat addr mod 256 \<le> unat sz"
    and "fal_partition_write r p addr buf sz m = Some (res, m')" "0 \<le> res"
  shows "fal_partition_read r p addr sz m' = (int (unat sz), take (unat sz) buf)"
  using part_write_frame(1)[OF assms(1-4), of buf m res m'] assms(5,6)
    part_read_frame[OF assms(1-3), of m'] by simp

definition demo_part :: fal_partition where
  "demo_part = mk_part ''app'' 0x18000 0x168000"

lemma demo_part_wf: "part_wf demo_part"
  by (simp add: demo_part_def mk_part_def part_wf_def flash_len_def)

theorem fal_partition_write_read_witness:
  "\<exists>m'. fal_partition_write nor_rom demo_part 0 [1, 2, 3, 4] 4 (\<lambda>_. 0xFF) = Some (4, m') \<and>
     fal_partition_read nor_rom demo_part 0 4 m' = (4, [1, 2, 3, 4])"
proof -
  have ff: "part_bytes (\<lambda>_. 0xFF) demo_part 0 4 = replicate 4 0xFF"
    by (rule nth_equalityI) (simp_all add: part_bytes_def)
  obtain m' where w: "fal_partition_write nor_rom demo_part 0 [1, 2, 3, 4] 4 (\<lambda>_. 0xFF) = Some (4, m')"
    using part_write_nor[OF rom_nor_nor_rom demo_part_wf _ _ _ _ _ ff, of "[1, 2, 3, 4]"]
    by (auto simp: demo_part_def mk_part_def)
  have "fal_partition_read nor_rom demo_part 0 4 m' = (int (unat (4::u32)), take (unat (4::u32)) [1, 2, 3, 4])"
    by (rule fal_partition_write_read[OF rom_frame_nor_rom demo_part_wf _ _ w])
       (simp_all add: demo_part_def mk_part_def)
  with w show ?thesis by simp
qed

text \<open>
  Partitions are isolated: a successful write or erase inside one partition of the table
  leaves every byte of every other partition as it was.
\<close>

theorem fal_partition_isolation:
  assumes "rom_frame r" "p \<in> set partition_table_def" "q \<in> set partition_table_def" "p \<noteq> q"
    and "unat addr + unat sz \<le> unat (part_len p)"
    and "(fal_partition_write r p addr buf sz m = Some (res, m') \<and>
          (unat addr mod 256 = 0 \<or> 256 - unat addr mod 256 \<le> unat sz)) \<or>
         (fal_partition_erase r p addr sz m = (res, m') \<and> unat addr mod 4096 = 0)"
    and "0 \<le> res"
  shows "part_bytes m' q 0 (unat (part_len q)) = part_bytes m q 0 (unat (part_len q))"
proof -
  note wf = partition_table_wf[OF assms(2)] partition_table_wf[OF assms(3)]
  note d = partition_table_disjoint[OF assms(2-4)]
  from assms(6) show ?thesis
  proof
    assume w: "fal_partition_write r p addr buf sz m = Some (res, m') \<and>
      (unat addr mod 256 = 0 \<or> 256 - unat addr mod 256 \<le> unat sz)"
    then have "fal_partition_write r p (of_nat (unat addr)) buf (of_nat (unat sz)) m = Some (res, m')" by simp
    from part_write_frame(2)[OF assms(1) wf(1) assms(5) _ this assms(7) wf(2)] w d show ?thesis by simp
  next
    assume e: "fal_partition_erase r p addr sz m = (res, m') \<and> unat addr mod 4096 = 0"
    then have "fal_partition_erase r p (of_nat (unat addr)) (of_nat (unat sz)) m = (res, m')" by simp
    from part_erase_frame(2)[OF assms(1) wf(1) assms(5) _ this assms(7) wf(2)] e d show ?thesis by simp
  qed
qed

theorem fal_partition_isolation_witness:
  "\<exists>m' p q. p = partition_table_def ! 3 \<and> q = partition_table_def ! 5 \<and>
     fal_partition_erase nor_rom p 0 4096 (\<lambda>_. 7) = (4096, m') \<and>
     part_bytes m' q 0 (unat (part_len q)) = part_bytes (\<lambda>_. 7) q 0 (unat (part_len q))"
proof -
  let ?p = "partition_table_def ! 3" and ?q = "partition_table_def ! 5"
  have mem: "?p \<in> set partition_table_def" "?q \<in> set partition_table_def" "?p \<noteq> ?q"
    "4096 \<le> unat (part_len ?p)"
    by (simp_all add: part_table_simps)
  obtain m' where e: "fal_partition_erase nor_rom ?p 0 4096 (\<lambda>_. 7) = (4096, m')"
    using part_erase_nor[OF rom_nor_nor_rom partition_table_wf[OF mem(1)], of 0 4096 "\<lambda>_. 7"] mem(4) by auto
  have "part_bytes m' ?q 0 (unat (part_len ?q)) = part_bytes (\<lambda>_. 7) ?q 0 (unat (part_len ?q))"
    by (rule fal_partition_isolation[OF rom_frame_nor_rom mem(1-3), where addr = 0 and sz = 4096 and res = 4096])
       (use e mem(4) in simp_all)
  with e show ?thesis by blast
qed

text \<open>
  The bounds check of the partition layer is computed modulo \<open>2 ^ 32\<close>: an offset just below
  \<open>2 ^ 32\<close> passes it and reads the byte in front of the partition.
\<close>

theorem fal_partition_read_wraps:
  assumes "part_wf p" "0 < unat (part_offset p)"
  shows "fal_partition_read r p (- 1) 1 m = (1, [m (MH_FLASH_START_ADRESS + part_offset p - 1)])"
proof -
  have "MH_FLASH_START_ADRESS + (part_offset p - 1) = flash_cell (unat (part_offset p) - 1)"
    using assms(2) by (simp add: flash_cell_def of_nat_diff)
  moreover have "within_flash (flash_cell (unat (part_offset p) - 1)) (unat (1::u32))"
    using assms by (intro within_flash_cell) (simp add: part_wf_def)
  ultimately show ?thesis
    using mh_flash_read_within[of "MH_FLASH_START_ADRESS + (part_offset p - 1)" 1 m]
    by (simp add: fal_partition_read_def fal_flash_device_find_onchip[OF assms(1)] mh_onchip_flash_def
        fal_flash_read_def flash_bytes_def algebra_simps)
qed

theorem fal_partition_read_wraps_witness:
  "fal_partition_read nor_rom demo_part (- 1) 1 (\<lambda>_. 9) = (1, [9])"
  using fal_partition_read_wraps[OF demo_part_wf, of nor_rom "\<lambda>_. 9"] by (simp add: demo_part_def mk_part_def)

end
