(* ===== verification/Fota_Image.thy ===== *)
theory Fota_Image
  imports Crc32 Fal
begin

text \<open>
  The first half of \<^verbatim>\<open>bootloader/src/rt_fota.c\<close>: the image header, verification of an image
  (\<^verbatim>\<open>rt_fota_part_fw_verify\<close>), the upgrade decision (\<^verbatim>\<open>rt_fota_check_upgrade\<close>), the version commit
  (\<^verbatim>\<open>rt_fota_copy_version\<close>) and the accesses to the application partition.

  The static variables the routines share are the record \<^verbatim>\<open>fota_sys\<close>, with the flash they work on.
  The code lays the header struct over raw buffers, so a header is its 96 bytes and the fields are read at
  their offsets; a \<^verbatim>\<open>char\<close> array that is passed as a C string is the rest of the struct from its offset
  on, which is what \<^verbatim>\<open>strcmp\<close> runs into when the array has no terminator. \<^verbatim>\<open>rt_malloc\<close> is an oracle:
  the \<open>k\<close>-th allocation succeeds when \<^verbatim>\<open>heap k\<close>. Logging has no effect in the model.
\<close>

section \<open>Model\<close>

subsection \<open>State\<close>

record fota_env =
  env_rom :: rom
  heap :: "nat \<Rightarrow> bool"

record fota_sys =
  flash_mem :: flash
  fal :: fal_state
  crc_tab :: "u32 list"
  fota_part_head :: bytes
  mallocs :: nat

text \<open>The error codes of \<^verbatim>\<open>rt_fota.h\<close>.\<close>

definition RT_FOTA_NO_ERR :: int where "RT_FOTA_NO_ERR = 0"
definition RT_FOTA_GENERAL_ERR :: int where "RT_FOTA_GENERAL_ERR = -1"
definition RT_FOTA_CHECK_FAILED :: int where "RT_FOTA_CHECK_FAILED = -2"
definition RT_FOTA_COPY_FAILED :: int where "RT_FOTA_COPY_FAILED = -4"
definition RT_FOTA_FW_VERIFY_FAILED :: int where "RT_FOTA_FW_VERIFY_FAILED = -5"
definition RT_FOTA_NO_MEM_ERR :: int where "RT_FOTA_NO_MEM_ERR = -6"
definition RT_FOTA_PART_READ_ERR :: int where "RT_FOTA_PART_READ_ERR = -7"
definition RT_FOTA_PART_WRITE_ERR :: int where "RT_FOTA_PART_WRITE_ERR = -8"
definition RT_FOTA_PART_ERASE_ERR :: int where "RT_FOTA_PART_ERASE_ERR = -9"

definition rt_malloc :: "fota_env \<Rightarrow> fota_sys \<Rightarrow> bool \<times> fota_sys" where
  "rt_malloc e s = (heap e (mallocs s), s\<lparr>mallocs := Suc (mallocs s)\<rparr>)"

subsection \<open>The header \<^verbatim>\<open>rt_fota_part_head\<close>\<close>

definition HEAD_SIZE :: nat where "HEAD_SIZE = 96"

definition hd_type :: "bytes \<Rightarrow> bytes" where "hd_type h = h"
definition hd_fota_algo :: "bytes \<Rightarrow> u16" where
  "hd_fota_algo h = ucast (h ! 4) OR push_bit 8 (ucast (h ! 5))"
definition hd_app_part_name :: "bytes \<Rightarrow> bytes" where "hd_app_part_name h = drop 12 h"
definition hd_download_version :: "bytes \<Rightarrow> bytes" where "hd_download_version h = drop 28 h"
definition hd_current_version :: "bytes \<Rightarrow> bytes" where "hd_current_version h = drop 52 h"
definition hd_code_crc :: "bytes \<Rightarrow> u32" where "hd_code_crc h = get_le32 h 76"
definition hd_raw_size :: "bytes \<Rightarrow> u32" where "hd_raw_size h = get_le32 h 84"
definition hd_com_size :: "bytes \<Rightarrow> u32" where "hd_com_size h = get_le32 h 88"
definition hd_head_crc :: "bytes \<Rightarrow> u32" where "hd_head_crc h = get_le32 h 92"

subsection \<open>Operations\<close>

definition rt_fota_boot_verify :: "fota_env \<Rightarrow> fota_sys \<Rightarrow> int \<times> fota_sys" where
  "rt_fota_boot_verify e s =
     (let s1 = s\<lparr>fota_part_head := replicate HEAD_SIZE 0, fal := snd (fal_init (env_rom e) (fal s))\<rparr>
      in (if fal_init_check (fal s1) \<noteq> 1 then RT_FOTA_GENERAL_ERR else RT_FOTA_NO_ERR, s1))"

text \<open>
  The loop over the body, in chunks of 4096 bytes; \<open>None\<close> is the read error. \<^verbatim>\<open>body_pos\<close> stays below
  the partition length plus one chunk, so it is a natural number.
\<close>

function verify_body ::
  "rom \<Rightarrow> u32 list \<Rightarrow> fal_partition \<Rightarrow> nat \<Rightarrow> flash \<Rightarrow> nat \<Rightarrow> u32 \<Rightarrow> u32 option" where
  "verify_body r tab part com_size m body_pos body_crc =
     (if body_pos < com_size then
        (case fal_partition_read r part (of_nat (HEAD_SIZE + body_pos)) 4096 m of (body_read_len, body_buf) \<Rightarrow>
           if body_read_len > 0 then
             let n = (if body_pos + nat body_read_len > com_size then com_size - body_pos else nat body_read_len)
             in verify_body r tab part com_size m (body_pos + n) (rt_fota_step_crc tab body_crc (take n body_buf))
           else None)
      else Some body_crc)"
  by pat_completeness auto
termination
  by (relation "measure (\<lambda>(r, tab, part, com_size, m, body_pos, body_crc). com_size - body_pos)")
     (auto simp: Let_def split: if_splits)

declare verify_body.simps [simp del]

text \<open>The checks up to \<^verbatim>\<open>__exit_partition_verify\<close>: the result code and the header that was read.\<close>

definition verify_checks :: "fota_env \<Rightarrow> bytes option \<Rightarrow> fota_sys \<Rightarrow> int \<times> bytes \<times> fota_sys" where
  "verify_checks e name s =
     (case name of
        None \<Rightarrow> (RT_FOTA_GENERAL_ERR, [], s)
      | Some pname \<Rightarrow>
     (case fal_partition_find (fal s) pname of
        None \<Rightarrow> (RT_FOTA_GENERAL_ERR, [], s)
      | Some part \<Rightarrow>
     (case fal_partition_read (env_rom e) part 0 (of_nat HEAD_SIZE) (flash_mem s) of (n, part_head) \<Rightarrow>
        if n < 0 then (RT_FOTA_PART_READ_ERR, part_head, s)
        else if rt_fota_crc (crc_tab s) (take (HEAD_SIZE - 4) part_head) \<noteq> hd_head_crc part_head
        then (RT_FOTA_FW_VERIFY_FAILED, part_head, s)
        else if c_str (hd_type part_head) \<noteq> bytes_of_string ''RBL'' then (RT_FOTA_CHECK_FAILED, part_head, s)
        else if fal_partition_find (fal s) (hd_app_part_name part_head) = None
        then (RT_FOTA_FW_VERIFY_FAILED, part_head, s)
        else
     (case rt_malloc e s of (ok, s1) \<Rightarrow>
        if \<not> ok then (RT_FOTA_NO_MEM_ERR, part_head, s1)
        else
     (case verify_body (env_rom e) (crc_tab s1) part (unat (hd_com_size part_head)) (flash_mem s1) 0 0xffffffff of
        None \<Rightarrow> (RT_FOTA_PART_READ_ERR, part_head, s1)
      | Some body_crc \<Rightarrow>
          (if body_crc XOR 0xffffffff \<noteq> hd_code_crc part_head then RT_FOTA_FW_VERIFY_FAILED
           else RT_FOTA_NO_ERR, part_head, s1))))))"

definition rt_fota_part_fw_verify :: "fota_env \<Rightarrow> bytes option \<Rightarrow> fota_sys \<Rightarrow> int \<times> fota_sys" where
  "rt_fota_part_fw_verify e name s =
     (case verify_checks e name s of (fota_res, part_head, s1) \<Rightarrow>
        (fota_res,
         s1\<lparr>fota_part_head := (if fota_res = RT_FOTA_NO_ERR then part_head else replicate HEAD_SIZE 0)\<rparr>))"

definition rt_fota_check_upgrade :: "fota_sys \<Rightarrow> int" where
  "rt_fota_check_upgrade s =
     (if c_str (hd_download_version (fota_part_head s)) \<noteq> c_str (hd_current_version (fota_part_head s))
      then 1 else 0)"

text \<open>The new first sector of the image: the version copied and the header checksum renewed.\<close>

definition commit_version :: "u32 list \<Rightarrow> bytes \<Rightarrow> bytes" where
  "commit_version tab cache_buf =
     (let b = buf_write cache_buf 52 (buf_read cache_buf 28 24)
      in buf_write b 92 (le32_bytes (rt_fota_crc tab (take (HEAD_SIZE - 4) b))))"

definition rt_fota_copy_version :: "fota_env \<Rightarrow> bytes \<Rightarrow> fota_sys \<Rightarrow> (int \<times> fota_sys) option" where
  "rt_fota_copy_version e name s =
     (case fal_partition_find (fal s) name of
        None \<Rightarrow> Some (RT_FOTA_FW_VERIFY_FAILED, s)
      | Some part \<Rightarrow>
     (case rt_malloc e s of (ok, s1) \<Rightarrow>
        if \<not> ok then Some (RT_FOTA_NO_MEM_ERR, s1)
        else
     (case fal_partition_read (env_rom e) part 0 4096 (flash_mem s1) of (n, cache_buf) \<Rightarrow>
        if n < 0 then Some (RT_FOTA_PART_READ_ERR, s1)
        else
     (case fal_partition_erase (env_rom e) part 0 4096 (flash_mem s1) of (n, m2) \<Rightarrow>
        if n < 0 then Some (RT_FOTA_PART_ERASE_ERR, s1\<lparr>flash_mem := m2\<rparr>)
        else
     (case fal_partition_write (env_rom e) part 0 (commit_version (crc_tab s1) cache_buf) 4096 m2 of
        None \<Rightarrow> None
      | Some (n, m3) \<Rightarrow>
          Some (if n < 0 then RT_FOTA_PART_WRITE_ERR else RT_FOTA_NO_ERR, s1\<lparr>flash_mem := m3\<rparr>))))))"

definition rt_fota_erase_app_part :: "fota_env \<Rightarrow> fota_sys \<Rightarrow> int \<times> fota_sys" where
  "rt_fota_erase_app_part e s =
     (case fal_partition_find (fal s) (hd_app_part_name (fota_part_head s)) of
        None \<Rightarrow> (RT_FOTA_FW_VERIFY_FAILED, s)
      | Some part \<Rightarrow>
     (case fal_partition_erase (env_rom e) part 0 (hd_raw_size (fota_part_head s)) (flash_mem s) of (n, m1) \<Rightarrow>
        (if n < 0 then RT_FOTA_PART_ERASE_ERR else RT_FOTA_NO_ERR, s\<lparr>flash_mem := m1\<rparr>)))"

definition rt_fota_write_app_part ::
  "fota_env \<Rightarrow> u32 \<Rightarrow> bytes \<Rightarrow> u32 \<Rightarrow> fota_sys \<Rightarrow> (int \<times> fota_sys) option" where
  "rt_fota_write_app_part e fw_pos fw_buf fw_len s =
     (case fal_partition_find (fal s) (hd_app_part_name (fota_part_head s)) of
        None \<Rightarrow> Some (RT_FOTA_FW_VERIFY_FAILED, s)
      | Some part \<Rightarrow>
     (case fal_partition_write (env_rom e) part fw_pos fw_buf fw_len (flash_mem s) of
        None \<Rightarrow> None
      | Some (n, m1) \<Rightarrow>
          Some (if n < 0 then RT_FOTA_PART_WRITE_ERR else RT_FOTA_NO_ERR, s\<lparr>flash_mem := m1\<rparr>)))"

section \<open>Lemmas\<close>

lemmas fota_errors =
  RT_FOTA_NO_ERR_def RT_FOTA_GENERAL_ERR_def RT_FOTA_CHECK_FAILED_def RT_FOTA_COPY_FAILED_def
  RT_FOTA_FW_VERIFY_FAILED_def RT_FOTA_NO_MEM_ERR_def RT_FOTA_PART_READ_ERR_def
  RT_FOTA_PART_WRITE_ERR_def RT_FOTA_PART_ERASE_ERR_def

lemmas head_fields [layout_simps] =
  hd_type_def hd_app_part_name_def hd_download_version_def hd_current_version_def hd_code_crc_def
  hd_raw_size_def hd_com_size_def hd_head_crc_def HEAD_SIZE_def

lemma sectors_next: "p mod 4096 = 0 \<Longrightarrow> p < n \<Longrightarrow> p + 4096 \<le> sectors n * 4096"
proof -
  assume "p mod 4096 = 0" "p < n"
  then obtain k where k: "p = k * 4096" by (metis mod_0_imp_dvd dvd_def mult.commute)
  with \<open>p < n\<close> have "k + 1 \<le> sectors n" unfolding sectors_def by linarith
  then have "(k + 1) * 4096 \<le> sectors n * 4096" by (rule mult_le_mono1)
  with k show ?thesis by simp
qed

text \<open>The chunked checksum is the checksum of the body, when every chunk lies in the partition.\<close>

lemma verify_body_ok:
  assumes "rom_frame r" "part_wf p" "HEAD_SIZE + sectors n * 4096 \<le> unat (part_len p)"
    and "pos mod 4096 = 0 \<or> pos = n" "pos \<le> n"
  shows "verify_body r tab p n m pos c = Some (crc32 tab c (part_bytes m p (HEAD_SIZE + pos) (n - pos)))"
  using assms(4,5)
proof (induction "n - pos" arbitrary: pos c rule: less_induct)
  case less
  show ?case
  proof (cases "pos < n")
    case True
    then have al: "pos mod 4096 = 0" using less.prems by simp
    let ?k = "if pos + 4096 > n then n - pos else 4096" and ?b = "part_bytes m p (HEAD_SIZE + pos)"
    have "fal_partition_read r p (of_nat (HEAD_SIZE + pos)) (of_nat 4096) m = (int 4096, ?b 4096)"
      by (rule part_read_frame[OF assms(1,2)]) (use sectors_next[OF al True] assms(3) in simp)
    then have "verify_body r tab p n m pos c = verify_body r tab p n m (pos + ?k) (crc32 tab c (take ?k (?b 4096)))"
      using True by (subst verify_body.simps) (simp add: rt_fota_step_crc_def)
    also have "\<dots> = Some (crc32 tab (crc32 tab c (take ?k (?b 4096)))
        (part_bytes m p (HEAD_SIZE + (pos + ?k)) (n - (pos + ?k))))"
      by (rule less.hyps) (use True al in \<open>auto simp: mod_add_eq[symmetric]\<close>)
    also have "take ?k (?b 4096) = ?b ?k"
      using part_bytes_append[of m p "HEAD_SIZE + pos" ?k "4096 - ?k"] True by auto
    finally show ?thesis
      using part_bytes_append[of m p "HEAD_SIZE + pos" ?k "n - (pos + ?k)"] True
      by (auto simp: crc32_append add.assoc split: if_splits)
  next
    case False
    with less.prems show ?thesis by (subst verify_body.simps) (simp add: part_bytes_def flash_bytes_def)
  qed
qed

text \<open>A body whose last chunk would run over the end of the partition is refused.\<close>

lemma verify_body_overrun:
  assumes "rom_frame r" "part_wf p" "unat (part_len p) < HEAD_SIZE + sectors n * 4096"
    and "pos mod 4096 = 0" "pos < n" "pos = 0 \<or> HEAD_SIZE + pos \<le> unat (part_len p)"
  shows "verify_body r tab p n m pos c = None"
  using assms(4-6)
proof (induction "n - pos" arbitrary: pos c rule: less_induct)
  case less
  show ?case
  proof (cases "HEAD_SIZE + pos + 4096 \<le> unat (part_len p)")
    case True
    have "fal_partition_read r p (of_nat (HEAD_SIZE + pos)) (of_nat 4096) m =
        (int 4096, part_bytes m p (HEAD_SIZE + pos) 4096)"
      by (rule part_read_frame[OF assms(1,2)]) (use True in simp)
    moreover have "pos + 4096 < n"
    proof (rule ccontr)
      assume "\<not> pos + 4096 < n"
      then have "sectors n * 4096 \<le> pos + 4096"
        using sectors_le[of n "pos div 4096 + 1"] less.prems(1,2) by (simp add: minus_mod_eq_mult_div[symmetric] algebra_simps)
      with True assms(3) show False by linarith
    qed
    ultimately have "verify_body r tab p n m pos c =
        verify_body r tab p n m (pos + 4096) (crc32 tab c (part_bytes m p (HEAD_SIZE + pos) 4096))"
      using less.prems by (subst verify_body.simps) (simp add: rt_fota_step_crc_def)
    also have "\<dots> = None"
      by (rule less.hyps) (use less.prems True \<open>pos + 4096 < n\<close> in \<open>auto simp: mod_add_eq[symmetric]\<close>)
    finally show ?thesis .
  next
    case False
    have "unat (of_nat (HEAD_SIZE + pos) + 4096 :: u32) = HEAD_SIZE + pos + 4096"
      using less.prems(3) assms(2) by (auto simp: part_wf_def flash_len_def HEAD_SIZE_def unat_word_ariths unat_of_nat mod_add_left_eq)
    with False have "of_nat (HEAD_SIZE + pos) + 4096 > part_len p"
      by (simp add: word_less_nat_alt)
    then show ?thesis
      using less.prems by (subst verify_body.simps) (simp add: fal_partition_read_def)
  qed
qed

subsection \<open>Verification\<close>

text \<open>The meaning of a valid image in partition \<open>p\<close>.\<close>

definition fw_valid :: "fal_state \<Rightarrow> u32 list \<Rightarrow> flash \<Rightarrow> fal_partition \<Rightarrow> bool" where
  "fw_valid f tab m p \<longleftrightarrow>
     (let h = part_bytes m p 0 HEAD_SIZE
      in rt_fota_crc tab (take (HEAD_SIZE - 4) h) = hd_head_crc h
         \<and> c_str (hd_type h) = bytes_of_string ''RBL''
         \<and> fal_partition_find f (hd_app_part_name h) \<noteq> None
         \<and> rt_fota_crc tab (part_bytes m p HEAD_SIZE (unat (hd_com_size h))) = hd_code_crc h)"

definition image_fits :: "flash \<Rightarrow> fal_partition \<Rightarrow> bool" where
  "image_fits m p \<longleftrightarrow>
     HEAD_SIZE + sectors (unat (hd_com_size (part_bytes m p 0 HEAD_SIZE))) * 4096 \<le> unat (part_len p)"

lemma head_read:
  assumes "rom_frame r" "part_wf p" "HEAD_SIZE \<le> unat (part_len p)"
  shows "fal_partition_read r p 0 (of_nat HEAD_SIZE) m = (int HEAD_SIZE, part_bytes m p 0 HEAD_SIZE)"
  using part_read_frame[OF assms(1,2), of 0 HEAD_SIZE m] assms(3) by simp

lemma fw_valid_cong:
  assumes "part_bytes m' p 0 (unat (part_len p)) = part_bytes m p 0 (unat (part_len p))" "image_fits m p"
  shows "fw_valid f tab m' p = fw_valid f tab m p" "image_fits m' p" "part_bytes m' p 0 HEAD_SIZE = part_bytes m p 0 HEAD_SIZE"
proof -
  have sub: "part_bytes m' p a n = part_bytes m p a n" if "a + n \<le> unat (part_len p)" for a n
    using that assms(1) part_bytes_sub by metis
  have fits: "HEAD_SIZE + unat (hd_com_size (part_bytes m p 0 HEAD_SIZE)) \<le> unat (part_len p)"
    using assms(2) by (auto simp: image_fits_def sectors_def)
  show h: "part_bytes m' p 0 HEAD_SIZE = part_bytes m p 0 HEAD_SIZE" using sub fits by simp
  show "fw_valid f tab m' p = fw_valid f tab m p" "image_fits m' p"
    using assms(2) sub[OF fits] by (simp_all add: fw_valid_def image_fits_def Let_def h)
qed

lemma verify_correct:
  assumes "rom_frame (env_rom e)" "fal_partition_find (fal s) name = Some p" "part_wf p"
    and "image_fits (flash_mem s) p" "heap e (mallocs s)"
  shows "\<exists>res s'. rt_fota_part_fw_verify e (Some name) s = (res, s') \<and> flash_mem s' = flash_mem s \<and> fal s' = fal s
    \<and> crc_tab s' = crc_tab s
    \<and> (res = RT_FOTA_NO_ERR \<longleftrightarrow> fw_valid (fal s) (crc_tab s) (flash_mem s) p)
    \<and> fota_part_head s' = (if fw_valid (fal s) (crc_tab s) (flash_mem s) p
         then part_bytes (flash_mem s) p 0 HEAD_SIZE else replicate HEAD_SIZE 0)"
proof -
  let ?h = "part_bytes (flash_mem s) p 0 HEAD_SIZE"
  have fits: "HEAD_SIZE + sectors (unat (hd_com_size ?h)) * 4096 \<le> unat (part_len p)"
    using assms(4) by (simp add: image_fits_def)
  have rd: "fal_partition_read (env_rom e) p 0 (of_nat HEAD_SIZE) (flash_mem s) = (int HEAD_SIZE, ?h)"
    by (rule head_read[OF assms(1,3)]) (use fits in linarith)
  have body: "verify_body (env_rom e) tab p (unat (hd_com_size ?h)) (flash_mem s) 0 c =
      Some (crc32 tab c (part_bytes (flash_mem s) p HEAD_SIZE (unat (hd_com_size ?h))))" for tab c
    using verify_body_ok[OF assms(1,3) fits, of 0 tab "flash_mem s" c] by simp
  show ?thesis
    using assms(2,5) rd body
    by (auto simp: rt_fota_part_fw_verify_def verify_checks_def fw_valid_def Let_def rt_malloc_def
        rt_fota_crc_def fota_errors)
qed

lemma verify_refuses:
  assumes "rom_frame (env_rom e)" "fal_partition_find (fal s) name = Some p" "part_wf p"
    and bad: "\<not> (heap e (mallocs s) \<and> image_fits (flash_mem s) p)"
  shows "\<exists>res h s'. verify_checks e (Some name) s = (res, h, s') \<and> res \<noteq> RT_FOTA_NO_ERR \<and> flash_mem s' = flash_mem s"
proof (cases "HEAD_SIZE \<le> unat (part_len p)")
  case True
  let ?h = "part_bytes (flash_mem s) p 0 HEAD_SIZE" and ?n = "unat (hd_com_size (part_bytes (flash_mem s) p 0 HEAD_SIZE))"
  note rd = head_read[OF assms(1,3) True, of "flash_mem s"]
  have none: "verify_body (env_rom e) tab p ?n (flash_mem s) 0 c = None" if "heap e (mallocs s)" for tab c
  proof (rule verify_body_overrun[OF assms(1,3)])
    show fit: "unat (part_len p) < HEAD_SIZE + sectors ?n * 4096" using bad that by (simp add: image_fits_def not_le)
    show "0 < ?n" using fit True by (cases "?n = 0") (simp_all add: sectors_def)
  qed simp_all
  show ?thesis using assms(2) rd none
    by (auto simp: verify_checks_def rt_malloc_def fota_errors)
next
  case False
  then have "of_nat HEAD_SIZE > part_len p" by (simp add: word_less_nat_alt HEAD_SIZE_def)
  then have "fst (fal_partition_read (env_rom e) p 0 (of_nat HEAD_SIZE) (flash_mem s)) < 0" by (simp add: fal_partition_read_def)
  then show ?thesis using assms(2) by (cases "fal_partition_read (env_rom e) p 0 (of_nat HEAD_SIZE) (flash_mem s)")
    (simp add: verify_checks_def fota_errors)
qed

subsection \<open>The version commit\<close>

lemma length_commit_version [simp]: "HEAD_SIZE \<le> length b \<Longrightarrow> length (commit_version tab b) = length b"
  by (simp add: commit_version_def Let_def HEAD_SIZE_def)

lemma commit_version_append:
  assumes "HEAD_SIZE \<le> length b"
  shows "commit_version tab (b @ rest) = commit_version tab b @ rest"
  using assms by (simp add: commit_version_def Let_def buf_write_def buf_read_def HEAD_SIZE_def)

lemma commit_version_same:
  assumes "HEAD_SIZE \<le> length b" "i + n \<le> 52 \<or> (76 \<le> i \<and> i + n \<le> 92) \<or> HEAD_SIZE \<le> i" "i + n \<le> length b"
  shows "buf_read (commit_version tab b) i n = buf_read b i n"
  using assms by (auto simp: commit_version_def Let_def HEAD_SIZE_def buf_simps)

lemma commit_version_current:
  assumes "HEAD_SIZE \<le> length b"
  shows "buf_read (commit_version tab b) 52 24 = buf_read b 28 24"
  using assms buf_read_write_same[of 52 "buf_read b 28 24" b]
  by (simp add: commit_version_def Let_def HEAD_SIZE_def buf_simps)

text \<open>Only the partition \<open>app\<close> has changed between two contents of the flash.\<close>

definition only_changes :: "fal_partition \<Rightarrow> flash \<Rightarrow> flash \<Rightarrow> bool" where
  "only_changes app m m' \<longleftrightarrow>
     (\<forall>q b k. part_wf q \<longrightarrow> b + k \<le> unat (part_len q) \<longrightarrow> part_disjoint app q \<longrightarrow>
        part_bytes m' q b k = part_bytes m q b k)"

lemma only_changes_refl [simp]: "only_changes app m m"
  by (simp add: only_changes_def)

lemma only_changes_trans: "only_changes app m m1 \<Longrightarrow> only_changes app m1 m2 \<Longrightarrow> only_changes app m m2"
  by (simp add: only_changes_def)

lemma only_changesD:
  "only_changes app m m' \<Longrightarrow> part_wf q \<Longrightarrow> b + k \<le> unat (part_len q) \<Longrightarrow> part_disjoint app q \<Longrightarrow>
   part_bytes m' q b k = part_bytes m q b k"
  by (simp add: only_changes_def)

text \<open>Only the first \<open>n\<close> bytes of partition \<open>p\<close> have changed; every other cell of the flash is as it was.\<close>

definition changes_within :: "fal_partition \<Rightarrow> nat \<Rightarrow> flash \<Rightarrow> flash \<Rightarrow> bool" where
  "changes_within p n m m' \<longleftrightarrow>
     (\<forall>i<flash_len. i < unat (part_offset p) \<or> unat (part_offset p) + n \<le> i \<longrightarrow> m' (flash_cell i) = m (flash_cell i))"

lemma changes_withinI:
  assumes "part_wf p" "n \<le> unat (part_len p)" "only_changes p m m'"
    and tail: "part_bytes m' p n (unat (part_len p) - n) = part_bytes m p n (unat (part_len p) - n)"
  shows "changes_within p n m m'"
  unfolding changes_within_def
proof (intro allI impI)
  fix i assume i: "i < flash_len" "i < unat (part_offset p) \<or> unat (part_offset p) + n \<le> i"
  let ?o = "unat (part_offset p)" and ?L = "unat (part_len p)"
  show "m' (flash_cell i) = m (flash_cell i)"
  proof (cases "?o + n \<le> i \<and> i < ?o + ?L")
    case True
    define j where "j = i - ?o - n"
    have j: "j < ?L - n" "?o + n + j = i" using True by (auto simp: j_def)
    have "part_bytes m' p n (?L - n) ! j = part_bytes m p n (?L - n) ! j" by (simp only: tail)
    then show ?thesis using j by (simp add: part_bytes_def flash_bytes_cell)
  next
    case False
    define k where "k = i div 4096 * 4096"
    let ?q = "p\<lparr>part_offset := of_nat k, part_len := 4096\<rparr>"
    have wf: "?o mod 4096 = 0" "?L mod 4096 = 0" "?o + ?L \<le> flash_len" using assms(1) by (auto simp: part_wf_def)
    have b: "k + 4096 \<le> flash_len" "k mod 4096 = 0" "k + i mod 4096 = i" using i(1) by (simp_all add: flash_len_def k_def)
    then have u: "unat (of_nat k :: u32) = k" by (intro unat_of_nat_flash) simp
    have "part_wf ?q" using assms(1) b by (simp add: part_wf_def u)
    moreover have "part_disjoint p ?q"
    proof -
      obtain a l where al: "?o = 4096 * a" "?L = 4096 * l" using wf by (metis mod_0_imp_dvd dvdE)
      have lt: "i div 4096 < a" if "i < 4096 * a" using that by linarith
      have ge: "a + l \<le> i div 4096" if "4096 * a + 4096 * l \<le> i" using that by linarith
      have "i < 4096 * a \<or> 4096 * a + 4096 * l \<le> i" using False i(2) al by auto
      then have "i div 4096 < a \<or> a + l \<le> i div 4096" using lt ge by blast
      then have "k + 4096 \<le> 4096 * a \<or> 4096 * a + 4096 * l \<le> k" by (auto simp: k_def)
      then show ?thesis using al by (auto simp: part_disjoint_def u)
    qed
    ultimately have "part_bytes m' ?q (i mod 4096) 1 = part_bytes m ?q (i mod 4096) 1"
      by (intro only_changesD[OF assms(3)]) (simp_all add: Suc_leI)
    then show ?thesis by (simp add: part_bytes_def flash_bytes_cell u b(3))
  qed
qed

lemma copy_version_effect:
  assumes "rom_nor (env_rom e)" "fal_partition_find (fal s) name = Some p" "part_wf p"
    and "0 < unat (part_len p)" "heap e (mallocs s)"
  shows "\<exists>s'. rt_fota_copy_version e name s = Some (RT_FOTA_NO_ERR, s') \<and> fal s' = fal s \<and> crc_tab s' = crc_tab s
    \<and> mallocs s' = Suc (mallocs s)
    \<and> part_bytes (flash_mem s') p 0 (unat (part_len p)) =
        commit_version (crc_tab s) (part_bytes (flash_mem s) p 0 (unat (part_len p)))
    \<and> only_changes p (flash_mem s) (flash_mem s')"
proof -
  let ?r = "env_rom e" and ?m = "flash_mem s" and ?L = "unat (part_len p)"
  have fr: "rom_frame ?r" using assms(1) by (rule rom_nor_frame)
  have L: "4096 \<le> ?L" using assms(3,4) by (auto simp: part_wf_def dest!: dvd_imp_le mod_0_imp_dvd)
  have rd: "fal_partition_read ?r p 0 4096 ?m = (4096, part_bytes ?m p 0 4096)"
    using part_read_frame[OF fr assms(3), of 0 4096 ?m] L by simp
  obtain m2 where e: "fal_partition_erase ?r p (of_nat 0) (of_nat 4096) ?m = (int 4096, m2)"
    using part_erase_nor[OF assms(1,3), of 0 4096 ?m] L by auto
  have ff: "part_bytes m2 p 0 4096 = replicate 4096 0xFF"
    using part_erase_frame(1)[OF fr assms(3) _ _ e] L by simp
  have keep2: "part_bytes m2 p 4096 (?L - 4096) = part_bytes ?m p 4096 (?L - 4096)"
    using part_erase_frame(2)[OF fr assms(3) _ _ e _ assms(3), of 4096 "?L - 4096"] L
    by (simp add: sectors_def)
  let ?new = "commit_version (crc_tab s) (part_bytes ?m p 0 4096)"
  have len: "length ?new = 4096" by (simp add: HEAD_SIZE_def)
  obtain m3 where w: "fal_partition_write ?r p (of_nat 0) ?new (of_nat 4096) m2 = Some (int 4096, m3)"
    using part_write_nor[OF assms(1,3), of 0 4096 ?new m2] L len ff by auto
  have "part_bytes m3 p 0 4096 = ?new"
    using part_write_frame(1)[OF fr assms(3) _ _ w] L len by simp
  moreover have "part_bytes m3 p 4096 (?L - 4096) = part_bytes m2 p 4096 (?L - 4096)"
    using part_write_frame(2)[OF fr assms(3) _ _ w _ assms(3), of 4096 "?L - 4096"] L by simp
  ultimately have "part_bytes m3 p 0 (4096 + (?L - 4096)) = ?new @ part_bytes ?m p 4096 (?L - 4096)"
    using keep2 by (simp add: part_bytes_append)
  also have "\<dots> = commit_version (crc_tab s) (part_bytes ?m p 0 (4096 + (?L - 4096)))"
    by (simp add: part_bytes_append commit_version_append HEAD_SIZE_def)
  finally have "part_bytes m3 p 0 ?L = commit_version (crc_tab s) (part_bytes ?m p 0 ?L)" using L by simp
  moreover have "only_changes p ?m m3"
    using part_erase_frame(2)[OF fr assms(3) _ _ e] part_write_frame(2)[OF fr assms(3) _ _ w] L
    by (auto simp: only_changes_def)
  ultimately show ?thesis
    using assms(2,5) rd e w L by (simp add: rt_fota_copy_version_def rt_malloc_def fota_errors)
qed

lemma get_le32_buf_read: "i + 4 \<le> n \<Longrightarrow> n \<le> length b \<Longrightarrow> get_le32 (buf_read b 0 n) i = get_le32 b i"
  by (simp add: get_le32_def buf_read_def)

lemma get_le32_cong:
  assumes "buf_read a i 4 = buf_read b i 4" "i + 4 \<le> length a" "i + 4 \<le> length b"
  shows "get_le32 a i = get_le32 b i"
proof -
  have "a ! (i + k) = b ! (i + k)" if "k < 4" for k
    using that assms by (metis nth_buf_read)
  from this[of 0] this[of 1] this[of 2] this[of 3] show ?thesis by (simp add: get_le32_def)
qed

lemma commit_version_head_crc:
  assumes "HEAD_SIZE \<le> length b"
  shows "hd_head_crc (commit_version tab b) = rt_fota_crc tab (take (HEAD_SIZE - 4) (commit_version tab b))"
proof -
  define c where "c = buf_write b 52 (buf_read b 28 24)"
  define x where "x = rt_fota_crc tab (take (HEAD_SIZE - 4) c)"
  have len: "HEAD_SIZE \<le> length c" using assms by (simp add: c_def HEAD_SIZE_def)
  have cv: "commit_version tab b = buf_write c 92 (le32_bytes x)"
    by (simp add: commit_version_def c_def x_def Let_def)
  have "take 92 (buf_write c 92 (le32_bytes x)) = take 92 c"
    using len by (simp add: buf_write_def HEAD_SIZE_def)
  moreover have "get_le32 (buf_write c 92 (le32_bytes x)) 92 = x"
    using len by (simp add: get_le32_def nth_buf_write HEAD_SIZE_def le32_bytes_def)
  ultimately show ?thesis by (simp add: cv x_def hd_head_crc_def HEAD_SIZE_def)
qed

lemma drop_buf_read: "drop i x = buf_read x i n @ drop (i + n) x"
  using append_take_drop_id[of n "drop i x"] by (simp add: buf_read_def add.commute)

lemma table_names: "q \<in> set partition_table_def \<Longrightarrow> length (part_name q) = 24"
  by (auto simp: part_table_simps FAL_DEV_NAME_MAX_def)

text \<open>The application partition is found by the first 40 bytes from its name on.\<close>

lemma find_app_cong:
  assumes "partition_table f = partition_table_def" "take 40 x = take 40 y"
  shows "fal_partition_find f x = fal_partition_find f y"
proof -
  have "c_str x = c_str (part_name q) \<longleftrightarrow> c_str y = c_str (part_name q)" if "q \<in> set partition_table_def" for q
    using c_str_prefix[of 40 x y] c_str_prefix[of 40 y x] assms(2) table_names[OF that]
      length_c_str_le[of "part_name q"] by force
  then show ?thesis
    unfolding fal_partition_find_def assms(1) by (intro find_cong) auto
qed

lemma commit_version_head:
  assumes "length h = HEAD_SIZE" "partition_table f = partition_table_def"
  shows "c_str (hd_type h) = bytes_of_string ''RBL'' \<Longrightarrow> c_str (hd_type (commit_version tab h)) = bytes_of_string ''RBL''"
    and "fal_partition_find f (hd_app_part_name (commit_version tab h)) = fal_partition_find f (hd_app_part_name h)"
    and "hd_com_size (commit_version tab h) = hd_com_size h"
    and "hd_code_crc (commit_version tab h) = hd_code_crc h"
    and "0 \<in> set (buf_read h 28 24) \<Longrightarrow>
      c_str (hd_download_version (commit_version tab h)) = c_str (hd_current_version (commit_version tab h))"
proof -
  let ?h = "commit_version tab h"
  have len: "HEAD_SIZE \<le> length h" "length ?h = HEAD_SIZE" using assms(1) by simp_all
  have same: "buf_read ?h i n = buf_read h i n" if "i + n \<le> 52 \<or> (76 \<le> i \<and> i + n \<le> 92)" for i n
    using that by (intro commit_version_same[OF len(1)]) (auto simp: assms(1) HEAD_SIZE_def)
  have "take 4 ?h = take 4 h" using same[of 0 4] by (simp add: buf_read_def)
  then show "c_str (hd_type h) = bytes_of_string ''RBL'' \<Longrightarrow> c_str (hd_type ?h) = bytes_of_string ''RBL''"
    using c_str_prefix[of 4 h ?h] by (simp add: hd_type_def bytes_of_string_def)
  show "fal_partition_find f (hd_app_part_name ?h) = fal_partition_find f (hd_app_part_name h)"
    unfolding hd_app_part_name_def
    by (rule find_app_cong[OF assms(2)]) (use same[of 12 40] in \<open>simp add: buf_read_def\<close>)
  show "hd_com_size ?h = hd_com_size h" "hd_code_crc ?h = hd_code_crc h"
    unfolding hd_com_size_def hd_code_crc_def using len same[of 88 4] same[of 76 4] assms(1)
    by (auto intro!: get_le32_cong simp: HEAD_SIZE_def)
  assume nul: "0 \<in> set (buf_read h 28 24)"
  have "drop 28 ?h = buf_read h 28 24 @ drop 52 ?h" "drop 52 ?h = buf_read h 28 24 @ drop 76 ?h"
    using same[of 28 24] commit_version_current[OF len(1), of tab]
      drop_buf_read[of 28 ?h 24] drop_buf_read[of 52 ?h 24] by simp_all
  then show "c_str (hd_download_version ?h) = c_str (hd_current_version ?h)"
    using c_str_append[OF nul] by (metis hd_download_version_def hd_current_version_def)
qed

text \<open>A committed image is still valid.\<close>

lemma commit_valid:
  assumes "fw_valid f tab m p" "image_fits m p" "partition_table f = partition_table_def"
    and B: "part_bytes m' p 0 (unat (part_len p)) = commit_version tab (part_bytes m p 0 (unat (part_len p)))"
  shows "fw_valid f tab m' p" "image_fits m' p"
    "part_bytes m' p 0 HEAD_SIZE = commit_version tab (part_bytes m p 0 HEAD_SIZE)"
proof -
  let ?L = "unat (part_len p)" and ?h = "part_bytes m p 0 HEAD_SIZE"
  let ?n = "unat (hd_com_size ?h)"
  have fits: "HEAD_SIZE + ?n \<le> ?L" "HEAD_SIZE \<le> ?L"
    using assms(2) by (auto simp: image_fits_def sectors_def)
  have "part_bytes m p 0 ?L = ?h @ part_bytes m p HEAD_SIZE (?L - HEAD_SIZE)"
    using part_bytes_append[of m p 0 HEAD_SIZE "?L - HEAD_SIZE"] fits by simp
  then have B': "part_bytes m' p 0 ?L = commit_version tab ?h @ part_bytes m p HEAD_SIZE (?L - HEAD_SIZE)"
    using B by (simp add: commit_version_append)
  show h: "part_bytes m' p 0 HEAD_SIZE = commit_version tab ?h"
    using part_bytes_sub[of 0 HEAD_SIZE ?L m' p] fits B' by (simp add: buf_read_def)
  have body: "part_bytes m' p HEAD_SIZE ?n = part_bytes m p HEAD_SIZE ?n"
    using part_bytes_sub[of HEAD_SIZE ?n ?L m' p] part_bytes_sub[of HEAD_SIZE ?n ?L m p] fits B
    by (simp add: commit_version_same)
  note head = commit_version_head[of ?h, OF _ assms(3), simplified]
  show "image_fits m' p" using assms(2) by (simp add: image_fits_def h head(3))
  show "fw_valid f tab m' p"
    using assms(1) commit_version_head_crc[of ?h tab] head(1-4) body by (simp add: fw_valid_def Let_def h)
qed

lemma commit_version_strings:
  assumes "length h = HEAD_SIZE" "0 \<in> set (buf_read h 28 24)"
  shows "c_str (hd_current_version (commit_version tab h)) = c_str (hd_download_version h)"
    "c_str (hd_download_version (commit_version tab h)) = c_str (hd_download_version h)"
proof -
  let ?h = "commit_version tab h"
  have len: "HEAD_SIZE \<le> length h" using assms(1) by simp
  have d: "drop 28 h = buf_read h 28 24 @ drop 52 h" "drop 28 ?h = buf_read h 28 24 @ drop 52 ?h" "drop 52 ?h = buf_read h 28 24 @ drop 76 ?h"
    using drop_buf_read[of 28 h 24] drop_buf_read[of 28 ?h 24] drop_buf_read[of 52 ?h 24] commit_version_current[OF len, of tab]
      commit_version_same[OF len, of 28 24 tab] assms(1) by (simp_all add: HEAD_SIZE_def)
  show "c_str (hd_current_version ?h) = c_str (hd_download_version h)" "c_str (hd_download_version ?h) = c_str (hd_download_version h)"
    unfolding hd_download_version_def hd_current_version_def d c_str_append[OF assms(2)] by simp_all
qed

lemma commit_within:
  assumes "part_wf p" "HEAD_SIZE \<le> unat (part_len p)" "only_changes p m m'"
    and B: "part_bytes m' p 0 (unat (part_len p)) = commit_version tab (part_bytes m p 0 (unat (part_len p)))"
  shows "changes_within p HEAD_SIZE m m'"
proof (rule changes_withinI[OF assms(1-3)])
  let ?L = "unat (part_len p)"
  have "part_bytes m' p HEAD_SIZE (?L - HEAD_SIZE) = buf_read (part_bytes m' p 0 ?L) HEAD_SIZE (?L - HEAD_SIZE)"
    using part_bytes_sub[of HEAD_SIZE "?L - HEAD_SIZE" ?L m' p] assms(2) by simp
  also have "\<dots> = buf_read (part_bytes m p 0 ?L) HEAD_SIZE (?L - HEAD_SIZE)"
    unfolding B by (rule commit_version_same) (use assms(2) in \<open>auto simp: HEAD_SIZE_def\<close>)
  also have "\<dots> = part_bytes m p HEAD_SIZE (?L - HEAD_SIZE)"
    using part_bytes_sub[of HEAD_SIZE "?L - HEAD_SIZE" ?L m p] assms(2) by simp
  finally show "part_bytes m' p HEAD_SIZE (?L - HEAD_SIZE) = part_bytes m p HEAD_SIZE (?L - HEAD_SIZE)" .
qed

subsection \<open>A corrupted byte\<close>

lemma flash_cell_inj: "i < flash_len \<Longrightarrow> j < flash_len \<Longrightarrow> flash_cell i = flash_cell j \<longleftrightarrow> i = j"
  by (metis add_left_cancel less_imp_le_nat unat_flash_cell)

lemma part_bytes_update:
  assumes "part_wf p" "a + n \<le> unat (part_len p)" "k < unat (part_len p)"
  shows "part_bytes (m(flash_cell (unat (part_offset p) + k) := b)) p a n =
    (if a \<le> k then (part_bytes m p a n)[k - a := b] else part_bytes m p a n)"
proof -
  have "flash_cell (unat (part_offset p) + (a + i)) = flash_cell (unat (part_offset p) + k) \<longleftrightarrow> a + i = k" if "i < n" for i
    using assms that by (subst flash_cell_inj) (auto simp: part_wf_def)
  then show ?thesis
    by (intro nth_equalityI) (auto simp: part_bytes_def flash_bytes_cell nth_list_update add.assoc)
qed

lemma corrupt_body_invalid:
  assumes "part_wf p" "image_fits m p" "fw_valid f rt_fota_crc_init m p"
    and "i < unat (hd_com_size (part_bytes m p 0 HEAD_SIZE))"
    and "cell = flash_cell (unat (part_offset p) + (HEAD_SIZE + i))" "b \<noteq> m cell"
  shows "\<not> fw_valid f rt_fota_crc_init (m(cell := b)) p" "image_fits (m(cell := b)) p"
proof -
  let ?m = "m(cell := b)" and ?h = "part_bytes m p 0 HEAD_SIZE"
  let ?n = "unat (hd_com_size ?h)"
  let ?body = "part_bytes m p HEAD_SIZE ?n"
  have fits: "HEAD_SIZE + ?n \<le> unat (part_len p)"
    using assms(2) by (auto simp: image_fits_def sectors_def)
  have h: "part_bytes ?m p 0 HEAD_SIZE = ?h"
    using part_bytes_update[OF assms(1), of 0 HEAD_SIZE "HEAD_SIZE + i" m b] fits assms(4,5)
    by (simp add: list_update_beyond)
  show "image_fits ?m p" using assms(2) by (simp add: image_fits_def h)
  have "part_bytes ?m p HEAD_SIZE ?n = ?body[i := b]"
    using part_bytes_update[OF assms(1), of HEAD_SIZE ?n "HEAD_SIZE + i" m b] fits assms(4,5) by simp
  also have "\<dots> = take i ?body @ b # drop (Suc i) ?body"
    using assms(4) by (simp add: upd_conv_take_nth_drop)
  finally have "rt_fota_crc rt_fota_crc_init (part_bytes ?m p HEAD_SIZE ?n) =
      rt_fota_crc rt_fota_crc_init (take i ?body @ b # drop (Suc i) ?body)" by simp
  moreover have "?body = take i ?body @ m cell # drop (Suc i) ?body"
    using assms(4,5) id_take_nth_drop[of i ?body] by (simp add: part_bytes_def flash_bytes_cell add.assoc)
  ultimately have "rt_fota_crc rt_fota_crc_init (part_bytes ?m p HEAD_SIZE ?n) \<noteq> rt_fota_crc rt_fota_crc_init ?body"
    using rt_fota_crc_one_byte[OF assms(6), of "take i ?body" "drop (Suc i) ?body"] by metis
  with assms(3) show "\<not> fw_valid f rt_fota_crc_init ?m p" by (simp add: fw_valid_def Let_def h)
qed

subsection \<open>Packed images\<close>

text \<open>
  The header the packaging tool writes in front of a body: the fields of \<^verbatim>\<open>rt_fota_part_head\<close> in
  order, with the checksums of the body and of the header.
\<close>

definition pack_head :: "u32 list \<Rightarrow> u16 \<Rightarrow> string \<Rightarrow> string \<Rightarrow> string \<Rightarrow> u32 \<Rightarrow> bytes \<Rightarrow> bytes" where
  "pack_head tab algo name dv cv raw body =
     (let h = bytes_of_string ''RBL'' @ [0, ucast algo, ucast (drop_bit 8 algo)] @ replicate 6 0
            @ char_array 16 name @ char_array 24 dv @ char_array 24 cv
            @ le32_bytes (rt_fota_crc tab body) @ le32_bytes 0 @ le32_bytes raw @ le32_bytes (of_nat (length body))
      in h @ le32_bytes (rt_fota_crc tab h))"

lemma get_le32_append: "get_le32 (xs @ le32_bytes w @ ys) (length xs) = w"
  by (simp add: get_le32_def le32_bytes_def nth_append)

lemma get_le32_at: "b = xs @ le32_bytes w @ ys \<Longrightarrow> length xs = i \<Longrightarrow> get_le32 b i = w"
  using get_le32_append by metis

lemma c_str_char_array: "length nm < n \<Longrightarrow> c_str (char_array n nm @ rest) = c_str (char_array n nm)"
  by (rule c_str_append) (simp add: char_array_def bytes_of_string_def)

lemma length_RBL [simp]: "length (bytes_of_string ''RBL'') = 3" "c_str (bytes_of_string ''RBL'' @ 0 # x) = bytes_of_string ''RBL''"
  by (simp_all add: bytes_of_string_def c_str_def)

lemma pack_head_fields:
  fixes tab algo name dv cv raw body
  defines "h \<equiv> pack_head tab algo name dv cv raw body"
  shows "length h = HEAD_SIZE" "c_str (hd_type h) = bytes_of_string ''RBL''"
    "rt_fota_crc tab (take (HEAD_SIZE - 4) h) = hd_head_crc h"
    "hd_code_crc h = rt_fota_crc tab body" "hd_raw_size h = raw" "hd_com_size h = of_nat (length body)"
    "length name < 16 \<Longrightarrow> c_str (hd_app_part_name h) = c_str (char_array 16 name)"
    "length dv < 24 \<Longrightarrow> c_str (hd_download_version h) = c_str (char_array 24 dv)"
    "length cv < 24 \<Longrightarrow> c_str (hd_current_version h) = c_str (char_array 24 cv)"
proof -
  define f where "f = bytes_of_string ''RBL'' @ [0, ucast algo, ucast (drop_bit 8 algo)] @ replicate 6 0"
  define c raw' com where "c = le32_bytes (rt_fota_crc tab body)" and "raw' = le32_bytes raw"
    and "com = le32_bytes (of_nat (length body))"
  define g where "g = f @ char_array 16 name @ char_array 24 dv @ char_array 24 cv"
  define t where "t = g @ c @ le32_bytes 0 @ raw' @ com"
  have h: "h = t @ le32_bytes (rt_fota_crc tab t)"
    by (simp add: h_def pack_head_def Let_def f_def c_def raw'_def com_def g_def t_def)
  have len: "length f = 12" "length g = 76" "length c = 4" "length raw' = 4" "length com = 4" "length t = 92"
    by (simp_all add: f_def c_def raw'_def com_def g_def t_def)
  note tg = h t_def g_def
  show "length h = HEAD_SIZE" by (simp add: h len HEAD_SIZE_def)
  show "c_str (hd_type h) = bytes_of_string ''RBL''" by (simp add: tg f_def hd_type_def)
  have "get_le32 h 92 = rt_fota_crc tab t" by (rule get_le32_at[of h t _ "[]"]) (simp_all add: h len)
  then show "rt_fota_crc tab (take (HEAD_SIZE - 4) h) = hd_head_crc h"
    by (simp add: h len hd_head_crc_def HEAD_SIZE_def)
  show "hd_code_crc h = rt_fota_crc tab body" unfolding hd_code_crc_def
    by (rule get_le32_at[of h g]) (simp_all add: tg c_def len)
  show "hd_raw_size h = raw" unfolding hd_raw_size_def
    by (rule get_le32_at[of h "g @ c @ le32_bytes 0"]) (simp_all add: tg raw'_def len)
  show "hd_com_size h = of_nat (length body)" unfolding hd_com_size_def
    by (rule get_le32_at[of h "g @ c @ le32_bytes 0 @ raw'"]) (simp_all add: tg com_def len)
  show "length name < 16 \<Longrightarrow> c_str (hd_app_part_name h) = c_str (char_array 16 name)"
    "length dv < 24 \<Longrightarrow> c_str (hd_download_version h) = c_str (char_array 24 dv)"
    "length cv < 24 \<Longrightarrow> c_str (hd_current_version h) = c_str (char_array 24 cv)"
    by (simp_all add: tg len hd_app_part_name_def hd_download_version_def hd_current_version_def c_str_char_array)
qed

text \<open>An image of one body in a partition, and a flash that holds it there.\<close>

definition holds_image :: "flash \<Rightarrow> fal_partition \<Rightarrow> bytes \<Rightarrow> bool" where
  "holds_image m p img \<longleftrightarrow> part_bytes m p 0 (length img) = img"

definition place :: "fal_partition \<Rightarrow> bytes \<Rightarrow> flash \<Rightarrow> flash" where
  "place p img m = (\<lambda>a. let i = unat (a - flash_cell (unat (part_offset p))) in if i < length img then img ! i else m a)"

lemma place_holds:
  assumes "length img < 2 ^ 32"
  shows "holds_image (place p img m) p img"
proof -
  have "unat (flash_cell (a + i) - flash_cell a) = i" if "i < length img" for i a
    using that assms by (simp add: flash_cell_def unat_of_nat)
  then show ?thesis
    unfolding holds_image_def by (intro nth_equalityI) (auto simp: part_bytes_def flash_bytes_cell place_def)
qed

lemma holds_pack:
  fixes tab algo name dv cv raw body
  defines "h \<equiv> pack_head tab algo name dv cv raw body"
  assumes "holds_image m p (h @ body)" "length body < 2 ^ 32"
  shows "part_bytes m p 0 HEAD_SIZE = h"
    "unat (hd_com_size (part_bytes m p 0 HEAD_SIZE)) = length body"
    "part_bytes m p HEAD_SIZE (length body) = body"
proof -
  have len: "length h = HEAD_SIZE" by (simp add: h_def pack_head_fields)
  have "part_bytes m p 0 (HEAD_SIZE + length body) = h @ body"
    using assms(2) len by (simp add: holds_image_def)
  then have "part_bytes m p 0 HEAD_SIZE @ part_bytes m p (0 + HEAD_SIZE) (length body) = h @ body"
    by (simp only: part_bytes_append)
  with len show h: "part_bytes m p 0 HEAD_SIZE = h" and "part_bytes m p HEAD_SIZE (length body) = body"
    by simp_all
  show "unat (hd_com_size (part_bytes m p 0 HEAD_SIZE)) = length body"
    unfolding h using assms(3) by (simp add: h_def pack_head_fields unat_of_nat)
qed

lemma pack_valid:
  fixes tab algo name dv cv raw body
  defines "h \<equiv> pack_head tab algo name dv cv raw body"
  assumes "holds_image m p (h @ body)" "length body < 2 ^ 32" "length name < 16"
    and "fal_partition_find f (char_array 16 name) \<noteq> None"
  shows "fw_valid f tab m p"
proof -
  note p = holds_pack[OF assms(2,3)[unfolded h_def]]
  have "fal_partition_find f (hd_app_part_name h) = fal_partition_find f (char_array 16 name)"
    using assms(4) by (simp add: fal_partition_find_def h_def pack_head_fields(7))
  then show ?thesis
    unfolding fw_valid_def Let_def p(1)
    using assms(3,5) p(3) by (simp add: h_def pack_head_fields unat_of_nat)
qed

section \<open>Properties\<close>

text \<open>
  C5: verification accepts exactly the valid images. For every content of the flash and every
  partition, \<^verbatim>\<open>rt_fota_part_fw_verify\<close> returns \<^verbatim>\<open>RT_FOTA_NO_ERR\<close> if and only if the buffer can be allocated, the 4096-byte chunks of
  the body lie in the partition, and the header checksum, the type, the named application partition and the checksum of the
  whole body are right; it leaves the flash alone, and \<^verbatim>\<open>fota_part_head\<close> holds the header after success and zeros after a failure.
\<close>

theorem rt_fota_part_fw_verify_correct:
  assumes "rom_frame (env_rom e)" "fal_partition_find (fal s) name = Some p" "part_wf p"
    and "ok \<longleftrightarrow> heap e (mallocs s) \<and> image_fits (flash_mem s) p \<and> fw_valid (fal s) (crc_tab s) (flash_mem s) p"
  shows "\<exists>res s'. rt_fota_part_fw_verify e (Some name) s = (res, s') \<and> flash_mem s' = flash_mem s
    \<and> (res = RT_FOTA_NO_ERR \<longleftrightarrow> ok)
    \<and> fota_part_head s' = (if ok then part_bytes (flash_mem s) p 0 HEAD_SIZE else replicate HEAD_SIZE 0)"
proof (cases "heap e (mallocs s) \<and> image_fits (flash_mem s) p")
  case True
  then show ?thesis using verify_correct[OF assms(1-3)] assms(4) by auto
next
  case False
  then show ?thesis using verify_refuses[OF assms(1-3)] assms(4)
    by (auto simp: rt_fota_part_fw_verify_def split: prod.splits)
qed

text \<open>The state after start-up, with an image of four bytes for version 2 in the download partition.\<close>

definition demo_env :: fota_env where
  "demo_env = \<lparr>env_rom = nor_rom, heap = (\<lambda>_. True)\<rparr>"

definition download_part :: fal_partition where
  "download_part = mk_part ''download'' 0x200000 0x168000"

definition demo_image :: bytes where
  "demo_image = pack_head rt_fota_crc_init 0 ''app'' ''2.0'' ''1.0'' 4 [1, 2, 3, 4] @ [1, 2, 3, 4]"

definition demo_sys :: fota_sys where
  "demo_sys = \<lparr>flash_mem = place download_part demo_image (\<lambda>_. 0xFF), fal = snd (fal_init nor_rom fal_reset),
     crc_tab = rt_fota_crc_init, fota_part_head = replicate HEAD_SIZE 0, mallocs = 0\<rparr>"

lemma demo_download:
  "fal_partition_find (fal demo_sys) (bytes_of_string ''download'') = Some download_part"
  "fal_partition_find (fal demo_sys) (char_array 16 ''app'') \<noteq> None"
  "part_wf download_part" "unat (part_len download_part) = 0x168000"
  "partition_table (fal demo_sys) = partition_table_def"
  by (simp_all add: demo_sys_def fal_init_reset fal_partition_find_def part_table_simps bytes_of_string_def
      char_array_def c_str_def FAL_DEV_NAME_MAX_def download_part_def part_wf_def flash_len_def)

lemma demo_holds: "holds_image (flash_mem demo_sys) download_part demo_image"
proof -
  have "length demo_image < 2 ^ 32" by (simp add: demo_image_def pack_head_fields(1) HEAD_SIZE_def)
  then show ?thesis unfolding demo_sys_def by (simp add: place_holds)
qed

lemma demo_valid:
  "fw_valid (fal demo_sys) (crc_tab demo_sys) (flash_mem demo_sys) download_part"
  "image_fits (flash_mem demo_sys) download_part"
proof -
  note d = demo_holds[unfolded demo_image_def]
  have tab: "crc_tab demo_sys = rt_fota_crc_init" by (simp add: demo_sys_def)
  show "fw_valid (fal demo_sys) (crc_tab demo_sys) (flash_mem demo_sys) download_part"
    unfolding tab by (rule pack_valid[OF d]) (simp_all add: demo_download)
  have "unat (hd_com_size (part_bytes (flash_mem demo_sys) download_part 0 HEAD_SIZE)) = 4"
    using holds_pack(2)[OF d] by simp
  then show "image_fits (flash_mem demo_sys) download_part"
    by (simp add: image_fits_def demo_download sectors_def HEAD_SIZE_def)
qed

lemmas demo_facts = demo_download demo_valid demo_holds

theorem rt_fota_part_fw_verify_correct_witness:
  "fst (rt_fota_part_fw_verify demo_env (Some (bytes_of_string ''download'')) demo_sys) = RT_FOTA_NO_ERR"
proof -
  have "rom_frame (env_rom demo_env)" "heap demo_env (mallocs demo_sys)"
    by (simp_all add: demo_env_def rom_frame_nor_rom)
  with rt_fota_part_fw_verify_correct[OF _ demo_download(1,3) refl] demo_valid show ?thesis
    by (metis fst_conv)
qed

text \<open>
  An image that the packaging format describes is accepted: whatever the algorithm field, the
  versions and the body are, if the flash holds the packed header and the body at the start of the partition and
  the chunks fit, verification succeeds, and an upgrade is due if and only if the two
  version strings differ.
\<close>

theorem rt_fota_packed_image_accepted:
  assumes "rom_frame (env_rom e)" "fal_partition_find (fal s) name = Some p" "part_wf p"
    and "holds_image (flash_mem s) p (pack_head (crc_tab s) algo app dv cv raw body @ body)"
    and "HEAD_SIZE + sectors (length body) * 4096 \<le> unat (part_len p)" "heap e (mallocs s)"
    and "length app < 16" "length dv < 24" "length cv < 24" "fal_partition_find (fal s) (char_array 16 app) \<noteq> None"
  shows "\<exists>s'. rt_fota_part_fw_verify e (Some name) s = (RT_FOTA_NO_ERR, s')
    \<and> (rt_fota_check_upgrade s' = 1 \<longleftrightarrow> c_str (char_array 24 dv) \<noteq> c_str (char_array 24 cv))"
proof -
  have "unat (part_len p) < 2 ^ 32" using unsigned_less[of "part_len p", where ?'a = nat] by simp
  then have b: "length body < 2 ^ 32" using assms(5) by (simp add: sectors_def)
  note pk = holds_pack[OF assms(4) b]
  have "fw_valid (fal s) (crc_tab s) (flash_mem s) p" by (rule pack_valid[OF assms(4) b assms(7,10)])
  moreover have "image_fits (flash_mem s) p" using assms(5) by (simp add: image_fits_def pk(2))
  ultimately obtain s' where "rt_fota_part_fw_verify e (Some name) s = (RT_FOTA_NO_ERR, s')"
    "fota_part_head s' = pack_head (crc_tab s) algo app dv cv raw body"
    using verify_correct[OF assms(1-3) _ assms(6)] pk(1) by auto
  then show ?thesis by (simp add: rt_fota_check_upgrade_def pack_head_fields assms(8,9))
qed

theorem rt_fota_packed_image_accepted_witness:
  "\<exists>s'. rt_fota_part_fw_verify demo_env (Some (bytes_of_string ''download'')) demo_sys = (RT_FOTA_NO_ERR, s')
     \<and> rt_fota_check_upgrade s' = 1"
proof -
  have "crc_tab demo_sys = rt_fota_crc_init" by (simp add: demo_sys_def)
  note d = demo_holds[unfolded demo_image_def, folded this]
  have "c_str (char_array 24 ''2.0'') \<noteq> c_str (char_array 24 ''1.0'')" by code_simp
  with rt_fota_packed_image_accepted[of demo_env, OF _ demo_download(1,3) d _ _ _ _ _ demo_download(2)] demo_download(4)
  show ?thesis by (simp add: demo_env_def rom_frame_nor_rom sectors_def HEAD_SIZE_def)
qed

text \<open>
  C13: corruption of one byte of the body is always caught: if an image passes verification and
  then any single byte of its body takes another value, it no longer passes.
\<close>

theorem rt_fota_part_fw_verify_detects_corruption:
  assumes "rom_frame (env_rom e)" "fal_partition_find (fal s) name = Some p" "part_wf p"
    and "image_fits (flash_mem s) p" "heap e (mallocs s)" "crc_tab s = rt_fota_crc_init"
    and "fst (rt_fota_part_fw_verify e (Some name) s) = RT_FOTA_NO_ERR"
    and "i < unat (hd_com_size (part_bytes (flash_mem s) p 0 HEAD_SIZE))"
    and "cell = flash_cell (unat (part_offset p) + HEAD_SIZE + i)" "b \<noteq> flash_mem s cell"
  shows "fst (rt_fota_part_fw_verify e (Some name) (s\<lparr>flash_mem := (flash_mem s)(cell := b)\<rparr>)) \<noteq> RT_FOTA_NO_ERR"
proof -
  have "fw_valid (fal s) rt_fota_crc_init (flash_mem s) p"
    using verify_correct[OF assms(1-5)] assms(6,7) by auto
  note c = corrupt_body_invalid[OF assms(3,4) this assms(8) assms(9)[unfolded add.assoc] assms(10)]
  show ?thesis
    using verify_correct[of e "s\<lparr>flash_mem := (flash_mem s)(cell := b)\<rparr>" name p] assms(1-3,5,6) c by auto
qed

theorem rt_fota_part_fw_verify_detects_corruption_witness:
  "\<exists>cell. fst (rt_fota_part_fw_verify demo_env (Some (bytes_of_string ''download''))
     (demo_sys\<lparr>flash_mem := (flash_mem demo_sys)(cell := 9)\<rparr>)) \<noteq> RT_FOTA_NO_ERR"
proof -
  let ?c = "flash_cell (unat (part_offset download_part) + HEAD_SIZE + 2)"
  note d = demo_holds[unfolded demo_image_def]
  have env: "rom_frame (env_rom demo_env)" "heap demo_env (mallocs demo_sys)"
    by (simp_all add: demo_env_def rom_frame_nor_rom)
  have ok: "fst (rt_fota_part_fw_verify demo_env (Some (bytes_of_string ''download'')) demo_sys) = RT_FOTA_NO_ERR"
    using verify_correct[OF env(1) demo_download(1,3) demo_valid(2) env(2)] demo_valid(1) by auto
  have "part_bytes (flash_mem demo_sys) download_part HEAD_SIZE (length [1, 2, 3, 4 :: u8]) = [1, 2, 3, 4]"
    by (rule holds_pack(3)[OF d]) simp
  moreover have "length [1, 2, 3, 4 :: u8] = 4" by simp
  ultimately have "part_bytes (flash_mem demo_sys) download_part HEAD_SIZE 4 ! 2 = [1, 2, 3, 4] ! 2"
    by (simp only:)
  then have "9 \<noteq> flash_mem demo_sys ?c" by (simp add: part_bytes_def flash_bytes_cell)
  from rt_fota_part_fw_verify_detects_corruption[OF env(1) demo_download(1,3) demo_valid(2) env(2) _ ok _ refl this]
  show ?thesis using holds_pack(2)[OF d] by (auto simp: demo_sys_def)
qed

text \<open>
  C18: committing the version of an installed image on a working chip settles the upgrade and touches nothing else: after
  \<^verbatim>\<open>rt_fota_copy_version\<close> the header is the old one with the new version in both fields and its checksum renewed, no cell of the
  flash outside the header has changed, the image still verifies, and
  \<^verbatim>\<open>rt_fota_check_upgrade\<close> reports that nothing is to be done, so an upgrade runs once.
\<close>

theorem rt_fota_copy_version_commits:
  assumes "rom_nor (env_rom e)" "partition_table (fal s) = partition_table_def"
    and "fal_partition_find (fal s) name = Some p" "\<forall>k. heap e k"
    and "fw_valid (fal s) (crc_tab s) (flash_mem s) p" "image_fits (flash_mem s) p"
    and "h = part_bytes (flash_mem s) p 0 HEAD_SIZE" "0 \<in> set (buf_read h 28 24)"
  shows "\<exists>s1 s2. rt_fota_copy_version e name s = Some (RT_FOTA_NO_ERR, s1)
    \<and> part_bytes (flash_mem s1) p 0 HEAD_SIZE = commit_version (crc_tab s) h
    \<and> c_str (hd_current_version (commit_version (crc_tab s) h)) = c_str (hd_download_version h)
    \<and> c_str (hd_download_version (commit_version (crc_tab s) h)) = c_str (hd_download_version h)
    \<and> changes_within p HEAD_SIZE (flash_mem s) (flash_mem s1)
    \<and> rt_fota_part_fw_verify e (Some name) s1 = (RT_FOTA_NO_ERR, s2) \<and> rt_fota_check_upgrade s2 = 0"
proof -
  have wf: "part_wf p"
    using fal_partition_find_mem[OF assms(3)] assms(2) by (simp add: partition_table_wf)
  have "0 < unat (part_len p)" using assms(6) by (simp add: image_fits_def HEAD_SIZE_def)
  then obtain s1 where s1: "rt_fota_copy_version e name s = Some (RT_FOTA_NO_ERR, s1)"
    "fal s1 = fal s" "crc_tab s1 = crc_tab s"
    and B: "part_bytes (flash_mem s1) p 0 (unat (part_len p)) =
        commit_version (crc_tab s) (part_bytes (flash_mem s) p 0 (unat (part_len p)))"
    and only: "only_changes p (flash_mem s) (flash_mem s1)"
    using copy_version_effect[OF assms(1,3) wf] assms(4) by blast
  note c = commit_valid[OF assms(5,6,2) B]
  have within: "changes_within p HEAD_SIZE (flash_mem s) (flash_mem s1)"
    by (rule commit_within[OF wf _ only B]) (use assms(6) in \<open>simp add: image_fits_def\<close>)
  note v = commit_version_strings[of h "crc_tab s", OF _ assms(8)]
  obtain s2 where "rt_fota_part_fw_verify e (Some name) s1 = (RT_FOTA_NO_ERR, s2)"
    "fota_part_head s2 = commit_version (crc_tab s) (part_bytes (flash_mem s) p 0 HEAD_SIZE)"
    using verify_correct[OF rom_nor_frame[OF assms(1)] _ wf, of s1 name] c assms(3,4) s1 by auto
  moreover have "rt_fota_check_upgrade s2 = 0"
    using calculation(2) v by (simp add: rt_fota_check_upgrade_def assms(7))
  ultimately show ?thesis using s1 within c(3) v by (auto simp: assms(7))
qed

theorem rt_fota_copy_version_commits_witness:
  "\<exists>s1 s2. rt_fota_copy_version demo_env (bytes_of_string ''download'') demo_sys = Some (RT_FOTA_NO_ERR, s1)
    \<and> rt_fota_part_fw_verify demo_env (Some (bytes_of_string ''download'')) s1 = (RT_FOTA_NO_ERR, s2)
    \<and> rt_fota_check_upgrade s2 = 0"
proof -
  have "0 \<in> set (buf_read (part_bytes (flash_mem demo_sys) download_part 0 HEAD_SIZE) 28 24)"
    unfolding holds_pack(1)[OF demo_holds[unfolded demo_image_def], simplified]
    by (simp add: pack_head_def Let_def buf_read_def char_array_def bytes_of_string_def)
  from rt_fota_copy_version_commits[of demo_env, OF _ demo_download(5,1) _ demo_valid refl this] show ?thesis
    by (auto simp: demo_env_def rom_nor_nor_rom)
qed

text \<open>
  The body is read in whole chunks, so the space behind the header is not all usable: an image
  whose checks on the header pass is refused with \<^verbatim>\<open>RT_FOTA_PART_READ_ERR\<close> whenever the chunk that holds the end of the body
  reaches over the end of the partition, even if the body itself fits.
\<close>

theorem rt_fota_part_fw_verify_last_chunk:
  assumes "rom_frame (env_rom e)" "fal_partition_find (fal s) name = Some p" "part_wf p"
    and "HEAD_SIZE \<le> unat (part_len p)" "heap e (mallocs s)" "h = part_bytes (flash_mem s) p 0 HEAD_SIZE"
    and "rt_fota_crc (crc_tab s) (take (HEAD_SIZE - 4) h) = hd_head_crc h"
    and "c_str (hd_type h) = bytes_of_string ''RBL''" "fal_partition_find (fal s) (hd_app_part_name h) \<noteq> None"
    and "0 < unat (hd_com_size h)" "HEAD_SIZE + unat (hd_com_size h) \<le> unat (part_len p)"
    and "unat (part_len p) < HEAD_SIZE + sectors (unat (hd_com_size h)) * 4096"
  shows "fst (rt_fota_part_fw_verify e (Some name) s) = RT_FOTA_PART_READ_ERR"
proof -
  from verify_body_overrun[OF assms(1,3,12) _ assms(10)]
  show ?thesis using assms head_read[OF assms(1,3,4), of "flash_mem s"]
    by (auto simp: rt_fota_part_fw_verify_def verify_checks_def rt_malloc_def fota_errors)
qed

text \<open>An image that fills the download partition.\<close>

definition full_body :: bytes where
  "full_body = replicate (0x168000 - HEAD_SIZE) 0"

definition full_sys :: fota_sys where
  "full_sys = demo_sys\<lparr>flash_mem := place download_part
     (pack_head rt_fota_crc_init 0 ''app'' ''2.0'' ''1.0'' 4 full_body @ full_body) (\<lambda>_. 0xFF)\<rparr>"

theorem rt_fota_part_fw_verify_last_chunk_witness:
  "fst (rt_fota_part_fw_verify demo_env (Some (bytes_of_string ''download'')) full_sys) = RT_FOTA_PART_READ_ERR"
proof -
  let ?h = "pack_head rt_fota_crc_init 0 ''app'' ''2.0'' ''1.0'' 4 full_body"
  have len: "length full_body = 0x168000 - 96" by (simp add: full_body_def HEAD_SIZE_def)
  have "holds_image (flash_mem full_sys) download_part (?h @ full_body)"
    unfolding full_sys_def by (simp add: place_holds pack_head_fields(1) len HEAD_SIZE_def)
  from holds_pack[OF this] len
  have h: "?h = part_bytes (flash_mem full_sys) download_part 0 HEAD_SIZE" and n: "unat (hd_com_size ?h) = 0x168000 - 96"
    by simp_all
  have same: "fal full_sys = fal demo_sys" "crc_tab full_sys = rt_fota_crc_init" "heap demo_env k"
    "rom_frame (env_rom demo_env)" for k
    by (simp_all add: full_sys_def demo_sys_def demo_env_def rom_frame_nor_rom)
  have "fal_partition_find (fal full_sys) (hd_app_part_name ?h) \<noteq> None"
    using demo_download(2) by (simp add: same fal_partition_find_def pack_head_fields(7))
  moreover have "fal_partition_find (fal full_sys) (bytes_of_string ''download'') = Some download_part"
    using demo_download(1) by (simp add: same)
  moreover have "rt_fota_crc (crc_tab full_sys) (take (HEAD_SIZE - 4) ?h) = hd_head_crc ?h"
    unfolding same by (rule pack_head_fields(3))
  ultimately show ?thesis
    using rt_fota_part_fw_verify_last_chunk[OF same(4) _ demo_download(3) _ same(3) h] demo_download(4) n
    by (simp add: pack_head_fields(2) HEAD_SIZE_def sectors_def)
qed

end
