(* ===== verification/Aes.thy ===== *)
theory Aes
  imports Aes_Tables
begin

text \<open>
  The AES of \<^verbatim>\<open>packages/tinycrypt-v1.0.0/src/tiny_aes.c\<close>: key schedules, the block cipher in its
  table form, and the CBC and CFB128 modes. \<^verbatim>\<open>unsigned long\<close> is 32 bits wide on the target. The
  pointer \<^verbatim>\<open>RK\<close> that walks the key schedule is an index into the list \<^verbatim>\<open>rk\<close>; blocks are lists of 16
  bytes. The cipher is proved to be inverted by the decryption schedule of the same key, for every
  key and block, and the modes to round trip.
\<close>

section \<open>Model\<close>

datatype aes_mode = AES_ENCRYPT | AES_DECRYPT

record tiny_aes_context =
  nr :: nat
  rk :: "u32 list"

type_synonym aes_state = "u32 \<times> u32 \<times> u32 \<times> u32"

definition sub4 :: "u8 list \<Rightarrow> u8 \<Rightarrow> u8 \<Rightarrow> u8 \<Rightarrow> u8 \<Rightarrow> u32" where
  "sub4 S a b c d =
     ucast (S ! unat a) XOR push_bit 8 (ucast (S ! unat b)) XOR
     push_bit 16 (ucast (S ! unat c)) XOR push_bit 24 (ucast (S ! unat d))"

text \<open>One iteration of each of the three expansion loops; the schedule grows by 4, 6 or 8 words.\<close>

definition expand_128 :: "nat \<Rightarrow> u32 list \<Rightarrow> u32 list" where
  "expand_128 i RK =
     (let K = (\<lambda>j. RK ! (4 * i + j));
          k4 = K 0 XOR RCON ! i XOR sub4 FSb (byte_of (K 3) 1) (byte_of (K 3) 2) (byte_of (K 3) 3) (byte_of (K 3) 0);
          k5 = K 1 XOR k4; k6 = K 2 XOR k5; k7 = K 3 XOR k6
      in RK @ [k4, k5, k6, k7])"

definition expand_192 :: "nat \<Rightarrow> u32 list \<Rightarrow> u32 list" where
  "expand_192 i RK =
     (let K = (\<lambda>j. RK ! (6 * i + j));
          k6 = K 0 XOR RCON ! i XOR sub4 FSb (byte_of (K 5) 1) (byte_of (K 5) 2) (byte_of (K 5) 3) (byte_of (K 5) 0);
          k7 = K 1 XOR k6; k8 = K 2 XOR k7; k9 = K 3 XOR k8; k10 = K 4 XOR k9; k11 = K 5 XOR k10
      in RK @ [k6, k7, k8, k9, k10, k11])"

definition expand_256 :: "nat \<Rightarrow> u32 list \<Rightarrow> u32 list" where
  "expand_256 i RK =
     (let K = (\<lambda>j. RK ! (8 * i + j));
          k8 = K 0 XOR RCON ! i XOR sub4 FSb (byte_of (K 7) 1) (byte_of (K 7) 2) (byte_of (K 7) 3) (byte_of (K 7) 0);
          k9 = K 1 XOR k8; k10 = K 2 XOR k9; k11 = K 3 XOR k10;
          k12 = K 4 XOR sub4 FSb (byte_of k11 0) (byte_of k11 1) (byte_of k11 2) (byte_of k11 3);
          k13 = K 5 XOR k12; k14 = K 6 XOR k13; k15 = K 7 XOR k14
      in RK @ [k8, k9, k10, k11, k12, k13, k14, k15])"

text \<open>An unknown key size leaves the context as it is.\<close>

definition tiny_aes_setkey_enc :: "tiny_aes_context \<Rightarrow> bytes \<Rightarrow> nat \<Rightarrow> tiny_aes_context" where
  "tiny_aes_setkey_enc ctx key keysize =
     (let RK = map (\<lambda>i. get_le32 key (4 * i)) [0..<keysize div 32]
      in if keysize = 128 then \<lparr>nr = 10, rk = fold expand_128 [0..<10] RK\<rparr>
         else if keysize = 192 then \<lparr>nr = 12, rk = fold expand_192 [0..<8] RK\<rparr>
         else if keysize = 256 then \<lparr>nr = 14, rk = fold expand_256 [0..<7] RK\<rparr>
         else ctx)"

text \<open>
  The decryption schedule: the round keys in reverse order, those of the inner rounds passed
  through the inverse MixColumns tables.
\<close>

definition dec_word :: "u32 \<Rightarrow> u32" where
  "dec_word SK =
     RT0 ! unat (FSb ! unat (byte_of SK 0)) XOR RT1 ! unat (FSb ! unat (byte_of SK 1)) XOR
     RT2 ! unat (FSb ! unat (byte_of SK 2)) XOR RT3 ! unat (FSb ! unat (byte_of SK 3))"

definition tiny_aes_setkey_dec :: "tiny_aes_context \<Rightarrow> bytes \<Rightarrow> nat \<Rightarrow> tiny_aes_context" where
  "tiny_aes_setkey_dec ctx key keysize =
     (if keysize \<in> {128, 192, 256} then
        let cty = tiny_aes_setkey_enc ctx key keysize;
            n = nr cty; SK = (\<lambda>i. map (\<lambda>j. rk cty ! (4 * i + j)) [0..<4])
        in \<lparr>nr = n,
            rk = SK n @ concat (map (\<lambda>i. map dec_word (SK i)) (rev [1..<n])) @ SK 0\<rparr>
      else ctx)"

definition AES_FROUND :: "u32 list \<Rightarrow> nat \<Rightarrow> aes_state \<Rightarrow> aes_state" where
  "AES_FROUND RK k = (\<lambda>(Y0, Y1, Y2, Y3).
     (RK ! k XOR FT0 ! unat (byte_of Y0 0) XOR FT1 ! unat (byte_of Y1 1) XOR
        FT2 ! unat (byte_of Y2 2) XOR FT3 ! unat (byte_of Y3 3),
      RK ! (k + 1) XOR FT0 ! unat (byte_of Y1 0) XOR FT1 ! unat (byte_of Y2 1) XOR
        FT2 ! unat (byte_of Y3 2) XOR FT3 ! unat (byte_of Y0 3),
      RK ! (k + 2) XOR FT0 ! unat (byte_of Y2 0) XOR FT1 ! unat (byte_of Y3 1) XOR
        FT2 ! unat (byte_of Y0 2) XOR FT3 ! unat (byte_of Y1 3),
      RK ! (k + 3) XOR FT0 ! unat (byte_of Y3 0) XOR FT1 ! unat (byte_of Y0 1) XOR
        FT2 ! unat (byte_of Y1 2) XOR FT3 ! unat (byte_of Y2 3)))"

definition AES_RROUND :: "u32 list \<Rightarrow> nat \<Rightarrow> aes_state \<Rightarrow> aes_state" where
  "AES_RROUND RK k = (\<lambda>(Y0, Y1, Y2, Y3).
     (RK ! k XOR RT0 ! unat (byte_of Y0 0) XOR RT1 ! unat (byte_of Y3 1) XOR
        RT2 ! unat (byte_of Y2 2) XOR RT3 ! unat (byte_of Y1 3),
      RK ! (k + 1) XOR RT0 ! unat (byte_of Y1 0) XOR RT1 ! unat (byte_of Y0 1) XOR
        RT2 ! unat (byte_of Y3 2) XOR RT3 ! unat (byte_of Y2 3),
      RK ! (k + 2) XOR RT0 ! unat (byte_of Y2 0) XOR RT1 ! unat (byte_of Y1 1) XOR
        RT2 ! unat (byte_of Y0 2) XOR RT3 ! unat (byte_of Y3 3),
      RK ! (k + 3) XOR RT0 ! unat (byte_of Y3 0) XOR RT1 ! unat (byte_of Y2 1) XOR
        RT2 ! unat (byte_of Y1 2) XOR RT3 ! unat (byte_of Y0 3)))"

text \<open>The loop of \<open>i\<close> double rounds that starts at index \<open>k\<close> of the schedule.\<close>

fun double_rounds ::
  "(u32 list \<Rightarrow> nat \<Rightarrow> aes_state \<Rightarrow> aes_state) \<Rightarrow> u32 list \<Rightarrow> nat \<Rightarrow> nat \<Rightarrow> aes_state \<Rightarrow> aes_state" where
  "double_rounds round RK k 0 X = X"
| "double_rounds round RK k (Suc i) X =
     double_rounds round RK (k + 8) i (round RK (k + 4) (round RK k X))"

definition last_fround :: "u32 list \<Rightarrow> nat \<Rightarrow> aes_state \<Rightarrow> aes_state" where
  "last_fround RK k = (\<lambda>(Y0, Y1, Y2, Y3).
     (RK ! k XOR sub4 FSb (byte_of Y0 0) (byte_of Y1 1) (byte_of Y2 2) (byte_of Y3 3),
      RK ! (k + 1) XOR sub4 FSb (byte_of Y1 0) (byte_of Y2 1) (byte_of Y3 2) (byte_of Y0 3),
      RK ! (k + 2) XOR sub4 FSb (byte_of Y2 0) (byte_of Y3 1) (byte_of Y0 2) (byte_of Y1 3),
      RK ! (k + 3) XOR sub4 FSb (byte_of Y3 0) (byte_of Y0 1) (byte_of Y1 2) (byte_of Y2 3)))"

definition last_rround :: "u32 list \<Rightarrow> nat \<Rightarrow> aes_state \<Rightarrow> aes_state" where
  "last_rround RK k = (\<lambda>(Y0, Y1, Y2, Y3).
     (RK ! k XOR sub4 RSb (byte_of Y0 0) (byte_of Y3 1) (byte_of Y2 2) (byte_of Y1 3),
      RK ! (k + 1) XOR sub4 RSb (byte_of Y1 0) (byte_of Y0 1) (byte_of Y3 2) (byte_of Y2 3),
      RK ! (k + 2) XOR sub4 RSb (byte_of Y2 0) (byte_of Y1 1) (byte_of Y0 2) (byte_of Y3 3),
      RK ! (k + 3) XOR sub4 RSb (byte_of Y3 0) (byte_of Y2 1) (byte_of Y1 2) (byte_of Y0 3)))"

definition tiny_aes_crypt_ecb :: "tiny_aes_context \<Rightarrow> aes_mode \<Rightarrow> bytes \<Rightarrow> bytes" where
  "tiny_aes_crypt_ecb ctx mode input =
     (let RK = rk ctx;
          X = (get_le32 input 0 XOR RK ! 0, get_le32 input 4 XOR RK ! 1,
               get_le32 input 8 XOR RK ! 2, get_le32 input 12 XOR RK ! 3);
          i = nr ctx div 2 - 1;
          (X0, X1, X2, X3) =
            (case mode of
               AES_DECRYPT \<Rightarrow>
                 last_rround RK (8 * i + 8) (AES_RROUND RK (8 * i + 4) (double_rounds AES_RROUND RK 4 i X))
             | AES_ENCRYPT \<Rightarrow>
                 last_fround RK (8 * i + 8) (AES_FROUND RK (8 * i + 4) (double_rounds AES_FROUND RK 4 i X)))
      in le32_bytes X0 @ le32_bytes X1 @ le32_bytes X2 @ le32_bytes X3)"

definition xor_block :: "bytes \<Rightarrow> bytes \<Rightarrow> bytes" where
  "xor_block a b = map2 (\<lambda>x y. x XOR y) a b"

text \<open>The loop over 16-byte blocks; it returns the output and the updated \<^verbatim>\<open>iv\<close>. \<open>n\<close> is the
  number of iterations of \<^verbatim>\<open>while (length > 0) ... length -= 16\<close>.\<close>

fun tiny_aes_crypt_cbc ::
  "tiny_aes_context \<Rightarrow> aes_mode \<Rightarrow> nat \<Rightarrow> bytes \<Rightarrow> bytes \<Rightarrow> bytes \<times> bytes" where
  "tiny_aes_crypt_cbc ctx mode 0 iv input = ([], iv)"
| "tiny_aes_crypt_cbc ctx AES_DECRYPT (Suc n) iv input =
     (let temp = take 16 input;
          out = xor_block (tiny_aes_crypt_ecb ctx AES_DECRYPT temp) iv;
          (rest, iv') = tiny_aes_crypt_cbc ctx AES_DECRYPT n temp (drop 16 input)
      in (out @ rest, iv'))"
| "tiny_aes_crypt_cbc ctx AES_ENCRYPT (Suc n) iv input =
     (let out = tiny_aes_crypt_ecb ctx AES_ENCRYPT (xor_block (take 16 input) iv);
          (rest, iv') = tiny_aes_crypt_cbc ctx AES_ENCRYPT n out (drop 16 input)
      in (out @ rest, iv'))"

text \<open>CFB128, byte by byte; the state is the offset \<open>n\<close> and the 16 bytes of \<^verbatim>\<open>iv\<close>.\<close>

fun tiny_aes_crypt_cfb128 ::
  "tiny_aes_context \<Rightarrow> aes_mode \<Rightarrow> nat \<Rightarrow> bytes \<Rightarrow> bytes \<Rightarrow> bytes \<times> nat \<times> bytes" where
  "tiny_aes_crypt_cfb128 ctx mode n iv [] = ([], n, iv)"
| "tiny_aes_crypt_cfb128 ctx mode n iv (c # input) =
     (let iv1 = (if n = 0 then tiny_aes_crypt_ecb ctx AES_ENCRYPT iv else iv);
          out = c XOR iv1 ! n;
          iv2 = iv1[n := (case mode of AES_DECRYPT \<Rightarrow> c | AES_ENCRYPT \<Rightarrow> out)];
          (rest, n', iv') = tiny_aes_crypt_cfb128 ctx mode ((n + 1) mod 16) iv2 input
      in (out # rest, n', iv'))"

section \<open>The table form is the cipher of the specification\<close>

text \<open>SubBytes with ShiftRows, MixColumns, AddRoundKey and their inverses on the four columns.\<close>

definition shift_sub :: "aes_state \<Rightarrow> aes_state" where
  "shift_sub = (\<lambda>(Y0, Y1, Y2, Y3).
     (le32 (sbox (byte_of Y0 0)) (sbox (byte_of Y1 1)) (sbox (byte_of Y2 2)) (sbox (byte_of Y3 3)),
      le32 (sbox (byte_of Y1 0)) (sbox (byte_of Y2 1)) (sbox (byte_of Y3 2)) (sbox (byte_of Y0 3)),
      le32 (sbox (byte_of Y2 0)) (sbox (byte_of Y3 1)) (sbox (byte_of Y0 2)) (sbox (byte_of Y1 3)),
      le32 (sbox (byte_of Y3 0)) (sbox (byte_of Y0 1)) (sbox (byte_of Y1 2)) (sbox (byte_of Y2 3))))"

definition inv_shift_sub :: "aes_state \<Rightarrow> aes_state" where
  "inv_shift_sub = (\<lambda>(Y0, Y1, Y2, Y3).
     (le32 (inv_sbox (byte_of Y0 0)) (inv_sbox (byte_of Y3 1)) (inv_sbox (byte_of Y2 2)) (inv_sbox (byte_of Y1 3)),
      le32 (inv_sbox (byte_of Y1 0)) (inv_sbox (byte_of Y0 1)) (inv_sbox (byte_of Y3 2)) (inv_sbox (byte_of Y2 3)),
      le32 (inv_sbox (byte_of Y2 0)) (inv_sbox (byte_of Y1 1)) (inv_sbox (byte_of Y0 2)) (inv_sbox (byte_of Y3 3)),
      le32 (inv_sbox (byte_of Y3 0)) (inv_sbox (byte_of Y2 1)) (inv_sbox (byte_of Y1 2)) (inv_sbox (byte_of Y0 3))))"

definition mix_word :: "u32 \<Rightarrow> u32" where
  "mix_word w = mix_column (byte_of w 0) (byte_of w 1) (byte_of w 2) (byte_of w 3)"

definition map_state :: "(u32 \<Rightarrow> u32) \<Rightarrow> aes_state \<Rightarrow> aes_state" where
  "map_state f = (\<lambda>(a, b, c, d). (f a, f b, f c, f d))"

definition add_key :: "u32 list \<Rightarrow> nat \<Rightarrow> aes_state \<Rightarrow> aes_state" where
  "add_key RK k = (\<lambda>(a, b, c, d). (RK ! k XOR a, RK ! (k + 1) XOR b, RK ! (k + 2) XOR c, RK ! (k + 3) XOR d))"

lemma sub4_le32: "sub4 S a b c d = le32 (S ! unat a) (S ! unat b) (S ! unat c) (S ! unat d)"
  by (rule bit_word_eqI) (auto simp: sub4_def bit_le32 bit_simps dest: bit_u8_less)

lemma FT_column:
  "FT0 ! unat a XOR FT1 ! unat b XOR FT2 ! unat c XOR FT3 ! unat d =
   mix_column (sbox a) (sbox b) (sbox c) (sbox d)"
  by (simp add: FT_nth le32_xor mix_column_def)

lemma RT_column:
  "RT0 ! unat a XOR RT1 ! unat b XOR RT2 ! unat c XOR RT3 ! unat d =
   inv_mix_column (le32 (inv_sbox a) (inv_sbox b) (inv_sbox c) (inv_sbox d))"
  by (simp add: RT_nth le32_xor inv_mix_column_def Let_def)

lemma dec_word_inv_mix: "dec_word w = inv_mix_column w"
  using RT_column[of "sbox (byte_of w 0)" "sbox (byte_of w 1)" "sbox (byte_of w 2)" "sbox (byte_of w 3)"]
  by (simp add: dec_word_def sbox_def[symmetric])

lemma mix_word_le32: "mix_word (le32 a b c d) = mix_column a b c d"
  by (simp add: mix_word_def)

lemma AES_FROUND_spec: "AES_FROUND RK k Y = add_key RK k (map_state mix_word (shift_sub Y))"
  by (cases Y) (simp add: AES_FROUND_def add_key_def map_state_def shift_sub_def mix_word_le32
      FT_column xor.assoc)

lemma AES_RROUND_spec: "AES_RROUND RK k Y = add_key RK k (map_state inv_mix_column (inv_shift_sub Y))"
  by (cases Y) (simp add: AES_RROUND_def add_key_def map_state_def inv_shift_sub_def RT_column xor.assoc)

lemma last_fround_spec: "last_fround RK k Y = add_key RK k (shift_sub Y)"
  by (cases Y) (simp add: last_fround_def add_key_def shift_sub_def sub4_le32 sbox_def)

lemma last_rround_spec: "last_rround RK k Y = add_key RK k (inv_shift_sub Y)"
  by (cases Y) (simp add: last_rround_def add_key_def inv_shift_sub_def sub4_le32 inv_sbox_def)

lemma inv_shift_sub_shift_sub [simp]: "inv_shift_sub (shift_sub Y) = Y"
  by (cases Y) (simp add: inv_shift_sub_def shift_sub_def)

lemma inv_mix_word [simp]: "inv_mix_column (mix_word w) = w"
  by (simp add: mix_word_def inv_mix_mix)

text \<open>\<open>m\<close> rounds with the round keys from index \<open>k\<close> on.\<close>

fun rounds ::
  "(u32 list \<Rightarrow> nat \<Rightarrow> aes_state \<Rightarrow> aes_state) \<Rightarrow> u32 list \<Rightarrow> nat \<Rightarrow> nat \<Rightarrow> aes_state \<Rightarrow> aes_state" where
  "rounds round RK k 0 X = X"
| "rounds round RK k (Suc m) X = round RK (k + 4 * m) (rounds round RK k m X)"

lemma rounds_first: "rounds round RK k (Suc m) X = rounds round RK (k + 4) m (round RK k X)"
  by (induction m) (simp_all add: algebra_simps)

lemma double_rounds_rounds: "double_rounds round RK k i X = rounds round RK k (2 * i) X"
proof (induction i arbitrary: k X)
  case (Suc i)
  have "rounds round RK k (2 * Suc i) X = rounds round RK (k + 8) (2 * i) (round RK (k + 4) (round RK k X))"
    using rounds_first[of round RK k "Suc (2 * i)" X] rounds_first[of round RK "k + 4" "2 * i"]
    by (simp add: add.commute)
  with Suc.IH show ?case by simp
qed simp

text \<open>The decryption schedule of a schedule: what \<open>tiny_aes_setkey_dec\<close> computes.\<close>

definition dec_schedule :: "nat \<Rightarrow> u32 list \<Rightarrow> u32 list \<Rightarrow> bool" where
  "dec_schedule n E D \<longleftrightarrow>
     (\<forall>t < 4. D ! t = E ! (4 * n + t) \<and> D ! (4 * n + t) = E ! t \<and>
        (\<forall>j. 0 < j \<and> j < n \<longrightarrow> D ! (4 * j + t) = inv_mix_column (E ! (4 * (n - j) + t))))"

lemma dec_schedule_inner:
  assumes "dec_schedule n E D" "0 < j" "j < n"
  shows "add_key D (4 * j) (map_state inv_mix_column Y) = map_state inv_mix_column (add_key E (4 * (n - j)) Y)"
proof -
  have "D ! (4 * j + t) = inv_mix_column (E ! (4 * (n - j) + t))" if "t < 4" for t
    using assms that by (simp add: dec_schedule_def)
  from this[of 0] this[of 1] this[of 2] this[of 3] show ?thesis
    by (cases Y) (simp add: add_key_def map_state_def inv_mix_xor)
qed

lemma dec_schedule_outer:
  assumes "dec_schedule n E D"
  shows "add_key D 0 Y = add_key E (4 * n) Y" "add_key D (4 * n) Y = add_key E 0 Y"
proof -
  have "D ! t = E ! (4 * n + t)" "D ! (4 * n + t) = E ! t" if "t < 4" for t
    using assms that by (simp_all add: dec_schedule_def)
  from this(1)[of 0] this(1)[of 1] this(1)[of 2] this(1)[of 3]
    this(2)[of 0] this(2)[of 1] this(2)[of 2] this(2)[of 3]
  show "add_key D 0 Y = add_key E (4 * n) Y" "add_key D (4 * n) Y = add_key E 0 Y"
    unfolding add_key_def split_def by (simp_all add: numeral_2_eq_2)
qed

lemma add_key_cancel [simp]: "add_key RK k (add_key RK k Y) = Y"
  by (cases Y) (simp add: add_key_def)

lemma map_state_inv [simp]: "map_state inv_mix_column (map_state mix_word Y) = Y"
  by (cases Y) (simp add: map_state_def)

text \<open>After \<open>j\<close> inverse rounds the state is the one before the last \<open>j\<close> forward rounds.\<close>

lemma inverse_rounds:
  assumes "dec_schedule (Suc n) E D" "j \<le> n"
  shows "rounds AES_RROUND D 4 j (shift_sub (rounds AES_FROUND E 4 n X)) =
         shift_sub (rounds AES_FROUND E 4 (n - j) X)"
  using assms(2)
proof (induction j)
  case (Suc j)
  obtain m where m: "n - j = Suc m" "n - Suc j = m"
    using Suc.prems by (metis Suc_diff_Suc Suc_le_eq)
  let ?Z = "rounds AES_FROUND E 4 m X"
  have "rounds AES_FROUND E 4 (n - j) X = add_key E (4 * Suc m) (map_state mix_word (shift_sub ?Z))"
    by (simp add: m AES_FROUND_spec)
  moreover have "add_key D (4 * Suc j) (map_state inv_mix_column Y) =
      map_state inv_mix_column (add_key E (4 * Suc m) Y)" for Y
    using dec_schedule_inner[OF assms(1), of "Suc j"] Suc.prems m by simp
  ultimately show ?case
    using Suc m by (simp add: AES_RROUND_spec)
qed simp

lemma concat_nth_4:
  assumes "\<And>x. x \<in> set xs \<Longrightarrow> length (f x) = 4" "j < length xs" "t < 4"
  shows "concat (map f xs) ! (4 * j + t) = f (xs ! j) ! t"
  using assms
proof (induction xs arbitrary: j)
  case (Cons x xs)
  then show ?case by (cases j) (auto simp: nth_append)
qed simp

lemma dec_schedule_concat:
  assumes "0 < n"
    and "SK = (\<lambda>i. map (\<lambda>j. E ! (4 * i + j)) [0..<4])"
  shows "dec_schedule n E (SK n @ concat (map (\<lambda>i. map dec_word (SK i)) (rev [1..<n])) @ SK 0)"
proof -
  define g where "g i = (if i = 0 \<or> i = n then SK i else map dec_word (SK i))" for i
  have "rev [0..<Suc n] = n # rev [1..<n] @ [0]"
    using assms(1) by (simp add: upt_conv_Cons[of 0])
  moreover have "map g (rev [1..<n]) = map (\<lambda>i. map dec_word (SK i)) (rev [1..<n])"
    by (auto simp: g_def)
  ultimately have D: "SK n @ concat (map (\<lambda>i. map dec_word (SK i)) (rev [1..<n])) @ SK 0 =
      concat (map g (rev [0..<Suc n]))"
    by (simp only: list.map map_append concat.simps concat_append) (simp add: g_def)
  have "concat (map g (rev [0..<Suc n])) ! (4 * j + t) = g (n - j) ! t" if "j \<le> n" "t < 4" for j t
    using concat_nth_4[of "rev [0..<Suc n]" g j t] that
    by (simp add: g_def assms(2) rev_nth del: upt_Suc)
  from this[of 0] this[of n] this show ?thesis
    unfolding D dec_schedule_def by (auto simp: g_def assms(2) dec_word_inv_mix)
qed

lemma setkey_pair:
  assumes "keysize \<in> {128, 192, 256}"
  obtains n where "nr (tiny_aes_setkey_enc c key keysize) = Suc (Suc (2 * n))"
    "nr (tiny_aes_setkey_dec c' key keysize) = Suc (Suc (2 * n))"
    "dec_schedule (Suc (Suc (2 * n))) (rk (tiny_aes_setkey_enc c key keysize))
       (rk (tiny_aes_setkey_dec c' key keysize))"
proof -
  have e: "tiny_aes_setkey_enc c' key keysize = tiny_aes_setkey_enc c key keysize"
    using assms by (auto simp: tiny_aes_setkey_enc_def Let_def)
  have "\<exists>n. nr (tiny_aes_setkey_enc c key keysize) = Suc (Suc (2 * n))"
    using assms by (auto simp: tiny_aes_setkey_enc_def Let_def intro: exI[of _ 4] exI[of _ 5] exI[of _ 6])
  then obtain n where n: "nr (tiny_aes_setkey_enc c key keysize) = Suc (Suc (2 * n))" ..
  with assms e dec_schedule_concat[OF _ refl, of "Suc (Suc (2 * n))" "rk (tiny_aes_setkey_enc c key keysize)"]
  show ?thesis
    by (intro that[of n]) (simp_all add: tiny_aes_setkey_dec_def Let_def del: upt_Suc)
qed

definition load_block :: "bytes \<Rightarrow> aes_state" where
  "load_block b = (get_le32 b 0, get_le32 b 4, get_le32 b 8, get_le32 b 12)"

definition store_block :: "aes_state \<Rightarrow> bytes" where
  "store_block = (\<lambda>(a, b, c, d). le32_bytes a @ le32_bytes b @ le32_bytes c @ le32_bytes d)"

lemma length_store_block [simp]: "length (store_block X) = 16"
  by (cases X) (simp add: store_block_def)

lemma load_store_block [simp]: "load_block (store_block X) = X"
  by (cases X) (simp add: load_block_def store_block_def get_le32_def le32_bytes_def)

lemma store_load_block:
  assumes "length b = 16"
  shows "store_block (load_block b) = b"
proof -
  have "store_block (load_block b) = buf_read b 0 4 @ buf_read b (0 + 4) 4 @ buf_read b (0 + 4 + 4) 4 @ buf_read b (0 + 4 + 4 + 4) 4"
    using assms by (simp add: store_block_def load_block_def get_le32_bytes)
  also have "\<dots> = buf_read b 0 (4 + (4 + (4 + 4)))"
    by (simp only: buf_read_append)
  finally show ?thesis using assms by (simp add: buf_read_def)
qed

lemma add_key_0:
  "add_key RK 0 (a, b, c, d) = (a XOR RK ! 0, b XOR RK ! 1, c XOR RK ! 2, d XOR RK ! 3)"
  by (simp add: add_key_def xor.commute numeral_2_eq_2)

lemma store_block_Let:
  "(let (X0, X1, X2, X3) = Y in le32_bytes X0 @ le32_bytes X1 @ le32_bytes X2 @ le32_bytes X3) = store_block Y"
  by (cases Y) (simp add: store_block_def)

lemma ecb_spec:
  assumes "nr ctx = Suc (Suc (2 * n))"
  shows "tiny_aes_crypt_ecb ctx AES_ENCRYPT b =
    store_block (add_key (rk ctx) (4 * nr ctx)
      (shift_sub (rounds AES_FROUND (rk ctx) 4 (Suc (2 * n)) (add_key (rk ctx) 0 (load_block b)))))"
    and "tiny_aes_crypt_ecb ctx AES_DECRYPT b =
    store_block (add_key (rk ctx) (4 * nr ctx)
      (inv_shift_sub (rounds AES_RROUND (rk ctx) 4 (Suc (2 * n)) (add_key (rk ctx) 0 (load_block b)))))"
  unfolding tiny_aes_crypt_ecb_def Let_def[of "rk ctx"] Let_def[of "(_, _)"] Let_def[of "_ - _"]
    store_block_Let load_block_def add_key_0 double_rounds_rounds last_fround_spec last_rround_spec
  using assms by (simp_all add: add.commute)

lemma length_ecb [simp]: "length (tiny_aes_crypt_ecb ctx mode b) = 16"
  by (simp add: tiny_aes_crypt_ecb_def Let_def split: prod.split)

text \<open>The block cipher is inverted by the decryption schedule of the same key.\<close>

lemma ecb_inverse:
  assumes "keysize \<in> {128, 192, 256}" "length b = 16"
  shows "tiny_aes_crypt_ecb (tiny_aes_setkey_dec c' key keysize) AES_DECRYPT
           (tiny_aes_crypt_ecb (tiny_aes_setkey_enc c key keysize) AES_ENCRYPT b) = b"
proof -
  let ?E = "tiny_aes_setkey_enc c key keysize" and ?D = "tiny_aes_setkey_dec c' key keysize"
  obtain n where n: "nr ?E = Suc (Suc (2 * n))" "nr ?D = Suc (Suc (2 * n))"
    and sch: "dec_schedule (Suc (Suc (2 * n))) (rk ?E) (rk ?D)"
    using assms(1) by (rule setkey_pair)
  let ?X = "add_key (rk ?E) 0 (load_block b)"
  let ?L = "shift_sub (rounds AES_FROUND (rk ?E) 4 (Suc (2 * n)) ?X)"
  have "load_block (tiny_aes_crypt_ecb ?E AES_ENCRYPT b) = add_key (rk ?E) (4 * nr ?E) ?L"
    by (simp only: ecb_spec(1)[OF n(1)] load_store_block)
  then have "add_key (rk ?D) 0 (load_block (tiny_aes_crypt_ecb ?E AES_ENCRYPT b)) = ?L"
    by (simp only: dec_schedule_outer(1)[OF sch] n(1) add_key_cancel)
  moreover have "rounds AES_RROUND (rk ?D) 4 (Suc (2 * n)) ?L = shift_sub ?X"
    using inverse_rounds[OF sch, of "Suc (2 * n)" ?X] by simp
  ultimately have "tiny_aes_crypt_ecb ?D AES_DECRYPT (tiny_aes_crypt_ecb ?E AES_ENCRYPT b) =
      store_block (add_key (rk ?D) (4 * nr ?D) ?X)"
    by (simp only: ecb_spec(2)[OF n(2)] inv_shift_sub_shift_sub)
  also have "\<dots> = b"
    by (simp only: n(2) dec_schedule_outer(2)[OF sch] add_key_cancel store_load_block[OF assms(2)])
  finally show ?thesis .
qed

section \<open>Modes\<close>

lemma length_xor_block [simp]: "length (xor_block a b) = min (length a) (length b)"
  by (simp add: xor_block_def)

lemma xor_block_cancel: "length a = length b \<Longrightarrow> xor_block (xor_block a b) b = a"
  by (intro nth_equalityI) (auto simp: xor_block_def xor.assoc)

lemma cbc_length: "length (fst (tiny_aes_crypt_cbc ctx mode n iv b)) = 16 * n"
  if "length iv = 16" "length b = 16 * n"
  using that
  by (induction ctx mode n iv b rule: tiny_aes_crypt_cbc.induct) (auto simp: Let_def split: prod.splits)

lemma cbc_inverse:
  assumes "keysize \<in> {128, 192, 256}" "length iv = 16" "length b = 16 * n"
  shows "tiny_aes_crypt_cbc (tiny_aes_setkey_dec c' key keysize) AES_DECRYPT n iv
           (fst (tiny_aes_crypt_cbc (tiny_aes_setkey_enc c key keysize) AES_ENCRYPT n iv b)) =
         (b, snd (tiny_aes_crypt_cbc (tiny_aes_setkey_enc c key keysize) AES_ENCRYPT n iv b))"
  using assms(2,3)
proof (induction n arbitrary: iv b)
  case (Suc n)
  let ?E = "tiny_aes_setkey_enc c key keysize"
  let ?o = "tiny_aes_crypt_ecb ?E AES_ENCRYPT (xor_block (take 16 b) iv)"
  have "tiny_aes_crypt_ecb (tiny_aes_setkey_dec c' key keysize) AES_DECRYPT ?o = xor_block (take 16 b) iv"
    using assms(1) Suc.prems by (intro ecb_inverse) auto
  moreover have "xor_block (xor_block (take 16 b) iv) iv = take 16 b"
    using Suc.prems by (intro xor_block_cancel) simp
  moreover have "length (drop 16 b) = 16 * n" using Suc.prems(2) by simp
  ultimately show ?case
    using Suc.IH[of ?o "drop 16 b"] by (auto simp: Let_def split: prod.splits)
qed simp

lemma cfb_inverse:
  assumes "length iv = 16" "n < 16"
  shows "tiny_aes_crypt_cfb128 ctx AES_DECRYPT n iv (fst (tiny_aes_crypt_cfb128 ctx AES_ENCRYPT n iv b)) =
         (b, snd (tiny_aes_crypt_cfb128 ctx AES_ENCRYPT n iv b))"
  using assms
proof (induction b arbitrary: n iv)
  case (Cons c b)
  define iv1 where "iv1 = (if n = 0 then tiny_aes_crypt_ecb ctx AES_ENCRYPT iv else iv)"
  have "length (iv1[n := c XOR iv1 ! n]) = 16" using Cons.prems(1) by (simp add: iv1_def)
  moreover obtain rest n' iv' where
    e: "tiny_aes_crypt_cfb128 ctx AES_ENCRYPT ((n + 1) mod 16) (iv1[n := c XOR iv1 ! n]) b = (rest, n', iv')"
    by (metis prod_cases3)
  ultimately have "tiny_aes_crypt_cfb128 ctx AES_DECRYPT ((n + 1) mod 16) (iv1[n := c XOR iv1 ! n]) rest = (b, n', iv')"
    using Cons.IH[of "iv1[n := c XOR iv1 ! n]" "(n + 1) mod 16"] by simp
  with e show ?case
    by (simp add: Let_def iv1_def[symmetric] xor.assoc)
qed simp

section \<open>Properties\<close>

text \<open>
  Decryption inverts encryption. For every key of 128, 192 or 256 bits and every block, the
  table-driven block cipher with the schedule of \<^verbatim>\<open>tiny_aes_setkey_dec\<close> undoes the cipher with the
  schedule of \<^verbatim>\<open>tiny_aes_setkey_enc\<close>.
\<close>

theorem tiny_aes_ecb_roundtrip:
  assumes "keysize \<in> {128, 192, 256}" "length b = 16"
  shows "tiny_aes_crypt_ecb (tiny_aes_setkey_dec c' key keysize) AES_DECRYPT
           (tiny_aes_crypt_ecb (tiny_aes_setkey_enc c key keysize) AES_ENCRYPT b) = b"
  using assms by (rule ecb_inverse)

theorem tiny_aes_ecb_roundtrip_witness:
  "tiny_aes_crypt_ecb (tiny_aes_setkey_dec \<lparr>nr = 0, rk = []\<rparr> (replicate 32 7) 256) AES_DECRYPT
     (tiny_aes_crypt_ecb (tiny_aes_setkey_enc \<lparr>nr = 0, rk = []\<rparr> (replicate 32 7) 256) AES_ENCRYPT
       (replicate 16 0x5A)) = replicate 16 0x5A"
  by (rule tiny_aes_ecb_roundtrip) simp_all

text \<open>
  CBC round trip. Decrypting what CBC encryption produced from any number of blocks returns
  the plaintext and leaves the same chaining value in \<^verbatim>\<open>iv\<close>, so that a message may be processed in
  several calls.
\<close>

theorem tiny_aes_cbc_roundtrip:
  assumes "keysize \<in> {128, 192, 256}" "length iv = 16" "length b = 16 * n"
  shows "tiny_aes_crypt_cbc (tiny_aes_setkey_dec c' key keysize) AES_DECRYPT n iv
           (fst (tiny_aes_crypt_cbc (tiny_aes_setkey_enc c key keysize) AES_ENCRYPT n iv b)) =
         (b, snd (tiny_aes_crypt_cbc (tiny_aes_setkey_enc c key keysize) AES_ENCRYPT n iv b))"
  using assms by (rule cbc_inverse)

theorem tiny_aes_cbc_roundtrip_witness:
  "fst (tiny_aes_crypt_cbc (tiny_aes_setkey_dec \<lparr>nr = 0, rk = []\<rparr> (replicate 32 7) 256) AES_DECRYPT 2
     (replicate 16 1)
     (fst (tiny_aes_crypt_cbc (tiny_aes_setkey_enc \<lparr>nr = 0, rk = []\<rparr> (replicate 32 7) 256) AES_ENCRYPT 2
       (replicate 16 1) (replicate 32 9)))) = replicate 32 9"
  by (subst tiny_aes_cbc_roundtrip) simp_all

text \<open>
  CFB128 round trip, at any starting offset and for any number of bytes, with any schedule (both
  directions use the forward cipher).
\<close>

theorem tiny_aes_cfb128_roundtrip:
  assumes "length iv = 16" "n < 16"
  shows "tiny_aes_crypt_cfb128 ctx AES_DECRYPT n iv (fst (tiny_aes_crypt_cfb128 ctx AES_ENCRYPT n iv b)) =
         (b, snd (tiny_aes_crypt_cfb128 ctx AES_ENCRYPT n iv b))"
  using assms by (rule cfb_inverse)

theorem tiny_aes_cfb128_roundtrip_witness:
  "fst (tiny_aes_crypt_cfb128 \<lparr>nr = 10, rk = replicate 44 0\<rparr> AES_DECRYPT 3 (replicate 16 1)
     (fst (tiny_aes_crypt_cfb128 \<lparr>nr = 10, rk = replicate 44 0\<rparr> AES_ENCRYPT 3 (replicate 16 1) [1, 2, 3]))) =
   [1, 2, 3]"
  by (subst tiny_aes_cfb128_roundtrip) simp_all

text \<open>
  One forward round of the table-driven cipher is AddRoundKey after MixColumns after ShiftRows
  and SubBytes, one inverse round AddRoundKey after the inverse MixColumns, ShiftRows and SubBytes,
  for every state and round key.
\<close>

theorem aes_round_tables:
  "AES_FROUND RK k Y = add_key RK k (map_state mix_word (shift_sub Y)) \<and>
   AES_RROUND RK k Y = add_key RK k (map_state inv_mix_column (inv_shift_sub Y))"
  by (simp add: AES_FROUND_spec AES_RROUND_spec)

end
