(* ===== verification/Fastlz.thy ===== *)
theory Fastlz
  imports Prelude
begin

text \<open>
  The decompressor of \<^verbatim>\<open>packages/fastlz-v1.0.1/fastlz.c\<close>, both levels of the template
  \<^verbatim>\<open>FASTLZ_DECOMPRESSOR\<close> (with \<^verbatim>\<open>FASTLZ_SAFE\<close> and \<^verbatim>\<open>FASTLZ_STRICT_ALIGN\<close>, as on the target). The pointer
  \<^verbatim>\<open>ip\<close> is an index into the input buffer, the output written so far is a list whose length is \<^verbatim>\<open>op\<close>.
  The result is the return value with that output; \<open>None\<close> means that the code read a byte outside
  the input buffer.
\<close>

section \<open>Model\<close>

definition rd :: "bytes \<Rightarrow> nat \<Rightarrow> nat option" where
  "rd inp ip = (if ip < length inp then Some (unat (inp ! ip)) else None)"

text \<open>The byte-by-byte copy \<^verbatim>\<open>*op++ = *ref++\<close>, which may read what it has just written.\<close>

fun copy_ref :: "nat \<Rightarrow> nat \<Rightarrow> bytes \<Rightarrow> bytes" where
  "copy_ref 0 ref out = out"
| "copy_ref (Suc n) ref out = copy_ref n (Suc ref) (out @ [out ! ref])"

text \<open>\<^verbatim>\<open>do { code = *ip++; len += code; } while (code == 255)\<close>: the new \<^verbatim>\<open>len\<close> and \<^verbatim>\<open>ip\<close>.\<close>

function read_len2 :: "bytes \<Rightarrow> nat \<Rightarrow> nat \<Rightarrow> (nat \<times> nat) option" where
  "read_len2 inp ip len =
     (if ip < length inp
      then let code = unat (inp ! ip)
           in if code = 255 then read_len2 inp (Suc ip) (len + code) else Some (len + code, Suc ip)
      else None)"
  by pat_completeness auto
termination by (relation "measure (\<lambda>(inp, ip, len). length inp - ip)") auto

declare read_len2.simps [simp del]

text \<open>
  The operands of a match: the copy length less 3, how far \<^verbatim>\<open>ref\<close> lies behind \<^verbatim>\<open>op\<close>, and the new
  \<^verbatim>\<open>ip\<close>.
\<close>

definition match_operands :: "nat \<Rightarrow> bytes \<Rightarrow> nat \<Rightarrow> nat \<Rightarrow> (nat \<times> nat \<times> nat) option" where
  "match_operands level inp ip ctrl =
     (let len = ctrl div 32 - 1; ofs = (ctrl mod 32) * 256
      in if level = 1 then
           (case (if len = 6 then map_option (\<lambda>b. (len + b, Suc ip)) (rd inp ip) else Some (len, ip)) of
              None \<Rightarrow> None
            | Some (len, ip) \<Rightarrow>
                (case rd inp ip of None \<Rightarrow> None | Some b \<Rightarrow> Some (len, ofs + b, Suc ip)))
         else
           (case (if len = 6 then read_len2 inp ip len else Some (len, ip)) of
              None \<Rightarrow> None
            | Some (len, ip) \<Rightarrow>
                (case rd inp ip of
                   None \<Rightarrow> None
                 | Some code \<Rightarrow>
                     if code = 255 \<and> ofs = 31 * 256 then
                       (case (rd inp (ip + 1), rd inp (ip + 2)) of
                          (Some hi, Some lo) \<Rightarrow> Some (len, hi * 256 + lo + 8191, ip + 3)
                        | _ \<Rightarrow> None)
                     else Some (len, ofs + code, Suc ip))))"

text \<open>The \<^verbatim>\<open>do ... while (loop)\<close>; every iteration appends to the output or returns.\<close>

function decompress_loop ::
  "nat \<Rightarrow> bytes \<Rightarrow> nat \<Rightarrow> nat \<Rightarrow> nat \<Rightarrow> nat \<Rightarrow> bytes \<Rightarrow> (nat \<times> bytes) option" where
  "decompress_loop level inp ip_limit maxout ip ctrl out =
     (if ctrl \<ge> 32 then
        (case match_operands level inp ip ctrl of
           None \<Rightarrow> None
         | Some (len, dist, ip1) \<Rightarrow>
             if length out + len + 3 > maxout then Some (0, out)
             else if length out < dist + 1 then Some (0, out)
             else
               let out1 = (if dist = 0 then out @ replicate (len + 3) (out ! (length out - 1))
                           else copy_ref (len + 3) (length out - dist - 1) out)
               in if ip1 < ip_limit then
                    (case rd inp ip1 of
                       None \<Rightarrow> None
                     | Some ctrl1 \<Rightarrow> decompress_loop level inp ip_limit maxout (Suc ip1) ctrl1 out1)
                  else Some (length out1, out1))
      else
        if length out + (ctrl + 1) > maxout then Some (0, out)
        else if ip + (ctrl + 1) > ip_limit then Some (0, out)
        else if ip + (ctrl + 1) > length inp then None
        else
          let out1 = out @ buf_read inp ip (ctrl + 1); ip1 = ip + (ctrl + 1)
          in if ip1 < ip_limit then
               (case rd inp ip1 of
                  None \<Rightarrow> None
                | Some ctrl1 \<Rightarrow> decompress_loop level inp ip_limit maxout (Suc ip1) ctrl1 out1)
             else Some (length out1, out1))"
  by pat_completeness auto

lemma length_copy_ref [simp]: "length (copy_ref n ref out) = length out + n"
  by (induction n ref out rule: copy_ref.induct) simp_all

termination decompress_loop
  by (relation "measure (\<lambda>(level, inp, ip_limit, maxout, ip, ctrl, out). maxout - length out)") auto

declare decompress_loop.simps [simp del]

definition fastlz_decompressor :: "nat \<Rightarrow> bytes \<Rightarrow> nat \<Rightarrow> nat \<Rightarrow> (nat \<times> bytes) option" where
  "fastlz_decompressor level inp len maxout =
     (case rd inp 0 of
        None \<Rightarrow> None
      | Some b \<Rightarrow> decompress_loop level inp len maxout 1 (b mod 32) [])"

definition fastlz_decompress :: "bytes \<Rightarrow> nat \<Rightarrow> nat \<Rightarrow> (nat \<times> bytes) option" where
  "fastlz_decompress inp len maxout =
     (case rd inp 0 of
        None \<Rightarrow> None
      | Some b \<Rightarrow>
          let level = b div 32 + 1
          in if level = 1 then fastlz_decompressor 1 inp len maxout
             else if level = 2 then fastlz_decompressor 2 inp len maxout
             else Some (0, []))"

section \<open>The level 1 format\<close>









section \<open>Lemmas\<close>


lemma rd_append_Suc [simp]: "rd (pre @ a # b # rest) (Suc (length pre)) = Some (unat b)"
  by (simp add: rd_def nth_append)

lemma rd_append_Suc2 [simp]: "rd (pre @ a # b # c # rest) (Suc (Suc (length pre))) = Some (unat c)"
  by (simp add: rd_def nth_append)













text \<open>The destination is never overrun, and the result is the length of what was written.\<close>

lemma loop_bound:
  "decompress_loop level inp ip_limit maxout ip ctrl out = Some (n, out') \<Longrightarrow> length out \<le> maxout \<Longrightarrow>
   length out' \<le> maxout \<and> (n = 0 \<or> n = length out')"
proof (induction level inp ip_limit maxout ip ctrl out rule: decompress_loop.induct)
  case (1 level inp ip_limit maxout ip ctrl out)
  show ?case
    using "1.prems" "1.IH"
    by (subst (asm) decompress_loop.simps)
      (auto simp: Let_def split: if_splits option.splits prod.splits)
qed

section \<open>Properties\<close>



text \<open>
  C31: for every input whatever, valid or corrupted, \<^verbatim>\<open>fastlz_decompress\<close> writes at most \<^verbatim>\<open>maxout\<close>
  bytes, and its result is either 0 (the block is refused) or the number of bytes written.
\<close>

theorem fastlz_decompress_output_bounded:
  assumes "fastlz_decompress inp len maxout = Some (n, out)"
  shows "length out \<le> maxout \<and> (n = 0 \<or> n = length out)"
  using assms loop_bound[of _ inp len maxout 1 _ "[]" n out]
  by (auto simp: fastlz_decompress_def fastlz_decompressor_def Let_def split: option.splits if_splits)

theorem fastlz_decompress_output_bounded_witness:
  "fastlz_decompress [1, 65, 66, 0x60, 0] 5 6 = Some (0, [65, 66])
     \<and> length [65 :: u8, 66] \<le> 6"
proof -
  have "fastlz_decompress [1, 65, 66, 0x60, 0] 5 6 = Some (0, [65, 66])" by code_simp
  then show ?thesis using fastlz_decompress_output_bounded[of "[1, 65, 66, 0x60, 0]" 5 6 0 "[65, 66]"] by simp
qed

text \<open>
  The input is not bounded in the same way. On every block of one literal followed by a short
  match opcode whose distance byte is cut off, the decompressor reads past the \<^verbatim>\<open>length\<close> bytes it was given:
  \<^verbatim>\<open>FASTLZ_SAFE\<close> guards the copies, not the operand reads.
\<close>

theorem fastlz_decompress_truncated_match:
  assumes "32 \<le> unat op" "unat op < 224" "2 \<le> maxout"
  shows "fastlz_decompress [0, b, op] 3 maxout = None"
proof -
  have "unat op div 32 < 7" using assms(2) by (simp add: less_mult_imp_div_less)
  then have "unat op div 32 - 1 \<noteq> 6" by simp
  then have "match_operands (Suc 0) [0, b, op] 3 (unat op) = None"
    by (simp add: match_operands_def Let_def rd_def)
  then have stop: "decompress_loop (Suc 0) [0, b, op] 3 maxout 3 (unat op) [b] = None"
    using assms(1) by (subst decompress_loop.simps) simp
  have "decompress_loop (Suc 0) [0, b, op] 3 maxout (Suc 0) 0 [] = None"
    using assms(3) stop
    by (subst decompress_loop.simps) (simp add: rd_def Let_def buf_read_def numeral_3_eq_3 numeral_2_eq_2)
  then show ?thesis
    by (simp add: fastlz_decompress_def fastlz_decompressor_def rd_def)
qed

theorem fastlz_decompress_truncated_match_witness:
  "fastlz_decompress [0, 65, 0x20] 3 4096 = None"
  using fastlz_decompress_truncated_match[of "0x20" 4096 65] by simp

end
