(* ===== verification/Quicklz.thy ===== *)
theory Quicklz
  imports Prelude
begin

text \<open>
  The decompressor of \<^verbatim>\<open>packages/quicklz-v1.0.1/quicklz.c\<close> as the bootloader builds it: level 3, no
  streaming buffer, \<^verbatim>\<open>QLZ_MEMORY_SAFE\<close>, not \<^verbatim>\<open>X86X64\<close>. The source is a byte list, the destination a
  buffer of fixed capacity; pointers are indices into them, and pointer differences are integers, so
  that \<^verbatim>\<open>last_matchstart\<close> may lie before the buffer. \<open>None\<close> means that the code read outside the source
  or wrote outside the destination. The history is the destination itself.
\<close>

section \<open>Model\<close>

definition fast_read :: "bytes \<Rightarrow> nat \<Rightarrow> nat \<Rightarrow> u32 option" where
  "fast_read source p n =
     (if n = 0 \<or> n > 4 then Some 0
      else if p + n > length source then None
      else Some (case n of
          Suc 0 \<Rightarrow> ucast (source ! p)
        | Suc (Suc 0) \<Rightarrow> ucast (source ! p) OR push_bit 8 (ucast (source ! (p + 1)))
        | Suc (Suc (Suc 0)) \<Rightarrow>
            ucast (source ! p) OR push_bit 8 (ucast (source ! (p + 1)))
              OR push_bit 16 (ucast (source ! (p + 2)))
        | _ \<Rightarrow> get_le32 source p))"

definition qlz_size_bytes :: "u8 \<Rightarrow> nat" where
  "qlz_size_bytes b = (if b AND 2 = 2 then 4 else 1)"

definition qlz_size_decompressed :: "bytes \<Rightarrow> nat option" where
  "qlz_size_decompressed source =
     (if source = [] then None
      else let n = qlz_size_bytes (source ! 0)
           in map_option (\<lambda>r. unat (r AND drop_bit ((4 - n) * 8) 0xffffffff)) (fast_read source (1 + n) n))"

definition qlz_size_compressed :: "bytes \<Rightarrow> nat option" where
  "qlz_size_compressed source =
     (if source = [] then None
      else let n = qlz_size_bytes (source ! 0)
           in map_option (\<lambda>r. unat (r AND drop_bit ((4 - n) * 8) 0xffffffff)) (fast_read source 1 n))"

definition qlz_size_header :: "bytes \<Rightarrow> nat option" where
  "qlz_size_header source = (if source = [] then None else Some (2 * qlz_size_bytes (source ! 0) + 1))"

text \<open>\<^verbatim>\<open>memcpy_up\<close> within the destination (overlapping, ascending), and from the source.\<close>

fun memcpy_up :: "bytes \<Rightarrow> nat \<Rightarrow> nat \<Rightarrow> nat \<Rightarrow> bytes option" where
  "memcpy_up buf dst ofs 0 = Some buf"
| "memcpy_up buf dst ofs (Suc n) =
     (if dst < length buf \<and> ofs < length buf then memcpy_up (buf[dst := buf ! ofs]) (Suc dst) (Suc ofs) n
      else None)"

definition memcpy_src :: "bytes \<Rightarrow> nat \<Rightarrow> bytes \<Rightarrow> nat \<Rightarrow> nat \<Rightarrow> bytes option" where
  "memcpy_src buf dst source src n =
     (if dst + n \<le> length buf \<and> src + n \<le> length source
      then Some (buf_write buf dst (buf_read source src n)) else None)"

definition bitlut :: "nat list" where
  "bitlut = [4, 0, 1, 0, 2, 0, 1, 0, 3, 0, 1, 0, 2, 0, 1, 0]"

text \<open>The five match encodings of level 3: offset, match length, bytes of source consumed.\<close>

definition decode_match :: "u32 \<Rightarrow> nat \<times> nat \<times> nat" where
  "decode_match fetch =
     (if fetch AND 3 = 0 then (unat (drop_bit 2 (fetch AND 0xff)), 3, 1)
      else if fetch AND 2 = 0 then (unat (drop_bit 2 (fetch AND 0xffff)), 3, 2)
      else if fetch AND 1 = 0 then
        (unat (drop_bit 6 (fetch AND 0xffff)), unat ((drop_bit 2 fetch AND 15) + 3), 2)
      else if fetch AND 127 \<noteq> 3 then
        (unat (drop_bit 7 fetch AND 0x1ffff), unat ((drop_bit 2 fetch AND 0x1f) + 2), 3)
      else (unat (drop_bit 15 fetch), unat ((drop_bit 7 fetch AND 255) + 3), 4))"

text \<open>The closing loop of literals, \<^verbatim>\<open>while (dst <= last_destination_byte)\<close>.\<close>

function tail_literals ::
  "bytes \<Rightarrow> nat \<Rightarrow> nat \<Rightarrow> nat \<Rightarrow> nat \<Rightarrow> u32 \<Rightarrow> bytes \<Rightarrow> (nat \<times> bytes) option" where
  "tail_literals source csize sz src dst cword_val buf =
     (if dst < sz then
        let (src, cword_val) = (if cword_val = 1 then (src + 4, 0x80000000) else (src, cword_val))
        in if src \<ge> csize then Some (0, buf)
           else if src < length source \<and> dst < length buf then
             tail_literals source csize sz (Suc src) (Suc dst) (drop_bit 1 cword_val)
               (buf[dst := source ! src])
           else None
      else Some (sz, buf))"
  by pat_completeness auto
termination by (relation "measure (\<lambda>(source, csize, sz, src, dst, cword_val, buf). sz - dst)") auto

declare tail_literals.simps [simp del]

text \<open>
  The \<^verbatim>\<open>for(;;)\<close> of \<^verbatim>\<open>qlz_decompress_core\<close>. Every iteration that does not return consumes at least one
  byte of the source, whose end is checked before each fetch.
\<close>

definition load_cword :: "bytes \<Rightarrow> nat \<Rightarrow> nat \<Rightarrow> u32 \<Rightarrow> (u32 \<times> nat) option option" where
  "load_cword source csize src cword_val =
     (if cword_val = 1 then
        (if src + 4 > csize then Some None
         else map_option (\<lambda>w. Some (w, src + 4)) (fast_read source src 4))
      else Some (Some (cword_val, src)))"

function core_loop ::
  "bytes \<Rightarrow> nat \<Rightarrow> nat \<Rightarrow> nat \<Rightarrow> nat \<Rightarrow> u32 \<Rightarrow> bytes \<Rightarrow> (nat \<times> bytes) option" where
  "core_loop source csize sz src dst cword_val buf =
     (case load_cword source csize src cword_val of
        None \<Rightarrow> None
      | Some None \<Rightarrow> Some (0, buf)
      | Some (Some (cword_val, src)) \<Rightarrow>
          if src + 4 > csize then Some (0, buf)
          else
            (case fast_read source src 4 of
               None \<Rightarrow> None
             | Some fetch \<Rightarrow>
                 if cword_val AND 1 = 1 then
                   (case decode_match fetch of (offset, matchlen, adv) \<Rightarrow>
                      if offset > dst \<or> offset < 3 then Some (0, buf)
                      else if matchlen > unat (of_int (int sz - 1 - int dst - 4 + 1) :: u32) then Some (0, buf)
                      else
                        (case memcpy_up buf dst (dst - offset) matchlen of
                           None \<Rightarrow> None
                         | Some buf1 \<Rightarrow>
                             core_loop source csize sz (src + adv) (dst + matchlen) (drop_bit 1 cword_val) buf1))
                 else if int dst < int sz - 1 - 6 - 4 then
                   let n = bitlut ! unat (cword_val AND 0xf)
                   in (case memcpy_src buf dst source src 4 of
                         None \<Rightarrow> None
                       | Some buf1 \<Rightarrow>
                           core_loop source csize sz (src + n) (dst + n) (drop_bit n cword_val) buf1)
                 else tail_literals source csize sz src dst cword_val buf))"
  by pat_completeness auto

lemma decode_match_adv: "decode_match fetch = (offset, matchlen, adv) \<Longrightarrow> 1 \<le> adv \<and> adv \<le> 4"
  by (auto simp: decode_match_def split: if_splits)

lemma load_cword_src: "load_cword source csize src c = Some (Some (c1, src1)) \<Longrightarrow> src \<le> src1"
  by (auto simp: load_cword_def split: if_splits)

lemma unat_nibble: "unat (w AND 0xf :: u32) = unat w mod 16"
proof -
  have "w AND 0xf = take_bit 4 w" by (simp add: take_bit_eq_mask mask_eq_exp_minus_1)
  then have "unat (w AND 0xf) = take_bit 4 (unat w)" by (simp only: unsigned_take_bit_eq)
  then show ?thesis by (simp add: take_bit_eq_mod)
qed

lemma even_u32: "w AND 1 \<noteq> (1 :: u32) \<Longrightarrow> even (unat w)"
proof -
  assume "w AND 1 \<noteq> 1"
  then have "even w" by (simp add: and_one_eq mod_2_eq_odd split: if_splits)
  then have "\<not> bit w 0" by (simp add: bit_0)
  then have "\<not> bit (unat w) 0" by (simp only: bit_unsigned_iff) simp
  then show ?thesis by (simp add: bit_0)
qed

lemma bitlut_even:
  assumes "w AND 1 \<noteq> (1 :: u32)"
  shows "1 \<le> bitlut ! unat (w AND 0xf) \<and> bitlut ! unat (w AND 0xf) \<le> 4"
proof -
  have "even (unat w mod 16)" "unat w mod 16 < 16" using even_u32[OF assms] by presburger+
  then have "unat w mod 16 \<in> {0, 2, 4, 6, 8, 10, 12, 14}" by (auto elim!: evenE)
  then show ?thesis unfolding unat_nibble bitlut_def by auto
qed

lemma bitlut_progress: "w AND 1 \<noteq> (1 :: u32) \<Longrightarrow> 0 < bitlut ! unat (w AND 0xf)"
  using bitlut_even[of w] by linarith

termination core_loop
  by (relation "measure (\<lambda>(source, csize, sz, src, dst, cword_val, buf). csize - src)")
    (auto dest!: decode_match_adv[OF sym] load_cword_src bitlut_progress)

declare core_loop.simps [simp del]

definition qlz_decompress_core :: "bytes \<Rightarrow> bytes \<Rightarrow> nat \<Rightarrow> (nat \<times> bytes) option" where
  "qlz_decompress_core source buf sz =
     (case (qlz_size_header source, qlz_size_compressed source) of
        (Some hdr, Some csize) \<Rightarrow> core_loop source csize sz hdr 0 1 buf
      | _ \<Rightarrow> None)"

definition qlz_decompress :: "bytes \<Rightarrow> bytes \<Rightarrow> (nat \<times> bytes) option" where
  "qlz_decompress source buf =
     (case (qlz_size_decompressed source, qlz_size_header source) of
        (Some dsiz, Some hdr) \<Rightarrow>
          if source ! 0 AND 1 = 1 then qlz_decompress_core source buf dsiz
          else map_option (Pair dsiz) (memcpy_src buf 0 source hdr dsiz)
      | _ \<Rightarrow> None)"

section \<open>Memory safety\<close>

text \<open>A result that stays inside the first \<open>sz\<close> bytes of the destination \<open>buf\<close>.\<close>

definition stays_within :: "nat \<Rightarrow> bytes \<Rightarrow> (nat \<times> bytes) option \<Rightarrow> bool" where
  "stays_within sz buf r =
     (case r of None \<Rightarrow> False
      | Some (n, buf') \<Rightarrow> (n = 0 \<or> n = sz) \<and> length buf' = length buf \<and> drop sz buf' = drop sz buf)"

lemma stays_within_trans:
  "stays_within sz buf1 r \<Longrightarrow> length buf1 = length buf \<Longrightarrow> drop sz buf1 = drop sz buf \<Longrightarrow> stays_within sz buf r"
  by (auto simp: stays_within_def split: option.splits)

lemma stays_within_refused [simp]: "stays_within sz buf (Some (0, buf))"
  by (simp add: stays_within_def)

lemma fast_read_4: "p + 4 \<le> length source \<Longrightarrow> fast_read source p 4 = Some (get_le32 source p)"
  by (simp add: fast_read_def eval_nat_numeral)

lemma memcpy_up_within:
  "dst + n \<le> length buf \<Longrightarrow> ofs \<le> dst \<Longrightarrow> dst + n \<le> sz \<Longrightarrow>
   \<exists>buf1. memcpy_up buf dst ofs n = Some buf1 \<and> length buf1 = length buf \<and> drop sz buf1 = drop sz buf"
proof (induction buf dst ofs n rule: memcpy_up.induct)
  case (2 buf dst ofs n)
  then show ?case by (auto simp: drop_update_cancel)
qed simp

lemma tail_literals_within:
  "csize \<le> length source \<Longrightarrow> sz \<le> length buf \<Longrightarrow>
   stays_within sz buf (tail_literals source csize sz src dst cword_val buf)"
proof (induction source csize sz src dst cword_val buf rule: tail_literals.induct)
  case (1 source csize sz src dst cword_val buf)
  show ?case
  proof (cases "dst < sz")
    case True
    define s1 c1 where "s1 = (if cword_val = 1 then src + 4 else src)"
      and "c1 = (if cword_val = 1 then 0x80000000 else cword_val)"
    have unfold: "tail_literals source csize sz src dst cword_val buf =
        (if s1 \<ge> csize then Some (0, buf)
         else tail_literals source csize sz (Suc s1) (Suc dst) (drop_bit 1 c1) (buf[dst := source ! s1]))"
      using True "1.prems" by (subst tail_literals.simps) (auto simp: s1_def c1_def)
    have "stays_within sz (buf[dst := source ! s1])
        (tail_literals source csize sz (Suc s1) (Suc dst) (drop_bit 1 c1) (buf[dst := source ! s1]))"
      if "s1 < csize"
      using that True "1.prems"
      by (intro "1.IH"[of "(s1, c1)" s1 c1]) (auto simp: s1_def c1_def)
    with True show ?thesis
      unfolding unfold by (auto intro: stays_within_trans)
  next
    case False
    then show ?thesis by (subst tail_literals.simps) (simp add: stays_within_def)
  qed
qed

text \<open>One round of the loop, with the case of each return.\<close>

lemma load_cword_within:
  assumes "csize \<le> length source"
  shows "load_cword source csize src c = Some None \<or>
    (\<exists>c1 src1. load_cword source csize src c = Some (Some (c1, src1)) \<and> src \<le> src1)"
  using assms by (auto simp: load_cword_def fast_read_4)

lemma match_guard:
  assumes "sz < 2 ^ 32" "dst + 4 \<le> sz" "m \<le> unat (of_int (int sz - 1 - int dst - 4 + 1) :: u32)"
  shows "dst + m + 4 \<le> sz"
proof -
  have "int sz - 1 - int dst - 4 + 1 = int (sz - dst - 4)" using assms(2) by simp
  then have "of_int (int sz - 1 - int dst - 4 + 1) = (of_nat (sz - dst - 4) :: u32)" by simp
  moreover have "unat (of_nat (sz - dst - 4) :: u32) = sz - dst - 4"
    using assms(1) by (simp add: unat_of_nat)
  ultimately have "m \<le> sz - dst - 4" using assms(3) by (simp only:)
  then show ?thesis using assms(2) by simp
qed

definition dst_inv :: "nat \<Rightarrow> nat \<Rightarrow> bool" where
  "dst_inv sz dst \<longleftrightarrow> dst = 0 \<or> dst + 4 \<le> sz"

text \<open>A match and a literal round: refused, or they continue from a larger source position.\<close>

lemma core_match_round:
  assumes "csize \<le> length source" "sz < 2 ^ 32" "sz \<le> length buf" "dst_inv sz dst"
    and load: "load_cword source csize src cword_val = Some (Some (c1, src1))" "\<not> csize < src1 + 4"
    and m: "c1 AND 1 = 1"
  shows "core_loop source csize sz src dst cword_val buf = Some (0, buf) \<or>
    (\<exists>src2 dst2 c2 buf2. core_loop source csize sz src dst cword_val buf = core_loop source csize sz src2 dst2 c2 buf2
       \<and> src1 < src2 \<and> dst_inv sz dst2 \<and> length buf2 = length buf \<and> drop sz buf2 = drop sz buf)"
proof -
  have f: "fast_read source src1 4 = Some (get_le32 source src1)"
    using assms(1) load by (intro fast_read_4) simp
  obtain offset n adv where d: "decode_match (get_le32 source src1) = (offset, n, adv)"
    by (metis prod_cases3)
  let ?wide = "n > unat (of_int (int sz - 1 - int dst - 4 + 1) :: u32)"
  show ?thesis
  proof (cases "offset > dst \<or> offset < 3 \<or> ?wide")
    case True
    then have "core_loop source csize sz src dst cword_val buf = Some (0, buf)"
      using load f d m by (subst core_loop.simps) auto
    then show ?thesis ..
  next
    case False
    then have "dst + n + 4 \<le> sz" "offset \<le> dst"
      using assms(4) match_guard[OF assms(2), of dst n] by (auto simp: dst_inv_def)
    then obtain buf1 where "memcpy_up buf dst (dst - offset) n = Some buf1"
      and b: "length buf1 = length buf" "drop sz buf1 = drop sz buf" "dst_inv sz (dst + n)"
      using memcpy_up_within[of dst n buf "dst - offset" sz] assms(3) by (auto simp: dst_inv_def)
    moreover have "\<not> (offset > dst \<or> offset < 3)" "\<not> ?wide" using False by auto
    ultimately have "core_loop source csize sz src dst cword_val buf =
        core_loop source csize sz (src1 + adv) (dst + n) (drop_bit 1 c1) buf1"
      using load f d m
      by (subst core_loop.simps) (simp only: option.case prod.case if_True if_False refl)
    moreover have "src1 < src1 + adv" using decode_match_adv[OF d] by simp
    ultimately show ?thesis using b by blast
  qed
qed

lemma core_literal_round:
  assumes "csize \<le> length source" "sz \<le> length buf"
    and load: "load_cword source csize src cword_val = Some (Some (c1, src1))" "\<not> csize < src1 + 4"
    and l: "c1 AND 1 \<noteq> 1" "int dst < int sz - 1 - 6 - 4"
  shows "\<exists>src2 dst2 c2 buf2. core_loop source csize sz src dst cword_val buf = core_loop source csize sz src2 dst2 c2 buf2
       \<and> src1 < src2 \<and> dst_inv sz dst2 \<and> length buf2 = length buf \<and> drop sz buf2 = drop sz buf"
proof -
  have f: "fast_read source src1 4 = Some (get_le32 source src1)"
    using assms(1) load by (intro fast_read_4) simp
  define n where "n = bitlut ! unat (c1 AND 0xf)"
  have n: "1 \<le> n" "n \<le> 4" using bitlut_even[OF l(1)] by (simp_all add: n_def)
  let ?buf = "buf_write buf dst (buf_read source src1 4)"
  have w: "dst + 4 \<le> length buf" "src1 + 4 \<le> length source" "dst_inv sz (dst + n)" "dst + 4 \<le> sz"
    using l(2) assms(1,2) load(2) n by (auto simp: dst_inv_def)
  then have "core_loop source csize sz src dst cword_val buf =
      core_loop source csize sz (src1 + n) (dst + n) (drop_bit n c1) ?buf"
    using load f l by (subst core_loop.simps) (simp add: n_def memcpy_src_def Let_def)
  moreover have "drop sz ?buf = drop sz buf"
    using w by (simp add: buf_write_def drop_append)
  moreover have "length ?buf = length buf" "src1 < src1 + n" using w n by simp_all
  ultimately show ?thesis using w(3) by blast
qed

lemma core_loop_within:
  assumes "csize \<le> length source" "sz < 2 ^ 32" "sz \<le> length buf" "dst_inv sz dst"
  shows "stays_within sz buf (core_loop source csize sz src dst cword_val buf)"
  using assms(3,4)
proof (induction "csize - src" arbitrary: src dst cword_val buf rule: less_induct)
  case less
  let ?r = "core_loop source csize sz src dst cword_val buf"
  consider (stop) "load_cword source csize src cword_val = Some None"
    | (short) c1 src1 where "load_cword source csize src cword_val = Some (Some (c1, src1))" "csize < src1 + 4"
    | (go) c1 src1 where "load_cword source csize src cword_val = Some (Some (c1, src1))" "src \<le> src1"
        "\<not> csize < src1 + 4"
    using load_cword_within[OF assms(1)] by (meson load_cword_src)
  then show ?case
  proof cases
    case go
    have next_round: "stays_within sz buf ?r"
      if "?r = core_loop source csize sz src2 dst2 c2 buf2 \<and> src1 < src2 \<and> dst_inv sz dst2
        \<and> length buf2 = length buf \<and> drop sz buf2 = drop sz buf" for src2 dst2 c2 buf2
    proof -
      have "csize - src2 < csize - src" using that go by auto
      with less.hyps[of src2 buf2 dst2 c2] that less.prems(1) show ?thesis
        by (auto intro: stays_within_trans)
    qed
    consider (m) "c1 AND 1 = 1" | (lit) "c1 AND 1 \<noteq> 1" "int dst < int sz - 1 - 6 - 4"
      | (tail) "c1 AND 1 \<noteq> 1" "\<not> int dst < int sz - 1 - 6 - 4" by blast
    then show ?thesis
    proof cases
      case m
      show ?thesis
        using core_match_round[OF assms(1,2) less.prems go(1,3) m] next_round stays_within_refused by metis
    next
      case lit
      show ?thesis
        using core_literal_round[OF assms(1) less.prems(1) go(1,3) lit] next_round by blast
    next
      case tail
      then have "?r = tail_literals source csize sz src1 dst c1 buf"
        using go assms(1) by (subst core_loop.simps) (simp add: fast_read_4)
      then show ?thesis using tail_literals_within[OF assms(1) less.prems(1)] by simp
    qed
  qed (subst core_loop.simps, simp)+
qed

section \<open>Properties\<close>

text \<open>
  C32: the decompressor is memory safe for every compressed block whatever its contents, under
  exactly two conditions on its size fields: the compressed size in the header does not exceed the
  source buffer, and the decompressed size does not exceed the destination. It then terminates without reading
  outside the source or writing behind the first \<^verbatim>\<open>dsiz\<close> bytes of the destination, and returns
  0 (block refused) or the decompressed size of the header.
\<close>

theorem qlz_decompress_safe:
  assumes "source ! 0 AND 1 = 1" "qlz_size_compressed source = Some csize" "csize \<le> length source"
    and "qlz_size_decompressed source = Some dsiz" "dsiz \<le> length buf"
  shows "\<exists>n buf'. qlz_decompress source buf = Some (n, buf') \<and> (n = 0 \<or> n = dsiz)
    \<and> length buf' = length buf \<and> drop dsiz buf' = drop dsiz buf"
proof -
  obtain hdr where h: "qlz_size_header source = Some hdr"
    using assms(2) by (auto simp: qlz_size_compressed_def qlz_size_header_def split: if_splits)
  have "dsiz < 2 ^ 32"
    using assms(4) unsigned_less[where 'b = 32] by (auto simp: qlz_size_decompressed_def Let_def split: if_splits)
  then have "stays_within dsiz buf (core_loop source csize dsiz hdr 0 1 buf)"
    using assms by (intro core_loop_within) (simp_all add: dst_inv_def)
  with assms h show ?thesis
    by (auto simp: qlz_decompress_def qlz_decompress_core_def stays_within_def split: option.splits)
qed

lemma unat_u8_mask: "unat ((ucast (b :: u8) :: u32) AND 0xff) = unat b"
proof -
  have "(ucast b :: u32) AND 0xff = take_bit 8 (ucast b)"
    by (simp add: take_bit_eq_mask mask_eq_exp_minus_1)
  also have "\<dots> = ucast b" by (rule bit_word_eqI) (auto simp: bit_simps dest: bit_u8_less)
  finally show ?thesis
    using unsigned_less[of b, where ?'a = nat] by (simp add: unsigned_ucast_eq take_bit_nat_eq_self)
qed

text \<open>A three-byte header, one control word with a match flag at the fourth item, three literals.\<close>

definition demo_block :: bytes where
  "demo_block = [0x4d, 30, 15, 8, 0, 0, 0x80, 97, 98, 99, 0x0c, 100, 101, 102, 103, 104, 105, 106, 107, 108,
     0, 0, 0, 0, 0, 0, 0, 0, 0, 0]"

theorem qlz_decompress_safe_witness:
  "\<exists>n buf'. qlz_decompress demo_block (replicate 16 0) = Some (n, buf') \<and> (n = 0 \<or> n = 15) \<and> length buf' = 16"
proof -
  have "demo_block ! 0 AND 1 = 1" "qlz_size_compressed demo_block = Some 30" "30 \<le> length demo_block"
    "qlz_size_decompressed demo_block = Some 15"
    by code_simp+
  from qlz_decompress_safe[OF this, of "replicate 16 0"] show ?thesis by auto
qed

text \<open>
  The header fields are taken on trust: when an uncompressed block announces more bytes than the
  destination holds, \<^verbatim>\<open>qlz_decompress\<close> writes past its end, since no capacity is passed to it.
\<close>

lemma qlz_decompress_raw_overflow:
  assumes "source ! 0 AND 1 \<noteq> 1" "qlz_size_decompressed source = Some dsiz" "length buf < dsiz"
  shows "qlz_decompress source buf = None"
  using assms by (auto simp: qlz_decompress_def memcpy_src_def split: option.splits)

text \<open>
  A stored block of at most 255 bytes decompresses to its own payload: for every payload and every
  destination that holds it, the result is the payload's length, the payload at the start of the destination and the rest
  of the destination untouched.
\<close>

theorem qlz_decompress_stored:
  assumes "length d < 256" "length d \<le> length buf"
  shows "qlz_decompress ([0x4c, of_nat (length d + 3), of_nat (length d)] @ d @ rest) buf =
    Some (length d, d @ drop (length d) buf)"
proof -
  let ?s = "[0x4c, of_nat (length d + 3), of_nat (length d)] @ d @ rest :: bytes"
  have f: "fast_read ?s (Suc (Suc 0)) (Suc 0) = Some (ucast (of_nat (length d) :: u8))"
    by (simp add: fast_read_def)
  have "unat ((ucast (of_nat (length d) :: u8) :: u32) AND drop_bit 24 0xffffffff) = length d"
    using assms(1) by (simp add: unat_u8_mask unat_of_nat)
  with f have "qlz_size_decompressed ?s = Some (length d)"
    by (simp add: qlz_size_decompressed_def qlz_size_bytes_def)
  moreover have "qlz_size_header ?s = Some 3" "?s ! 0 AND 1 \<noteq> 1"
    by (simp_all add: qlz_size_header_def qlz_size_bytes_def)
  moreover have "buf_read ?s 3 (length d) = d" by (simp add: buf_read_def)
  ultimately show ?thesis using assms
    by (simp add: qlz_decompress_def memcpy_src_def buf_write_def)
qed

theorem qlz_decompress_stored_witness:
  "qlz_decompress [0x4c, 5, 2, 7, 9, 0, 0, 0, 0] [1, 1, 1] = Some (2, [7, 9, 1])"
  using qlz_decompress_stored[of "[7, 9]" "[1, 1, 1]" "[0, 0, 0, 0]"] by simp

end
