(* ===== verification/Fota_Upgrade.thy ===== *)
theory Fota_Upgrade
  imports Fota_Image Aes Fastlz Quicklz
begin

text \<open>
  The upgrade itself, \<^verbatim>\<open>rt_fota_read_part\<close> and \<^verbatim>\<open>rt_fota_upgrade\<close> of \<^verbatim>\<open>bootloader/src/rt_fota.c\<close>: the
  application partition is erased, the image body is read in chunks of 4096 bytes, decrypted (AES-256 in
  CBC mode) and decompressed (FastLZ or QuickLZ blocks behind a 4-byte big-endian length) and written to
  the application partition.

  The local variables of the function are the record \<^verbatim>\<open>upg\<close>. A piece of code ends in one of three ways: it goes on,
  it jumps to \<^verbatim>\<open>__exit_upgrade\<close> with an error code, or it accesses memory outside a buffer (a null buffer is one of
  length 0), which is \<open>Fault\<close>.
\<close>

section \<open>Model\<close>

definition RT_FOTA_ALGO_BUFF_SIZE :: nat where "RT_FOTA_ALGO_BUFF_SIZE = 4096"
definition RT_FOTA_CMPRS_BUFFER_SIZE :: nat where "RT_FOTA_CMPRS_BUFFER_SIZE = 4096"
definition RT_FOTA_BLOCK_HEADER_SIZE :: nat where "RT_FOTA_BLOCK_HEADER_SIZE = 4"
definition RT_FOTA_FASTLZ_BUFFER_PADDING :: nat where "RT_FOTA_FASTLZ_BUFFER_PADDING = 66 + 4096 * 5 div 100"
definition RT_FOTA_QUICKLZ_BUFFER_PADDING :: nat where "RT_FOTA_QUICKLZ_BUFFER_PADDING = 400"

definition RT_FOTA_ALGO_AES_IV :: bytes where "RT_FOTA_ALGO_AES_IV = bytes_of_string ''0123456789ABCDEF''"
definition RT_FOTA_ALGO_AES_KEY :: bytes where
  "RT_FOTA_ALGO_AES_KEY = bytes_of_string ''0123456789ABCDEF0123456789ABCDEF''"

text \<open>
  Read and decrypt: the result code, the buffer, the chaining value and the state. The pointers the callers
  pass are not null.
\<close>

definition rt_fota_read_part ::
  "fota_env \<Rightarrow> fal_partition \<Rightarrow> nat \<Rightarrow> tiny_aes_context option \<Rightarrow> bytes \<Rightarrow> bytes \<Rightarrow> nat \<Rightarrow> fota_sys
    \<Rightarrow> int \<times> bytes \<times> bytes \<times> fota_sys" where
  "rt_fota_read_part e part read_pos aes_ctx aes_iv decrypt_buf decrypt_len s =
     (if decrypt_len mod 16 \<noteq> 0 \<or> decrypt_len > RT_FOTA_ALGO_BUFF_SIZE
      then (RT_FOTA_GENERAL_ERR, decrypt_buf, aes_iv, s)
      else
        let zero = replicate decrypt_len 0;
            read = fal_partition_read (env_rom e) part (of_nat (HEAD_SIZE + read_pos)) (of_nat decrypt_len)
                     (flash_mem s)
        in case aes_ctx of
             None \<Rightarrow>
               (case read of (n, buf) \<Rightarrow>
                  if n \<le> 0 then (RT_FOTA_PART_READ_ERR, zero, aes_iv, s)
                  else (n, buf_write zero 0 buf, aes_iv, s))
           | Some ctx \<Rightarrow>
               (case rt_malloc e s of (ok, s1) \<Rightarrow>
                  if \<not> ok then (RT_FOTA_GENERAL_ERR, zero, aes_iv, s1)
                  else (case read of (n, encrypt_buf) \<Rightarrow>
                    if n \<le> 0 \<or> n mod 16 \<noteq> 0 then (RT_FOTA_PART_READ_ERR, zero, aes_iv, s1)
                    else (case tiny_aes_crypt_cbc ctx AES_DECRYPT (nat n div 16) aes_iv encrypt_buf of
                      (out, iv1) \<Rightarrow> (n, buf_write zero 0 out, iv1, s1)))))"

record upg_cfg =
  src_part :: fal_partition
  aes_ctx :: "tiny_aes_context option"
  cmprs_algo :: u16
  padding_size :: nat
  dcprs_cap :: nat

record upg =
  u_sys :: fota_sys
  fw_raw_pos :: nat
  fw_raw_len :: nat
  total_copy_size :: u32
  block_hdr_buf :: bytes
  block_hdr_pos :: nat
  block_size :: nat
  dcprs_size :: nat
  crypt_buf :: bytes
  cmprs_buff :: bytes
  aes_iv :: bytes

datatype outcome = Fault | Stop int upg | Go upg

fun and_then :: "outcome \<Rightarrow> (upg \<Rightarrow> outcome) \<Rightarrow> outcome" where
  "and_then (Go u) f = f u"
| "and_then Fault f = Fault"
| "and_then (Stop err u) f = Stop err u"

text \<open>\<^verbatim>\<open>fw_raw_len = rt_fota_read_part(...); if (fw_raw_len < 0) goto exit; fw_raw_pos += fw_raw_len\<close>.\<close>

definition read_chunk :: "fota_env \<Rightarrow> upg_cfg \<Rightarrow> upg \<Rightarrow> outcome" where
  "read_chunk e c u =
     (case rt_fota_read_part e (src_part c) (fw_raw_pos u) (aes_ctx c) (aes_iv u) (crypt_buf u)
             RT_FOTA_ALGO_BUFF_SIZE (u_sys u) of
        (n, buf, iv1, s1) \<Rightarrow>
          let u1 = u\<lparr>crypt_buf := buf, aes_iv := iv1, u_sys := s1\<rparr>
          in if n < 0 then Stop RT_FOTA_PART_READ_ERR u1
             else Go (u1\<lparr>fw_raw_len := nat n, fw_raw_pos := fw_raw_pos u + nat n\<rparr>))"

definition be32 :: "bytes \<Rightarrow> nat" where
  "be32 b = unat (b ! 0) * 2 ^ 24 + unat (b ! 1) * 2 ^ 16 + unat (b ! 2) * 2 ^ 8 + unat (b ! 3)"

text \<open>\<^verbatim>\<open>rt_memset(cmprs_buff, 0, ...)\<close>, and \<^verbatim>\<open>rt_memcpy(&cmprs_buff[dst], &crypt_buf[src], n)\<close>.\<close>

definition clear_cmprs :: "upg_cfg \<Rightarrow> upg \<Rightarrow> outcome" where
  "clear_cmprs c u =
     (if length (cmprs_buff u) < RT_FOTA_CMPRS_BUFFER_SIZE + padding_size c then Fault
      else Go (u\<lparr>cmprs_buff := replicate (RT_FOTA_CMPRS_BUFFER_SIZE + padding_size c) 0\<rparr>))"

definition copy_cmprs :: "nat \<Rightarrow> nat \<Rightarrow> nat \<Rightarrow> upg \<Rightarrow> outcome" where
  "copy_cmprs dst src n u =
     (if src + n \<le> length (crypt_buf u) \<and> dst + n \<le> length (cmprs_buff u)
      then Go (u\<lparr>cmprs_buff := buf_write (cmprs_buff u) dst (buf_read (crypt_buf u) src n)\<rparr>)
      else Fault)"

text \<open>The block header lies at the start of a new chunk.\<close>

definition fetch_first :: "fota_env \<Rightarrow> upg_cfg \<Rightarrow> upg \<Rightarrow> outcome" where
  "fetch_first e c u =
     and_then (read_chunk e c u) (\<lambda>u.
       let hdr = take RT_FOTA_BLOCK_HEADER_SIZE (crypt_buf u); n = be32 hdr
       in and_then (clear_cmprs c (u\<lparr>block_hdr_buf := hdr, block_size := n\<rparr>)) (\<lambda>u.
          and_then (copy_cmprs 0 RT_FOTA_BLOCK_HEADER_SIZE n u) (\<lambda>u.
            Go (u\<lparr>block_hdr_pos := RT_FOTA_BLOCK_HEADER_SIZE + n\<rparr>))))"

text \<open>
  The block header lies inside the current chunk: it is complete (\<open>fetch_inside\<close>) and the block may run over into the next
  chunk, or it is split between the chunks (\<open>fetch_split\<close>, with the \<open>k\<close> bytes already taken). A header that ends exactly with the chunk
  leaves the loop without a new block.
\<close>

definition fetch_inside :: "fota_env \<Rightarrow> upg_cfg \<Rightarrow> upg \<Rightarrow> outcome" where
  "fetch_inside e c u =
     (let n = be32 (block_hdr_buf u); rest = RT_FOTA_ALGO_BUFF_SIZE - block_hdr_pos u
      in and_then (clear_cmprs c (u\<lparr>block_size := n\<rparr>)) (\<lambda>u.
           if n > rest then
             and_then (copy_cmprs 0 (block_hdr_pos u) rest u) (\<lambda>u.
             and_then (read_chunk e c u) (\<lambda>u.
             and_then (copy_cmprs rest 0 (n - rest) u) (\<lambda>u.
               Go (u\<lparr>block_hdr_pos := n - rest\<rparr>))))
           else
             and_then (copy_cmprs 0 (block_hdr_pos u) n u) (\<lambda>u.
               Go (u\<lparr>block_hdr_pos := block_hdr_pos u + n\<rparr>))))"

definition fetch_split :: "fota_env \<Rightarrow> upg_cfg \<Rightarrow> nat \<Rightarrow> upg \<Rightarrow> outcome" where
  "fetch_split e c k u =
     and_then (read_chunk e c u) (\<lambda>u.
       let j = RT_FOTA_BLOCK_HEADER_SIZE - k;
           hdr = buf_write (block_hdr_buf u) k (take j (crypt_buf u)); n = be32 hdr
       in and_then (clear_cmprs c (u\<lparr>block_hdr_buf := hdr, block_size := n\<rparr>)) (\<lambda>u.
          and_then (copy_cmprs 0 j n u) (\<lambda>u.
            Go (u\<lparr>block_hdr_pos := (j + n) mod RT_FOTA_ALGO_BUFF_SIZE\<rparr>))))"

definition fetch_next :: "fota_env \<Rightarrow> upg_cfg \<Rightarrow> upg \<Rightarrow> outcome" where
  "fetch_next e c u =
     (let k = min RT_FOTA_BLOCK_HEADER_SIZE (RT_FOTA_ALGO_BUFF_SIZE - block_hdr_pos u);
          u1 = u\<lparr>block_hdr_buf := buf_write (block_hdr_buf u) 0 (buf_read (crypt_buf u) (block_hdr_pos u) k),
                 block_hdr_pos := block_hdr_pos u + k\<rparr>
      in if k < RT_FOTA_BLOCK_HEADER_SIZE then fetch_split e c k u1
         else if block_hdr_pos u1 < RT_FOTA_ALGO_BUFF_SIZE then fetch_inside e c u1
         else Go u1)"

text \<open>Decompress the block in \<^verbatim>\<open>cmprs_buff\<close> and write the result to the application partition.\<close>

definition decompress_block :: "upg_cfg \<Rightarrow> upg \<Rightarrow> (nat \<times> bytes) option" where
  "decompress_block c u =
     (let dcprs_buff = replicate RT_FOTA_CMPRS_BUFFER_SIZE 0
      in if dcprs_cap c < RT_FOTA_CMPRS_BUFFER_SIZE then None
         else if cmprs_algo c = 0x300 then
           map_option (\<lambda>(n, out). (n, buf_write dcprs_buff 0 out))
             (fastlz_decompress (cmprs_buff u) (block_size u) RT_FOTA_CMPRS_BUFFER_SIZE)
         else if cmprs_algo c = 0x200 then qlz_decompress (cmprs_buff u) dcprs_buff
         else Some (dcprs_size u, dcprs_buff))"

definition write_chunk :: "fota_env \<Rightarrow> bytes \<Rightarrow> nat \<Rightarrow> upg \<Rightarrow> outcome" where
  "write_chunk e buf n u =
     (case rt_fota_write_app_part e (total_copy_size u) buf (of_nat n) (u_sys u) of
        None \<Rightarrow> Fault
      | Some (res, s1) \<Rightarrow>
          if res < 0 then Stop RT_FOTA_COPY_FAILED (u\<lparr>u_sys := s1\<rparr>)
          else Go (u\<lparr>u_sys := s1, total_copy_size := total_copy_size u + of_nat n\<rparr>))"

definition install_block :: "fota_env \<Rightarrow> upg_cfg \<Rightarrow> upg \<Rightarrow> outcome" where
  "install_block e c u =
     (case decompress_block c u of
        None \<Rightarrow> Fault
      | Some (n, buf) \<Rightarrow>
          if n = 0 then Stop RT_FOTA_GENERAL_ERR (u\<lparr>dcprs_size := n\<rparr>)
          else write_chunk e buf n (u\<lparr>dcprs_size := n\<rparr>))"

definition upgrade_round :: "fota_env \<Rightarrow> upg_cfg \<Rightarrow> upg \<Rightarrow> outcome" where
  "upgrade_round e c u =
     (if cmprs_algo c \<noteq> 0 then
        and_then (if block_hdr_pos u \<ge> RT_FOTA_ALGO_BUFF_SIZE then fetch_first e c u else fetch_next e c u)
          (install_block e c)
      else
        and_then (read_chunk e c u) (\<lambda>u. write_chunk e (crypt_buf u) (fw_raw_len u) u))"

text \<open>Every round reads a chunk or moves forward in the current one.\<close>

definition advances :: "upg \<Rightarrow> upg \<Rightarrow> bool" where
  "advances u v \<longleftrightarrow> fw_raw_pos u < fw_raw_pos v \<or>
     (fw_raw_pos v = fw_raw_pos u \<and> block_hdr_pos u < RT_FOTA_ALGO_BUFF_SIZE \<and> block_hdr_pos u < block_hdr_pos v)"

lemma and_then_Go: "and_then r f = Go v \<longleftrightarrow> (\<exists>u. r = Go u \<and> f u = Go v)"
  by (cases r) auto

lemma read_part_pos: "rt_fota_read_part e p pos ctx iv b len s = (n, r) \<Longrightarrow> n < 0 \<or> 0 < n"
  by (auto simp: rt_fota_read_part_def fota_errors Let_def split: if_splits option.splits prod.splits)

lemma read_chunk_pos: "read_chunk e c u = Go v \<Longrightarrow> fw_raw_pos u < fw_raw_pos v"
  using read_part_pos[of e "src_part c" "fw_raw_pos u" "aes_ctx c" "aes_iv u" "crypt_buf u" RT_FOTA_ALGO_BUFF_SIZE "u_sys u"]
  by (auto simp: read_chunk_def Let_def split: prod.splits if_splits)

lemma clear_cmprs_pos: "clear_cmprs c u = Go v \<Longrightarrow>
    fw_raw_pos v = fw_raw_pos u \<and> block_hdr_pos v = block_hdr_pos u \<and> fw_raw_len v = fw_raw_len u"
  by (auto simp: clear_cmprs_def split: if_splits)

lemma copy_cmprs_pos: "copy_cmprs d i n u = Go v \<Longrightarrow>
    fw_raw_pos v = fw_raw_pos u \<and> block_hdr_pos v = block_hdr_pos u \<and> fw_raw_len v = fw_raw_len u"
  by (auto simp: copy_cmprs_def split: if_splits)

lemma write_chunk_pos: "write_chunk e b n u = Go v \<Longrightarrow>
    fw_raw_pos v = fw_raw_pos u \<and> block_hdr_pos v = block_hdr_pos u \<and> fw_raw_len v = fw_raw_len u"
  by (auto simp: write_chunk_def split: option.splits prod.splits if_splits)

lemma install_block_pos: "install_block e c u = Go v \<Longrightarrow>
    fw_raw_pos v = fw_raw_pos u \<and> block_hdr_pos v = block_hdr_pos u \<and> fw_raw_len v = fw_raw_len u"
  by (auto simp: install_block_def dest!: write_chunk_pos split: option.splits prod.splits if_splits)

lemmas round_pos = read_chunk_pos clear_cmprs_pos copy_cmprs_pos write_chunk_pos install_block_pos

lemma fetch_first_pos: "fetch_first e c u = Go v \<Longrightarrow> fw_raw_pos u < fw_raw_pos v"
  by (auto simp: fetch_first_def and_then_Go Let_def dest!: round_pos)

lemma fetch_split_pos: "fetch_split e c k u = Go v \<Longrightarrow> fw_raw_pos u < fw_raw_pos v"
  by (auto simp: fetch_split_def and_then_Go Let_def dest!: round_pos)

lemma fetch_inside_pos:
  "fetch_inside e c u = Go v \<Longrightarrow>
   fw_raw_pos u < fw_raw_pos v \<or> (fw_raw_pos v = fw_raw_pos u \<and> block_hdr_pos u \<le> block_hdr_pos v)"
  by (auto simp: fetch_inside_def and_then_Go Let_def dest!: round_pos split: if_splits)

lemma fetch_next_pos:
  assumes "fetch_next e c u = Go v" "block_hdr_pos u < RT_FOTA_ALGO_BUFF_SIZE"
  shows "advances u v"
  using assms
  by (auto simp: fetch_next_def advances_def Let_def RT_FOTA_BLOCK_HEADER_SIZE_def RT_FOTA_ALGO_BUFF_SIZE_def
      dest!: fetch_split_pos fetch_inside_pos split: if_splits)

lemma upgrade_round_advances: "upgrade_round e c u = Go v \<Longrightarrow> advances u v"
  by (auto simp: upgrade_round_def and_then_Go dest!: fetch_first_pos fetch_next_pos round_pos split: if_splits)
     (auto simp: advances_def)

function upgrade_loop :: "fota_env \<Rightarrow> upg_cfg \<Rightarrow> nat \<Rightarrow> upg \<Rightarrow> outcome" where
  "upgrade_loop e c com_size u =
     (if fw_raw_pos u < com_size then
        (case upgrade_round e c u of
           Fault \<Rightarrow> Fault
         | Stop err u1 \<Rightarrow> Stop err u1
         | Go u1 \<Rightarrow> upgrade_loop e c com_size u1)
      else Go u)"
  by pat_completeness auto
termination
  by (relation "measures [\<lambda>(e, c, com_size, u). com_size - fw_raw_pos u,
        \<lambda>(e, c, com_size, u). RT_FOTA_ALGO_BUFF_SIZE - block_hdr_pos u]")
     (auto dest!: upgrade_round_advances simp: advances_def)

declare upgrade_loop.simps [simp del]

text \<open>The blocks left in the last chunk.\<close>

definition tail_round :: "fota_env \<Rightarrow> upg_cfg \<Rightarrow> nat \<Rightarrow> upg \<Rightarrow> outcome" where
  "tail_round e c n u =
     and_then (clear_cmprs c u) (\<lambda>u.
     and_then (copy_cmprs 0 (block_hdr_pos u + RT_FOTA_BLOCK_HEADER_SIZE) n u) (\<lambda>u.
       install_block e c (u\<lparr>block_hdr_pos := block_hdr_pos u + (n + RT_FOTA_BLOCK_HEADER_SIZE)\<rparr>)))"

lemma tail_round_pos:
  "tail_round e c n u = Go v \<Longrightarrow>
   block_hdr_pos v = block_hdr_pos u + (n + RT_FOTA_BLOCK_HEADER_SIZE) \<and> fw_raw_len v = fw_raw_len u"
  by (auto simp: tail_round_def and_then_Go dest!: round_pos)

function tail_loop :: "fota_env \<Rightarrow> upg_cfg \<Rightarrow> nat \<Rightarrow> upg \<Rightarrow> outcome" where
  "tail_loop e c raw_size u =
     (if unat (total_copy_size u) < raw_size then
        if block_hdr_pos u < fw_raw_len u \<and> fw_raw_len u - block_hdr_pos u > RT_FOTA_BLOCK_HEADER_SIZE then
          let hdr = buf_read (crypt_buf u) (block_hdr_pos u) RT_FOTA_BLOCK_HEADER_SIZE; n = be32 hdr;
              u0 = u\<lparr>block_hdr_buf := hdr, block_size := n\<rparr>
          in if fw_raw_len u - block_hdr_pos u - RT_FOTA_BLOCK_HEADER_SIZE \<ge> n then
               (case tail_round e c n u0 of
                  Fault \<Rightarrow> Fault
                | Stop err u1 \<Rightarrow> Stop err u1
                | Go u1 \<Rightarrow> tail_loop e c raw_size u1)
             else Go u0
        else Go u
      else Go u)"
  by pat_completeness auto
termination
  by (relation "measure (\<lambda>(e, c, raw_size, u). fw_raw_len u - block_hdr_pos u)")
     (auto simp: RT_FOTA_BLOCK_HEADER_SIZE_def dest!: tail_round_pos)

declare tail_loop.simps [simp del]

text \<open>
  The buffers: how many allocations the algorithm field asks for, in the order of the code. \<open>Inl\<close> is the error code.
\<close>

definition rt_mallocs :: "fota_env \<Rightarrow> nat \<Rightarrow> fota_sys \<Rightarrow> bool \<times> fota_sys" where
  "rt_mallocs e k s = (list_all (\<lambda>i. heap e (mallocs s + i)) [0..<k], s\<lparr>mallocs := mallocs s + k\<rparr>)"

definition setup_aes :: "fota_env \<Rightarrow> u16 \<Rightarrow> fota_sys \<Rightarrow> (int + tiny_aes_context option) \<times> fota_sys" where
  "setup_aes e algo s =
     (if algo AND 0xF = 2 then
        (case rt_mallocs e 2 s of (ok, s1) \<Rightarrow>
           (if \<not> ok then Inl RT_FOTA_NO_MEM_ERR
            else Inr (Some (tiny_aes_setkey_dec \<lparr>nr = 0, rk = []\<rparr> RT_FOTA_ALGO_AES_KEY 256)), s1))
      else if algo AND 0xF = 1 then (Inl RT_FOTA_GENERAL_ERR, s)
      else (Inr None, s))"

definition setup_cmprs :: "fota_env \<Rightarrow> u16 \<Rightarrow> fota_sys \<Rightarrow> (int + nat \<times> nat \<times> nat) \<times> fota_sys" where
  "setup_cmprs e algo s =
     (if algo AND 0xF00 = 0x300 then
        (case rt_mallocs e 2 s of (ok, s1) \<Rightarrow>
           (if \<not> ok then Inl RT_FOTA_NO_MEM_ERR
            else Inr (RT_FOTA_CMPRS_BUFFER_SIZE + RT_FOTA_FASTLZ_BUFFER_PADDING, RT_FOTA_CMPRS_BUFFER_SIZE,
                      RT_FOTA_FASTLZ_BUFFER_PADDING), s1))
      else if algo AND 0xF00 = 0x200 then
        (case rt_mallocs e 3 s of (ok, s1) \<Rightarrow>
           (if \<not> ok then Inl RT_FOTA_NO_MEM_ERR
            else Inr (RT_FOTA_CMPRS_BUFFER_SIZE + RT_FOTA_QUICKLZ_BUFFER_PADDING, RT_FOTA_CMPRS_BUFFER_SIZE,
                      RT_FOTA_QUICKLZ_BUFFER_PADDING), s1))
      else if algo AND 0xF00 = 0x100 then (Inl RT_FOTA_GENERAL_ERR, s)
      else (Inr (0, 0, 0), s))"

definition start_upg :: "nat \<Rightarrow> fota_sys \<Rightarrow> upg" where
  "start_upg cmprs_len s = \<lparr>
     u_sys = s, fw_raw_pos = 0, fw_raw_len = 0, total_copy_size = 0,
     block_hdr_buf = replicate RT_FOTA_BLOCK_HEADER_SIZE 0, block_hdr_pos = RT_FOTA_ALGO_BUFF_SIZE,
     block_size = 0, dcprs_size = 0,
     crypt_buf = replicate RT_FOTA_ALGO_BUFF_SIZE 0, cmprs_buff = replicate cmprs_len 0,
     aes_iv = RT_FOTA_ALGO_AES_IV\<rparr>"

text \<open>From the copy loop to the end of the function; the final check compares the sizes.\<close>

definition run_upgrade :: "fota_env \<Rightarrow> upg_cfg \<Rightarrow> bytes \<Rightarrow> upg \<Rightarrow> (int \<times> fota_sys) option" where
  "run_upgrade e c part_head u =
     (case and_then (upgrade_loop e c (unat (hd_com_size part_head)) u)
             (\<lambda>u. if cmprs_algo c \<noteq> 0 then tail_loop e c (unat (hd_raw_size part_head)) u else Go u) of
        Fault \<Rightarrow> None
      | Stop err u1 \<Rightarrow> Some (err, u_sys u1)
      | Go u1 \<Rightarrow>
          Some (if total_copy_size u1 < hd_raw_size part_head then RT_FOTA_GENERAL_ERR else RT_FOTA_NO_ERR, u_sys u1))"

definition rt_fota_upgrade :: "fota_env \<Rightarrow> bytes option \<Rightarrow> fota_sys \<Rightarrow> (int \<times> fota_sys) option" where
  "rt_fota_upgrade e name s =
     (case name of
        None \<Rightarrow> Some (RT_FOTA_GENERAL_ERR, s)
      | Some pname \<Rightarrow>
     (case fal_partition_find (fal s) pname of
        None \<Rightarrow> Some (RT_FOTA_GENERAL_ERR, s)
      | Some part \<Rightarrow>
     (case rt_fota_erase_app_part e s of (res, s1) \<Rightarrow>
        if res \<noteq> RT_FOTA_NO_ERR then Some (res, s1)
        else
     (case rt_malloc e s1 of (ok, s2) \<Rightarrow>
        if \<not> ok then Some (RT_FOTA_NO_MEM_ERR, s2)
        else let part_head = fota_part_head s2; algo = hd_fota_algo part_head in
     (case setup_aes e algo s2 of
        (Inl err, s3) \<Rightarrow> Some (err, s3)
      | (Inr ctx, s3) \<Rightarrow>
     (case setup_cmprs e algo s3 of
        (Inl err, s4) \<Rightarrow> Some (err, s4)
      | (Inr (cmprs_len, dcprs_len, pad), s4) \<Rightarrow>
          run_upgrade e \<lparr>src_part = part, aes_ctx = ctx, cmprs_algo = algo AND 0xF00,
              padding_size = pad, dcprs_cap = dcprs_len\<rparr> part_head (start_upg cmprs_len s4)))))))"

section \<open>Lemmas: copying without compression\<close>

text \<open>What the reads of consecutive chunks yield: the bytes themselves, or their decryption.\<close>

definition plain :: "tiny_aes_context option \<Rightarrow> bytes \<Rightarrow> bytes \<Rightarrow> bytes \<times> bytes" where
  "plain ctx iv b =
     (case ctx of None \<Rightarrow> (b, iv)
      | Some c \<Rightarrow> tiny_aes_crypt_cbc c AES_DECRYPT (length b div 16) iv b)"

lemma cbc_append:
  "length x = 16 * m \<Longrightarrow> tiny_aes_crypt_cbc c AES_DECRYPT (m + n) iv (x @ y) =
     (let (o1, iv1) = tiny_aes_crypt_cbc c AES_DECRYPT m iv x; (o2, iv2) = tiny_aes_crypt_cbc c AES_DECRYPT n iv1 y
      in (o1 @ o2, iv2))"
proof (induction m arbitrary: x iv)
  case (Suc m)
  then have "length (drop 16 x) = 16 * m" "16 \<le> length x" by simp_all
  with Suc.IH[of "drop 16 x" "take 16 x"] show ?case by (simp add: Let_def split: prod.splits)
qed simp

lemma cbc_iv_length:
  "length iv = 16 \<Longrightarrow> length b = 16 * n \<Longrightarrow> length (snd (tiny_aes_crypt_cbc c AES_DECRYPT n iv b)) = 16"
proof (induction n arbitrary: iv b)
  case (Suc n)
  then have "length (snd (tiny_aes_crypt_cbc c AES_DECRYPT n (take 16 b) (drop 16 b))) = 16"
    by (intro Suc.IH) simp_all
  then show ?case by (simp add: Let_def case_prod_unfold)
qed simp

lemma plain_append:
  assumes "length x mod 16 = 0"
  shows "plain ctx iv (x @ y) =
    (let (o1, iv1) = plain ctx iv x; (o2, iv2) = plain ctx iv1 y in (o1 @ o2, iv2))"
proof -
  have "length x = 16 * (length x div 16)" "(length x + length y) div 16 = length x div 16 + length y div 16"
    using assms by auto
  then show ?thesis by (cases ctx) (simp_all add: plain_def cbc_append)
qed

lemma plain_length:
  assumes "length b mod 16 = 0" "length iv = 16"
  shows "length (fst (plain ctx iv b)) = length b" "length (snd (plain ctx iv b)) = 16"
proof -
  have "length b = 16 * (length b div 16)" using assms(1) by auto
  with assms(2) show "length (fst (plain ctx iv b)) = length b" "length (snd (plain ctx iv b)) = 16"
    using cbc_length[of iv b "length b div 16"] cbc_iv_length[of iv b "length b div 16"]
    by (auto simp: plain_def split: option.splits)
qed

lemma read_part_plain:
  assumes "rom_frame (env_rom e)" "part_wf p" "HEAD_SIZE + pos + 4096 \<le> unat (part_len p)"
    and "\<forall>k. heap e k" "length iv = 16" "b = part_bytes (flash_mem s) p (HEAD_SIZE + pos) 4096"
  shows "\<exists>s'. rt_fota_read_part e p pos ctx iv buf 4096 s = (4096, fst (plain ctx iv b), snd (plain ctx iv b), s')
    \<and> flash_mem s' = flash_mem s \<and> fal s' = fal s \<and> crc_tab s' = crc_tab s
    \<and> fota_part_head s' = fota_part_head s"
proof -
  have "fal_partition_read (env_rom e) p (of_nat (HEAD_SIZE + pos)) (of_nat 4096) (flash_mem s) = (int 4096, b)"
    unfolding assms(6) by (rule part_read_frame[OF assms(1-3)])
  moreover have "length b = 4096" by (simp add: assms(6))
  moreover have "buf_write (replicate 4096 0) 0 (fst (plain ctx iv b)) = fst (plain ctx iv b)"
    using plain_length(1)[of b iv ctx] \<open>length b = 4096\<close> assms(5) by (simp add: buf_write_def)
  ultimately show ?thesis
    using assms(4) by (cases ctx)
      (auto simp: rt_fota_read_part_def RT_FOTA_ALGO_BUFF_SIZE_def Let_def plain_def rt_malloc_def split: prod.splits)
qed

text \<open>What the copy keeps of the state it started in.\<close>

definition keeps :: "fal_partition \<Rightarrow> fota_sys \<Rightarrow> fota_sys \<Rightarrow> bool" where
  "keeps app s s' \<longleftrightarrow> fal s' = fal s \<and> crc_tab s' = crc_tab s \<and> fota_part_head s' = fota_part_head s
     \<and> only_changes app (flash_mem s) (flash_mem s')"

text \<open>The state after a whole number of chunks.\<close>

definition copied :: "upg_cfg \<Rightarrow> fal_partition \<Rightarrow> fota_sys \<Rightarrow> bytes \<Rightarrow> upg \<Rightarrow> bool" where
  "copied c app s0 body u \<longleftrightarrow>
     (let pos = fw_raw_pos u; s = u_sys u; m = flash_mem s;
          done = plain (aes_ctx c) RT_FOTA_ALGO_AES_IV (take pos body)
      in keeps app s0 s \<and> pos mod 4096 = 0 \<and> pos \<le> length body \<and> total_copy_size u = of_nat pos
         \<and> fal_partition_find (fal s) (hd_app_part_name (fota_part_head s)) = Some app
         \<and> part_bytes m (src_part c) HEAD_SIZE (length body) = body
         \<and> part_bytes m app 0 pos = fst done \<and> aes_iv u = snd done
         \<and> part_bytes m app pos (length body - pos) = replicate (length body - pos) 0xFF
         \<and> part_bytes m app (length body) (unat (part_len app) - length body) =
             part_bytes (flash_mem s0) app (length body) (unat (part_len app) - length body))"

lemma aligned_mod: "p mod 4096 = 0 \<Longrightarrow> d dvd 4096 \<Longrightarrow> p mod d = (0::nat)"
  using mod_mod_cancel[of d 4096 p] by simp

lemma aligned_next: "p mod 4096 = 0 \<Longrightarrow> n mod 4096 = 0 \<Longrightarrow> p < n \<Longrightarrow> p + 4096 \<le> (n::nat)"
  by (auto elim!: dvdE simp: mod_eq_0_iff_dvd)

lemma write_app_ok:
  assumes "rom_nor (env_rom e)" "part_wf app" "pos + 4096 \<le> unat (part_len app)" "pos mod 4096 = 0" "length buf = 4096"
    and "fal_partition_find (fal s) (hd_app_part_name (fota_part_head s)) = Some app"
    and "part_bytes (flash_mem s) app pos 4096 = replicate 4096 0xFF"
  shows "\<exists>m'. rt_fota_write_app_part e (of_nat pos) buf 4096 s = Some (RT_FOTA_NO_ERR, s\<lparr>flash_mem := m'\<rparr>)
    \<and> part_bytes m' app pos 4096 = buf
    \<and> (\<forall>q b k. part_wf q \<longrightarrow> b + k \<le> unat (part_len q) \<longrightarrow>
         part_disjoint app q \<or> (app = q \<and> (b + k \<le> pos \<or> pos + 4096 \<le> b)) \<longrightarrow>
         part_bytes m' q b k = part_bytes (flash_mem s) q b k)"
proof -
  note fr = rom_nor_frame[OF assms(1)]
  have al: "pos mod 4 = 0" "pos mod 256 = 0" using assms(4) by (auto intro: aligned_mod)
  obtain m' where w: "fal_partition_write (env_rom e) app (of_nat pos) buf (of_nat 4096) (flash_mem s) = Some (int 4096, m')"
    using part_write_nor[OF assms(1-3) al(1), of buf] al(2) assms(5,7) by auto
  note eff = part_write_frame[OF fr assms(2,3) disjI1[OF al(2)] w]
  have "part_bytes m' app pos 4096 = buf" using eff(1) assms(5) by simp
  moreover have "rt_fota_write_app_part e (of_nat pos) buf 4096 s = Some (RT_FOTA_NO_ERR, s\<lparr>flash_mem := m'\<rparr>)"
    using w assms(6) by (simp add: rt_fota_write_app_part_def)
  ultimately show ?thesis using eff(2) by auto
qed

lemma part_bytes_piece:
  assumes "part_bytes m p a n = x" "k + j \<le> n"
  shows "part_bytes m p (a + k) j = take j (drop k x)"
proof -
  have "part_bytes m p a (k + (j + (n - k - j))) = x" using assms by simp
  then show ?thesis unfolding part_bytes_append by (metis append_eq_conv_conj length_part_bytes)
qed

lemma plain_next:
  assumes "pos mod 16 = 0" "pos + n \<le> length body"
  shows "plain ctx iv (take (pos + n) body) =
    (fst (plain ctx iv (take pos body)) @ fst (plain ctx (snd (plain ctx iv (take pos body))) (take n (drop pos body))),
     snd (plain ctx (snd (plain ctx iv (take pos body))) (take n (drop pos body))))"
proof -
  have "length (take pos body) = pos" using assms(2) by simp
  with assms(1) have "length (take pos body) mod 16 = 0" by simp
  then show ?thesis by (simp add: take_add plain_append Let_def case_prod_unfold)
qed

lemma raw_round:
  assumes "rom_nor (env_rom e)" "part_wf (src_part c)" "part_wf app" "part_disjoint app (src_part c)" "\<forall>k. heap e k"
    and "HEAD_SIZE + length body \<le> unat (part_len (src_part c))" "length body \<le> unat (part_len app)"
    and "length body mod 4096 = 0" "cmprs_algo c = 0" "copied c app s0 body u" "fw_raw_pos u < length body"
  shows "\<exists>v. upgrade_round e c u = Go v \<and> copied c app s0 body v \<and> fw_raw_pos v = fw_raw_pos u + 4096"
proof -
  define pos s m where "pos = fw_raw_pos u" and "s = u_sys u" and "m = flash_mem s"
  let ?p = "src_part c" and ?pl = "plain (aes_ctx c)" and ?L = "length body"
  let ?done = "?pl RT_FOTA_ALGO_AES_IV (take pos body)" and ?b = "take 4096 (drop pos body)"
  have kept: "keeps app s0 s" using assms(10) by (simp add: copied_def Let_def s_def)
  have inv: "pos mod 4096 = 0" "total_copy_size u = of_nat pos"
    "fal_partition_find (fal s) (hd_app_part_name (fota_part_head s)) = Some app"
    "part_bytes m ?p HEAD_SIZE ?L = body" "part_bytes m app 0 pos = fst ?done" "aes_iv u = snd ?done"
    "part_bytes m app pos (?L - pos) = replicate (?L - pos) 0xFF"
    "part_bytes m app ?L (unat (part_len app) - ?L) = part_bytes (flash_mem s0) app ?L (unat (part_len app) - ?L)"
    using assms(10) by (simp_all add: copied_def pos_def s_def m_def Let_def)
  have step: "pos + 4096 \<le> ?L" "pos mod 16 = 0"
    using assms(8,11) inv(1) aligned_next[of pos ?L] by (auto simp: pos_def intro: aligned_mod)
  have b: "?b = part_bytes m ?p (HEAD_SIZE + pos) 4096" using part_bytes_piece[OF inv(4) step(1)] by simp
  have iv: "length (aes_iv u) = 16"
    using plain_length(2)[of "take pos body" RT_FOTA_ALGO_AES_IV "aes_ctx c"] step inv(6)
    by (simp add: RT_FOTA_ALGO_AES_IV_def bytes_of_string_def min_def)
  define out where "out = ?pl (aes_iv u) ?b"
  have out: "length (fst out) = 4096"
    using plain_length(1)[of ?b "aes_iv u" "aes_ctx c"] iv step(1) by (simp add: out_def)
  obtain s1 where rd: "rt_fota_read_part e ?p pos (aes_ctx c) (aes_iv u) (crypt_buf u) 4096 s = (4096, fst out, snd out, s1)"
    and s1: "flash_mem s1 = m" "fal s1 = fal s" "fota_part_head s1 = fota_part_head s" "crc_tab s1 = crc_tab s"
    using read_part_plain[OF rom_nor_frame[OF assms(1)] assms(2) _ assms(5) iv b[unfolded m_def], of "aes_ctx c" "crypt_buf u"]
      assms(6) step(1) by (auto simp: out_def m_def)
  have ff: "part_bytes m app pos 4096 = replicate 4096 0xFF"
    "part_bytes m app (pos + 4096) (?L - pos - 4096) = replicate (?L - pos - 4096) 0xFF"
    using part_bytes_piece[OF inv(7), of 0 4096] part_bytes_piece[OF inv(7), of 4096 "?L - pos - 4096"] step(1)
    by simp_all
  obtain m' where w: "rt_fota_write_app_part e (of_nat pos) (fst out) 4096 s1 = Some (RT_FOTA_NO_ERR, s1\<lparr>flash_mem := m'\<rparr>)"
    and m': "part_bytes m' app pos 4096 = fst out"
      "\<forall>q b k. part_wf q \<longrightarrow> b + k \<le> unat (part_len q) \<longrightarrow>
         part_disjoint app q \<or> (app = q \<and> (b + k \<le> pos \<or> pos + 4096 \<le> b)) \<longrightarrow> part_bytes m' q b k = part_bytes m q b k"
    using write_app_ok[OF assms(1,3) _ inv(1) out, of s1] step(1) assms(7) inv(3) ff(1) s1 by auto
  have keep: "part_bytes m' ?p HEAD_SIZE ?L = body" "part_bytes m' app 0 pos = fst ?done"
    "part_bytes m' app (pos + 4096) (?L - pos - 4096) = replicate (?L - pos - 4096) 0xFF"
    "part_bytes m' app ?L (unat (part_len app) - ?L) = part_bytes (flash_mem s0) app ?L (unat (part_len app) - ?L)"
    using m'(2) assms(2,3,4,6,7) inv(4,5,8) ff(2) step(1) by simp_all
  have kept': "keeps app s0 (s1\<lparr>flash_mem := m'\<rparr>)"
    using kept m'(2) s1 by (auto simp: keeps_def m_def only_changes_def)
  define v where "v = u\<lparr>crypt_buf := fst out, aes_iv := snd out, u_sys := s1\<lparr>flash_mem := m'\<rparr>,
    fw_raw_len := 4096, fw_raw_pos := pos + 4096, total_copy_size := of_nat pos + 4096\<rparr>"
  have "upgrade_round e c u = Go v"
    using rd w inv(2) assms(9)
    by (simp add: upgrade_round_def read_chunk_def write_chunk_def RT_FOTA_ALGO_BUFF_SIZE_def pos_def s_def v_def
        Let_def fota_errors)
  moreover have "copied c app s0 body v"
    using keep kept' part_bytes_append[of m' app 0 pos 4096] m'(1) inv(1,3) s1 step
      plain_next[OF step(2,1), of "aes_ctx c" RT_FOTA_ALGO_AES_IV]
    by (simp add: copied_def v_def Let_def mod_add_eq[symmetric] out_def inv(6))
  ultimately show ?thesis by (auto simp: v_def pos_def)
qed

lemma raw_loop:
  assumes "rom_nor (env_rom e)" "part_wf (src_part c)" "part_wf app" "part_disjoint app (src_part c)" "\<forall>k. heap e k"
    and "HEAD_SIZE + length body \<le> unat (part_len (src_part c))" "length body \<le> unat (part_len app)"
    and "length body = sectors n * 4096" "cmprs_algo c = 0" "copied c app s0 body u"
  shows "\<exists>v. upgrade_loop e c n u = Go v \<and> copied c app s0 body v \<and> fw_raw_pos v = length body"
  using assms(10)
proof (induction "length body - fw_raw_pos u" arbitrary: u rule: less_induct)
  case less
  have pos: "fw_raw_pos u mod 4096 = 0" "fw_raw_pos u \<le> length body"
    using less.prems by (simp_all add: copied_def Let_def)
  have n: "n \<le> length body" unfolding assms(8) sectors_def by linarith
  show ?case
  proof (cases "fw_raw_pos u < n")
    case True
    have "length body mod 4096 = 0" using assms(8) by simp
    from raw_round[OF assms(1-7) this assms(9) less.prems] True n
    obtain v where v: "upgrade_round e c u = Go v" "copied c app s0 body v" "fw_raw_pos v = fw_raw_pos u + 4096" by auto
    have "upgrade_loop e c n u = upgrade_loop e c n v" using True v by (subst upgrade_loop.simps) simp
    with less.hyps[of v] v True n show ?thesis by auto
  next
    case False
    have "sectors n * 4096 \<le> fw_raw_pos u"
      using sectors_le[of n "fw_raw_pos u div 4096"] False pos(1) by (simp add: minus_mod_eq_div_mult[symmetric])
    with pos(2) assms(8) less.prems False show ?thesis by (subst upgrade_loop.simps) simp
  qed
qed

subsection \<open>The whole upgrade\<close>

lemma rt_mallocs_ok: "\<forall>k. heap e k \<Longrightarrow> rt_mallocs e n s = (True, s\<lparr>mallocs := mallocs s + n\<rparr>)"
  by (simp add: rt_mallocs_def list_all_iff)

definition head_ctx :: "bytes \<Rightarrow> tiny_aes_context option" where
  "head_ctx h = (if hd_fota_algo h AND 0xF = 2
     then Some (tiny_aes_setkey_dec \<lparr>nr = 0, rk = []\<rparr> RT_FOTA_ALGO_AES_KEY 256) else None)"

lemma setup_aes_ok:
  assumes "\<forall>k. heap e k" "hd_fota_algo h AND 0xF \<noteq> 1"
  shows "\<exists>k. setup_aes e (hd_fota_algo h) s = (Inr (head_ctx h), s\<lparr>mallocs := k\<rparr>)"
  using assms unfolding setup_aes_def head_ctx_def
  by (auto simp: rt_mallocs_ok intro: exI[of _ "mallocs s"])

text \<open>What erasing the application partition leaves: whole sectors of FF, other partitions as they were.\<close>

lemma erase_app_ok:
  assumes "rom_nor (env_rom e)" "part_wf app" "0 < n" "n \<le> unat (part_len app)" "n = unat (hd_raw_size (fota_part_head s))"
    and "fal_partition_find (fal s) (hd_app_part_name (fota_part_head s)) = Some app"
  shows "\<exists>m'. rt_fota_erase_app_part e s = (RT_FOTA_NO_ERR, s\<lparr>flash_mem := m'\<rparr>)
    \<and> part_bytes m' app 0 (sectors n * 4096) = replicate (sectors n * 4096) 0xFF
    \<and> only_changes app (flash_mem s) m'
    \<and> part_bytes m' app (sectors n * 4096) (unat (part_len app) - sectors n * 4096) =
        part_bytes (flash_mem s) app (sectors n * 4096) (unat (part_len app) - sectors n * 4096)"
proof -
  note fr = rom_nor_frame[OF assms(1)]
  have n: "0 + n \<le> unat (part_len app)" "(0::nat) mod 4096 = 0" using assms(4) by simp_all
  obtain m' where er: "fal_partition_erase (env_rom e) app (of_nat 0) (of_nat n) (flash_mem s) = (int n, m')"
    using part_erase_nor[OF assms(1,2) n assms(3)] by blast
  then have "rt_fota_erase_app_part e s = (RT_FOTA_NO_ERR, s\<lparr>flash_mem := m'\<rparr>)"
    using assms(5,6) by (simp add: rt_fota_erase_app_part_def)
  moreover have "sectors n * 4096 \<le> unat (part_len app)"
  proof -
    obtain k where k: "unat (part_len app) = k * 4096" using assms(2) by (auto simp: part_wf_def elim!: dvdE)
    then show ?thesis using sectors_le[of n k] assms(4) by simp
  qed
  then have "part_bytes m' app (sectors n * 4096) (unat (part_len app) - sectors n * 4096) =
      part_bytes (flash_mem s) app (sectors n * 4096) (unat (part_len app) - sectors n * 4096)"
    by (intro part_erase_frame(2)[OF fr assms(2) n er _ assms(2)]) auto
  ultimately show ?thesis
    using part_erase_sectors[OF fr assms(2) n er] part_erase_frame(2)[OF fr assms(2) n er]
    by (auto simp: only_changes_def)
qed

definition upgradable :: "fota_env \<Rightarrow> bytes \<Rightarrow> fal_partition \<Rightarrow> fal_partition \<Rightarrow> fota_sys \<Rightarrow> bool" where
  "upgradable e name p app s \<longleftrightarrow>
     (let h = fota_part_head s; N = sectors (unat (hd_com_size h)) * 4096
      in rom_nor (env_rom e) \<and> (\<forall>k. heap e k) \<and> partition_table (fal s) = partition_table_def
         \<and> fal_partition_find (fal s) name = Some p
         \<and> fal_partition_find (fal s) (hd_app_part_name h) = Some app \<and> app \<noteq> p
         \<and> 0 < unat (hd_raw_size h) \<and> unat (hd_raw_size h) \<le> unat (part_len app)
         \<and> sectors (unat (hd_raw_size h)) = sectors (unat (hd_com_size h))
         \<and> HEAD_SIZE + N \<le> unat (part_len p))"

lemma upgradable_parts:
  assumes "upgradable e name p app s"
  shows "part_wf p" "part_wf app" "part_disjoint app p"
    "sectors (unat (hd_com_size (fota_part_head s))) * 4096 \<le> unat (part_len app)"
proof -
  have mem: "p \<in> set partition_table_def" "app \<in> set partition_table_def" "app \<noteq> p"
    using assms fal_partition_find_mem by (auto simp: upgradable_def Let_def) metis+
  show "part_wf p" and wf: "part_wf app" and "part_disjoint app p"
    using mem partition_table_wf partition_table_disjoint by blast+
  obtain k where k: "unat (part_len app) = k * 4096"
    using wf by (auto simp: part_wf_def elim!: dvdE)
  have "sectors (unat (hd_raw_size (fota_part_head s))) \<le> k"
    using assms k by (intro sectors_le) (simp add: upgradable_def Let_def)
  then show "sectors (unat (hd_com_size (fota_part_head s))) * 4096 \<le> unat (part_len app)"
    using assms k by (simp add: upgradable_def Let_def)
qed

lemma upgrade_uncompressed:
  fixes s defines "h \<equiv> fota_part_head s"
  defines "N \<equiv> sectors (unat (hd_com_size h)) * 4096"
  assumes "upgradable e name p app s" "hd_fota_algo h AND 0xF \<noteq> 1" "hd_fota_algo h AND 0xF00 = 0"
  shows "\<exists>s'. rt_fota_upgrade e (Some name) s = Some (RT_FOTA_NO_ERR, s')
    \<and> part_bytes (flash_mem s') app 0 N =
        fst (plain (head_ctx h) RT_FOTA_ALGO_AES_IV (part_bytes (flash_mem s) p HEAD_SIZE N))
    \<and> keeps app s s' \<and> changes_within app N (flash_mem s) (flash_mem s')"
proof -
  have up: "rom_nor (env_rom e)" "\<forall>k. heap e k" "fal_partition_find (fal s) name = Some p"
    "fal_partition_find (fal s) (hd_app_part_name h) = Some app" "0 < unat (hd_raw_size h)"
    "unat (hd_raw_size h) \<le> unat (part_len app)" "sectors (unat (hd_raw_size h)) * 4096 = N"
    "HEAD_SIZE + N \<le> unat (part_len p)"
    using assms(3) by (simp_all add: upgradable_def Let_def h_def N_def)
  note parts = upgradable_parts[OF assms(3), folded h_def, folded N_def]
  let ?body = "part_bytes (flash_mem s) p HEAD_SIZE N"
  obtain m1 where er: "rt_fota_erase_app_part e s = (RT_FOTA_NO_ERR, s\<lparr>flash_mem := m1\<rparr>)"
    and m1: "part_bytes m1 app 0 N = replicate N 0xFF" "part_bytes m1 p HEAD_SIZE N = ?body"
    and only: "only_changes app (flash_mem s) m1"
    and tail: "part_bytes m1 app N (unat (part_len app) - N) = part_bytes (flash_mem s) app N (unat (part_len app) - N)"
    using erase_app_ok[OF up(1) parts(2) up(5,6), of s] up(4,7,8) parts(1,3)
    by (auto simp: h_def dest: only_changesD)
  obtain k where aes: "setup_aes e (hd_fota_algo h) (s\<lparr>flash_mem := m1, mallocs := Suc (mallocs s)\<rparr>) =
      (Inr (head_ctx h), s\<lparr>flash_mem := m1, mallocs := k\<rparr>)"
    using setup_aes_ok[OF up(2) assms(4), of "s\<lparr>flash_mem := m1, mallocs := Suc (mallocs s)\<rparr>"] by auto
  define c where "c = \<lparr>src_part = p, aes_ctx = head_ctx h, cmprs_algo = 0, padding_size = 0, dcprs_cap = 0\<rparr>"
  define u where "u = start_upg 0 (s\<lparr>flash_mem := m1, mallocs := k\<rparr>)"
  have run: "rt_fota_upgrade e (Some name) s = run_upgrade e c h u"
    using up(2,3) er aes assms(5)
    by (simp add: rt_fota_upgrade_def rt_malloc_def Let_def setup_cmprs_def c_def u_def h_def)
  have "copied c app s ?body u"
    using m1 up(4) only tail by (simp add: keeps_def copied_def u_def start_upg_def Let_def c_def plain_def h_def part_bytes_def
        flash_bytes_def split: option.split)
  from raw_loop[of e c app ?body "unat (hd_com_size h)" s u, OF up(1) _ parts(2) _ up(2) _ _ _ _ this]
  obtain v where v: "upgrade_loop e c (unat (hd_com_size h)) u = Go v" "copied c app s ?body v" "fw_raw_pos v = N"
    using parts up(8) by (auto simp: c_def N_def)
  have N: "unat (of_nat N :: u32) = N" "unat (hd_raw_size h) \<le> N"
    using parts(4) parts(2) sectors_ge[of "unat (hd_raw_size h)"] up(7)
    by (auto simp: part_wf_def intro!: unat_of_nat_flash)
  then have "\<not> total_copy_size v < hd_raw_size h"
    using v(2,3) by (simp add: copied_def Let_def word_less_nat_alt)
  moreover have "changes_within app N (flash_mem s) (flash_mem (u_sys v))"
    using v(2) parts(2,4) by (intro changes_withinI) (simp_all add: copied_def Let_def keeps_def)
  ultimately show ?thesis using v
    unfolding run by (auto simp: run_upgrade_def c_def copied_def Let_def)
qed

section \<open>Properties\<close>

text \<open>
  C3: an upgrade from an uncompressed, unencrypted image installs the image: on a working chip, with
  partitions that hold the chunks and a raw size of as many sectors as the body, \<^verbatim>\<open>rt_fota_upgrade\<close> returns \<^verbatim>\<open>RT_FOTA_NO_ERR\<close>, the
  first sectors of the application partition hold, chunk for chunk, the body of the image, and every other cell of the flash is as
  it was: the rest of the application partition, which is not erased, and all other partitions.
\<close>

theorem rt_fota_upgrade_installs:
  assumes "upgradable e name p app s" "hd_fota_algo (fota_part_head s) = 0"
    and "n = sectors (unat (hd_com_size (fota_part_head s))) * 4096"
  shows "\<exists>s'. rt_fota_upgrade e (Some name) s = Some (RT_FOTA_NO_ERR, s')
    \<and> part_bytes (flash_mem s') app 0 n = part_bytes (flash_mem s) p HEAD_SIZE n
    \<and> changes_within app n (flash_mem s) (flash_mem s') \<and> only_changes app (flash_mem s) (flash_mem s')"
  using upgrade_uncompressed[OF assms(1)] assms(2,3) by (auto simp: head_ctx_def plain_def keeps_def)

text \<open>A state in which an image has been verified.\<close>

definition app_part :: fal_partition where
  "app_part = mk_part ''app'' 0x18000 0x168000"

definition verified_sys :: "flash \<Rightarrow> bytes \<Rightarrow> fota_sys" where
  "verified_sys m h = demo_sys\<lparr>flash_mem := m, fota_part_head := h\<rparr>"

lemma find_app_part: "partition_table f = partition_table_def \<Longrightarrow> fal_partition_find f (char_array 16 ''app'') = Some app_part"
  by (simp add: fal_partition_find_def part_table_simps bytes_of_string_def char_array_def c_str_def
      FAL_DEV_NAME_MAX_def app_part_def)

lemma app_download_parts:
  "part_wf app_part" "part_disjoint app_part download_part" "part_disjoint download_part app_part"
  "app_part \<noteq> download_part" "unat (part_len app_part) = 0x168000"
  by (simp_all add: app_part_def download_part_def mk_part_def part_wf_def part_disjoint_def flash_len_def)

lemma upgradable_pack:
  assumes "0 < raw" "raw \<le> 0x168000" "length body < 0x167000" "sectors raw = sectors (length body)"
    and "rom_nor (env_rom e)" "\<forall>k. heap e k" "partition_table (fal s) = partition_table_def"
    and "fal_partition_find (fal s) name = Some download_part"
    and "fota_part_head s = pack_head tab algo ''app'' dv cv (of_nat raw) body"
  shows "upgradable e name download_part app_part s"
proof -
  let ?h = "fota_part_head s"
  have n: "unat (hd_com_size ?h) = length body" "unat (hd_raw_size ?h) = raw"
    using assms(2,3) by (simp_all add: assms(9) pack_head_fields unat_of_nat)
  have "fal_partition_find (fal s) (hd_app_part_name ?h) = Some app_part"
    using find_app_part[OF assms(7)] by (simp add: assms(9) fal_partition_find_def pack_head_fields(7))
  moreover have "sectors (length body) * 4096 + HEAD_SIZE \<le> 0x168000"
    using assms(3) sectors_le[of "length body" 359] by (simp add: HEAD_SIZE_def)
  ultimately show ?thesis
    using assms app_download_parts demo_download(4) n by (simp add: upgradable_def Let_def add.commute)
qed

lemma verified_demo:
  "rom_nor (env_rom demo_env)" "\<forall>k. heap demo_env k" "partition_table (fal (verified_sys m h)) = partition_table_def"
  "fal_partition_find (fal (verified_sys m h)) (bytes_of_string ''download'') = Some download_part"
  "fota_part_head (verified_sys m h) = h"
  using demo_download(1,5) by (simp_all add: demo_env_def rom_nor_nor_rom verified_sys_def)

theorem rt_fota_upgrade_installs_witness:
  "\<exists>s'. rt_fota_upgrade demo_env (Some (bytes_of_string ''download''))
      (verified_sys (flash_mem demo_sys) (pack_head rt_fota_crc_init 0 ''app'' ''2.0'' ''1.0'' (of_nat 4) [1, 2, 3, 4])) = Some (RT_FOTA_NO_ERR, s')
    \<and> part_bytes (flash_mem s') app_part 0 4096 = part_bytes (flash_mem demo_sys) download_part HEAD_SIZE 4096"
proof -
  let ?h = "pack_head rt_fota_crc_init 0 ''app'' ''2.0'' ''1.0'' (of_nat 4) [1, 2, 3, 4]"
  have up: "upgradable demo_env (bytes_of_string ''download'') download_part app_part (verified_sys (flash_mem demo_sys) ?h)"
    by (rule upgradable_pack[OF _ _ _ _ verified_demo]) (simp_all add: sectors_def)
  have h: "fota_part_head (verified_sys (flash_mem demo_sys) ?h) = ?h" "flash_mem (verified_sys (flash_mem demo_sys) ?h) = flash_mem demo_sys"
    by (simp_all add: verified_sys_def)
  have "hd_fota_algo ?h = 0"
    by (simp add: hd_fota_algo_def pack_head_def Let_def bytes_of_string_def)
  moreover have "4096 = sectors (unat (hd_com_size ?h)) * 4096" by (simp add: pack_head_fields sectors_def)
  ultimately show ?thesis using rt_fota_upgrade_installs[OF up, of 4096] by (simp only: h) blast
qed





text \<open>
  The algorithm field is examined after the application has been erased. With an unsupported
  encryption (XOR) or compression (GZIP) the upgrade of a verified image fails with
  \<^verbatim>\<open>RT_FOTA_GENERAL_ERR\<close> and the application partition is left blank.
\<close>

theorem rt_fota_upgrade_unsupported_erases:
  assumes "upgradable e name p app s"
    and "hd_fota_algo (fota_part_head s) = 1 \<or> hd_fota_algo (fota_part_head s) = 0x100"
  shows "\<exists>s'. rt_fota_upgrade e (Some name) s = Some (RT_FOTA_GENERAL_ERR, s')
    \<and> part_bytes (flash_mem s') app 0 (sectors (unat (hd_raw_size (fota_part_head s))) * 4096) =
        replicate (sectors (unat (hd_raw_size (fota_part_head s))) * 4096) 0xFF"
proof -
  let ?h = "fota_part_head s"
  have up: "rom_nor (env_rom e)" "\<forall>k. heap e k" "fal_partition_find (fal s) name = Some p"
    "fal_partition_find (fal s) (hd_app_part_name ?h) = Some app" "0 < unat (hd_raw_size ?h)"
    "unat (hd_raw_size ?h) \<le> unat (part_len app)"
    using assms(1) by (simp_all add: upgradable_def Let_def)
  from erase_app_ok[OF up(1) upgradable_parts(2)[OF assms(1)] up(5,6) refl up(4)] assms(2) up(2,3)
  show ?thesis
    by (auto simp: rt_fota_upgrade_def rt_malloc_def Let_def setup_aes_def setup_cmprs_def)
qed

theorem rt_fota_upgrade_unsupported_erases_witness:
  "\<exists>s'. rt_fota_upgrade demo_env (Some (bytes_of_string ''download''))
      (verified_sys (\<lambda>_. 7) (pack_head rt_fota_crc_init 1 ''app'' ''2.0'' ''1.0'' (of_nat 4) [1, 2, 3, 4])) =
        Some (RT_FOTA_GENERAL_ERR, s')
    \<and> part_bytes (flash_mem s') app_part 0 4096 = replicate 4096 0xFF"
proof -
  let ?h = "pack_head rt_fota_crc_init 1 ''app'' ''2.0'' ''1.0'' (of_nat 4) [1, 2, 3, 4]"
  have up: "upgradable demo_env (bytes_of_string ''download'') download_part app_part (verified_sys (\<lambda>_. 7) ?h)"
    by (rule upgradable_pack[OF _ _ _ _ verified_demo]) (simp_all add: sectors_def)
  have h: "fota_part_head (verified_sys (\<lambda>_. 7) ?h) = ?h" by (simp add: verified_sys_def)
  have "hd_fota_algo ?h = 1" by (simp add: hd_fota_algo_def pack_head_def Let_def bytes_of_string_def)
  moreover have "sectors (unat (hd_raw_size ?h)) * 4096 = 4096" by (simp add: pack_head_fields sectors_def)
  ultimately show ?thesis using rt_fota_upgrade_unsupported_erases[OF up] by (simp only: h) auto
qed

text \<open>
  A block header that ends exactly with a chunk is lost. In that position the loop neither
  reads the length nor the block: the round decompresses and installs the block of the round
  before once more, and the next round starts in a new chunk as if it began with a header.
\<close>

theorem upgrade_round_header_at_chunk_end:
  assumes "cmprs_algo c \<noteq> 0" "block_hdr_pos u = RT_FOTA_ALGO_BUFF_SIZE - RT_FOTA_BLOCK_HEADER_SIZE"
  shows "\<exists>v. upgrade_round e c u = install_block e c v \<and> cmprs_buff v = cmprs_buff u \<and> block_size v = block_size u
    \<and> total_copy_size v = total_copy_size u \<and> block_hdr_pos v = RT_FOTA_ALGO_BUFF_SIZE \<and> fw_raw_pos v = fw_raw_pos u"
  using assms
  by (intro exI[of _ "u\<lparr>block_hdr_buf := buf_write (block_hdr_buf u) 0 (buf_read (crypt_buf u) (block_hdr_pos u) 4),
      block_hdr_pos := RT_FOTA_ALGO_BUFF_SIZE\<rparr>"])
    (simp add: upgrade_round_def fetch_next_def RT_FOTA_ALGO_BUFF_SIZE_def RT_FOTA_BLOCK_HEADER_SIZE_def Let_def)

definition fastlz_cfg :: upg_cfg where
  "fastlz_cfg = \<lparr>src_part = download_part, aes_ctx = None, cmprs_algo = 0x300,
     padding_size = RT_FOTA_FASTLZ_BUFFER_PADDING, dcprs_cap = RT_FOTA_CMPRS_BUFFER_SIZE\<rparr>"

theorem upgrade_round_header_at_chunk_end_witness:
  "\<exists>v. upgrade_round demo_env fastlz_cfg ((start_upg 4366 demo_sys)\<lparr>block_hdr_pos := 4092, block_size := 17\<rparr>) =
     install_block demo_env fastlz_cfg v \<and> block_size v = 17"
  using upgrade_round_header_at_chunk_end[of fastlz_cfg "(start_upg 4366 demo_sys)\<lparr>block_hdr_pos := 4092, block_size := 17\<rparr>" demo_env]
  by (auto simp: fastlz_cfg_def RT_FOTA_ALGO_BUFF_SIZE_def RT_FOTA_BLOCK_HEADER_SIZE_def)

text \<open>
  The length in front of a block is not checked: whenever a chunk starts with a length that
  exceeds what is left of the chunk, the copy into \<^verbatim>\<open>cmprs_buff\<close> reads past the end of \<^verbatim>\<open>crypt_buf\<close>.
\<close>

theorem upgrade_round_unchecked_block_size:
  assumes "cmprs_algo c \<noteq> 0" "RT_FOTA_ALGO_BUFF_SIZE \<le> block_hdr_pos u" "read_chunk e c u = Go u1"
    and "length (crypt_buf u1) < RT_FOTA_BLOCK_HEADER_SIZE + be32 (take RT_FOTA_BLOCK_HEADER_SIZE (crypt_buf u1))"
  shows "upgrade_round e c u = Fault"
  using assms by (auto simp: upgrade_round_def fetch_first_def Let_def clear_cmprs_def copy_cmprs_def)

theorem upgrade_round_unchecked_block_size_witness:
  "upgrade_round demo_env fastlz_cfg (start_upg 4366 (demo_sys\<lparr>flash_mem := \<lambda>_. 0xFF\<rparr>)) = Fault"
proof -
  let ?s = "demo_sys\<lparr>flash_mem := \<lambda>_. 0xFF\<rparr>"
  let ?b = "part_bytes (flash_mem ?s) download_part (HEAD_SIZE + 0) 4096"
  obtain s' where "rt_fota_read_part demo_env download_part 0 None RT_FOTA_ALGO_AES_IV (replicate RT_FOTA_ALGO_BUFF_SIZE 0) 4096 ?s =
      (4096, fst (plain None RT_FOTA_ALGO_AES_IV ?b), snd (plain None RT_FOTA_ALGO_AES_IV ?b), s')"
    using read_part_plain[of demo_env download_part 0 RT_FOTA_ALGO_AES_IV ?b ?s None "replicate RT_FOTA_ALGO_BUFF_SIZE 0"]
      demo_download(3,4) by (auto simp: demo_env_def rom_frame_nor_rom HEAD_SIZE_def RT_FOTA_ALGO_AES_IV_def bytes_of_string_def)
  then obtain u1 where u1: "read_chunk demo_env fastlz_cfg (start_upg 4366 ?s) = Go u1" "crypt_buf u1 = ?b"
    by (auto simp: read_chunk_def fastlz_cfg_def start_upg_def RT_FOTA_ALGO_BUFF_SIZE_def plain_def)
  moreover have "take 4 ?b = [0xFF, 0xFF, 0xFF, 0xFF]"
    by (rule nth_equalityI) (auto simp: part_bytes_def less_Suc_eq numeral_eq_Suc)
  then have "length (crypt_buf u1) < RT_FOTA_BLOCK_HEADER_SIZE + be32 (take RT_FOTA_BLOCK_HEADER_SIZE (crypt_buf u1))"
    unfolding u1(2) RT_FOTA_BLOCK_HEADER_SIZE_def by (simp add: be32_def)
  ultimately show ?thesis
    using upgrade_round_unchecked_block_size[of fastlz_cfg "start_upg 4366 ?s" demo_env u1]
    by (simp add: fastlz_cfg_def start_upg_def)
qed

end
