(* ===== verification/Fota_Boot.thy ===== *)
theory Fota_Boot
  imports Fota_Upgrade
begin

text \<open>
  The boot decision of \<^verbatim>\<open>bootloader/src/rt_fota.c\<close>: \<^verbatim>\<open>rt_fota_start_application\<close>, which checks the
  vector table of the application before it jumps, and \<^verbatim>\<open>rt_fota_thread_entry\<close> in the boot loader's
  configuration (no default key, no shell). Switching off the interrupts, the tick and the cache before the jump has
  no effect on the modelled state. A boot ends with the application running (its stack pointer and entry
  point, and the state it finds), with the thread returning, or in a memory fault.
\<close>

section \<open>Model\<close>

definition MH_SRAM_START :: u32 where "MH_SRAM_START = 0x20000000"
definition MH_SRAM_SIZE :: u32 where "MH_SRAM_SIZE = 1024 * 1024"

definition flash_word :: "flash \<Rightarrow> u32 \<Rightarrow> u32" where
  "flash_word m a = le32 (m a) (m (a + 1)) (m (a + 2)) (m (a + 3))"

datatype launch = Jump u32 u32 | Return int

definition RT_FOTA_APP_PART_NAME :: bytes where "RT_FOTA_APP_PART_NAME = bytes_of_string ''app''"
definition RT_FOTA_FM_PART_NAME :: bytes where "RT_FOTA_FM_PART_NAME = bytes_of_string ''download''"
definition RT_FOTA_DF_PART_NAME :: bytes where "RT_FOTA_DF_PART_NAME = bytes_of_string ''df_area''"

definition rt_fota_start_application :: "fota_sys \<Rightarrow> launch" where
  "rt_fota_start_application s =
     (case fal_partition_find (fal s) RT_FOTA_APP_PART_NAME of
        None \<Rightarrow> Return RT_FOTA_GENERAL_ERR
      | Some part \<Rightarrow>
          let app_addr = part_offset part + MH_FLASH_START_ADRESS;
              entry = flash_word (flash_mem s) (app_addr + 4);
              sp = flash_word (flash_mem s) app_addr
          in if entry < app_addr \<or> entry > app_addr + part_len part then Return RT_FOTA_GENERAL_ERR
             else if sp AND (MH_SRAM_START + (NOT (MH_SRAM_SIZE - 1) AND 0x0fffffff)) \<noteq> MH_SRAM_START
             then Return RT_FOTA_GENERAL_ERR
             else Jump sp entry)"

datatype boot = Running u32 u32 fota_sys | Halted fota_sys | Crashed

text \<open>The fallback after \<^verbatim>\<open>__exit_boot_entry\<close>: the default partition.\<close>

definition boot_default :: "fota_env \<Rightarrow> fota_sys \<Rightarrow> boot" where
  "boot_default e s =
     (case rt_fota_part_fw_verify e (Some RT_FOTA_DF_PART_NAME) s of (res, s1) \<Rightarrow>
        if res = RT_FOTA_NO_ERR then
          (case rt_fota_upgrade e (Some RT_FOTA_DF_PART_NAME) s1 of
             None \<Rightarrow> Crashed
           | Some (res, s2) \<Rightarrow>
               if res = RT_FOTA_NO_ERR then
                 (case rt_fota_start_application s2 of Jump sp entry \<Rightarrow> Running sp entry s2 | Return _ \<Rightarrow> Halted s2)
               else Halted s2)
        else Halted s1)"

definition boot_entry :: "fota_env \<Rightarrow> fota_sys \<Rightarrow> boot" where
  "boot_entry e s =
     (case rt_fota_start_application s of Jump sp entry \<Rightarrow> Running sp entry s | Return _ \<Rightarrow> boot_default e s)"

definition rt_fota_thread_entry :: "fota_env \<Rightarrow> fota_sys \<Rightarrow> boot" where
  "rt_fota_thread_entry e s =
     (case rt_fota_boot_verify e s of (_, s1) \<Rightarrow>
      case rt_fota_part_fw_verify e (Some RT_FOTA_FM_PART_NAME) s1 of (res, s2) \<Rightarrow>
        if res \<noteq> RT_FOTA_NO_ERR then boot_entry e s2
        else if rt_fota_check_upgrade s2 \<le> 0 then boot_entry e s2
        else
          (case rt_fota_upgrade e (Some RT_FOTA_FM_PART_NAME) s2 of
             None \<Rightarrow> Crashed
           | Some (res, s3) \<Rightarrow>
               if res \<noteq> RT_FOTA_NO_ERR then boot_entry e s3
               else
                 (case rt_fota_copy_version e RT_FOTA_FM_PART_NAME s3 of
                    None \<Rightarrow> Crashed
                  | Some (_, s4) \<Rightarrow> boot_entry e s4)))"

text \<open>Power-on: the static variables are cleared, the CRC table is built by \<^verbatim>\<open>rt_fota_crc_init\<close>.\<close>

definition power_on :: "flash \<Rightarrow> fota_sys" where
  "power_on m = \<lparr>flash_mem = m, fal = fal_reset, crc_tab = rt_fota_crc_init,
     fota_part_head = replicate HEAD_SIZE 0, mallocs = 0\<rparr>"

section \<open>Lemmas\<close>

lemma start_application_jump:
  assumes "rt_fota_start_application s = Jump sp entry"
  shows "\<exists>part. fal_partition_find (fal s) RT_FOTA_APP_PART_NAME = Some part
    \<and> sp = flash_word (flash_mem s) (part_offset part + MH_FLASH_START_ADRESS)
    \<and> entry = flash_word (flash_mem s) (part_offset part + MH_FLASH_START_ADRESS + 4)
    \<and> part_offset part + MH_FLASH_START_ADRESS \<le> entry \<and> entry \<le> part_offset part + MH_FLASH_START_ADRESS + part_len part
    \<and> sp AND 0x2FF00000 = MH_SRAM_START"
  using assms
  by (auto simp: rt_fota_start_application_def Let_def MH_SRAM_START_def MH_SRAM_SIZE_def split: option.splits if_splits)

lemma boot_entry_running:
  "boot_entry e s = Running sp entry s' \<Longrightarrow> rt_fota_start_application s' = Jump sp entry"
  by (auto simp: boot_entry_def boot_default_def split: launch.splits prod.splits option.splits if_splits)

text \<open>The flash abstraction layer after start-up.\<close>

definition fal_ready :: fal_state where
  "fal_ready = \<lparr>fal_ok = True, flash_ok = True, partition_ok = True, partition_table = partition_table_def\<rparr>"

definition ready :: "flash \<Rightarrow> fota_sys" where
  "ready m = (power_on m)\<lparr>fal := fal_ready\<rparr>"

lemma ready_simps [simp]:
  "flash_mem (ready m) = m" "fal (ready m) = fal_ready" "crc_tab (ready m) = rt_fota_crc_init" "mallocs (ready m) = 0"
  by (simp_all add: ready_def power_on_def)

lemma boot_verify_power_on: "rt_fota_boot_verify e (power_on m) = (RT_FOTA_NO_ERR, ready m)"
  by (simp add: rt_fota_boot_verify_def Let_def power_on_def ready_def fal_init_reset fal_ready_def fal_init_check_def)

lemma ready_find:
  "fal_partition_find fal_ready RT_FOTA_FM_PART_NAME = Some download_part"
  "fal_partition_find fal_ready RT_FOTA_APP_PART_NAME = Some app_part"
  "fal_partition_find fal_ready RT_FOTA_DF_PART_NAME = None"
  by (simp_all add: fal_ready_def fal_partition_find_def part_table_simps bytes_of_string_def char_array_def c_str_def
      FAL_DEV_NAME_MAX_def app_part_def download_part_def RT_FOTA_FM_PART_NAME_def RT_FOTA_APP_PART_NAME_def
      RT_FOTA_DF_PART_NAME_def)

lemma ready_table [simp]: "partition_table fal_ready = partition_table_def"
  by (simp add: fal_ready_def)

lemma boot_default_ready:
  "fal s = fal_ready \<Longrightarrow> boot_default e s = Halted (s\<lparr>fota_part_head := replicate HEAD_SIZE 0\<rparr>)"
  by (simp add: boot_default_def rt_fota_part_fw_verify_def verify_checks_def ready_find fota_errors)

text \<open>The first two words of the application.\<close>

lemma flash_word_part:
  assumes "a + 4 \<le> n"
  shows "flash_word m (part_offset p + MH_FLASH_START_ADRESS + of_nat a) = get_le32 (part_bytes m p 0 n) a"
proof -
  have "part_bytes m p 0 n ! (a + j) = m (part_offset p + MH_FLASH_START_ADRESS + of_nat a + of_nat j)" if "j < 4" for j
    using that assms by (simp add: part_bytes_def flash_cell_def add.commute add.left_commute)
  from this[of 0] this[of 1] this[of 2] this[of 3] show ?thesis
    by (simp add: flash_word_def get_le32_def)
qed

definition bootable :: "bytes \<Rightarrow> bool" where
  "bootable fw \<longleftrightarrow> 8 \<le> length fw \<and> get_le32 fw 0 AND 0x2FF00000 = MH_SRAM_START
     \<and> 0x1018000 \<le> get_le32 fw 4 \<and> get_le32 fw 4 \<le> 0x1180000"

lemma start_application_bootable:
  assumes "fal s = fal_ready" "part_bytes (flash_mem s) app_part 0 (length fw) = fw" "bootable fw"
  shows "rt_fota_start_application s = Jump (get_le32 fw 0) (get_le32 fw 4)"
proof -
  let ?a = "part_offset app_part + MH_FLASH_START_ADRESS"
  have b: "8 \<le> length fw" using assms(3) by (simp add: bootable_def)
  have "flash_word (flash_mem s) (?a + of_nat 0) = get_le32 fw 0" "flash_word (flash_mem s) (?a + of_nat 4) = get_le32 fw 4"
    using flash_word_part[of 0 "length fw" "flash_mem s" app_part] flash_word_part[of 4 "length fw" "flash_mem s" app_part]
      b assms(2) by simp_all
  moreover have "?a = 0x1018000" "?a + part_len app_part = 0x1180000"
    by (simp_all add: app_part_def mk_part_def MH_FLASH_START_ADRESS_def)
  ultimately show ?thesis
    using assms(3) ready_find(2)
    by (simp add: rt_fota_start_application_def assms(1) Let_def bootable_def MH_SRAM_START_def MH_SRAM_SIZE_def not_less)
qed

subsection \<open>A boot that upgrades\<close>

text \<open>A new uncompressed image for the application lies in the download partition.\<close>

definition new_image :: "flash \<Rightarrow> string \<Rightarrow> string \<Rightarrow> nat \<Rightarrow> bytes \<Rightarrow> bool" where
  "new_image m dv cv raw fw \<longleftrightarrow>
     holds_image m download_part (pack_head rt_fota_crc_init 0 ''app'' dv cv (of_nat raw) fw @ fw)
     \<and> length dv < 24 \<and> length cv < 24 \<and> c_str (char_array 24 dv) \<noteq> c_str (char_array 24 cv)
     \<and> 0 < raw \<and> raw \<le> 0x168000 \<and> length fw < 0x167000 \<and> sectors raw = sectors (length fw)"

lemma new_image_valid:
  assumes "new_image m dv cv raw fw"
  defines "h \<equiv> pack_head rt_fota_crc_init 0 ''app'' dv cv (of_nat raw) fw"
  shows "fw_valid fal_ready rt_fota_crc_init m download_part" "image_fits m download_part"
    "part_bytes m download_part 0 HEAD_SIZE = h" "part_bytes m download_part HEAD_SIZE (length fw) = fw"
    "unat (hd_com_size h) = length fw"
proof -
  have holds: "holds_image m download_part (h @ fw)" and len: "length fw < 2 ^ 32" "length fw < 0x167000"
    using assms by (simp_all add: new_image_def)
  note p = holds_pack[OF holds[unfolded h_def] len(1), folded h_def]
  show "part_bytes m download_part 0 HEAD_SIZE = h" "part_bytes m download_part HEAD_SIZE (length fw) = fw"
    "unat (hd_com_size h) = length fw"
    using p by simp_all
  show "fw_valid fal_ready rt_fota_crc_init m download_part"
    using find_app_part[OF ready_table] by (intro pack_valid[OF holds[unfolded h_def] len(1)]) simp_all
  have "sectors (length fw) * 4096 + HEAD_SIZE \<le> 0x168000"
    using len(2) sectors_le[of "length fw" 359] by (simp add: HEAD_SIZE_def)
  then show "image_fits m download_part" using p demo_download(4) by (simp add: image_fits_def)
qed

lemma upgrade_boot:
  assumes "rom_nor (env_rom e)" "\<forall>k. heap e k" "new_image m dv cv raw fw"
  defines "h \<equiv> pack_head rt_fota_crc_init 0 ''app'' dv cv (of_nat raw) fw"
  shows "\<exists>s. rt_fota_thread_entry e (power_on m) = boot_entry e s \<and> fal s = fal_ready
    \<and> part_bytes (flash_mem s) app_part 0 (length fw) = fw
    \<and> fw_valid fal_ready rt_fota_crc_init (flash_mem s) download_part \<and> image_fits (flash_mem s) download_part
    \<and> part_bytes (flash_mem s) download_part 0 HEAD_SIZE = commit_version rt_fota_crc_init h
    \<and> (\<exists>m1. changes_within app_part (sectors (length fw) * 4096) m m1 \<and> changes_within download_part HEAD_SIZE m1 (flash_mem s))"
proof -
  let ?fm = RT_FOTA_FM_PART_NAME and ?N = "sectors (length fw) * 4096" and ?L = "unat (part_len download_part)"
  note img = new_image_valid[OF assms(3), folded h_def]
  have n: "length dv < 24" "length cv < 24" "c_str (char_array 24 dv) \<noteq> c_str (char_array 24 cv)"
    "0 < raw" "raw \<le> 0x168000" "length fw < 0x167000" "sectors raw = sectors (length fw)"
    using assms(3) by (simp_all add: new_image_def)
  obtain s2 where s2: "rt_fota_part_fw_verify e (Some ?fm) (ready m) = (RT_FOTA_NO_ERR, s2)"
    "flash_mem s2 = m" "fal s2 = fal_ready" "crc_tab s2 = rt_fota_crc_init" "fota_part_head s2 = h"
    using verify_correct[OF rom_nor_frame[OF assms(1)], of "ready m" ?fm download_part] img assms(2) ready_find(1)
      demo_download(3) by auto
  have chk: "rt_fota_check_upgrade s2 = 1"
    using n by (simp add: rt_fota_check_upgrade_def s2(5) h_def pack_head_fields)
  have up: "upgradable e ?fm download_part app_part s2"
    by (rule upgradable_pack[OF n(4-7) assms(1,2)]) (simp_all add: s2 ready_find h_def)
  have algo: "hd_fota_algo h = 0"
    by (simp add: hd_fota_algo_def h_def pack_head_def Let_def bytes_of_string_def)
  obtain s3 where s3: "rt_fota_upgrade e (Some ?fm) s2 = Some (RT_FOTA_NO_ERR, s3)" "keeps app_part s2 s3"
    "part_bytes (flash_mem s3) app_part 0 ?N = part_bytes m download_part HEAD_SIZE ?N"
    "changes_within app_part ?N m (flash_mem s3)"
    using upgrade_uncompressed[OF up] img(5) by (auto simp: s2 algo head_ctx_def plain_def)
  have dl: "part_bytes (flash_mem s3) download_part 0 ?L = part_bytes m download_part 0 ?L"
    using only_changesD[of app_part m "flash_mem s3" download_part 0 ?L] s3(2) s2(2) demo_download(3) app_download_parts(2)
    by (simp add: keeps_def)
  note v3 = fw_valid_cong[OF dl img(2)]
  obtain s4 where s4: "rt_fota_copy_version e ?fm s3 = Some (RT_FOTA_NO_ERR, s4)" "fal s4 = fal_ready"
    and B: "part_bytes (flash_mem s4) download_part 0 ?L =
        commit_version rt_fota_crc_init (part_bytes (flash_mem s3) download_part 0 ?L)"
    and only: "only_changes download_part (flash_mem s3) (flash_mem s4)"
    using copy_version_effect[OF assms(1), of s3 ?fm download_part] assms(2) s3(2) s2 ready_find(1) demo_download(3,4)
    by (auto simp: keeps_def)
  note v4 = commit_valid[OF _ v3(2) ready_table B]
  have "HEAD_SIZE \<le> ?L" using demo_download(4) by (simp add: HEAD_SIZE_def)
  then have within: "changes_within download_part HEAD_SIZE (flash_mem s3) (flash_mem s4)"
    by (rule commit_within[OF demo_download(3) _ only B])
  have "length fw \<le> ?N" "?N \<le> 0x168000"
    using n(6) sectors_ge[of "length fw"] sectors_le[of "length fw" 359] by auto
  then have "part_bytes (flash_mem s4) app_part 0 ?N = part_bytes m download_part HEAD_SIZE ?N"
    using only_changesD[OF only app_download_parts(1) _ app_download_parts(3), of 0 ?N] s3(3) app_download_parts(5) by simp
  from part_bytes_piece[OF this, of 0 "length fw"] part_bytes_piece[OF refl, of 0 "length fw" ?N m download_part HEAD_SIZE]
  have "part_bytes (flash_mem s4) app_part 0 (length fw) = fw"
    using \<open>length fw \<le> ?N\<close> img(4) by simp
  moreover have "rt_fota_thread_entry e (power_on m) = boot_entry e s4"
    by (simp add: rt_fota_thread_entry_def boot_verify_power_on s2(1) chk s3(1) s4(1))
  ultimately show ?thesis using s4(2) v4 v3(1,3) img(1,3) s3(4) within by (intro exI[of _ s4]) auto
qed

text \<open>A boot that finds the installed version in the download partition.\<close>

lemma settled_boot:
  assumes "rom_frame (env_rom e)" "\<forall>k. heap e k" "fw_valid fal_ready rt_fota_crc_init m download_part"
    and "image_fits m download_part" "part_bytes m download_part 0 HEAD_SIZE = h"
    and "c_str (hd_download_version h) = c_str (hd_current_version h)"
  shows "\<exists>s. rt_fota_thread_entry e (power_on m) = boot_entry e s \<and> fal s = fal_ready \<and> flash_mem s = m"
proof -
  obtain s2 where s2: "rt_fota_part_fw_verify e (Some RT_FOTA_FM_PART_NAME) (ready m) = (RT_FOTA_NO_ERR, s2)"
    "flash_mem s2 = m" "fal s2 = fal_ready" "fota_part_head s2 = h"
    using verify_correct[OF assms(1), of "ready m" RT_FOTA_FM_PART_NAME download_part] assms(2-5) ready_find(1)
      demo_download(3) by auto
  then have "rt_fota_check_upgrade s2 = 0" using assms(6) by (simp add: rt_fota_check_upgrade_def)
  with s2 show ?thesis by (auto simp: rt_fota_thread_entry_def boot_verify_power_on)
qed

section \<open>Properties\<close>

text \<open>
  C1: one power-on installs a new version and the next one does not repeat it. If the download partition holds an
  unencrypted, uncompressed image of another version, packed for the application partition, with a raw size of as many sectors as its body and
  an acceptable vector table, then on a working chip the boot thread started from
  reset ends with the new firmware running at its own stack pointer and entry point and lying
  in the application partition. The image in the download partition is still valid and names the new version in both fields;
  the sectors of the firmware and the header of the image are all that has changed in the flash. The same thread started on the
  resulting flash runs the same firmware and changes no byte of the flash.
\<close>

theorem rt_fota_boot_upgrades_once:
  assumes "rom_nor (env_rom e)" "\<forall>k. heap e k" "new_image m dv cv raw fw" "bootable fw"
  shows "\<exists>s1 s2 m1 h. rt_fota_thread_entry e (power_on m) = Running (get_le32 fw 0) (get_le32 fw 4) s1
    \<and> part_bytes (flash_mem s1) app_part 0 (length fw) = fw
    \<and> fw_valid fal_ready rt_fota_crc_init (flash_mem s1) download_part \<and> h = part_bytes (flash_mem s1) download_part 0 HEAD_SIZE
    \<and> c_str (hd_download_version h) = c_str (char_array 24 dv) \<and> c_str (hd_current_version h) = c_str (char_array 24 dv)
    \<and> changes_within app_part (sectors (length fw) * 4096) m m1 \<and> changes_within download_part HEAD_SIZE m1 (flash_mem s1)
    \<and> rt_fota_thread_entry e (power_on (flash_mem s1)) = Running (get_le32 fw 0) (get_le32 fw 4) s2
    \<and> flash_mem s2 = flash_mem s1"
proof -
  let ?h = "pack_head rt_fota_crc_init 0 ''app'' dv cv (of_nat raw) fw"
  obtain s1 m1 where s1: "rt_fota_thread_entry e (power_on m) = boot_entry e s1" "fal s1 = fal_ready"
    "part_bytes (flash_mem s1) app_part 0 (length fw) = fw"
    and v: "fw_valid fal_ready rt_fota_crc_init (flash_mem s1) download_part" "image_fits (flash_mem s1) download_part"
      "part_bytes (flash_mem s1) download_part 0 HEAD_SIZE = commit_version rt_fota_crc_init ?h"
    and only: "changes_within app_part (sectors (length fw) * 4096) m m1" "changes_within download_part HEAD_SIZE m1 (flash_mem s1)"
    using upgrade_boot[OF assms(1-3)] by blast
  have dv: "length dv < 24" using assms(3) by (simp add: new_image_def)
  then have "0 \<in> set (buf_read ?h 28 24)"
    by (simp add: pack_head_def Let_def buf_read_def char_array_def bytes_of_string_def)
  from commit_version_strings[OF _ this, of rt_fota_crc_init] have
    c: "c_str (hd_download_version (commit_version rt_fota_crc_init ?h)) = c_str (char_array 24 dv)"
      "c_str (hd_current_version (commit_version rt_fota_crc_init ?h)) = c_str (char_array 24 dv)"
    by (simp_all add: pack_head_fields(1,8) dv)
  then have "c_str (hd_download_version (commit_version rt_fota_crc_init ?h)) =
      c_str (hd_current_version (commit_version rt_fota_crc_init ?h))" by simp
  then obtain s2 where s2: "rt_fota_thread_entry e (power_on (flash_mem s1)) = boot_entry e s2" "fal s2 = fal_ready"
    "flash_mem s2 = flash_mem s1"
    using settled_boot[OF rom_nor_frame[OF assms(1)] assms(2) v] by blast
  have r1: "boot_entry e s1 = Running (get_le32 fw 0) (get_le32 fw 4) s1"
    using start_application_bootable[OF s1(2,3) assms(4)] by (simp add: boot_entry_def)
  have r2: "boot_entry e s2 = Running (get_le32 fw 0) (get_le32 fw 4) s2"
    using start_application_bootable[OF s2(2) _ assms(4)] s1(3) s2(3) by (simp add: boot_entry_def)
  show ?thesis using s1 v(1,3) c only s2 r1 r2
    by (intro exI[of _ s1] exI[of _ s2] exI[of _ m1] exI[of _ "commit_version rt_fota_crc_init ?h"]) simp
qed

definition demo_fw :: bytes where
  "demo_fw = [0x00, 0x10, 0x00, 0x20, 0x01, 0x81, 0x01, 0x01]"

definition demo_flash :: flash where
  "demo_flash = place download_part
     (pack_head rt_fota_crc_init 0 ''app'' ''2.0'' ''1.0'' (of_nat 8) demo_fw @ demo_fw) (\<lambda>_. 0xFF)"

lemma demo_fw_words: "get_le32 demo_fw 0 = 0x20001000" "get_le32 demo_fw 4 = 0x01018101" "length demo_fw = 8"
  by (simp_all add: demo_fw_def get_le32_def le32_def)

lemma demo_new:
  "new_image demo_flash ''2.0'' ''1.0'' 8 demo_fw" "bootable demo_fw"
  "rom_nor (env_rom demo_env)" "\<forall>k. heap demo_env k"
proof -
  have vers: "c_str (char_array 24 ''2.0'') \<noteq> c_str (char_array 24 ''1.0'')" by code_simp
  show "new_image demo_flash ''2.0'' ''1.0'' 8 demo_fw"
    using vers by (simp add: new_image_def demo_flash_def place_holds pack_head_fields(1) HEAD_SIZE_def demo_fw_words)
  show "bootable demo_fw" by (simp add: bootable_def demo_fw_words MH_SRAM_START_def)
  show "rom_nor (env_rom demo_env)" "\<forall>k. heap demo_env k" by (simp_all add: demo_env_def rom_nor_nor_rom)
qed

theorem rt_fota_boot_upgrades_once_witness:
  "\<exists>s1 s2. rt_fota_thread_entry demo_env (power_on demo_flash) = Running 0x20001000 0x01018101 s1
    \<and> part_bytes (flash_mem s1) app_part 0 8 = demo_fw
    \<and> rt_fota_thread_entry demo_env (power_on (flash_mem s1)) = Running 0x20001000 0x01018101 s2"
  using rt_fota_boot_upgrades_once[OF demo_new(3,4,1,2)] unfolding demo_fw_words by blast

text \<open>
  C19: control is only handed over after the vector table has been checked: whatever the flash and
  the allocator do, when the boot thread starts an application, its stack pointer and entry point are the first
  two words of the application partition, the entry point lies in the partition or is the first address behind it, and the stack
  pointer has the SRAM pattern.
\<close>

theorem rt_fota_boot_jump_checked:
  assumes "rt_fota_thread_entry e s = Running sp entry s'"
  shows "\<exists>part. fal_partition_find (fal s') RT_FOTA_APP_PART_NAME = Some part
    \<and> sp = flash_word (flash_mem s') (part_offset part + MH_FLASH_START_ADRESS)
    \<and> entry = flash_word (flash_mem s') (part_offset part + MH_FLASH_START_ADRESS + 4)
    \<and> part_offset part + MH_FLASH_START_ADRESS \<le> entry \<and> entry \<le> part_offset part + MH_FLASH_START_ADRESS + part_len part
    \<and> sp AND 0x2FF00000 = MH_SRAM_START"
proof (rule start_application_jump)
  show "rt_fota_start_application s' = Jump sp entry"
    using assms by (auto simp: rt_fota_thread_entry_def split: prod.splits option.splits if_splits dest: boot_entry_running)
qed

theorem rt_fota_boot_jump_checked_witness:
  "\<exists>s'. rt_fota_thread_entry demo_env (power_on demo_flash) = Running 0x20001000 0x01018101 s'
    \<and> (\<exists>part. fal_partition_find (fal s') RT_FOTA_APP_PART_NAME = Some part
      \<and> 0x20001000 = flash_word (flash_mem s') (part_offset part + MH_FLASH_START_ADRESS))"
proof -
  obtain s where s: "rt_fota_thread_entry demo_env (power_on demo_flash) = boot_entry demo_env s" "fal s = fal_ready"
    "part_bytes (flash_mem s) app_part 0 (length demo_fw) = demo_fw"
    using upgrade_boot[OF demo_new(3,4,1)] by blast
  then have "rt_fota_thread_entry demo_env (power_on demo_flash) = Running 0x20001000 0x01018101 s"
    using start_application_bootable[OF s(2,3) demo_new(2)] by (simp add: boot_entry_def demo_fw_words)
  with rt_fota_boot_jump_checked[OF this] show ?thesis by blast
qed

text \<open>
  A boot without a valid image leaves the flash as it was: from reset, if the image in the
  download partition is not valid, the boot thread does not crash, and it ends on exactly the flash it started with.
\<close>

theorem rt_fota_boot_invalid_image:
  assumes "rom_frame (env_rom e)" "\<forall>k. heap e k" "image_fits m download_part"
    and "\<not> fw_valid fal_ready rt_fota_crc_init m download_part"
  shows "\<exists>s. flash_mem s = m \<and>
    (rt_fota_thread_entry e (power_on m) = Halted s \<or> (\<exists>sp entry. rt_fota_thread_entry e (power_on m) = Running sp entry s))"
proof -
  obtain res s2 where s2: "rt_fota_part_fw_verify e (Some RT_FOTA_FM_PART_NAME) (ready m) = (res, s2)"
    "res \<noteq> RT_FOTA_NO_ERR" "flash_mem s2 = m" "fal s2 = fal_ready"
    using verify_correct[OF assms(1), of "ready m" RT_FOTA_FM_PART_NAME download_part] assms(2-4) ready_find(1)
      demo_download(3) by auto
  then have "rt_fota_thread_entry e (power_on m) = boot_entry e s2"
    by (simp add: rt_fota_thread_entry_def boot_verify_power_on)
  then show ?thesis
    using s2(3) boot_default_ready[OF s2(4), of e]
    by (cases "rt_fota_start_application s2") (auto simp: boot_entry_def intro: exI[of _ s2])
qed

theorem rt_fota_boot_invalid_image_witness:
  "\<exists>s. flash_mem s = (\<lambda>_. 0) \<and>
    (rt_fota_thread_entry demo_env (power_on (\<lambda>_. 0)) = Halted s
     \<or> (\<exists>sp entry. rt_fota_thread_entry demo_env (power_on (\<lambda>_. 0)) = Running sp entry s))"
proof -
  have h: "part_bytes (\<lambda>_. 0) download_part 0 HEAD_SIZE = replicate HEAD_SIZE 0"
    by (rule nth_equalityI) (simp_all add: part_bytes_def)
  have "c_str (replicate HEAD_SIZE 0) = []" by (simp add: c_str_def HEAD_SIZE_def numeral_eq_Suc)
  then have "\<not> fw_valid fal_ready rt_fota_crc_init (\<lambda>_. 0) download_part"
    by (simp add: fw_valid_def Let_def h hd_type_def bytes_of_string_def)
  moreover have "hd_com_size (replicate HEAD_SIZE 0) = 0"
    by (simp add: hd_com_size_def get_le32_def HEAD_SIZE_def le32_def)
  then have "image_fits (\<lambda>_. 0) download_part"
    using demo_download(4) unfolding image_fits_def h by (simp add: HEAD_SIZE_def sectors_def)
  ultimately show ?thesis
    by (intro rt_fota_boot_invalid_image demo_new(4)) (simp_all add: demo_env_def rom_frame_nor_rom)
qed

text \<open>
  The fallback image can never be used: the default partition \<^verbatim>\<open>df_area\<close> is not in the partition table that
  \<^verbatim>\<open>fal_init\<close> installs, so for every content of the flash the fallback path ends without starting anything.
\<close>

theorem boot_default_never_boots:
  assumes "fal s = snd (fal_init r fal_reset)"
  shows "boot_default e s = Halted (s\<lparr>fota_part_head := replicate HEAD_SIZE 0\<rparr>)"
  using assms by (intro boot_default_ready) (simp add: fal_init_reset fal_ready_def)

theorem boot_default_never_boots_witness:
  "boot_default demo_env demo_sys = Halted (demo_sys\<lparr>fota_part_head := replicate HEAD_SIZE 0\<rparr>)"
  by (rule boot_default_never_boots[of demo_sys nor_rom]) (simp add: demo_sys_def)

text \<open>
  The upper end of the range is not excluded: an entry point at the first address behind the application partition,
  which is the first cell of the partition that follows, is accepted and the application is started there.
\<close>

theorem rt_fota_start_application_entry_behind:
  assumes "fal s = snd (fal_init r fal_reset)" "sp AND 0x2FF00000 = MH_SRAM_START" "entry = 0x1180000"
    and "part_bytes (flash_mem s) app_part 0 8 = le32_bytes sp @ le32_bytes entry"
  shows "rt_fota_start_application s = Jump sp entry"
    "entry = part_offset app_part + MH_FLASH_START_ADRESS + part_len app_part"
proof -
  let ?fw = "le32_bytes sp @ le32_bytes entry"
  have w: "get_le32 ?fw 0 = sp" "get_le32 ?fw 4 = entry"
    using get_le32_at[of ?fw "[]" sp "le32_bytes entry" 0] get_le32_at[of ?fw "le32_bytes sp" entry "[]" 4]
    by simp_all
  moreover have "bootable ?fw" using assms(2,3) w by (simp add: bootable_def)
  moreover have "fal s = fal_ready" using assms(1) by (simp add: fal_init_reset fal_ready_def)
  ultimately show "rt_fota_start_application s = Jump sp entry"
    using start_application_bootable[of s ?fw] assms(4) by simp
  show "entry = part_offset app_part + MH_FLASH_START_ADRESS + part_len app_part"
    by (simp add: assms(3) app_part_def mk_part_def MH_FLASH_START_ADRESS_def)
qed

theorem rt_fota_start_application_entry_behind_witness:
  "rt_fota_start_application (demo_sys\<lparr>flash_mem :=
     place app_part (le32_bytes 0x20001000 @ le32_bytes 0x1180000) (\<lambda>_. 0xFF)\<rparr>) = Jump 0x20001000 0x1180000"
proof (rule rt_fota_start_application_entry_behind(1)[of _ nor_rom])
  let ?fw = "le32_bytes 0x20001000 @ le32_bytes 0x1180000"
  have "holds_image (place app_part ?fw (\<lambda>_. 0xFF)) app_part ?fw" by (rule place_holds) simp
  then show "part_bytes (flash_mem (demo_sys\<lparr>flash_mem := place app_part ?fw (\<lambda>_. 0xFF)\<rparr>)) app_part 0 8 = ?fw"
    by (simp add: holds_image_def)
qed (simp_all add: demo_sys_def MH_SRAM_START_def)

text \<open>
  The stack check tests a bit pattern, not a range: a vector table whose initial stack pointer
  is F0000000, far outside the SRAM at 20000000, passes it and the application is started with it.
\<close>

theorem rt_fota_start_application_stack_outside_sram:
  assumes "fal s = snd (fal_init r fal_reset)" "0x1018000 \<le> entry" "entry \<le> 0x1180000"
    and "part_bytes (flash_mem s) app_part 0 8 = le32_bytes 0xF0000000 @ le32_bytes entry"
  shows "rt_fota_start_application s = Jump 0xF0000000 entry"
proof -
  let ?fw = "le32_bytes 0xF0000000 @ le32_bytes entry"
  have w: "get_le32 ?fw 0 = 0xF0000000" "get_le32 ?fw 4 = entry"
    using get_le32_at[of ?fw "[]" "0xF0000000" "le32_bytes entry" 0] get_le32_at[of ?fw "le32_bytes 0xF0000000" entry "[]" 4]
    by simp_all
  moreover have "bootable ?fw" using assms(2,3) w by (simp add: bootable_def MH_SRAM_START_def)
  moreover have "fal s = fal_ready" using assms(1) by (simp add: fal_init_reset fal_ready_def)
  ultimately show ?thesis
    using start_application_bootable[of s ?fw] assms(4) by simp
qed

theorem rt_fota_start_application_stack_outside_sram_witness:
  "rt_fota_start_application (demo_sys\<lparr>flash_mem :=
     place app_part (le32_bytes 0xF0000000 @ le32_bytes 0x1018101) (\<lambda>_. 0xFF)\<rparr>) = Jump 0xF0000000 0x1018101"
proof (rule rt_fota_start_application_stack_outside_sram[of _ nor_rom])
  let ?fw = "le32_bytes 0xF0000000 @ le32_bytes 0x1018101"
  have "holds_image (place app_part ?fw (\<lambda>_. 0xFF)) app_part ?fw" by (rule place_holds) simp
  then show "part_bytes (flash_mem (demo_sys\<lparr>flash_mem := place app_part ?fw (\<lambda>_. 0xFF)\<rparr>)) app_part 0 8 = ?fw"
    by (simp add: holds_image_def)
qed (simp_all add: demo_sys_def)

end
