(* ===== verification/Ringbuffer.thy ===== *)
theory Ringbuffer
  imports Prelude
begin

text \<open>
  \<^verbatim>\<open>rt-thread/components/drivers/src/ringbuffer.c\<close>: the byte ring buffer that the serial drivers and
  the Ymodem transfer use. The two indices are below \<^verbatim>\<open>buffer_size\<close>, which is a positive 16-bit integer, so they are
  natural numbers that do not overflow their 15 bits; the one-bit mirrors are Booleans. A data
  argument \<^verbatim>\<open>(ptr, length)\<close> is the list of its bytes.

  The locale \<^verbatim>\<open>byte_fifo\<close> is the contract of a bounded queue of bytes; the ring buffer is
  an interpretation of it.
\<close>

section \<open>Model\<close>

definition RT_ALIGN_SIZE :: nat where "RT_ALIGN_SIZE = 4"

record rt_ringbuffer =
  buffer_ptr :: bytes
  read_mirror :: bool
  read_index :: nat
  write_mirror :: bool
  write_index :: nat
  buffer_size :: nat

datatype rt_ringbuffer_state = RT_RINGBUFFER_EMPTY | RT_RINGBUFFER_FULL | RT_RINGBUFFER_HALFFULL

definition rt_ringbuffer_status :: "rt_ringbuffer \<Rightarrow> rt_ringbuffer_state" where
  "rt_ringbuffer_status rb =
     (if read_index rb = write_index rb then
        (if read_mirror rb = write_mirror rb then RT_RINGBUFFER_EMPTY else RT_RINGBUFFER_FULL)
      else RT_RINGBUFFER_HALFFULL)"

definition rt_ringbuffer_init :: "bytes \<Rightarrow> nat \<Rightarrow> rt_ringbuffer" where
  "rt_ringbuffer_init pool n = \<lparr>
     buffer_ptr = pool, read_mirror = False, read_index = 0, write_mirror = False, write_index = 0,
     buffer_size = n - n mod RT_ALIGN_SIZE\<rparr>"

definition rt_ringbuffer_data_len :: "rt_ringbuffer \<Rightarrow> nat" where
  "rt_ringbuffer_data_len rb =
     (case rt_ringbuffer_status rb of
        RT_RINGBUFFER_EMPTY \<Rightarrow> 0
      | RT_RINGBUFFER_FULL \<Rightarrow> buffer_size rb
      | RT_RINGBUFFER_HALFFULL \<Rightarrow>
          let wi = write_index rb; ri = read_index rb
          in if wi > ri then wi - ri else buffer_size rb - (ri - wi))"

definition rt_ringbuffer_space_len :: "rt_ringbuffer \<Rightarrow> nat" where
  "rt_ringbuffer_space_len rb = buffer_size rb - rt_ringbuffer_data_len rb"

text \<open>The one or two \<^verbatim>\<open>memcpy\<close> into, and out of, the buffer.\<close>

definition ring_write :: "rt_ringbuffer \<Rightarrow> bytes \<Rightarrow> bytes" where
  "ring_write rb d =
     (let rest = buffer_size rb - write_index rb
      in if rest > length d then buf_write (buffer_ptr rb) (write_index rb) d
         else buf_write (buf_write (buffer_ptr rb) (write_index rb) (take rest d)) 0 (drop rest d))"

definition ring_read :: "rt_ringbuffer \<Rightarrow> nat \<Rightarrow> bytes" where
  "ring_read rb n =
     (let rest = buffer_size rb - read_index rb
      in if rest > n then buf_read (buffer_ptr rb) (read_index rb) n
         else buf_read (buffer_ptr rb) (read_index rb) rest @ buf_read (buffer_ptr rb) 0 (n - rest))"

definition rt_ringbuffer_put :: "bytes \<Rightarrow> rt_ringbuffer \<Rightarrow> nat \<times> rt_ringbuffer" where
  "rt_ringbuffer_put ptr rb =
     (let sz = rt_ringbuffer_space_len rb
      in if sz = 0 then (0, rb)
         else let d = (if sz < length ptr then take sz ptr else ptr); n = length d;
                  rest = buffer_size rb - write_index rb; rb1 = rb\<lparr>buffer_ptr := ring_write rb d\<rparr>
              in if rest > n then (n, rb1\<lparr>write_index := write_index rb + n\<rparr>)
                 else (n, rb1\<lparr>write_mirror := \<not> write_mirror rb, write_index := n - rest\<rparr>))"

definition rt_ringbuffer_put_force :: "bytes \<Rightarrow> rt_ringbuffer \<Rightarrow> nat \<times> rt_ringbuffer" where
  "rt_ringbuffer_put_force ptr rb =
     (let space_length = rt_ringbuffer_space_len rb;
          d = (if length ptr > buffer_size rb then drop (length ptr - buffer_size rb) ptr else ptr); n = length d;
          rest = buffer_size rb - write_index rb; rb1 = rb\<lparr>buffer_ptr := ring_write rb d\<rparr>
      in if rest > n then
           let rb2 = rb1\<lparr>write_index := write_index rb + n\<rparr>
           in (n, if n > space_length then rb2\<lparr>read_index := write_index rb2\<rparr> else rb2)
         else
           let rb2 = rb1\<lparr>write_mirror := \<not> write_mirror rb, write_index := n - rest\<rparr>
           in (n, if n > space_length then
                    (if write_index rb2 \<le> read_index rb2
                     then rb2\<lparr>read_mirror := \<not> read_mirror rb2, read_index := write_index rb2\<rparr>
                     else rb2\<lparr>read_index := write_index rb2\<rparr>)
                  else rb2))"

definition rt_ringbuffer_get :: "nat \<Rightarrow> rt_ringbuffer \<Rightarrow> bytes \<times> rt_ringbuffer" where
  "rt_ringbuffer_get len rb =
     (let sz = rt_ringbuffer_data_len rb
      in if sz = 0 then ([], rb)
         else let n = (if sz < len then sz else len); rest = buffer_size rb - read_index rb; d = ring_read rb n
              in if rest > n then (d, rb\<lparr>read_index := read_index rb + n\<rparr>)
                 else (d, rb\<lparr>read_mirror := \<not> read_mirror rb, read_index := n - rest\<rparr>))"

text \<open>\<^verbatim>\<open>rt_ringbuffer_peak\<close>: the size, and the index that \<^verbatim>\<open>*ptr\<close> points to.\<close>

definition rt_ringbuffer_peak :: "rt_ringbuffer \<Rightarrow> nat \<times> nat option \<times> rt_ringbuffer" where
  "rt_ringbuffer_peak rb =
     (let sz = rt_ringbuffer_data_len rb; rest = buffer_size rb - read_index rb
      in if sz = 0 then (0, None, rb)
         else if rest > sz then (sz, Some (read_index rb), rb\<lparr>read_index := read_index rb + sz\<rparr>)
         else (rest, Some (read_index rb), rb\<lparr>read_mirror := \<not> read_mirror rb, read_index := 0\<rparr>))"

definition rt_ringbuffer_putchar :: "u8 \<Rightarrow> rt_ringbuffer \<Rightarrow> nat \<times> rt_ringbuffer" where
  "rt_ringbuffer_putchar ch rb =
     (if rt_ringbuffer_space_len rb = 0 then (0, rb)
      else let rb1 = rb\<lparr>buffer_ptr := (buffer_ptr rb)[write_index rb := ch]\<rparr>
           in if write_index rb = buffer_size rb - 1
              then (1, rb1\<lparr>write_mirror := \<not> write_mirror rb, write_index := 0\<rparr>)
              else (1, rb1\<lparr>write_index := write_index rb + 1\<rparr>))"

definition rt_ringbuffer_putchar_force :: "u8 \<Rightarrow> rt_ringbuffer \<Rightarrow> nat \<times> rt_ringbuffer" where
  "rt_ringbuffer_putchar_force ch rb =
     (let old_state = rt_ringbuffer_status rb;
          rb1 = rb\<lparr>buffer_ptr := (buffer_ptr rb)[write_index rb := ch]\<rparr>
      in if write_index rb = buffer_size rb - 1 then
           let rb2 = rb1\<lparr>write_mirror := \<not> write_mirror rb, write_index := 0\<rparr>
           in (1, if old_state = RT_RINGBUFFER_FULL
                  then rb2\<lparr>read_mirror := \<not> read_mirror rb, read_index := 0\<rparr> else rb2)
         else
           let rb2 = rb1\<lparr>write_index := write_index rb + 1\<rparr>
           in (1, if old_state = RT_RINGBUFFER_FULL then rb2\<lparr>read_index := write_index rb2\<rparr> else rb2))"

definition rt_ringbuffer_getchar :: "rt_ringbuffer \<Rightarrow> u8 option \<times> rt_ringbuffer" where
  "rt_ringbuffer_getchar rb =
     (if rt_ringbuffer_data_len rb = 0 then (None, rb)
      else (Some (buffer_ptr rb ! read_index rb),
            if read_index rb = buffer_size rb - 1
            then rb\<lparr>read_mirror := \<not> read_mirror rb, read_index := 0\<rparr>
            else rb\<lparr>read_index := read_index rb + 1\<rparr>))"

definition rt_ringbuffer_reset :: "rt_ringbuffer \<Rightarrow> rt_ringbuffer" where
  "rt_ringbuffer_reset rb =
     rb\<lparr>read_mirror := False, read_index := 0, write_mirror := False, write_index := 0\<rparr>"

definition rt_ringbuffer_get_size :: "rt_ringbuffer \<Rightarrow> nat" where
  "rt_ringbuffer_get_size rb = buffer_size rb"

section \<open>Abstraction\<close>

definition wrap :: "nat \<Rightarrow> nat \<Rightarrow> nat" where
  "wrap n k = (if k < n then k else k - n)"

definition rb_inv :: "rt_ringbuffer \<Rightarrow> bool" where
  "rb_inv rb \<longleftrightarrow> 0 < buffer_size rb \<and> buffer_size rb \<le> length (buffer_ptr rb) \<and>
     read_index rb < buffer_size rb \<and> write_index rb < buffer_size rb \<and>
     (if read_mirror rb = write_mirror rb then read_index rb \<le> write_index rb else write_index rb \<le> read_index rb)"

definition contents :: "rt_ringbuffer \<Rightarrow> bytes" where
  "contents rb = map (\<lambda>i. buffer_ptr rb ! wrap (buffer_size rb) (read_index rb + i)) [0..<rt_ringbuffer_data_len rb]"

lemma length_contents [simp]: "length (contents rb) = rt_ringbuffer_data_len rb"
  by (simp add: contents_def)

text \<open>The indices are \<open>data_len\<close> apart, and the mirrors tell whether the data wraps.\<close>

lemma data_len_cases:
  assumes "rb_inv rb"
  shows "rt_ringbuffer_data_len rb =
    (if read_mirror rb = write_mirror rb then write_index rb - read_index rb
     else buffer_size rb + write_index rb - read_index rb)"
  using assms by (auto simp: rb_inv_def rt_ringbuffer_data_len_def rt_ringbuffer_status_def Let_def split: if_splits)

lemma write_index_wrap:
  assumes "rb_inv rb"
  shows "write_index rb = wrap (buffer_size rb) (read_index rb + rt_ringbuffer_data_len rb)"
    "rt_ringbuffer_data_len rb \<le> buffer_size rb"
  using assms by (auto simp: data_len_cases[OF assms] wrap_def rb_inv_def split: if_splits)

lemma nth_ring_write:
  assumes "write_index rb < buffer_size rb" "buffer_size rb \<le> length (buffer_ptr rb)" "length d \<le> buffer_size rb"
    and "k < buffer_size rb"
  shows "ring_write rb d ! k =
    (let j = (if write_index rb \<le> k then k - write_index rb else k + buffer_size rb - write_index rb)
     in if j < length d then d ! j else buffer_ptr rb ! k)"
  using assms by (auto simp: ring_write_def Let_def nth_buf_write min_def add.commute)

lemma length_ring_write [simp]:
  assumes "write_index rb < buffer_size rb" "buffer_size rb \<le> length (buffer_ptr rb)" "length d \<le> buffer_size rb"
  shows "length (ring_write rb d) = length (buffer_ptr rb)"
  using assms by (auto simp: ring_write_def Let_def)

lemma ring_read_contents:
  assumes "rb_inv rb" "n \<le> rt_ringbuffer_data_len rb"
  shows "ring_read rb n = take n (contents rb)"
  using assms write_index_wrap[OF assms(1)]
  by (intro nth_equalityI) (auto simp: ring_read_def contents_def Let_def rb_inv_def wrap_def nth_append min_def
      add.commute)

text \<open>Moving the write index and the read index on by \<open>n\<close>, as every operation does.\<close>

definition adv_write :: "nat \<Rightarrow> rt_ringbuffer \<Rightarrow> rt_ringbuffer" where
  "adv_write n rb =
     (let rest = buffer_size rb - write_index rb
      in if rest > n then rb\<lparr>write_index := write_index rb + n\<rparr>
         else rb\<lparr>write_mirror := \<not> write_mirror rb, write_index := n - rest\<rparr>)"

definition adv_read :: "nat \<Rightarrow> rt_ringbuffer \<Rightarrow> rt_ringbuffer" where
  "adv_read n rb =
     (let rest = buffer_size rb - read_index rb
      in if rest > n then rb\<lparr>read_index := read_index rb + n\<rparr>
         else rb\<lparr>read_mirror := \<not> read_mirror rb, read_index := n - rest\<rparr>)"

lemma adv_write_inv:
  assumes "rb_inv rb" "n \<le> rt_ringbuffer_space_len rb"
  shows "rb_inv (adv_write n rb)" "rt_ringbuffer_data_len (adv_write n rb) = rt_ringbuffer_data_len rb + n"
    "read_index (adv_write n rb) = read_index rb" "buffer_size (adv_write n rb) = buffer_size rb"
    "buffer_ptr (adv_write n rb) = buffer_ptr rb"
proof -
  have "n \<le> buffer_size rb - (if read_mirror rb = write_mirror rb then write_index rb - read_index rb
      else buffer_size rb + write_index rb - read_index rb)"
    using assms by (simp add: rt_ringbuffer_space_len_def data_len_cases)
  with assms(1) show inv: "rb_inv (adv_write n rb)"
    by (auto simp: rb_inv_def adv_write_def Let_def split: if_splits)
  show "rt_ringbuffer_data_len (adv_write n rb) = rt_ringbuffer_data_len rb + n"
    using assms unfolding data_len_cases[OF inv] data_len_cases[OF assms(1)] rt_ringbuffer_space_len_def
    by (auto simp: rb_inv_def adv_write_def Let_def split: if_splits)
qed (simp_all add: adv_write_def Let_def)

lemma adv_read_inv:
  assumes "rb_inv rb" "n \<le> rt_ringbuffer_data_len rb"
  shows "rb_inv (adv_read n rb)" "rt_ringbuffer_data_len (adv_read n rb) = rt_ringbuffer_data_len rb - n"
    "read_index (adv_read n rb) = wrap (buffer_size rb) (read_index rb + n)"
    "buffer_size (adv_read n rb) = buffer_size rb" "buffer_ptr (adv_read n rb) = buffer_ptr rb"
proof -
  show inv: "rb_inv (adv_read n rb)"
    using assms unfolding data_len_cases[OF assms(1)]
    by (auto simp: rb_inv_def adv_read_def Let_def split: if_splits)
  show "rt_ringbuffer_data_len (adv_read n rb) = rt_ringbuffer_data_len rb - n"
    using assms unfolding data_len_cases[OF inv] data_len_cases[OF assms(1)]
    by (auto simp: rb_inv_def adv_read_def Let_def split: if_splits)
  show "read_index (adv_read n rb) = wrap (buffer_size rb) (read_index rb + n)"
    using assms(1) by (auto simp: rb_inv_def adv_read_def wrap_def Let_def)
qed (simp_all add: adv_read_def Let_def)

lemma contents_adv_read:
  assumes "rb_inv rb" "n \<le> rt_ringbuffer_data_len rb"
  shows "contents (adv_read n rb) = drop n (contents rb)"
proof -
  note a = adv_read_inv[OF assms] and w = write_index_wrap[OF assms(1)]
  have "wrap (buffer_size rb) (wrap (buffer_size rb) (read_index rb + n) + i) = wrap (buffer_size rb) (read_index rb + n + i)"
    if "i < rt_ringbuffer_data_len rb - n" for i
    using that w(2) assms(1) by (auto simp: wrap_def rb_inv_def)
  then show ?thesis by (intro nth_equalityI) (auto simp: contents_def a less_diff_conv ac_simps)
qed

lemma inv_buffer: "rb_inv rb \<Longrightarrow> length b = length (buffer_ptr rb) \<Longrightarrow> rb_inv (rb\<lparr>buffer_ptr := b\<rparr>)"
  by (simp add: rb_inv_def)

lemma data_len_buffer [simp]: "rt_ringbuffer_data_len (rb\<lparr>buffer_ptr := b\<rparr>) = rt_ringbuffer_data_len rb"
  by (simp add: rt_ringbuffer_data_len_def rt_ringbuffer_status_def Let_def)

lemma contents_write:
  assumes "rb_inv rb" "length d \<le> rt_ringbuffer_space_len rb"
  defines "rb' \<equiv> adv_write (length d) (rb\<lparr>buffer_ptr := ring_write rb d\<rparr>)"
  shows "rb_inv rb'" "contents rb' = contents rb @ d" "buffer_size rb' = buffer_size rb"
proof -
  let ?rb = "rb\<lparr>buffer_ptr := ring_write rb d\<rparr>" and ?n = "rt_ringbuffer_data_len rb"
  have bnd: "write_index rb < buffer_size rb" "buffer_size rb \<le> length (buffer_ptr rb)" "length d \<le> buffer_size rb"
    "read_index rb < buffer_size rb"
    using assms(1,2) by (auto simp: rb_inv_def rt_ringbuffer_space_len_def)
  have inv: "rb_inv ?rb" using assms(1) bnd by (intro inv_buffer) simp_all
  have sp: "length d \<le> rt_ringbuffer_space_len ?rb" using assms(2) by (simp add: rt_ringbuffer_space_len_def)
  note a = adv_write_inv[OF inv sp, folded rb'_def]
  show "rb_inv rb'" "buffer_size rb' = buffer_size rb" using a by simp_all
  have w: "write_index rb = wrap (buffer_size rb) (read_index rb + ?n)" "?n + length d \<le> buffer_size rb"
    using write_index_wrap[OF assms(1)] assms(2) by (auto simp: rt_ringbuffer_space_len_def)
  have "ring_write rb d ! wrap (buffer_size rb) (read_index rb + i) = (contents rb @ d) ! i" if "i < ?n + length d" for i
    using that w bnd(4) by (subst nth_ring_write[OF bnd(1-3)])
      (auto simp: wrap_def Let_def nth_append contents_def intro!: arg_cong[of _ _ "nth d"])
  then show "contents rb' = contents rb @ d"
    by (intro nth_equalityI) (simp_all add: contents_def a)
qed

lemma put_adv:
  assumes "rb_inv rb"
  defines "d ptr \<equiv> take (rt_ringbuffer_space_len rb) ptr"
  shows "rt_ringbuffer_put ptr rb = (length (d ptr), adv_write (length (d ptr)) (rb\<lparr>buffer_ptr := ring_write rb (d ptr)\<rparr>))"
proof (cases "rt_ringbuffer_space_len rb = 0")
  case True
  have "write_index rb < buffer_size rb" using assms(1) by (simp add: rb_inv_def)
  then have "rb = adv_write 0 (rb\<lparr>buffer_ptr := ring_write rb []\<rparr>)"
    by (simp add: adv_write_def ring_write_def buf_write_def)
  with True show ?thesis by (simp add: rt_ringbuffer_put_def d_def)
next
  case False
  then show ?thesis by (simp add: rt_ringbuffer_put_def d_def adv_write_def Let_def min_def)
qed

lemma get_adv:
  assumes "rb_inv rb"
  shows "rt_ringbuffer_get k rb = (take k (contents rb), adv_read (min k (rt_ringbuffer_data_len rb)) rb)"
proof (cases "rt_ringbuffer_data_len rb = 0")
  case True
  then show ?thesis using assms by (simp add: rt_ringbuffer_get_def adv_read_def rb_inv_def contents_def)
next
  case False
  have "ring_read rb (min k (rt_ringbuffer_data_len rb)) = take k (contents rb)"
    using ring_read_contents[OF assms, of "min k (rt_ringbuffer_data_len rb)"] by (simp add: min_def)
  then show ?thesis using False by (simp add: rt_ringbuffer_get_def adv_read_def Let_def min_def split: if_splits)
qed

lemma put_spec:
  assumes "rb_inv rb" "rt_ringbuffer_put ptr rb = (n, rb')"
  shows "rb_inv rb'" "n = min (length ptr) (buffer_size rb - length (contents rb))"
    "contents rb' = contents rb @ take n ptr" "buffer_size rb' = buffer_size rb"
proof -
  let ?d = "take (rt_ringbuffer_space_len rb) ptr"
  have "length ?d \<le> rt_ringbuffer_space_len rb" by simp
  note c = contents_write[OF assms(1) this]
  have n: "n = length ?d" "rb' = adv_write (length ?d) (rb\<lparr>buffer_ptr := ring_write rb ?d\<rparr>)"
    using assms(2) unfolding put_adv[OF assms(1)] by auto
  show "rb_inv rb'" "contents rb' = contents rb @ take n ptr" "buffer_size rb' = buffer_size rb"
    using c by (simp_all add: n min_def)
  show "n = min (length ptr) (buffer_size rb - length (contents rb))"
    by (simp add: n rt_ringbuffer_space_len_def)
qed

lemma get_spec:
  assumes "rb_inv rb" "rt_ringbuffer_get k rb = (d, rb')"
  shows "rb_inv rb'" "d = take k (contents rb)" "contents rb' = drop k (contents rb)" "buffer_size rb' = buffer_size rb"
proof -
  have m: "min k (rt_ringbuffer_data_len rb) \<le> rt_ringbuffer_data_len rb" by simp
  have r: "d = take k (contents rb)" "rb' = adv_read (min k (rt_ringbuffer_data_len rb)) rb"
    using assms(2) unfolding get_adv[OF assms(1)] by auto
  show "rb_inv rb'" "d = take k (contents rb)" "buffer_size rb' = buffer_size rb"
    using adv_read_inv[OF assms(1) m] r by simp_all
  show "contents rb' = drop k (contents rb)"
    using contents_adv_read[OF assms(1) m] by (simp add: r min_def)
qed

section \<open>The queue contract\<close>

text \<open>A bounded byte queue: what the drivers rely on.\<close>

locale byte_fifo =
  fixes inv :: "'s \<Rightarrow> bool" and elems :: "'s \<Rightarrow> bytes" and cap :: "'s \<Rightarrow> nat"
    and put :: "bytes \<Rightarrow> 's \<Rightarrow> nat \<times> 's" and get :: "nat \<Rightarrow> 's \<Rightarrow> bytes \<times> 's"
  assumes put_inv: "inv s \<Longrightarrow> put d s = (n, s') \<Longrightarrow> inv s' \<and> cap s' = cap s"
    and put_elems: "inv s \<Longrightarrow> put d s = (n, s') \<Longrightarrow>
      n = min (length d) (cap s - length (elems s)) \<and> elems s' = elems s @ take n d"
    and get_inv: "inv s \<Longrightarrow> get k s = (d, s') \<Longrightarrow> inv s' \<and> cap s' = cap s"
    and get_elems: "inv s \<Longrightarrow> get k s = (d, s') \<Longrightarrow> d = take k (elems s) \<and> elems s' = drop k (elems s)"

text \<open>
  A history of calls: the bytes that were accepted, the bytes that were delivered, and the final state.
\<close>

datatype fifo_call = Put bytes | Get nat

fun run_calls ::
  "(bytes \<Rightarrow> 's \<Rightarrow> nat \<times> 's) \<Rightarrow> (nat \<Rightarrow> 's \<Rightarrow> bytes \<times> 's) \<Rightarrow> fifo_call list \<Rightarrow> 's \<Rightarrow> bytes \<times> bytes \<times> 's" where
  "run_calls put get [] s = ([], [], s)"
| "run_calls put get (Put d # cs) s =
     (case put d s of (n, s1) \<Rightarrow>
      case run_calls put get cs s1 of (acc, del, s2) \<Rightarrow> (take n d @ acc, del, s2))"
| "run_calls put get (Get k # cs) s =
     (case get k s of (d, s1) \<Rightarrow>
      case run_calls put get cs s1 of (acc, del, s2) \<Rightarrow> (acc, d @ del, s2))"

context byte_fifo
begin

lemma run_fifo:
  "inv s \<Longrightarrow> run_calls put get cs s = (acc, del, s') \<Longrightarrow> inv s' \<and> cap s' = cap s \<and> elems s @ acc = del @ elems s'"
proof (induction cs arbitrary: s acc del s')
  case (Cons c cs)
  show ?case
  proof (cases c)
    case (Put d)
    obtain n s1 where p: "put d s = (n, s1)" by fastforce
    obtain acc1 del1 s2 where r: "run_calls put get cs s1 = (acc1, del1, s2)" by (metis prod_cases3)
    from Cons.IH[OF _ r] put_inv[OF Cons.prems(1) p] put_elems[OF Cons.prems(1) p] Cons.prems(2) Put p r
    show ?thesis by auto
  next
    case (Get k)
    obtain d s1 where g: "get k s = (d, s1)" by fastforce
    obtain acc1 del1 s2 where r: "run_calls put get cs s1 = (acc1, del1, s2)" by (metis prod_cases3)
    from Cons.IH[OF _ r] get_inv[OF Cons.prems(1) g] get_elems[OF Cons.prems(1) g] Cons.prems(2) Get g r
    show ?thesis by auto (metis append_take_drop_id append.assoc)
  qed
qed simp

end

interpretation rb: byte_fifo rb_inv contents buffer_size rt_ringbuffer_put rt_ringbuffer_get
proof unfold_locales
  fix s s' :: rt_ringbuffer and d :: bytes and n k :: nat
  show "rb_inv s' \<and> buffer_size s' = buffer_size s" if "rb_inv s" "rt_ringbuffer_put d s = (n, s')"
    using put_spec[OF that] by simp
  show "n = min (length d) (buffer_size s - length (contents s)) \<and> contents s' = contents s @ take n d"
    if "rb_inv s" "rt_ringbuffer_put d s = (n, s')"
    using put_spec[OF that] by blast
  show "rb_inv s' \<and> buffer_size s' = buffer_size s" if "rb_inv s" "rt_ringbuffer_get k s = (d, s')"
    using get_spec[OF that] by simp
  show "d = take k (contents s) \<and> contents s' = drop k (contents s)" if "rb_inv s" "rt_ringbuffer_get k s = (d, s')"
    using get_spec[OF that] by simp
qed

section \<open>The other operations\<close>

lemma ring_write_single:
  "write_index rb < buffer_size rb \<Longrightarrow> buffer_size rb \<le> length (buffer_ptr rb) \<Longrightarrow>
   ring_write rb [ch] = (buffer_ptr rb)[write_index rb := ch]"
  by (auto simp: ring_write_def Let_def buf_write_def upd_conv_take_nth_drop)

lemma putchar_put: "rb_inv rb \<Longrightarrow> rt_ringbuffer_putchar ch rb = rt_ringbuffer_put [ch] rb"
  by (auto simp: rt_ringbuffer_putchar_def rt_ringbuffer_put_def Let_def rb_inv_def ring_write_single)

lemma getchar_get:
  assumes "rb_inv rb"
  shows "rt_ringbuffer_getchar rb =
    (case rt_ringbuffer_get 1 rb of (d, rb') \<Rightarrow> (if d = [] then None else Some (hd d), rb'))"
proof (cases "rt_ringbuffer_data_len rb = 0")
  case True
  then show ?thesis by (simp add: rt_ringbuffer_getchar_def rt_ringbuffer_get_def)
next
  case False
  then have "ring_read rb 1 = [buffer_ptr rb ! read_index rb]"
    using assms ring_read_contents[of rb 1] by (simp add: contents_def rb_inv_def wrap_def take_map take_upt)
  with False assms show ?thesis
    by (auto simp: rt_ringbuffer_getchar_def rt_ringbuffer_get_def Let_def rb_inv_def)
qed

lemma nth_ring_write_wrap:
  assumes "write_index rb < buffer_size rb" "buffer_size rb \<le> length (buffer_ptr rb)" "length d \<le> buffer_size rb"
    and "j < buffer_size rb"
  shows "ring_write rb d ! wrap (buffer_size rb) (write_index rb + j) =
    (if j < length d then d ! j else buffer_ptr rb ! wrap (buffer_size rb) (write_index rb + j))"
proof -
  have "wrap (buffer_size rb) (write_index rb + j) < buffer_size rb" using assms(1,4) by (auto simp: wrap_def)
  from nth_ring_write[OF assms(1-3) this] assms(1,4) show ?thesis by (auto simp: wrap_def Let_def)
qed

lemma wrap_new: "w < S \<Longrightarrow> L \<le> S \<Longrightarrow> i < S \<Longrightarrow> S \<le> L + i \<Longrightarrow> wrap S (wrap S (w + L) + i) = wrap S (w + (L + i - S))"
  by (auto simp: wrap_def)

lemma wrap_old: "w < S \<Longrightarrow> L + i < S \<Longrightarrow> wrap S (wrap S (w + L) + i) = wrap S (w + (L + i))"
  by (auto simp: wrap_def)

lemma wrap_back: "r < S \<Longrightarrow> n \<le> S \<Longrightarrow> k < S \<Longrightarrow> S \<le> n + k \<Longrightarrow> wrap S (wrap S (r + n) + k) = wrap S (r + (n + k - S))"
  by (auto simp: wrap_def)

text \<open>Overwriting: the buffer ends up full with the last \<^verbatim>\<open>buffer_size\<close> bytes.\<close>

definition force_state :: "bytes \<Rightarrow> rt_ringbuffer \<Rightarrow> rt_ringbuffer" where
  "force_state d rb =
     (let w = adv_write (length d) (rb\<lparr>buffer_ptr := ring_write rb d\<rparr>)
      in w\<lparr>read_mirror := \<not> write_mirror w, read_index := write_index w\<rparr>)"

lemma force_state_spec:
  assumes "rb_inv rb" "length d \<le> buffer_size rb" "rt_ringbuffer_space_len rb < length d"
  shows "rb_inv (force_state d rb)" "buffer_size (force_state d rb) = buffer_size rb"
    "contents (force_state d rb) = drop (length (contents rb) + length d - buffer_size rb) (contents rb @ d)"
proof -
  let ?rb = "force_state d rb" and ?S = "buffer_size rb" and ?n = "rt_ringbuffer_data_len rb"
  let ?w = "wrap ?S (write_index rb + length d)"
  have bnd: "write_index rb < ?S" "?S \<le> length (buffer_ptr rb)" "length d \<le> ?S" "read_index rb < ?S"
    using assms(1,2) by (auto simp: rb_inv_def)
  have f: "write_index ?rb = ?w" "read_index ?rb = ?w" "read_mirror ?rb = (\<not> write_mirror ?rb)" "buffer_size ?rb = ?S"
    "buffer_ptr ?rb = ring_write rb d"
    using bnd by (auto simp: force_state_def adv_write_def Let_def wrap_def)
  then show "buffer_size ?rb = ?S" by simp
  show "rb_inv ?rb" using bnd f by (auto simp: rb_inv_def wrap_def)
  have len: "rt_ringbuffer_data_len ?rb = ?S"
    using f by (simp add: rt_ringbuffer_data_len_def rt_ringbuffer_status_def)
  have w: "write_index rb = wrap ?S (read_index rb + ?n)" "?n \<le> ?S" "?S < ?n + length d"
    using write_index_wrap[OF assms(1)] assms(3) by (auto simp: rt_ringbuffer_space_len_def)
  have "ring_write rb d ! wrap ?S (?w + i) = (contents rb @ d) ! (?n + length d - ?S + i)" if i: "i < ?S" for i
  proof (cases "?S \<le> length d + i")
    case True
    define j where "j = length d + i - ?S"
    have j: "j < length d" "j < ?S" "?n + length d - ?S + i = length (contents rb) + j"
      using True i w(3) bnd(3) by (auto simp: j_def)
    show ?thesis
      unfolding j(3) wrap_new[OF bnd(1,3) i True, folded j_def] nth_append_length_plus
      using nth_ring_write_wrap[OF bnd(1-3) j(2)] j(1) by simp
  next
    case False
    then have "wrap ?S (write_index rb + (length d + i)) = wrap ?S (read_index rb + (?n + length d - ?S + i))"
      using wrap_back[OF bnd(4) w(2), of "length d + i"] w by (simp add: add.assoc)
    moreover have "(contents rb @ d) ! (?n + length d - ?S + i) = buffer_ptr rb ! wrap ?S (read_index rb + (?n + length d - ?S + i))"
    proof -
      have "?n + length d - ?S + i < ?n" using False w(3) by linarith
      then show ?thesis by (simp only: nth_append length_contents if_True) (simp add: contents_def)
    qed
    ultimately show ?thesis
      using False nth_ring_write_wrap[OF bnd(1-3), of "length d + i"] wrap_old[OF bnd(1), of "length d" i]
      by simp
  qed
  then show "contents ?rb = drop (length (contents rb) + length d - ?S) (contents rb @ d)"
    using w by (intro nth_equalityI) (auto simp: contents_def[of ?rb] len f simp del: drop_append)
qed

text \<open>\<^verbatim>\<open>rt_ringbuffer_put_force\<close> is a plain write while there is space, and \<open>force_state\<close> when there is not.\<close>

lemma put_force_state:
  assumes "rb_inv rb"
  defines "d ptr \<equiv> drop (length ptr - buffer_size rb) ptr"
  shows "rt_ringbuffer_put_force ptr rb = (length (d ptr),
    if length (d ptr) > rt_ringbuffer_space_len rb then force_state (d ptr) rb
    else adv_write (length (d ptr)) (rb\<lparr>buffer_ptr := ring_write rb (d ptr)\<rparr>))"
proof -
  have d: "(if length ptr > buffer_size rb then drop (length ptr - buffer_size rb) ptr else ptr) = d ptr"
    by (simp add: d_def)
  have n: "length (d ptr) \<le> buffer_size rb" by (simp add: d_def)
  have sp: "rt_ringbuffer_space_len rb = (if read_mirror rb = write_mirror rb then buffer_size rb - (write_index rb - read_index rb)
      else read_index rb - write_index rb)"
    using assms(1) by (auto simp: rt_ringbuffer_space_len_def data_len_cases rb_inv_def)
  show ?thesis
    using assms(1) n unfolding rt_ringbuffer_put_force_def d
    by (auto simp: sp Let_def adv_write_def force_state_def rb_inv_def split: if_splits)
qed

lemma put_force_spec:
  assumes "rb_inv rb" "rt_ringbuffer_put_force ptr rb = (n, rb')"
  shows "rb_inv rb'" "n = min (length ptr) (buffer_size rb)" "buffer_size rb' = buffer_size rb"
    "contents rb' = drop (length (contents rb) + length ptr - buffer_size rb) (contents rb @ ptr)"
proof -
  let ?d = "drop (length ptr - buffer_size rb) ptr" and ?S = "buffer_size rb"
  have le: "length ?d \<le> ?S" "length (contents rb) \<le> ?S" using write_index_wrap(2)[OF assms(1)] by auto
  have n: "n = length ?d" "rb' = (if length ?d > rt_ringbuffer_space_len rb then force_state ?d rb
      else adv_write (length ?d) (rb\<lparr>buffer_ptr := ring_write rb ?d\<rparr>))"
    using assms(2) unfolding put_force_state[OF assms(1)] by auto
  show "n = min (length ptr) ?S" by (simp add: n)
  have all: "drop (length (contents rb) + length ptr - ?S) (contents rb @ ptr) =
      drop (length (contents rb) + length ?d - ?S) (contents rb @ ?d)"
    using le by (cases "length ptr \<le> ?S") auto
  show "rb_inv rb'" "buffer_size rb' = ?S" "contents rb' = drop (length (contents rb) + length ptr - ?S) (contents rb @ ptr)"
    using force_state_spec[OF assms(1) le(1)] contents_write[OF assms(1), of ?d] le unfolding all n
    by (auto simp: rt_ringbuffer_space_len_def)
qed

lemma putchar_force_put_force:
  assumes "rb_inv rb"
  shows "rt_ringbuffer_putchar_force ch rb = rt_ringbuffer_put_force [ch] rb"
proof -
  have full: "rt_ringbuffer_status rb = RT_RINGBUFFER_FULL \<longleftrightarrow> rt_ringbuffer_space_len rb = 0"
    using assms unfolding rt_ringbuffer_space_len_def data_len_cases[OF assms]
    by (auto simp: rt_ringbuffer_status_def rb_inv_def split: if_splits)
  have m: "read_mirror rb \<noteq> write_mirror rb" if "rt_ringbuffer_space_len rb = 0"
    using that unfolding full[symmetric] by (auto simp: rt_ringbuffer_status_def split: if_splits)
  have w: "write_index rb < buffer_size rb" "buffer_size rb \<le> length (buffer_ptr rb)" "0 < buffer_size rb"
    using assms by (auto simp: rb_inv_def)
  then have d: "drop (length [ch] - buffer_size rb) [ch] = [ch]"
    "write_index rb = buffer_size rb - 1 \<longleftrightarrow> \<not> buffer_size rb - write_index rb > 1" by auto
  show ?thesis
    unfolding put_force_state[OF assms] rt_ringbuffer_putchar_force_def d
    using m w full by (cases rb) (auto simp: Let_def adv_write_def force_state_def ring_write_single)
qed

lemma init_inv:
  assumes "RT_ALIGN_SIZE \<le> n" "n \<le> length pool"
  shows "rb_inv (rt_ringbuffer_init pool n)" "contents (rt_ringbuffer_init pool n) = []"
proof -
  have "n mod 4 < 4" by simp
  with assms have "n mod 4 < n" unfolding RT_ALIGN_SIZE_def by linarith
  with assms show "rb_inv (rt_ringbuffer_init pool n)"
    by (simp add: rb_inv_def rt_ringbuffer_init_def RT_ALIGN_SIZE_def)
  show "contents (rt_ringbuffer_init pool n) = []"
    by (simp add: contents_def rt_ringbuffer_init_def rt_ringbuffer_data_len_def rt_ringbuffer_status_def)
qed

lemma reset_inv: "rb_inv rb \<Longrightarrow> rb_inv (rt_ringbuffer_reset rb) \<and> contents (rt_ringbuffer_reset rb) = []"
  by (simp add: rb_inv_def rt_ringbuffer_reset_def contents_def rt_ringbuffer_data_len_def rt_ringbuffer_status_def)

lemma peak_adv:
  assumes "rb_inv rb"
  shows "\<exists>n. fst (rt_ringbuffer_peak rb) = n \<and> n \<le> rt_ringbuffer_data_len rb
    \<and> read_index rb + n \<le> buffer_size rb \<and> snd (snd (rt_ringbuffer_peak rb)) = adv_read n rb
    \<and> (0 < n \<longrightarrow> fst (snd (rt_ringbuffer_peak rb)) = Some (read_index rb))
    \<and> (n = 0 \<longleftrightarrow> rt_ringbuffer_data_len rb = 0)"
  using assms write_index_wrap(2)[OF assms]
  by (auto simp: rt_ringbuffer_peak_def adv_read_def Let_def rb_inv_def)

section \<open>Properties\<close>

text \<open>
  C39: the ring buffer is a queue. For every interleaving of block writes and reads, starting in
  any consistent state, the bytes delivered by \<^verbatim>\<open>rt_ringbuffer_get\<close> are the bytes that were in the buffer followed by
  those that \<^verbatim>\<open>rt_ringbuffer_put\<close> accepted, in order, none lost and none twice, up to what is
  still in the buffer; the buffer stays consistent and never holds more than its size.
\<close>

theorem rt_ringbuffer_fifo:
  assumes "rb_inv rb" "run_calls rt_ringbuffer_put rt_ringbuffer_get cs rb = (acc, del, rb')"
  shows "contents rb @ acc = del @ contents rb' \<and> rb_inv rb' \<and> length (contents rb') \<le> buffer_size rb"
  using rb.run_fifo[OF assms] write_index_wrap(2)[of rb'] by auto

definition demo_rb :: rt_ringbuffer where
  "demo_rb = rt_ringbuffer_init [0, 0, 0, 0] 4"

lemma demo_rb: "rb_inv demo_rb" "contents demo_rb = []" "buffer_size demo_rb = 4"
  using init_inv[of 4 "[0, 0, 0, 0]"] by (simp_all add: demo_rb_def RT_ALIGN_SIZE_def rt_ringbuffer_init_def)

theorem rt_ringbuffer_fifo_witness:
  "\<exists>acc del rb'. run_calls rt_ringbuffer_put rt_ringbuffer_get [Put [1, 2, 3], Get 2, Put [4, 5], Get 9] demo_rb = (acc, del, rb')
     \<and> acc = [1, 2, 3, 4, 5] \<and> del = [1, 2, 3, 4, 5] \<and> contents rb' = []"
proof -
  let ?r = "run_calls rt_ringbuffer_put rt_ringbuffer_get [Put [1, 2, 3], Get 2, Put [4, 5], Get 9] demo_rb"
  have "fst ?r = [1, 2, 3, 4, 5]" "fst (snd ?r) = [1, 2, 3, 4, 5]" by code_simp+
  then obtain rb' where r: "?r = ([1, 2, 3, 4, 5], [1, 2, 3, 4, 5], rb')" by (metis prod.collapse)
  from rt_ringbuffer_fifo[OF demo_rb(1) r] demo_rb(2) r show ?thesis by auto
qed

text \<open>
  A block write takes as much as fits: \<^verbatim>\<open>rt_ringbuffer_put\<close> accepts the smaller of the length given and
  the free space, and appends exactly that prefix.
\<close>

theorem rt_ringbuffer_put_accepts:
  assumes "rb_inv rb" "rt_ringbuffer_put ptr rb = (n, rb')"
  shows "n = min (length ptr) (buffer_size rb - length (contents rb)) \<and> contents rb' = contents rb @ take n ptr \<and> rb_inv rb'"
  using put_spec[OF assms] by blast

theorem rt_ringbuffer_put_accepts_witness:
  "contents (snd (rt_ringbuffer_put [1, 2, 3, 4, 5, 6] demo_rb)) = [1, 2, 3, 4]"
  using rt_ringbuffer_put_accepts[OF demo_rb(1) surjective_pairing, of "[1, 2, 3, 4, 5, 6]"] demo_rb(2,3) by simp

text \<open>
  The overwriting write keeps the newest bytes: after \<^verbatim>\<open>rt_ringbuffer_put_force\<close> the buffer
  holds the last \<^verbatim>\<open>buffer_size\<close> bytes of its old contents followed by the new data, with the mirror bits right in
  every case.
\<close>

theorem rt_ringbuffer_put_force_newest:
  assumes "rb_inv rb" "rt_ringbuffer_put_force ptr rb = (n, rb')"
  shows "contents rb' = drop (length (contents rb) + length ptr - buffer_size rb) (contents rb @ ptr)
    \<and> n = min (length ptr) (buffer_size rb) \<and> rb_inv rb'"
  using put_force_spec[OF assms] by blast

theorem rt_ringbuffer_put_force_newest_witness:
  "contents (snd (rt_ringbuffer_put_force [1, 2, 3, 4, 5, 6] demo_rb)) = [3, 4, 5, 6]"
  using rt_ringbuffer_put_force_newest[OF demo_rb(1) surjective_pairing, of "[1, 2, 3, 4, 5, 6]"] demo_rb(2,3)
  by (simp add: eval_nat_numeral)

text \<open>
  The single-byte operations are the block operations on one byte, on every consistent buffer
  and in every position of the indices.
\<close>

theorem rt_ringbuffer_char_operations:
  assumes "rb_inv rb"
  shows "rt_ringbuffer_putchar ch rb = rt_ringbuffer_put [ch] rb
    \<and> rt_ringbuffer_putchar_force ch rb = rt_ringbuffer_put_force [ch] rb
    \<and> rt_ringbuffer_getchar rb =
        (case rt_ringbuffer_get 1 rb of (d, rb') \<Rightarrow> (if d = [] then None else Some (hd d), rb'))"
  using putchar_put putchar_force_put_force getchar_get assms by blast

theorem rt_ringbuffer_char_operations_witness:
  "rt_ringbuffer_putchar 7 demo_rb = rt_ringbuffer_put [7] demo_rb
    \<and> rt_ringbuffer_putchar_force 7 demo_rb = rt_ringbuffer_put_force [7] demo_rb"
  using rt_ringbuffer_char_operations[OF demo_rb(1), of 7] by blast

text \<open>
  \<^verbatim>\<open>rt_ringbuffer_peak\<close> consumes what it shows: besides handing out the position of the first
  contiguous piece, it removes that piece from the queue, and a non-empty buffer always loses at least one byte.
\<close>

theorem rt_ringbuffer_peak_consumes:
  assumes "rb_inv rb" "rt_ringbuffer_peak rb = (n, pos, rb')" "contents rb \<noteq> []"
  shows "0 < n \<and> pos = Some (read_index rb) \<and> contents rb' = drop n (contents rb) \<and> rb_inv rb'"
  using peak_adv[OF assms(1)] assms(2,3) adv_read_inv(1)[OF assms(1), of n] contents_adv_read[OF assms(1), of n]
  by (auto simp: contents_def)

theorem rt_ringbuffer_peak_consumes_witness:
  "\<exists>rb rb' n pos. contents rb = [9] \<and> rt_ringbuffer_peak rb = (n, pos, rb') \<and> contents rb' = []"
proof -
  obtain n rb where p: "rt_ringbuffer_put [9] demo_rb = (n, rb)" by fastforce
  have r: "rb_inv rb" "contents rb = [9]" using put_spec[OF demo_rb(1) p] demo_rb(2,3) by simp_all
  obtain k pos rb' where k: "rt_ringbuffer_peak rb = (k, pos, rb')" by (metis prod_cases3)
  from rt_ringbuffer_peak_consumes[OF r(1) k] r(2) have "contents rb' = []" by (cases k) auto
  with r(2) k show ?thesis by blast
qed

end
