(* ===== verification/Base64.thy ===== *)
theory Base64
  imports Prelude
begin

text \<open>
  \<^verbatim>\<open>packages/tinycrypt-v1.0.0/src/tiny_base64.c\<close>. The C code computes on non-negative \<^verbatim>\<open>int\<close> values
  below 256, so shifts and masks are division, remainder and multiplication on natural numbers; the
  32-bit accumulator of the decoder wraps. A routine returns its result code, the new \<^verbatim>\<open>*dlen\<close> and the
  bytes it stored.
\<close>

section \<open>Model\<close>

definition ERR_BASE64_BUFFER_TOO_SMALL :: int where "ERR_BASE64_BUFFER_TOO_SMALL = - 0x0010"
definition ERR_BASE64_INVALID_CHARACTER :: int where "ERR_BASE64_INVALID_CHARACTER = - 0x0012"

definition base64_enc_map :: bytes where
  "base64_enc_map = bytes_of_string ''ABCDEFGHIJKLMNOPQRSTUVWXYZabcdefghijklmnopqrstuvwxyz0123456789+/''"

definition base64_dec_map :: "nat list" where
  "base64_dec_map = [
     127, 127, 127, 127, 127, 127, 127, 127, 127, 127,
     127, 127, 127, 127, 127, 127, 127, 127, 127, 127,
     127, 127, 127, 127, 127, 127, 127, 127, 127, 127,
     127, 127, 127, 127, 127, 127, 127, 127, 127, 127,
     127, 127, 127, 62, 127, 127, 127, 63, 52, 53,
     54, 55, 56, 57, 58, 59, 60, 61, 127, 127,
     127, 64, 127, 127, 127, 0, 1, 2, 3, 4,
     5, 6, 7, 8, 9, 10, 11, 12, 13, 14,
     15, 16, 17, 18, 19, 20, 21, 22, 23, 24,
     25, 127, 127, 127, 127, 127, 127, 26, 27, 28,
     29, 30, 31, 32, 33, 34, 35, 36, 37, 38,
     39, 40, 41, 42, 43, 44, 45, 46, 47, 48,
     49, 50, 51, 127, 127, 127, 127, 127]"

definition enc_char :: "nat \<Rightarrow> u8" where
  "enc_char k = base64_enc_map ! (k mod 64)"

text \<open>The loop over whole groups and the final group.\<close>

fun encode_groups :: "bytes \<Rightarrow> bytes" where
  "encode_groups (a # b # c # src) =
     (let C1 = unat a; C2 = unat b; C3 = unat c
      in enc_char (C1 div 4) # enc_char ((C1 mod 4) * 16 + C2 div 16) # enc_char ((C2 mod 16) * 4 + C3 div 64)
         # enc_char C3 # encode_groups src)"
| "encode_groups [a, b] =
     (let C1 = unat a; C2 = unat b
      in [enc_char (C1 div 4), enc_char ((C1 mod 4) * 16 + C2 div 16), enc_char ((C2 mod 16) * 4), 0x3D])"
| "encode_groups [a] =
     (let C1 = unat a in [enc_char (C1 div 4), enc_char ((C1 mod 4) * 16), 0x3D, 0x3D])"
| "encode_groups [] = []"

definition encoded_size :: "nat \<Rightarrow> nat" where
  "encoded_size slen =
     (let n = slen * 8 div 6; r = slen * 8 - n * 6 in if r = 2 then n + 3 else if r = 4 then n + 2 else n)"

definition tiny_base64_encode :: "nat \<Rightarrow> bytes \<Rightarrow> int \<times> nat \<times> bytes" where
  "tiny_base64_encode dlen src =
     (if src = [] then (0, dlen, [])
      else let n = encoded_size (length src)
           in if dlen < n + 1 then (ERR_BASE64_BUFFER_TOO_SMALL, n + 1, [])
              else let p = encode_groups src in (0, length p, p @ [0]))"

text \<open>The first pass of the decoder: it checks the characters and counts them.\<close>

fun scan :: "bytes \<Rightarrow> nat \<Rightarrow> nat \<Rightarrow> nat option" where
  "scan [] j n = Some n"
| "scan (c # src) j n =
     (if c = 0x0D \<and> src \<noteq> [] \<and> hd src = 0x0A then scan src j n
      else if c = 0x0A then scan src j n
      else let j1 = (if c = 0x3D then j + 1 else j)
           in if c = 0x3D \<and> j1 > 2 then None
              else if unat c > 127 \<or> base64_dec_map ! unat c = 127 then None
              else if base64_dec_map ! unat c < 64 \<and> j1 \<noteq> 0 then None
              else scan src j1 (n + 1))"

fun decode_loop :: "bytes \<Rightarrow> int \<Rightarrow> nat \<Rightarrow> nat \<Rightarrow> bytes" where
  "decode_loop [] j n x = []"
| "decode_loop (c # src) j n x =
     (if c = 0x0D \<or> c = 0x0A then decode_loop src j n x
      else let d = base64_dec_map ! unat c; j1 = (if d = 64 then j - 1 else j);
               x1 = (x * 64 + d mod 64) mod 2 ^ 32
           in if n + 1 = 4 then
                (if j1 > 0 then [of_nat (x1 div 65536)] else []) @ (if j1 > 1 then [of_nat (x1 div 256)] else [])
                @ (if j1 > 2 then [of_nat x1] else []) @ decode_loop src j1 0 x1
              else decode_loop src j1 (n + 1) x1)"

definition tiny_base64_decode :: "nat \<Rightarrow> bytes \<Rightarrow> int \<times> nat \<times> bytes" where
  "tiny_base64_decode dlen src =
     (case scan src 0 0 of
        None \<Rightarrow> (ERR_BASE64_INVALID_CHARACTER, dlen, [])
      | Some n \<Rightarrow>
          if n = 0 then (0, dlen, [])
          else let m = (n * 6 + 7) div 8
               in if dlen < m then (ERR_BASE64_BUFFER_TOO_SMALL, m, [])
                  else let p = decode_loop src 3 0 0 in (0, length p, p))"

section \<open>Lemmas\<close>

lemma base64_enc_map_ascii:
  "base64_enc_map = [65, 66, 67, 68, 69, 70, 71, 72, 73, 74, 75, 76, 77, 78, 79, 80, 81, 82, 83, 84, 85, 86, 87, 88, 89, 90,
     97, 98, 99, 100, 101, 102, 103, 104, 105, 106, 107, 108, 109, 110, 111, 112, 113, 114, 115, 116, 117, 118, 119, 120, 121, 122,
     48, 49, 50, 51, 52, 53, 54, 55, 56, 57, 43, 47]"
  by (simp add: base64_enc_map_def bytes_of_string_def)

lemma dec_map_enc_map: "map (\<lambda>c. base64_dec_map ! unat c) base64_enc_map = [0..<64]"
  by (simp add: base64_enc_map_ascii base64_dec_map_def upt_rec)

lemma enc_map_chars: "\<forall>c \<in> set base64_enc_map. unat c \<le> 127 \<and> c \<noteq> 0x0A \<and> c \<noteq> 0x0D \<and> c \<noteq> 0x3D"
  by (simp add: base64_enc_map_ascii)

lemma maps_inverse:
  assumes "k < 64"
  shows "unat (enc_char k) \<le> 127" "base64_dec_map ! unat (enc_char k) = k" "enc_char k \<noteq> 0x0A" "enc_char k \<noteq> 0x0D" "enc_char k \<noteq> 0x3D"
proof -
  have len: "length base64_enc_map = 64" by (simp add: base64_enc_map_ascii)
  have mem: "enc_char k \<in> set base64_enc_map" using assms len by (simp add: enc_char_def)
  show "unat (enc_char k) \<le> 127" "enc_char k \<noteq> 0x0A" "enc_char k \<noteq> 0x0D" "enc_char k \<noteq> 0x3D"
    using mem enc_map_chars by auto
  have "map (\<lambda>c. base64_dec_map ! unat c) base64_enc_map ! k = [0..<64] ! k" by (simp only: dec_map_enc_map)
  with assms len show "base64_dec_map ! unat (enc_char k) = k" by (simp add: enc_char_def)
qed

lemma enc_char_mod: "enc_char (k mod 64) = enc_char k"
  by (simp add: enc_char_def)

lemma scan_enc_char:
  assumes "k < 64"
  shows "scan (enc_char k # src) 0 n = scan src 0 (n + 1)"
  using maps_inverse[OF assms] assms by (simp add: Let_def)

lemma decode_enc_char:
  assumes "k < 64"
  shows "decode_loop (enc_char k # src) j n x =
    (let x1 = (x * 64 + k) mod 2 ^ 32
     in if n + 1 = 4 then
          (if j > 0 then [of_nat (x1 div 65536)] else []) @ (if j > 1 then [of_nat (x1 div 256)] else [])
          @ (if j > 2 then [of_nat x1] else []) @ decode_loop src j 0 x1
        else decode_loop src j (n + 1) x1)"
  using maps_inverse[OF assms] assms by (simp add: Let_def)

definition acc :: "nat \<Rightarrow> nat \<Rightarrow> nat" where
  "acc x k = (x * 64 + k) mod 2 ^ 32"

lemma acc_group:
  "acc (acc (acc (acc x k1) k2) k3) k4 mod 2 ^ 24 = (k1 * 262144 + k2 * 4096 + k3 * 64 + k4) mod 2 ^ 24"
proof -
  have step: "acc y k mod 2 ^ 24 = (y * 64 + k) mod 2 ^ 24" for y k
    unfolding acc_def by (rule mod_mod_cancel) simp
  have mod_step: "(y * 64 + k) mod 2 ^ 24 = ((y mod 2 ^ 24) * 64 + k) mod 2 ^ 24" for y k :: nat
    by (metis mod_add_left_eq mod_mult_left_eq)
  have "acc (acc (acc (acc x k1) k2) k3) k4 mod 2 ^ 24 = ((((x * 64 + k1) * 64 + k2) * 64 + k3) * 64 + k4) mod 2 ^ 24"
    unfolding step by (subst mod_step, subst step, subst mod_step[symmetric], subst (2) mod_step)
      (metis mod_step step)
  also have "(((x * 64 + k1) * 64 + k2) * 64 + k3) * 64 + k4 = x * 2 ^ 24 + (k1 * 262144 + k2 * 4096 + k3 * 64 + k4)"
    by simp
  finally show ?thesis by simp
qed

text \<open>The accumulator after four characters holds the three bytes of the group.\<close>

lemma acc_bytes:
  assumes "X mod 2 ^ 24 = unat a * 65536 + unat b * 256 + unat c"
  shows "of_nat (X div 65536) = (a :: u8)" "of_nat (X div 256) = (b :: u8)" "of_nat X = (c :: u8)"
proof -
  obtain q where X: "X = q * 2 ^ 24 + (unat a * 65536 + unat b * 256 + unat c)"
    using assms by (metis div_mult_mod_eq)
  have z: "(256 :: u8) = 0" "(65536 :: u8) = 0" "(16777216 :: u8) = 0" by simp_all
  have b: "unat b < 256" "unat c < 256" using unsigned_less[of b, where ?'a = nat] unsigned_less[of c, where ?'a = nat] by simp_all
  have "X = (q * 256 + unat a) * 65536 + (unat b * 256 + unat c)" using X by simp
  moreover have "unat b * 256 + unat c < 65536" using b by simp
  ultimately have "X div 65536 = q * 256 + unat a" by simp
  then show "of_nat (X div 65536) = a" by (simp add: z)
  have "X = (q * 65536 + unat a * 256 + unat b) * 256 + unat c" using X by simp
  then have "X div 256 = q * 65536 + unat a * 256 + unat b" using b by simp
  then show "of_nat (X div 256) = b" by (simp add: z)
  show "of_nat X = c" by (simp add: X z)
qed

lemma group_value:
  assumes "C1 < 256" "C2 < 256" "C3 < 256"
  shows "(C1 div 4 * 262144 + ((C1 mod 4) * 16 + C2 div 16) * 4096 + ((C2 mod 16) * 4 + C3 div 64) * 64 + C3 mod 64) mod 2 ^ 24
    = C1 * 65536 + C2 * 256 + (C3 :: nat)"
proof -
  have "C1 div 4 * 262144 + ((C1 mod 4) * 16 + C2 div 16) * 4096 + ((C2 mod 16) * 4 + C3 div 64) * 64 + C3 mod 64
      = C1 * 65536 + C2 * 256 + C3"
  proof -
    have "p * 262144 + (q * 16 + r) * 4096 + (s * 4 + t) * 64 + u = (p * 4 + q) * 65536 + (r * 16 + s) * 256 + (t * 64 + u)"
      for p q r s t u :: nat by simp
    from this[of "C1 div 4" "C1 mod 4" "C2 div 16" "C2 mod 16" "C3 div 64" "C3 mod 64"] show ?thesis
      by (simp only: div_mult_mod_eq)
  qed
  moreover have "C1 * 65536 + C2 * 256 + C3 < 2 ^ 24" using assms by simp
  ultimately show ?thesis by simp
qed

lemma group_digits:
  assumes "C1 < 256" "C2 < 256" "C3 < (256::nat)"
  shows "C1 div 4 < 64" "(C1 mod 4) * 16 + C2 div 16 < 64" "(C2 mod 16) * 4 + C3 div 64 < 64" "C3 mod 64 < 64"
    "(C1 mod 4) * 16 < 64" "(C2 mod 16) * 4 < 64"
proof -
  have "C1 mod 4 < 4" "C2 mod 16 < 16" "C2 div 16 < 16" "C3 div 64 < 4"
    using assms by (simp_all add: less_mult_imp_div_less)
  then show "(C1 mod 4) * 16 + C2 div 16 < 64" "(C2 mod 16) * 4 + C3 div 64 < 64" "(C1 mod 4) * 16 < 64" "(C2 mod 16) * 4 < 64"
    by linarith+
qed (use assms in \<open>simp_all add: less_mult_imp_div_less\<close>)

lemma u8_less: "unat (a :: u8) < 256"
  using unsigned_less[of a, where ?'a = nat] by simp

lemma digits:
  fixes a b c :: u8
  shows "unat a div 4 < 64 \<and> (unat a mod 4) * 16 + unat b div 16 < 64 \<and> (unat b mod 16) * 4 + unat c div 64 < 64
    \<and> (unat a mod 4) * 16 < 64 \<and> (unat b mod 16) * 4 < 64"
  using group_digits[OF u8_less[of a] u8_less[of b] u8_less[of c]] by blast

lemma decode_pad: "decode_loop (0x3D # src) j n x =
    (let x1 = acc x 0; j1 = j - 1
     in if n + 1 = 4 then
          (if j1 > 0 then [of_nat (x1 div 65536)] else []) @ (if j1 > 1 then [of_nat (x1 div 256)] else [])
          @ (if j1 > 2 then [of_nat x1] else []) @ decode_loop src j1 0 x1
        else decode_loop src j1 (n + 1) x1)"
  by (simp add: base64_dec_map_def acc_def Let_def)

lemma decode_char: "k < 64 \<Longrightarrow> decode_loop (enc_char k # src) j n x =
    (let x1 = acc x k
     in if n + 1 = 4 then
          (if j > 0 then [of_nat (x1 div 65536)] else []) @ (if j > 1 then [of_nat (x1 div 256)] else [])
          @ (if j > 2 then [of_nat x1] else []) @ decode_loop src j 0 x1
        else decode_loop src j (n + 1) x1)"
  by (simp only: decode_enc_char acc_def)

lemma decode_groups: "decode_loop (encode_groups src) 3 0 x = src"
proof (induction src arbitrary: x rule: encode_groups.induct)
  case (1 a b c src)
  have d: "unat c mod 64 < 64" by simp
  let ?X = "acc (acc (acc (acc x (unat a div 4)) ((unat a mod 4) * 16 + unat b div 16)) ((unat b mod 16) * 4 + unat c div 64)) (unat c mod 64)"
  have X: "?X mod 2 ^ 24 = unat a * 65536 + unat b * 256 + unat c"
    by (simp only: acc_group group_value[OF u8_less u8_less u8_less])
  show ?case
    using 1 acc_bytes[OF X] enc_char_mod[of "unat c"] digits[of a b c]
    by (simp add: Let_def decode_char del: decode_loop.simps) (simp add: decode_char[OF d, unfolded enc_char_mod] del: decode_loop.simps)
next
  case (2 a b)
  let ?X = "acc (acc (acc (acc x (unat a div 4)) ((unat a mod 4) * 16 + unat b div 16)) ((unat b mod 16) * 4)) 0"
  have X: "?X mod 2 ^ 24 = unat a * 65536 + unat b * 256 + unat (0::u8)"
    using group_value[OF u8_less u8_less u8_less, of a b 0] by (simp only: acc_group) simp
  show ?case
    using acc_bytes[OF X] digits[of a b 0]
    by (simp add: Let_def decode_char decode_pad del: decode_loop.simps(2))
next
  case (3 a)
  let ?X = "acc (acc (acc (acc x (unat a div 4)) ((unat a mod 4) * 16)) 0) 0"
  have X: "?X mod 2 ^ 24 = unat a * 65536 + unat (0::u8) * 256 + unat (0::u8)"
    using group_value[OF u8_less u8_less u8_less, of a 0 0] by (simp only: acc_group) simp
  show ?case
    using acc_bytes[OF X] digits[of a 0 0]
    by (simp add: Let_def decode_char decode_pad del: decode_loop.simps(2))
qed simp

lemma length_encode_groups: "length (encode_groups src) = (length src + 2) div 3 * 4"
proof (induction src rule: encode_groups.induct)
  case (1 a b c src)
  have "(length (a # b # c # src) + 2) div 3 = (length src + 2) div 3 + 1" by simp
  with 1 show ?case by (simp add: Let_def del: length_Cons)
qed (simp_all add: Let_def)

lemma encoded_size_exact: "encoded_size n = (n + 2) div 3 * 4"
proof -
  obtain q r where n: "n = 3 * q + r" "r < 3" by (metis mod_less_divisor mult_div_mod_eq zero_less_numeral)
  consider "r = 0" | "r = 1" | "r = 2" using n(2) by linarith
  then show ?thesis
  proof cases
    case 1
    have "3 * q * 8 div 6 = 4 * q" by simp
    with 1 n show ?thesis by (simp add: encoded_size_def)
  next
    case 2
    have "(3 * q + 1) * 8 div 6 = 4 * q + 1" "(3 * q + 1 + 2) div 3 = q + 1" by simp_all
    with 2 n show ?thesis by (simp add: encoded_size_def Let_def)
  next
    case 3
    have "(3 * q + 2) * 8 div 6 = 4 * q + 2" "(3 * q + 2 + 2) div 3 = q + 1" by simp_all
    with 3 n show ?thesis by (simp add: encoded_size_def Let_def)
  qed
qed

lemma scan_groups: "scan (encode_groups src) 0 n = Some (n + length (encode_groups src))"
proof (induction src arbitrary: n rule: encode_groups.induct)
  case (1 a b c src)
  have "scan (enc_char (unat c) # x) 0 k = scan x 0 (k + 1)" for x k
    using scan_enc_char[of "unat c mod 64"] by (simp add: enc_char_mod)
  with 1 digits[of a b c] show ?case by (simp add: Let_def scan_enc_char del: scan.simps(2))
next
  case (2 a b)
  have "scan [0x3D] 0 k = Some (k + 1)" for k by (simp add: base64_dec_map_def)
  with digits[of a b 0] show ?case by (simp add: Let_def scan_enc_char del: scan.simps(2))
next
  case (3 a)
  have "scan [0x3D, 0x3D] 0 k = Some (k + 2)" for k by (simp add: base64_dec_map_def)
  with digits[of a 0 0] show ?case by (simp add: Let_def scan_enc_char del: scan.simps(2))
qed simp

text \<open>The characters that are not line ends; the decoder stores at most three bytes for four of them.\<close>

definition payload :: "bytes \<Rightarrow> nat" where
  "payload src = length (filter (\<lambda>c. c \<noteq> 0x0D \<and> c \<noteq> 0x0A) src)"

lemma payload_simps [simp]:
  "payload [] = 0"
  "payload (c # src) = (if c = 0x0D \<or> c = 0x0A then payload src else payload src + 1)"
  by (simp_all add: payload_def)

lemma scan_payload: "scan src j n = Some m \<Longrightarrow> m = n + payload src"
proof (induction src j n rule: scan.induct)
  case (2 c src j n)
  have cr: "base64_dec_map ! unat (0x0D :: u8) = 127" by (simp add: base64_dec_map_def)
  from 2 cr show ?case by (auto simp: Let_def split: if_splits)
qed simp

lemma decode_loop_length: "n < 4 \<Longrightarrow> 4 * length (decode_loop src j n x) \<le> 3 * (n + payload src)"
proof (induction src arbitrary: j n x)
  case (Cons c src)
  have at_most3: "length ((if P then [u] else []) @ (if Q then [v] else []) @ (if R then [w] else []) @ ys) \<le> 3 + length ys"
    for P Q R and u v w :: u8 and ys by simp
  show ?case
  proof (cases "c = 0x0D \<or> c = 0x0A")
    case True
    with Cons show ?thesis by auto
  next
    case line: False
    show ?thesis
    proof (cases "n + 1 = 4")
      case True
      have "length (decode_loop (c # src) j n x) \<le> 3 + length (decode_loop src j' 0 x')"
        if "j' = (if base64_dec_map ! unat c = 64 then j - 1 else j)" "x' = (x * 64 + base64_dec_map ! unat c mod 64) mod 2 ^ 32" for j' x'
        unfolding decode_loop.simps if_not_P[OF line] Let_def if_P[OF True] that by (rule at_most3)
      then obtain j' x' where l: "length (decode_loop (c # src) j n x) \<le> 3 + length (decode_loop src j' 0 x')" by blast
      have arith: "4 * L \<le> 3 * (3 + P)" if "L \<le> 3 + L'" "4 * L' \<le> 3 * q" "P = q + 1" for L L' P q :: nat
        using that by simp
      have r: "4 * length (decode_loop src j' 0 x') \<le> 3 * payload src" using Cons.IH[of 0 j' x'] by simp
      have "payload (c # src) = payload src + 1" "n = 3" using line True by simp_all
      with arith[OF l r] show ?thesis by blast
    next
      case wait: False
      then show ?thesis using Cons.IH[of "n + 1"] Cons.prems line by (simp add: Let_def)
    qed
  qed
qed simp

section \<open>Properties\<close>

text \<open>
  Decoding inverts encoding for every non-empty message: if the encoder has room for the text
  and its terminator, it succeeds, and the decoder, given room for whole groups, returns the
  message.
\<close>

theorem tiny_base64_roundtrip:
  assumes "src \<noteq> []" "length src < 2 ^ 28" "(length src + 2) div 3 * 4 < dlen1" "(length src + 2) div 3 * 3 \<le> dlen2"
  shows "\<exists>text. tiny_base64_encode dlen1 src = (0, length text, text @ [0]) \<and> tiny_base64_decode dlen2 text = (0, length src, src)"
proof -
  let ?t = "encode_groups src" and ?k = "(length src + 2) div 3"
  have "tiny_base64_encode dlen1 src = (0, length ?t, ?t @ [0])"
    using assms by (simp add: tiny_base64_encode_def encoded_size_exact Let_def)
  moreover have "?k \<noteq> 0" using assms(1) by (cases src) auto
  then have "scan ?t 0 0 = Some (?k * 4)" "?k * 4 \<noteq> 0" "(?k * 4 * 6 + 7) div 8 = ?k * 3"
    by (simp_all add: scan_groups length_encode_groups)
  then have "tiny_base64_decode dlen2 ?t = (0, length src, src)"
    using assms(4) by (simp add: tiny_base64_decode_def decode_groups)
  ultimately show ?thesis by blast
qed

theorem tiny_base64_roundtrip_witness:
  "\<exists>text. tiny_base64_encode 9 [102, 111, 111, 98] = (0, length text, text @ [0])
     \<and> tiny_base64_decode 6 text = (0, length [102::u8, 111, 111, 98], [102, 111, 111, 98])"
  using tiny_base64_roundtrip[of "[102, 111, 111, 98]" 9 6] by simp

text \<open>
  The decoder does not overrun its buffer on any input: a successful call stores at most \<^verbatim>\<open>*dlen\<close>
  bytes and reports their number, and a refused call stores nothing.
\<close>

theorem tiny_base64_decode_bounded:
  assumes "tiny_base64_decode dlen src = (res, dlen', out)" "length src < 2 ^ 28"
  shows "length out \<le> dlen \<and> (out \<noteq> [] \<longrightarrow> res = 0 \<and> dlen' = length out)"
proof -
  have "length (decode_loop src 3 0 0) \<le> dlen" if "scan src 0 0 = Some n" "\<not> dlen < (n * 6 + 7) div 8" for n
    using decode_loop_length[of 0 src 3 0] scan_payload[OF that(1)] that(2) by simp
  with assms show ?thesis by (auto simp: tiny_base64_decode_def Let_def split: option.splits if_splits)
qed

theorem tiny_base64_decode_bounded_witness:
  "\<exists>res dlen' out. tiny_base64_decode 4 [0x5A, 0x67, 0x0D, 0x0A, 0x3D, 0x3D] = (res, dlen', out) \<and> length out \<le> 4"
proof -
  obtain res d o1 where e: "tiny_base64_decode 4 [0x5A, 0x67, 0x0D, 0x0A, 0x3D, 0x3D] = (res, d, o1)" by (metis prod_cases3)
  with tiny_base64_decode_bounded[OF e] show ?thesis by simp
qed

end
