(* ===== verification/Links.thy ===== *)
theory Links
  imports Prelude
begin

text \<open>
  Doubly linked lists in memory, the structure of \<^verbatim>\<open>rt_list_t\<close> and of the block lists of the
  allocators. Each link field is a function from addresses to addresses. \<open>seg nx pv xs\<close> says that the
  neighbours in \<open>xs\<close> are linked in both directions; a ring with header \<open>f\<close> is \<open>seg nx pv (f # xs @ [f])\<close>,
  so insertion and removal are proved once for open and for circular lists.
\<close>

definition seg :: "('a \<Rightarrow> 'a) \<Rightarrow> ('a \<Rightarrow> 'a) \<Rightarrow> 'a list \<Rightarrow> bool" where
  "seg nx pv = successively (\<lambda>a b. nx a = b \<and> pv b = a)"

lemma seg_simps [simp]:
  "seg nx pv []" "seg nx pv [x]"
  "seg nx pv (x # y # xs) \<longleftrightarrow> nx x = y \<and> pv y = x \<and> seg nx pv (y # xs)"
  by (simp_all add: seg_def)

lemma seg_split: "seg nx pv (us @ x # vs) \<longleftrightarrow> seg nx pv (us @ [x]) \<and> seg nx pv (x # vs)"
  by (auto simp: seg_def successively_append_iff successively_Cons)

lemma seg_next_cong:
  assumes "\<And>x. x \<in> set (butlast xs) \<Longrightarrow> nx x = nx' x" "\<And>x. x \<in> set (tl xs) \<Longrightarrow> pv x = pv' x"
  shows "seg nx pv xs = seg nx' pv' xs"
  using assms by (induction xs rule: induct_list012) auto

lemma seg_upd:
  "x \<notin> set (butlast xs) \<Longrightarrow> seg (nx(x := v)) pv xs = seg nx pv xs"
  "x \<notin> set (tl xs) \<Longrightarrow> seg nx (pv(x := v)) xs = seg nx pv xs"
  by (rule seg_next_cong; auto)+

lemma tl_snoc_append: "tl (us @ x # vs) = tl (us @ [x]) @ vs"
  by (cases us) auto

lemma seg_remove:
  assumes seg: "seg nx pv (us @ x # y # z # vs)"
    and d: "distinct (butlast (us @ x # y # z # vs))" "distinct (tl (us @ x # y # z # vs))"
  shows "seg (nx(x := z)) (pv(z := x)) (us @ x # z # vs)"
proof -
  have "x \<notin> set us" "x \<notin> set (butlast (z # vs))" using d(1) by (auto simp: butlast_append split: if_splits)
  moreover have "z \<notin> set (tl (us @ [x]))" "z \<notin> set vs" using d(2) unfolding tl_snoc_append[of us x "y # z # vs"] by auto
  moreover have "seg nx pv (us @ [x])" "seg nx pv (z # vs)" using seg by (simp_all add: seg_split[where us = us and vs = "y # z # vs"])
  ultimately show ?thesis by (simp add: seg_split[where us = us and vs = "z # vs"] seg_upd)
qed

lemma seg_insert:
  assumes seg: "seg nx pv (us @ x # z # vs)"
    and d: "distinct (butlast (us @ x # z # vs))" "distinct (tl (us @ x # z # vs))"
    and y: "y \<notin> set (us @ x # z # vs)"
  shows "seg (nx(y := z, x := y)) (pv(y := x, z := y)) (us @ x # y # z # vs)"
proof -
  have "x \<notin> set us" "x \<notin> set (butlast (z # vs))" using d(1) by (auto simp: butlast_append split: if_splits)
  moreover have "z \<notin> set (tl (us @ [x]))" "z \<notin> set vs" using d(2) unfolding tl_snoc_append[of us x "z # vs"] by auto
  moreover have "seg nx pv (us @ [x])" "seg nx pv (z # vs)" using seg by (simp_all add: seg_split[where us = us and vs = "z # vs"])
  moreover have "y \<notin> set (tl (us @ [x]))" "y \<notin> set (butlast (z # vs))" using y by (cases us; auto dest: in_set_butlastD)+
  ultimately show ?thesis using y by (simp add: seg_split[where us = us and vs = "y # z # vs"] seg_upd)
qed

text \<open>The two operations on a ring with header \<open>f\<close>.\<close>

lemma ring_insert:
  assumes "seg nx pv (f # xs @ [f])" "distinct (f # xs)" "y \<notin> set (f # xs)"
  shows "seg (nx(y := nx f, f := y)) (pv(y := f, nx f := y)) (f # y # xs @ [f])"
proof -
  obtain z vs where z: "xs @ [f] = z # vs" by (cases "xs @ [f]") auto
  have "butlast (f # z # vs) = f # xs" unfolding z[symmetric] by (simp only: butlast_snoc append_Cons[symmetric])
  moreover have "tl (f # z # vs) = xs @ [f]" unfolding z by simp
  moreover have "set (f # z # vs) = set (f # xs)" unfolding z[symmetric] by auto
  moreover have "nx f = z" using assms(1) unfolding z by simp
  moreover have "seg nx pv ([] @ f # z # vs)" using assms(1) unfolding z by simp
  ultimately have "seg (nx(y := z, f := y)) (pv(y := f, z := y)) ([] @ f # y # z # vs)"
    using assms(2,3) by (intro seg_insert) (simp_all only: append_Nil, auto)
  with \<open>nx f = z\<close> z show ?thesis by simp
qed

lemma ring_remove:
  assumes "seg nx pv (f # us @ y # vs @ [f])" "distinct (f # us @ y # vs)"
  shows "seg (nx(pv y := nx y)) (pv(nx y := pv y)) (f # us @ vs @ [f])"
proof -
  obtain ws x where x: "f # us = ws @ [x]" by (metis list.distinct(1) rev_exhaust)
  obtain z zs where z: "vs @ [f] = z # zs" by (cases "vs @ [f]") auto
  have eq: "f # us @ y # vs @ [f] = ws @ x # y # z # zs" using x z by (simp flip: append_Cons)
  have "butlast (ws @ x # y # z # zs) = f # us @ y # vs" unfolding eq[symmetric] by (simp add: butlast_append)
  moreover have "tl (ws @ x # y # z # zs) = us @ y # vs @ [f]" unfolding eq[symmetric] by simp
  moreover have s: "seg nx pv (ws @ x # y # z # zs)" using assms(1) eq by simp
  ultimately have "seg (nx(x := z)) (pv(z := x)) (ws @ x # z # zs)"
    using assms(2) by (intro seg_remove) auto
  moreover have "pv y = x" "nx y = z" using s by (simp_all add: seg_split[where us = ws and vs = "y # z # zs"])
  moreover have "f # us @ vs @ [f] = ws @ x # z # zs" using x z by (simp flip: append_Cons)
  ultimately show ?thesis by simp
qed

end
