(* ===== verification/Memheap.thy ===== *)
theory Memheap
  imports Links
begin

text \<open>
  The memory heap \<^verbatim>\<open>rt-thread/src/memheap.c\<close>, the allocator behind \<^verbatim>\<open>rt_malloc\<close> in this port
  (\<^verbatim>\<open>RT_USING_MEMHEAP_AS_HEAP\<close>, \<^verbatim>\<open>RT_MEMHEAP_FAST_MODE\<close>, no memory trace). Addresses and sizes are natural
  numbers; \<^verbatim>\<open>sub32\<close> is the difference of the 32-bit \<^verbatim>\<open>rt_size_t\<close>, and where a sum can exceed 32 bits the
  remainder is written out. The block headers live in the pool
  itself: each field of \<^verbatim>\<open>struct rt_memheap_item\<close> is a function from header addresses, and \<^verbatim>\<open>payload\<close>
  holds the bytes the clients store. The result \<open>None\<close> is a call that does not return: a failed
  \<^verbatim>\<open>RT_ASSERT\<close>, an endless search, or a pointer that belongs to another heap object. The first argument of an operation says whether
  \<^verbatim>\<open>rt_sem_take\<close> on the heap's lock succeeds; the operation runs with the lock held.
\<close>

section \<open>Model\<close>

definition RT_MEMHEAP_MAGIC :: nat where "RT_MEMHEAP_MAGIC = 0x1ea01ea0"
definition RT_MEMHEAP_USED :: nat where "RT_MEMHEAP_USED = 1"
definition RT_MEMHEAP_FREED :: nat where "RT_MEMHEAP_FREED = 0"
definition RT_MEMHEAP_MINIALLOC :: nat where "RT_MEMHEAP_MINIALLOC = 12"
definition RT_MEMHEAP_SIZE :: nat where "RT_MEMHEAP_SIZE = 24"

record rt_memheap =
  self :: nat
  start_addr :: nat
  pool_size :: nat
  available_size :: nat
  max_used_size :: nat
  block_list :: nat
  free_list :: nat
  locked :: bool
  item_magic :: "nat \<Rightarrow> nat"
  item_pool_ptr :: "nat \<Rightarrow> nat"
  item_next :: "nat \<Rightarrow> nat"
  item_prev :: "nat \<Rightarrow> nat"
  item_next_free :: "nat \<Rightarrow> nat"
  item_prev_free :: "nat \<Rightarrow> nat"
  payload :: "nat \<Rightarrow> u8"

definition sub32 :: "nat \<Rightarrow> nat \<Rightarrow> nat" where
  "sub32 a b = (a + 2 ^ 32 - b) mod 2 ^ 32"

definition RT_MEMHEAP_IS_USED :: "rt_memheap \<Rightarrow> nat \<Rightarrow> bool" where
  "RT_MEMHEAP_IS_USED h i \<longleftrightarrow> odd (item_magic h i)"

definition MEMITEM_SIZE :: "rt_memheap \<Rightarrow> nat \<Rightarrow> nat" where
  "MEMITEM_SIZE h item = sub32 (sub32 (item_next h item) item) RT_MEMHEAP_SIZE"

text \<open>\<^verbatim>\<open>RT_ALIGN(size, RT_ALIGN_SIZE)\<close> on a 32-bit \<^verbatim>\<open>rt_size_t\<close>, raised to the minimum: the size of a request.\<close>

definition request_size :: "nat \<Rightarrow> nat" where
  "request_size sz =
     (let n = (sz + 3) mod 2 ^ 32 div 4 * 4 in if n < RT_MEMHEAP_MINIALLOC then RT_MEMHEAP_MINIALLOC else n)"

text \<open>The two list operations that \<^verbatim>\<open>alloc\<close>, \<^verbatim>\<open>realloc\<close> and \<^verbatim>\<open>free\<close> write out in place.\<close>

definition free_list_remove :: "nat \<Rightarrow> rt_memheap \<Rightarrow> rt_memheap" where
  "free_list_remove p h =
     (let h1 = h\<lparr>item_prev_free := (item_prev_free h)(item_next_free h p := item_prev_free h p)\<rparr>
      in h1\<lparr>item_next_free := (item_next_free h1)(item_prev_free h1 p := item_next_free h1 p)\<rparr>)"

definition free_list_insert :: "nat \<Rightarrow> rt_memheap \<Rightarrow> rt_memheap" where
  "free_list_insert p h =
     (let h1 = h\<lparr>item_next_free := (item_next_free h)(p := item_next_free h (free_list h))\<rparr>;
          h2 = h1\<lparr>item_prev_free := (item_prev_free h1)(p := free_list h1)\<rparr>;
          h3 = h2\<lparr>item_prev_free := (item_prev_free h2)(item_next_free h2 (free_list h2) := p)\<rparr>
      in h3\<lparr>item_next_free := (item_next_free h3)(free_list h3 := p)\<rparr>)"

text \<open>The insertion that \<^verbatim>\<open>rt_memheap_free\<close> writes out: in front of the first free block.\<close>

definition free_list_return :: "nat \<Rightarrow> rt_memheap \<Rightarrow> rt_memheap" where
  "free_list_return p h =
     (let n = item_next_free h (free_list h);
          h1 = h\<lparr>item_next_free := (item_next_free h)(p := n)\<rparr>;
          h2 = h1\<lparr>item_prev_free := (item_prev_free h1)(p := item_prev_free h1 n)\<rparr>;
          h3 = h2\<lparr>item_next_free := (item_next_free h2)(item_prev_free h2 n := p)\<rparr>
      in h3\<lparr>item_prev_free := (item_prev_free h3)(n := p)\<rparr>)"

text \<open>A new free block \<open>q\<close> behind \<open>p\<close> in the block list.\<close>

definition block_insert :: "nat \<Rightarrow> nat \<Rightarrow> rt_memheap \<Rightarrow> rt_memheap" where
  "block_insert p q h =
     (let h1 = h\<lparr>item_magic := (item_magic h)(q := RT_MEMHEAP_MAGIC + RT_MEMHEAP_FREED),
                 item_pool_ptr := (item_pool_ptr h)(q := self h),
                 item_prev := (item_prev h)(q := p), item_next := (item_next h)(q := item_next h p)\<rparr>;
          h2 = h1\<lparr>item_prev := (item_prev h1)(item_next h1 p := q)\<rparr>
      in h2\<lparr>item_next := (item_next h2)(p := q)\<rparr>)"

text \<open>The block \<open>q\<close> behind \<open>p\<close> leaves the block list.\<close>

definition block_remove :: "nat \<Rightarrow> nat \<Rightarrow> rt_memheap \<Rightarrow> rt_memheap" where
  "block_remove p q h =
     (let h1 = h\<lparr>item_prev := (item_prev h)(item_next h q := p)\<rparr>
      in h1\<lparr>item_next := (item_next h1)(p := item_next h1 q)\<rparr>)"

definition note_max_used :: "rt_memheap \<Rightarrow> rt_memheap" where
  "note_max_used h =
     (if sub32 (pool_size h) (available_size h) > max_used_size h
      then h\<lparr>max_used_size := sub32 (pool_size h) (available_size h)\<rparr> else h)"

definition set_magic :: "nat \<Rightarrow> nat \<Rightarrow> rt_memheap \<Rightarrow> rt_memheap" where
  "set_magic p flag h = h\<lparr>item_magic := (item_magic h)(p := RT_MEMHEAP_MAGIC + flag)\<rparr>"

definition clear_free_links :: "nat \<Rightarrow> rt_memheap \<Rightarrow> rt_memheap" where
  "clear_free_links p h =
     h\<lparr>item_next_free := (item_next_free h)(p := 0), item_prev_free := (item_prev_free h)(p := 0)\<rparr>"

text \<open>
  \<^verbatim>\<open>rt_memheap_init\<close> on any memory: \<open>h\<close> is what the object and the pool hold before, \<open>hdr\<close> the address of the
  field \<^verbatim>\<open>free_header\<close>.
\<close>

definition rt_memheap_init :: "nat \<Rightarrow> nat \<Rightarrow> nat \<Rightarrow> nat \<Rightarrow> rt_memheap \<Rightarrow> rt_memheap" where
  "rt_memheap_init me hdr start sz h =
     (let pool = sz div 4 * 4; avail = sub32 pool (2 * RT_MEMHEAP_SIZE); tail = start + avail + RT_MEMHEAP_SIZE
      in h\<lparr>self := me, start_addr := start, pool_size := pool, available_size := avail,
           max_used_size := sub32 pool avail, block_list := start, free_list := hdr, locked := False,
           item_magic := (item_magic h)(hdr := RT_MEMHEAP_MAGIC + RT_MEMHEAP_FREED,
             start := RT_MEMHEAP_MAGIC + RT_MEMHEAP_FREED, tail := RT_MEMHEAP_MAGIC + RT_MEMHEAP_USED),
           item_pool_ptr := (item_pool_ptr h)(hdr := me, start := me, tail := me),
           item_next := (item_next h)(hdr := 0, start := tail, tail := start),
           item_prev := (item_prev h)(hdr := 0, start := tail, tail := start),
           item_next_free := (item_next_free h)(hdr := start, start := hdr, tail := 0),
           item_prev_free := (item_prev_free h)(hdr := start, start := hdr, tail := 0)\<rparr>)"

text \<open>The search along the free list: the block it stops at and the last size it read.\<close>

partial_function (option) free_search :: "rt_memheap \<Rightarrow> nat \<Rightarrow> nat \<Rightarrow> nat \<Rightarrow> (nat \<times> nat) option" where
  "free_search h sz header_ptr free_size =
     (if header_ptr \<noteq> free_list h \<and> free_size < sz
      then let n = MEMITEM_SIZE h header_ptr
           in free_search h sz (if n < sz then item_next_free h header_ptr else header_ptr) n
      else Some (header_ptr, free_size))"

definition alloc_block :: "nat \<Rightarrow> nat \<Rightarrow> nat \<Rightarrow> rt_memheap \<Rightarrow> rt_memheap" where
  "alloc_block p free_size sz h =
     (if free_size \<ge> sz + RT_MEMHEAP_SIZE + RT_MEMHEAP_MINIALLOC then
        let new_ptr = p + sz + RT_MEMHEAP_SIZE;
            h1 = free_list_insert new_ptr (clear_free_links p (free_list_remove p (block_insert p new_ptr h)))
        in note_max_used (h1\<lparr>available_size := sub32 (sub32 (available_size h1) sz) RT_MEMHEAP_SIZE\<rparr>)
      else
        let h1 = note_max_used (h\<lparr>available_size := sub32 (available_size h) free_size\<rparr>)
        in clear_free_links p (free_list_remove p h1))"

definition rt_memheap_alloc :: "bool \<Rightarrow> nat \<Rightarrow> rt_memheap \<Rightarrow> (nat \<times> rt_memheap) option" where
  "rt_memheap_alloc sem_ok size0 h =
     (let sz = request_size size0
      in if sz < available_size h then
           if \<not> locked h \<and> \<not> sem_ok then Some (0, h)
           else case free_search h sz (item_next_free h (free_list h)) 0 of
                  None \<Rightarrow> None
                | Some (header_ptr, free_size) \<Rightarrow>
                    if free_size \<ge> sz
                    then Some (header_ptr + RT_MEMHEAP_SIZE,
                               set_magic header_ptr RT_MEMHEAP_USED (alloc_block header_ptr free_size sz h))
                    else Some (0, h)
         else Some (0, h))"

text \<open>Merging with the neighbours; the flag says whether the block still has to enter the free list.\<close>

definition merge_left :: "nat \<Rightarrow> rt_memheap \<Rightarrow> bool \<times> nat \<times> rt_memheap" where
  "merge_left p h =
     (if \<not> RT_MEMHEAP_IS_USED h (item_prev h p) then
        let q = item_prev h p;
            h1 = h\<lparr>available_size := available_size h + RT_MEMHEAP_SIZE,
                   item_next := (item_next h)(q := item_next h p)\<rparr>
        in (False, q, h1\<lparr>item_prev := (item_prev h1)(item_next h1 p := q)\<rparr>)
      else (True, p, h))"

definition merge_right :: "nat \<Rightarrow> rt_memheap \<Rightarrow> rt_memheap" where
  "merge_right p h =
     (if \<not> RT_MEMHEAP_IS_USED h (item_next h p) then
        let q = item_next h p; h1 = h\<lparr>available_size := available_size h + RT_MEMHEAP_SIZE\<rparr>
        in free_list_remove q (block_remove p q h1)
      else h)"

definition rt_memheap_free :: "bool \<Rightarrow> nat \<Rightarrow> rt_memheap \<Rightarrow> rt_memheap option" where
  "rt_memheap_free sem_ok ptr h =
     (if ptr = 0 then Some h
      else let p = ptr - RT_MEMHEAP_SIZE
           in if item_magic h p \<noteq> RT_MEMHEAP_MAGIC + RT_MEMHEAP_USED
                \<or> item_magic h (item_next h p) div 2 * 2 \<noteq> RT_MEMHEAP_MAGIC \<or> item_pool_ptr h p \<noteq> self h then None
              else if \<not> locked h \<and> \<not> sem_ok then Some h
              else let h1 = set_magic p RT_MEMHEAP_FREED h
                   in case merge_left p (h1\<lparr>available_size := available_size h1 + MEMITEM_SIZE h1 p\<rparr>) of
                        (insert_header, q, h2) \<Rightarrow>
                          let h3 = merge_right q h2
                          in Some (if insert_header then free_list_return q h3 else h3))"

definition copy_payload :: "nat \<Rightarrow> nat \<Rightarrow> nat \<Rightarrow> rt_memheap \<Rightarrow> rt_memheap" where
  "copy_payload dst src n h =
     h\<lparr>payload := (\<lambda>a. if dst \<le> a \<and> a < dst + n then payload h (src + (a - dst)) else payload h a)\<rparr>"

text \<open>The three ways of \<^verbatim>\<open>rt_memheap_realloc\<close>: grow into the free neighbour, move, shrink.\<close>

definition grow_block :: "nat \<Rightarrow> nat \<Rightarrow> nat \<Rightarrow> rt_memheap \<Rightarrow> rt_memheap" where
  "grow_block p oldsize newsize h =
     (let h1 = note_max_used (h\<lparr>available_size := sub32 (available_size h) (sub32 newsize oldsize)\<rparr>);
          q = item_next h1 p; new_ptr = (p + RT_MEMHEAP_SIZE + newsize) mod 2 ^ 32
      in free_list_insert new_ptr
           (block_insert p new_ptr (block_remove (item_prev h1 q) q (free_list_remove q h1))))"

definition move_block :: "bool \<Rightarrow> nat \<Rightarrow> nat \<Rightarrow> nat \<Rightarrow> rt_memheap \<Rightarrow> (nat \<times> rt_memheap) option" where
  "move_block sem_ok ptr oldsize newsize h =
     (case rt_memheap_alloc sem_ok newsize h of
        None \<Rightarrow> None
      | Some (new_ptr, h1) \<Rightarrow>
          if new_ptr \<noteq> 0
          then map_option (Pair new_ptr)
                 (rt_memheap_free sem_ok ptr
                    (copy_payload new_ptr ptr (if oldsize < newsize then oldsize else newsize) h1))
          else Some (new_ptr, h1))"

definition shrink_block :: "nat \<Rightarrow> nat \<Rightarrow> rt_memheap \<Rightarrow> rt_memheap" where
  "shrink_block p newsize h =
     (let new_ptr = p + newsize + RT_MEMHEAP_SIZE; h1 = block_insert p new_ptr h; q = item_next h1 new_ptr;
          h2 = (if \<not> RT_MEMHEAP_IS_USED h1 q
                then free_list_remove q
                       (block_remove new_ptr q (h1\<lparr>available_size := sub32 (available_size h1) (MEMITEM_SIZE h1 q)\<rparr>))
                else h1);
          h3 = free_list_insert new_ptr h2
      in h3\<lparr>available_size := available_size h3 + MEMITEM_SIZE h3 new_ptr\<rparr>)"

definition rt_memheap_realloc :: "bool \<Rightarrow> nat \<Rightarrow> nat \<Rightarrow> rt_memheap \<Rightarrow> (nat \<times> rt_memheap) option" where
  "rt_memheap_realloc sem_ok ptr size0 h =
     (if size0 = 0 then map_option (Pair 0) (rt_memheap_free sem_ok ptr h)
      else let newsize = request_size size0
           in if ptr = 0 then rt_memheap_alloc sem_ok newsize h
              else let p = ptr - RT_MEMHEAP_SIZE; oldsize = MEMITEM_SIZE h p
                   in if newsize > oldsize then
                        if \<not> locked h \<and> \<not> sem_ok then Some (0, h)
                        else if \<not> item_next h p > p then None
                        else if \<not> RT_MEMHEAP_IS_USED h (item_next h p)
                                \<and> (MEMITEM_SIZE h (item_next h p) + oldsize) mod 2 ^ 32
                                    > (newsize + RT_MEMHEAP_MINIALLOC) mod 2 ^ 32
                        then Some (ptr, grow_block p oldsize newsize h)
                        else move_block sem_ok ptr oldsize newsize h
                      else if newsize + RT_MEMHEAP_SIZE + RT_MEMHEAP_MINIALLOC \<ge> oldsize then Some (ptr, h)
                      else if \<not> locked h \<and> \<not> sem_ok then Some (0, h)
                      else Some (ptr, shrink_block p newsize h))"

definition rt_memheap_info :: "bool \<Rightarrow> rt_memheap \<Rightarrow> (nat \<times> nat \<times> nat) option" where
  "rt_memheap_info sem_ok h =
     (if \<not> locked h \<and> \<not> sem_ok then None
      else Some (pool_size h, sub32 (pool_size h) (available_size h), max_used_size h))"

lemma sub32_le: "b \<le> a \<Longrightarrow> a < 2 ^ 32 \<Longrightarrow> sub32 a b = a - b"
proof -
  assume *: "b \<le> a" "a < 2 ^ 32"
  then have eq: "a + 2 ^ 32 - b = (a - b) + 2 ^ 32" by simp
  show ?thesis unfolding sub32_def eq mod_add_self2 using * by (intro mod_less) linarith
qed

section \<open>Layout\<close>

text \<open>Neighbouring blocks, the regions handed out and the free bytes, for a list of blocks and a use flag.\<close>

definition pairs :: "'a list \<Rightarrow> ('a \<times> 'a) list" where
  "pairs xs = zip xs (tl xs)"

lemma pairs_simps [simp]: "pairs [] = []" "pairs [x] = []" "pairs (x # y # xs) = (x, y) # pairs (y # xs)"
  by (simp_all add: pairs_def)

lemma pairs_split: "pairs (us @ x # vs) = pairs (us @ [x]) @ pairs (x # vs)"
  by (induction us rule: induct_list012) auto

lemma pairs_members: "(a, b) \<in> set (pairs xs) \<Longrightarrow> a \<in> set (butlast xs) \<and> b \<in> set (tl xs)"
  by (induction xs rule: induct_list012) auto

lemma pairs_in_set: "(a, b) \<in> set (pairs xs) \<Longrightarrow> a \<in> set xs \<and> b \<in> set xs"
  using pairs_members in_set_butlastD list.set_sel(2) by (metis empty_iff empty_set tl_Nil)

lemma pairs_unique: "distinct xs \<Longrightarrow> (a, b) \<in> set (pairs xs) \<Longrightarrow> (a, d) \<in> set (pairs xs) \<Longrightarrow> b = d"
  by (induction xs rule: induct_list012) (auto dest: pairs_in_set)

lemma pairs_decomp: "(a, b) \<in> set (pairs xs) \<Longrightarrow> \<exists>us vs. xs = us @ a # b # vs"
proof (induction xs rule: induct_list012)
  case (3 x y zs)
  then show ?case by (metis append_Cons append_Nil Pair_inject pairs_simps(3) set_ConsD)
qed auto

definition spaced :: "nat list \<Rightarrow> bool" where
  "spaced = successively (\<lambda>a b. a + RT_MEMHEAP_SIZE + RT_MEMHEAP_MINIALLOC \<le> b)"

definition merged :: "(nat \<Rightarrow> bool) \<Rightarrow> nat list \<Rightarrow> bool" where
  "merged used = successively (\<lambda>a b. used a \<or> used b)"

definition regions :: "(nat \<Rightarrow> bool) \<Rightarrow> nat list \<Rightarrow> (nat \<times> nat) set" where
  "regions used bs = {(a + RT_MEMHEAP_SIZE, b - a - RT_MEMHEAP_SIZE) | a b. (a, b) \<in> set (pairs bs) \<and> used a}"

definition free_bytes :: "(nat \<Rightarrow> bool) \<Rightarrow> nat list \<Rightarrow> nat" where
  "free_bytes used bs = (\<Sum>(a, b)\<leftarrow>pairs bs. if used a then 0 else b - a - RT_MEMHEAP_SIZE)"

lemma spaced_simps [simp]:
  "spaced []" "spaced [x]"
  "spaced (x # y # xs) \<longleftrightarrow> x + RT_MEMHEAP_SIZE + RT_MEMHEAP_MINIALLOC \<le> y \<and> spaced (y # xs)"
  by (simp_all add: spaced_def)

lemma spaced_split: "spaced (us @ x # vs) \<longleftrightarrow> spaced (us @ [x]) \<and> spaced (x # vs)"
  by (auto simp: spaced_def successively_append_iff successively_Cons)

lemma spaced_sorted: "spaced bs \<Longrightarrow> sorted_wrt (<) bs"
proof -
  assume "spaced bs"
  then have "successively (<) bs"
    by (induction bs rule: induct_list012) (auto simp: RT_MEMHEAP_SIZE_def)
  then show ?thesis by (simp add: successively_conv_sorted_wrt)
qed

lemma free_bytes_bound: "spaced bs \<Longrightarrow> bs \<noteq> [] \<Longrightarrow> hd bs + free_bytes used bs \<le> last bs"
  by (induction bs rule: induct_list012) (auto simp: free_bytes_def RT_MEMHEAP_SIZE_def)

lemma spaced_distinct: "spaced bs \<Longrightarrow> distinct bs"
  using spaced_sorted strict_sorted_iff by blast

lemma merged_simps [simp]:
  "merged u []" "merged u [x]" "merged u (x # y # xs) \<longleftrightarrow> (u x \<or> u y) \<and> merged u (y # xs)"
  by (simp_all add: merged_def)

lemma merged_split: "merged u (us @ x # vs) \<longleftrightarrow> merged u (us @ [x]) \<and> merged u (x # vs)"
  by (auto simp: merged_def successively_append_iff successively_Cons)

lemma merged_mono: "merged u xs \<Longrightarrow> (\<And>x. x \<in> set xs \<Longrightarrow> u x \<Longrightarrow> u' x) \<Longrightarrow> merged u' xs"
  by (induction xs rule: induct_list012) auto

lemma regions_simps [simp]:
  "regions u [] = {}" "regions u [x] = {}"
  "regions u (x # y # xs) = (if u x then {(x + RT_MEMHEAP_SIZE, y - x - RT_MEMHEAP_SIZE)} else {}) \<union> regions u (y # xs)"
  by (auto simp: regions_def)

lemma regions_split: "regions u (us @ x # vs) = regions u (us @ [x]) \<union> regions u (x # vs)"
  by (auto simp: regions_def pairs_split[of us x vs])

lemma regions_cong: "(\<And>x. x \<in> set (butlast xs) \<Longrightarrow> u x = u' x) \<Longrightarrow> regions u xs = regions u' xs"
  by (auto simp: regions_def dest: pairs_members)

lemma free_bytes_simps [simp]:
  "free_bytes u [] = 0" "free_bytes u [x] = 0"
  "free_bytes u (x # y # xs) = (if u x then 0 else y - x - RT_MEMHEAP_SIZE) + free_bytes u (y # xs)"
  by (simp_all add: free_bytes_def)

lemma free_bytes_split: "free_bytes u (us @ x # vs) = free_bytes u (us @ [x]) + free_bytes u (x # vs)"
  by (simp add: free_bytes_def pairs_split[of us x vs])

lemma free_bytes_cong: "(\<And>x. x \<in> set (butlast xs) \<Longrightarrow> u x = u' x) \<Longrightarrow> free_bytes u xs = free_bytes u' xs"
  by (induction xs rule: induct_list012) auto

text \<open>Regions of a spaced list do not overlap, and they lie between its ends.\<close>

lemma spaced_bounds: "spaced bs \<Longrightarrow> (a, b) \<in> set (pairs bs) \<Longrightarrow> hd bs \<le> a \<and> a + RT_MEMHEAP_SIZE + RT_MEMHEAP_MINIALLOC \<le> b \<and> b \<le> last bs"
proof -
  assume s: "spaced bs" and "(a, b) \<in> set (pairs bs)"
  then obtain us vs where bs: "bs = us @ a # b # vs" using pairs_decomp by metis
  have sorted: "sorted_wrt (<) bs" using spaced_sorted[OF s] .
  have "hd bs \<le> a" using sorted unfolding bs by (cases us) (auto simp: sorted_wrt_append)
  moreover have "b \<le> last bs" using sorted unfolding bs by (cases vs rule: rev_cases) (auto simp: sorted_wrt_append)
  ultimately show ?thesis using s unfolding bs by (simp add: spaced_split[where us = us and vs = "b # vs"])
qed

lemma pairs_ordered:
  assumes "spaced bs" "(a, b) \<in> set (pairs bs)" "(c, d) \<in> set (pairs bs)" "a \<noteq> c"
  shows "b \<le> c \<or> d \<le> a"
  using assms
proof (induction bs rule: induct_list012)
  case (3 x y zs)
  have "y \<le> c" if "(c, d) \<in> set (pairs (y # zs))" for c d
    using spaced_bounds[OF _ that] "3.prems"(1) by simp
  with 3 show ?case by auto
qed auto

definition apart :: "nat \<times> nat \<Rightarrow> nat \<times> nat \<Rightarrow> bool" where
  "apart r s \<longleftrightarrow> fst r + snd r \<le> fst s \<or> fst s + snd s \<le> fst r"

lemma regions_apart:
  assumes "spaced bs" "r \<in> regions u bs" "s \<in> regions u bs" "r \<noteq> s"
  shows "apart r s"
proof -
  obtain a b c d where r: "r = (a + RT_MEMHEAP_SIZE, b - a - RT_MEMHEAP_SIZE)" "(a, b) \<in> set (pairs bs)"
    and s: "s = (c + RT_MEMHEAP_SIZE, d - c - RT_MEMHEAP_SIZE)" "(c, d) \<in> set (pairs bs)"
    using assms(2,3) by (auto simp: regions_def)
  have d: "distinct bs" using spaced_distinct[OF assms(1)] .
  have "a \<noteq> c" using pairs_unique[OF d] r s assms(4) by blast
  from pairs_ordered[OF assms(1) r(2) s(2) this] spaced_bounds[OF assms(1) r(2)] spaced_bounds[OF assms(1) s(2)]
  show ?thesis by (auto simp: apart_def r(1) s(1))
qed

section \<open>Lemmas\<close>

text \<open>What each operation leaves alone.\<close>

lemma free_list_remove_fields [simp]:
  "self (free_list_remove p h) = self h" "start_addr (free_list_remove p h) = start_addr h"
  "pool_size (free_list_remove p h) = pool_size h" "available_size (free_list_remove p h) = available_size h"
  "max_used_size (free_list_remove p h) = max_used_size h" "block_list (free_list_remove p h) = block_list h"
  "free_list (free_list_remove p h) = free_list h" "locked (free_list_remove p h) = locked h"
  "item_magic (free_list_remove p h) = item_magic h" "item_pool_ptr (free_list_remove p h) = item_pool_ptr h"
  "item_next (free_list_remove p h) = item_next h" "item_prev (free_list_remove p h) = item_prev h"
  "payload (free_list_remove p h) = payload h"
  by (simp_all add: free_list_remove_def Let_def)

lemma free_list_insert_fields [simp]:
  "self (free_list_insert p h) = self h" "start_addr (free_list_insert p h) = start_addr h"
  "pool_size (free_list_insert p h) = pool_size h" "available_size (free_list_insert p h) = available_size h"
  "max_used_size (free_list_insert p h) = max_used_size h" "block_list (free_list_insert p h) = block_list h"
  "free_list (free_list_insert p h) = free_list h" "locked (free_list_insert p h) = locked h"
  "item_magic (free_list_insert p h) = item_magic h" "item_pool_ptr (free_list_insert p h) = item_pool_ptr h"
  "item_next (free_list_insert p h) = item_next h" "item_prev (free_list_insert p h) = item_prev h"
  "payload (free_list_insert p h) = payload h"
  by (simp_all add: free_list_insert_def Let_def)

lemma free_list_return_fields [simp]:
  "self (free_list_return p h) = self h" "start_addr (free_list_return p h) = start_addr h"
  "pool_size (free_list_return p h) = pool_size h" "available_size (free_list_return p h) = available_size h"
  "max_used_size (free_list_return p h) = max_used_size h" "block_list (free_list_return p h) = block_list h"
  "free_list (free_list_return p h) = free_list h" "locked (free_list_return p h) = locked h"
  "item_magic (free_list_return p h) = item_magic h" "item_pool_ptr (free_list_return p h) = item_pool_ptr h"
  "item_next (free_list_return p h) = item_next h" "item_prev (free_list_return p h) = item_prev h"
  "payload (free_list_return p h) = payload h"
  by (simp_all add: free_list_return_def Let_def)

lemma clear_free_links_fields [simp]:
  "self (clear_free_links p h) = self h" "start_addr (clear_free_links p h) = start_addr h"
  "pool_size (clear_free_links p h) = pool_size h" "available_size (clear_free_links p h) = available_size h"
  "max_used_size (clear_free_links p h) = max_used_size h" "block_list (clear_free_links p h) = block_list h"
  "free_list (clear_free_links p h) = free_list h" "locked (clear_free_links p h) = locked h"
  "item_magic (clear_free_links p h) = item_magic h" "item_pool_ptr (clear_free_links p h) = item_pool_ptr h"
  "item_next (clear_free_links p h) = item_next h" "item_prev (clear_free_links p h) = item_prev h"
  "payload (clear_free_links p h) = payload h"
  by (simp_all add: clear_free_links_def Let_def)

lemma block_insert_fields [simp]:
  "self (block_insert p q h) = self h" "start_addr (block_insert p q h) = start_addr h"
  "pool_size (block_insert p q h) = pool_size h" "available_size (block_insert p q h) = available_size h"
  "max_used_size (block_insert p q h) = max_used_size h" "block_list (block_insert p q h) = block_list h"
  "free_list (block_insert p q h) = free_list h" "locked (block_insert p q h) = locked h"
  "item_next_free (block_insert p q h) = item_next_free h" "item_prev_free (block_insert p q h) = item_prev_free h"
  "payload (block_insert p q h) = payload h"
  by (simp_all add: block_insert_def Let_def)

lemma block_remove_fields [simp]:
  "self (block_remove p q h) = self h" "start_addr (block_remove p q h) = start_addr h"
  "pool_size (block_remove p q h) = pool_size h" "available_size (block_remove p q h) = available_size h"
  "max_used_size (block_remove p q h) = max_used_size h" "block_list (block_remove p q h) = block_list h"
  "free_list (block_remove p q h) = free_list h" "locked (block_remove p q h) = locked h"
  "item_magic (block_remove p q h) = item_magic h" "item_pool_ptr (block_remove p q h) = item_pool_ptr h"
  "item_next_free (block_remove p q h) = item_next_free h" "item_prev_free (block_remove p q h) = item_prev_free h"
  "payload (block_remove p q h) = payload h"
  by (simp_all add: block_remove_def Let_def)

lemma note_max_used_fields [simp]:
  "self (note_max_used h) = self h" "start_addr (note_max_used h) = start_addr h"
  "pool_size (note_max_used h) = pool_size h" "available_size (note_max_used h) = available_size h"
  "block_list (note_max_used h) = block_list h" "free_list (note_max_used h) = free_list h"
  "locked (note_max_used h) = locked h" "item_magic (note_max_used h) = item_magic h"
  "item_pool_ptr (note_max_used h) = item_pool_ptr h" "item_next (note_max_used h) = item_next h"
  "item_prev (note_max_used h) = item_prev h" "item_next_free (note_max_used h) = item_next_free h"
  "item_prev_free (note_max_used h) = item_prev_free h" "payload (note_max_used h) = payload h"
  by (simp_all add: note_max_used_def Let_def)

lemma set_magic_fields [simp]:
  "self (set_magic p v h) = self h" "start_addr (set_magic p v h) = start_addr h"
  "pool_size (set_magic p v h) = pool_size h" "available_size (set_magic p v h) = available_size h"
  "max_used_size (set_magic p v h) = max_used_size h" "block_list (set_magic p v h) = block_list h"
  "free_list (set_magic p v h) = free_list h" "locked (set_magic p v h) = locked h"
  "item_pool_ptr (set_magic p v h) = item_pool_ptr h" "item_next (set_magic p v h) = item_next h"
  "item_prev (set_magic p v h) = item_prev h" "item_next_free (set_magic p v h) = item_next_free h"
  "item_prev_free (set_magic p v h) = item_prev_free h" "payload (set_magic p v h) = payload h"
  by (simp_all add: set_magic_def Let_def)

lemma copy_payload_fields [simp]:
  "self (copy_payload d s' n h) = self h" "start_addr (copy_payload d s' n h) = start_addr h"
  "pool_size (copy_payload d s' n h) = pool_size h" "available_size (copy_payload d s' n h) = available_size h"
  "max_used_size (copy_payload d s' n h) = max_used_size h" "block_list (copy_payload d s' n h) = block_list h"
  "free_list (copy_payload d s' n h) = free_list h" "locked (copy_payload d s' n h) = locked h"
  "item_magic (copy_payload d s' n h) = item_magic h" "item_pool_ptr (copy_payload d s' n h) = item_pool_ptr h"
  "item_next (copy_payload d s' n h) = item_next h" "item_prev (copy_payload d s' n h) = item_prev h"
  "item_next_free (copy_payload d s' n h) = item_next_free h" "item_prev_free (copy_payload d s' n h) = item_prev_free h"
  by (simp_all add: copy_payload_def Let_def)

lemma used_simps [simp]:
  "RT_MEMHEAP_IS_USED (free_list_remove p h) = RT_MEMHEAP_IS_USED h"
  "RT_MEMHEAP_IS_USED (free_list_insert p h) = RT_MEMHEAP_IS_USED h"
  "RT_MEMHEAP_IS_USED (free_list_return p h) = RT_MEMHEAP_IS_USED h"
  "RT_MEMHEAP_IS_USED (clear_free_links p h) = RT_MEMHEAP_IS_USED h"
  "RT_MEMHEAP_IS_USED (block_remove p q h) = RT_MEMHEAP_IS_USED h"
  "RT_MEMHEAP_IS_USED (note_max_used h) = RT_MEMHEAP_IS_USED h"
  "RT_MEMHEAP_IS_USED (copy_payload d s' n h) = RT_MEMHEAP_IS_USED h"
  "RT_MEMHEAP_IS_USED (h\<lparr>available_size := k\<rparr>) = RT_MEMHEAP_IS_USED h"
  "RT_MEMHEAP_IS_USED (set_magic p RT_MEMHEAP_USED h) = (RT_MEMHEAP_IS_USED h)(p := True)"
  "RT_MEMHEAP_IS_USED (set_magic p RT_MEMHEAP_FREED h) = (RT_MEMHEAP_IS_USED h)(p := False)"
  "RT_MEMHEAP_IS_USED (block_insert p q h) = (RT_MEMHEAP_IS_USED h)(q := False)"
  by (auto simp: fun_eq_iff RT_MEMHEAP_IS_USED_def set_magic_def block_insert_def Let_def RT_MEMHEAP_MAGIC_def
      RT_MEMHEAP_USED_def RT_MEMHEAP_FREED_def)

definition free_ring :: "rt_memheap \<Rightarrow> nat list \<Rightarrow> bool" where
  "free_ring h fs \<longleftrightarrow> seg (item_next_free h) (item_prev_free h) (free_list h # fs @ [free_list h])
     \<and> distinct (free_list h # fs)"

definition block_chain :: "rt_memheap \<Rightarrow> nat list \<Rightarrow> bool" where
  "block_chain h bs \<longleftrightarrow> seg (item_next h) (item_prev h) bs \<and> item_next h (last bs) = hd bs \<and> item_prev h (hd bs) = last bs"

lemma free_ring_other [simp]:
  "free_ring (set_magic p v h) = free_ring h" "free_ring (note_max_used h) = free_ring h"
  "free_ring (h\<lparr>available_size := k\<rparr>) = free_ring h" "free_ring (block_insert p q h) = free_ring h"
  "free_ring (block_remove p q h) = free_ring h" "free_ring (copy_payload d s' n h) = free_ring h"
  "free_ring (h\<lparr>item_next := nx, item_prev := pv\<rparr>) = free_ring h"
  by (auto simp: fun_eq_iff free_ring_def)

lemma free_ring_remove:
  assumes "free_ring h (us @ p # vs)"
  shows "free_ring (free_list_remove p h) (us @ vs)"
proof -
  let ?n = "item_next_free h" and ?v = "item_prev_free h" and ?f = "free_list h"
  have s: "seg ?n ?v (?f # us @ p # vs @ [?f])" "distinct (?f # us @ p # vs)" using assms by (simp_all add: free_ring_def)
  obtain z zs where z: "vs @ [?f] = z # zs" by (cases "vs @ [?f]") auto
  have "?n p = z" using s(1) unfolding z
    using seg_split[where us = "?f # us" and x = p and vs = "z # zs"] by simp
  moreover have "z \<in> set (vs @ [?f])" unfolding z by simp
  ultimately have "?n p \<noteq> p" using s(2) by auto
  then show ?thesis using ring_remove[OF s] s(2) by (simp add: free_ring_def free_list_remove_def Let_def)
qed

lemma free_ring_insert:
  assumes "free_ring h fs" "p \<notin> set (free_list h # fs)"
  shows "free_ring (free_list_insert p h) (p # fs)"
  using ring_insert[of "item_next_free h" "item_prev_free h" "free_list h" fs p] assms
  by (auto simp: free_ring_def free_list_insert_def Let_def fun_upd_twist)

lemma free_ring_return:
  assumes "free_ring h fs" "p \<notin> set (free_list h # fs)"
  shows "free_ring (free_list_return p h) (p # fs)"
proof -
  let ?n = "item_next_free h" and ?v = "item_prev_free h" and ?f = "free_list h"
  obtain z zs where z: "fs @ [?f] = z # zs" by (cases "fs @ [?f]") auto
  have "?n ?f = z" "?v z = ?f" using assms(1) unfolding free_ring_def z by simp_all
  moreover have "z \<in> set (fs @ [?f])" unfolding z by simp
  ultimately have "?v (?n ?f) = ?f" "?n ?f \<noteq> p" using assms(2) by auto
  then show ?thesis
    using ring_insert[of ?n ?v ?f fs p] assms
    by (auto simp: free_ring_def free_list_return_def Let_def fun_upd_twist)
qed

lemma free_ring_clear: "free_ring h fs \<Longrightarrow> p \<notin> set (free_list h # fs) \<Longrightarrow> free_ring (clear_free_links p h) fs"
  by (auto simp: free_ring_def clear_free_links_def seg_upd butlast_append)

lemma block_chain_other [simp]:
  "block_chain (set_magic p v h) = block_chain h" "block_chain (note_max_used h) = block_chain h"
  "block_chain (h\<lparr>available_size := k\<rparr>) = block_chain h" "block_chain (free_list_insert p h) = block_chain h"
  "block_chain (free_list_remove p h) = block_chain h" "block_chain (free_list_return p h) = block_chain h"
  "block_chain (clear_free_links p h) = block_chain h" "block_chain (copy_payload d s' n h) = block_chain h"
  by (auto simp: fun_eq_iff block_chain_def)

lemma block_chain_next: "block_chain h (us @ p # z # vs) \<Longrightarrow> item_next h p = z \<and> item_prev h z = p"
  by (simp add: block_chain_def seg_split[where us = us and vs = "z # vs"])

lemma block_chain_insert:
  assumes "block_chain h (us @ p # z # vs)" "distinct (us @ p # z # vs)" "q \<notin> set (us @ p # z # vs)"
  shows "block_chain (block_insert p q h) (us @ p # q # z # vs)"
proof -
  have nx: "item_next h p = z" using block_chain_next[OF assms(1)] by simp
  have "distinct (butlast (us @ p # z # vs))" "distinct (tl (us @ p # z # vs))"
    using assms(2) by (simp_all add: distinct_butlast distinct_tl)
  then have "seg ((item_next h)(q := z, p := q)) ((item_prev h)(q := p, z := q)) (us @ p # q # z # vs)"
    using assms by (intro seg_insert) (simp_all add: block_chain_def)
  moreover have "last (z # vs) \<noteq> p" "last (z # vs) \<noteq> q" "hd (us @ [p]) \<noteq> z" "hd (us @ [p]) \<noteq> q"
    using assms(2,3) last_in_set[of "z # vs"] by (auto simp: hd_append split: if_splits dest: hd_in_set)
  ultimately show ?thesis using assms(1,3) nx
    by (auto simp: block_chain_def block_insert_def Let_def hd_append split: if_splits)
qed

lemma block_chain_remove:
  assumes "block_chain h (us @ p # q # z # vs)" "distinct (us @ p # q # z # vs)"
  shows "block_chain (block_remove p q h) (us @ p # z # vs)"
proof -
  have nx: "item_next h p = q" "item_next h q = z"
    using block_chain_next[of h us p q "z # vs"] block_chain_next[of h "us @ [p]" q z vs] assms(1) by simp_all
  have "distinct (butlast (us @ p # q # z # vs))" "distinct (tl (us @ p # q # z # vs))"
    using assms(2) by (simp_all add: distinct_butlast distinct_tl)
  then have "seg ((item_next h)(p := z)) ((item_prev h)(z := p)) (us @ p # z # vs)"
    using assms by (intro seg_remove) (simp_all add: block_chain_def)
  moreover have "last (z # vs) \<noteq> p" "hd (us @ [p]) \<noteq> z"
    using assms(2) last_in_set[of "z # vs"] by (auto simp: hd_append split: if_splits dest: hd_in_set)
  ultimately show ?thesis using assms nx
    by (auto simp: block_chain_def block_remove_def Let_def hd_append split: if_splits)
qed

subsection \<open>The invariant\<close>

text \<open>
  The blocks \<open>bs\<close> cover the pool from its start to the tail block, the ring of free blocks holds the
  blocks whose flag is clear, but for the blocks in \<open>X\<close> that are on their way into it, and
  \<^verbatim>\<open>available_size\<close> is the number of free bytes. Between operations \<open>X\<close> is empty and no two neighbours are
  both free.
\<close>

definition heap_core :: "rt_memheap \<Rightarrow> nat list \<Rightarrow> nat list \<Rightarrow> nat set \<Rightarrow> bool" where
  "heap_core h bs fs X \<longleftrightarrow>
     2 \<le> length bs \<and> hd bs = start_addr h \<and> last bs + RT_MEMHEAP_SIZE = start_addr h + pool_size h \<and>
     0 < start_addr h \<and> start_addr h + pool_size h \<le> 2 ^ 32 \<and> spaced bs \<and>
     (\<forall>b\<in>set bs. 4 dvd b \<and> item_pool_ptr h b = self h \<and>
        item_magic h b \<in> {RT_MEMHEAP_MAGIC + RT_MEMHEAP_FREED, RT_MEMHEAP_MAGIC + RT_MEMHEAP_USED}) \<and>
     RT_MEMHEAP_IS_USED h (last bs) \<and> block_chain h bs \<and> free_ring h fs \<and> free_list h \<notin> set bs \<and>
     (free_list h < start_addr h \<or> start_addr h + pool_size h \<le> free_list h) \<and>
     set fs = {b \<in> set bs. \<not> RT_MEMHEAP_IS_USED h b} - X \<and> available_size h = free_bytes (RT_MEMHEAP_IS_USED h) bs"

definition heap_inv :: "rt_memheap \<Rightarrow> nat list \<Rightarrow> nat list \<Rightarrow> bool" where
  "heap_inv h bs fs \<longleftrightarrow> heap_core h bs fs {} \<and> merged (RT_MEMHEAP_IS_USED h) bs"

lemma heap_coreD:
  assumes "heap_core h bs fs X"
  shows "hd bs = start_addr h" "last bs + RT_MEMHEAP_SIZE = start_addr h + pool_size h" "spaced bs" "distinct bs"
    "block_chain h bs" "free_ring h fs" "free_list h \<notin> set bs" "2 \<le> length bs"
    "set fs = {b \<in> set bs. \<not> RT_MEMHEAP_IS_USED h b} - X" "available_size h = free_bytes (RT_MEMHEAP_IS_USED h) bs"
    "RT_MEMHEAP_IS_USED h (last bs)" "0 < start_addr h" "start_addr h + pool_size h \<le> 2 ^ 32"
    "\<And>b. b \<in> set bs \<Longrightarrow> 4 dvd b \<and> item_pool_ptr h b = self h"
    "\<And>b. b \<in> set bs \<Longrightarrow> item_magic h b \<in> {RT_MEMHEAP_MAGIC + RT_MEMHEAP_FREED, RT_MEMHEAP_MAGIC + RT_MEMHEAP_USED}"
    "free_list h < start_addr h \<or> start_addr h + pool_size h \<le> free_list h"
  using assms spaced_distinct by (auto simp: heap_core_def)

lemma heap_core_order:
  assumes "heap_core h bs fs X" "b \<in> set bs"
  shows "start_addr h \<le> b" "b \<le> last bs"
proof -
  have so: "sorted_wrt (<) bs" using spaced_sorted heap_coreD(3)[OF assms(1)] .
  obtain us vs where bs: "bs = us @ b # vs" using assms(2) split_list by metis
  have "hd bs \<le> b" using so unfolding bs by (cases us) (auto simp: sorted_wrt_append)
  then show "start_addr h \<le> b" using heap_coreD(1)[OF assms(1)] by simp
  show "b \<le> last bs" using so unfolding bs by (cases vs rule: rev_cases) (auto simp: sorted_wrt_append)
qed

lemma memitem_size_raw:
  assumes "item_next h p = z" "p + RT_MEMHEAP_SIZE \<le> z" "z < 2 ^ 32"
  shows "MEMITEM_SIZE h p = z - p - RT_MEMHEAP_SIZE"
proof -
  have "sub32 (item_next h p) p = z - p" using assms by (simp add: sub32_le)
  then show ?thesis using assms by (simp add: MEMITEM_SIZE_def sub32_le)
qed

lemma block_below: "heap_core h bs fs X \<Longrightarrow> b \<in> set bs \<Longrightarrow> b < 2 ^ 32"
  using heap_core_order(2)[of h bs fs X b] heap_coreD(2,13)[of h bs fs X] by (simp add: RT_MEMHEAP_SIZE_def)

lemma available_below:
  assumes "heap_core h bs fs X"
  shows "available_size h < 2 ^ 32" "available_size h + start_addr h \<le> last bs"
proof -
  have "bs \<noteq> []" using heap_coreD(8)[OF assms] by auto
  then show le: "available_size h + start_addr h \<le> last bs"
    using free_bytes_bound[of bs] heap_coreD(1,3,10)[OF assms] by (simp add: add.commute)
  have "last bs < 2 ^ 32" using block_below[OF assms] \<open>bs \<noteq> []\<close> by simp
  then show "available_size h < 2 ^ 32" using le by simp
qed

lemma free_available:
  assumes "heap_core h (us @ p # z # vs) fs X" "\<not> RT_MEMHEAP_IS_USED h p"
  shows "z - p - RT_MEMHEAP_SIZE \<le> available_size h"
  using heap_coreD(10)[OF assms(1)] assms(2) by (simp add: free_bytes_split[where us = us and vs = "z # vs"])

lemma memitem_size:
  assumes "heap_core h (us @ p # z # vs) fs X"
  shows "MEMITEM_SIZE h p = z - p - RT_MEMHEAP_SIZE" "item_next h p = z" "item_prev h z = p"
    "p + RT_MEMHEAP_SIZE + RT_MEMHEAP_MINIALLOC \<le> z"
proof -
  show nx: "item_next h p = z" "item_prev h z = p"
    using block_chain_next[OF heap_coreD(5)[OF assms]] by auto
  show sp: "p + RT_MEMHEAP_SIZE + RT_MEMHEAP_MINIALLOC \<le> z"
    using heap_coreD(3)[OF assms] by (simp add: spaced_split[where us = us and vs = "z # vs"])
  show "MEMITEM_SIZE h p = z - p - RT_MEMHEAP_SIZE"
    using memitem_size_raw[OF nx(1)] block_below[OF assms, of z] sp by simp
qed

text \<open>The invariant of a changed heap: the frame, the new list, and the parts that change.\<close>

lemma heap_coreI:
  assumes core: "heap_core h bs fs X"
    and frame: "self h' = self h" "start_addr h' = start_addr h" "pool_size h' = pool_size h" "free_list h' = free_list h"
    and ends: "hd bs' = hd bs" "last bs' = last bs" "2 \<le> length bs'" and sp: "spaced bs'"
    and hdr: "\<And>b. b \<in> set bs' \<Longrightarrow> 4 dvd b \<and> item_pool_ptr h' b = self h \<and>
        item_magic h' b \<in> {RT_MEMHEAP_MAGIC + RT_MEMHEAP_FREED, RT_MEMHEAP_MAGIC + RT_MEMHEAP_USED}"
    and used: "RT_MEMHEAP_IS_USED h' (last bs)" and chain: "block_chain h' bs'" and ring: "free_ring h' fs'"
    and out: "free_list h \<notin> set bs'" and fs: "set fs' = {b \<in> set bs'. \<not> RT_MEMHEAP_IS_USED h' b} - X'"
    and avail: "available_size h' = free_bytes (RT_MEMHEAP_IS_USED h') bs'"
  shows "heap_core h' bs' fs' X'"
  unfolding heap_core_def frame ends heap_coreD(1)[OF core]
  using heap_coreD(2,12,13,16)[OF core] ends(3) sp hdr used chain ring out fs avail by blast

text \<open>A block that is not the tail has a right neighbour.\<close>

lemma heap_core_next_block:
  assumes "heap_core h bs fs X" "p \<in> set bs" "p \<noteq> last bs"
  obtains us z vs where "bs = us @ p # z # vs"
proof -
  obtain us ws where "bs = us @ p # ws" using assms(2) split_list by metis
  with assms(3) show ?thesis by (cases ws) (auto intro: that)
qed

lemma free_not_tail: "heap_core h bs fs X \<Longrightarrow> \<not> RT_MEMHEAP_IS_USED h p \<Longrightarrow> p \<noteq> last bs"
  using heap_coreD(11) by blast

lemma upd_outside:
  assumes "x \<notin> set (butlast bs)"
  shows "regions (u(x := v)) bs = regions u bs" "free_bytes (u(x := v)) bs = free_bytes u bs"
  by (rule regions_cong free_bytes_cong; use assms in auto)+

lemma upd_inside:
  assumes "distinct (us @ p # z # vs)"
  shows "free_bytes (u(p := v)) (us @ p # z # vs) =
      free_bytes u (us @ [p]) + (if v then 0 else z - p - RT_MEMHEAP_SIZE) + free_bytes u (z # vs)"
    "regions (u(p := v)) (us @ p # z # vs) =
      regions u (us @ [p]) \<union> (if v then {(p + RT_MEMHEAP_SIZE, z - p - RT_MEMHEAP_SIZE)} else {}) \<union> regions u (z # vs)"
proof -
  have "p \<notin> set (butlast (z # vs))" "p \<notin> set (butlast (us @ [p]))"
    using assms in_set_butlastD[of p "z # vs"] by auto
  from this[THEN upd_outside(1)] this[THEN upd_outside(2)]
  show "free_bytes (u(p := v)) (us @ p # z # vs) =
      free_bytes u (us @ [p]) + (if v then 0 else z - p - RT_MEMHEAP_SIZE) + free_bytes u (z # vs)"
    "regions (u(p := v)) (us @ p # z # vs) =
      regions u (us @ [p]) \<union> (if v then {(p + RT_MEMHEAP_SIZE, z - p - RT_MEMHEAP_SIZE)} else {}) \<union> regions u (z # vs)"
    by (simp_all add: free_bytes_split[where us = us and vs = "z # vs"] regions_split[where us = us and vs = "z # vs"] Un_assoc)
qed

lemma at_block:
  shows "free_bytes u (us @ p # z # vs) =
      free_bytes u (us @ [p]) + (if u p then 0 else z - p - RT_MEMHEAP_SIZE) + free_bytes u (z # vs)"
    "regions u (us @ p # z # vs) =
      regions u (us @ [p]) \<union> (if u p then {(p + RT_MEMHEAP_SIZE, z - p - RT_MEMHEAP_SIZE)} else {}) \<union> regions u (z # vs)"
  by (simp_all add: free_bytes_split[where us = us and vs = "z # vs"] regions_split[where us = us and vs = "z # vs"] Un_assoc)

lemma region_iff:
  assumes "distinct (us @ p # z # vs)"
  shows "(p + RT_MEMHEAP_SIZE, n) \<in> regions u (us @ p # z # vs) \<longleftrightarrow> u p \<and> n = z - p - RT_MEMHEAP_SIZE"
proof -
  have "(p, b) \<notin> set (pairs (us @ [p]))" "(p, b) \<notin> set (pairs (z # vs))" for b
    using pairs_members[of p b "us @ [p]"] pairs_in_set[of p b "z # vs"] assms by auto
  then have "(p + RT_MEMHEAP_SIZE, n) \<notin> regions u (us @ [p])" "(p + RT_MEMHEAP_SIZE, n) \<notin> regions u (z # vs)"
    by (auto simp: regions_def)
  then show ?thesis by (auto simp: at_block)
qed

subsection \<open>Steps of the operations\<close>

text \<open>A free block is taken as a whole.\<close>

lemma take_whole:
  assumes core: "heap_core h (us @ p # z # vs) (as @ p # cs) {}" and free: "\<not> RT_MEMHEAP_IS_USED h p"
    and h': "h' = set_magic p RT_MEMHEAP_USED (clear_free_links p (free_list_remove p
      (note_max_used (h\<lparr>available_size := available_size h - (z - p - RT_MEMHEAP_SIZE)\<rparr>))))"
  shows "heap_core h' (us @ p # z # vs) (as @ cs) {}" "RT_MEMHEAP_IS_USED h' = (RT_MEMHEAP_IS_USED h)(p := True)"
    "regions (RT_MEMHEAP_IS_USED h') (us @ p # z # vs)
      = insert (p + RT_MEMHEAP_SIZE, z - p - RT_MEMHEAP_SIZE) (regions (RT_MEMHEAP_IS_USED h) (us @ p # z # vs))"
proof -
  note D = heap_coreD[OF core]
  let ?h1 = "note_max_used (h\<lparr>available_size := available_size h - (z - p - RT_MEMHEAP_SIZE)\<rparr>)"
  show u: "RT_MEMHEAP_IS_USED h' = (RT_MEMHEAP_IS_USED h)(p := True)" by (simp add: h')
  have p: "p \<notin> set (free_list h # as @ cs)" using D(6,7) by (auto simp: free_ring_def)
  have "free_ring ?h1 (as @ p # cs)" using D(6) by simp
  from free_ring_clear[OF free_ring_remove[OF this], of p] p have ring: "free_ring h' (as @ cs)" by (simp add: h')
  have chain: "block_chain h' (us @ p # z # vs)" using D(5) by (simp add: h')
  have "set (as @ cs) = {b \<in> set (us @ p # z # vs). \<not> RT_MEMHEAP_IS_USED h' b} - {}"
    using D(9) p free by (auto simp: u)
  moreover have "available_size h' = free_bytes (RT_MEMHEAP_IS_USED h') (us @ p # z # vs)"
    using D(10) free unfolding u upd_inside(1)[OF D(4)] by (simp add: at_block h')
  moreover have "\<forall>b\<in>set (us @ p # z # vs). 4 dvd b \<and> item_pool_ptr h' b = self h' \<and>
      item_magic h' b \<in> {RT_MEMHEAP_MAGIC + RT_MEMHEAP_FREED, RT_MEMHEAP_MAGIC + RT_MEMHEAP_USED}"
    using D(14,15) by (simp add: h' set_magic_def)
  moreover have "self h' = self h" "start_addr h' = start_addr h" "pool_size h' = pool_size h" "free_list h' = free_list h"
    by (simp_all add: h')
  moreover have "RT_MEMHEAP_IS_USED h' (last (us @ p # z # vs))" using D(11) by (simp add: u)
  ultimately show "heap_core h' (us @ p # z # vs) (as @ cs) {}"
    using D(3,7,8) ring chain by (intro heap_coreI[OF core]) auto
  show "regions (RT_MEMHEAP_IS_USED h') (us @ p # z # vs)
      = insert (p + RT_MEMHEAP_SIZE, z - p - RT_MEMHEAP_SIZE) (regions (RT_MEMHEAP_IS_USED h) (us @ p # z # vs))"
    using free unfolding u upd_inside(2)[OF D(4)] by (simp add: at_block)
qed

text \<open>A free block is split: the front part is taken, the rest \<open>q\<close> becomes a free block.\<close>

lemma take_split:
  assumes core: "heap_core h (us @ p # z # vs) (as @ p # cs) {}" and free: "\<not> RT_MEMHEAP_IS_USED h p"
    and q: "q = p + sz + RT_MEMHEAP_SIZE" "RT_MEMHEAP_MINIALLOC \<le> sz" "4 dvd sz"
      "sz + RT_MEMHEAP_SIZE + RT_MEMHEAP_MINIALLOC \<le> z - p - RT_MEMHEAP_SIZE"
    and h1: "h1 = free_list_insert q (clear_free_links p (free_list_remove p (block_insert p q h)))"
    and h': "h' = set_magic p RT_MEMHEAP_USED (note_max_used (h1\<lparr>available_size := available_size h1 - sz - RT_MEMHEAP_SIZE\<rparr>))"
  shows "heap_core h' (us @ p # q # z # vs) (q # as @ cs) {}"
    "RT_MEMHEAP_IS_USED h' = (RT_MEMHEAP_IS_USED h)(q := False, p := True)"
    "regions (RT_MEMHEAP_IS_USED h') (us @ p # q # z # vs)
      = insert (p + RT_MEMHEAP_SIZE, sz) (regions (RT_MEMHEAP_IS_USED h) (us @ p # z # vs))"
    "q \<notin> set (us @ p # z # vs)"
proof -
  note D = heap_coreD[OF core]
  let ?bs = "us @ p # z # vs" and ?bs' = "us @ p # q # z # vs"
  show u: "RT_MEMHEAP_IS_USED h' = (RT_MEMHEAP_IS_USED h)(q := False, p := True)" by (simp add: h' h1)
  have pq: "p < q" "q < z" using q by (simp_all add: RT_MEMHEAP_SIZE_def)
  have qz: "q + RT_MEMHEAP_SIZE + RT_MEMHEAP_MINIALLOC \<le> z" using q memitem_size(4)[OF core] by linarith
  have sp: "spaced ?bs'" using D(3) q(1,2) qz unfolding spaced_split[where us = us and vs = "q # z # vs"]
    by (simp add: spaced_split[where us = us and vs = "z # vs"])
  then have d': "distinct ?bs'" by (rule spaced_distinct)
  then show notin: "q \<notin> set ?bs" by auto
  have p: "p \<notin> set (free_list h # as @ cs)" using D(6,7) by (auto simp: free_ring_def)
  have qf: "q \<noteq> free_list h"
    using pq heap_core_order[OF core, of p] heap_core_order[OF core, of z] D(2,16) by (auto simp: RT_MEMHEAP_SIZE_def)
  have fs: "set (as @ p # cs) = {b \<in> set ?bs. \<not> RT_MEMHEAP_IS_USED h b}" using D(9) by simp
  then have "q \<notin> set (as @ cs)" using notin by auto
  have "free_ring (free_list_remove p (block_insert p q h)) (as @ cs)" using free_ring_remove[of "block_insert p q h"] D(6) by simp
  from free_ring_insert[OF free_ring_clear[OF this]] have ring: "free_ring h' (q # as @ cs)"
    using p qf \<open>q \<notin> set (as @ cs)\<close> by (simp add: h' h1)
  have chain: "block_chain h' ?bs'" using block_chain_insert[OF D(5,4) notin] by (simp add: h' h1)
  have "set (q # as @ cs) = {b \<in> set ?bs'. \<not> RT_MEMHEAP_IS_USED h' b} - {}"
    using fs p notin pq by (auto simp: u)
  moreover have "free_bytes (RT_MEMHEAP_IS_USED h') ?bs' = free_bytes (RT_MEMHEAP_IS_USED h) (us @ [p])
      + (z - q - RT_MEMHEAP_SIZE) + free_bytes (RT_MEMHEAP_IS_USED h) (z # vs)"
    "regions (RT_MEMHEAP_IS_USED h') ?bs' = regions (RT_MEMHEAP_IS_USED h) (us @ [p])
      \<union> {(p + RT_MEMHEAP_SIZE, sz)} \<union> regions (RT_MEMHEAP_IS_USED h) (z # vs)"
  proof -
    have n: "q \<notin> set (butlast (us @ [p]))" "q \<notin> set (butlast (z # vs))"
      using notin in_set_butlastD[of q "z # vs"] by auto
    have e: "q - p - RT_MEMHEAP_SIZE = sz" using q(1) by simp
    show "free_bytes (RT_MEMHEAP_IS_USED h') ?bs' = free_bytes (RT_MEMHEAP_IS_USED h) (us @ [p])
      + (z - q - RT_MEMHEAP_SIZE) + free_bytes (RT_MEMHEAP_IS_USED h) (z # vs)"
      "regions (RT_MEMHEAP_IS_USED h') ?bs' = regions (RT_MEMHEAP_IS_USED h) (us @ [p])
      \<union> {(p + RT_MEMHEAP_SIZE, sz)} \<union> regions (RT_MEMHEAP_IS_USED h) (z # vs)"
      unfolding u upd_inside[OF d'] upd_outside[OF n(1)] using e by (simp_all add: upd_outside[OF n(2)])
  qed
  note parts = this
  ultimately have avail: "available_size h' = free_bytes (RT_MEMHEAP_IS_USED h') ?bs'"
    using D(10) free q(1,4) by (simp add: at_block h' h1)
  have "\<forall>b\<in>set ?bs'. 4 dvd b \<and> item_pool_ptr h' b = self h' \<and>
      item_magic h' b \<in> {RT_MEMHEAP_MAGIC + RT_MEMHEAP_FREED, RT_MEMHEAP_MAGIC + RT_MEMHEAP_USED}"
    using D(14,15) q(1,3) D(14)[of p] by (auto simp: h' h1 set_magic_def block_insert_def RT_MEMHEAP_SIZE_def Let_def)
  moreover have "hd ?bs' = hd ?bs" "last ?bs' = last ?bs" "RT_MEMHEAP_IS_USED h' (last ?bs)"
    using D(11) notin last_in_set[of ?bs] by (auto simp: u hd_append)
  moreover have "self h' = self h" "start_addr h' = start_addr h" "pool_size h' = pool_size h" "free_list h' = free_list h"
    by (simp_all add: h' h1)
  ultimately show "heap_core h' ?bs' (q # as @ cs) {}"
    using D(7,8) ring chain avail sp qf \<open>set (q # as @ cs) = _\<close> by (intro heap_coreI[OF core]) auto
  show "regions (RT_MEMHEAP_IS_USED h') ?bs' = insert (p + RT_MEMHEAP_SIZE, sz) (regions (RT_MEMHEAP_IS_USED h) ?bs)"
    using free parts(2) by (simp add: at_block)
qed

text \<open>A used block is marked free; it is not yet in the free list.\<close>

lemma mark_free:
  assumes core: "heap_core h (us @ p # z # vs) fs {}" and used: "RT_MEMHEAP_IS_USED h p"
    and h1: "h1 = set_magic p RT_MEMHEAP_FREED h"
    and h': "h' = h1\<lparr>available_size := available_size h1 + MEMITEM_SIZE h1 p\<rparr>"
  shows "heap_core h' (us @ p # z # vs) fs {p}" "RT_MEMHEAP_IS_USED h' = (RT_MEMHEAP_IS_USED h)(p := False)"
    "regions (RT_MEMHEAP_IS_USED h') (us @ p # z # vs)
      = regions (RT_MEMHEAP_IS_USED h) (us @ p # z # vs) - {(p + RT_MEMHEAP_SIZE, z - p - RT_MEMHEAP_SIZE)}"
proof -
  note D = heap_coreD[OF core]
  let ?bs = "us @ p # z # vs"
  show u: "RT_MEMHEAP_IS_USED h' = (RT_MEMHEAP_IS_USED h)(p := False)" by (simp add: h' h1)
  have size: "MEMITEM_SIZE h1 p = z - p - RT_MEMHEAP_SIZE" using memitem_size(1)[OF core] by (simp add: h1 MEMITEM_SIZE_def)
  have avail: "available_size h' = free_bytes (RT_MEMHEAP_IS_USED h') ?bs"
    using D(10) used size unfolding u upd_inside(1)[OF D(4)] by (simp add: at_block h' h1)
  have "last ?bs \<noteq> p" using D(4) last_in_set[of "z # vs"] by (auto simp del: last_in_set)
  moreover have "\<forall>b\<in>set ?bs. 4 dvd b \<and> item_pool_ptr h' b = self h' \<and>
      item_magic h' b \<in> {RT_MEMHEAP_MAGIC + RT_MEMHEAP_FREED, RT_MEMHEAP_MAGIC + RT_MEMHEAP_USED}"
    using D(14,15) by (simp add: h' h1 set_magic_def)
  moreover have "set fs = {b \<in> set ?bs. \<not> RT_MEMHEAP_IS_USED h' b} - {p}" using D(9) used by (auto simp: u)
  moreover have "self h' = self h" "start_addr h' = start_addr h" "pool_size h' = pool_size h" "free_list h' = free_list h"
    by (simp_all add: h' h1)
  moreover have "RT_MEMHEAP_IS_USED h' (last ?bs)" using D(11) \<open>last ?bs \<noteq> p\<close> by (simp add: u)
  moreover have "block_chain h' ?bs" "free_ring h' fs" using D(5,6) by (simp_all add: h' h1)
  ultimately show "heap_core h' ?bs fs {p}"
    using D(3,7,8) avail by (intro heap_coreI[OF core]) auto
  have "(p + RT_MEMHEAP_SIZE, n) \<notin> regions ((RT_MEMHEAP_IS_USED h)(p := False)) ?bs" for n
    using region_iff[OF D(4)] by simp
  then show "regions (RT_MEMHEAP_IS_USED h') ?bs
      = regions (RT_MEMHEAP_IS_USED h) ?bs - {(p + RT_MEMHEAP_SIZE, z - p - RT_MEMHEAP_SIZE)}"
    using used unfolding u upd_inside(2)[OF D(4)] by (auto simp: at_block)
qed

text \<open>Two free neighbours become one block. \<open>q\<close> is the one that disappears, from the ring too if it is there.\<close>

lemma join_core:
  assumes core: "heap_core h (us @ p # q # z # vs) fs X" and free: "\<not> RT_MEMHEAP_IS_USED h p" "\<not> RT_MEMHEAP_IS_USED h q"
    and X': "set fs' = {b \<in> set (us @ p # z # vs). \<not> RT_MEMHEAP_IS_USED h b} - X'" and ring: "free_ring h' fs'"
    and chain: "block_chain h' (us @ p # z # vs)"
    and same: "self h' = self h" "start_addr h' = start_addr h" "pool_size h' = pool_size h" "free_list h' = free_list h"
      "item_magic h' = item_magic h" "item_pool_ptr h' = item_pool_ptr h" "available_size h' = available_size h + RT_MEMHEAP_SIZE"
  shows "heap_core h' (us @ p # z # vs) fs' X'"
    "regions (RT_MEMHEAP_IS_USED h') (us @ p # z # vs) = regions (RT_MEMHEAP_IS_USED h) (us @ p # q # z # vs)"
proof -
  note D = heap_coreD[OF core]
  have u: "RT_MEMHEAP_IS_USED h' = RT_MEMHEAP_IS_USED h" using same by (simp add: fun_eq_iff RT_MEMHEAP_IS_USED_def)
  have gaps: "p + RT_MEMHEAP_SIZE + RT_MEMHEAP_MINIALLOC \<le> q" "q + RT_MEMHEAP_SIZE + RT_MEMHEAP_MINIALLOC \<le> z"
    using memitem_size(4)[OF core] memitem_size(4)[of h "us @ [p]" q z vs] core by simp_all
  have sp: "spaced (us @ p # z # vs)" using D(3) gaps
    unfolding spaced_split[where us = us and vs = "z # vs"] spaced_split[where us = us and vs = "q # z # vs"] by auto
  have "available_size h' = free_bytes (RT_MEMHEAP_IS_USED h') (us @ p # z # vs)"
    using D(10) free gaps same(7) unfolding u by (simp add: at_block)
  then show "heap_core h' (us @ p # z # vs) fs' X'"
    using D(7,8,11,14,15) sp ring chain X' same by (intro heap_coreI[OF core]) (auto simp: u hd_append)
  show "regions (RT_MEMHEAP_IS_USED h') (us @ p # z # vs) = regions (RT_MEMHEAP_IS_USED h) (us @ p # q # z # vs)"
    using free unfolding u by (simp add: at_block)
qed

lemma merge_left_ok:
  assumes core: "heap_core h (us @ p # z # vs) fs {p}" and free: "\<not> RT_MEMHEAP_IS_USED h p"
    and m: "merge_left p h = (ins, q, h')"
  shows "\<exists>us'. heap_core h' (us' @ q # z # vs) fs (if ins then {q} else {})
    \<and> regions (RT_MEMHEAP_IS_USED h') (us' @ q # z # vs) = regions (RT_MEMHEAP_IS_USED h) (us @ p # z # vs)
    \<and> (if ins then us' = us \<and> q = p \<and> (us \<noteq> [] \<longrightarrow> RT_MEMHEAP_IS_USED h (last us)) else us = us' @ [q])
    \<and> \<not> RT_MEMHEAP_IS_USED h q \<and> RT_MEMHEAP_IS_USED h' = RT_MEMHEAP_IS_USED h \<and> payload h' = payload h"
proof (cases us rule: rev_cases)
  case Nil
  then have "item_prev h p = last (p # z # vs)" using heap_coreD(5)[OF core] by (simp add: block_chain_def)
  then have "RT_MEMHEAP_IS_USED h (item_prev h p)" using heap_coreD(11)[OF core] Nil by simp
  with m core free Nil show ?thesis by (auto simp: merge_left_def)
next
  case (snoc us' l)
  have core': "heap_core h (us' @ l # p # z # vs) fs {p}" using core snoc by simp
  have nx: "item_prev h p = l" "item_next h p = z"
    using memitem_size(3)[OF core'] memitem_size(2)[OF core] by simp_all
  have d: "distinct (us' @ l # p # z # vs)" using heap_coreD(4)[OF core'] .
  show ?thesis
  proof (cases "RT_MEMHEAP_IS_USED h l")
    case True
    with m core free nx snoc show ?thesis by (auto simp: merge_left_def)
  next
    case False
    have h': "h' = (block_remove l p h)\<lparr>available_size := available_size h + RT_MEMHEAP_SIZE\<rparr>" "ins = False" "q = l"
      using m nx False d by (auto simp: merge_left_def block_remove_def Let_def)
    have u: "RT_MEMHEAP_IS_USED h' = RT_MEMHEAP_IS_USED h" by (simp add: h'(1))
    have fs: "set fs = {b \<in> set (us' @ l # z # vs). \<not> RT_MEMHEAP_IS_USED h b} - {}" using heap_coreD(9)[OF core'] d by auto
    have "free_ring h' fs" "block_chain h' (us' @ l # z # vs)"
      using heap_coreD(6)[OF core'] block_chain_remove[OF heap_coreD(5)[OF core'] d] by (simp_all add: h'(1))
    from join_core[OF core' False free fs this]
    show ?thesis using False snoc by (intro exI[of _ us']) (simp add: h' u[unfolded h'(1)])
  qed
qed

lemma merge_right_ok:
  assumes core: "heap_core h (us @ p # z # vs) fs X" and free: "\<not> RT_MEMHEAP_IS_USED h p" and X: "X \<subseteq> {p}"
  shows "\<exists>vs' fs'. heap_core (merge_right p h) (us @ p # vs') fs' X
    \<and> regions (RT_MEMHEAP_IS_USED (merge_right p h)) (us @ p # vs') = regions (RT_MEMHEAP_IS_USED h) (us @ p # z # vs)
    \<and> vs' = (if RT_MEMHEAP_IS_USED h z then z # vs else vs) \<and> vs' \<noteq> []
    \<and> RT_MEMHEAP_IS_USED (merge_right p h) = RT_MEMHEAP_IS_USED h \<and> payload (merge_right p h) = payload h"
proof (cases "RT_MEMHEAP_IS_USED h z")
  case True
  with memitem_size(2)[OF core] core show ?thesis by (auto simp: merge_right_def)
next
  case False
  have d: "distinct (us @ p # z # vs)" using heap_coreD(4)[OF core] .
  have "z \<noteq> last (us @ p # z # vs)" using free_not_tail[OF core False] .
  then obtain w ws where vs: "vs = w # ws" by (cases vs) auto
  have core': "heap_core h (us @ p # z # w # ws) fs X" using core vs by simp
  let ?h1 = "h\<lparr>available_size := available_size h + RT_MEMHEAP_SIZE\<rparr>"
  have h': "merge_right p h = free_list_remove z (block_remove p z ?h1)"
    using memitem_size(2)[OF core] False by (simp add: merge_right_def Let_def)
  have "z \<in> set fs" using heap_coreD(9)[OF core] False X d by auto
  then obtain as cs where fs: "fs = as @ z # cs" using split_list by metis
  have z: "z \<notin> set (as @ cs)" using heap_coreD(6)[OF core] by (simp add: free_ring_def fs)
  have "free_ring (block_remove p z ?h1) (as @ z # cs)" using heap_coreD(6)[OF core] by (simp add: fs)
  then have ring: "free_ring (merge_right p h) (as @ cs)" unfolding h' by (rule free_ring_remove)
  have chain: "block_chain (merge_right p h) (us @ p # w # ws)"
    using block_chain_remove[of ?h1 us p z w ws] heap_coreD(5)[OF core'] d vs by (simp add: h')
  have "set (as @ cs) = {b \<in> set (us @ p # w # ws). \<not> RT_MEMHEAP_IS_USED h b} - X"
    using heap_coreD(9)[OF core'] z d vs unfolding fs by auto
  from join_core[OF core' free False this ring chain]
  show ?thesis using False vs by (intro exI[of _ vs] exI[of _ "as @ cs"]) (simp add: h')
qed

lemma insert_free_ok:
  assumes core: "heap_core h (us @ p # vs) fs {p}" and free: "\<not> RT_MEMHEAP_IS_USED h p"
  shows "heap_core (free_list_return p h) (us @ p # vs) (p # fs) {}"
proof -
  note D = heap_coreD[OF core]
  have "p \<notin> set (free_list h # fs)" using D(7,9) by auto
  from free_ring_return[OF D(6) this] D free show ?thesis
    by (intro heap_coreI[OF core]) auto
qed

subsection \<open>The operations\<close>

lemma merged_join:
  assumes "merged u us" "merged u vs" "us \<noteq> [] \<longrightarrow> u' (last us)" "vs \<noteq> [] \<longrightarrow> u' (hd vs)"
    "\<And>x. x \<in> set us \<union> set vs \<Longrightarrow> u x \<Longrightarrow> u' x"
  shows "merged u' (us @ p # vs)"
proof -
  have "merged u' us" "merged u' vs" using assms by (auto intro: merged_mono)
  then show ?thesis using assms(3,4) by (auto simp: merged_def successively_append_iff successively_Cons)
qed

lemma merged_appendD: "merged u (us @ vs) \<Longrightarrow> merged u us \<and> merged u vs"
  by (auto simp: merged_def successively_append_iff)

lemma free_correct:
  assumes inv: "heap_inv h (us @ p # z # vs) fs" and used: "RT_MEMHEAP_IS_USED h p"
  shows "\<exists>h' bs' fs'. rt_memheap_free True (p + RT_MEMHEAP_SIZE) h = Some h' \<and> heap_inv h' bs' fs'
    \<and> regions (RT_MEMHEAP_IS_USED h') bs' = regions (RT_MEMHEAP_IS_USED h) (us @ p # z # vs) - {(p + RT_MEMHEAP_SIZE, z - p - RT_MEMHEAP_SIZE)}
    \<and> payload h' = payload h"
proof -
  have core: "heap_core h (us @ p # z # vs) fs {}" and mg: "merged (RT_MEMHEAP_IS_USED h) (us @ p # z # vs)"
    using inv by (simp_all add: heap_inv_def)
  note D = heap_coreD[OF core]
  define h1 where "h1 = (set_magic p RT_MEMHEAP_FREED h)\<lparr>available_size := available_size (set_magic p RT_MEMHEAP_FREED h)
      + MEMITEM_SIZE (set_magic p RT_MEMHEAP_FREED h) p\<rparr>"
  have odd: "odd (item_magic h p)" using used by (simp add: RT_MEMHEAP_IS_USED_def)
  have guards: "item_magic h p = RT_MEMHEAP_MAGIC + RT_MEMHEAP_USED"
    "item_magic h (item_next h p) div 2 * 2 = RT_MEMHEAP_MAGIC" "item_pool_ptr h p = self h"
    using D(14,15)[of p] D(15)[of z] memitem_size(2)[OF core] odd
    by (auto simp: RT_MEMHEAP_MAGIC_def RT_MEMHEAP_USED_def RT_MEMHEAP_FREED_def)
  note mark = mark_free[OF core used refl, of h1, folded h1_def, OF refl]
  obtain ins q h2 where ml: "merge_left p h1 = (ins, q, h2)" by (metis prod_cases3)
  obtain us' where L: "heap_core h2 (us' @ q # z # vs) fs (if ins then {q} else {})"
      "regions (RT_MEMHEAP_IS_USED h2) (us' @ q # z # vs) = regions (RT_MEMHEAP_IS_USED h1) (us @ p # z # vs)"
      "if ins then us' = us \<and> q = p \<and> (us \<noteq> [] \<longrightarrow> RT_MEMHEAP_IS_USED h1 (last us)) else us = us' @ [q]"
      "\<not> RT_MEMHEAP_IS_USED h1 q" "RT_MEMHEAP_IS_USED h2 = RT_MEMHEAP_IS_USED h1" "payload h2 = payload h1"
    using merge_left_ok[OF mark(1) _ ml] mark(2) by auto
  define h3 where "h3 = merge_right q h2"
  have "\<not> RT_MEMHEAP_IS_USED h2 q" "(if ins then {q} else {}) \<subseteq> {q}" using L(4,5) by simp_all
  from merge_right_ok[OF L(1) this, folded h3_def]
  obtain vs' fs' where R: "heap_core h3 (us' @ q # vs') fs' (if ins then {q} else {})"
      "regions (RT_MEMHEAP_IS_USED h3) (us' @ q # vs') = regions (RT_MEMHEAP_IS_USED h2) (us' @ q # z # vs)"
      "vs' = (if RT_MEMHEAP_IS_USED h2 z then z # vs else vs)" "vs' \<noteq> []"
      "RT_MEMHEAP_IS_USED h3 = RT_MEMHEAP_IS_USED h2" "payload h3 = payload h2" by blast
  have res: "rt_memheap_free True (p + RT_MEMHEAP_SIZE) h = Some (if ins then free_list_return q h3 else h3)"
    using guards ml by (simp add: rt_memheap_free_def Let_def h1_def h3_def RT_MEMHEAP_SIZE_def)
  have core': "heap_core (if ins then free_list_return q h3 else h3) (us' @ q # vs') (if ins then q # fs' else fs') {}"
    using insert_free_ok[of h3 us' q vs' fs'] R(1,5) L(4,5) by (cases ins) simp_all
  have u3: "RT_MEMHEAP_IS_USED h3 = (RT_MEMHEAP_IS_USED h)(p := False)" using R(5) L(5) mark(2) by simp
  have "merged (RT_MEMHEAP_IS_USED h3) (us' @ q # vs')"
  proof (rule merged_join)
    have m2: "merged (RT_MEMHEAP_IS_USED h) us" "merged (RT_MEMHEAP_IS_USED h) (z # vs)"
      using merged_appendD[OF mg] merged_appendD[of _ "us @ [p]" "z # vs"] mg by auto
    have d: "distinct (us @ p # z # vs)" using D(4) .
    show "merged (RT_MEMHEAP_IS_USED h) us'"
      using m2(1) L(3) by (cases ins) (auto dest: merged_appendD)
    show "merged (RT_MEMHEAP_IS_USED h) vs'" using m2(2) R(3) by (cases vs) auto
    show "us' \<noteq> [] \<longrightarrow> RT_MEMHEAP_IS_USED h3 (last us')"
      using m2(1) L(3,4) d mark(2) u3 last_in_set[of us'] by (cases ins) (auto simp: merged_def successively_append_iff)
    show "vs' \<noteq> [] \<longrightarrow> RT_MEMHEAP_IS_USED h3 (hd vs')"
      using R(3,4,5) L(5) m2(2) d mark(2) u3 by (cases vs) (auto split: if_splits)
    show "RT_MEMHEAP_IS_USED h3 x" if "x \<in> set us' \<union> set vs'" "RT_MEMHEAP_IS_USED h x" for x
      using that L(3) R(3) d u3 by (cases ins) (auto split: if_splits)
  qed
  then have "heap_inv (if ins then free_list_return q h3 else h3) (us' @ q # vs') (if ins then q # fs' else fs')"
    using core' by (simp add: heap_inv_def)
  moreover have "payload (if ins then free_list_return q h3 else h3) = payload h"
    using R(6) L(6) by (simp add: h1_def)
  moreover have "regions (RT_MEMHEAP_IS_USED (if ins then free_list_return q h3 else h3)) (us' @ q # vs')
      = regions (RT_MEMHEAP_IS_USED h) (us @ p # z # vs) - {(p + RT_MEMHEAP_SIZE, z - p - RT_MEMHEAP_SIZE)}"
    using R(2) L(2) mark(3) by simp
  ultimately show ?thesis using res by blast
qed

text \<open>The search ends: at the first block that is large enough, or at the header of the ring.\<close>

lemma free_search_spec:
  assumes "seg (item_next_free h) (item_prev_free h) (w # cs @ [free_list h])" "free_list h \<notin> set cs" "n < sz"
  shows "(\<exists>c\<in>set cs. sz \<le> MEMITEM_SIZE h c \<and> free_search h sz (hd (cs @ [free_list h])) n = Some (c, MEMITEM_SIZE h c))
    \<or> (\<forall>c\<in>set cs. MEMITEM_SIZE h c < sz) \<and> (\<exists>k. k < sz \<and> free_search h sz (hd (cs @ [free_list h])) n = Some (free_list h, k))"
  using assms
proof (induction cs arbitrary: w n)
  case Nil
  then show ?case by (simp add: free_search.simps[of h sz "free_list h"])
next
  case (Cons c cs)
  have c: "c \<noteq> free_list h" using Cons.prems(2) by auto
  have step: "free_search h sz c n = free_search h sz (if MEMITEM_SIZE h c < sz then item_next_free h c else c) (MEMITEM_SIZE h c)"
    using c Cons.prems(3) by (simp add: free_search.simps[of h sz c n] Let_def)
  show ?case
  proof (cases "MEMITEM_SIZE h c < sz")
    case True
    have "item_next_free h c = hd (cs @ [free_list h])" using Cons.prems(1) by (cases cs) auto
    moreover have "seg (item_next_free h) (item_prev_free h) (c # cs @ [free_list h])" using Cons.prems(1) by simp
    ultimately show ?thesis using Cons.IH[of c "MEMITEM_SIZE h c"] Cons.prems(2) True step by auto
  next
    case False
    then show ?thesis using step by (simp add: free_search.simps[of h sz c "MEMITEM_SIZE h c"])
  qed
qed

lemma request_size_props: "RT_MEMHEAP_MINIALLOC \<le> request_size n" "4 dvd request_size n"
  "n + 3 < 2 ^ 32 \<Longrightarrow> n \<le> request_size n"
proof -
  show "RT_MEMHEAP_MINIALLOC \<le> request_size n" "4 dvd request_size n"
    by (simp_all add: request_size_def Let_def RT_MEMHEAP_MINIALLOC_def)
  assume "n + 3 < 2 ^ 32"
  then have "(n + 3) mod 2 ^ 32 = n + 3" by simp
  moreover have "n \<le> (n + 3) div 4 * 4" by presburger
  ultimately show "n \<le> request_size n" unfolding request_size_def Let_def by (auto split: if_splits)
qed

lemma alloc_correct:
  assumes inv: "heap_inv h bs fs"
  shows "\<exists>p h'. rt_memheap_alloc True n h = Some (p, h') \<and>
    (p = 0 \<and> h' = h \<and> (available_size h \<le> request_size n \<or> (\<forall>b\<in>set fs. MEMITEM_SIZE h b < request_size n)) \<or>
     p \<noteq> 0 \<and> payload h' = payload h \<and> (\<exists>bs' fs' k. heap_inv h' bs' fs' \<and> request_size n \<le> k \<and> (\<forall>j. (p, j) \<notin> regions (RT_MEMHEAP_IS_USED h) bs)
       \<and> regions (RT_MEMHEAP_IS_USED h') bs' = insert (p, k) (regions (RT_MEMHEAP_IS_USED h) bs)))"
proof -
  let ?sz = "request_size n" and ?f = "free_list h" and ?u = "RT_MEMHEAP_IS_USED h"
  have core: "heap_core h bs fs {}" and mg: "merged ?u bs" using inv by (simp_all add: heap_inv_def)
  note D = heap_coreD[OF core]
  have pos: "0 < ?sz" using request_size_props(1)[of n] by (simp add: RT_MEMHEAP_MINIALLOC_def)
  have hd: "item_next_free h ?f = hd (fs @ [?f])" using D(6) by (cases fs) (auto simp: free_ring_def)
  have ring: "seg (item_next_free h) (item_prev_free h) (?f # fs @ [?f])" "?f \<notin> set fs" using D(6) by (auto simp: free_ring_def)
  consider (small) "available_size h \<le> ?sz"
    | (none) k where "?sz < available_size h" "\<forall>c\<in>set fs. MEMITEM_SIZE h c < ?sz" "k < ?sz"
        "free_search h ?sz (item_next_free h ?f) 0 = Some (?f, k)"
    | (found) c where "?sz < available_size h" "c \<in> set fs" "?sz \<le> MEMITEM_SIZE h c"
        "free_search h ?sz (item_next_free h ?f) 0 = Some (c, MEMITEM_SIZE h c)"
    using free_search_spec[OF ring pos, folded hd] by (cases "?sz < available_size h") (auto simp: not_less)
  then show ?thesis
  proof cases
    case found
    have c: "c \<in> set bs" "\<not> ?u c" using D(9) found(2) by auto
    obtain us z vs where bs: "bs = us @ c # z # vs"
      using heap_core_next_block[OF core c(1) free_not_tail[OF core c(2)]] .
    obtain as cs where fs: "fs = as @ c # cs" using found(2) split_list by metis
    note core' = core[unfolded bs fs]
    have size: "MEMITEM_SIZE h c = z - c - RT_MEMHEAP_SIZE" using memitem_size(1)[OF core[unfolded bs]] .
    have fresh: "(c + RT_MEMHEAP_SIZE, j) \<notin> regions ?u bs" for j using region_iff D(4) c(2) bs by metis
    define h' where "h' = set_magic c RT_MEMHEAP_USED (alloc_block c (MEMITEM_SIZE h c) ?sz h)"
    have res: "rt_memheap_alloc True n h = Some (c + RT_MEMHEAP_SIZE, h')"
      using found by (simp add: rt_memheap_alloc_def Let_def h'_def)
    have mgz: "merged ?u us" "merged ?u (z # vs)" "?u z" "us \<noteq> [] \<longrightarrow> ?u (last us)"
      using mg c(2) unfolding bs by (auto simp: merged_def successively_append_iff successively_Cons)
    have d: "distinct (us @ c # z # vs)" using D(4) bs by simp
    have "\<exists>bs' fs' k. heap_inv h' bs' fs' \<and> ?sz \<le> k \<and> payload h' = payload h
       \<and> regions (RT_MEMHEAP_IS_USED h') bs' = insert (c + RT_MEMHEAP_SIZE, k) (regions ?u bs)"
    proof (cases "MEMITEM_SIZE h c \<ge> ?sz + RT_MEMHEAP_SIZE + RT_MEMHEAP_MINIALLOC")
      case True
      define q where "q = c + ?sz + RT_MEMHEAP_SIZE"
      define h1 where "h1 = free_list_insert q (clear_free_links c (free_list_remove c (block_insert c q h)))"
      have h': "h' = set_magic c RT_MEMHEAP_USED (note_max_used (h1\<lparr>available_size := available_size h1 - ?sz - RT_MEMHEAP_SIZE\<rparr>))"
        using True free_available[OF core[unfolded bs] c(2)] available_below(1)[OF core] unfolding size
        by (simp add: h'_def alloc_block_def h1_def q_def Let_def size sub32_le)
      note S = take_split[OF core' c(2) q_def request_size_props(1,2) True[unfolded size] h1_def h']
      have "c \<noteq> q" "z \<noteq> q" "z \<noteq> c" using S(4) d by auto
      then have "merged (RT_MEMHEAP_IS_USED h') ((us @ [c]) @ q # z # vs)"
        using mgz S(2,4) merged_appendD[of ?u "us @ [c]" "z # vs"] mg bs by (intro merged_join[of ?u]) auto
      with S(1,3) bs show ?thesis
        by (intro exI[of _ "us @ c # q # z # vs"] exI[of _ "q # as @ cs"] exI[of _ ?sz]) (simp add: heap_inv_def h' h1_def)
    next
      case False
      have h': "h' = set_magic c RT_MEMHEAP_USED (clear_free_links c (free_list_remove c
          (note_max_used (h\<lparr>available_size := available_size h - (z - c - RT_MEMHEAP_SIZE)\<rparr>))))"
        using False free_available[OF core[unfolded bs] c(2)] available_below(1)[OF core]
        by (simp add: h'_def alloc_block_def Let_def size sub32_le)
      note S = take_whole[OF core' c(2) h']
      have "merged (RT_MEMHEAP_IS_USED h') (us @ c # z # vs)"
        using mg unfolding bs S(2) by (rule merged_mono) simp
      with S(1,3) bs found(3) size show ?thesis
        by (intro exI[of _ bs] exI[of _ "as @ cs"] exI[of _ "z - c - RT_MEMHEAP_SIZE"]) (simp add: heap_inv_def h')
    qed
    with res fresh show ?thesis by (auto simp: RT_MEMHEAP_SIZE_def)
  qed (auto simp: rt_memheap_alloc_def Let_def)
qed

subsection \<open>Resizing\<close>

lemma request_size_idem: "request_size (request_size n) = request_size n"
proof -
  have "(n + 3) mod 2 ^ 32 \<le> 2 ^ 32 - 1" by (simp add: Suc_leI less_Suc_eq_le[symmetric])
  from div_le_mono[OF this, of 4] have "(n + 3) mod 2 ^ 32 div 4 * 4 \<le> 2 ^ 32 - 4" by simp
  then have b: "request_size n \<le> 2 ^ 32 - 4" by (simp add: request_size_def Let_def RT_MEMHEAP_MINIALLOC_def)
  obtain k where k: "request_size n = 4 * k" using request_size_props(2)[of n] by blast
  have "(4 * k + 3) mod 2 ^ 32 = 4 * k + 3" using b k by (intro mod_less) simp
  moreover have "(4 * k + 3) div 4 = k" by simp
  ultimately show ?thesis using request_size_props(1)[of n] k by (simp add: request_size_def[of "4 * k"] Let_def)
qed

text \<open>A used block whose right neighbour moves from \<open>q\<close> to \<open>r\<close>, both free: the block has grown or shrunk.\<close>

lemma resized_regions:
  assumes "distinct (us @ p # q # w # ws)" "u p" "\<not> u q" "r \<notin> set (us @ p # w # ws)" "r \<noteq> p"
    and "distinct (us @ p # r # w # ws)"
  shows "regions (u(r := False)) (us @ p # r # w # ws)
    = insert (p + RT_MEMHEAP_SIZE, r - p - RT_MEMHEAP_SIZE) (regions u (us @ p # q # w # ws) - {(p + RT_MEMHEAP_SIZE, q - p - RT_MEMHEAP_SIZE)})"
    "free_bytes (u(r := False)) (us @ p # r # w # ws) + (w - q - RT_MEMHEAP_SIZE)
      = free_bytes u (us @ p # q # w # ws) + (w - r - RT_MEMHEAP_SIZE)"
proof -
  have n: "r \<notin> set (butlast (us @ [p]))" "r \<notin> set (butlast (w # ws))"
    using assms(4) in_set_butlastD[of r "w # ws"] by auto
  have "(p, b) \<notin> set (pairs (us @ [p]))" "(p, b) \<notin> set (pairs (w # ws))" for b
    using pairs_members[of p b "us @ [p]"] pairs_in_set[of p b "w # ws"] assms(1) by auto
  then have "(p + RT_MEMHEAP_SIZE, m) \<notin> regions u (us @ [p])" "(p + RT_MEMHEAP_SIZE, m) \<notin> regions u (w # ws)" for m
    by (auto simp: regions_def)
  then show "regions (u(r := False)) (us @ p # r # w # ws)
    = insert (p + RT_MEMHEAP_SIZE, r - p - RT_MEMHEAP_SIZE) (regions u (us @ p # q # w # ws) - {(p + RT_MEMHEAP_SIZE, q - p - RT_MEMHEAP_SIZE)})"
    using assms(2,3,5) by (simp add: at_block upd_outside[OF n(1)] upd_outside[OF n(2)])
  show "free_bytes (u(r := False)) (us @ p # r # w # ws) + (w - q - RT_MEMHEAP_SIZE)
      = free_bytes u (us @ p # q # w # ws) + (w - r - RT_MEMHEAP_SIZE)"
    using assms(2,3,5) by (simp add: at_block upd_outside[OF n(1)] upd_outside[OF n(2)])
qed

lemma grow_correct:
  assumes inv: "heap_inv h (us @ p # q # w # ws) fs" and u: "RT_MEMHEAP_IS_USED h p" "\<not> RT_MEMHEAP_IS_USED h q"
    and n: "old = q - p - RT_MEMHEAP_SIZE" "old < new" "4 dvd new" "new + RT_MEMHEAP_MINIALLOC < (w - q - RT_MEMHEAP_SIZE) + old"
    and r: "r = p + RT_MEMHEAP_SIZE + new"
  shows "\<exists>fs'. heap_inv (grow_block p old new h) (us @ p # r # w # ws) fs'
    \<and> regions (RT_MEMHEAP_IS_USED (grow_block p old new h)) (us @ p # r # w # ws)
      = insert (p + RT_MEMHEAP_SIZE, new) (regions (RT_MEMHEAP_IS_USED h) (us @ p # q # w # ws) - {(p + RT_MEMHEAP_SIZE, old)})
    \<and> payload (grow_block p old new h) = payload h"
proof -
  let ?bs = "us @ p # q # w # ws" and ?bs' = "us @ p # r # w # ws" and ?u = "RT_MEMHEAP_IS_USED h"
  have core: "heap_core h ?bs fs {}" and mg: "merged ?u ?bs" using inv by (simp_all add: heap_inv_def)
  note D = heap_coreD[OF core]
  have core2: "heap_core h ((us @ [p]) @ q # w # ws) fs {}" using core by simp
  have gaps: "p + RT_MEMHEAP_SIZE + RT_MEMHEAP_MINIALLOC \<le> q" "q + RT_MEMHEAP_SIZE + RT_MEMHEAP_MINIALLOC \<le> w"
    using memitem_size(4)[OF core] memitem_size(4)[OF core2] .
  have rq: "q < r" "r + RT_MEMHEAP_SIZE + RT_MEMHEAP_MINIALLOC \<le> w" "p + RT_MEMHEAP_SIZE + RT_MEMHEAP_MINIALLOC \<le> r"
    using gaps n r by linarith+
  have sp: "spaced ?bs'" using D(3) rq
    unfolding spaced_split[where us = us and vs = "r # w # ws"] spaced_split[where us = us and vs = "q # w # ws"] by auto
  have d': "distinct ?bs'" using spaced_distinct[OF sp] .
  have notin: "r \<notin> set (us @ p # w # ws)" using d' by auto
  have nx: "item_next h p = q" "item_prev h q = p" "item_next h q = w" using memitem_size(2,3)[OF core] memitem_size(2)[OF core2] by auto
  have "q \<in> set fs" using D(9) u(2) by auto
  then obtain as cs where fs: "fs = as @ q # cs" using split_list by metis
  define h1 where "h1 = note_max_used (h\<lparr>available_size := available_size h - (new - old)\<rparr>)"
  define h2 where "h2 = block_remove p q (free_list_remove q h1)"
  have h': "grow_block p old new h = free_list_insert r (block_insert p r h2)"
  proof -
    have "w < 2 ^ 32" using block_below[OF core, of w] by simp
    then have "sub32 new old = new - old" "(p + RT_MEMHEAP_SIZE + new) mod 2 ^ 32 = r"
      using rq r n(2) by (simp_all add: sub32_le)
    moreover have "sub32 (available_size h) (new - old) = available_size h - (new - old)"
      using free_available[OF core2 u(2)] available_below(1)[OF core] n(2,4) by (intro sub32_le) linarith+
    ultimately show ?thesis using nx by (simp add: grow_block_def Let_def h1_def h2_def)
  qed
  have ring2: "free_ring h2 (as @ cs)" using free_ring_remove[of h1 as q cs] D(6) by (simp add: h2_def h1_def fs)
  have rf: "r \<noteq> free_list h"
    using rq heap_core_order[OF core, of p] heap_core_order[OF core, of w] D(2,16) by (auto simp: RT_MEMHEAP_SIZE_def)
  have "r \<notin> set (as @ cs)" using D(9) notin rq(1) unfolding fs by auto
  then have ring: "free_ring (grow_block p old new h) (r # as @ cs)"
    using free_ring_insert[of "block_insert p r h2" "as @ cs" r] ring2 rf by (simp add: h' h2_def h1_def)
  have "block_chain h2 (us @ p # w # ws)" using block_chain_remove[of "free_list_remove q h1" us p q w ws] D(4,5) by (simp add: h2_def h1_def)
  from block_chain_insert[OF this _ notin] D(4) have chain: "block_chain (grow_block p old new h) ?bs'" by (simp add: h')
  have u': "RT_MEMHEAP_IS_USED (grow_block p old new h) = ?u(r := False)" by (simp add: h' h2_def h1_def)
  have rp: "r \<noteq> p" using notin by auto
  note RR = resized_regions[OF D(4) u notin rp d']
  have dr: "4 dvd r" using D(14)[of p] n(3) r by (simp add: RT_MEMHEAP_SIZE_def)
  have hdr: "4 dvd b \<and> item_pool_ptr (grow_block p old new h) b = self h \<and>
      item_magic (grow_block p old new h) b \<in> {RT_MEMHEAP_MAGIC + RT_MEMHEAP_FREED, RT_MEMHEAP_MAGIC + RT_MEMHEAP_USED}" if "b \<in> set ?bs'" for b
    using that D(14,15)[of b] dr by (auto simp: h' h2_def h1_def block_insert_def Let_def)
  have avail: "available_size (grow_block p old new h) = free_bytes (?u(r := False)) ?bs'"
  proof -
    have "available_size (grow_block p old new h) = available_size h - (new - old)" by (simp add: h' h2_def h1_def)
    moreover have "w - q - RT_MEMHEAP_SIZE = (w - r - RT_MEMHEAP_SIZE) + (new - old)" using gaps rq n r by linarith
    ultimately show ?thesis using RR(2) D(10) by linarith
  qed
  have fsr: "set (r # as @ cs) = {b \<in> set ?bs'. \<not> (?u(r := False)) b} - {}"
  proof (rule set_eqI)
    fix x
    have "x \<in> set (as @ q # cs) \<longleftrightarrow> x \<in> set ?bs \<and> \<not> ?u x" using D(9) unfolding fs by blast
    moreover have "q \<notin> set (as @ cs)" using D(6) by (simp add: free_ring_def fs)
    moreover have "x \<in> set ?bs' \<longleftrightarrow> x = r \<or> x \<in> set ?bs \<and> x \<noteq> q" using D(4) by auto
    ultimately show "x \<in> set (r # as @ cs) \<longleftrightarrow> x \<in> {b \<in> set ?bs'. \<not> (?u(r := False)) b} - {}" by auto
  qed
  have last: "last ?bs' = last ?bs" "hd ?bs' = hd ?bs" by (auto simp: hd_append)
  have ul: "(?u(r := False)) (last ?bs)" using D(11) notin last_in_set[of "w # ws"] by (auto simp del: last_in_set)
  have "heap_core (grow_block p old new h) ?bs' (r # as @ cs) {}"
    using hdr avail fsr ring chain sp last ul D(7,8) rf
    by (intro heap_coreI[OF core]) (simp_all add: u' h' h2_def h1_def)
  moreover have "merged (?u(r := False)) ((us @ [p]) @ r # w # ws)"
  proof (rule merged_join[of ?u])
    show "merged ?u (us @ [p])" "merged ?u (w # ws)"
      using mg merged_appendD[of ?u "us @ [p]" "q # w # ws"] merged_appendD[of ?u "us @ [p, q]" "w # ws"] by auto
    have "?u w" using mg u(2) merged_appendD[of ?u "us @ [p]" "q # w # ws"] by auto
    then show "w # ws \<noteq> [] \<longrightarrow> (?u(r := False)) (hd (w # ws))" using notin by auto
  qed (use u notin in auto)
  moreover have "payload (grow_block p old new h) = payload h" by (simp add: h' h2_def h1_def)
  moreover have "r - p - RT_MEMHEAP_SIZE = new" using r by simp
  ultimately show ?thesis using RR(1)[folded n(1)] by (intro exI[of _ "r # as @ cs"]) (simp add: heap_inv_def u')
qed

lemma split_used:
  assumes core: "heap_core h (us @ p # z # vs) fs {}" and u: "RT_MEMHEAP_IS_USED h p"
    and r: "r = p + new + RT_MEMHEAP_SIZE" "RT_MEMHEAP_MINIALLOC \<le> new" "4 dvd new"
      "new + RT_MEMHEAP_SIZE + RT_MEMHEAP_MINIALLOC < z - p - RT_MEMHEAP_SIZE"
    and h1: "h1 = block_insert p r h"
    and h': "h' = h1\<lparr>available_size := available_size h1 + (z - r - RT_MEMHEAP_SIZE)\<rparr>"
  shows "heap_core h' (us @ p # r # z # vs) fs {r}" "RT_MEMHEAP_IS_USED h' = (RT_MEMHEAP_IS_USED h)(r := False)"
    "regions (RT_MEMHEAP_IS_USED h') (us @ p # r # z # vs)
      = insert (p + RT_MEMHEAP_SIZE, new) (regions (RT_MEMHEAP_IS_USED h) (us @ p # z # vs) - {(p + RT_MEMHEAP_SIZE, z - p - RT_MEMHEAP_SIZE)})"
    "r \<notin> set (us @ p # z # vs)" "r + RT_MEMHEAP_SIZE + RT_MEMHEAP_MINIALLOC \<le> z"
proof -
  let ?bs = "us @ p # z # vs" and ?bs' = "us @ p # r # z # vs" and ?u = "RT_MEMHEAP_IS_USED h"
  note D = heap_coreD[OF core]
  have rz: "p + RT_MEMHEAP_SIZE + RT_MEMHEAP_MINIALLOC \<le> r" "r + RT_MEMHEAP_SIZE + RT_MEMHEAP_MINIALLOC \<le> z"
    using r by linarith+
  have sp: "spaced ?bs'" using D(3) rz
    unfolding spaced_split[where us = us and vs = "r # z # vs"] spaced_split[where us = us and vs = "z # vs"] by auto
  have d': "distinct ?bs'" using spaced_distinct[OF sp] .
  then show notin: "r \<notin> set ?bs" by auto
  show "r + RT_MEMHEAP_SIZE + RT_MEMHEAP_MINIALLOC \<le> z" by (rule rz(2))
  show u': "RT_MEMHEAP_IS_USED h' = ?u(r := False)" by (simp add: h' h1)
  have n: "r \<notin> set (butlast (us @ [p]))" "r \<notin> set (butlast (z # vs))" "r \<noteq> p"
    using notin in_set_butlastD[of r "z # vs"] by auto
  have reg: "(p + RT_MEMHEAP_SIZE, m) \<notin> regions (?u(p := False)) ?bs" for m using region_iff[OF D(4)] by simp
  have e: "r - p - RT_MEMHEAP_SIZE = new" using r(1) by simp
  show "regions (RT_MEMHEAP_IS_USED h') ?bs'
      = insert (p + RT_MEMHEAP_SIZE, new) (regions ?u ?bs - {(p + RT_MEMHEAP_SIZE, z - p - RT_MEMHEAP_SIZE)})"
    using u e n(3) reg unfolding u' upd_inside(2)[OF D(4)]
    by (simp add: at_block upd_outside[OF n(1)] upd_outside[OF n(2)])
  have "free_bytes (?u(r := False)) ?bs' = free_bytes ?u ?bs + (z - r - RT_MEMHEAP_SIZE)"
    using u n(3) by (simp add: at_block upd_outside[OF n(1)] upd_outside[OF n(2)])
  then have avail: "available_size h' = free_bytes (?u(r := False)) ?bs'" using D(10) by (simp add: h' h1)
  have dr: "4 dvd r" using D(14)[of p] r(1,3) by (simp add: RT_MEMHEAP_SIZE_def)
  have hdr: "4 dvd b \<and> item_pool_ptr h' b = self h \<and>
      item_magic h' b \<in> {RT_MEMHEAP_MAGIC + RT_MEMHEAP_FREED, RT_MEMHEAP_MAGIC + RT_MEMHEAP_USED}" if "b \<in> set ?bs'" for b
    using that D(14,15)[of b] dr by (auto simp: h' h1 block_insert_def Let_def)
  have rf: "r \<noteq> free_list h"
    using rz heap_core_order[OF core, of p] heap_core_order[OF core, of z] D(2,16) by (auto simp: RT_MEMHEAP_SIZE_def)
  have ul: "(?u(r := False)) (last ?bs)" using D(11) notin last_in_set[of "z # vs"] by (auto simp del: last_in_set)
  have "set fs = {b \<in> set ?bs'. \<not> (?u(r := False)) b} - {r}" using D(9) notin by auto
  then show "heap_core h' ?bs' fs {r}"
    using hdr avail sp ul D(6,7,8) rf block_chain_insert[OF D(5,4) notin]
    by (intro heap_coreI[OF core]) (simp_all add: u' hd_append, simp_all add: h' h1)
qed

lemma insert_free_front:
  assumes core: "heap_core h (us @ p # vs) fs {p}" and free: "\<not> RT_MEMHEAP_IS_USED h p"
  shows "heap_core (free_list_insert p h) (us @ p # vs) (p # fs) {}"
proof -
  note D = heap_coreD[OF core]
  have "p \<notin> set (free_list h # fs)" using D(7,9) by auto
  from free_ring_insert[OF D(6) this] D free show ?thesis
    by (intro heap_coreI[OF core]) auto
qed

lemma available_commute:
  "free_list_insert p (h\<lparr>available_size := a\<rparr>) = (free_list_insert p h)\<lparr>available_size := a\<rparr>"
  "free_list_remove p (h\<lparr>available_size := a\<rparr>) = (free_list_remove p h)\<lparr>available_size := a\<rparr>"
  "block_remove p q (h\<lparr>available_size := a\<rparr>) = (block_remove p q h)\<lparr>available_size := a\<rparr>"
  by (simp_all add: free_list_insert_def free_list_remove_def block_remove_def Let_def)

text \<open>Shrinking is splitting the block, merging the rest with its right neighbour and inserting it.\<close>

lemma shrink_block_steps:
  assumes core: "heap_core h (us @ p # z # vs) fs {}"
    and r: "r = p + new + RT_MEMHEAP_SIZE" "r \<notin> set (us @ p # z # vs)" "r + RT_MEMHEAP_SIZE + RT_MEMHEAP_MINIALLOC \<le> z"
    and h1: "h1 = block_insert p r h" and k: "k = h1\<lparr>available_size := available_size h1 + (z - r - RT_MEMHEAP_SIZE)\<rparr>"
  shows "shrink_block p new h = free_list_insert r (merge_right r k)"
proof -
  have nx: "item_next h p = z" using memitem_size(2)[OF core] .
  have ne: "r \<noteq> p" "r \<noteq> z" "p \<noteq> z" using r(2) heap_coreD(4)[OF core] by auto
  have nx1: "item_next h1 r = z" "item_next h1 z = item_next h z" using nx ne by (simp_all add: h1 block_insert_def Let_def)
  have u1: "RT_MEMHEAP_IS_USED h1 z = RT_MEMHEAP_IS_USED h z" using ne by (simp add: h1)
  have z: "z < 2 ^ 32" using block_below[OF core, of z] by simp
  show ?thesis
  proof (cases "RT_MEMHEAP_IS_USED h z")
    case True
    have "MEMITEM_SIZE (free_list_insert r h1) r = z - r - RT_MEMHEAP_SIZE"
      using nx1(1) r(3) z by (intro memitem_size_raw) simp_all
    then show ?thesis using True u1 nx1 ne by (simp add: shrink_block_def merge_right_def Let_def k available_commute flip: r(1) h1)
  next
    case False
    have "z \<noteq> last (us @ p # z # vs)" using free_not_tail[OF core False] .
    then obtain w ws where vs: "vs = w # ws" by (cases vs) auto
    have core2: "heap_core h ((us @ [p]) @ z # w # ws) fs {}" using core vs by simp
    have zw: "item_next h z = w" "z + RT_MEMHEAP_SIZE + RT_MEMHEAP_MINIALLOC \<le> w" using memitem_size(2,4)[OF core2] .
    have w: "w < 2 ^ 32" using block_below[OF core2, of w] by simp
    let ?m = "free_list_remove z (block_remove r z h1)"
    have s1: "MEMITEM_SIZE h1 z = w - z - RT_MEMHEAP_SIZE" using nx1(2) zw w by (intro memitem_size_raw) simp_all
    have "item_next ?m r = w" using nx1 zw ne by (simp add: block_remove_def Let_def)
    then have s2: "MEMITEM_SIZE ((free_list_insert r ?m)\<lparr>available_size := a\<rparr>) r = w - r - RT_MEMHEAP_SIZE" for a
      using r(3) zw w by (intro memitem_size_raw) simp_all
    have "w - z - RT_MEMHEAP_SIZE \<le> available_size h"
      using heap_coreD(10)[OF core2] False unfolding at_block by simp
    moreover from this have "sub32 (available_size h1) (w - z - RT_MEMHEAP_SIZE) = available_size h1 - (w - z - RT_MEMHEAP_SIZE)"
      using available_below(1)[OF core] by (simp add: h1 sub32_le)
    ultimately have "sub32 (available_size h1) (w - z - RT_MEMHEAP_SIZE) + (w - r - RT_MEMHEAP_SIZE)
        = available_size h1 + (z - r - RT_MEMHEAP_SIZE) + RT_MEMHEAP_SIZE"
      using r(3) zw(2) by (simp add: h1)
    then show ?thesis using False u1 nx1 s1 s2 ne
      by (simp add: shrink_block_def merge_right_def Let_def k available_commute flip: r(1) h1)
  qed
qed

lemma shrink_correct:
  assumes inv: "heap_inv h (us @ p # z # vs) fs" and u: "RT_MEMHEAP_IS_USED h p"
    and n: "RT_MEMHEAP_MINIALLOC \<le> new" "4 dvd new" "new + RT_MEMHEAP_SIZE + RT_MEMHEAP_MINIALLOC < z - p - RT_MEMHEAP_SIZE"
  shows "\<exists>bs' fs'. heap_inv (shrink_block p new h) bs' fs'
    \<and> regions (RT_MEMHEAP_IS_USED (shrink_block p new h)) bs'
      = insert (p + RT_MEMHEAP_SIZE, new) (regions (RT_MEMHEAP_IS_USED h) (us @ p # z # vs) - {(p + RT_MEMHEAP_SIZE, z - p - RT_MEMHEAP_SIZE)})
    \<and> payload (shrink_block p new h) = payload h"
proof -
  let ?u = "RT_MEMHEAP_IS_USED h"
  have core: "heap_core h (us @ p # z # vs) fs {}" and mg: "merged ?u (us @ p # z # vs)" using inv by (simp_all add: heap_inv_def)
  define r where "r = p + new + RT_MEMHEAP_SIZE"
  define h1 where "h1 = block_insert p r h"
  define k where "k = h1\<lparr>available_size := available_size h1 + (z - r - RT_MEMHEAP_SIZE)\<rparr>"
  note S = split_used[OF core u r_def n h1_def k_def]
  have core2: "heap_core k ((us @ [p]) @ r # z # vs) fs {r}" using S(1) by simp
  have free: "\<not> RT_MEMHEAP_IS_USED k r" by (simp add: S(2))
  have zr: "z \<noteq> r" using S(4) by auto
  obtain vs' fs' where R: "heap_core (merge_right r k) ((us @ [p]) @ r # vs') fs' {r}"
      "regions (RT_MEMHEAP_IS_USED (merge_right r k)) ((us @ [p]) @ r # vs') = regions (RT_MEMHEAP_IS_USED k) ((us @ [p]) @ r # z # vs)"
      "vs' = (if RT_MEMHEAP_IS_USED k z then z # vs else vs)" "vs' \<noteq> []"
      "RT_MEMHEAP_IS_USED (merge_right r k) = RT_MEMHEAP_IS_USED k" "payload (merge_right r k) = payload k"
    using merge_right_ok[OF core2 free subset_refl] by blast
  have eq: "shrink_block p new h = free_list_insert r (merge_right r k)"
    by (rule shrink_block_steps[OF core r_def S(4,5) h1_def k_def])
  have "heap_core (shrink_block p new h) ((us @ [p]) @ r # vs') (r # fs') {}"
    unfolding eq using insert_free_front[OF R(1)] R(5) free by simp
  moreover have "merged (?u(r := False)) ((us @ [p]) @ r # vs')"
  proof (rule merged_join[of ?u])
    show "merged ?u (us @ [p])" "merged ?u vs'"
      using merged_appendD[of ?u "us @ [p]" "z # vs"] mg R(3) by (auto dest: merged_appendD[of ?u "[z]" vs, simplified])
    show "vs' \<noteq> [] \<longrightarrow> (?u(r := False)) (hd vs')"
      using mg R(3) S(2,4) zr by (cases vs) (auto simp: merged_def successively_append_iff split: if_splits)
    show "us @ [p] \<noteq> [] \<longrightarrow> (?u(r := False)) (last (us @ [p]))" using u S(4) by auto
    show "(?u(r := False)) x" if "x \<in> set (us @ [p]) \<union> set vs'" "?u x" for x
      using that S(4) R(3) by (auto split: if_splits)
  qed
  ultimately show ?thesis using R(2,5,6) S(2,3)
    by (intro exI[of _ "(us @ [p]) @ r # vs'"] exI[of _ "r # fs'"]) (simp add: heap_inv_def eq, simp add: k_def h1_def)
qed

lemma heap_inv_copy [simp]: "heap_inv (copy_payload d s' n h) bs fs = heap_inv h bs fs"
  by (simp add: heap_inv_def heap_core_def)

lemma region_blockE:
  assumes "(ptr, n) \<in> regions u bs"
  obtains us p z vs where "bs = us @ p # z # vs" "u p" "ptr = p + RT_MEMHEAP_SIZE" "n = z - p - RT_MEMHEAP_SIZE"
proof -
  obtain p z where "(p, z) \<in> set (pairs bs)" "u p" "ptr = p + RT_MEMHEAP_SIZE" "n = z - p - RT_MEMHEAP_SIZE"
    using assms by (auto simp: regions_def)
  with pairs_decomp[of p z bs] that show ?thesis by blast
qed

text \<open>The regions a heap has handed out.\<close>

definition represents :: "rt_memheap \<Rightarrow> (nat \<times> nat) set \<Rightarrow> bool" where
  "represents h A \<longleftrightarrow> (\<exists>bs fs. heap_inv h bs fs \<and> A = regions (RT_MEMHEAP_IS_USED h) bs)"

lemma represents_apart: "represents h A \<Longrightarrow> r \<in> A \<Longrightarrow> s \<in> A \<Longrightarrow> r \<noteq> s \<Longrightarrow> apart r s"
  unfolding represents_def heap_inv_def using heap_coreD(3) regions_apart by blast

lemma represents_alloc:
  assumes "represents h A"
  shows "\<exists>p h'. rt_memheap_alloc True n h = Some (p, h') \<and> payload h' = payload h \<and>
    (p = 0 \<and> h' = h \<or>
     p \<noteq> 0 \<and> (\<exists>k\<ge>request_size n. represents h' (insert (p, k) A) \<and> (\<forall>r\<in>A. apart (p, k) r) \<and> (\<forall>j. (p, j) \<notin> A)))"
proof -
  obtain bs fs where b: "heap_inv h bs fs" "A = regions (RT_MEMHEAP_IS_USED h) bs" using assms by (auto simp: represents_def)
  obtain p h' where a: "rt_memheap_alloc True n h = Some (p, h')" and c: "p = 0 \<and> h' = h \<or>
     p \<noteq> 0 \<and> payload h' = payload h \<and> (\<exists>bs' fs' k. heap_inv h' bs' fs' \<and> request_size n \<le> k \<and> (\<forall>j. (p, j) \<notin> A)
       \<and> regions (RT_MEMHEAP_IS_USED h') bs' = insert (p, k) A)"
    using alloc_correct[OF b(1), of n] unfolding b(2) by blast
  have "\<forall>r\<in>A. apart (p, k) r" if "represents h' (insert (p, k) A)" "\<forall>j. (p, j) \<notin> A" for k
    using represents_apart[OF that(1)] that(2) by (metis insertCI)
  with a c show ?thesis unfolding represents_def by (metis (no_types))
qed

lemma represents_free:
  assumes "represents h A" "(ptr, n) \<in> A"
  shows "\<exists>h'. rt_memheap_free True ptr h = Some h' \<and> represents h' (A - {(ptr, n)}) \<and> payload h' = payload h"
proof -
  obtain bs fs where b: "heap_inv h bs fs" "A = regions (RT_MEMHEAP_IS_USED h) bs" using assms by (auto simp: represents_def)
  obtain us p z vs where p: "bs = us @ p # z # vs" "RT_MEMHEAP_IS_USED h p" "ptr = p + RT_MEMHEAP_SIZE" "n = z - p - RT_MEMHEAP_SIZE"
    using assms(2) unfolding b(2) by (rule region_blockE)
  from free_correct[OF b(1)[unfolded p(1)] p(2)] show ?thesis
    unfolding represents_def b(2) p(1,3,4) by blast
qed

text \<open>What resizing promises: the region moves or changes its size, its contents and all other regions stay.\<close>

definition resized :: "rt_memheap \<Rightarrow> (nat \<times> nat) set \<Rightarrow> nat \<times> nat \<Rightarrow> nat \<Rightarrow> nat \<Rightarrow> rt_memheap \<Rightarrow> bool" where
  "resized h A r sz q h' \<longleftrightarrow>
     (\<exists>k\<ge>sz. represents h' (insert (q, k) (A - {r})) \<and> (\<forall>i<min (snd r) sz. payload h' (q + i) = payload h (fst r + i))) \<and>
     (\<forall>(s, m)\<in>A - {r}. \<forall>i<m. payload h' (s + i) = payload h (s + i))"

lemma represents_move:
  assumes rep: "represents h A" and r: "(ptr, old) \<in> A" and ptr: "ptr \<noteq> 0"
  shows "\<exists>q h'. move_block True ptr old (request_size n) h = Some (q, h') \<and>
    (q = 0 \<and> h' = h \<or> q \<noteq> 0 \<and> resized h A (ptr, old) (request_size n) q h')"
proof -
  let ?sz = "request_size n"
  obtain q h1 where a: "rt_memheap_alloc True ?sz h = Some (q, h1)" "payload h1 = payload h"
    and c: "q = 0 \<and> h1 = h \<or> q \<noteq> 0 \<and> (\<exists>k\<ge>?sz. represents h1 (insert (q, k) A) \<and> (\<forall>r\<in>A. apart (q, k) r) \<and> (\<forall>j. (q, j) \<notin> A))"
    using represents_alloc[OF rep, of ?sz] unfolding request_size_idem by blast
  show ?thesis
  proof (cases "q = 0")
    case True
    with a c show ?thesis by (simp add: move_block_def)
  next
    case False
    then obtain k where k: "k \<ge> ?sz" "represents h1 (insert (q, k) A)" "\<forall>r\<in>A. apart (q, k) r" "\<forall>j. (q, j) \<notin> A" using c by blast
    define m where "m = (if old < ?sz then old else ?sz)"
    have "represents (copy_payload q ptr m h1) (insert (q, k) A)" using k(2) by (simp add: represents_def)
    from represents_free[OF this, of ptr old] r
    obtain h2 where h2: "rt_memheap_free True ptr (copy_payload q ptr m h1) = Some h2"
      "represents h2 (insert (q, k) A - {(ptr, old)})" "payload h2 = payload (copy_payload q ptr m h1)" by blast
    have "(q, k) \<noteq> (ptr, old)" using k(4) r by blast
    then have "insert (q, k) A - {(ptr, old)} = insert (q, k) (A - {(ptr, old)})" by auto
    then have "represents h2 (insert (q, k) (A - {(ptr, old)}))" using h2(2) by simp
    moreover have "payload h2 (q + i) = payload h (ptr + i)" if "i < min old ?sz" for i
      using that h2(3) a(2) by (simp add: copy_payload_def m_def min_def split: if_splits)
    moreover have "payload h2 (s + i) = payload h (s + i)" if "(s, l) \<in> A - {(ptr, old)}" "i < l" for s l i
    proof -
      have "apart (q, k) (s, l)" using k(3) that(1) by blast
      then have "\<not> (q \<le> s + i \<and> s + i < q + m)" using that(2) k(1) by (auto simp: apart_def m_def)
      then show ?thesis using h2(3) a(2) by (auto simp: copy_payload_def)
    qed
    ultimately have "resized h A (ptr, old) ?sz q h2" using k(1) unfolding resized_def by (auto intro!: exI[of _ k])
    moreover have "move_block True ptr old ?sz h = Some (q, h2)" using a(1) h2(1) False by (simp add: move_block_def m_def)
    ultimately show ?thesis using False by blast
  qed
qed

text \<open>
  The largest request whose size, with the minimum of a new free block added, is still a 32-bit number. Beyond it
  the comparison that lets a block grow in place wraps.
\<close>

definition MAX_REQUEST :: nat where "MAX_REQUEST = 2 ^ 32 - 16"

lemma request_size_max:
  assumes "n \<le> MAX_REQUEST"
  shows "(request_size n + RT_MEMHEAP_MINIALLOC) mod 2 ^ 32 = request_size n + RT_MEMHEAP_MINIALLOC"
proof -
  have "(n + 3) mod 2 ^ 32 = n + 3" using assms by (intro mod_less) (simp add: MAX_REQUEST_def)
  moreover have "(n + 3) div 4 * 4 \<le> 2 ^ 32 - 16"
    using div_le_mono[of "n + 3" "2 ^ 32 - 13" 4] assms by (simp add: MAX_REQUEST_def)
  ultimately have "request_size n \<le> 2 ^ 32 - 16" by (simp add: request_size_def Let_def RT_MEMHEAP_MINIALLOC_def)
  then show ?thesis by (intro mod_less) (simp add: RT_MEMHEAP_MINIALLOC_def)
qed

lemma neighbour_sizes:
  assumes core: "heap_core h (us @ p # z # vs) fs {}" and free: "\<not> RT_MEMHEAP_IS_USED h z"
  shows "(MEMITEM_SIZE h z + (z - p - RT_MEMHEAP_SIZE)) mod 2 ^ 32 = MEMITEM_SIZE h z + (z - p - RT_MEMHEAP_SIZE)"
proof -
  have "z \<noteq> last (us @ p # z # vs)" using free_not_tail[OF core free] .
  then obtain w ws where vs: "vs = w # ws" by (cases vs) auto
  have core2: "heap_core h ((us @ [p]) @ z # w # ws) fs {}" using core vs by simp
  have "w < 2 ^ 32" using block_below[OF core2, of w] by simp
  then show ?thesis using memitem_size(1,4)[OF core2] memitem_size(4)[OF core] by (intro mod_less) simp
qed

lemma represents_realloc:
  assumes rep: "represents h A" and r: "(ptr, old) \<in> A" and n: "n \<noteq> 0" "n \<le> MAX_REQUEST"
  shows "\<exists>q h'. rt_memheap_realloc True ptr n h = Some (q, h') \<and>
    (q = 0 \<and> h' = h \<or> q \<noteq> 0 \<and> resized h A (ptr, old) (request_size n) q h')"
proof -
  let ?sz = "request_size n"
  obtain bs fs where b: "heap_inv h bs fs" "A = regions (RT_MEMHEAP_IS_USED h) bs" using rep by (auto simp: represents_def)
  obtain us p z vs where p: "bs = us @ p # z # vs" "RT_MEMHEAP_IS_USED h p" "ptr = p + RT_MEMHEAP_SIZE" "old = z - p - RT_MEMHEAP_SIZE"
    using r unfolding b(2) by (rule region_blockE)
  have core: "heap_core h (us @ p # z # vs) fs {}" using b(1) p(1) by (simp add: heap_inv_def)
  note M = memitem_size[OF core]
  have ptr: "ptr \<noteq> 0" "ptr - RT_MEMHEAP_SIZE = p" using p(3) by (simp_all add: RT_MEMHEAP_SIZE_def)
  have zp: "z > p" using M(4) by (simp add: RT_MEMHEAP_SIZE_def)
  note n32 = request_size_max[OF n(2)]
  have m32: "(MEMITEM_SIZE h z + old) mod 2 ^ 32 = MEMITEM_SIZE h z + old" if "\<not> RT_MEMHEAP_IS_USED h z"
    unfolding p(4) by (rule neighbour_sizes[OF core that])
  have stay: "resized h A (ptr, old) ?sz ptr h'"
    if "heap_inv h' bs' fs'" "regions (RT_MEMHEAP_IS_USED h') bs' = insert (ptr, k) (A - {(ptr, old)})" "?sz \<le> k" "payload h' = payload h" for h' bs' fs' k
    using that unfolding resized_def represents_def by (auto intro!: exI[of _ k])
  consider (grow) "?sz > old" "\<not> RT_MEMHEAP_IS_USED h z" "MEMITEM_SIZE h z + old > ?sz + RT_MEMHEAP_MINIALLOC"
    | (move) "?sz > old" "\<not> (\<not> RT_MEMHEAP_IS_USED h z \<and> MEMITEM_SIZE h z + old > ?sz + RT_MEMHEAP_MINIALLOC)"
    | (same) "?sz \<le> old" "?sz + RT_MEMHEAP_SIZE + RT_MEMHEAP_MINIALLOC \<ge> old"
    | (shrink) "?sz \<le> old" "?sz + RT_MEMHEAP_SIZE + RT_MEMHEAP_MINIALLOC < old" by linarith
  then show ?thesis
  proof cases
    case grow
    have "z \<noteq> last (us @ p # z # vs)" using free_not_tail[OF core grow(2)] .
    then obtain w ws where vs: "vs = w # ws" by (cases vs) auto
    have core2: "heap_core h ((us @ [p]) @ z # w # ws) fs {}" using core vs by simp
    have lim: "?sz + RT_MEMHEAP_MINIALLOC < (w - z - RT_MEMHEAP_SIZE) + old" using grow(3) memitem_size(1)[OF core2] by simp
    from grow_correct[OF _ p(2) grow(2) p(4) grow(1) request_size_props(2) lim refl] b(1) p(1) vs
    obtain bs' fs' where g: "heap_inv (grow_block p old ?sz h) bs' fs'"
      "regions (RT_MEMHEAP_IS_USED (grow_block p old ?sz h)) bs' = insert (ptr, ?sz) (A - {(ptr, old)})"
      "payload (grow_block p old ?sz h) = payload h" unfolding b(2) p(1,3) vs by blast
    have "rt_memheap_realloc True ptr n h = Some (ptr, grow_block p old ?sz h)"
      using grow n ptr M(1,2) p(4) zp n32 m32 by (simp add: rt_memheap_realloc_def Let_def)
    with stay[OF g(1,2) order_refl g(3)] ptr(1) show ?thesis by blast
  next
    case move
    have "rt_memheap_realloc True ptr n h = move_block True ptr old ?sz h"
      using move n ptr M(1,2) p(4) zp n32 m32 by (auto simp: rt_memheap_realloc_def Let_def)
    with represents_move[OF rep r ptr(1), of n] show ?thesis by simp
  next
    case same
    have "rt_memheap_realloc True ptr n h = Some (ptr, h)"
      using same n ptr M(1) p(4) by (simp add: rt_memheap_realloc_def Let_def)
    moreover have "insert (ptr, old) (A - {(ptr, old)}) = A" using r by blast
    ultimately show ?thesis using stay[OF b(1) _ same(1) refl] b(2) ptr(1) by auto
  next
    case shrink
    from shrink_correct[OF _ p(2) request_size_props(1,2) shrink(2)[unfolded p(4)]] b(1) p(1)
    obtain bs' fs' where g: "heap_inv (shrink_block p ?sz h) bs' fs'"
      "regions (RT_MEMHEAP_IS_USED (shrink_block p ?sz h)) bs' = insert (ptr, ?sz) (A - {(ptr, old)})"
      "payload (shrink_block p ?sz h) = payload h" unfolding b(2) p(1,3,4) by blast
    have "rt_memheap_realloc True ptr n h = Some (ptr, shrink_block p ?sz h)"
      using shrink n ptr M(1) p(4) by (simp add: rt_memheap_realloc_def Let_def)
    with stay[OF g(1,2) order_refl g(3)] ptr(1) show ?thesis by blast
  qed
qed

lemma represents_inside:
  assumes "represents h A" "(p, k) \<in> A"
  shows "start_addr h + RT_MEMHEAP_SIZE \<le> p" "p + k + RT_MEMHEAP_SIZE \<le> start_addr h + pool_size h" "4 dvd p"
    "RT_MEMHEAP_MINIALLOC \<le> k" "p \<noteq> 0"
proof -
  obtain bs fs where b: "heap_core h bs fs {}" "A = regions (RT_MEMHEAP_IS_USED h) bs"
    using assms(1) by (auto simp: represents_def heap_inv_def)
  obtain us a z vs where a: "bs = us @ a # z # vs" "p = a + RT_MEMHEAP_SIZE" "k = z - a - RT_MEMHEAP_SIZE"
    using assms(2) unfolding b(2) by (rule region_blockE)
  note M = memitem_size(4)[OF b(1)[unfolded a(1)]]
  have "start_addr h \<le> a" "z \<le> last bs" using heap_core_order[OF b(1)] a(1) by auto
  then show "start_addr h + RT_MEMHEAP_SIZE \<le> p" "p + k + RT_MEMHEAP_SIZE \<le> start_addr h + pool_size h"
    using a M heap_coreD(2)[OF b(1)] by auto
  show "4 dvd p" using heap_coreD(14)[OF b(1), of a] a by (simp add: RT_MEMHEAP_SIZE_def)
  show "RT_MEMHEAP_MINIALLOC \<le> k" "p \<noteq> 0" using a M by (auto simp: RT_MEMHEAP_SIZE_def)
qed

text \<open>When everything has been returned the heap is one free block again.\<close>

lemma represents_empty:
  assumes "represents h {}"
  shows "available_size h = pool_size h - 2 * RT_MEMHEAP_SIZE"
    "request_size n < pool_size h - 2 * RT_MEMHEAP_SIZE \<Longrightarrow> \<exists>p h'. rt_memheap_alloc True n h = Some (p, h') \<and> p \<noteq> 0"
proof -
  obtain bs fs where inv: "heap_inv h bs fs" and reg: "regions (RT_MEMHEAP_IS_USED h) bs = {}"
    using assms by (auto simp: represents_def)
  have b: "heap_core h bs fs {}" "merged (RT_MEMHEAP_IS_USED h) bs" using inv by (simp_all add: heap_inv_def)
  obtain a z vs where bs: "bs = a # z # vs" using heap_coreD(8)[OF b(1)] by (cases bs; cases "tl bs") auto
  have na: "\<not> RT_MEMHEAP_IS_USED h a" using reg bs by (auto split: if_splits)
  have vs: "vs = []"
  proof (cases vs)
    case (Cons w ws)
    then show ?thesis using b(2) reg na bs by (auto split: if_splits)
  qed simp
  have M: "MEMITEM_SIZE h a = z - a - RT_MEMHEAP_SIZE" "a + RT_MEMHEAP_SIZE + RT_MEMHEAP_MINIALLOC \<le> z"
    using memitem_size(1,4)[of h "[]" a z vs fs "{}"] b(1) bs by simp_all
  show av: "available_size h = pool_size h - 2 * RT_MEMHEAP_SIZE"
    using heap_coreD(1,2,10)[OF b(1)] bs vs na M by simp
  have "a \<in> set fs" using heap_coreD(9)[OF b(1)] na bs by simp
  moreover have "MEMITEM_SIZE h a = available_size h" using heap_coreD(10)[OF b(1)] bs vs na M by simp
  ultimately show "\<exists>p h'. rt_memheap_alloc True n h = Some (p, h') \<and> p \<noteq> 0" if "request_size n < pool_size h - 2 * RT_MEMHEAP_SIZE"
    using alloc_correct[OF inv, of n] that av by fastforce
qed

lemma represents_init:
  assumes "0 < start" "4 dvd start" "start + sz \<le> 2 ^ 32" "2 * RT_MEMHEAP_SIZE + RT_MEMHEAP_MINIALLOC \<le> sz"
    and "hdr < start \<or> start + sz \<le> hdr"
  shows "represents (rt_memheap_init me hdr start sz h) {}"
proof -
  define pool where "pool = sz div 4 * 4"
  define tail where "tail = start + (pool - 2 * RT_MEMHEAP_SIZE) + RT_MEMHEAP_SIZE"
  have p: "pool \<le> sz" "60 \<le> pool" "4 dvd pool"
    using assms(4) div_le_mono[of 60 sz 4] by (simp_all add: pool_def RT_MEMHEAP_SIZE_def RT_MEMHEAP_MINIALLOC_def)
  have t: "start + 36 \<le> tail" "tail + 24 = start + pool" using p by (simp_all add: tail_def RT_MEMHEAP_SIZE_def)
  have t4: "4 dvd tail" using p(3) assms(2) t(2) by presburger
  have s32: "sub32 pool (2 * RT_MEMHEAP_SIZE) = pool - 2 * RT_MEMHEAP_SIZE"
    using p assms(1,3) by (intro sub32_le) (simp_all add: RT_MEMHEAP_SIZE_def)
  let ?h = "rt_memheap_init me hdr start sz h"
  have ne: "hdr \<noteq> start" "hdr \<noteq> tail" "start \<noteq> tail" using assms(5) p t by auto
  have f: "start_addr ?h = start" "pool_size ?h = pool" "self ?h = me" "free_list ?h = hdr"
    "available_size ?h = pool - 2 * RT_MEMHEAP_SIZE" "item_next ?h start = tail" "item_next ?h tail = start" "item_prev ?h start = tail"
    "item_prev ?h tail = start" "item_next_free ?h hdr = start" "item_next_free ?h start = hdr" "item_prev_free ?h hdr = start"
    "item_prev_free ?h start = hdr" "item_pool_ptr ?h start = me" "item_pool_ptr ?h tail = me"
    "item_magic ?h start = RT_MEMHEAP_MAGIC + RT_MEMHEAP_FREED" "item_magic ?h tail = RT_MEMHEAP_MAGIC + RT_MEMHEAP_USED"
    using ne s32 by (simp_all add: rt_memheap_init_def Let_def flip: pool_def tail_def)
  have u: "\<not> RT_MEMHEAP_IS_USED ?h start" "RT_MEMHEAP_IS_USED ?h tail"
    by (simp_all add: RT_MEMHEAP_IS_USED_def f RT_MEMHEAP_MAGIC_def RT_MEMHEAP_FREED_def RT_MEMHEAP_USED_def)
  have "heap_core ?h [start, tail] [start] {}"
    unfolding heap_core_def block_chain_def free_ring_def
    using assms p t t4 ne u by (auto simp: f RT_MEMHEAP_SIZE_def RT_MEMHEAP_MINIALLOC_def)
  moreover have "merged (RT_MEMHEAP_IS_USED ?h) [start, tail]" "regions (RT_MEMHEAP_IS_USED ?h) [start, tail] = {}" using u by simp_all
  ultimately show ?thesis unfolding represents_def heap_inv_def by metis
qed

end
