(* ===== verification/Memheap_Clients.thy ===== *)
theory Memheap_Clients
  imports Memheap
begin

text \<open>
  What the clients of the memory heap rely on. The locale \<^verbatim>\<open>allocator\<close> states the contract of an
  allocator over an abstract set of regions; its lemmas follow a ledger of the live blocks, which
  records for every pointer the size that was asked for. The memory heap of \<^verbatim>\<open>memheap.c\<close> interprets the
  locale. The relation \<^verbatim>\<open>heap_step\<close> is one call of a client; its reachable states are the histories of
  the heap.
\<close>

section \<open>The contract of an allocator\<close>

locale allocator =
  fixes rep :: "'h \<Rightarrow> (nat \<times> nat) set \<Rightarrow> bool"
    and alloc :: "nat \<Rightarrow> 'h \<Rightarrow> (nat \<times> 'h) option"
    and dealloc :: "nat \<Rightarrow> 'h \<Rightarrow> 'h option"
    and resize :: "nat \<Rightarrow> nat \<Rightarrow> 'h \<Rightarrow> (nat \<times> 'h) option"
    and granted :: "nat \<Rightarrow> nat"
    and top :: nat
  assumes granted_enough: "n \<le> top \<Longrightarrow> n \<le> granted n"
    and rep_apart: "rep h A \<Longrightarrow> r \<in> A \<Longrightarrow> s \<in> A \<Longrightarrow> r \<noteq> s \<Longrightarrow> apart r s"
    and rep_positive: "rep h A \<Longrightarrow> (p, k) \<in> A \<Longrightarrow> 0 < k"
    and alloc_law: "rep h A \<Longrightarrow> \<exists>p h'. alloc n h = Some (p, h') \<and>
      (p = 0 \<and> rep h' A \<or> p \<noteq> 0 \<and> (\<exists>k\<ge>granted n. rep h' (insert (p, k) A) \<and> (\<forall>j. (p, j) \<notin> A)))"
    and dealloc_law: "rep h A \<Longrightarrow> (p, k) \<in> A \<Longrightarrow> \<exists>h'. dealloc p h = Some h' \<and> rep h' (A - {(p, k)})"
    and resize_law: "rep h A \<Longrightarrow> (p, k) \<in> A \<Longrightarrow> n \<noteq> 0 \<Longrightarrow> n \<le> top \<Longrightarrow> \<exists>q h'. resize p n h = Some (q, h') \<and>
      (q = 0 \<and> rep h' A \<or> q \<noteq> 0 \<and> (\<exists>j\<ge>granted n. rep h' (insert (q, j) (A - {(p, k)}))))"
begin

text \<open>The ledger \<open>L\<close> lists exactly the blocks the heap has handed out, each at least as large as asked for.\<close>

definition ledger :: "'h \<Rightarrow> (nat \<rightharpoonup> nat) \<Rightarrow> bool" where
  "ledger h L \<longleftrightarrow> (\<exists>A. rep h A \<and> dom L = fst ` A \<and> (\<forall>(p, k)\<in>A. granted (the (L p)) \<le> k))"

lemma rep_pointer: "rep h A \<Longrightarrow> (p, k) \<in> A \<Longrightarrow> (p, j) \<in> A \<Longrightarrow> j = k"
  using rep_apart[of h A "(p, k)" "(p, j)"] rep_positive[of h A p] by (fastforce simp: apart_def)

lemma ledgerE:
  assumes "ledger h L" "L p = Some n"
  obtains A k where "rep h A" "(p, k) \<in> A" "dom L = fst ` A" "\<forall>(p, k)\<in>A. granted (the (L p)) \<le> k"
proof -
  obtain A where A: "rep h A" "dom L = fst ` A" "\<forall>(p, k)\<in>A. granted (the (L p)) \<le> k"
    using assms(1) unfolding ledger_def by blast
  have "p \<in> fst ` A" using assms(2) unfolding A(2)[symmetric] by (rule domI)
  then obtain r where "r \<in> A" "fst r = p" by (rule imageE) simp
  then have "(p, snd r) \<in> A" by (cases r) simp
  with A that show thesis by blast
qed

lemma ledger_apart:
  assumes l: "ledger h L" and p: "L p = Some n" "L q = Some m" and ne: "p \<noteq> q"
  shows "apart (p, granted n) (q, granted m)"
proof -
  obtain A k where A: "rep h A" "(p, k) \<in> A" "dom L = fst ` A" "\<forall>(p, k)\<in>A. granted (the (L p)) \<le> k"
    using ledgerE[OF l p(1)] .
  have "q \<in> fst ` A" using p(2) unfolding A(3)[symmetric] by (rule domI)
  then obtain j where j: "(q, j) \<in> A" by (auto simp: image_iff)
  have "apart (p, k) (q, j)" using rep_apart[OF A(1,2) j] ne by simp
  moreover have "granted n \<le> k" "granted m \<le> j" using bspec[OF A(4) A(2)] bspec[OF A(4) j] p by simp_all
  ultimately show ?thesis by (auto simp: apart_def)
qed

lemma ledger_insert:
  assumes "rep h' (insert (p, k) B)" "granted n \<le> k" "\<And>j. (p, j) \<notin> B"
    "dom (L(p := None)) = fst ` B" "\<forall>(q, j)\<in>B. granted (the (L q)) \<le> j"
  shows "ledger h' (L(p \<mapsto> n))"
proof -
  have "dom (L(p \<mapsto> n)) = fst ` insert (p, k) B" using assms(4) by auto
  moreover have "granted (the ((L(p \<mapsto> n)) q)) \<le> j" if "(q, j) \<in> insert (p, k) B" for q j
    using that assms(2,3,5) by (auto split: if_splits)
  ultimately show ?thesis using assms(1) unfolding ledger_def by blast
qed

lemma ledger_alloc:
  assumes l: "ledger h L"
  shows "\<exists>p h'. alloc n h = Some (p, h') \<and> (p = 0 \<and> ledger h' L \<or> p \<noteq> 0 \<and> p \<notin> dom L \<and> ledger h' (L(p \<mapsto> n)))"
proof -
  obtain A where A: "rep h A" "dom L = fst ` A" "\<forall>(p, k)\<in>A. granted (the (L p)) \<le> k" using l unfolding ledger_def by blast
  obtain p h' where a: "alloc n h = Some (p, h')" and c: "p = 0 \<and> rep h' A \<or>
      p \<noteq> 0 \<and> (\<exists>k\<ge>granted n. rep h' (insert (p, k) A) \<and> (\<forall>j. (p, j) \<notin> A))"
    using alloc_law[OF A(1), of n] by blast
  show ?thesis
  proof (cases "p = 0")
    case True
    with a c A show ?thesis unfolding ledger_def by blast
  next
    case False
    then obtain k where k: "granted n \<le> k" "rep h' (insert (p, k) A)" "\<And>j. (p, j) \<notin> A" using c by blast
    have "p \<notin> dom L" using A(2) k(3) by force
    moreover from this have "dom (L(p := None)) = fst ` A" using A(2) by auto
    ultimately show ?thesis using ledger_insert[OF k(2,1,3) _ A(3)] a False by blast
  qed
qed

lemma ledger_remove:
  assumes "rep h A" "(p, k) \<in> A" "dom L = fst ` A" "\<forall>(q, j)\<in>A. granted (the (L q)) \<le> j"
  shows "dom (L(p := None)) = fst ` (A - {(p, k)})" "\<forall>(q, j)\<in>A - {(p, k)}. granted (the ((L(p := None)) q)) \<le> j"
    "\<And>j. (p, j) \<notin> A - {(p, k)}"
proof -
  show *: "(p, j) \<notin> A - {(p, k)}" for j using rep_pointer[OF assms(1,2)] by blast
  have "fst ` (A - {(p, k)}) = fst ` A - {p}"
  proof (intro set_eqI iffI)
    fix q assume "q \<in> fst ` (A - {(p, k)})"
    then obtain j where "(q, j) \<in> A - {(p, k)}" by (metis imageE prod.collapse)
    with * have "q \<noteq> p" "(q, j) \<in> A" by auto
    then show "q \<in> fst ` A - {p}" by (auto intro: rev_image_eqI)
  next
    fix q assume "q \<in> fst ` A - {p}"
    then obtain j where "(q, j) \<in> A" "q \<noteq> p" by auto
    then have "(q, j) \<in> A - {(p, k)}" by simp
    then show "q \<in> fst ` (A - {(p, k)})" by (rule rev_image_eqI) simp
  qed
  then show "dom (L(p := None)) = fst ` (A - {(p, k)})" by (simp add: assms(3))
  show "\<forall>(q, j)\<in>A - {(p, k)}. granted (the ((L(p := None)) q)) \<le> j" using assms(4) * by (auto split: if_splits)
qed

lemma ledger_dealloc:
  assumes "ledger h L" "L p = Some n"
  shows "\<exists>h'. dealloc p h = Some h' \<and> ledger h' (L(p := None))"
proof -
  obtain A k where A: "rep h A" "(p, k) \<in> A" "dom L = fst ` A" "\<forall>(p, k)\<in>A. granted (the (L p)) \<le> k" using ledgerE[OF assms] .
  with dealloc_law[OF A(1,2)] ledger_remove[OF A] show ?thesis unfolding ledger_def by blast
qed

lemma ledger_resize:
  assumes "ledger h L" "L p = Some n" "m \<noteq> 0" "m \<le> top"
  shows "\<exists>q h'. resize p m h = Some (q, h') \<and> (q = 0 \<and> ledger h' L \<or> q \<noteq> 0 \<and> ledger h' (L(p := None, q \<mapsto> m)))"
proof -
  obtain A k where A: "rep h A" "(p, k) \<in> A" "dom L = fst ` A" "\<forall>(p, k)\<in>A. granted (the (L p)) \<le> k" using ledgerE[OF assms(1,2)] .
  obtain q h' where a: "resize p m h = Some (q, h')" and c: "q = 0 \<and> rep h' A \<or>
      q \<noteq> 0 \<and> (\<exists>j\<ge>granted m. rep h' (insert (q, j) (A - {(p, k)})))"
    using resize_law[OF A(1,2) assms(3,4)] by blast
  note R = ledger_remove[OF A]
  show ?thesis
  proof (cases "q = 0")
    case True
    with a c A show ?thesis unfolding ledger_def by blast
  next
    case False
    then obtain j where j: "granted m \<le> j" "rep h' (insert (q, j) (A - {(p, k)}))" using c by blast
    let ?B = "(A - {(p, k)}) - {(q, j)}"
    have rep': "rep h' (insert (q, j) ?B)" using j(2) by simp
    have notin: "(q, i) \<notin> ?B" for i using rep_pointer[OF j(2), of q j] by blast
    have dom: "dom (L(p := None, q := None)) = fst ` ?B"
    proof -
      have "fst ` ?B = fst ` (A - {(p, k)}) - {q}" using notin by force
      then show ?thesis using R(1) by auto
    qed
    have "\<forall>(s, i)\<in>?B. granted (the ((L(p := None)) s)) \<le> i" using R(2) by blast
    from ledger_insert[OF rep' j(1) notin dom this] a False show ?thesis by blast
  qed
qed

end

text \<open>The memory heap satisfies the contract, with the lock free to be taken.\<close>

interpretation mh: allocator represents "rt_memheap_alloc True" "rt_memheap_free True" "rt_memheap_realloc True" request_size MAX_REQUEST
proof
  show "n \<le> request_size n" if "n \<le> MAX_REQUEST" for n
    using request_size_props(3)[of n] that by (simp add: MAX_REQUEST_def)
  show "apart r s" if "represents h A" "r \<in> A" "s \<in> A" "r \<noteq> s" for h A r s
    using represents_apart[OF that] .
  show "0 < k" if "represents h A" "(p, k) \<in> A" for h A p k
    using represents_inside(4)[OF that] by (simp add: RT_MEMHEAP_MINIALLOC_def)
  show "\<exists>p h'. rt_memheap_alloc True n h = Some (p, h') \<and>
      (p = 0 \<and> represents h' A \<or> p \<noteq> 0 \<and> (\<exists>k\<ge>request_size n. represents h' (insert (p, k) A) \<and> (\<forall>j. (p, j) \<notin> A)))"
    if "represents h A" for h A n
    using represents_alloc[OF that, of n] that by blast
  show "\<exists>h'. rt_memheap_free True p h = Some h' \<and> represents h' (A - {(p, k)})" if "represents h A" "(p, k) \<in> A" for h A p k
    using represents_free[OF that] by blast
  show "\<exists>q h'. rt_memheap_realloc True p n h = Some (q, h') \<and>
      (q = 0 \<and> represents h' A \<or> q \<noteq> 0 \<and> (\<exists>j\<ge>request_size n. represents h' (insert (q, j) (A - {(p, k)}))))"
    if "represents h A" "(p, k) \<in> A" "n \<noteq> 0" "n \<le> MAX_REQUEST" for h A p k n
    using represents_realloc[OF that] that(1) unfolding resized_def by blast
qed

section \<open>Histories\<close>

inductive heap_step :: "rt_memheap \<times> (nat \<rightharpoonup> nat) \<Rightarrow> rt_memheap \<times> (nat \<rightharpoonup> nat) \<Rightarrow> bool" where
  malloc: "n \<le> MAX_REQUEST \<Longrightarrow> rt_memheap_alloc True n h = Some (p, h') \<Longrightarrow> p \<noteq> 0 \<Longrightarrow> heap_step (h, L) (h', L(p \<mapsto> n))"
| malloc_fails: "rt_memheap_alloc True n h = Some (0, h') \<Longrightarrow> heap_step (h, L) (h', L)"
| free: "L p = Some n \<Longrightarrow> rt_memheap_free True p h = Some h' \<Longrightarrow> heap_step (h, L) (h', L(p := None))"
| realloc: "L p = Some n \<Longrightarrow> m \<noteq> 0 \<Longrightarrow> m \<le> MAX_REQUEST \<Longrightarrow> rt_memheap_realloc True p m h = Some (q, h') \<Longrightarrow> q \<noteq> 0 \<Longrightarrow>
    heap_step (h, L) (h', L(p := None, q \<mapsto> m))"
| realloc_fails: "L p = Some n \<Longrightarrow> m \<noteq> 0 \<Longrightarrow> m \<le> MAX_REQUEST \<Longrightarrow> rt_memheap_realloc True p m h = Some (0, h') \<Longrightarrow> heap_step (h, L) (h', L)"
| store: "L p = Some n \<Longrightarrow> i < n \<Longrightarrow> heap_step (h, L) (h\<lparr>payload := (payload h)(p + i := b)\<rparr>, L)"

lemma represents_store [simp]: "represents (h\<lparr>payload := f\<rparr>) A = represents h A"
proof -
  have "RT_MEMHEAP_IS_USED (h\<lparr>payload := f\<rparr>) = RT_MEMHEAP_IS_USED h" "block_chain (h\<lparr>payload := f\<rparr>) = block_chain h"
    "free_ring (h\<lparr>payload := f\<rparr>) = free_ring h"
    by (simp_all add: fun_eq_iff RT_MEMHEAP_IS_USED_def block_chain_def free_ring_def)
  then show ?thesis by (simp add: represents_def heap_inv_def heap_core_def)
qed

lemma heap_frames [simp]:
  "pool_size (alloc_block p k sz h) = pool_size h" "start_addr (alloc_block p k sz h) = start_addr h"
  "pool_size (merge_right p h) = pool_size h" "start_addr (merge_right p h) = start_addr h"
  "pool_size (grow_block p o1 sz h) = pool_size h" "start_addr (grow_block p o1 sz h) = start_addr h"
  "pool_size (shrink_block p sz h) = pool_size h" "start_addr (shrink_block p sz h) = start_addr h"
  by (simp_all add: alloc_block_def merge_right_def grow_block_def shrink_block_def Let_def)

lemma alloc_frame: "rt_memheap_alloc ok n h = Some (p, h') \<Longrightarrow> pool_size h' = pool_size h \<and> start_addr h' = start_addr h"
  by (auto simp: rt_memheap_alloc_def Let_def split: if_splits option.splits)

lemma free_frame: "rt_memheap_free ok p h = Some h' \<Longrightarrow> pool_size h' = pool_size h \<and> start_addr h' = start_addr h"
  by (auto simp: rt_memheap_free_def merge_left_def Let_def split: if_splits prod.splits)

lemma move_frame:
  assumes "move_block ok p old n h = Some (q, h')"
  shows "pool_size h' = pool_size h \<and> start_addr h' = start_addr h"
proof -
  obtain r h1 where a: "rt_memheap_alloc ok n h = Some (r, h1)" using assms by (auto simp: move_block_def split: option.splits)
  with assms alloc_frame[OF a] show ?thesis
    by (auto simp: move_block_def dest!: free_frame split: if_splits)
qed

lemma realloc_frame:
  assumes "rt_memheap_realloc ok p n h = Some (q, h')"
  shows "pool_size h' = pool_size h \<and> start_addr h' = start_addr h"
  using assms unfolding rt_memheap_realloc_def Let_def
  by (auto dest: alloc_frame free_frame move_frame split: if_splits)

lemma heap_step_ledger:
  assumes "heap_step (h, L) (h', L')" "mh.ledger h L"
  shows "mh.ledger h' L' \<and> pool_size h' = pool_size h \<and> start_addr h' = start_addr h"
  using assms(1)
proof cases
  case (malloc n p)
  with mh.ledger_alloc[OF assms(2), of n] show ?thesis by (auto dest: alloc_frame)
next
  case (malloc_fails n)
  with mh.ledger_alloc[OF assms(2), of n] show ?thesis by (auto dest: alloc_frame)
next
  case (free p n)
  with mh.ledger_dealloc[OF assms(2), of p n] show ?thesis by (auto dest: free_frame)
next
  case (realloc p n m q)
  with mh.ledger_resize[OF assms(2), of p n m] show ?thesis by (auto dest: realloc_frame)
next
  case (realloc_fails p n m)
  with mh.ledger_resize[OF assms(2), of p n m] show ?thesis by (auto dest: realloc_frame)
next
  case (store p n i b)
  with assms(2) show ?thesis by (simp add: mh.ledger_def)
qed

lemma heap_reachable:
  assumes "heap_step\<^sup>*\<^sup>* (h, L) (h', L')" "mh.ledger h L"
  shows "mh.ledger h' L' \<and> pool_size h' = pool_size h \<and> start_addr h' = start_addr h"
  using assms(1)
proof (induction "(h', L')" arbitrary: h' L' rule: rtranclp_induct)
  case base
  with assms(2) show ?case by simp
next
  case (step y)
  obtain h1 L1 where y: "y = (h1, L1)" by (cases y)
  with step.hyps heap_step_ledger[of h1 L1 h' L'] step.hyps(3)[OF y] show ?case by auto
qed

text \<open>The heap an initialisation builds, and the histories that start from it.\<close>

definition pool_ok :: "nat \<Rightarrow> nat \<Rightarrow> nat \<Rightarrow> bool" where
  "pool_ok hdr start sz \<longleftrightarrow> 0 < start \<and> 4 dvd start \<and> start + sz \<le> 2 ^ 32
     \<and> 2 * RT_MEMHEAP_SIZE + RT_MEMHEAP_MINIALLOC \<le> sz \<and> (hdr < start \<or> start + sz \<le> hdr)"

definition history :: "rt_memheap \<Rightarrow> rt_memheap \<Rightarrow> (nat \<rightharpoonup> nat) \<Rightarrow> bool" where
  "history h0 h L \<longleftrightarrow> heap_step\<^sup>*\<^sup>* (h0, Map.empty) (h, L)"

lemma init_fields [simp]:
  "pool_size (rt_memheap_init me hdr start sz m) = sz div 4 * 4" "start_addr (rt_memheap_init me hdr start sz m) = start"
  "available_size (rt_memheap_init me hdr start sz m) = sub32 (sz div 4 * 4) (2 * RT_MEMHEAP_SIZE)"
  by (simp_all add: rt_memheap_init_def Let_def)

lemma ledger_init: "pool_ok hdr start sz \<Longrightarrow> mh.ledger (rt_memheap_init me hdr start sz m) Map.empty"
  using represents_init[of start sz hdr me m] by (auto simp: mh.ledger_def pool_ok_def)

lemma history_ledger:
  assumes "pool_ok hdr start sz" "history (rt_memheap_init me hdr start sz m) h L"
  shows "mh.ledger h L" "pool_size h = sz div 4 * 4" "start_addr h = start"
  using heap_reachable[OF assms(2)[unfolded history_def] ledger_init[OF assms(1)]]
  by auto

text \<open>The sizes in the ledger of a history are sizes a client may ask for.\<close>

lemma history_sizes: "history h0 h L \<Longrightarrow> L p = Some n \<Longrightarrow> n \<le> MAX_REQUEST"
  unfolding history_def
proof (induction "(h, L)" arbitrary: h L p n rule: rtranclp_induct)
  case (step y)
  obtain h1 L1 where y: "y = (h1, L1)" by (cases y)
  note IH = step.hyps(3)[OF y]
  from step.hyps(2) show ?case unfolding y using step.prems by cases (auto split: if_splits intro: IH)
qed simp

text \<open>
  C33: In every history of a freshly initialised heap the live blocks lie inside the pool, between its first header
  and its tail block, start at a multiple of four and are at least as large as requested; no two of them overlap.
\<close>

theorem heap_history_sound:
  assumes "pool_ok hdr start sz" and "history (rt_memheap_init me hdr start sz m) h L" and "L p = Some n"
  shows "4 dvd p \<and> start + RT_MEMHEAP_SIZE \<le> p \<and> p + n + RT_MEMHEAP_SIZE \<le> start + sz div 4 * 4 \<and>
    (\<forall>q k. L q = Some k \<longrightarrow> q \<noteq> p \<longrightarrow> p + n \<le> q \<or> q + k \<le> p)"
proof -
  note H = history_ledger[OF assms(1,2)] and S = history_sizes[OF assms(2)]
  obtain A k where A: "represents h A" "(p, k) \<in> A" "\<forall>(p, k)\<in>A. request_size (the (L p)) \<le> k"
    using mh.ledgerE[OF H(1) assms(3)] by metis
  have "n \<le> k" using bspec[OF A(3,2)] assms(3) mh.granted_enough[OF S[OF assms(3)]] by simp
  moreover have "p + n \<le> q \<or> q + j \<le> p" if "L q = Some j" "q \<noteq> p" for q j
    using mh.ledger_apart[OF H(1) assms(3) that(1)] that mh.granted_enough[OF S[OF assms(3)]] mh.granted_enough[OF S[OF that(1)]]
    by (auto simp: apart_def)
  ultimately show ?thesis using represents_inside[OF A(1,2)] H(2,3) by simp
qed

text \<open>A pool of 1024 bytes at address 4096 and a first block of 100 bytes, for the witnesses.\<close>

definition blank :: rt_memheap where
  "blank = \<lparr>self = 0, start_addr = 0, pool_size = 0, available_size = 0, max_used_size = 0, block_list = 0, free_list = 0,
     locked = False, item_magic = (\<lambda>_. 0), item_pool_ptr = (\<lambda>_. 0), item_next = (\<lambda>_. 0), item_prev = (\<lambda>_. 0),
     item_next_free = (\<lambda>_. 0), item_prev_free = (\<lambda>_. 0), payload = (\<lambda>_. 0)\<rparr>"

abbreviation sample_heap :: rt_memheap where
  "sample_heap \<equiv> rt_memheap_init 64 80 4096 1024 blank"

lemma sample_ok: "pool_ok 80 4096 1024"
  by (simp add: pool_ok_def RT_MEMHEAP_SIZE_def RT_MEMHEAP_MINIALLOC_def)

lemma sample_history:
  obtains p h where "rt_memheap_alloc True 100 sample_heap = Some (p, h)" "p \<noteq> 0" "history sample_heap h [p \<mapsto> 100]"
proof -
  have "represents sample_heap {}"
    using represents_init[of 4096 1024 80 64 blank] by (simp add: RT_MEMHEAP_SIZE_def RT_MEMHEAP_MINIALLOC_def)
  moreover have "request_size 100 < pool_size sample_heap - 2 * RT_MEMHEAP_SIZE"
    by (simp add: request_size_def RT_MEMHEAP_SIZE_def RT_MEMHEAP_MINIALLOC_def)
  ultimately obtain p h where a: "rt_memheap_alloc True 100 sample_heap = Some (p, h)" "p \<noteq> 0"
    using represents_empty(2) by blast
  then have "heap_step (sample_heap, Map.empty) (h, [p \<mapsto> 100])"
    by (intro heap_step.malloc) (simp_all add: MAX_REQUEST_def)
  with a show thesis by (intro that) (auto simp: history_def)
qed

theorem heap_history_sound_witness:
  "\<exists>h p. history sample_heap h [p \<mapsto> 100] \<and> 4 dvd p \<and> 4120 \<le> p \<and> p + 100 + 24 \<le> 5120"
proof -
  obtain p h where p: "history sample_heap h [p \<mapsto> 100]" by (rule sample_history)
  from heap_history_sound[OF sample_ok p, of p 100] p show ?thesis
    by (intro exI[of _ h] exI[of _ p]) (simp add: RT_MEMHEAP_SIZE_def)
qed

text \<open>
  In every history of a freshly initialised heap each call of a client returns: an allocation of any size, the
  release of a live block and the resizing of a live block. The search along the free list always ends and no
  assertion fails.
\<close>

theorem heap_history_returns:
  assumes "pool_ok hdr start sz" and "history (rt_memheap_init me hdr start sz m) h L"
  shows "rt_memheap_alloc True n h \<noteq> None \<and> (\<forall>p. L p \<noteq> None \<longrightarrow> rt_memheap_free True p h \<noteq> None
    \<and> (n \<le> MAX_REQUEST \<longrightarrow> rt_memheap_realloc True p n h \<noteq> None))"
proof -
  note H = history_ledger(1)[OF assms]
  have "rt_memheap_alloc True n h \<noteq> None" using mh.ledger_alloc[OF H, of n] by auto
  moreover have f: "rt_memheap_free True p h \<noteq> None" if "L p = Some k" for p k using mh.ledger_dealloc[OF H that] by auto
  moreover have "rt_memheap_realloc True p n h \<noteq> None" if "L p = Some k" "n \<le> MAX_REQUEST" for p k
    using mh.ledger_resize[OF H that(1) _ that(2)] f[OF that(1)] by (cases "n = 0") (auto simp: rt_memheap_realloc_def)
  ultimately show ?thesis by blast
qed

theorem heap_history_returns_witness:
  "\<exists>h p. history sample_heap h [p \<mapsto> 100] \<and> rt_memheap_alloc True 0xFFFFFFFF h \<noteq> None
     \<and> rt_memheap_free True p h \<noteq> None \<and> rt_memheap_realloc True p 900 h \<noteq> None"
proof -
  obtain p h where p: "history sample_heap h [p \<mapsto> 100]" by (rule sample_history)
  from heap_history_returns[OF sample_ok p, where n = "0xFFFFFFFF"] heap_history_returns[OF sample_ok p, where n = 900] p show ?thesis
    by (intro exI[of _ h] exI[of _ p]) (simp add: MAX_REQUEST_def)
qed

text \<open>
  C34: Nothing leaks and nothing stays fragmented: when a history has returned every block, the free space is the one
  the initialisation reported, and any request smaller than it succeeds.
\<close>

theorem heap_all_freed:
  assumes "pool_ok hdr start sz" and "history (rt_memheap_init me hdr start sz m) h Map.empty"
    and "request_size n < sz div 4 * 4 - 2 * RT_MEMHEAP_SIZE"
  shows "available_size h = available_size (rt_memheap_init me hdr start sz m)
    \<and> (\<exists>p h'. rt_memheap_alloc True n h = Some (p, h') \<and> p \<noteq> 0)"
proof -
  note H = history_ledger[OF assms(1,2)]
  have "represents h {}" using H(1) by (auto simp: mh.ledger_def)
  note E = represents_empty[OF this]
  have "represents (rt_memheap_init me hdr start sz m) {}" using ledger_init[OF assms(1)] by (auto simp: mh.ledger_def)
  from represents_empty(1)[OF this]
  have "available_size (rt_memheap_init me hdr start sz m) = sz div 4 * 4 - 2 * RT_MEMHEAP_SIZE" by simp
  then show ?thesis using E H(2) assms(3) by simp
qed

theorem heap_all_freed_witness:
  "\<exists>h h' p. rt_memheap_alloc True 100 sample_heap = Some (p, h) \<and> p \<noteq> 0 \<and> rt_memheap_free True p h = Some h'
     \<and> available_size h' = 976 \<and> (\<exists>q k. rt_memheap_alloc True 972 h' = Some (q, k) \<and> q \<noteq> 0)"
proof -
  obtain p h where p: "rt_memheap_alloc True 100 sample_heap = Some (p, h)" "p \<noteq> 0" "history sample_heap h [p \<mapsto> 100]"
    by (rule sample_history)
  obtain h' where f: "rt_memheap_free True p h = Some h'"
    using mh.ledger_dealloc[OF history_ledger(1)[OF sample_ok p(3)], of p 100] by auto
  have "heap_step (h, [p \<mapsto> 100]) (h', [p \<mapsto> 100](p := None))" using f by (intro heap_step.free[of _ _ 100]) simp_all
  then have "history sample_heap h' Map.empty"
    using p(3) by (auto simp: history_def intro: rtranclp.rtrancl_into_rtrancl)
  from heap_all_freed[OF sample_ok this, of 972] f p show ?thesis
    by (intro exI[of _ h] exI[of _ h'] exI[of _ p])
      (simp add: RT_MEMHEAP_SIZE_def request_size_def RT_MEMHEAP_MINIALLOC_def sub32_def)
qed

text \<open>
  C35: Resizing a live block to a size that is not zero either fails and changes nothing, or returns a block that
  begins with the bytes of the old one, up to the smaller of the two sizes. The bytes of all other blocks stay as
  they are.
\<close>

theorem heap_realloc_contents:
  assumes "pool_ok hdr start sz" and "history (rt_memheap_init me hdr start sz m) h L"
    and "L p = Some k" and "n \<noteq> 0" and "n \<le> MAX_REQUEST"
  shows "\<exists>q h'. rt_memheap_realloc True p n h = Some (q, h') \<and> (q = 0 \<and> h' = h \<or>
    q \<noteq> 0 \<and> (\<forall>i. i < k \<and> i < n \<longrightarrow> payload h' (q + i) = payload h (p + i)) \<and>
    (\<forall>s j i. L s = Some j \<and> s \<noteq> p \<and> i < j \<longrightarrow> payload h' (s + i) = payload h (s + i)))"
proof -
  note H = history_ledger(1)[OF assms(1,2)] and S = history_sizes[OF assms(2)]
  obtain A old where A: "represents h A" "(p, old) \<in> A" "dom L = fst ` A" "\<forall>(p, k)\<in>A. request_size (the (L p)) \<le> k"
    using mh.ledgerE[OF H assms(3)] by metis
  have size: "j \<le> l" if "L s = Some j" "(s, l) \<in> A" for s j l
    using bspec[OF A(4) that(2)] that(1) mh.granted_enough[OF S[OF that(1)]] by simp
  obtain q h' where q: "rt_memheap_realloc True p n h = Some (q, h')"
    and c: "q = 0 \<and> h' = h \<or> q \<noteq> 0 \<and> resized h A (p, old) (request_size n) q h'"
    using represents_realloc[OF A(1,2) assms(4,5)] by blast
  have same: "payload h' (q + i) = payload h (p + i)" if "resized h A (p, old) (request_size n) q h'" "i < k" "i < n" for i
    using that size[OF assms(3) A(2)] mh.granted_enough[OF assms(5)] by (auto simp: resized_def)
  have other: "payload h' (s + i) = payload h (s + i)"
    if res: "resized h A (p, old) (request_size n) q h'" and s: "L s = Some j" "s \<noteq> p" "i < j" for s j i
  proof -
    have "s \<in> fst ` A" using s(1) unfolding A(3)[symmetric] by (rule domI)
    then obtain l where l: "(s, l) \<in> A" by auto
    then have "(s, l) \<in> A - {(p, old)}" "i < l" using s size[OF s(1) l] by auto
    then show ?thesis using res by (auto simp: resized_def)
  qed
  show ?thesis using q c same other by blast
qed

theorem heap_realloc_contents_witness:
  "\<exists>h p q h'. history sample_heap h [p \<mapsto> 100] \<and> rt_memheap_realloc True p 200 h = Some (q, h')
     \<and> (q = 0 \<and> h' = h \<or> q \<noteq> 0 \<and> payload h' (q + 99) = payload h (p + 99))"
proof -
  obtain p h where p: "history sample_heap h [p \<mapsto> 100]" by (rule sample_history)
  from heap_realloc_contents[OF sample_ok p, of p 100 200]
  obtain q h' where q: "rt_memheap_realloc True p 200 h = Some (q, h')"
      and c: "q = 0 \<and> h' = h \<or> q \<noteq> 0 \<and> (\<forall>i. i < 100 \<and> i < 200 \<longrightarrow> payload h' (q + i) = payload h (p + i))"
    by (auto simp: MAX_REQUEST_def)
  from c have "q = 0 \<and> h' = h \<or> q \<noteq> 0 \<and> payload h' (q + 99) = payload h (p + 99)" by auto
  with p q show ?thesis by blast
qed

text \<open>
  Sizes above \<open>MAX_REQUEST\<close> break resizing: the comparison that lets a block grow into its free right neighbour
  wraps to a small number, so the call succeeds, and the header of the new free block is written into the header
  of the block itself.
\<close>

theorem heap_realloc_wraps:
  assumes "represents h A" and "(ptr, old) \<in> A" and "\<not> RT_MEMHEAP_IS_USED h (item_next h (ptr - RT_MEMHEAP_SIZE))"
    and "2 ^ 32 - 15 \<le> n" and "n \<le> 2 ^ 32 - 4"
  shows "\<exists>h'. rt_memheap_realloc True ptr n h = Some (ptr, h')
    \<and> ptr - RT_MEMHEAP_SIZE < item_next h' (ptr - RT_MEMHEAP_SIZE) \<and> item_next h' (ptr - RT_MEMHEAP_SIZE) < ptr"
proof -
  obtain bs fs where b: "heap_core h bs fs {}" "A = regions (RT_MEMHEAP_IS_USED h) bs"
    using assms(1) by (auto simp: represents_def heap_inv_def)
  obtain us p z vs where p: "bs = us @ p # z # vs" "RT_MEMHEAP_IS_USED h p" "ptr = p + RT_MEMHEAP_SIZE" "old = z - p - RT_MEMHEAP_SIZE"
    using assms(2) unfolding b(2) by (rule region_blockE)
  have core: "heap_core h (us @ p # z # vs) fs {}" using b(1) p(1) by simp
  note M = memitem_size[OF core]
  have ptr: "ptr - RT_MEMHEAP_SIZE = p" "ptr \<noteq> 0" using p(3) by (simp_all add: RT_MEMHEAP_SIZE_def)
  have z: "\<not> RT_MEMHEAP_IS_USED h z" using assms(3) ptr M(2) by simp
  define new where "new = request_size n"
  have new: "new = 2 ^ 32 - 12 \<or> new = 2 ^ 32 - 8 \<or> new = 2 ^ 32 - 4"
  proof -
    have "(n + 3) mod 2 ^ 32 = n + 3" using assms(5) by (intro mod_less) simp
    moreover have "(n + 3) div 4 \<in> {1073741821, 1073741822, 1073741823}" using assms(4,5) by auto
    ultimately show ?thesis by (auto simp: new_def request_size_def Let_def RT_MEMHEAP_MINIALLOC_def)
  qed
  have size: "MEMITEM_SIZE h p = old" using M(1) p(4) by simp
  have small: "z < 2 ^ 32" "(MEMITEM_SIZE h z + old) mod 2 ^ 32 = MEMITEM_SIZE h z + old"
    using block_below[OF core, of z] neighbour_sizes[OF core z] p(4) by simp_all
  have old: "12 \<le> old" "old < new" "p < z" using M(4) p(4) new small(1) by (auto simp: RT_MEMHEAP_SIZE_def RT_MEMHEAP_MINIALLOC_def)
  have "(new + RT_MEMHEAP_MINIALLOC) mod 2 ^ 32 < MEMITEM_SIZE h z + old"
    using new old(1) by (auto simp: RT_MEMHEAP_MINIALLOC_def)
  then have "rt_memheap_realloc True ptr n h = Some (ptr, grow_block p old new h)"
    using assms(4) ptr M(2) size old z small(2) by (simp add: rt_memheap_realloc_def Let_def flip: new_def)
  moreover have "item_next (grow_block p old new h) p = (p + RT_MEMHEAP_SIZE + new) mod 2 ^ 32"
    by (simp add: grow_block_def block_insert_def Let_def)
  moreover have "(p + RT_MEMHEAP_SIZE + new) mod 2 ^ 32 = p + RT_MEMHEAP_SIZE + new - 2 ^ 32"
  proof -
    have "p + RT_MEMHEAP_SIZE + new = (p + RT_MEMHEAP_SIZE + new - 2 ^ 32) + 2 ^ 32"
      using new by (auto simp: RT_MEMHEAP_SIZE_def)
    moreover have "p + RT_MEMHEAP_SIZE + new - 2 ^ 32 < 2 ^ 32"
      using new small(1) M(4) by (auto simp: RT_MEMHEAP_SIZE_def RT_MEMHEAP_MINIALLOC_def)
    ultimately show ?thesis by (metis mod_add_self2 mod_less)
  qed
  ultimately show ?thesis using new p(3) ptr by (auto simp: RT_MEMHEAP_SIZE_def)
qed

lemma sample_fields:
  "free_list sample_heap = 80" "item_next_free sample_heap 80 = 4096" "item_next sample_heap 4096 = 5096"
  "available_size sample_heap = 976" "\<not> locked sample_heap"
  by (simp_all add: rt_memheap_init_def Let_def RT_MEMHEAP_SIZE_def sub32_def)

lemma sample_next_free:
  assumes "rt_memheap_alloc True 100 sample_heap = Some (p, h)"
  shows "p = 4120" "\<not> RT_MEMHEAP_IS_USED h (item_next h 4096)"
proof -
  note c = RT_MEMHEAP_SIZE_def RT_MEMHEAP_MINIALLOC_def
  have m: "MEMITEM_SIZE sample_heap 4096 = 976" by (simp add: MEMITEM_SIZE_def sample_fields sub32_def RT_MEMHEAP_SIZE_def)
  have "free_search sample_heap 100 4096 0 = free_search sample_heap 100 4096 976"
    using m by (subst free_search.simps) (simp add: sample_fields)
  also have "\<dots> = Some (4096, 976)" by (subst free_search.simps) simp
  finally have "rt_memheap_alloc True 100 sample_heap
      = Some (4120, set_magic 4096 RT_MEMHEAP_USED (alloc_block 4096 976 100 sample_heap))"
    by (simp add: rt_memheap_alloc_def request_size_def Let_def sample_fields c sub32_def)
  with assms have h: "p = 4120" "h = set_magic 4096 RT_MEMHEAP_USED (alloc_block 4096 976 100 sample_heap)" by simp_all
  then show "p = 4120" by simp
  have "item_next h 4096 = 4220" "\<not> RT_MEMHEAP_IS_USED h 4220"
    by (simp_all add: h alloc_block_def Let_def c) (simp add: block_insert_def Let_def)
  then show "\<not> RT_MEMHEAP_IS_USED h (item_next h 4096)" by simp
qed

theorem heap_realloc_wraps_witness:
  "\<exists>h h'. rt_memheap_alloc True 100 sample_heap = Some (4120, h) \<and> rt_memheap_realloc True 4120 0xFFFFFFF8 h = Some (4120, h')
     \<and> item_next h' 4096 < 4120"
proof -
  obtain p h where p: "rt_memheap_alloc True 100 sample_heap = Some (p, h)" "p \<noteq> 0" "history sample_heap h [p \<mapsto> 100]"
    by (rule sample_history)
  note s = sample_next_free[OF p(1)]
  obtain A k where A: "represents h A" "(p, k) \<in> A"
    using mh.ledgerE[OF history_ledger(1)[OF sample_ok p(3)] fun_upd_same] .
  from heap_realloc_wraps[OF A, where n = "0xFFFFFFF8"] s p(1) show ?thesis by (auto simp: RT_MEMHEAP_SIZE_def)
qed

text \<open>
  The three largest sizes wrap to nothing when they are aligned, so such a request is granted with the smallest
  block.
\<close>

theorem heap_alloc_wraps:
  assumes "2 ^ 32 - 3 \<le> n" and "n < 2 ^ 32"
  shows "rt_memheap_alloc ok n h = rt_memheap_alloc ok RT_MEMHEAP_MINIALLOC h"
proof -
  have "n = 2 ^ 32 - 3 \<or> n = 2 ^ 32 - 2 \<or> n = 2 ^ 32 - 1" using assms by auto
  then have "request_size n = RT_MEMHEAP_MINIALLOC" "request_size RT_MEMHEAP_MINIALLOC = RT_MEMHEAP_MINIALLOC"
    by (auto simp: request_size_def RT_MEMHEAP_MINIALLOC_def)
  then show ?thesis by (simp add: rt_memheap_alloc_def)
qed

end
