(* ===== verification/Ffs.thy ===== *)
theory Ffs
  imports Prelude
begin

text \<open>
  \<^verbatim>\<open>__rt_ffs\<close> of \<^verbatim>\<open>rt-thread/src/kservice.c\<close>: the position, from 1, of the lowest bit that is set, found byte by byte
  with a table of 256 entries. The scheduler uses it to find the highest ready priority.
\<close>

definition lowest_bit_bitmap :: "nat list" where
  "lowest_bit_bitmap =
    [0, 0, 1, 0, 2, 0, 1, 0, 3, 0, 1, 0, 2, 0, 1, 0,
     4, 0, 1, 0, 2, 0, 1, 0, 3, 0, 1, 0, 2, 0, 1, 0,
     5, 0, 1, 0, 2, 0, 1, 0, 3, 0, 1, 0, 2, 0, 1, 0,
     4, 0, 1, 0, 2, 0, 1, 0, 3, 0, 1, 0, 2, 0, 1, 0,
     6, 0, 1, 0, 2, 0, 1, 0, 3, 0, 1, 0, 2, 0, 1, 0,
     4, 0, 1, 0, 2, 0, 1, 0, 3, 0, 1, 0, 2, 0, 1, 0,
     5, 0, 1, 0, 2, 0, 1, 0, 3, 0, 1, 0, 2, 0, 1, 0,
     4, 0, 1, 0, 2, 0, 1, 0, 3, 0, 1, 0, 2, 0, 1, 0,
     7, 0, 1, 0, 2, 0, 1, 0, 3, 0, 1, 0, 2, 0, 1, 0,
     4, 0, 1, 0, 2, 0, 1, 0, 3, 0, 1, 0, 2, 0, 1, 0,
     5, 0, 1, 0, 2, 0, 1, 0, 3, 0, 1, 0, 2, 0, 1, 0,
     4, 0, 1, 0, 2, 0, 1, 0, 3, 0, 1, 0, 2, 0, 1, 0,
     6, 0, 1, 0, 2, 0, 1, 0, 3, 0, 1, 0, 2, 0, 1, 0,
     4, 0, 1, 0, 2, 0, 1, 0, 3, 0, 1, 0, 2, 0, 1, 0,
     5, 0, 1, 0, 2, 0, 1, 0, 3, 0, 1, 0, 2, 0, 1, 0,
     4, 0, 1, 0, 2, 0, 1, 0, 3, 0, 1, 0, 2, 0, 1, 0]"

definition rt_ffs :: "u32 \<Rightarrow> nat" where
  "rt_ffs value =
     (if value = 0 then 0
      else if value AND 0xff \<noteq> 0 then lowest_bit_bitmap ! unat (value AND 0xff) + 1
      else if value AND 0xff00 \<noteq> 0 then lowest_bit_bitmap ! unat (drop_bit 8 (value AND 0xff00)) + 9
      else if value AND 0xff0000 \<noteq> 0 then lowest_bit_bitmap ! unat (drop_bit 16 (value AND 0xff0000)) + 17
      else lowest_bit_bitmap ! unat (drop_bit 24 (value AND 0xff000000)) + 25)"

section \<open>The table\<close>

text \<open>What an entry of the table promises for a byte that is not zero.\<close>

definition lowest_ok :: "nat \<Rightarrow> nat \<Rightarrow> bool" where
  "lowest_ok b k \<longleftrightarrow> k < 8 \<and> odd (b div 2 ^ k) \<and> b mod 2 ^ k = 0"

fun table_ok :: "nat \<Rightarrow> nat list \<Rightarrow> bool" where
  "table_ok b [] \<longleftrightarrow> True"
| "table_ok b (k # ks) \<longleftrightarrow> (b = 0 \<or> lowest_ok b k) \<and> table_ok (b + 1) ks"

lemma table_okD: "table_ok b ks \<Longrightarrow> i < length ks \<Longrightarrow> 0 < b + i \<Longrightarrow> lowest_ok (b + i) (ks ! i)"
proof (induction b ks arbitrary: i rule: table_ok.induct)
  case (2 b k ks)
  then show ?case by (cases i) auto
qed simp

lemma lowest_table: "table_ok 0 lowest_bit_bitmap" "length lowest_bit_bitmap = 256"
  by (simp_all add: lowest_bit_bitmap_def lowest_ok_def)

lemma lowest_bit_entry:
  assumes "0 < b" "b < 256"
  shows "lowest_bit_bitmap ! b < 8" "bit b (lowest_bit_bitmap ! b)" "\<And>i. i < lowest_bit_bitmap ! b \<Longrightarrow> \<not> bit b i"
proof -
  have ok: "lowest_ok b (lowest_bit_bitmap ! b)" using table_okD[OF lowest_table(1), of b] lowest_table(2) assms by simp
  then show "lowest_bit_bitmap ! b < 8" "bit b (lowest_bit_bitmap ! b)" by (auto simp: lowest_ok_def bit_iff_odd)
  have "take_bit (lowest_bit_bitmap ! b) b = 0" using ok by (simp add: lowest_ok_def take_bit_eq_mod)
  then show "\<not> bit b i" if "i < lowest_bit_bitmap ! b" for i
    using that by (metis bit_0_eq bit_take_bit_iff bot_apply bot_bool_def)
qed

section \<open>The search\<close>

text \<open>One byte of the word, as the code cuts it out.\<close>

lemma byte_masks:
  "(0xff :: u32) = mask 8" "(0xff00 :: u32) = push_bit 8 (mask 8)" "(0xff0000 :: u32) = push_bit 16 (mask 8)"
  "(0xff000000 :: u32) = push_bit 24 (mask 8)"
  by (simp_all add: mask_eq_decr_exp push_bit_eq_mult)

lemma byte_bits:
  "bit (unat (drop_bit s (v AND push_bit s (mask 8)) :: u32)) i \<longleftrightarrow> i < 8 \<and> bit v (s + i)"
  by (auto simp: bit_simps unsigned_drop_bit_eq dest: bit_imp_le_length)

lemma byte_zero: "v AND push_bit s (mask 8) = 0 \<Longrightarrow> i < 8 \<Longrightarrow> s + i < 32 \<Longrightarrow> \<not> bit (v :: u32) (s + i)"
proof
  assume z: "v AND push_bit s (mask 8) = 0" and i: "i < 8" "s + i < 32" and b: "bit v (s + i)"
  have "bit (v AND push_bit s (mask 8)) (s + i)" using i b by (simp add: bit_simps)
  then show False by (simp add: z)
qed

lemma byte_lookup:
  assumes nz: "v AND push_bit s (mask 8) \<noteq> (0 :: u32)"
  defines "k \<equiv> lowest_bit_bitmap ! unat (drop_bit s (v AND push_bit s (mask 8)))"
  shows "k < 8" "bit v (s + k)" "\<And>i. i < k \<Longrightarrow> \<not> bit v (s + i)"
proof -
  let ?b = "unat (drop_bit s (v AND push_bit s (mask 8)))"
  obtain n where n: "bit (v AND push_bit s (mask 8)) n" using nz by (metis bit_eqI bit_0_eq bot_apply bot_bool_def)
  then have "s \<le> n" "n - s < 8" "bit v n" by (auto simp: bit_simps)
  then have "bit ?b (n - s)" unfolding byte_bits by simp
  then have pos: "0 < ?b" by (metis bit_0_eq bot_apply bot_bool_def gr0I)
  have "bit (take_bit 8 ?b) n = bit ?b n" for n unfolding bit_take_bit_iff byte_bits by auto
  then have "take_bit 8 ?b = ?b" by (intro bit_eqI)
  then have less: "?b < 256" using take_bit_nat_less_exp[of 8 ?b] by simp
  note L = lowest_bit_entry[OF pos less]
  show "k < 8" "bit v (s + k)" using L(1,2) unfolding k_def byte_bits by auto
  show "\<not> bit v (s + i)" if "i < k" for i using L(1) L(3)[of i] that unfolding k_def byte_bits by auto
qed

lemma byte_lookup_first:
  assumes "v AND push_bit s (mask 8) \<noteq> (0 :: u32)" "\<And>i. i < s \<Longrightarrow> \<not> bit v i"
  defines "k \<equiv> s + lowest_bit_bitmap ! unat (drop_bit s (v AND push_bit s (mask 8)))"
  shows "bit v k \<and> (\<forall>i<k. \<not> bit v i)"
proof -
  note B = byte_lookup[OF assms(1)]
  have "\<not> bit v i" if "i < k" for i
  proof (cases "i < s")
    case False
    then show ?thesis using B(3)[of "i - s"] that by (simp add: k_def)
  qed (rule assms(2))
  with B(2) show ?thesis by (simp add: k_def)
qed

lemma rt_ffs_lowest:
  assumes "v \<noteq> 0"
  shows "0 < rt_ffs v" "bit v (rt_ffs v - 1)" "\<And>i. i < rt_ffs v - 1 \<Longrightarrow> \<not> bit v i" "rt_ffs v - 1 < 32"
proof -
  let ?m = "\<lambda>s. v AND push_bit s (mask 8)"
  have z: "\<not> bit v i" if "?m s = 0" "s \<le> i" "i < s + 8" "s \<le> 24" for s i
    using byte_zero[OF that(1), of "i - s"] that(2-4) by simp
  have "\<exists>i. bit v i" using assms by (metis bit_eqI bit_0_eq bot_apply bot_bool_def)
  then have last: "?m 24 \<noteq> 0" if "?m 0 = 0" "?m 8 = 0" "?m 16 = 0"
  proof -
    obtain i where i: "bit v i" using \<open>\<exists>i. bit v i\<close> ..
    then have "i < 32" using bit_imp_le_length[of v i] by simp
    then consider "i < 8" | "8 \<le> i \<and> i < 16" | "16 \<le> i \<and> i < 24" | "24 \<le> i \<and> i < 32" by linarith
    then show ?thesis using that i z[of 0 i] z[of 8 i] z[of 16 i] z[of 24 i] by cases auto
  qed
  have *: "0 < rt_ffs v \<and> bit v (rt_ffs v - 1) \<and> (\<forall>i<rt_ffs v - 1. \<not> bit v i)"
  proof -
    consider (b0) "?m 0 \<noteq> 0" | (b1) "?m 0 = 0" "?m 8 \<noteq> 0" | (b2) "?m 0 = 0" "?m 8 = 0" "?m 16 \<noteq> 0"
      | (b3) "?m 0 = 0" "?m 8 = 0" "?m 16 = 0" by blast
    then show ?thesis
    proof cases
      case b0
      then have "rt_ffs v = 0 + lowest_bit_bitmap ! unat (drop_bit 0 (?m 0)) + 1" using assms by (simp add: rt_ffs_def byte_masks)
      with byte_lookup_first[OF b0] show ?thesis by simp
    next
      case b1
      then have "rt_ffs v = 8 + lowest_bit_bitmap ! unat (drop_bit 8 (?m 8)) + 1" using assms by (simp add: rt_ffs_def byte_masks)
      moreover have "\<not> bit v i" if "i < 8" for i using z[OF b1(1), of i] that by simp
      ultimately show ?thesis using byte_lookup_first[OF b1(2)] by simp
    next
      case b2
      then have "rt_ffs v = 16 + lowest_bit_bitmap ! unat (drop_bit 16 (?m 16)) + 1" using assms by (simp add: rt_ffs_def byte_masks)
      moreover have "\<not> bit v i" if "i < 16" for i using z[OF b2(1), of i] z[OF b2(2), of i] that by (cases "i < 8") auto
      ultimately show ?thesis using byte_lookup_first[OF b2(3)] by simp
    next
      case b3
      then have "rt_ffs v = 24 + lowest_bit_bitmap ! unat (drop_bit 24 (?m 24)) + 1" using assms by (simp add: rt_ffs_def byte_masks)
      moreover have "\<not> bit v i" if "i < 24" for i
        using z[OF b3(1), of i] z[OF b3(2), of i] z[OF b3(3), of i] that by (cases "i < 8"; cases "i < 16") auto
      ultimately show ?thesis using byte_lookup_first[OF last[OF b3]] by simp
    qed
  qed
  then show "0 < rt_ffs v" "bit v (rt_ffs v - 1)" "\<And>i. i < rt_ffs v - 1 \<Longrightarrow> \<not> bit v i" by auto
  then show "rt_ffs v - 1 < 32" using bit_imp_le_length[of v "rt_ffs v - 1"] by simp
qed

end
