(* ===== verification/Timer_List.thy ===== *)
theory Timer_List
  imports Prelude
begin

text \<open>
  The timer lists of \<^verbatim>\<open>rt-thread/src/timer.c\<close>. A timer list is a skip list: \<^verbatim>\<open>RT_TIMER_SKIP_LIST_LEVEL\<close> rows, the last
  of which links all started timers in the order of their timeouts. A timer is named by the object it is: the timer
  of a thread, or a timer object of its own. The rows are lists of timers; a node pointer is \<open>None\<close> for the list head
  and \<open>Some t\<close> for \<^verbatim>\<open>&t->row[level]\<close>. Nothing below depends on the number of rows.
\<close>

section \<open>State\<close>

definition RT_TICK_MAX :: u32 where "RT_TICK_MAX = 0xFFFFFFFF"
definition RT_TIMER_SKIP_LIST_LEVEL :: nat where "RT_TIMER_SKIP_LIST_LEVEL = 1"
definition RT_TIMER_SKIP_LIST_MASK :: u32 where "RT_TIMER_SKIP_LIST_MASK = 3"

datatype timer_id = Thread_timer nat | Timer nat

record rt_timer =
  timer_activated :: bool
  timer_periodic :: bool
  timer_soft :: bool
  timeout_tick :: u32
  timer_init_tick :: u32

datatype timer_head = Hard | Soft

text \<open>\<open>expired\<close> stands for the local lists of the two check functions, which hold a timer while its function runs.\<close>

record timer_system =
  rt_tick :: u32
  timers :: "timer_id \<Rightarrow> rt_timer"
  timer_list :: "timer_head \<Rightarrow> timer_id list list"
  expired :: "timer_head \<Rightarrow> timer_id list"
  random_nr :: u32
  soft_timer_busy :: bool
  timer_thread :: nat

definition upd_timer :: "timer_id \<Rightarrow> (rt_timer \<Rightarrow> rt_timer) \<Rightarrow> 'a timer_system_scheme \<Rightarrow> 'a timer_system_scheme" where
  "upd_timer t f S = S\<lparr>timers := (timers S)(t := f (timers S t))\<rparr>"

definition rt_system_timer_init :: "'a timer_system_scheme \<Rightarrow> 'a timer_system_scheme" where
  "rt_system_timer_init S = S\<lparr>timer_list := (timer_list S)(Hard := replicate RT_TIMER_SKIP_LIST_LEVEL [])\<rparr>"

section \<open>Insertion\<close>

text \<open>The elements of a row behind a node, and \<^verbatim>\<open>rt_list_insert_after\<close>.\<close>

definition behind :: "timer_id option \<Rightarrow> timer_id list \<Rightarrow> timer_id list" where
  "behind p xs = (case p of None \<Rightarrow> xs | Some q \<Rightarrow> tl (dropWhile (\<lambda>x. x \<noteq> q) xs))"

definition insert_behind :: "timer_id option \<Rightarrow> timer_id \<Rightarrow> timer_id list \<Rightarrow> timer_id list" where
  "insert_behind p t xs =
     (case p of None \<Rightarrow> t # xs | Some q \<Rightarrow> takeWhile (\<lambda>x. x \<noteq> q) xs @ q # t # behind p xs)"

text \<open>The walk along a row: past every timer that times out at the same tick or earlier.\<close>

fun skip_row :: "(timer_id \<Rightarrow> u32) \<Rightarrow> u32 \<Rightarrow> timer_id option \<Rightarrow> timer_id list \<Rightarrow> timer_id option" where
  "skip_row due tick p [] = p"
| "skip_row due tick p (q # qs) =
     (if due q - tick = 0 then skip_row due tick (Some q) qs
      else if due q - tick < RT_TICK_MAX div 2 then p
      else skip_row due tick (Some q) qs)"

text \<open>\<^verbatim>\<open>row_head[]\<close>: each row is entered at the node where the walk in the row above ended.\<close>

fun row_heads :: "(timer_id \<Rightarrow> u32) \<Rightarrow> u32 \<Rightarrow> timer_id option \<Rightarrow> timer_id list list \<Rightarrow> timer_id option list" where
  "row_heads due tick p [] = []"
| "row_heads due tick p (xs # rows) =
     (let h = skip_row due tick p (behind p xs) in h # row_heads due tick h rows)"

text \<open>The rows from the last one upwards: the last one always gets the timer, the next ones while the bits are zero.\<close>

fun link_above :: "u32 \<Rightarrow> timer_id \<Rightarrow> (timer_id option \<times> timer_id list) list \<Rightarrow> timer_id list list" where
  "link_above tst_nr t [] = []"
| "link_above tst_nr t ((h, xs) # rs) =
     (if tst_nr AND RT_TIMER_SKIP_LIST_MASK = 0
      then insert_behind h t xs # link_above (drop_bit (unat (drop_bit 1 (RT_TIMER_SKIP_LIST_MASK + 1))) tst_nr) t rs
      else xs # map snd rs)"

fun link_rows :: "u32 \<Rightarrow> timer_id \<Rightarrow> (timer_id option \<times> timer_id list) list \<Rightarrow> timer_id list list" where
  "link_rows tst_nr t [] = []"
| "link_rows tst_nr t ((h, xs) # rs) = insert_behind h t xs # link_above tst_nr t rs"

definition timer_link :: "u32 \<Rightarrow> (timer_id \<Rightarrow> u32) \<Rightarrow> timer_id \<Rightarrow> timer_id list list \<Rightarrow> timer_id list list" where
  "timer_link tst_nr due t rows = rev (link_rows tst_nr t (rev (zip (row_heads due (due t) None rows) rows)))"

section \<open>Operations on a timer\<close>

definition timer_init :: "timer_id \<Rightarrow> u32 \<Rightarrow> bool \<Rightarrow> bool \<Rightarrow> 'a timer_system_scheme \<Rightarrow> 'a timer_system_scheme" where
  "timer_init t time periodic soft =
     upd_timer t (\<lambda>_. \<lparr>timer_activated = False, timer_periodic = periodic, timer_soft = soft, timeout_tick = 0, timer_init_tick = time\<rparr>)"

definition timer_remove :: "timer_id \<Rightarrow> 'a timer_system_scheme \<Rightarrow> 'a timer_system_scheme" where
  "timer_remove t S = S\<lparr>timer_list := (\<lambda>h. map (removeAll t) (timer_list S h)), expired := (\<lambda>h. removeAll t (expired S h))\<rparr>"

definition timer_off :: "timer_id \<Rightarrow> 'a timer_system_scheme \<Rightarrow> 'a timer_system_scheme" where
  "timer_off t = upd_timer t (\<lambda>x. x\<lparr>timer_activated := False\<rparr>)"

definition rt_timer_detach :: "timer_id \<Rightarrow> 'a timer_system_scheme \<Rightarrow> 'a timer_system_scheme" where
  "rt_timer_detach t S = timer_off t (timer_remove t S)"

definition rt_timer_stop :: "timer_id \<Rightarrow> 'a timer_system_scheme \<Rightarrow> int \<times> 'a timer_system_scheme" where
  "rt_timer_stop t S =
     (if \<not> timer_activated (timers S t) then (- RT_ERROR, S) else (RT_EOK, timer_off t (timer_remove t S)))"

datatype timer_cmd =
  RT_TIMER_CTRL_GET_TIME | RT_TIMER_CTRL_SET_TIME u32 | RT_TIMER_CTRL_SET_ONESHOT | RT_TIMER_CTRL_SET_PERIODIC
| RT_TIMER_CTRL_GET_STATE | RT_TIMER_CTRL_OTHER

text \<open>The second component is the value a reading command stores through its argument.\<close>

definition rt_timer_control :: "timer_id \<Rightarrow> timer_cmd \<Rightarrow> 'a timer_system_scheme \<Rightarrow> int \<times> u32 option \<times> 'a timer_system_scheme" where
  "rt_timer_control t cmd S =
     (case cmd of
        RT_TIMER_CTRL_GET_TIME \<Rightarrow> (RT_EOK, Some (timer_init_tick (timers S t)), S)
      | RT_TIMER_CTRL_SET_TIME time \<Rightarrow> (RT_EOK, None, upd_timer t (\<lambda>x. x\<lparr>timer_init_tick := time\<rparr>) S)
      | RT_TIMER_CTRL_SET_ONESHOT \<Rightarrow> (RT_EOK, None, upd_timer t (\<lambda>x. x\<lparr>timer_periodic := False\<rparr>) S)
      | RT_TIMER_CTRL_SET_PERIODIC \<Rightarrow> (RT_EOK, None, upd_timer t (\<lambda>x. x\<lparr>timer_periodic := True\<rparr>) S)
      | RT_TIMER_CTRL_GET_STATE \<Rightarrow> (RT_EOK, Some (if timer_activated (timers S t) then 1 else 0), S)
      | RT_TIMER_CTRL_OTHER \<Rightarrow> (RT_EOK, None, S))"

text \<open>\<^verbatim>\<open>rt_timer_start\<close> up to the timer thread: stop, take the timeout, insert, activate; \<open>None\<close> is the failed assertion.\<close>

definition timer_start_list :: "timer_id \<Rightarrow> 'a timer_system_scheme \<Rightarrow> 'a timer_system_scheme option" where
  "timer_start_list t S =
     (let S1 = timer_off t (timer_remove t S); init = timer_init_tick (timers S1 t)
      in if \<not> init < RT_TICK_MAX div 2 then None
         else let S2 = upd_timer t (\<lambda>x. x\<lparr>timeout_tick := rt_tick S1 + init\<rparr>) S1;
                  h = (if timer_soft (timers S2 t) then Soft else Hard);
                  tst_nr = random_nr S2 + 1;
                  rows = timer_link tst_nr (\<lambda>q. timeout_tick (timers S2 q)) t (timer_list S2 h)
              in Some (upd_timer t (\<lambda>x. x\<lparr>timer_activated := True\<rparr>)
                   (S2\<lparr>random_nr := tst_nr, timer_list := (timer_list S2)(h := rows)\<rparr>)))"

section \<open>The next timeout\<close>

definition timer_list_next_timeout :: "timer_head \<Rightarrow> 'a timer_system_scheme \<Rightarrow> u32" where
  "timer_list_next_timeout h S =
     (case last (timer_list S h) of [] \<Rightarrow> RT_TICK_MAX | t # _ \<Rightarrow> timeout_tick (timers S t))"

definition rt_timer_next_timeout_tick :: "'a timer_system_scheme \<Rightarrow> u32" where
  "rt_timer_next_timeout_tick = timer_list_next_timeout Hard"

end
