(* ===== verification/Timer_List_Inv.thy ===== *)
theory Timer_List_Inv
  imports Timer_List
begin

text \<open>
  A skip list insertion is an insertion into a sorted list: the rows above the last one only shorten the walk. The
  order is that of the distance from a base tick, so it survives the wrap-around of the tick counter.
\<close>

section \<open>Comparing ticks across the wrap-around\<close>

definition tick_window :: nat where "tick_window = 2 ^ 31"

lemma tick_half: "unat (RT_TICK_MAX div 2) = tick_window - 1"
  by (simp add: RT_TICK_MAX_def tick_window_def)

lemma tick_half_less: "x < RT_TICK_MAX div 2 \<longleftrightarrow> Suc (unat x) < tick_window"
  by (simp add: word_less_nat_alt tick_half tick_window_def)

definition distance :: "u32 \<Rightarrow> u32 \<Rightarrow> nat" where
  "distance base tick = unat (tick - base)"

text \<open>The comparison of the code is right for a timer \<open>x\<close> of the list and a new timer \<open>y\<close> that is not overdue.\<close>

lemma tick_compare:
  assumes a: "distance c x < tick_window" and b: "0 < distance c y" "distance c y < tick_window"
  shows "x - y = 0 \<longleftrightarrow> distance c x = distance c y" "x - y < RT_TICK_MAX div 2 \<longleftrightarrow> distance c y \<le> distance c x"
proof -
  have eq: "x - y = (x - c) - (y - c)" by simp
  show "x - y = 0 \<longleftrightarrow> distance c x = distance c y"
    unfolding distance_def by (metis diff_add_cancel right_minus_eq word_unat_eq_iff)
  show "x - y < RT_TICK_MAX div 2 \<longleftrightarrow> distance c y \<le> distance c x"
  proof (cases "y - c \<le> x - c")
    case True
    then have "unat (x - y) = distance c x - distance c y" unfolding distance_def by (subst eq) (rule unat_sub[OF True])
    moreover have "distance c y \<le> distance c x" using True by (simp add: distance_def word_le_nat_alt)
    ultimately show ?thesis using a b by (simp add: tick_half_less)
  next
    case False
    then have l: "distance c x < distance c y" by (simp add: distance_def word_le_nat_alt)
    have "unat (x - y) = 2 ^ 32 + distance c x - distance c y"
      unfolding distance_def by (subst eq, subst unat_sub_if') (use False in \<open>simp add: word_le_nat_alt\<close>)
    then show ?thesis using l b by (simp add: tick_window_def tick_half_less)
  qed
qed

section \<open>Rows\<close>

definition pos_in :: "timer_id option \<Rightarrow> timer_id list \<Rightarrow> bool" where
  "pos_in p xs \<longleftrightarrow> (\<forall>q. p = Some q \<longrightarrow> q \<in> set xs)"

definition last_opt :: "timer_id list \<Rightarrow> timer_id option" where
  "last_opt xs = (if xs = [] then None else Some (last xs))"

text \<open>Nested rows without repetitions, at least one.\<close>

definition rows_ok :: "timer_id list list \<Rightarrow> bool" where
  "rows_ok rows \<longleftrightarrow> rows \<noteq> [] \<and> (\<forall>xs\<in>set rows. distinct xs) \<and> sorted_wrt (\<lambda>xs ys. set xs \<subseteq> set ys) rows"

lemma behind_split: "q \<in> set xs \<Longrightarrow> xs = takeWhile (\<lambda>x. x \<noteq> q) xs @ q # behind (Some q) xs"
  by (induction xs) (auto simp: behind_def)

lemma insert_behind_set [simp]: "pos_in p xs \<Longrightarrow> set (insert_behind p t xs) = insert t (set xs)"
proof (cases p)
  case (Some q)
  assume "pos_in p xs"
  then have "set xs = set (takeWhile (\<lambda>x. x \<noteq> q) xs @ q # behind (Some q) xs)"
    using Some by (subst behind_split[of q xs]) (simp_all add: pos_in_def)
  then show ?thesis by (auto simp: insert_behind_def Some)
qed (simp add: insert_behind_def behind_def)

lemma insert_behind_distinct: "pos_in p xs \<Longrightarrow> distinct xs \<Longrightarrow> t \<notin> set xs \<Longrightarrow> distinct (insert_behind p t xs)"
proof (cases p)
  case (Some q)
  assume "pos_in p xs" and d: "distinct xs" "t \<notin> set xs"
  then have "xs = takeWhile (\<lambda>x. x \<noteq> q) xs @ q # behind (Some q) xs" using Some by (intro behind_split) (simp add: pos_in_def)
  with d have "distinct (takeWhile (\<lambda>x. x \<noteq> q) xs @ q # behind (Some q) xs)" "t \<notin> set (takeWhile (\<lambda>x. x \<noteq> q) xs @ q # behind (Some q) xs)"
    by metis+
  then show ?thesis by (auto simp: insert_behind_def Some)
qed (simp add: insert_behind_def behind_def)

lemma skip_row_in: "skip_row due tick p ys = p \<or> (\<exists>q\<in>set ys. skip_row due tick p ys = Some q)"
  by (induction ys arbitrary: p) auto

lemma set_behind: "set (behind p xs) \<subseteq> set xs"
  by (auto simp: behind_def split: option.splits dest: list.set_sel(2) set_dropWhileD) (metis list.set_sel(2) set_dropWhileD tl_Nil empty_iff empty_set)

lemma row_heads_in:
  assumes "sorted_wrt (\<lambda>xs ys. set xs \<subseteq> set ys) rows" "\<forall>xs\<in>set rows. pos_in p xs"
  shows "list_all2 pos_in (row_heads due tick p rows) rows"
  using assms
proof (induction rows arbitrary: p)
  case (Cons xs rows)
  let ?h = "skip_row due tick p (behind p xs)"
  have "pos_in ?h xs" using skip_row_in[of due tick p "behind p xs"] set_behind[of p xs] Cons.prems(2) by (auto simp: pos_in_def)
  moreover from this have "\<forall>ys\<in>set rows. pos_in ?h ys" using Cons.prems(1) by (auto simp: pos_in_def)
  ultimately show ?case using Cons by (simp add: Let_def)
qed simp

text \<open>The timer is linked in the last row and in some of the rows directly above it.\<close>

lemma link_above_take:
  "\<exists>n. link_above nr t rs = map (\<lambda>(h, xs). insert_behind h t xs) (take n rs) @ map snd (drop n rs)"
proof (induction nr t rs rule: link_above.induct)
  case (2 nr t h xs rs)
  show ?case
  proof (cases "nr AND RT_TIMER_SKIP_LIST_MASK = 0")
    case True
    with 2 obtain n where "link_above nr t ((h, xs) # rs) =
      insert_behind h t xs # map (\<lambda>(h, xs). insert_behind h t xs) (take n rs) @ map snd (drop n rs)" by auto
    then show ?thesis by (intro exI[of _ "Suc n"]) simp
  next
    case False
    then show ?thesis by (intro exI[of _ 0]) simp
  qed
qed simp

lemma timer_link_rows:
  assumes "rows \<noteq> []" "length (row_heads due (due t) None rows) = length rows"
  obtains m where "m < length rows" "length (timer_link nr due t rows) = length rows"
    "\<And>i. i < length rows \<Longrightarrow> timer_link nr due t rows ! i =
       (if i < m then rows ! i else insert_behind (row_heads due (due t) None rows ! i) t (rows ! i))"
proof -
  let ?z = "zip (row_heads due (due t) None rows) rows" and ?f = "\<lambda>(h, xs). insert_behind h t xs"
  have len: "length ?z = length rows" using assms(2) by simp
  then obtain h xs rs where z: "rev ?z = (h, xs) # rs" using assms(1) by (cases "rev ?z") auto
  obtain n where n: "link_above nr t rs = map ?f (take n rs) @ map snd (drop n rs)" using link_above_take by blast
  have l: "link_rows nr t (rev ?z) = map ?f (take (Suc n) (rev ?z)) @ map snd (drop (Suc n) (rev ?z))" by (simp add: z n)
  let ?m = "length rows - Suc n"
  have m: "?m < length rows" using assms(1) by (simp add: diff_less)
  have "timer_link nr due t rows = map snd (take ?m ?z) @ map ?f (drop ?m ?z)"
    unfolding timer_link_def l by (simp only: rev_append rev_map[symmetric] take_rev drop_rev rev_rev_ident len)
  then show ?thesis using len assms(2) m by (intro that[of ?m]) (auto simp: nth_append min_def simp del: diff_Suc_less)
qed

lemma length_row_heads [simp]: "length (row_heads due tick p rows) = length rows"
  by (induction rows arbitrary: p) (simp_all add: Let_def)

text \<open>Whatever the order of the timers: the rows stay nested, and the last one gets the timer.\<close>

lemma timer_link_ok:
  assumes ok: "rows_ok rows" and t: "t \<notin> set (last rows)"
  shows "rows_ok (timer_link nr due t rows)" "set (last (timer_link nr due t rows)) = insert t (set (last rows))"
    "length (timer_link nr due t rows) = length rows"
proof -
  let ?h = "row_heads due (due t) None rows" and ?rows = "timer_link nr due t rows"
  note o = ok[unfolded rows_ok_def]
  have nn: "rows \<noteq> []" using o by simp
  from timer_link_rows[OF nn length_row_heads, of nr] obtain m where m: "m < length rows" "length ?rows = length rows"
    "\<And>i. i < length rows \<Longrightarrow> ?rows ! i = (if i < m then rows ! i else insert_behind (?h ! i) t (rows ! i))" by metis
  show "length ?rows = length rows" by (rule m(2))
  have nest: "set (rows ! i) \<subseteq> set (rows ! j)" if "i < j" "j < length rows" for i j
    using o that by (auto simp: sorted_wrt_iff_nth_less)
  have "t \<notin> set (rows ! i)" if "i < length rows" for i
    using t nest[of i "length rows - 1"] that nn by (cases "i < length rows - 1") (auto simp: last_conv_nth not_less dest!: le_antisym[rotated])
  note tn = this
  have "list_all2 pos_in ?h rows" using o by (intro row_heads_in) (auto simp: pos_in_def)
  then have p: "pos_in (?h ! i) (rows ! i)" if "i < length rows" for i using that by (simp add: list_all2_conv_all_nth)
  have s: "set (?rows ! i) = (if i < m then set (rows ! i) else insert t (set (rows ! i)))" if "i < length rows" for i
    using p[OF that] by (simp add: m(3)[OF that])
  have "distinct (?rows ! i)" if "i < length rows" for i
    using p[OF that] tn[OF that] o that by (auto simp: m(3) intro: insert_behind_distinct)
  then have "\<forall>xs\<in>set ?rows. distinct xs" using m(2) by (metis in_set_conv_nth)
  moreover have "sorted_wrt (\<lambda>xs ys. set xs \<subseteq> set ys) ?rows"
    unfolding sorted_wrt_iff_nth_less m(2) 
  proof (intro allI impI)
    fix i j assume ij: "i < j" "j < length rows"
    then show "set (?rows ! i) \<subseteq> set (?rows ! j)" using nest[OF ij] by (auto simp: s)
  qed
  moreover have "?rows \<noteq> []" using m(2) nn by auto
  ultimately show "rows_ok ?rows" by (simp add: rows_ok_def)
  show "set (last ?rows) = insert t (set (last rows))"
    using s[of "length rows - 1"] m(1,2) nn \<open>?rows \<noteq> []\<close> by (auto simp: last_conv_nth not_less)
qed

section \<open>Sorted rows\<close>

text \<open>The reference insertion: behind all timers with the same or an earlier timeout.\<close>

definition insert_due :: "(timer_id \<Rightarrow> nat) \<Rightarrow> timer_id \<Rightarrow> timer_id list \<Rightarrow> timer_id list" where
  "insert_due k t xs = takeWhile (\<lambda>x. k x \<le> k t) xs @ t # dropWhile (\<lambda>x. k x \<le> k t) xs"

lemma insert_due_set [simp]: "set (insert_due k t xs) = insert t (set xs)"
  unfolding insert_due_def by (metis (no_types, lifting) Un_insert_right list.simps(15) set_append takeWhile_dropWhile_id)

lemma sorted_takeWhile: "sorted (map k xs) \<Longrightarrow> takeWhile (\<lambda>x. k x \<le> n) xs = filter (\<lambda>x. k x \<le> n) xs"
proof (induction xs)
  case (Cons a xs)
  then have "filter (\<lambda>x. k x \<le> n) xs = []" if "\<not> k a \<le> n"
    using that unfolding filter_empty_conv by (auto dest: order_trans)
  then show ?case using Cons by simp
qed simp

lemma sorted_dropWhile: "sorted (map k xs) \<Longrightarrow> dropWhile (\<lambda>x. k x \<le> n) xs = filter (\<lambda>x. n < k x) xs"
  by (induction xs) (auto simp: not_le intro!: filter_True[symmetric])

lemma insert_due_sorted: "sorted (map k xs) \<Longrightarrow> sorted (map k (insert_due k t xs))"
  unfolding insert_due_def by (auto simp: sorted_append sorted_takeWhile sorted_dropWhile sorted_filter)

lemma skip_row_sorted:
  fixes due :: "timer_id \<Rightarrow> u32" and c :: u32
  defines "k \<equiv> \<lambda>x. distance c (due x)"
  assumes "\<forall>x\<in>set ys. k x < tick_window" "0 < distance c tick" "distance c tick < tick_window"
  shows "skip_row due tick p ys =
    (case last_opt (takeWhile (\<lambda>x. k x \<le> distance c tick) ys) of None \<Rightarrow> p | Some q \<Rightarrow> Some q)"
  using assms(2)
proof (induction ys arbitrary: p)
  case (Cons y ys)
  have y: "k y < tick_window" using Cons.prems by simp
  note cmp = tick_compare[OF y[unfolded k_def] assms(3,4)]
  show ?case
  proof (cases "k y \<le> distance c tick")
    case True
    then have "skip_row due tick p (y # ys) = skip_row due tick (Some y) ys"
      using cmp by (auto simp: k_def)
    then show ?thesis using Cons True by (auto simp: last_opt_def)
  next
    case False
    then have "skip_row due tick p (y # ys) = p" using cmp by (auto simp: k_def)
    then show ?thesis using False by (simp add: last_opt_def)
  qed
qed (simp add: last_opt_def)

lemma enter_row:
  assumes s: "sorted (map k xs)" and d: "distinct xs" and q: "q \<in> set xs" "k q \<le> n"
  shows "takeWhile (\<lambda>x. k x \<le> n) xs = takeWhile (\<lambda>x. x \<noteq> q) xs @ q # takeWhile (\<lambda>x. k x \<le> n) (behind (Some q) xs)"
proof -
  let ?a = "takeWhile (\<lambda>x. x \<noteq> q) xs" and ?b = "behind (Some q) xs"
  have xs: "xs = ?a @ q # ?b" by (rule behind_split[OF q(1)])
  have "sorted (map k (?a @ q # ?b))" using s xs by metis
  then have a: "\<forall>x\<in>set ?a. k x \<le> n" using q(2) by (auto simp: sorted_append dest: order_trans)
  have "takeWhile (\<lambda>x. k x \<le> n) (?a @ q # ?b) = ?a @ q # takeWhile (\<lambda>x. k x \<le> n) ?b"
    using a q(2) by (simp add: takeWhile_append2)
  then show ?thesis using xs by metis
qed

lemma row_heads_sorted:
  fixes due :: "timer_id \<Rightarrow> u32" and c :: u32
  defines "k \<equiv> \<lambda>x. distance c (due x)"
  assumes "sorted_wrt (\<lambda>xs ys. set xs \<subseteq> set ys) rows" "\<forall>xs\<in>set rows. distinct xs \<and> sorted (map k xs) \<and> (\<forall>x\<in>set xs. k x < tick_window)"
    "0 < distance c tick" "distance c tick < tick_window" "\<forall>q. p = Some q \<longrightarrow> k q \<le> distance c tick \<and> (\<forall>xs\<in>set rows. q \<in> set xs)"
  shows "row_heads due tick p rows = map (\<lambda>xs. last_opt (takeWhile (\<lambda>x. k x \<le> distance c tick) xs)) rows"
  using assms(2,3,6)
proof (induction rows arbitrary: p)
  case (Cons xs rows)
  let ?P = "\<lambda>x. k x \<le> distance c tick"
  let ?h = "skip_row due tick p (behind p xs)"
  have xs: "distinct xs" "sorted (map k xs)" "\<forall>x\<in>set xs. k x < tick_window" using Cons.prems(2) by simp_all
  have "\<forall>x\<in>set (behind p xs). k x < tick_window" using xs(3) set_behind[of p xs] by blast
  with skip_row_sorted[of "behind p xs" c due tick p] assms(4,5)
  have h: "skip_row due tick p (behind p xs) = (case last_opt (takeWhile ?P (behind p xs)) of None \<Rightarrow> p | Some q \<Rightarrow> Some q)" by (simp add: k_def)
  have head: "?h = last_opt (takeWhile ?P xs)"
  proof (cases p)
    case None
    then have "?h = (case last_opt (takeWhile ?P xs) of None \<Rightarrow> None | Some q \<Rightarrow> Some q)" using h by (simp only: behind_def option.case)
    then show ?thesis by (simp split: option.splits)
  next
    case (Some q)
    have "takeWhile ?P xs = takeWhile (\<lambda>x. x \<noteq> q) xs @ q # takeWhile ?P (behind (Some q) xs)"
      using Cons.prems(3) Some by (intro enter_row[OF xs(2,1)]) auto
    then show ?thesis unfolding h by (auto simp: Some last_opt_def)
  qed
  have nxt: "\<forall>q. ?h = Some q \<longrightarrow> k q \<le> distance c tick \<and> (\<forall>ys\<in>set rows. q \<in> set ys)"
  proof (intro allI impI)
    fix q assume "?h = Some q"
    then have "q \<in> set (takeWhile ?P xs)" by (auto simp: head last_opt_def split: if_splits)
    then show "k q \<le> distance c tick \<and> (\<forall>ys\<in>set rows. q \<in> set ys)" using Cons.prems(1) by (auto dest: set_takeWhileD)
  qed
  from Cons.IH[OF _ _ nxt] Cons.prems(1,2) show ?case by (simp add: Let_def head)
qed simp

lemma insert_behind_takeWhile:
  assumes "distinct xs"
  shows "insert_behind (last_opt (takeWhile P xs)) t xs = takeWhile P xs @ t # dropWhile P xs"
proof (cases "takeWhile P xs = []")
  case True
  then show ?thesis by (cases xs) (auto simp: last_opt_def insert_behind_def behind_def)
next
  case False
  let ?a = "takeWhile P xs"
  have xs: "xs = butlast ?a @ last ?a # dropWhile P xs" using False by (metis append.assoc append_Cons append_Nil append_butlast_last_id takeWhile_dropWhile_id)
  have "distinct (butlast ?a @ last ?a # dropWhile P xs)" using assms xs by metis
  then have n: "last ?a \<notin> set (butlast ?a)" by auto
  have "takeWhile (\<lambda>x. x \<noteq> last ?a) (butlast ?a @ last ?a # dropWhile P xs) = butlast ?a"
    "dropWhile (\<lambda>x. x \<noteq> last ?a) (butlast ?a @ last ?a # dropWhile P xs) = last ?a # dropWhile P xs"
    using n by (auto simp: takeWhile_append dropWhile_append)
  then have tw: "takeWhile (\<lambda>x. x \<noteq> last ?a) xs = butlast ?a" "dropWhile (\<lambda>x. x \<noteq> last ?a) xs = last ?a # dropWhile P xs"
    using xs by metis+
  show ?thesis using False by (simp add: last_opt_def insert_behind_def behind_def tw)
qed

text \<open>The skip list insertion, whatever the number of rows and the random number: the last row is the sorted insertion.\<close>

definition rows_sorted :: "(timer_id \<Rightarrow> nat) \<Rightarrow> timer_id list list \<Rightarrow> bool" where
  "rows_sorted k rows \<longleftrightarrow> (\<forall>xs\<in>set rows. sorted (map k xs) \<and> (\<forall>x\<in>set xs. k x < tick_window))"

lemma timer_link_sorted:
  fixes due :: "timer_id \<Rightarrow> u32" and c :: u32
  defines "k \<equiv> \<lambda>x. distance c (due x)"
  assumes ok: "rows_ok rows" and s: "rows_sorted k rows" and t: "0 < k t" "k t < tick_window"
  shows "last (timer_link nr due t rows) = insert_due k t (last rows)" "rows_sorted k (timer_link nr due t rows)"
proof -
  let ?rows = "timer_link nr due t rows" and ?P = "\<lambda>x. k x \<le> k t"
  note o = ok[unfolded rows_ok_def]
  have nn: "rows \<noteq> []" using o by simp
  from timer_link_rows[OF nn length_row_heads, of nr] obtain m where m: "m < length rows" "length ?rows = length rows"
    "\<And>i. i < length rows \<Longrightarrow> ?rows ! i = (if i < m then rows ! i else insert_behind (row_heads due (due t) None rows ! i) t (rows ! i))" by metis
  have h: "row_heads due (due t) None rows = map (\<lambda>xs. last_opt (takeWhile ?P xs)) rows"
    using row_heads_sorted[of rows c due "due t" None, folded k_def] o s t by (auto simp: rows_sorted_def k_def)
  have r: "?rows ! i = (if i < m then rows ! i else insert_due k t (rows ! i))" if "i < length rows" for i
    using o that by (auto simp: m(3) h insert_behind_takeWhile insert_due_def)
  show "last ?rows = insert_due k t (last rows)"
    using r[of "length rows - 1"] m(1,2) nn by (metis Suc_diff_1 last_conv_nth length_0_conv length_greater_0_conv lessI less_Suc_eq_le not_le)
  have "sorted (map k (?rows ! i)) \<and> (\<forall>x\<in>set (?rows ! i). k x < tick_window)" if "i < length rows" for i
    using s t nth_mem[OF that] by (auto simp: r[OF that] rows_sorted_def insert_due_sorted)
  then show "rows_sorted k ?rows" unfolding rows_sorted_def using m(2) by (metis in_set_conv_nth)
qed

section \<open>The invariant of the timers\<close>

text \<open>
  The rows of both lists are nested and hold activated timers of their kind; the hard list is sorted by the distance
  from the tick before the current one, which is below half of the range of the counter: the distance is 0 for a timer
  that was due at the last tick, 1 for one that is due now. The timer of a thread is a hard one-shot timer, and linked
  whenever it is activated.
\<close>

definition timer_distance :: "'a timer_system_scheme \<Rightarrow> timer_id \<Rightarrow> nat" where
  "timer_distance S t = distance (rt_tick S - 1) (timeout_tick (timers S t))"

definition linked :: "timer_head \<Rightarrow> 'a timer_system_scheme \<Rightarrow> timer_id set" where
  "linked h S = set (last (timer_list S h))"

definition timers_ok :: "'a timer_system_scheme \<Rightarrow> bool" where
  "timers_ok S \<longleftrightarrow> rows_ok (timer_list S Hard) \<and> rows_ok (timer_list S Soft) \<and>
     rows_sorted (timer_distance S) (timer_list S Hard) \<and>
     (\<forall>t\<in>linked Hard S. timer_activated (timers S t) \<and> \<not> timer_soft (timers S t)) \<and>
     (\<forall>t\<in>linked Soft S. timer_activated (timers S t) \<and> timer_soft (timers S t)) \<and>
     (\<forall>x. \<not> timer_soft (timers S (Thread_timer x)) \<and> \<not> timer_periodic (timers S (Thread_timer x)) \<and>
       (timer_activated (timers S (Thread_timer x)) \<longrightarrow> Thread_timer x \<in> linked Hard S))"

lemma timers_okD:
  assumes "timers_ok S"
  shows "rows_ok (timer_list S h)" "rows_sorted (timer_distance S) (timer_list S Hard)"
    "t \<in> linked Hard S \<Longrightarrow> timer_activated (timers S t) \<and> \<not> timer_soft (timers S t)"
    "t \<in> linked Soft S \<Longrightarrow> timer_activated (timers S t) \<and> timer_soft (timers S t)"
    "\<not> timer_soft (timers S (Thread_timer x))" "\<not> timer_periodic (timers S (Thread_timer x))"
    "timer_activated (timers S (Thread_timer x)) \<Longrightarrow> Thread_timer x \<in> linked Hard S"
  using assms by (auto simp: timers_ok_def intro: timer_head.exhaust[of h])

lemma truncate_fields:
  assumes "timer_system.truncate S' = timer_system.truncate S"
  shows "rt_tick S' = rt_tick S" "timers S' = timers S" "timer_list S' = timer_list S" "expired S' = expired S"
    "random_nr S' = random_nr S" "soft_timer_busy S' = soft_timer_busy S" "timer_thread S' = timer_thread S"
  using assms by (simp_all add: timer_system.defs)

lemma timers_ok_cong: "timer_system.truncate S' = timer_system.truncate S \<Longrightarrow> timers_ok S' \<longleftrightarrow> timers_ok S"
  using truncate_fields[of S' S] by (auto simp: timers_ok_def linked_def timer_distance_def[abs_def])

lemma upd_timer_sel [simp]:
  "timers (upd_timer t f S) = (timers S)(t := f (timers S t))" "timer_list (upd_timer t f S) = timer_list S"
  "rt_tick (upd_timer t f S) = rt_tick S" "random_nr (upd_timer t f S) = random_nr S" "expired (upd_timer t f S) = expired S"
  "linked h (upd_timer t f S) = linked h S"
  by (simp_all add: upd_timer_def linked_def)

lemma timer_remove_sel [simp]:
  "timers (timer_remove t S) = timers S" "timer_list (timer_remove t S) h = map (removeAll t) (timer_list S h)"
  "rt_tick (timer_remove t S) = rt_tick S" "random_nr (timer_remove t S) = random_nr S"
  "expired (timer_remove t S) h = removeAll t (expired S h)"
  by (simp_all add: timer_remove_def)

lemma rows_ok_remove: "rows_ok rows \<Longrightarrow> rows_ok (map (removeAll t) rows)"
  by (auto simp: rows_ok_def sorted_wrt_map distinct_removeAll elim!: sorted_wrt_mono_rel[rotated])

lemma rows_sorted_remove: "rows_sorted k rows \<Longrightarrow> rows_sorted k (map (removeAll t) rows)"
  by (auto simp: rows_sorted_def removeAll_filter_not_eq sorted_filter)

lemma linked_remove: "rows_ok (timer_list S h) \<Longrightarrow> linked h (timer_remove t S) = linked h S - {t}"
  by (simp add: linked_def rows_ok_def last_map)

lemma rows_sorted_cong: "(\<And>x. x \<in> set (last rows) \<Longrightarrow> k x = k' x) \<Longrightarrow> rows_ok rows \<Longrightarrow> rows_sorted k rows \<longleftrightarrow> rows_sorted k' rows"
proof -
  assume k: "\<And>x. x \<in> set (last rows) \<Longrightarrow> k x = k' x" and ok: "rows_ok rows"
  have "set xs \<subseteq> set (last rows)" if x: "xs \<in> set rows" for xs
  proof -
    obtain i where i: "i < length rows" "xs = rows ! i" using x by (metis in_set_conv_nth)
    show ?thesis
    proof (cases "i = length rows - 1")
      case False
      then show ?thesis using ok i by (auto simp: rows_ok_def sorted_wrt_iff_nth_less last_conv_nth)
    qed (use i ok in \<open>simp add: rows_ok_def last_conv_nth\<close>)
  qed
  then have e: "k x = k' x" if "xs \<in> set rows" "x \<in> set xs" for xs x using k that by blast
  then have "map k xs = map k' xs" if "xs \<in> set rows" for xs using that by simp
  with e show ?thesis unfolding rows_sorted_def by (metis (no_types, lifting))
qed

section \<open>The operations keep the invariant\<close>

lemma detach_ok: "timers_ok S \<Longrightarrow> timers_ok (rt_timer_detach t S)"
proof -
  assume ok: "timers_ok S"
  note o = timers_okD[OF ok]
  have "rows_sorted (timer_distance S) (map (removeAll t) (timer_list S Hard))" by (rule rows_sorted_remove[OF o(2)])
  moreover have "timer_distance (rt_timer_detach t S) = timer_distance S"
    by (auto simp: timer_distance_def rt_timer_detach_def timer_off_def)
  ultimately show ?thesis unfolding timers_ok_def
    using o rows_ok_remove[OF o(1)] by (auto simp: rt_timer_detach_def timer_off_def linked_remove[OF o(1)])
qed

lemma timer_stop_ok: "timers_ok S \<Longrightarrow> timers_ok (snd (rt_timer_stop t S))"
  using detach_ok[of S t] by (simp add: rt_timer_stop_def rt_timer_detach_def)

lemma timer_set_time_ok: "timers_ok S \<Longrightarrow> timers_ok (snd (snd (rt_timer_control t (RT_TIMER_CTRL_SET_TIME time) S)))"
proof -
  assume ok: "timers_ok S"
  let ?S = "upd_timer t (\<lambda>x. x\<lparr>timer_init_tick := time\<rparr>) S"
  have "timer_distance ?S = timer_distance S" by (auto simp: timer_distance_def)
  then show ?thesis using ok by (auto simp: timers_ok_def rt_timer_control_def)
qed

text \<open>Starting a timer: it times out after its ticks, and waits in the place its timeout gives it.\<close>

lemma timer_start_ok:
  assumes ok: "timers_ok S" and st: "timer_start_list t S = Some S'"
  defines "h \<equiv> if timer_soft (timers S t) then Soft else Hard"
  shows "timers_ok S'" "linked h S' = insert t (linked h S)"
    "timers S' = (timers S)(t := (timers S t)\<lparr>timeout_tick := rt_tick S + timer_init_tick (timers S t), timer_activated := True\<rparr>)"
    "rt_tick S' = rt_tick S" "timer_init_tick (timers S t) < RT_TICK_MAX div 2"
    "\<And>g. g \<noteq> h \<Longrightarrow> linked g S' = linked g S - {t}"
    "\<not> timer_soft (timers S t) \<Longrightarrow> last (timer_list S' Hard) = insert_due (timer_distance S') t (removeAll t (last (timer_list S Hard)))"
    "expired S' = (\<lambda>g. removeAll t (expired S g))"
proof -
  note o = timers_okD[OF ok]
  let ?init = "timer_init_tick (timers S t)" and ?due = "rt_tick S + timer_init_tick (timers S t)"
  define S2 where "S2 = upd_timer t (\<lambda>x. x\<lparr>timeout_tick := ?due\<rparr>) (timer_off t (timer_remove t S))"
  have S2: "rt_tick S2 = rt_tick S" "timer_list S2 = (\<lambda>g. map (removeAll t) (timer_list S g))" "expired S2 = (\<lambda>g. removeAll t (expired S g))"
    "timers S2 = (timers S)(t := (timers S t)\<lparr>timer_activated := False, timeout_tick := ?due\<rparr>)"
    by (auto simp: S2_def timer_off_def)
  let ?rows = "timer_link (random_nr S2 + 1) (\<lambda>q. timeout_tick (timers S2 q)) t (timer_list S2 h)"
  show init: "?init < RT_TICK_MAX div 2" using st by (auto simp: timer_start_list_def Let_def timer_off_def split: if_splits)
  have "timer_start_list t S = Some (upd_timer t (\<lambda>x. x\<lparr>timer_activated := True\<rparr>)
      (S2\<lparr>random_nr := random_nr S2 + 1, timer_list := (timer_list S2)(h := ?rows)\<rparr>))"
    using init by (simp add: timer_start_list_def Let_def S2_def h_def timer_off_def)
  then have S': "S' = upd_timer t (\<lambda>x. x\<lparr>timer_activated := True\<rparr>) (S2\<lparr>random_nr := random_nr S2 + 1, timer_list := (timer_list S2)(h := ?rows)\<rparr>)"
    using st by simp
  have ok2: "rows_ok (timer_list S2 g)" for g using rows_ok_remove[OF o(1)] by (simp add: S2(2))
  have lst: "last (timer_list S2 g) = removeAll t (last (timer_list S g))" for g
    using o(1)[of g] by (simp add: S2(2) rows_ok_def last_map)
  have out: "t \<notin> set (last (timer_list S2 g))" for g by (simp add: lst)
  note L = timer_link_ok[OF ok2 out, of "random_nr S2 + 1" "\<lambda>q. timeout_tick (timers S2 q)"]
  show tm: "timers S' = (timers S)(t := (timers S t)\<lparr>timeout_tick := ?due, timer_activated := True\<rparr>)"
    by (simp add: S' upd_timer_def S2(4))
  show tick: "rt_tick S' = rt_tick S" by (simp add: S' S2(1))
  have tl: "timer_list S' = (timer_list S2)(h := ?rows)" by (simp add: S' upd_timer_def)
  show l1: "linked h S' = insert t (linked h S)" unfolding linked_def tl by (simp add: L(2)) (simp add: lst)
  show l2: "linked g S' = linked g S - {t}" if "g \<noteq> h" for g using that unfolding linked_def tl by (simp add: lst)
  show "expired S' = (\<lambda>g. removeAll t (expired S g))" by (simp add: S' upd_timer_def S2(3))
  define k where "k = (\<lambda>x. distance (rt_tick S - 1) (timeout_tick (timers S2 x)))"
  have "unat (?init + 1) = Suc (unat ?init)" using init by (simp add: RT_TICK_MAX_def unat_word_ariths word_less_nat_alt)
  then have k: "timer_distance S' = k" "k t = Suc (unat ?init)" "0 < k t" "k t < tick_window"
    using init by (auto simp: timer_distance_def k_def tick S2(4) tm distance_def tick_half_less)
  have "rows_sorted (timer_distance S) (timer_list S2 Hard)" using rows_sorted_remove[OF o(2)] by (simp add: S2(2))
  moreover have "timer_distance S x = k x" if "x \<in> set (last (timer_list S2 Hard))" for x
    using that out[of Hard] by (auto simp: timer_distance_def k_def S2(4))
  ultimately have s2: "rows_sorted k (timer_list S2 Hard)" using rows_sorted_cong[OF _ ok2] by blast
  note K = timer_link_sorted[OF ok2 s2[unfolded k_def] k(3,4)[unfolded k_def], folded k_def]
  show "last (timer_list S' Hard) = insert_due (timer_distance S') t (removeAll t (last (timer_list S Hard)))"
    if "\<not> timer_soft (timers S t)" unfolding k(1) tl using that K(1) by (simp add: h_def lst)
  have s': "rows_sorted (timer_distance S') (timer_list S' Hard)" unfolding k(1) tl using s2 K(2) by simp
  have "rows_ok (timer_list S' g)" for g unfolding tl using ok2 L(1) by simp
  then show "timers_ok S'"
    unfolding timers_ok_def using s' o(3-7) l1 l2 by (cases "timer_soft (timers S t)") (auto simp: tm h_def)
qed

text \<open>Starting stops the timer first, so its state before does not matter.\<close>

lemma timer_start_off: "timer_start_list t (timer_off t S) = timer_start_list t S"
proof -
  have "timer_off t (timer_remove t (timer_off t S)) = timer_off t (timer_remove t S)"
    by (simp add: timer_off_def upd_timer_def timer_remove_def)
  then show ?thesis by (simp only: timer_start_list_def)
qed

lemma timer_start_total: "timer_init_tick (timers S t) < RT_TICK_MAX div 2 \<Longrightarrow> \<exists>S'. timer_start_list t S = Some S'"
  by (simp add: timer_start_list_def Let_def timer_off_def)

lemma timer_init_ok:
  assumes ok: "timers_ok S" and t: "t \<notin> linked Hard S" "t \<notin> linked Soft S" and k: "\<forall>x. t = Thread_timer x \<longrightarrow> \<not> periodic \<and> \<not> soft"
  shows "timers_ok (timer_init t time periodic soft S)"
proof -
  note o = timers_okD[OF ok]
  let ?S = "timer_init t time periodic soft S"
  have "timer_distance S x = timer_distance ?S x" if "x \<in> set (last (timer_list S Hard))" for x
    using that t by (auto simp: timer_init_def timer_distance_def linked_def)
  then have "rows_sorted (timer_distance ?S) (timer_list S Hard)" using rows_sorted_cong[OF _ o(1)] o(2) by blast
  then show ?thesis unfolding timers_ok_def using o t k by (auto simp: timer_init_def)
qed

section \<open>Due timers\<close>

text \<open>The condition of the loop of the check function: the first timer of the list is due.\<close>

definition timer_due :: "timer_head \<Rightarrow> 'a timer_system_scheme \<Rightarrow> bool" where
  "timer_due h S = (case last (timer_list S h) of [] \<Rightarrow> False
     | t # _ \<Rightarrow> rt_tick S - timeout_tick (timers S t) < RT_TICK_MAX div 2)"

lemma due_distance:
  assumes "timer_distance S t < tick_window"
  shows "rt_tick S - timeout_tick (timers S t) < RT_TICK_MAX div 2 \<longleftrightarrow> timer_distance S t \<le> 1"
proof -
  let ?d = "timeout_tick (timers S t) - (rt_tick S - 1)"
  have eq: "rt_tick S - timeout_tick (timers S t) = 1 - ?d" by simp
  have d: "timer_distance S t = unat ?d" by (simp add: timer_distance_def distance_def)
  show ?thesis
  proof (cases "?d \<le> 1")
    case True
    have "unat (1 - ?d) = 1 - unat ?d" using unat_sub[OF True] by simp
    then show ?thesis using True unfolding eq d by (simp add: tick_half_less tick_window_def word_le_nat_alt)
  next
    case False
    then have "unat (1 - ?d) = 2 ^ 32 + 1 - unat ?d" by (subst unat_sub_if') (simp add: word_le_nat_alt)
    then show ?thesis using False assms unfolding eq d by (simp add: tick_half_less tick_window_def word_le_nat_alt)
  qed
qed

lemma linked_sorted:
  assumes ok: "timers_ok S"
  shows "sorted (map (timer_distance S) (last (timer_list S Hard)))" "t \<in> linked Hard S \<Longrightarrow> timer_distance S t < tick_window"
proof -
  have "last (timer_list S Hard) \<in> set (timer_list S Hard)" using timers_okD(1)[OF ok] by (simp add: rows_ok_def)
  then show "sorted (map (timer_distance S) (last (timer_list S Hard)))" "t \<in> linked Hard S \<Longrightarrow> timer_distance S t < tick_window"
    using timers_okD(2)[OF ok] by (auto simp: rows_sorted_def linked_def)
qed

text \<open>When the first timer is not due, none is.\<close>

lemma not_due:
  assumes ok: "timers_ok S" and d: "\<not> timer_due Hard S" and t: "t \<in> linked Hard S"
  shows "2 \<le> timer_distance S t"
proof -
  obtain x xs where x: "last (timer_list S Hard) = x # xs" using t by (cases "last (timer_list S Hard)") (auto simp: linked_def)
  then have l: "x \<in> linked Hard S" by (simp add: linked_def)
  have "\<not> timer_distance S x \<le> 1" using d due_distance[OF linked_sorted(2)[OF ok l]] by (simp add: timer_due_def x)
  moreover have "timer_distance S x \<le> timer_distance S t" using linked_sorted(1)[OF ok] t by (auto simp: x linked_def)
  ultimately show ?thesis by simp
qed

text \<open>The tick may advance when no timer is overdue, that is when the check of the last tick is finished.\<close>

definition timer_late :: "'a timer_system_scheme \<Rightarrow> bool" where
  "timer_late S \<longleftrightarrow> (\<exists>t\<in>linked Hard S. timeout_tick (timers S t) = rt_tick S - 1)"

lemma not_due_late: "timers_ok S \<Longrightarrow> \<not> timer_due Hard S \<Longrightarrow> \<not> timer_late S"
  using not_due[of S] by (fastforce simp: timer_late_def timer_distance_def distance_def)

lemma tick_distance:
  assumes "\<not> timer_late S" "t \<in> linked Hard S"
  shows "timer_distance S t = Suc (timer_distance (S\<lparr>rt_tick := rt_tick S + 1\<rparr>) t)"
proof -
  let ?x = "timeout_tick (timers S t)"
  have "?x - (rt_tick S - 1) \<noteq> 0" using assms by (auto simp: timer_late_def)
  then have "unat (?x - (rt_tick S - 1)) = Suc (unat (?x - (rt_tick S - 1) - 1))"
    by (metis Suc_pred unat_gt_0 unat_minus_one One_nat_def)
  then show ?thesis by (simp add: timer_distance_def distance_def)
qed

lemma tick_ok:
  assumes ok: "timers_ok S" and d: "\<not> timer_late S"
  shows "timers_ok (S\<lparr>rt_tick := rt_tick S + 1\<rparr>)"
proof -
  note o = timers_okD[OF ok]
  let ?S = "S\<lparr>rt_tick := rt_tick S + 1\<rparr>"
  have "rows_sorted (timer_distance S) (timer_list S Hard) \<longleftrightarrow> rows_sorted (\<lambda>t. Suc (timer_distance ?S t)) (timer_list S Hard)"
    using tick_distance[OF d] by (intro rows_sorted_cong[OF _ o(1)]) (simp add: linked_def)
  then have "rows_sorted (\<lambda>t. Suc (timer_distance ?S t)) (timer_list S Hard)" using o(2) by simp
  moreover have "sorted (map (\<lambda>t. Suc (timer_distance ?S t)) xs) = sorted (map (timer_distance ?S) xs)" for xs
    by (induction xs) simp_all
  ultimately have "rows_sorted (timer_distance ?S) (timer_list S Hard)" by (auto simp: rows_sorted_def dest!: bspec intro: Suc_lessD)
  then show ?thesis using ok by (simp add: timers_ok_def linked_def)
qed

end
