(* ===== verification/Scheduler.thy ===== *)
theory Scheduler
  imports Ffs Timer_List_Inv
begin

text \<open>
  The uniprocessor scheduler \<^verbatim>\<open>rt-thread/src/scheduler.c\<close> and the thread operations of \<^verbatim>\<open>thread.c\<close> and \<^verbatim>\<open>clock.c\<close>, for 32
  priorities, without signals. A thread is an address; address 0 is \<^verbatim>\<open>RT_NULL\<close>. The intrusive lists a thread can
  be in (\<^verbatim>\<open>thread->tlist\<close>) are the lists \<^verbatim>\<open>tlists\<close>, one per list head. Every operation runs with interrupts
  disabled, so it is one step of the model; the result \<open>None\<close> is a failed \<^verbatim>\<open>RT_ASSERT\<close>. A context switch is the
  change of \<^verbatim>\<open>rt_current_thread\<close>: a call that blocks ends in the model where the code calls \<^verbatim>\<open>rt_schedule\<close>, and the rest
  of the function is the operation the thread performs when it runs again. The timer of thread \<open>t\<close> is the timer
  \<open>Thread_timer t\<close> of the timer system, whose state the kernel extends.
\<close>

section \<open>State\<close>

definition RT_THREAD_PRIORITY_MAX :: nat where "RT_THREAD_PRIORITY_MAX = 32"

datatype thread_stat = RT_THREAD_INIT | RT_THREAD_READY | RT_THREAD_SUSPEND | RT_THREAD_RUNNING | RT_THREAD_CLOSE

record rt_thread =
  stat :: thread_stat
  stat_yield :: bool
  error :: int
  current_priority :: nat
  init_priority :: nat
  number_mask :: u32
  event_set :: u32
  event_info :: u8
  init_tick :: u32
  remaining_tick :: u32

text \<open>The heads of the lists of threads: ready queues, the queues of the objects threads wait for, dead threads.\<close>

datatype ipc_flag = RT_IPC_FLAG_FIFO | RT_IPC_FLAG_PRIO

datatype ipc_object = Semaphore nat | Mutex nat | Event nat | MailBox nat | MessageQueue nat | MemPool nat

datatype list_head = Ready nat | Suspend_thread ipc_object | Suspend_sender ipc_object | Thread_defunct

record kernel = timer_system +
  threads :: "nat \<Rightarrow> rt_thread"
  tlists :: "list_head \<Rightarrow> nat list"
  rt_thread_ready_priority_group :: u32
  rt_scheduler_lock_nest :: int
  rt_current_thread :: nat
  rt_current_priority :: nat
  rt_interrupt_nest :: nat

definition upd_thread :: "nat \<Rightarrow> (rt_thread \<Rightarrow> rt_thread) \<Rightarrow> 'a kernel_scheme \<Rightarrow> 'a kernel_scheme" where
  "upd_thread t f K = K\<lparr>threads := (threads K)(t := f (threads K t))\<rparr>"

abbreviation set_stat :: "nat \<Rightarrow> thread_stat \<Rightarrow> 'a kernel_scheme \<Rightarrow> 'a kernel_scheme" where
  "set_stat t s \<equiv> upd_thread t (\<lambda>th. th\<lparr>stat := s\<rparr>)"

section \<open>Lists\<close>

definition rt_list_remove :: "nat \<Rightarrow> 'a kernel_scheme \<Rightarrow> 'a kernel_scheme" where
  "rt_list_remove t K = K\<lparr>tlists := (\<lambda>h. removeAll t (tlists K h))\<rparr>"

text \<open>\<^verbatim>\<open>rt_list_insert_before(&head, node)\<close> appends to the list; \<^verbatim>\<open>rt_list_insert_after\<close> puts in front.\<close>

definition rt_list_insert_before :: "list_head \<Rightarrow> nat \<Rightarrow> 'a kernel_scheme \<Rightarrow> 'a kernel_scheme" where
  "rt_list_insert_before h t K = K\<lparr>tlists := (tlists K)(h := tlists K h @ [t])\<rparr>"

definition rt_list_insert_after :: "list_head \<Rightarrow> nat \<Rightarrow> 'a kernel_scheme \<Rightarrow> 'a kernel_scheme" where
  "rt_list_insert_after h t K = K\<lparr>tlists := (tlists K)(h := t # tlists K h)\<rparr>"

section \<open>Scheduler\<close>

definition rt_system_scheduler_init :: "'a kernel_scheme \<Rightarrow> 'a kernel_scheme" where
  "rt_system_scheduler_init K =
     K\<lparr>rt_scheduler_lock_nest := 0,
       tlists := (\<lambda>h. case h of Ready p \<Rightarrow> (if p < RT_THREAD_PRIORITY_MAX then [] else tlists K h) | _ \<Rightarrow> tlists K h),
       rt_thread_ready_priority_group := 0\<rparr>"

definition scheduler_get_highest_priority_thread :: "'a kernel_scheme \<Rightarrow> nat \<times> nat" where
  "scheduler_get_highest_priority_thread K =
     (let highest_ready_priority = rt_ffs (rt_thread_ready_priority_group K) - 1
      in (hd (tlists K (Ready highest_ready_priority)), highest_ready_priority))"

definition rt_schedule_insert_thread :: "nat \<Rightarrow> 'a kernel_scheme \<Rightarrow> 'a kernel_scheme" where
  "rt_schedule_insert_thread t K =
     (if t = rt_current_thread K then set_stat t RT_THREAD_RUNNING K
      else let K1 = rt_list_insert_before (Ready (current_priority (threads K t))) t (set_stat t RT_THREAD_READY K)
           in K1\<lparr>rt_thread_ready_priority_group :=
                   rt_thread_ready_priority_group K1 OR number_mask (threads K1 t)\<rparr>)"

definition rt_schedule_remove_thread :: "nat \<Rightarrow> 'a kernel_scheme \<Rightarrow> 'a kernel_scheme" where
  "rt_schedule_remove_thread t K =
     (let K1 = rt_list_remove t K
      in if tlists K1 (Ready (current_priority (threads K1 t))) = []
         then K1\<lparr>rt_thread_ready_priority_group :=
                   rt_thread_ready_priority_group K1 AND NOT (number_mask (threads K1 t))\<rparr>
         else K1)"

definition rt_system_scheduler_start :: "'a kernel_scheme \<Rightarrow> 'a kernel_scheme" where
  "rt_system_scheduler_start K =
     (let to_thread = fst (scheduler_get_highest_priority_thread K)
      in upd_thread to_thread (\<lambda>th. th\<lparr>stat := RT_THREAD_RUNNING, stat_yield := False\<rparr>)
           (rt_schedule_remove_thread to_thread (K\<lparr>rt_current_thread := to_thread\<rparr>)))"

text \<open>The switch to another thread; the running thread goes back to its ready queue when it was still running.\<close>

definition switch_to :: "nat \<Rightarrow> nat \<Rightarrow> bool \<Rightarrow> 'a kernel_scheme \<Rightarrow> 'a kernel_scheme" where
  "switch_to to_thread prio need_insert_from_thread K =
     (let from_thread = rt_current_thread K;
          K1 = K\<lparr>rt_current_priority := prio, rt_current_thread := to_thread\<rparr>;
          K2 = (if need_insert_from_thread then rt_schedule_insert_thread from_thread K1 else K1)
      in set_stat to_thread RT_THREAD_RUNNING (rt_schedule_remove_thread to_thread K2))"

definition rt_schedule :: "'a kernel_scheme \<Rightarrow> 'a kernel_scheme" where
  "rt_schedule K =
     (if rt_scheduler_lock_nest K = 0 \<and> rt_thread_ready_priority_group K \<noteq> 0 then
        let (highest, prio) = scheduler_get_highest_priority_thread K;
            cur = rt_current_thread K; th = threads K cur;
            running = (stat th = RT_THREAD_RUNNING);
            stays = (current_priority th < prio \<or> current_priority th = prio \<and> \<not> stat_yield th);
            K1 = (if running then upd_thread cur (\<lambda>th. th\<lparr>stat_yield := False\<rparr>) K else K);
            to_thread = (if running \<and> stays then cur else highest)
        in if to_thread \<noteq> cur then switch_to to_thread prio running K1
           else set_stat cur RT_THREAD_RUNNING (rt_schedule_remove_thread cur K1)
      else K)"

definition rt_enter_critical :: "'a kernel_scheme \<Rightarrow> 'a kernel_scheme" where
  "rt_enter_critical K =
     K\<lparr>rt_scheduler_lock_nest :=
         (if rt_scheduler_lock_nest K = 2 ^ 15 - 1 then - (2 ^ 15) else rt_scheduler_lock_nest K + 1)\<rparr>"

definition rt_exit_critical :: "'a kernel_scheme \<Rightarrow> 'a kernel_scheme" where
  "rt_exit_critical K =
     (let n = (if rt_scheduler_lock_nest K = - (2 ^ 15) then 2 ^ 15 - 1 else rt_scheduler_lock_nest K - 1)
      in if n \<le> 0
         then let K1 = K\<lparr>rt_scheduler_lock_nest := 0\<rparr> in if rt_current_thread K1 \<noteq> 0 then rt_schedule K1 else K1
         else K\<lparr>rt_scheduler_lock_nest := n\<rparr>)"

section \<open>Threads\<close>

text \<open>The thread's own timer: \<^verbatim>\<open>rt_timer_stop\<close>, and \<^verbatim>\<open>rt_timer_control(SET_TIME)\<close> followed by \<^verbatim>\<open>rt_timer_start\<close>.\<close>

definition thread_timer_stop :: "nat \<Rightarrow> 'a kernel_scheme \<Rightarrow> 'a kernel_scheme" where
  "thread_timer_stop t K = snd (rt_timer_stop (Thread_timer t) K)"

definition thread_timer_start :: "nat \<Rightarrow> u32 \<Rightarrow> 'a kernel_scheme \<Rightarrow> 'a kernel_scheme option" where
  "thread_timer_start t tick K =
     timer_start_list (Thread_timer t) (snd (snd (rt_timer_control (Thread_timer t) (RT_TIMER_CTRL_SET_TIME tick) K)))"

definition thread_init :: "nat \<Rightarrow> nat \<Rightarrow> u32 \<Rightarrow> 'a kernel_scheme \<Rightarrow> 'a kernel_scheme option" where
  "thread_init t priority tick K =
     (if priority < RT_THREAD_PRIORITY_MAX
      then Some (timer_init (Thread_timer t) 0 False False
             (upd_thread t (\<lambda>th. th\<lparr>init_priority := priority, current_priority := priority, number_mask := 0,
               init_tick := tick, remaining_tick := tick, error := RT_EOK, stat := RT_THREAD_INIT, stat_yield := False\<rparr>) K))
      else None)"

definition rt_thread_suspend :: "nat \<Rightarrow> 'a kernel_scheme \<Rightarrow> (int \<times> 'a kernel_scheme) option" where
  "rt_thread_suspend t K =
     (let s = stat (threads K t)
      in if s \<noteq> RT_THREAD_READY \<and> s \<noteq> RT_THREAD_RUNNING then Some (- RT_ERROR, K)
         else if s = RT_THREAD_RUNNING \<and> t \<noteq> rt_current_thread K then None
         else Some (RT_EOK, thread_timer_stop t (set_stat t RT_THREAD_SUSPEND (rt_schedule_remove_thread t K))))"

definition rt_thread_resume :: "nat \<Rightarrow> 'a kernel_scheme \<Rightarrow> int \<times> 'a kernel_scheme" where
  "rt_thread_resume t K =
     (if stat (threads K t) \<noteq> RT_THREAD_SUSPEND then (- RT_ERROR, K)
      else (RT_EOK, rt_schedule_insert_thread t (thread_timer_stop t (rt_list_remove t K))))"

definition rt_thread_startup :: "nat \<Rightarrow> 'a kernel_scheme \<Rightarrow> (int \<times> 'a kernel_scheme) option" where
  "rt_thread_startup t K =
     (if stat (threads K t) \<noteq> RT_THREAD_INIT then None
      else let K1 = upd_thread t (\<lambda>th. th\<lparr>current_priority := init_priority th,
                      number_mask := push_bit (init_priority th) 1, stat := RT_THREAD_SUSPEND, stat_yield := False\<rparr>) K;
               K2 = snd (rt_thread_resume t K1)
           in Some (RT_EOK, if rt_current_thread K2 \<noteq> 0 then rt_schedule K2 else K2))"

definition thread_exit :: "'a kernel_scheme \<Rightarrow> 'a kernel_scheme" where
  "thread_exit K =
     (let t = rt_current_thread K
      in rt_schedule (rt_list_insert_after Thread_defunct t
           (upd_thread t (\<lambda>th. th\<lparr>stat := RT_THREAD_CLOSE, stat_yield := False\<rparr>)
             (rt_timer_detach (Thread_timer t) (rt_schedule_remove_thread t K)))))"

text \<open>\<^verbatim>\<open>rt_thread_detach\<close> and \<^verbatim>\<open>rt_thread_delete\<close> do the same to the scheduler's state.\<close>

definition rt_thread_detach :: "nat \<Rightarrow> 'a kernel_scheme \<Rightarrow> int \<times> 'a kernel_scheme" where
  "rt_thread_detach t K =
     (if stat (threads K t) = RT_THREAD_CLOSE then (RT_EOK, K)
      else let K1 = (if stat (threads K t) \<noteq> RT_THREAD_INIT then rt_schedule_remove_thread t K else K)
           in (RT_EOK, rt_list_insert_after Thread_defunct t
                 (upd_thread t (\<lambda>th. th\<lparr>stat := RT_THREAD_CLOSE, stat_yield := False\<rparr>) (rt_timer_detach (Thread_timer t) K1))))"

definition rt_thread_defunct_dequeue :: "'a kernel_scheme \<Rightarrow> nat \<times> 'a kernel_scheme" where
  "rt_thread_defunct_dequeue K =
     (case tlists K Thread_defunct of [] \<Rightarrow> (0, K) | t # _ \<Rightarrow> (t, rt_list_remove t K))"

definition rt_thread_yield :: "'a kernel_scheme \<Rightarrow> int \<times> 'a kernel_scheme" where
  "rt_thread_yield K =
     (RT_EOK, rt_schedule (upd_thread (rt_current_thread K)
        (\<lambda>th. th\<lparr>remaining_tick := init_tick th, stat_yield := True\<rparr>) K))"

definition rt_thread_sleep :: "u32 \<Rightarrow> 'a kernel_scheme \<Rightarrow> 'a kernel_scheme option" where
  "rt_thread_sleep tick K =
     (let t = rt_current_thread K
      in case rt_thread_suspend t K of
           None \<Rightarrow> None
         | Some (_, K1) \<Rightarrow> map_option rt_schedule (thread_timer_start t tick K1))"

text \<open>What the thread does when it runs again after \<^verbatim>\<open>rt_thread_sleep\<close> or \<^verbatim>\<open>rt_thread_delay_until\<close>.\<close>

definition sleep_return :: "'a kernel_scheme \<Rightarrow> int \<times> 'a kernel_scheme" where
  "sleep_return K =
     (RT_EOK, if error (threads K (rt_current_thread K)) = - RT_ETIMEOUT
              then upd_thread (rt_current_thread K) (\<lambda>th. th\<lparr>error := RT_EOK\<rparr>) K else K)"

text \<open>\<^verbatim>\<open>rt_thread_delay_until\<close> also returns the new value of \<^verbatim>\<open>*tick\<close>.\<close>

definition rt_thread_delay_until :: "u32 \<Rightarrow> u32 \<Rightarrow> 'a kernel_scheme \<Rightarrow> (u32 \<times> 'a kernel_scheme) option" where
  "rt_thread_delay_until tick inc_tick K =
     (let cur_tick = rt_tick K; t = rt_current_thread K
      in if cur_tick - tick < inc_tick
         then let tick' = tick + inc_tick
              in case rt_thread_suspend t K of
                   None \<Rightarrow> None
                 | Some (_, K1) \<Rightarrow> map_option (\<lambda>K2. (tick', rt_schedule K2)) (thread_timer_start t (tick' - cur_tick) K1)
         else Some (cur_tick, K))"

definition change_priority :: "nat \<Rightarrow> nat \<Rightarrow> 'a kernel_scheme \<Rightarrow> 'a kernel_scheme" where
  "change_priority t priority K =
     (let set_prio = upd_thread t (\<lambda>th. th\<lparr>current_priority := priority, number_mask := push_bit priority 1\<rparr>)
      in if stat (threads K t) = RT_THREAD_READY
         then rt_schedule_insert_thread t (set_prio (rt_schedule_remove_thread t K))
         else set_prio K)"

datatype thread_cmd = RT_THREAD_CTRL_STARTUP | RT_THREAD_CTRL_CLOSE | RT_THREAD_CTRL_CHANGE_PRIORITY nat | RT_THREAD_CTRL_OTHER

definition rt_thread_control :: "nat \<Rightarrow> thread_cmd \<Rightarrow> 'a kernel_scheme \<Rightarrow> (int \<times> 'a kernel_scheme) option" where
  "rt_thread_control t cmd K =
     (case cmd of
        RT_THREAD_CTRL_CHANGE_PRIORITY priority \<Rightarrow> Some (RT_EOK, change_priority t priority K)
      | RT_THREAD_CTRL_STARTUP \<Rightarrow> rt_thread_startup t K
      | RT_THREAD_CTRL_CLOSE \<Rightarrow> (case rt_thread_detach t K of (e, K1) \<Rightarrow> Some (e, rt_schedule K1))
      | RT_THREAD_CTRL_OTHER \<Rightarrow> Some (RT_EOK, K))"

definition rt_thread_timeout :: "nat \<Rightarrow> 'a kernel_scheme \<Rightarrow> 'a kernel_scheme option" where
  "rt_thread_timeout t K =
     (if stat (threads K t) \<noteq> RT_THREAD_SUSPEND then None
      else Some (rt_schedule (rt_schedule_insert_thread t (rt_list_remove t
             (upd_thread t (\<lambda>th. th\<lparr>error := - RT_ETIMEOUT\<rparr>) K)))))"

text \<open>\<^verbatim>\<open>rt_tick_increase\<close> of \<^verbatim>\<open>clock.c\<close> up to the timer check: time slices.\<close>

definition tick_time_slice :: "'a kernel_scheme \<Rightarrow> 'a kernel_scheme" where
  "tick_time_slice K =
     (let t = rt_current_thread K;
          K1 = upd_thread t (\<lambda>th. th\<lparr>remaining_tick := remaining_tick th - 1\<rparr>) (K\<lparr>rt_tick := rt_tick K + 1\<rparr>)
      in if remaining_tick (threads K1 t) = 0
         then rt_schedule (upd_thread t (\<lambda>th. th\<lparr>remaining_tick := init_tick th, stat_yield := True\<rparr>) K1)
         else K1)"

definition rt_tick_from_millisecond :: "int \<Rightarrow> u32" where
  "rt_tick_from_millisecond ms =
     (if ms < 0 then - 1
      else word_of_int (1000 * (ms div 1000)) + word_of_int ((1000 * (ms mod 1000) + 999) div 1000))"

definition rt_thread_mdelay :: "int \<Rightarrow> 'a kernel_scheme \<Rightarrow> 'a kernel_scheme option" where
  "rt_thread_mdelay ms K = rt_thread_sleep (rt_tick_from_millisecond ms) K"

text \<open>The nesting of interrupts of \<^verbatim>\<open>irq.c\<close>, an 8-bit counter.\<close>

definition rt_interrupt_enter :: "'a kernel_scheme \<Rightarrow> 'a kernel_scheme" where
  "rt_interrupt_enter K = K\<lparr>rt_interrupt_nest := (rt_interrupt_nest K + 1) mod 256\<rparr>"

definition rt_interrupt_leave :: "'a kernel_scheme \<Rightarrow> 'a kernel_scheme" where
  "rt_interrupt_leave K = K\<lparr>rt_interrupt_nest := (rt_interrupt_nest K + 255) mod 256\<rparr>"

end
