(* ===== verification/Msg_Queue.thy ===== *)
theory Msg_Queue
  imports Scheduler
begin

text \<open>
  The message queue of \<^verbatim>\<open>rt-thread/src/ipc.c\<close> as a data structure: a pool of equal blocks, linked into the queue of
  messages and the list of free blocks. Block \<open>k\<close> stands for the address \<^verbatim>\<open>msg_pool + k * (msg_size + sizeof(struct
  rt_mq_message))\<close>; \<open>None\<close> is \<^verbatim>\<open>RT_NULL\<close>. Sending and receiving are two critical sections each, with a copy of the
  message between them during which interrupts are enabled; a block that has left one list and has not reached
  the other is in the hands of the thread that copies.
\<close>

section \<open>Operations\<close>

record rt_messagequeue =
  mq_flag :: ipc_flag
  msg_size :: nat
  max_msgs :: nat
  mq_entry :: nat
  msg_queue_head :: "nat option"
  msg_queue_tail :: "nat option"
  msg_queue_free :: "nat option"
  msg_next :: "nat \<Rightarrow> nat option"
  msg_data :: "nat \<Rightarrow> bytes"

definition RT_MQ_ENTRY_MAX :: nat where "RT_MQ_ENTRY_MAX = 0xffff"

definition RT_ALIGN4 :: "nat \<Rightarrow> nat" where
  "RT_ALIGN4 n = (n + 3) div 4 * 4 mod 2 ^ 32"

text \<open>The loop that puts every block of the pool in front of the free list.\<close>

definition mq_add_free :: "nat \<Rightarrow> rt_messagequeue \<Rightarrow> rt_messagequeue" where
  "mq_add_free k q = q\<lparr>msg_next := (msg_next q)(k := msg_queue_free q), msg_queue_free := Some k\<rparr>"

definition mq_init_pool :: "nat \<Rightarrow> nat \<Rightarrow> (nat \<Rightarrow> bytes) \<Rightarrow> ipc_flag \<Rightarrow> rt_messagequeue" where
  "mq_init_pool sz n pool flag =
     fold mq_add_free [0..<n]
       \<lparr>mq_flag = flag, msg_size = sz, max_msgs = n, mq_entry = 0, msg_queue_head = None, msg_queue_tail = None,
        msg_queue_free = None, msg_next = (\<lambda>_. None), msg_data = pool\<rparr>"

text \<open>The first critical section of \<^verbatim>\<open>rt_mq_send_wait\<close> and \<^verbatim>\<open>rt_mq_urgent\<close>, the copy, and their second one.\<close>

definition mq_take_free :: "rt_messagequeue \<Rightarrow> (nat \<times> rt_messagequeue) option" where
  "mq_take_free q = map_option (\<lambda>k. (k, q\<lparr>msg_queue_free := msg_next q k\<rparr>)) (msg_queue_free q)"

definition mq_fill :: "nat \<Rightarrow> bytes \<Rightarrow> rt_messagequeue \<Rightarrow> rt_messagequeue" where
  "mq_fill k buf q = q\<lparr>msg_data := (msg_data q)(k := buf @ drop (length buf) (msg_data q k))\<rparr>"

definition mq_append :: "nat \<Rightarrow> rt_messagequeue \<Rightarrow> bool \<times> rt_messagequeue" where
  "mq_append k q =
     (let nx = (msg_next q)(k := None);
          q1 = q\<lparr>msg_next := (case msg_queue_tail q of None \<Rightarrow> nx | Some l \<Rightarrow> nx(l := Some k)), msg_queue_tail := Some k,
                 msg_queue_head := (if msg_queue_head q = None then Some k else msg_queue_head q)\<rparr>
      in if mq_entry q < RT_MQ_ENTRY_MAX then (True, q1\<lparr>mq_entry := mq_entry q + 1\<rparr>) else (False, q1))"

definition mq_push_front :: "nat \<Rightarrow> rt_messagequeue \<Rightarrow> bool \<times> rt_messagequeue" where
  "mq_push_front k q =
     (let q1 = q\<lparr>msg_next := (msg_next q)(k := msg_queue_head q), msg_queue_head := Some k,
                 msg_queue_tail := (if msg_queue_tail q = None then Some k else msg_queue_tail q)\<rparr>
      in if mq_entry q < RT_MQ_ENTRY_MAX then (True, q1\<lparr>mq_entry := mq_entry q + 1\<rparr>) else (False, q1))"

text \<open>The first critical section of \<^verbatim>\<open>rt_mq_recv\<close>, the copy, and the second one (\<open>mq_add_free\<close> again).\<close>

definition mq_pop :: "rt_messagequeue \<Rightarrow> (nat \<times> rt_messagequeue) option" where
  "mq_pop q = map_option (\<lambda>k. (k, q\<lparr>msg_queue_head := msg_next q k,
       msg_queue_tail := (if msg_queue_tail q = Some k then None else msg_queue_tail q),
       mq_entry := (if mq_entry q > 0 then mq_entry q - 1 else mq_entry q)\<rparr>)) (msg_queue_head q)"

definition mq_copy_out :: "nat \<Rightarrow> nat \<Rightarrow> rt_messagequeue \<Rightarrow> bytes" where
  "mq_copy_out k n q = take (if n > msg_size q then msg_size q else n) (msg_data q k)"

text \<open>The loop of \<^verbatim>\<open>rt_mq_control(RT_IPC_CMD_RESET)\<close> over the queued messages.\<close>

partial_function (option) mq_flush :: "rt_messagequeue \<Rightarrow> rt_messagequeue option" where
  "mq_flush q =
     (case msg_queue_head q of
        None \<Rightarrow> Some q
      | Some k \<Rightarrow>
          mq_flush (mq_add_free k (q\<lparr>msg_queue_head := msg_next q k,
            msg_queue_tail := (if msg_queue_tail q = Some k then None else msg_queue_tail q)\<rparr>)))"

definition mq_reset :: "rt_messagequeue \<Rightarrow> rt_messagequeue option" where
  "mq_reset q = map_option (\<lambda>q1. q1\<lparr>mq_entry := 0\<rparr>) (mq_flush q)"

section \<open>The blocks and who owns them\<close>

text \<open>\<open>chain nx p xs\<close>: following \<open>nx\<close> from \<open>p\<close> visits \<open>xs\<close> and ends.\<close>

primrec chain :: "(nat \<Rightarrow> nat option) \<Rightarrow> nat option \<Rightarrow> nat list \<Rightarrow> bool" where
  "chain nx p [] \<longleftrightarrow> p = None"
| "chain nx p (x # xs) \<longleftrightarrow> p = Some x \<and> chain nx (nx x) xs"

lemma chain_upd [simp]: "k \<notin> set xs \<Longrightarrow> chain (nx(k := v)) p xs = chain nx p xs"
  by (induction xs arbitrary: p) auto

lemma chain_snoc: "chain nx p (xs @ [x]) \<Longrightarrow> distinct (xs @ [x]) \<Longrightarrow> k \<notin> set (xs @ [x]) \<Longrightarrow> nx k = None \<Longrightarrow>
  chain (nx(x := Some k)) p (xs @ [x, k])"
  by (induction xs arbitrary: p) auto

definition mq_rep :: "rt_messagequeue \<Rightarrow> nat list \<Rightarrow> nat list \<Rightarrow> nat set \<Rightarrow> bool" where
  "mq_rep q qs fs hs \<longleftrightarrow>
     chain (msg_next q) (msg_queue_head q) qs \<and> chain (msg_next q) (msg_queue_free q) fs \<and>
     msg_queue_tail q = (if qs = [] then None else Some (last qs)) \<and>
     distinct qs \<and> distinct fs \<and> set qs \<inter> set fs = {} \<and> hs \<inter> (set qs \<union> set fs) = {} \<and>
     set qs \<union> set fs \<union> hs = {0..<max_msgs q} \<and>
     mq_entry q = length qs \<and> max_msgs q < 2 ^ 16 \<and> (\<forall>k<max_msgs q. length (msg_data q k) = msg_size q)"

text \<open>The messages in the queue, the oldest first.\<close>

abbreviation mq_msgs :: "rt_messagequeue \<Rightarrow> nat list \<Rightarrow> bytes list" where
  "mq_msgs q qs \<equiv> map (msg_data q) qs"

lemma mq_rep_length: "mq_rep q qs fs hs \<Longrightarrow> length qs + length fs + card hs = max_msgs q"
proof -
  assume r: "mq_rep q qs fs hs"
  then have f: "finite hs" unfolding mq_rep_def by (metis finite_Un finite_atLeastLessThan)
  have u: "set qs \<union> set fs \<union> hs = {0..<max_msgs q}" using r by (simp add: mq_rep_def)
  have "card (set qs \<union> set fs \<union> hs) = card (set qs \<union> set fs) + card hs"
    using r f by (intro card_Un_disjoint) (auto simp: mq_rep_def)
  moreover have "card (set qs \<union> set fs) = length qs + length fs"
    using r by (subst card_Un_disjoint) (auto simp: mq_rep_def distinct_card)
  ultimately show ?thesis by (simp add: u)
qed

lemma mq_add_free_rep:
  assumes r: "mq_rep q qs fs hs" and k: "k \<in> hs"
  shows "mq_rep (mq_add_free k q) qs (k # fs) (hs - {k})"
  using assms by (auto simp: mq_rep_def mq_add_free_def disjoint_iff)

lemma mq_take_free_rep:
  assumes r: "mq_rep q qs fs hs"
  shows "mq_take_free q = None \<longleftrightarrow> fs = []"
    "mq_take_free q = Some (k, q') \<Longrightarrow> \<exists>fs'. fs = k # fs' \<and> mq_rep q' qs fs' (insert k hs) \<and> msg_data q' = msg_data q \<and>
       msg_size q' = msg_size q \<and> max_msgs q' = max_msgs q"
proof -
  show "mq_take_free q = None \<longleftrightarrow> fs = []" using r by (cases fs) (auto simp: mq_rep_def mq_take_free_def)
  show "\<exists>fs'. fs = k # fs' \<and> mq_rep q' qs fs' (insert k hs) \<and> msg_data q' = msg_data q \<and> msg_size q' = msg_size q \<and> max_msgs q' = max_msgs q"
    if "mq_take_free q = Some (k, q')"
    using r that by (cases fs) (auto simp: mq_rep_def mq_take_free_def disjoint_iff)
qed

lemma mq_fill_rep:
  assumes r: "mq_rep q qs fs hs" and k: "k \<in> hs" and l: "length buf \<le> msg_size q"
  shows "mq_rep (mq_fill k buf q) qs fs hs" "mq_msgs (mq_fill k buf q) qs = mq_msgs q qs"
proof -
  have "k < max_msgs q" using r k by (auto simp: mq_rep_def set_eq_iff)
  then show "mq_rep (mq_fill k buf q) qs fs hs" using r l by (auto simp: mq_rep_def mq_fill_def)
  have "k \<notin> set qs" using r k by (auto simp: mq_rep_def)
  then show "mq_msgs (mq_fill k buf q) qs = mq_msgs q qs" by (auto simp: mq_fill_def)
qed

lemma mq_room: "mq_rep q qs fs hs \<Longrightarrow> k \<in> hs \<Longrightarrow> mq_entry q < RT_MQ_ENTRY_MAX"
proof -
  assume r: "mq_rep q qs fs hs" and k: "k \<in> hs"
  then have "finite hs" unfolding mq_rep_def by (metis finite_Un finite_atLeastLessThan)
  then have "0 < card hs" using k by (auto simp: card_gt_0_iff)
  then show ?thesis using mq_rep_length[OF r] r by (simp add: mq_rep_def RT_MQ_ENTRY_MAX_def)
qed

lemma mq_append_rep:
  assumes r: "mq_rep q qs fs hs" and k: "k \<in> hs"
  obtains q' where "mq_append k q = (True, q')" "mq_rep q' (qs @ [k]) fs (hs - {k})" "msg_data q' = msg_data q"
    "msg_size q' = msg_size q" "max_msgs q' = max_msgs q"
proof -
  have out: "k \<notin> set qs" "k \<notin> set fs" using r k by (auto simp: mq_rep_def)
  define q' where "q' = snd (mq_append k q)"
  have st: "mq_append k q = (True, q')" using mq_room[OF r k] by (simp add: q'_def mq_append_def Let_def)
  have sel: "msg_data q' = msg_data q" "msg_size q' = msg_size q" "max_msgs q' = max_msgs q" "msg_queue_free q' = msg_queue_free q"
    "msg_queue_tail q' = Some k" "mq_entry q' = mq_entry q + 1"
    using mq_room[OF r k] by (simp_all add: q'_def mq_append_def Let_def)
  have part: "set (qs @ [k]) \<union> set fs \<union> (hs - {k}) = {0..<max_msgs q}" "(hs - {k}) \<inter> (set (qs @ [k]) \<union> set fs) = {}"
    using r k by (auto simp: mq_rep_def)
  have ch: "chain (msg_next q') (msg_queue_head q') (qs @ [k]) \<and> chain (msg_next q') (msg_queue_free q') fs"
  proof (cases qs rule: rev_cases)
    case Nil
    then show ?thesis
      using r out mq_room[OF r k] by (simp_all add: q'_def mq_append_def Let_def mq_rep_def)
  next
    case (snoc ys l)
    have "chain ((msg_next q)(k := None)) (msg_queue_head q) (ys @ [l])" "distinct (ys @ [l])" "msg_queue_head q \<noteq> None"
      "msg_queue_tail q = Some l" "l \<notin> set fs"
      using r out snoc by (auto simp: mq_rep_def) (cases ys; simp)
    moreover from this(1,2) have "chain ((msg_next q)(k := None, l := Some k)) (msg_queue_head q) (ys @ [l, k])"
      using out snoc by (intro chain_snoc) auto
    ultimately show ?thesis
      using r out mq_room[OF r k] snoc by (auto simp: q'_def mq_append_def Let_def mq_rep_def)
  qed
  have "mq_rep q' (qs @ [k]) fs (hs - {k})"
    using ch part sel r out unfolding mq_rep_def by (simp add: disjoint_iff)
  then show ?thesis using that st sel by blast
qed

lemma mq_push_front_rep:
  assumes r: "mq_rep q qs fs hs" and k: "k \<in> hs"
  obtains q' where "mq_push_front k q = (True, q')" "mq_rep q' (k # qs) fs (hs - {k})" "msg_data q' = msg_data q"
    "msg_size q' = msg_size q" "max_msgs q' = max_msgs q"
proof -
  have out: "k \<notin> set qs" "k \<notin> set fs" using r k by (auto simp: mq_rep_def)
  define q' where "q' = snd (mq_push_front k q)"
  have st: "mq_push_front k q = (True, q')" using mq_room[OF r k] by (simp add: q'_def mq_push_front_def Let_def)
  have "mq_rep q' (k # qs) fs (hs - {k})"
    using r k out mq_room[OF r k] by (auto simp: mq_rep_def q'_def mq_push_front_def Let_def)
  moreover have "msg_data q' = msg_data q" "msg_size q' = msg_size q" "max_msgs q' = max_msgs q"
    using mq_room[OF r k] by (simp_all add: q'_def mq_push_front_def Let_def)
  ultimately show ?thesis using that st by blast
qed

lemma mq_pop_rep:
  assumes r: "mq_rep q qs fs hs"
  shows "mq_pop q = None \<longleftrightarrow> qs = []"
    "mq_pop q = Some (k, q') \<Longrightarrow> \<exists>qs'. qs = k # qs' \<and> mq_rep q' qs' fs (insert k hs) \<and> msg_data q' = msg_data q \<and>
       msg_size q' = msg_size q \<and> max_msgs q' = max_msgs q"
proof -
  show "mq_pop q = None \<longleftrightarrow> qs = []" using r by (cases qs) (auto simp: mq_rep_def mq_pop_def)
  show "\<exists>qs'. qs = k # qs' \<and> mq_rep q' qs' fs (insert k hs) \<and> msg_data q' = msg_data q \<and> msg_size q' = msg_size q \<and> max_msgs q' = max_msgs q"
    if p: "mq_pop q = Some (k, q')"
  proof (cases qs)
    case (Cons x qs')
    then have x: "x = k" using r p by (auto simp: mq_rep_def mq_pop_def)
    have "last (k # qs') = k \<longleftrightarrow> qs' = []" using r Cons x by (auto simp: mq_rep_def)
    then show ?thesis using r p Cons x by (auto simp: mq_rep_def mq_pop_def disjoint_iff)
  qed (use r p in \<open>auto simp: mq_rep_def mq_pop_def\<close>)
qed

lemma mq_init_pool_rep:
  assumes "n < 2 ^ 16" "\<And>k. k < n \<Longrightarrow> length (pool k) = sz"
  shows "mq_rep (mq_init_pool sz n pool flag) [] (rev [0..<n]) {}"
proof -
  let ?q = "\<lparr>mq_flag = flag, msg_size = sz, max_msgs = n, mq_entry = 0, msg_queue_head = None, msg_queue_tail = None,
        msg_queue_free = None, msg_next = (\<lambda>_. None), msg_data = pool\<rparr>"
  have "mq_rep (fold mq_add_free [0..<j] ?q) [] (rev [0..<j]) {j..<n}" if "j \<le> n" for j
    using that
  proof (induction j)
    case (Suc j)
    have "mq_rep (mq_add_free j (fold mq_add_free [0..<j] ?q)) [] (j # rev [0..<j]) ({j..<n} - {j})"
      using Suc by (intro mq_add_free_rep) auto
    moreover have "{j..<n} - {j} = {Suc j..<n}" by auto
    ultimately show ?case by simp
  qed (use assms in \<open>simp add: mq_rep_def atLeast0LessThan\<close>)
  from this[of n] show ?thesis by (simp add: mq_init_pool_def)
qed

lemma mq_flush_rep:
  assumes "mq_rep (q\<lparr>mq_entry := length qs\<rparr>) qs fs hs"
  shows "\<exists>q' fs'. mq_flush q = Some q' \<and> mq_rep (q'\<lparr>mq_entry := 0\<rparr>) [] fs' hs"
  using assms
proof (induction qs arbitrary: q fs)
  case Nil
  then show ?case by (auto simp: mq_rep_def mq_flush.simps)
next
  case (Cons k qs)
  define q1 where "q1 = q\<lparr>msg_queue_head := msg_next q k, msg_queue_tail := (if msg_queue_tail q = Some k then None else msg_queue_tail q)\<rparr>"
  have h: "msg_queue_head q = Some k" using Cons.prems by (simp add: mq_rep_def)
  then have p: "mq_pop (q\<lparr>mq_entry := length (k # qs)\<rparr>) = Some (k, q1\<lparr>mq_entry := length qs\<rparr>)" by (simp add: mq_pop_def q1_def)
  have k: "k \<notin> hs" using Cons.prems by (auto simp: mq_rep_def)
  from mq_pop_rep(2)[OF Cons.prems p] have "mq_rep (q1\<lparr>mq_entry := length qs\<rparr>) qs fs (insert k hs)" by simp
  from mq_add_free_rep[OF this, of k] k
  have "mq_rep (mq_add_free k (q1\<lparr>mq_entry := length qs\<rparr>)) qs (k # fs) hs" by simp
  moreover have "mq_add_free k (q1\<lparr>mq_entry := length qs\<rparr>) = (mq_add_free k q1)\<lparr>mq_entry := length qs\<rparr>" by (simp add: mq_add_free_def)
  ultimately have "mq_rep ((mq_add_free k q1)\<lparr>mq_entry := length qs\<rparr>) qs (k # fs) hs" by simp
  from Cons.IH[OF this] h show ?case by (subst mq_flush.simps) (simp add: q1_def)
qed

lemma mq_reset_rep:
  assumes "mq_rep q qs fs hs"
  shows "\<exists>q' fs'. mq_reset q = Some q' \<and> mq_rep q' [] fs' hs"
proof -
  have "q\<lparr>mq_entry := length qs\<rparr> = q" using assms by (simp add: mq_rep_def)
  then show ?thesis using mq_flush_rep[where q = q and qs = qs and fs = fs and hs = hs] assms by (auto simp: mq_reset_def)
qed

end
