(* ===== verification/Ipc.thy ===== *)
theory Ipc
  imports Msg_Queue
begin

text \<open>
  The objects of \<^verbatim>\<open>rt-thread/src/ipc.c\<close> that threads wait for: semaphores, mutexes with priority inheritance, events,
  mailboxes and message queues. The state extends the scheduler's state by one table per kind of object. A call returns, or blocks
  the running thread (the state is the one after \<^verbatim>\<open>rt_schedule\<close>, and the code behind \<^verbatim>\<open>rt_schedule\<close> is a definition of
  its own), or fails an assertion.
\<close>

section \<open>State\<close>

definition RT_SEM_VALUE_MAX :: nat where "RT_SEM_VALUE_MAX = 0xffff"
definition RT_MUTEX_VALUE_MAX :: nat where "RT_MUTEX_VALUE_MAX = 0xffff"
definition RT_MUTEX_HOLD_MAX :: nat where "RT_MUTEX_HOLD_MAX = 0xff"
definition RT_MB_ENTRY_MAX :: nat where "RT_MB_ENTRY_MAX = 0xffff"
definition RT_EVENT_FLAG_AND :: u8 where "RT_EVENT_FLAG_AND = 1"
definition RT_EVENT_FLAG_OR :: u8 where "RT_EVENT_FLAG_OR = 2"
definition RT_EVENT_FLAG_CLEAR :: u8 where "RT_EVENT_FLAG_CLEAR = 4"

record rt_semaphore =
  sem_flag :: ipc_flag
  sem_value :: nat

record rt_mutex =
  mutex_flag :: ipc_flag
  mutex_value :: nat
  original_priority :: nat
  hold :: nat
  owner :: nat

record rt_event =
  event_flag :: ipc_flag
  event_bits :: u32

record rt_mailbox =
  mb_flag :: ipc_flag
  msg_pool :: "u32 list"
  mb_size :: nat
  entry :: nat
  in_offset :: nat
  out_offset :: nat

record ipc = kernel +
  sems :: "nat \<Rightarrow> rt_semaphore"
  mutexes :: "nat \<Rightarrow> rt_mutex"
  events :: "nat \<Rightarrow> rt_event"
  mailboxes :: "nat \<Rightarrow> rt_mailbox"
  msgqueues :: "nat \<Rightarrow> rt_messagequeue"

datatype call = Return int ipc | Blocked ipc | Halt

definition upd_sem :: "nat \<Rightarrow> (rt_semaphore \<Rightarrow> rt_semaphore) \<Rightarrow> ipc \<Rightarrow> ipc" where
  "upd_sem a f K = K\<lparr>sems := (sems K)(a := f (sems K a))\<rparr>"

definition upd_mutex :: "nat \<Rightarrow> (rt_mutex \<Rightarrow> rt_mutex) \<Rightarrow> ipc \<Rightarrow> ipc" where
  "upd_mutex a f K = K\<lparr>mutexes := (mutexes K)(a := f (mutexes K a))\<rparr>"

definition upd_event :: "nat \<Rightarrow> (rt_event \<Rightarrow> rt_event) \<Rightarrow> ipc \<Rightarrow> ipc" where
  "upd_event a f K = K\<lparr>events := (events K)(a := f (events K a))\<rparr>"

definition upd_mailbox :: "nat \<Rightarrow> (rt_mailbox \<Rightarrow> rt_mailbox) \<Rightarrow> ipc \<Rightarrow> ipc" where
  "upd_mailbox a f K = K\<lparr>mailboxes := (mailboxes K)(a := f (mailboxes K a))\<rparr>"

definition upd_mq :: "nat \<Rightarrow> (rt_messagequeue \<Rightarrow> rt_messagequeue) \<Rightarrow> ipc \<Rightarrow> ipc" where
  "upd_mq a f K = K\<lparr>msgqueues := (msgqueues K)(a := f (msgqueues K a))\<rparr>"

abbreviation set_error :: "nat \<Rightarrow> int \<Rightarrow> 'a kernel_scheme \<Rightarrow> 'a kernel_scheme" where
  "set_error t e \<equiv> upd_thread t (\<lambda>th. th\<lparr>error := e\<rparr>)"

text \<open>\<^verbatim>\<open>RT_DEBUG_IN_THREAD_CONTEXT\<close>: the scheduler runs and this is not an interrupt.\<close>

definition in_thread_context :: "'a kernel_scheme \<Rightarrow> bool" where
  "in_thread_context K \<longleftrightarrow> rt_current_thread K \<noteq> 0 \<and> rt_interrupt_nest K = 0"

section \<open>Waiting queues\<close>

text \<open>The search of \<^verbatim>\<open>_ipc_list_suspend\<close> for the place of a thread in a queue ordered by priority.\<close>

fun insert_prio :: "(nat \<Rightarrow> nat) \<Rightarrow> nat \<Rightarrow> nat list \<Rightarrow> nat list" where
  "insert_prio prio t [] = [t]"
| "insert_prio prio t (s # ss) = (if prio t < prio s then t # s # ss else s # insert_prio prio t ss)"

definition ipc_list_suspend :: "list_head \<Rightarrow> nat \<Rightarrow> ipc_flag \<Rightarrow> 'a kernel_scheme \<Rightarrow> 'a kernel_scheme option" where
  "ipc_list_suspend h t flag K =
     (case rt_thread_suspend t K of
        None \<Rightarrow> None
      | Some (_, K1) \<Rightarrow>
          Some (case flag of
                  RT_IPC_FLAG_FIFO \<Rightarrow> rt_list_insert_before h t K1
                | RT_IPC_FLAG_PRIO \<Rightarrow>
                    K1\<lparr>tlists := (tlists K1)(h := insert_prio (\<lambda>x. current_priority (threads K1 x)) t (tlists K1 h))\<rparr>))"

definition ipc_list_resume :: "list_head \<Rightarrow> 'a kernel_scheme \<Rightarrow> 'a kernel_scheme" where
  "ipc_list_resume h K = snd (rt_thread_resume (hd (tlists K h)) K)"

partial_function (option) ipc_list_resume_all :: "list_head \<Rightarrow> 'a kernel_scheme \<Rightarrow> 'a kernel_scheme option" where
  "ipc_list_resume_all h K =
     (if tlists K h = [] then Some K
      else let t = hd (tlists K h)
           in ipc_list_resume_all h (snd (rt_thread_resume t (set_error t (- RT_ERROR) K))))"

text \<open>The timer of a call with a timeout: none when the call may wait for ever.\<close>

definition start_timeout :: "nat \<Rightarrow> int \<Rightarrow> 'a kernel_scheme \<Rightarrow> 'a kernel_scheme option" where
  "start_timeout t time K = (if time > 0 then thread_timer_start t (word_of_int time) K else Some K)"

text \<open>Waiting in a queue, with a timeout: suspend, start the timer, let another thread run.\<close>

definition wait_on :: "list_head \<Rightarrow> ipc_flag \<Rightarrow> int \<Rightarrow> ipc \<Rightarrow> call" where
  "wait_on h flag time K =
     (let t = rt_current_thread K
      in case ipc_list_suspend h t flag K of
           None \<Rightarrow> Halt
         | Some K1 \<Rightarrow> (case start_timeout t time K1 of None \<Rightarrow> Halt | Some K2 \<Rightarrow> Blocked (rt_schedule K2)))"

section \<open>Semaphores\<close>

definition rt_sem_init :: "nat \<Rightarrow> nat \<Rightarrow> ipc_flag \<Rightarrow> ipc \<Rightarrow> ipc option" where
  "rt_sem_init sem val flag K =
     (if val < 0x10000
      then Some ((upd_sem sem (\<lambda>_. \<lparr>sem_flag = flag, sem_value = val\<rparr>) K)
                   \<lparr>tlists := (tlists K)(Suspend_thread (Semaphore sem) := [])\<rparr>)
      else None)"

definition rt_sem_detach :: "nat \<Rightarrow> ipc \<Rightarrow> ipc option" where
  "rt_sem_detach sem K = ipc_list_resume_all (Suspend_thread (Semaphore sem)) K"

definition rt_sem_take :: "nat \<Rightarrow> int \<Rightarrow> ipc \<Rightarrow> call" where
  "rt_sem_take sem time K =
     (if sem_value (sems K sem) > 0
      then Return RT_EOK (upd_sem sem (\<lambda>s. s\<lparr>sem_value := sem_value s - 1\<rparr>) K)
      else if time = 0 then Return (- RT_ETIMEOUT) K
      else if \<not> in_thread_context K then Halt
      else wait_on (Suspend_thread (Semaphore sem)) (sem_flag (sems K sem)) time
             (set_error (rt_current_thread K) RT_EOK K))"

text \<open>The rest of \<^verbatim>\<open>rt_sem_take\<close>, when the thread runs again: the result is the thread's error code.\<close>

definition rt_sem_take_resumed :: "ipc \<Rightarrow> call" where
  "rt_sem_take_resumed K =
     (let e = error (threads K (rt_current_thread K)) in if e \<noteq> RT_EOK then Return e K else Return RT_EOK K)"

definition rt_sem_trytake :: "nat \<Rightarrow> ipc \<Rightarrow> call" where
  "rt_sem_trytake sem K = rt_sem_take sem 0 K"

definition rt_sem_release :: "nat \<Rightarrow> ipc \<Rightarrow> int \<times> ipc" where
  "rt_sem_release sem K =
     (if tlists K (Suspend_thread (Semaphore sem)) \<noteq> []
      then (RT_EOK, rt_schedule (ipc_list_resume (Suspend_thread (Semaphore sem)) K))
      else if sem_value (sems K sem) < RT_SEM_VALUE_MAX
      then (RT_EOK, upd_sem sem (\<lambda>s. s\<lparr>sem_value := sem_value s + 1\<rparr>) K)
      else (- RT_EFULL, K))"

text \<open>\<^verbatim>\<open>rt_sem_control(RT_IPC_CMD_RESET)\<close>; every other command is refused.\<close>

definition rt_sem_control_reset :: "nat \<Rightarrow> nat \<Rightarrow> ipc \<Rightarrow> (int \<times> ipc) option" where
  "rt_sem_control_reset sem val K =
     map_option (\<lambda>K1. (RT_EOK, rt_schedule (upd_sem sem (\<lambda>s. s\<lparr>sem_value := val mod 2 ^ 16\<rparr>) K1)))
       (ipc_list_resume_all (Suspend_thread (Semaphore sem)) K)"

section \<open>Mutexes\<close>

definition rt_mutex_init :: "nat \<Rightarrow> ipc \<Rightarrow> ipc" where
  "rt_mutex_init m K =
     (upd_mutex m (\<lambda>_. \<lparr>mutex_flag = RT_IPC_FLAG_PRIO, mutex_value = 1, original_priority = 0xFF, hold = 0, owner = 0\<rparr>) K)
       \<lparr>tlists := (tlists K)(Suspend_thread (Mutex m) := [])\<rparr>"

definition rt_mutex_detach :: "nat \<Rightarrow> ipc \<Rightarrow> ipc option" where
  "rt_mutex_detach m K = ipc_list_resume_all (Suspend_thread (Mutex m)) K"

definition rt_mutex_take :: "nat \<Rightarrow> int \<Rightarrow> ipc \<Rightarrow> call" where
  "rt_mutex_take m time K0 =
     (let t = rt_current_thread K0; K = set_error t RT_EOK K0; mu = mutexes K m
      in if \<not> in_thread_context K0 then Halt
         else if owner mu = t then
           (if hold mu < RT_MUTEX_HOLD_MAX then Return RT_EOK (upd_mutex m (\<lambda>x. x\<lparr>hold := hold x + 1\<rparr>) K)
            else Return (- RT_EFULL) K)
         else if mutex_value mu > 0 then
           (let K1 = upd_mutex m (\<lambda>x. x\<lparr>mutex_value := mutex_value x - 1, owner := t,
                       original_priority := current_priority (threads K t)\<rparr>) K
            in if hold mu < RT_MUTEX_HOLD_MAX then Return RT_EOK (upd_mutex m (\<lambda>x. x\<lparr>hold := hold x + 1\<rparr>) K1)
               else Return (- RT_EFULL) K1)
         else if time = 0 then Return (- RT_ETIMEOUT) (set_error t (- RT_ETIMEOUT) K)
         else wait_on (Suspend_thread (Mutex m)) (mutex_flag mu) time
                (if current_priority (threads K t) < current_priority (threads K (owner mu))
                 then change_priority (owner mu) (current_priority (threads K t)) K else K))"

text \<open>The rest of \<^verbatim>\<open>rt_mutex_take\<close>, when the thread runs again.\<close>

definition rt_mutex_take_resumed :: "ipc \<Rightarrow> call" where
  "rt_mutex_take_resumed K =
     (let e = error (threads K (rt_current_thread K)) in if e \<noteq> RT_EOK then Return e K else Return RT_EOK K)"

definition rt_mutex_trytake :: "nat \<Rightarrow> ipc \<Rightarrow> call" where
  "rt_mutex_trytake m K = rt_mutex_take m 0 K"

text \<open>The part of \<^verbatim>\<open>rt_mutex_release\<close> behind the last release: the priority, then the hand-over or the unlock.\<close>

definition mutex_restore_priority :: "nat \<Rightarrow> ipc \<Rightarrow> ipc" where
  "mutex_restore_priority m K =
     (let mu = mutexes K m
      in if original_priority mu \<noteq> current_priority (threads K (owner mu))
         then change_priority (owner mu) (original_priority mu) K else K)"

definition mutex_hand_over :: "nat \<Rightarrow> ipc \<Rightarrow> int \<times> ipc" where
  "mutex_hand_over m K =
     (let t = hd (tlists K (Suspend_thread (Mutex m)));
          K1 = upd_mutex m (\<lambda>x. x\<lparr>owner := t, original_priority := current_priority (threads K t)\<rparr>) K
      in if hold (mutexes K1 m) < RT_MUTEX_HOLD_MAX
         then (RT_EOK, rt_schedule (ipc_list_resume (Suspend_thread (Mutex m)) (upd_mutex m (\<lambda>x. x\<lparr>hold := hold x + 1\<rparr>) K1)))
         else (- RT_EFULL, K1))"

definition rt_mutex_release :: "nat \<Rightarrow> ipc \<Rightarrow> call" where
  "rt_mutex_release m K =
     (let t = rt_current_thread K
      in if \<not> in_thread_context K then Halt
         else if t \<noteq> owner (mutexes K m) then Return (- RT_ERROR) (set_error t (- RT_ERROR) K)
         else let K1 = upd_mutex m (\<lambda>x. x\<lparr>hold := (hold x + 255) mod 256\<rparr>) K
              in if hold (mutexes K1 m) \<noteq> 0 then Return RT_EOK K1
                 else let K2 = mutex_restore_priority m K1
                      in if tlists K2 (Suspend_thread (Mutex m)) \<noteq> []
                         then (case mutex_hand_over m K2 of (e, K3) \<Rightarrow> Return e K3)
                         else if mutex_value (mutexes K2 m) < RT_MUTEX_VALUE_MAX
                         then Return RT_EOK (upd_mutex m (\<lambda>x. x\<lparr>mutex_value := mutex_value x + 1, owner := 0,
                                               original_priority := 0xff\<rparr>) K2)
                         else Return (- RT_EFULL) K2)"

section \<open>Events\<close>

definition rt_event_init :: "nat \<Rightarrow> ipc_flag \<Rightarrow> ipc \<Rightarrow> ipc" where
  "rt_event_init ev flag K =
     (upd_event ev (\<lambda>_. \<lparr>event_flag = flag, event_bits = 0\<rparr>) K)\<lparr>tlists := (tlists K)(Suspend_thread (Event ev) := [])\<rparr>"

definition rt_event_detach :: "nat \<Rightarrow> ipc \<Rightarrow> ipc option" where
  "rt_event_detach ev K = ipc_list_resume_all (Suspend_thread (Event ev)) K"

text \<open>The condition a thread waits for: all of its bits, or one of them; \<open>None\<close> when neither flag is given.\<close>

definition event_matches :: "u8 \<Rightarrow> u32 \<Rightarrow> u32 \<Rightarrow> bool option" where
  "event_matches option want bits =
     (if option AND RT_EVENT_FLAG_AND \<noteq> 0 then Some (want AND bits = want)
      else if option AND RT_EVENT_FLAG_OR \<noteq> 0 then Some (want AND bits \<noteq> 0)
      else None)"

text \<open>What a waiting thread whose condition holds gets: the bits, which the event loses when the thread asked for that.\<close>

definition event_hand :: "nat \<Rightarrow> nat \<Rightarrow> ipc \<Rightarrow> ipc" where
  "event_hand ev t K =
     (let th = threads K t;
          got = (if event_info th AND RT_EVENT_FLAG_AND \<noteq> 0 then event_set th else event_set th AND event_bits (events K ev));
          K1 = upd_thread t (\<lambda>x. x\<lparr>event_set := got\<rparr>) K
      in if event_info th AND RT_EVENT_FLAG_CLEAR \<noteq> 0
         then upd_event ev (\<lambda>x. x\<lparr>event_bits := event_bits x AND NOT got\<rparr>) K1 else K1)"

text \<open>
  The walk of \<^verbatim>\<open>rt_event_send\<close> over the waiting threads. The next node is read before the thread leaves the queue, so
  the walk visits the threads that waited when it began. \<open>None\<close> is the early return with \<^verbatim>\<open>-RT_EINVAL\<close>; the flag says
  whether a thread has been resumed.
\<close>

fun event_send_loop :: "nat \<Rightarrow> nat list \<Rightarrow> bool \<Rightarrow> ipc \<Rightarrow> bool option \<times> ipc" where
  "event_send_loop ev [] need_schedule K = (Some need_schedule, K)"
| "event_send_loop ev (t # ts) need_schedule K =
     (let th = threads K t
      in case event_matches (event_info th) (event_set th) (event_bits (events K ev)) of
           None \<Rightarrow> (None, K)
         | Some False \<Rightarrow> event_send_loop ev ts need_schedule K
         | Some True \<Rightarrow> event_send_loop ev ts True (snd (rt_thread_resume t (event_hand ev t K))))"

definition rt_event_send :: "nat \<Rightarrow> u32 \<Rightarrow> ipc \<Rightarrow> int \<times> ipc" where
  "rt_event_send ev bits K =
     (if bits = 0 then (- RT_ERROR, K)
      else let K1 = upd_event ev (\<lambda>x. x\<lparr>event_bits := event_bits x OR bits\<rparr>) K
           in case event_send_loop ev (tlists K1 (Suspend_thread (Event ev))) False K1 of
                (None, K2) \<Rightarrow> (- RT_EINVAL, K2)
              | (Some need_schedule, K2) \<Rightarrow> (RT_EOK, if need_schedule then rt_schedule K2 else K2))"

text \<open>\<^verbatim>\<open>rt_event_recv\<close> with a place for the bits received, which is the second part of the result.\<close>

datatype event_call = Received int u32 ipc | Event_blocked ipc | Event_halt

definition event_call_of :: "u32 \<Rightarrow> call \<Rightarrow> event_call" where
  "event_call_of got c = (case c of Return e K \<Rightarrow> Received e got K | Blocked K \<Rightarrow> Event_blocked K | Halt \<Rightarrow> Event_halt)"

definition rt_event_recv :: "nat \<Rightarrow> u32 \<Rightarrow> u8 \<Rightarrow> int \<Rightarrow> u32 \<Rightarrow> ipc \<Rightarrow> event_call" where
  "rt_event_recv ev want option timeout recved K0 =
     (let t = rt_current_thread K0; K = set_error t RT_EOK K0; bits = event_bits (events K ev)
      in if \<not> in_thread_context K0 then Event_halt
         else if want = 0 then Received (- RT_ERROR) recved K0
         else case event_matches option want bits of
           None \<Rightarrow> Event_halt
         | Some True \<Rightarrow>
             let K1 = upd_thread t (\<lambda>x. x\<lparr>event_set := bits AND want, event_info := option\<rparr>) K
             in Received RT_EOK (bits AND want)
                  (if option AND RT_EVENT_FLAG_CLEAR \<noteq> 0
                   then upd_event ev (\<lambda>x. x\<lparr>event_bits := event_bits x AND NOT want\<rparr>) K1 else K1)
         | Some False \<Rightarrow>
             if timeout = 0 then Received (- RT_ETIMEOUT) recved (set_error t (- RT_ETIMEOUT) K)
             else event_call_of recved
                    (wait_on (Suspend_thread (Event ev)) (event_flag (events K ev)) timeout
                       (upd_thread t (\<lambda>x. x\<lparr>event_set := want, event_info := option\<rparr>) K)))"

definition rt_event_recv_resumed :: "u32 \<Rightarrow> ipc \<Rightarrow> event_call" where
  "rt_event_recv_resumed recved K =
     (let th = threads K (rt_current_thread K)
      in if error th \<noteq> RT_EOK then Received (error th) recved K else Received (error th) (event_set th) K)"

definition rt_event_control_reset :: "nat \<Rightarrow> ipc \<Rightarrow> (int \<times> ipc) option" where
  "rt_event_control_reset ev K =
     map_option (\<lambda>K1. (RT_EOK, rt_schedule (upd_event ev (\<lambda>x. x\<lparr>event_bits := 0\<rparr>) K1)))
       (ipc_list_resume_all (Suspend_thread (Event ev)) K)"

section \<open>Mailboxes\<close>

definition rt_mb_init :: "nat \<Rightarrow> u32 list \<Rightarrow> nat \<Rightarrow> ipc_flag \<Rightarrow> ipc \<Rightarrow> ipc" where
  "rt_mb_init mb pool sz flag K =
     (upd_mailbox mb (\<lambda>_. \<lparr>mb_flag = flag, msg_pool = pool, mb_size = sz mod 2 ^ 16, entry = 0, in_offset = 0, out_offset = 0\<rparr>) K)
       \<lparr>tlists := (tlists K)(Suspend_thread (MailBox mb) := [], Suspend_sender (MailBox mb) := [])\<rparr>"

definition rt_mb_detach :: "nat \<Rightarrow> ipc \<Rightarrow> ipc option" where
  "rt_mb_detach mb K =
     Option.bind (ipc_list_resume_all (Suspend_thread (MailBox mb)) K) (ipc_list_resume_all (Suspend_sender (MailBox mb)))"

text \<open>Storing a mail and taking one, on the mailbox alone. The flag says whether the count could be raised.\<close>

definition mb_store :: "u32 \<Rightarrow> rt_mailbox \<Rightarrow> bool \<times> rt_mailbox" where
  "mb_store val b =
     (let b1 = b\<lparr>msg_pool := (msg_pool b)[in_offset b := val],
                 in_offset := if in_offset b + 1 \<ge> mb_size b then 0 else in_offset b + 1\<rparr>
      in if entry b1 < RT_MB_ENTRY_MAX then (True, b1\<lparr>entry := entry b1 + 1\<rparr>) else (False, b1))"

definition mb_store_urgent :: "u32 \<Rightarrow> rt_mailbox \<Rightarrow> rt_mailbox" where
  "mb_store_urgent val b =
     (let b1 = b\<lparr>out_offset := if out_offset b > 0 then out_offset b - 1 else mb_size b - 1\<rparr>
      in b1\<lparr>msg_pool := (msg_pool b1)[out_offset b1 := val], entry := entry b1 + 1\<rparr>)"

definition mb_fetch :: "rt_mailbox \<Rightarrow> u32 \<times> rt_mailbox" where
  "mb_fetch b =
     (msg_pool b ! out_offset b,
      b\<lparr>out_offset := if out_offset b + 1 \<ge> mb_size b then 0 else out_offset b + 1,
        entry := if entry b > 0 then entry b - 1 else entry b\<rparr>)"

definition mb_wake :: "list_head \<Rightarrow> ipc \<Rightarrow> ipc" where
  "mb_wake h K = (if tlists K h \<noteq> [] then rt_schedule (ipc_list_resume h K) else K)"

text \<open>\<^verbatim>\<open>rt_mb_send_wait\<close> from the test of its loop on: it waits, or it stores the mail and wakes a receiver.\<close>

definition mb_send_loop :: "nat \<Rightarrow> u32 \<Rightarrow> int \<Rightarrow> ipc \<Rightarrow> call" where
  "mb_send_loop mb val timeout K =
     (let b = mailboxes K mb
      in if entry b = mb_size b then
           (let K1 = set_error (rt_current_thread K) RT_EOK K
            in if timeout = 0 then Return (- RT_EFULL) K1
               else if \<not> in_thread_context K1 then Halt
               else wait_on (Suspend_sender (MailBox mb)) (mb_flag b) timeout K1)
         else (case mb_store val b of
                 (ok, b1) \<Rightarrow>
                   let K1 = upd_mailbox mb (\<lambda>_. b1) K
                   in if ok then Return RT_EOK (mb_wake (Suspend_thread (MailBox mb)) K1) else Return (- RT_EFULL) K1))"

definition rt_mb_send_wait :: "nat \<Rightarrow> u32 \<Rightarrow> int \<Rightarrow> ipc \<Rightarrow> call" where
  "rt_mb_send_wait mb val timeout K =
     (if entry (mailboxes K mb) = mb_size (mailboxes K mb) \<and> timeout = 0 then Return (- RT_EFULL) K
      else mb_send_loop mb val timeout K)"

text \<open>
  What is left of a timeout when the thread runs again: \<open>tick0\<close> is the tick at which it began to wait. The
  difference of ticks is unsigned, the subtraction is 32 bits wide.
\<close>

definition timeout_left :: "int \<Rightarrow> u32 \<Rightarrow> u32 \<Rightarrow> int" where
  "timeout_left timeout tick0 tick =
     (if timeout > 0 then let left = sint (word_of_int timeout - (tick - tick0) :: u32) in if left < 0 then 0 else left
      else timeout)"

definition rt_mb_send_resumed :: "nat \<Rightarrow> u32 \<Rightarrow> int \<Rightarrow> u32 \<Rightarrow> ipc \<Rightarrow> call" where
  "rt_mb_send_resumed mb val timeout tick0 K =
     (let e = error (threads K (rt_current_thread K))
      in if e \<noteq> RT_EOK then Return e K else mb_send_loop mb val (timeout_left timeout tick0 (rt_tick K)) K)"

definition rt_mb_send :: "nat \<Rightarrow> u32 \<Rightarrow> ipc \<Rightarrow> call" where
  "rt_mb_send mb val K = rt_mb_send_wait mb val 0 K"

definition rt_mb_urgent :: "nat \<Rightarrow> u32 \<Rightarrow> ipc \<Rightarrow> call" where
  "rt_mb_urgent mb val K =
     (if entry (mailboxes K mb) = mb_size (mailboxes K mb) then Return (- RT_EFULL) K
      else Return RT_EOK (mb_wake (Suspend_thread (MailBox mb)) (upd_mailbox mb (mb_store_urgent val) K)))"

datatype recv_call = Mail int "u32 option" ipc | Recv_blocked ipc | Recv_halt

definition recv_call_of :: "call \<Rightarrow> recv_call" where
  "recv_call_of c = (case c of Return e K \<Rightarrow> Mail e None K | Blocked K \<Rightarrow> Recv_blocked K | Halt \<Rightarrow> Recv_halt)"

definition mb_recv_loop :: "nat \<Rightarrow> int \<Rightarrow> ipc \<Rightarrow> recv_call" where
  "mb_recv_loop mb timeout K =
     (let b = mailboxes K mb; t = rt_current_thread K
      in if entry b = 0 then
           (let K1 = set_error t RT_EOK K
            in if timeout = 0 then Mail (- RT_ETIMEOUT) None (set_error t (- RT_ETIMEOUT) K1)
               else if \<not> in_thread_context K1 then Recv_halt
               else recv_call_of (wait_on (Suspend_thread (MailBox mb)) (mb_flag b) timeout K1))
         else (case mb_fetch b of
                 (val, b1) \<Rightarrow> Mail RT_EOK (Some val) (mb_wake (Suspend_sender (MailBox mb)) (upd_mailbox mb (\<lambda>_. b1) K))))"

definition rt_mb_recv :: "nat \<Rightarrow> int \<Rightarrow> ipc \<Rightarrow> recv_call" where
  "rt_mb_recv mb timeout K =
     (if entry (mailboxes K mb) = 0 \<and> timeout = 0 then Mail (- RT_ETIMEOUT) None K else mb_recv_loop mb timeout K)"

definition rt_mb_recv_resumed :: "nat \<Rightarrow> int \<Rightarrow> u32 \<Rightarrow> ipc \<Rightarrow> recv_call" where
  "rt_mb_recv_resumed mb timeout tick0 K =
     (let e = error (threads K (rt_current_thread K))
      in if e \<noteq> RT_EOK then Mail e None K else mb_recv_loop mb (timeout_left timeout tick0 (rt_tick K)) K)"

definition rt_mb_control_reset :: "nat \<Rightarrow> ipc \<Rightarrow> (int \<times> ipc) option" where
  "rt_mb_control_reset mb K =
     map_option (\<lambda>K1. (RT_EOK, rt_schedule (upd_mailbox mb (\<lambda>b. b\<lparr>entry := 0, in_offset := 0, out_offset := 0\<rparr>) K1)))
       (rt_mb_detach mb K)"

section \<open>Message queues\<close>

definition rt_mq_init :: "nat \<Rightarrow> (nat \<Rightarrow> bytes) \<Rightarrow> nat \<Rightarrow> nat \<Rightarrow> ipc_flag \<Rightarrow> ipc \<Rightarrow> ipc" where
  "rt_mq_init mq pool sz pool_size flag K =
     (let sz1 = RT_ALIGN4 sz mod 2 ^ 16
      in (upd_mq mq (\<lambda>_. mq_init_pool sz1 (pool_size div (sz1 + 4) mod 2 ^ 16) pool flag) K)
           \<lparr>tlists := (tlists K)(Suspend_thread (MessageQueue mq) := [], Suspend_sender (MessageQueue mq) := [])\<rparr>)"

definition rt_mq_detach :: "nat \<Rightarrow> ipc \<Rightarrow> ipc option" where
  "rt_mq_detach mq K =
     Option.bind (ipc_list_resume_all (Suspend_thread (MessageQueue mq)) K) (ipc_list_resume_all (Suspend_sender (MessageQueue mq)))"

text \<open>
  A call that goes on returns at the end of its first critical section with the block it has taken (\<open>Holding\<close>). The
  caller copies the message (\<open>mq_fill\<close>, \<open>mq_copy_out\<close>) and ends the call with one of the \<open>finish\<close> operations.
\<close>

datatype mq_call = Holding nat ipc | Mq_return int ipc | Mq_blocked ipc | Mq_halt

definition mq_call_of :: "call \<Rightarrow> mq_call" where
  "mq_call_of c = (case c of Return e K \<Rightarrow> Mq_return e K | Blocked K \<Rightarrow> Mq_blocked K | Halt \<Rightarrow> Mq_halt)"

definition mq_send_loop :: "nat \<Rightarrow> int \<Rightarrow> ipc \<Rightarrow> mq_call" where
  "mq_send_loop mq timeout K =
     (case mq_take_free (msgqueues K mq) of
        Some (k, q1) \<Rightarrow> Holding k (upd_mq mq (\<lambda>_. q1) K)
      | None \<Rightarrow>
          let K1 = set_error (rt_current_thread K) RT_EOK K
          in if timeout = 0 then Mq_return (- RT_EFULL) K1
             else if \<not> in_thread_context K1 then Mq_halt
             else mq_call_of (wait_on (Suspend_sender (MessageQueue mq)) (mq_flag (msgqueues K mq)) timeout K1))"

definition rt_mq_send_wait :: "nat \<Rightarrow> nat \<Rightarrow> int \<Rightarrow> ipc \<Rightarrow> mq_call" where
  "rt_mq_send_wait mq n timeout K =
     (if n = 0 then Mq_halt
      else if n > msg_size (msgqueues K mq) then Mq_return (- RT_ERROR) K
      else if msg_queue_free (msgqueues K mq) = None \<and> timeout = 0 then Mq_return (- RT_EFULL) K
      else mq_send_loop mq timeout K)"

definition rt_mq_send_resumed :: "nat \<Rightarrow> int \<Rightarrow> u32 \<Rightarrow> ipc \<Rightarrow> mq_call" where
  "rt_mq_send_resumed mq timeout tick0 K =
     (let e = error (threads K (rt_current_thread K))
      in if e \<noteq> RT_EOK then Mq_return e K else mq_send_loop mq (timeout_left timeout tick0 (rt_tick K)) K)"

definition mq_finish :: "nat \<Rightarrow> bool \<times> rt_messagequeue \<Rightarrow> ipc \<Rightarrow> int \<times> ipc" where
  "mq_finish mq r K =
     (let K1 = upd_mq mq (\<lambda>_. snd r) K
      in if fst r then (RT_EOK, mb_wake (Suspend_thread (MessageQueue mq)) K1) else (- RT_EFULL, K1))"

definition rt_mq_send_finish :: "nat \<Rightarrow> nat \<Rightarrow> ipc \<Rightarrow> int \<times> ipc" where
  "rt_mq_send_finish mq k K = mq_finish mq (mq_append k (msgqueues K mq)) K"

definition rt_mq_send :: "nat \<Rightarrow> nat \<Rightarrow> ipc \<Rightarrow> mq_call" where
  "rt_mq_send mq n K = rt_mq_send_wait mq n 0 K"

definition rt_mq_urgent :: "nat \<Rightarrow> nat \<Rightarrow> ipc \<Rightarrow> mq_call" where
  "rt_mq_urgent mq n K =
     (if n = 0 then Mq_halt
      else if n > msg_size (msgqueues K mq) then Mq_return (- RT_ERROR) K
      else case mq_take_free (msgqueues K mq) of
             None \<Rightarrow> Mq_return (- RT_EFULL) K
           | Some (k, q1) \<Rightarrow> Holding k (upd_mq mq (\<lambda>_. q1) K))"

definition rt_mq_urgent_finish :: "nat \<Rightarrow> nat \<Rightarrow> ipc \<Rightarrow> int \<times> ipc" where
  "rt_mq_urgent_finish mq k K = mq_finish mq (mq_push_front k (msgqueues K mq)) K"

text \<open>\<^verbatim>\<open>rt_mq_recv\<close>; an empty list of messages with a positive count would be a null dereference.\<close>

definition mq_recv_loop :: "nat \<Rightarrow> int \<Rightarrow> ipc \<Rightarrow> mq_call" where
  "mq_recv_loop mq timeout K =
     (let t = rt_current_thread K
      in if mq_entry (msgqueues K mq) = 0 then
           if \<not> in_thread_context K then Mq_halt
           else if timeout = 0 then Mq_return (- RT_ETIMEOUT) (set_error t (- RT_ETIMEOUT) (set_error t RT_EOK K))
           else mq_call_of (wait_on (Suspend_thread (MessageQueue mq)) (mq_flag (msgqueues K mq)) timeout (set_error t RT_EOK K))
         else case mq_pop (msgqueues K mq) of
                None \<Rightarrow> Mq_halt
              | Some (k, q1) \<Rightarrow> Holding k (upd_mq mq (\<lambda>_. q1) K))"

definition rt_mq_recv :: "nat \<Rightarrow> nat \<Rightarrow> int \<Rightarrow> ipc \<Rightarrow> mq_call" where
  "rt_mq_recv mq n timeout K =
     (if n = 0 then Mq_halt
      else if mq_entry (msgqueues K mq) = 0 \<and> timeout = 0 then Mq_return (- RT_ETIMEOUT) K
      else mq_recv_loop mq timeout K)"

definition rt_mq_recv_resumed :: "nat \<Rightarrow> int \<Rightarrow> u32 \<Rightarrow> ipc \<Rightarrow> mq_call" where
  "rt_mq_recv_resumed mq timeout tick0 K =
     (let e = error (threads K (rt_current_thread K))
      in if e \<noteq> RT_EOK then Mq_return e K else mq_recv_loop mq (timeout_left timeout tick0 (rt_tick K)) K)"

definition rt_mq_recv_finish :: "nat \<Rightarrow> nat \<Rightarrow> ipc \<Rightarrow> int \<times> ipc" where
  "rt_mq_recv_finish mq k K = (RT_EOK, mb_wake (Suspend_sender (MessageQueue mq)) (upd_mq mq (mq_add_free k) K))"

definition rt_mq_control_reset :: "nat \<Rightarrow> ipc \<Rightarrow> (int \<times> ipc) option" where
  "rt_mq_control_reset mq K =
     Option.bind (rt_mq_detach mq K) (\<lambda>K1.
       map_option (\<lambda>q1. (RT_EOK, rt_schedule (upd_mq mq (\<lambda>_. q1) K1))) (mq_reset (msgqueues K1 mq)))"

end
