(* ===== verification/Scheduler_Inv.thy ===== *)
theory Scheduler_Inv
  imports Scheduler
begin

text \<open>
  The invariant of the scheduler and its preservation. A thread between two lists is \<^emph>\<open>in transit\<close>: the set \<open>T\<close> of
  the invariant holds the threads in transit, which are in no list and of which nothing else is required.
\<close>

section \<open>Invariant\<close>

definition live :: "rt_thread \<Rightarrow> bool" where
  "live th \<longleftrightarrow> stat th \<in> {RT_THREAD_READY, RT_THREAD_SUSPEND, RT_THREAD_RUNNING}"

definition prio_ok :: "rt_thread \<Rightarrow> bool" where
  "prio_ok th \<longleftrightarrow> current_priority th < RT_THREAD_PRIORITY_MAX \<and> number_mask th = push_bit (current_priority th) 1"

definition queue_stat :: "list_head \<Rightarrow> rt_thread \<Rightarrow> bool" where
  "queue_stat h th \<longleftrightarrow>
     (case h of Ready p \<Rightarrow> stat th = RT_THREAD_READY \<and> current_priority th = p
      | Thread_defunct \<Rightarrow> stat th = RT_THREAD_CLOSE | _ \<Rightarrow> stat th = RT_THREAD_SUSPEND)"

definition kernel_inv_but :: "nat set \<Rightarrow> 'a kernel_scheme \<Rightarrow> bool" where
  "kernel_inv_but T K \<longleftrightarrow>
     (\<forall>h. distinct (tlists K h)) \<and>
     (\<forall>h h' t. t \<in> set (tlists K h) \<and> t \<in> set (tlists K h') \<longrightarrow> h = h') \<and>
     (\<forall>h t. t \<in> set (tlists K h) \<longrightarrow> t \<notin> T \<and> queue_stat h (threads K t)) \<and>
     (\<forall>t. t \<notin> T \<and> stat (threads K t) = RT_THREAD_READY \<longrightarrow> t \<in> set (tlists K (Ready (current_priority (threads K t))))) \<and>
     (\<forall>t. t \<notin> T \<and> live (threads K t) \<longrightarrow> prio_ok (threads K t)) \<and>
     (\<forall>t. t \<notin> T \<and> stat (threads K t) = RT_THREAD_RUNNING \<longrightarrow> t = rt_current_thread K) \<and>
     (\<forall>p<RT_THREAD_PRIORITY_MAX. bit (rt_thread_ready_priority_group K) p \<longleftrightarrow> tlists K (Ready p) \<noteq> []) \<and>
     timers_ok K \<and>
     (\<forall>t. t \<notin> T \<and> timer_activated (timers K (Thread_timer t)) \<longrightarrow> stat (threads K t) = RT_THREAD_SUSPEND)"

abbreviation kernel_inv :: "'a kernel_scheme \<Rightarrow> bool" where
  "kernel_inv \<equiv> kernel_inv_but {}"

lemma kernel_invD:
  assumes "kernel_inv_but T K"
  shows "distinct (tlists K h)" "t \<in> set (tlists K h) \<Longrightarrow> t \<in> set (tlists K h') \<Longrightarrow> h = h'"
    "t \<in> set (tlists K h) \<Longrightarrow> t \<notin> T" "t \<in> set (tlists K h) \<Longrightarrow> queue_stat h (threads K t)"
    "t \<notin> T \<Longrightarrow> stat (threads K t) = RT_THREAD_READY \<Longrightarrow> t \<in> set (tlists K (Ready (current_priority (threads K t))))"
    "t \<notin> T \<Longrightarrow> live (threads K t) \<Longrightarrow> prio_ok (threads K t)"
    "t \<notin> T \<Longrightarrow> stat (threads K t) = RT_THREAD_RUNNING \<Longrightarrow> t = rt_current_thread K"
    "p < RT_THREAD_PRIORITY_MAX \<Longrightarrow> bit (rt_thread_ready_priority_group K) p \<longleftrightarrow> tlists K (Ready p) \<noteq> []"
    "timers_ok K" "t \<notin> T \<Longrightarrow> timer_activated (timers K (Thread_timer t)) \<Longrightarrow> stat (threads K t) = RT_THREAD_SUSPEND"
proof -
  note A = assms[unfolded kernel_inv_but_def]
  note d = conjunct2
  show "distinct (tlists K h)" using A[THEN conjunct1] by (rule spec)
  show "t \<in> set (tlists K h) \<Longrightarrow> t \<in> set (tlists K h') \<Longrightarrow> h = h'" using A[THEN d, THEN conjunct1, rule_format, of t h h'] by simp
  show "t \<in> set (tlists K h) \<Longrightarrow> t \<notin> T" "t \<in> set (tlists K h) \<Longrightarrow> queue_stat h (threads K t)"
    using A[THEN d, THEN d, THEN conjunct1, rule_format, of t h] by simp_all
  show "t \<notin> T \<Longrightarrow> stat (threads K t) = RT_THREAD_READY \<Longrightarrow> t \<in> set (tlists K (Ready (current_priority (threads K t))))"
    using A[THEN d, THEN d, THEN d, THEN conjunct1, rule_format, of t] by simp
  show "t \<notin> T \<Longrightarrow> live (threads K t) \<Longrightarrow> prio_ok (threads K t)"
    using A[THEN d, THEN d, THEN d, THEN d, THEN conjunct1, rule_format, of t] by simp
  show "t \<notin> T \<Longrightarrow> stat (threads K t) = RT_THREAD_RUNNING \<Longrightarrow> t = rt_current_thread K"
    using A[THEN d, THEN d, THEN d, THEN d, THEN d, THEN conjunct1, rule_format, of t] by simp
  show "p < RT_THREAD_PRIORITY_MAX \<Longrightarrow> bit (rt_thread_ready_priority_group K) p \<longleftrightarrow> tlists K (Ready p) \<noteq> []"
    using A[THEN d, THEN d, THEN d, THEN d, THEN d, THEN d, THEN conjunct1, rule_format, of p] by simp
  show "timers_ok K" using A[THEN d, THEN d, THEN d, THEN d, THEN d, THEN d, THEN d, THEN conjunct1] .
  show "t \<notin> T \<Longrightarrow> timer_activated (timers K (Thread_timer t)) \<Longrightarrow> stat (threads K t) = RT_THREAD_SUSPEND"
    using A[THEN d, THEN d, THEN d, THEN d, THEN d, THEN d, THEN d, THEN d, rule_format, of t] by simp
qed

lemma kernel_invI:
  assumes "\<And>h. distinct (tlists K h)" "\<And>h h' t. t \<in> set (tlists K h) \<Longrightarrow> t \<in> set (tlists K h') \<Longrightarrow> h = h'"
    "\<And>t h. t \<in> set (tlists K h) \<Longrightarrow> t \<notin> T" "\<And>t h. t \<in> set (tlists K h) \<Longrightarrow> queue_stat h (threads K t)"
    "\<And>t. t \<notin> T \<Longrightarrow> stat (threads K t) = RT_THREAD_READY \<Longrightarrow> t \<in> set (tlists K (Ready (current_priority (threads K t))))"
    "\<And>t. t \<notin> T \<Longrightarrow> live (threads K t) \<Longrightarrow> prio_ok (threads K t)"
    "\<And>t. t \<notin> T \<Longrightarrow> stat (threads K t) = RT_THREAD_RUNNING \<Longrightarrow> t = rt_current_thread K"
    "\<And>p. p < RT_THREAD_PRIORITY_MAX \<Longrightarrow> bit (rt_thread_ready_priority_group K) p \<longleftrightarrow> tlists K (Ready p) \<noteq> []"
    "timers_ok K" "\<And>t. t \<notin> T \<Longrightarrow> timer_activated (timers K (Thread_timer t)) \<Longrightarrow> stat (threads K t) = RT_THREAD_SUSPEND"
  shows "kernel_inv_but T K"
  using assms unfolding kernel_inv_but_def by blast

text \<open>The ready queues hold valid priorities only.\<close>

lemma ready_queue_member:
  assumes "kernel_inv_but T K" "t \<in> set (tlists K (Ready p))"
  shows "stat (threads K t) = RT_THREAD_READY" "current_priority (threads K t) = p" "p < RT_THREAD_PRIORITY_MAX" "prio_ok (threads K t)"
proof -
  show s: "stat (threads K t) = RT_THREAD_READY" "current_priority (threads K t) = p"
    using kernel_invD(4)[OF assms] by (auto simp: queue_stat_def)
  then have "live (threads K t)" by (simp add: live_def)
  from kernel_invD(6)[OF assms(1) kernel_invD(3)[OF assms] this]
  show "prio_ok (threads K t)" "p < RT_THREAD_PRIORITY_MAX" using s by (auto simp: prio_ok_def)
qed

section \<open>Frames\<close>

text \<open>The timer system is the part of the kernel in front of the threads; the thread operations touch it only through timers.\<close>

abbreviation timer_part :: "'a timer_system_scheme \<Rightarrow> timer_system" where
  "timer_part \<equiv> timer_system.truncate"

lemma timer_part_upd [simp]:
  "timer_part (K\<lparr>threads := a\<rparr>) = timer_part K" "timer_part (K\<lparr>tlists := b\<rparr>) = timer_part K"
  "timer_part (K\<lparr>rt_thread_ready_priority_group := c\<rparr>) = timer_part K" "timer_part (K\<lparr>rt_scheduler_lock_nest := d\<rparr>) = timer_part K"
  "timer_part (K\<lparr>rt_current_thread := e\<rparr>) = timer_part K" "timer_part (K\<lparr>rt_current_priority := f\<rparr>) = timer_part K"
  "timer_part (K\<lparr>rt_interrupt_nest := g\<rparr>) = timer_part K"
  by (simp_all add: timer_system.defs)

lemma timers_ok_upd [simp]:
  "timers_ok (K\<lparr>threads := a\<rparr>) = timers_ok K" "timers_ok (K\<lparr>tlists := b\<rparr>) = timers_ok K"
  "timers_ok (K\<lparr>rt_thread_ready_priority_group := c\<rparr>) = timers_ok K" "timers_ok (K\<lparr>rt_scheduler_lock_nest := d\<rparr>) = timers_ok K"
  "timers_ok (K\<lparr>rt_current_thread := e\<rparr>) = timers_ok K" "timers_ok (K\<lparr>rt_current_priority := f\<rparr>) = timers_ok K"
  "timers_ok (K\<lparr>rt_interrupt_nest := g\<rparr>) = timers_ok K"
  by (intro timers_ok_cong timer_part_upd)+

lemma timer_ops_sel [simp]:
  fixes K :: "'a kernel_scheme"
  shows "threads (upd_timer x f K) = threads K" "tlists (upd_timer x f K) = tlists K"
    "rt_thread_ready_priority_group (upd_timer x f K) = rt_thread_ready_priority_group K"
    "rt_scheduler_lock_nest (upd_timer x f K) = rt_scheduler_lock_nest K" "rt_current_thread (upd_timer x f K) = rt_current_thread K"
    "rt_current_priority (upd_timer x f K) = rt_current_priority K" "rt_interrupt_nest (upd_timer x f K) = rt_interrupt_nest K"
    "kernel.more (upd_timer x f K) = kernel.more K"
    "threads (timer_remove x K) = threads K" "tlists (timer_remove x K) = tlists K"
    "rt_thread_ready_priority_group (timer_remove x K) = rt_thread_ready_priority_group K"
    "rt_scheduler_lock_nest (timer_remove x K) = rt_scheduler_lock_nest K" "rt_current_thread (timer_remove x K) = rt_current_thread K"
    "rt_current_priority (timer_remove x K) = rt_current_priority K" "rt_interrupt_nest (timer_remove x K) = rt_interrupt_nest K"
    "kernel.more (timer_remove x K) = kernel.more K"
  by (simp_all add: upd_timer_def timer_remove_def)

lemma timer_off_sel [simp]:
  fixes K :: "'a kernel_scheme"
  shows "threads (timer_off x K) = threads K" "tlists (timer_off x K) = tlists K"
    "rt_thread_ready_priority_group (timer_off x K) = rt_thread_ready_priority_group K"
    "rt_scheduler_lock_nest (timer_off x K) = rt_scheduler_lock_nest K" "rt_current_thread (timer_off x K) = rt_current_thread K"
    "rt_current_priority (timer_off x K) = rt_current_priority K" "rt_interrupt_nest (timer_off x K) = rt_interrupt_nest K"
    "kernel.more (timer_off x K) = kernel.more K"
  by (simp_all add: timer_off_def)

lemma timer_detach_sel [simp]:
  fixes K :: "'a kernel_scheme"
  shows "threads (rt_timer_detach x K) = threads K" "tlists (rt_timer_detach x K) = tlists K"
    "rt_thread_ready_priority_group (rt_timer_detach x K) = rt_thread_ready_priority_group K"
    "rt_scheduler_lock_nest (rt_timer_detach x K) = rt_scheduler_lock_nest K" "rt_current_thread (rt_timer_detach x K) = rt_current_thread K"
    "rt_current_priority (rt_timer_detach x K) = rt_current_priority K" "rt_interrupt_nest (rt_timer_detach x K) = rt_interrupt_nest K"
    "kernel.more (rt_timer_detach x K) = kernel.more K"
    "timers (rt_timer_detach x K) = (timers K)(x := (timers K x)\<lparr>timer_activated := False\<rparr>)"
  by (simp_all add: rt_timer_detach_def) (simp add: timer_off_def)

lemma thread_timer_stop_sel [simp]:
  "threads (thread_timer_stop t K) = threads K" "tlists (thread_timer_stop t K) = tlists K"
  "rt_thread_ready_priority_group (thread_timer_stop t K) = rt_thread_ready_priority_group K"
  "rt_scheduler_lock_nest (thread_timer_stop t K) = rt_scheduler_lock_nest K" "rt_current_thread (thread_timer_stop t K) = rt_current_thread K"
  "rt_current_priority (thread_timer_stop t K) = rt_current_priority K" "rt_interrupt_nest (thread_timer_stop t K) = rt_interrupt_nest K"
  "kernel.more (thread_timer_stop t K) = kernel.more K"
  "timers (thread_timer_stop t K) = (timers K)(Thread_timer t := (timers K (Thread_timer t))\<lparr>timer_activated := False\<rparr>)"
  by (auto simp: thread_timer_stop_def rt_timer_stop_def) (simp_all add: timer_off_def)

lemma upd_thread_sel [simp]:
  "threads (upd_thread t f K) = (threads K)(t := f (threads K t))" "tlists (upd_thread t f K) = tlists K"
  "rt_thread_ready_priority_group (upd_thread t f K) = rt_thread_ready_priority_group K"
  "rt_scheduler_lock_nest (upd_thread t f K) = rt_scheduler_lock_nest K"
  "rt_current_thread (upd_thread t f K) = rt_current_thread K"
  "rt_interrupt_nest (upd_thread t f K) = rt_interrupt_nest K" "rt_tick (upd_thread t f K) = rt_tick K"
  "timer_part (upd_thread t f K) = timer_part K" "timers (upd_thread t f K) = timers K" "timers_ok (upd_thread t f K) = timers_ok K"
  "kernel.more (upd_thread t f K) = kernel.more K"
  by (simp_all add: upd_thread_def)

lemma thread_init_sel:
  assumes "thread_init t p tick K = Some K'"
  shows "threads K' = (threads K)(t := threads K' t)" "stat (threads K' t) = RT_THREAD_INIT" "init_priority (threads K' t) = p"
    "tlists K' = tlists K" "rt_current_thread K' = rt_current_thread K" "rt_scheduler_lock_nest K' = rt_scheduler_lock_nest K"
    "rt_thread_ready_priority_group K' = rt_thread_ready_priority_group K" "kernel.more K' = kernel.more K"
    "timers K' = (timers K)(Thread_timer t := timers K' (Thread_timer t))" "\<not> timer_activated (timers K' (Thread_timer t))"
    "timer_list K' = timer_list K" "timer_thread K' = timer_thread K"
  using assms by (auto simp: thread_init_def timer_init_def split: if_splits) (simp_all add: upd_timer_def upd_thread_def)

lemma list_sel [simp]:
  "threads (rt_list_remove t K) = threads K" "threads (rt_list_insert_before h t K) = threads K"
  "threads (rt_list_insert_after h t K) = threads K"
  "rt_thread_ready_priority_group (rt_list_remove t K) = rt_thread_ready_priority_group K"
  "rt_thread_ready_priority_group (rt_list_insert_before h t K) = rt_thread_ready_priority_group K"
  "rt_thread_ready_priority_group (rt_list_insert_after h t K) = rt_thread_ready_priority_group K"
  "rt_current_thread (rt_list_remove t K) = rt_current_thread K" "rt_current_thread (rt_list_insert_before h t K) = rt_current_thread K"
  "rt_current_thread (rt_list_insert_after h t K) = rt_current_thread K"
  "rt_scheduler_lock_nest (rt_list_remove t K) = rt_scheduler_lock_nest K"
  "rt_scheduler_lock_nest (rt_list_insert_before h t K) = rt_scheduler_lock_nest K"
  "rt_scheduler_lock_nest (rt_list_insert_after h t K) = rt_scheduler_lock_nest K"
  "kernel.more (rt_list_remove t K) = kernel.more K" "kernel.more (rt_list_insert_before h t K) = kernel.more K"
  "kernel.more (rt_list_insert_after h t K) = kernel.more K"
  "tlists (rt_list_remove t K) h = removeAll t (tlists K h)"
  "tlists (rt_list_insert_before h t K) = (tlists K)(h := tlists K h @ [t])"
  "tlists (rt_list_insert_after h t K) = (tlists K)(h := t # tlists K h)"
  "timer_part (rt_list_remove t K) = timer_part K" "timer_part (rt_list_insert_before h t K) = timer_part K"
  "timer_part (rt_list_insert_after h t K) = timer_part K"
  "timers (rt_list_remove t K) = timers K" "timers (rt_list_insert_before h t K) = timers K" "timers (rt_list_insert_after h t K) = timers K"
  "timers_ok (rt_list_remove t K) = timers_ok K" "timers_ok (rt_list_insert_before h t K) = timers_ok K"
  "timers_ok (rt_list_insert_after h t K) = timers_ok K"
  by (simp_all add: rt_list_remove_def rt_list_insert_before_def rt_list_insert_after_def)

lemma remove_sel [simp]:
  "threads (rt_schedule_remove_thread t K) = threads K" "rt_current_thread (rt_schedule_remove_thread t K) = rt_current_thread K"
  "tlists (rt_schedule_remove_thread t K) h = removeAll t (tlists K h)"
  "rt_scheduler_lock_nest (rt_schedule_remove_thread t K) = rt_scheduler_lock_nest K"
  "kernel.more (rt_schedule_remove_thread t K) = kernel.more K"
  "timer_part (rt_schedule_remove_thread t K) = timer_part K" "timers (rt_schedule_remove_thread t K) = timers K"
  "timers_ok (rt_schedule_remove_thread t K) = timers_ok K"
  by (simp_all add: rt_schedule_remove_thread_def Let_def)

lemma insert_sel [simp]:
  "threads (rt_schedule_insert_thread t K) =
    (threads K)(t := (threads K t)\<lparr>stat := if t = rt_current_thread K then RT_THREAD_RUNNING else RT_THREAD_READY\<rparr>)"
  "rt_current_thread (rt_schedule_insert_thread t K) = rt_current_thread K"
  "rt_scheduler_lock_nest (rt_schedule_insert_thread t K) = rt_scheduler_lock_nest K"
  "kernel.more (rt_schedule_insert_thread t K) = kernel.more K"
  "tlists (rt_schedule_insert_thread t K) = (if t = rt_current_thread K then tlists K
    else (tlists K)(Ready (current_priority (threads K t)) := tlists K (Ready (current_priority (threads K t))) @ [t]))"
  "timer_part (rt_schedule_insert_thread t K) = timer_part K" "timers (rt_schedule_insert_thread t K) = timers K"
  "timers_ok (rt_schedule_insert_thread t K) = timers_ok K"
  by (simp_all add: rt_schedule_insert_thread_def Let_def)

text \<open>Resuming a thread whose timer does not run leaves the timers alone.\<close>

lemma resume_idle:
  assumes "\<not> timer_activated (timers K (Thread_timer t))"
  shows "timer_part (snd (rt_thread_resume t K)) = timer_part K"
proof -
  have "thread_timer_stop t (rt_list_remove t K) = rt_list_remove t K" using assms by (simp add: thread_timer_stop_def rt_timer_stop_def)
  then show ?thesis by (simp add: rt_thread_resume_def)
qed

lemma timer_start_sel:
  fixes K :: "'a kernel_scheme"
  assumes "timer_start_list x K = Some K'"
  shows "threads K' = threads K" "tlists K' = tlists K" "rt_thread_ready_priority_group K' = rt_thread_ready_priority_group K"
    "rt_scheduler_lock_nest K' = rt_scheduler_lock_nest K" "rt_current_thread K' = rt_current_thread K"
    "rt_interrupt_nest K' = rt_interrupt_nest K" "kernel.more K' = kernel.more K"
  using assms by (auto simp: timer_start_list_def Let_def split: if_splits)

text \<open>Starting the timer of a thread.\<close>

lemma thread_timer_start_sel:
  assumes st: "thread_timer_start t tick K = Some K'" and ok: "timers_ok K"
  shows "threads K' = threads K" "tlists K' = tlists K" "rt_thread_ready_priority_group K' = rt_thread_ready_priority_group K"
    "rt_scheduler_lock_nest K' = rt_scheduler_lock_nest K" "rt_current_thread K' = rt_current_thread K"
    "rt_interrupt_nest K' = rt_interrupt_nest K" "kernel.more K' = kernel.more K" "timers_ok K'" "rt_tick K' = rt_tick K"
    "timers K' = (timers K)(Thread_timer t := (timers K (Thread_timer t))\<lparr>timer_init_tick := tick,
       timeout_tick := rt_tick K + tick, timer_activated := True\<rparr>)" "tick < RT_TICK_MAX div 2"
    "linked Hard K' = insert (Thread_timer t) (linked Hard K)"
proof -
  let ?K = "snd (snd (rt_timer_control (Thread_timer t) (RT_TIMER_CTRL_SET_TIME tick) K))"
  have eq: "?K = upd_timer (Thread_timer t) (\<lambda>x. x\<lparr>timer_init_tick := tick\<rparr>) K" by (simp add: rt_timer_control_def)
  note st' = st[unfolded thread_timer_start_def]
  show "threads K' = threads K" "tlists K' = tlists K" "rt_thread_ready_priority_group K' = rt_thread_ready_priority_group K"
    "rt_scheduler_lock_nest K' = rt_scheduler_lock_nest K" "rt_current_thread K' = rt_current_thread K"
    "rt_interrupt_nest K' = rt_interrupt_nest K" "kernel.more K' = kernel.more K" using timer_start_sel[OF st'] by (simp_all add: eq)
  note T = timer_start_ok[OF timer_set_time_ok[OF ok] st']
  show "timers_ok K'" by (rule T(1))
  show "rt_tick K' = rt_tick K" using T(4) by (simp add: eq)
  show "timers K' = (timers K)(Thread_timer t := (timers K (Thread_timer t))\<lparr>timer_init_tick := tick,
       timeout_tick := rt_tick K + tick, timer_activated := True\<rparr>)" using T(3) by (simp add: eq)
  show "tick < RT_TICK_MAX div 2" using T(5) by (simp add: eq)
  show "linked Hard K' = insert (Thread_timer t) (linked Hard K)" using T(2) timers_okD(5)[OF ok, of t] by (simp add: eq)
qed

lemma thread_timer_start_bound: "thread_timer_start t tick K = Some K' \<Longrightarrow> tick < RT_TICK_MAX div 2"
  by (auto simp: thread_timer_start_def timer_start_list_def rt_timer_control_def Let_def timer_off_def split: if_splits)

lemma thread_timer_start_total: "tick < RT_TICK_MAX div 2 \<Longrightarrow> \<exists>K'. thread_timer_start t tick K = Some K'"
  unfolding thread_timer_start_def by (rule timer_start_total) (simp add: rt_timer_control_def)

text \<open>Only a suspended thread waits for its timer.\<close>

lemma timer_idle: "kernel_inv_but T K \<Longrightarrow> t \<notin> T \<Longrightarrow> stat (threads K t) \<noteq> RT_THREAD_SUSPEND \<Longrightarrow> \<not> timer_activated (timers K (Thread_timer t))"
  using kernel_invD(10) by blast

section \<open>In and out of transit\<close>

lemma bit_number_mask: "prio_ok th \<Longrightarrow> bit (number_mask th) i \<longleftrightarrow> i = current_priority th"
  by (auto simp: prio_ok_def RT_THREAD_PRIORITY_MAX_def bit_simps)

text \<open>Removing a live thread from whatever list it is in puts it in transit.\<close>

lemma remove_transit:
  assumes inv: "kernel_inv_but T K" and t: "prio_ok (threads K t)" and T: "T \<subseteq> {t}"
  shows "kernel_inv_but {t} (rt_schedule_remove_thread t K)"
proof -
  let ?p = "current_priority (threads K t)" and ?K = "rt_schedule_remove_thread t K"
  note I = kernel_invD[OF inv]
  have grp: "bit (rt_thread_ready_priority_group ?K) p \<longleftrightarrow> tlists ?K (Ready p) \<noteq> []" if p: "p < RT_THREAD_PRIORITY_MAX" for p
  proof (cases "p = ?p")
    case True
    have "bit (number_mask (threads K t)) ?p" using t by (simp add: bit_number_mask)
    then show ?thesis using I(8)[OF p] True p
      by (auto simp: rt_schedule_remove_thread_def Let_def bit_simps RT_THREAD_PRIORITY_MAX_def)
  next
    case False
    have nb: "\<not> bit (number_mask (threads K t)) p" using t False by (simp add: bit_number_mask)
    have "t \<notin> set (tlists K (Ready p))" using I(4)[of t "Ready p"] False by (auto simp: queue_stat_def)
    then have "removeAll t (tlists K (Ready p)) = tlists K (Ready p)" by (simp add: removeAll_id)
    then show ?thesis using I(8)[OF p] nb p
      by (auto simp: rt_schedule_remove_thread_def Let_def bit_simps RT_THREAD_PRIORITY_MAX_def)
  qed
  show "kernel_inv_but {t} ?K"
  proof (rule kernel_invI)
    show "\<And>h. distinct (tlists ?K h)" using I(1) by (simp add: distinct_removeAll)
    show "h = h'" if "x \<in> set (tlists ?K h)" "x \<in> set (tlists ?K h')" for h h' x using I(2)[of x h h'] that by simp
    show "\<And>x h. x \<in> set (tlists ?K h) \<Longrightarrow> x \<notin> {t}" by simp
    show "\<And>x h. x \<in> set (tlists ?K h) \<Longrightarrow> queue_stat h (threads ?K x)" using I(4) by simp
    have T': "x \<notin> T" if "x \<notin> {t}" for x using T that by blast
    show "x \<in> set (tlists ?K (Ready (current_priority (threads ?K x))))"
      if "x \<notin> {t}" "stat (threads ?K x) = RT_THREAD_READY" for x using I(5)[OF T'[OF that(1)]] that by simp
    show "prio_ok (threads ?K x)" if "x \<notin> {t}" "live (threads ?K x)" for x using I(6)[OF T'[OF that(1)]] that(2) by simp
    show "x = rt_current_thread ?K" if "x \<notin> {t}" "stat (threads ?K x) = RT_THREAD_RUNNING" for x
      using I(7)[OF T'[OF that(1)]] that(2) by simp
    show "stat (threads ?K x) = RT_THREAD_SUSPEND" if "x \<notin> {t}" "timer_activated (timers ?K (Thread_timer x))" for x
      using I(10)[OF T'[OF that(1)]] that(2) by simp
    show "timers_ok ?K" using I(9) by simp
  qed (rule grp)
qed

text \<open>A thread in transit can change in any way.\<close>

lemma transit_upd:
  assumes "kernel_inv_but {t} K"
  shows "kernel_inv_but {t} (upd_thread t f K)"
proof -
  note I = kernel_invD[OF assms]
  have q: "queue_stat h (((threads K)(t := f (threads K t))) x)" if "x \<in> set (tlists K h)" for x h
    using I(3)[OF that] I(4)[OF that] by simp
  show ?thesis
  proof (rule kernel_invI)
    show "h = h'" if "x \<in> set (tlists (upd_thread t f K) h)" "x \<in> set (tlists (upd_thread t f K) h')" for h h' x
      using I(2)[of x h h'] that by simp
    show "stat (threads (upd_thread t f K) x) = RT_THREAD_SUSPEND" if "x \<notin> {t}" "timer_activated (timers (upd_thread t f K) (Thread_timer x))" for x
      using I(10)[OF that(1)] that by simp
  qed (use I(1,3,5-9) q in auto)
qed

text \<open>So can its timer, as long as the timers are in order.\<close>

lemma transit_timer:
  assumes "kernel_inv_but {t} K" "timers_ok K'" "\<And>x. x \<noteq> t \<Longrightarrow> timers K' (Thread_timer x) = timers K (Thread_timer x)"
    "threads K' = threads K" "tlists K' = tlists K" "rt_thread_ready_priority_group K' = rt_thread_ready_priority_group K"
    "rt_current_thread K' = rt_current_thread K"
  shows "kernel_inv_but {t} K'"
proof -
  note I = kernel_invD[OF assms(1)]
  show ?thesis
  proof (rule kernel_invI)
    show "h = h'" if "x \<in> set (tlists K' h)" "x \<in> set (tlists K' h')" for h h' x using I(2)[of x h h'] that assms(5) by simp
  qed (use I(1,3-8,10) assms in auto)
qed

text \<open>Out of transit: into the ready queue, into a waiting queue, out of all lists, or running.\<close>

lemma insert_transit:
  assumes inv: "kernel_inv_but {t} K" and ok: "prio_ok (threads K t)" and idle: "\<not> timer_activated (timers K (Thread_timer t))"
  shows "kernel_inv (rt_schedule_insert_thread t K)"
proof -
  let ?K = "rt_schedule_insert_thread t K" and ?p = "current_priority (threads K t)"
  note I = kernel_invD[OF inv]
  have out: "t \<notin> set (tlists K h)" for h using I(3)[of t h] by auto
  have grp: "bit (rt_thread_ready_priority_group ?K) p \<longleftrightarrow> tlists ?K (Ready p) \<noteq> []" if p: "p < RT_THREAD_PRIORITY_MAX" for p
  proof (cases "t = rt_current_thread K")
    case True
    then show ?thesis using I(8)[OF p] by (simp add: rt_schedule_insert_thread_def)
  next
    case False
    then have "rt_thread_ready_priority_group ?K = rt_thread_ready_priority_group K OR number_mask (threads K t)"
      by (simp add: rt_schedule_insert_thread_def Let_def)
    then have "bit (rt_thread_ready_priority_group ?K) p \<longleftrightarrow> bit (rt_thread_ready_priority_group K) p \<or> p = ?p"
      by (simp add: bit_or_iff bit_number_mask[OF ok])
    then show ?thesis using I(8)[OF p] False by auto
  qed
  have q: "queue_stat h (threads ?K x)" if "x \<in> set (tlists ?K h)" for x h
    using that I(4)[of x h] out[of h] by (cases "x = t") (auto simp: queue_stat_def split: if_splits)
  have d: "distinct (tlists ?K h)" for h using I(1)[of h] out[of h] by auto
  have u: "h = h'" if "x \<in> set (tlists ?K h)" "x \<in> set (tlists ?K h')" for x h h'
  proof (cases "x = t")
    case True
    have "t \<in> set (tlists ?K g) \<Longrightarrow> g = Ready ?p" for g using out[of g] by (auto split: if_splits)
    with that True show ?thesis by metis
  next
    case False
    then have "x \<in> set (tlists ?K g) \<Longrightarrow> x \<in> set (tlists K g)" for g by (auto split: if_splits)
    with that show ?thesis by (intro I(2))
  qed
  show "kernel_inv ?K"
  proof (rule kernel_invI)
    show "x \<in> set (tlists ?K (Ready (current_priority (threads ?K x))))" if "stat (threads ?K x) = RT_THREAD_READY" for x
      using that I(5)[of x] by (cases "x = t") (auto split: if_splits)
    show "prio_ok (threads ?K x)" if "live (threads ?K x)" for x using that I(6)[of x] ok by (cases "x = t") (simp_all add: prio_ok_def)
    show "x = rt_current_thread ?K" if "stat (threads ?K x) = RT_THREAD_RUNNING" for x
      using that I(7)[of x] by (cases "x = t") (auto split: if_splits)
    show "\<And>h. distinct (tlists ?K h)" by (rule d)
    show "\<And>h h' x. x \<in> set (tlists ?K h) \<Longrightarrow> x \<in> set (tlists ?K h') \<Longrightarrow> h = h'" by (rule u)
    show "\<And>x h. x \<in> set (tlists ?K h) \<Longrightarrow> queue_stat h (threads ?K x)" by (rule q)
    show "stat (threads ?K x) = RT_THREAD_SUSPEND" if "timer_activated (timers ?K (Thread_timer x))" for x
      using that idle I(10)[of x] by (cases "x = t") simp_all
  qed (use grp I(9) in auto)
qed

lemma transit_end:
  assumes inv: "kernel_inv_but {t} K" and st: "stat (threads K t) \<noteq> RT_THREAD_READY"
    and run: "stat (threads K t) = RT_THREAD_RUNNING \<Longrightarrow> t = rt_current_thread K" and ok: "live (threads K t) \<Longrightarrow> prio_ok (threads K t)"
    and idle: "timer_activated (timers K (Thread_timer t)) \<Longrightarrow> stat (threads K t) = RT_THREAD_SUSPEND"
  shows "kernel_inv K"
proof -
  note I = kernel_invD[OF inv]
  show ?thesis
  proof (rule kernel_invI)
    show "x \<in> set (tlists K (Ready (current_priority (threads K x))))" if "stat (threads K x) = RT_THREAD_READY" for x
      using I(5)[of x] st that by (cases "x = t") simp_all
    show "prio_ok (threads K x)" if "live (threads K x)" for x using I(6)[of x] ok that by (cases "x = t") simp_all
    show "x = rt_current_thread K" if "stat (threads K x) = RT_THREAD_RUNNING" for x using I(7)[of x] run that by (cases "x = t") simp_all
    show "stat (threads K x) = RT_THREAD_SUSPEND" if "timer_activated (timers K (Thread_timer x))" for x
      using I(10)[of x] idle that by (cases "x = t") simp_all
  qed (use I(1,2,4,8,9) in auto)
qed

text \<open>A thread that is in no list can be taken into transit; so can the running thread.\<close>

lemma transit_start:
  assumes inv: "kernel_inv K" and out: "\<And>h. t \<notin> set (tlists K h)"
  shows "kernel_inv_but {t} K"
proof -
  note I = kernel_invD[OF inv]
  show ?thesis
  proof (rule kernel_invI)
    show "x \<notin> {t}" if "x \<in> set (tlists K h)" for x h using that out[of h] by auto
    show "x \<in> set (tlists K (Ready (current_priority (threads K x))))" if "stat (threads K x) = RT_THREAD_READY" for x
      using I(5)[of x] that by simp
  qed (use I(1,2,4,6-10) in auto)
qed

lemma running_in_no_list: "kernel_inv_but T K \<Longrightarrow> stat (threads K t) = RT_THREAD_RUNNING \<Longrightarrow> t \<notin> set (tlists K h)"
  using kernel_invD(4)[of T K t h] by (auto simp: queue_stat_def split: list_head.splits)

text \<open>Out of transit into a queue that is not a ready queue.\<close>

lemma transit_place:
  assumes inv: "kernel_inv_but {t} K" and h: "\<And>p. h \<noteq> Ready p" and st: "queue_stat h (threads K t)"
    and ys: "set ys = insert t (set (tlists K h))" "distinct ys" and ok: "live (threads K t) \<Longrightarrow> prio_ok (threads K t)"
    and idle: "timer_activated (timers K (Thread_timer t)) \<Longrightarrow> stat (threads K t) = RT_THREAD_SUSPEND"
  shows "kernel_inv (K\<lparr>tlists := (tlists K)(h := ys)\<rparr>)"
proof -
  note I = kernel_invD[OF inv]
  have out: "t \<notin> set (tlists K g)" for g using I(3)[of t g] by auto
  have nr: "stat (threads K t) \<noteq> RT_THREAD_READY" "stat (threads K t) \<noteq> RT_THREAD_RUNNING"
    using st h by (auto simp: queue_stat_def split: list_head.splits)
  let ?K = "K\<lparr>tlists := (tlists K)(h := ys)\<rparr>"
  have mem: "x \<in> set (tlists ?K g) \<longleftrightarrow> x \<in> set (tlists K g) \<or> x = t \<and> g = h" for x g using ys(1) by auto
  show ?thesis
  proof (rule kernel_invI)
    show "distinct (tlists ?K g)" for g using I(1)[of g] ys(2) by simp
    show "g = g'" if "x \<in> set (tlists ?K g)" "x \<in> set (tlists ?K g')" for x g g'
    proof (cases "x = t")
      case True
      then show ?thesis using that out[of g] out[of g'] unfolding mem by blast
    next
      case False
      then show ?thesis using that unfolding mem by (intro I(2)[of x]) blast+
    qed
    show "queue_stat g (threads ?K x)" if "x \<in> set (tlists ?K g)" for x g using that I(4)[of x g] st unfolding mem by auto
    show "x \<in> set (tlists ?K (Ready (current_priority (threads ?K x))))" if "stat (threads ?K x) = RT_THREAD_READY" for x
      using that I(5)[of x] nr by (cases "x = t") (auto simp: h)
    show "prio_ok (threads ?K x)" if "live (threads ?K x)" for x using that I(6)[of x] ok by (cases "x = t") simp_all
    show "x = rt_current_thread ?K" if "stat (threads ?K x) = RT_THREAD_RUNNING" for x
      using that I(7)[of x] nr by (cases "x = t") simp_all
    show "bit (rt_thread_ready_priority_group ?K) p \<longleftrightarrow> tlists ?K (Ready p) \<noteq> []" if "p < RT_THREAD_PRIORITY_MAX" for p
      using I(8)[OF that] h[of p] by auto
    show "stat (threads ?K x) = RT_THREAD_SUSPEND" if "timer_activated (timers ?K (Thread_timer x))" for x
      using that I(10)[of x] idle by (cases "x = t") simp_all
    show "timers_ok ?K" using I(9) by (simp)
  qed simp
qed

text \<open>Changes of a thread that keep its state and its priority.\<close>

lemma kernel_inv_upd:
  assumes inv: "kernel_inv K" and f: "stat (f (threads K t)) = stat (threads K t)"
    "current_priority (f (threads K t)) = current_priority (threads K t)" "number_mask (f (threads K t)) = number_mask (threads K t)"
  shows "kernel_inv (upd_thread t f K)"
proof -
  note I = kernel_invD[OF inv]
  have eq: "queue_stat h (f (threads K t)) = queue_stat h (threads K t)" "live (f (threads K t)) = live (threads K t)"
    "prio_ok (f (threads K t)) = prio_ok (threads K t)" for h
    using f by (simp_all add: queue_stat_def live_def prio_ok_def split: list_head.splits)
  show ?thesis
  proof (rule kernel_invI)
    show "queue_stat h (threads (upd_thread t f K) x)" if "x \<in> set (tlists (upd_thread t f K) h)" for x h
      using that I(4)[of x h] eq(1) by (cases "x = t") simp_all
    show "x \<in> set (tlists (upd_thread t f K) (Ready (current_priority (threads (upd_thread t f K) x))))"
      if "stat (threads (upd_thread t f K) x) = RT_THREAD_READY" for x using that I(5)[of x] f by (cases "x = t") simp_all
    show "prio_ok (threads (upd_thread t f K) x)" if "live (threads (upd_thread t f K) x)" for x
      using that I(6)[of x] eq by (cases "x = t") simp_all
    show "x = rt_current_thread (upd_thread t f K)" if "stat (threads (upd_thread t f K) x) = RT_THREAD_RUNNING" for x
      using that I(7)[of x] f by (cases "x = t") simp_all
    show "h = h'" if "x \<in> set (tlists (upd_thread t f K) h)" "x \<in> set (tlists (upd_thread t f K) h')" for h h' x
      using I(2)[of x h h'] that by simp
    show "stat (threads (upd_thread t f K) x) = RT_THREAD_SUSPEND" if "timer_activated (timers (upd_thread t f K) (Thread_timer x))" for x
      using that I(10)[of x] f by (cases "x = t") simp_all
  qed (use I(1,8,9) in auto)
qed

section \<open>The scheduler\<close>

lemma highest_ready:
  assumes inv: "kernel_inv_but T K" and g: "rt_thread_ready_priority_group K \<noteq> 0"
  obtains t p where "scheduler_get_highest_priority_thread K = (t, p)" "t \<in> set (tlists K (Ready p))"
    "\<And>x. x \<notin> T \<Longrightarrow> stat (threads K x) = RT_THREAD_READY \<Longrightarrow> p \<le> current_priority (threads K x)"
    "tlists K (Ready p) = t # tl (tlists K (Ready p))"
proof -
  let ?p = "rt_ffs (rt_thread_ready_priority_group K) - 1"
  note F = rt_ffs_lowest[OF g]
  note I = kernel_invD[OF inv]
  have p: "?p < RT_THREAD_PRIORITY_MAX" using F(4) by (simp add: RT_THREAD_PRIORITY_MAX_def)
  then have ne: "tlists K (Ready ?p) \<noteq> []" using I(8)[OF p] F(2) by simp
  have "?p \<le> current_priority (threads K x)" if x: "x \<notin> T" "stat (threads K x) = RT_THREAD_READY" for x
  proof -
    let ?q = "current_priority (threads K x)"
    have m: "x \<in> set (tlists K (Ready ?q))" using I(5)[OF x] .
    have "?q < RT_THREAD_PRIORITY_MAX" using ready_queue_member(3)[OF inv m] .
    then have "bit (rt_thread_ready_priority_group K) ?q" using I(8) m by force
    then show ?thesis using F(3)[of ?q] by force
  qed
  with ne that show ?thesis by (simp add: scheduler_get_highest_priority_thread_def Let_def)
qed

lemma group_empty:
  assumes "kernel_inv K" "rt_thread_ready_priority_group K = 0"
  shows "stat (threads K t) \<noteq> RT_THREAD_READY"
proof
  assume "stat (threads K t) = RT_THREAD_READY"
  then have m: "t \<in> set (tlists K (Ready (current_priority (threads K t))))" using kernel_invD(5)[OF assms(1)] by simp
  from kernel_invD(8)[OF assms(1) ready_queue_member(3)[OF assms(1) m]] m assms(2) show False by auto
qed

definition runnable :: "rt_thread \<Rightarrow> bool" where
  "runnable th \<longleftrightarrow> stat th = RT_THREAD_READY \<or> stat th = RT_THREAD_RUNNING"

text \<open>What a call of the scheduler leaves alone: everything but the ready queues and the states of threads.\<close>

definition sched_frame :: "'a kernel_scheme \<Rightarrow> 'a kernel_scheme \<Rightarrow> bool" where
  "sched_frame K K' \<longleftrightarrow> kernel.more K' = kernel.more K \<and> rt_scheduler_lock_nest K' = rt_scheduler_lock_nest K \<and>
     timer_part K' = timer_part K \<and> (\<forall>h. (\<forall>p. h \<noteq> Ready p) \<longrightarrow> tlists K' h = tlists K h) \<and>
     (\<forall>t. \<exists>s y. threads K' t = (threads K t)\<lparr>stat := s, stat_yield := y\<rparr>) \<and>
     (\<forall>t. stat (threads K t) \<in> {RT_THREAD_INIT, RT_THREAD_SUSPEND, RT_THREAD_CLOSE} \<longrightarrow> stat (threads K' t) = stat (threads K t)) \<and>
     (\<forall>t. runnable (threads K t) \<longrightarrow> runnable (threads K' t))"

lemma thread_same [simp]: "\<exists>s y. th = th\<lparr>stat := s, stat_yield := y\<rparr>" for th :: rt_thread
  by (rule exI[of _ "stat th"], rule exI[of _ "stat_yield th"]) simp

lemma thread_stat_changed [simp]:
  "\<exists>s y. th\<lparr>stat := s'\<rparr> = th\<lparr>stat := s, stat_yield := y\<rparr>" "\<exists>s y. th\<lparr>stat_yield := y'\<rparr> = th\<lparr>stat := s, stat_yield := y\<rparr>"
  "\<exists>s y. th\<lparr>stat := s', stat_yield := y'\<rparr> = th\<lparr>stat := s, stat_yield := y\<rparr>"
  "\<exists>s y. th\<lparr>stat_yield := y', stat := s'\<rparr> = th\<lparr>stat := s, stat_yield := y\<rparr>" for th :: rt_thread
  using thread_same[of "th\<lparr>stat := s'\<rparr>"] thread_same[of "th\<lparr>stat_yield := y'\<rparr>"] thread_same[of "th\<lparr>stat := s', stat_yield := y'\<rparr>"]
    thread_same[of "th\<lparr>stat_yield := y', stat := s'\<rparr>"] by simp_all

lemma sched_frame_refl [simp]: "sched_frame K K"
  unfolding sched_frame_def by simp

lemma other_queue: "t \<in> set (tlists K (Ready p)) \<Longrightarrow> kernel_inv_but T K \<Longrightarrow> (\<And>p. h \<noteq> Ready p) \<Longrightarrow> t \<notin> set (tlists K h)"
  using kernel_invD(2)[of T K t h "Ready p"] by blast

lemma running_stays:
  assumes inv: "kernel_inv K" and run: "stat (threads K c) = RT_THREAD_RUNNING" and c: "c = rt_current_thread K"
    and le: "\<And>x. stat (threads K x) = RT_THREAD_READY \<Longrightarrow> current_priority (threads K c) \<le> current_priority (threads K x)"
    and K': "K' = set_stat c RT_THREAD_RUNNING (rt_schedule_remove_thread c (upd_thread c (\<lambda>th. th\<lparr>stat_yield := False\<rparr>) K))"
  shows "kernel_inv K'" "rt_current_thread K' = c" "threads K' = (threads K)(c := (threads K c)\<lparr>stat_yield := False\<rparr>)" "sched_frame K K'"
proof -
  let ?K1 = "upd_thread c (\<lambda>th. th\<lparr>stat_yield := False\<rparr>) K"
  have ok: "prio_ok (threads K c)" using kernel_invD(6)[OF inv, of c] run by (simp add: live_def)
  have inv1: "kernel_inv ?K1" using inv by (intro kernel_inv_upd) simp_all
  have ok1: "prio_ok (threads ?K1 c)" using ok by (simp add: prio_ok_def)
  note R = remove_transit[OF inv1 ok1 empty_subsetI]
  show th: "threads K' = (threads K)(c := (threads K c)\<lparr>stat_yield := False\<rparr>)"
    using run by (auto simp: K' fun_eq_iff)
  show cur: "rt_current_thread K' = c" by (simp add: K' c)
  have "kernel_inv_but {c} K'" unfolding K' by (rule transit_upd[OF R])
  then show "kernel_inv K'"
    by (rule transit_end) (use run cur ok timer_idle[OF inv, of c] in \<open>simp_all add: th prio_ok_def K'\<close>)
  have "c \<notin> set (tlists K h)" for h using running_in_no_list[OF inv run] .
  then show "sched_frame K K'" unfolding sched_frame_def
    using run by (auto simp: K' removeAll_id runnable_def)
qed

text \<open>A switch to the first thread of the highest ready queue.\<close>

lemma switch_to_correct:
  assumes inv: "kernel_inv_but T K" and T: "T = (if ins then {c} else {})" and c: "c = rt_current_thread K" "c \<noteq> t"
    and run: "ins \<longleftrightarrow> stat (threads K c) = RT_THREAD_RUNNING" and okc: "ins \<Longrightarrow> prio_ok (threads K c)"
    and idle: "ins \<Longrightarrow> \<not> timer_activated (timers K (Thread_timer c))"
    and t: "t \<in> set (tlists K (Ready p))" and K': "K' = switch_to t p ins K"
  shows "kernel_inv K'" "rt_current_thread K' = t"
    "threads K' = (threads K)(c := (threads K c)\<lparr>stat := if ins then RT_THREAD_READY else stat (threads K c)\<rparr>,
       t := (threads K t)\<lparr>stat := RT_THREAD_RUNNING\<rparr>)"
    "tlists K' h = removeAll t (if ins \<and> h = Ready (current_priority (threads K c)) then tlists K h @ [c] else tlists K h)"
    "kernel.more K' = kernel.more K" "rt_scheduler_lock_nest K' = rt_scheduler_lock_nest K" "timer_part K' = timer_part K"
proof -
  define K1 where "K1 = K\<lparr>rt_current_priority := p, rt_current_thread := t\<rparr>"
  define K2 where "K2 = (if ins then rt_schedule_insert_thread c K1 else K1)"
  have sel: "timers K1 = timers K" "timers_ok K1 = timers_ok K" "timer_part K1 = timer_part K"
    "threads K1 = threads K" "tlists K1 = tlists K" "rt_thread_ready_priority_group K1 = rt_thread_ready_priority_group K"
    "rt_current_thread K1 = t" "kernel.more K1 = kernel.more K" "rt_scheduler_lock_nest K1 = rt_scheduler_lock_nest K"
    by (simp_all add: K1_def)
  have inv1: "kernel_inv_but T K1"
  proof (rule kernel_invI)
    note I = kernel_invD[OF inv]
    show "x = rt_current_thread K1" if "x \<notin> T" "stat (threads K1 x) = RT_THREAD_RUNNING" for x
      using I(7)[of x] that run T c(1) by (cases ins) (auto simp: sel)
    show "x \<in> set (tlists K1 (Ready (current_priority (threads K1 x))))" if "x \<notin> T" "stat (threads K1 x) = RT_THREAD_READY" for x
      using I(5)[OF that(1)] that(2) by (simp add: sel)
    show "h = h'" if "x \<in> set (tlists K1 h)" "x \<in> set (tlists K1 h')" for h h' x using I(2)[of x h h'] that by (simp add: sel)
    show "stat (threads K1 x) = RT_THREAD_SUSPEND" if "x \<notin> T" "timer_activated (timers K1 (Thread_timer x))" for x
      using I(10)[OF that(1)] that(2) by (simp add: sel)
  qed (use kernel_invD(1,3,4,6,8,9)[OF inv] in \<open>auto simp: sel\<close>)
  have K2: "kernel_inv K2" "threads K2 = (threads K)(c := (threads K c)\<lparr>stat := if ins then RT_THREAD_READY else stat (threads K c)\<rparr>)"
    "rt_current_thread K2 = t" "rt_scheduler_lock_nest K2 = rt_scheduler_lock_nest K" "kernel.more K2 = kernel.more K"
    "tlists K2 g = (if ins \<and> g = Ready (current_priority (threads K c)) then tlists K g @ [c] else tlists K g)" for g
  proof -
    show "kernel_inv K2" "threads K2 = (threads K)(c := (threads K c)\<lparr>stat := if ins then RT_THREAD_READY else stat (threads K c)\<rparr>)"
    "rt_current_thread K2 = t" "rt_scheduler_lock_nest K2 = rt_scheduler_lock_nest K" "kernel.more K2 = kernel.more K"
    "tlists K2 g = (if ins \<and> g = Ready (current_priority (threads K c)) then tlists K g @ [c] else tlists K g)"
      using insert_transit[of c K1] inv1 T okc c(2) idle by (cases ins; simp add: K2_def sel)+
  qed
  have okt: "prio_ok (threads K2 t)" using ready_queue_member(4)[OF inv t] c(2) by (simp add: K2)
  note R = remove_transit[OF K2(1) okt empty_subsetI]
  have eq: "K' = set_stat t RT_THREAD_RUNNING (rt_schedule_remove_thread t K2)"
    by (simp add: K' switch_to_def K1_def K2_def c(1) Let_def)
  show th: "threads K' = (threads K)(c := (threads K c)\<lparr>stat := if ins then RT_THREAD_READY else stat (threads K c)\<rparr>,
       t := (threads K t)\<lparr>stat := RT_THREAD_RUNNING\<rparr>)" using c(2) by (simp add: eq K2(2))
  show cur: "rt_current_thread K' = t" by (simp add: eq K2(3))
  have "\<not> timer_activated (timers K (Thread_timer t))"
    using timer_idle[OF inv kernel_invD(3)[OF inv t]] ready_queue_member(1)[OF inv t] by simp
  then have it: "\<not> timer_activated (timers K' (Thread_timer t))" by (simp add: eq K2_def sel)
  have "kernel_inv_but {t} K'" unfolding eq by (rule transit_upd[OF R])
  then show "kernel_inv K'" by (rule transit_end) (use cur okt c(2) it in \<open>simp_all add: th K2(2) prio_ok_def\<close>)
  show "tlists K' h = removeAll t (if ins \<and> h = Ready (current_priority (threads K c)) then tlists K h @ [c] else tlists K h)"
    by (simp add: eq K2(6))
  show "kernel.more K' = kernel.more K" "rt_scheduler_lock_nest K' = rt_scheduler_lock_nest K" by (simp_all add: eq K2)
  have "timer_part K2 = timer_part K" by (simp add: K2_def sel(3))
  then show "timer_part K' = timer_part K" by (simp add: eq)
qed

text \<open>The scheduler runs the first thread of the highest priority.\<close>

lemma rt_schedule_correct:
  assumes inv: "kernel_inv K" and lock: "rt_scheduler_lock_nest K = 0"
    and run: "stat (threads K (rt_current_thread K)) = RT_THREAD_RUNNING \<or> rt_thread_ready_priority_group K \<noteq> 0"
  shows "kernel_inv (rt_schedule K)" "stat (threads (rt_schedule K) (rt_current_thread (rt_schedule K))) = RT_THREAD_RUNNING"
    "\<And>x. stat (threads (rt_schedule K) x) = RT_THREAD_READY \<Longrightarrow>
      current_priority (threads (rt_schedule K) (rt_current_thread (rt_schedule K))) \<le> current_priority (threads (rt_schedule K) x)"
    "sched_frame K (rt_schedule K)"
proof -
  let ?c = "rt_current_thread K" and ?K' = "rt_schedule K"
  let ?K1 = "upd_thread ?c (\<lambda>th. th\<lparr>stat_yield := False\<rparr>) K"
  have goal: "kernel_inv ?K' \<and> stat (threads ?K' (rt_current_thread ?K')) = RT_THREAD_RUNNING \<and>
    (\<forall>x. stat (threads ?K' x) = RT_THREAD_READY \<longrightarrow> current_priority (threads ?K' (rt_current_thread ?K')) \<le> current_priority (threads ?K' x)) \<and>
    sched_frame K ?K'"
  proof (cases "rt_thread_ready_priority_group K = 0")
    case True
    with inv run group_empty[OF inv True] show ?thesis by (simp add: rt_schedule_def)
  next
    case g: False
    obtain t p where hi: "scheduler_get_highest_priority_thread K = (t, p)" "t \<in> set (tlists K (Ready p))"
      and min: "\<And>x. x \<notin> {} \<Longrightarrow> stat (threads K x) = RT_THREAD_READY \<Longrightarrow> p \<le> current_priority (threads K x)"
      using highest_ready[OF inv g] by metis
    note tq = ready_queue_member[OF inv hi(2)]
    note S = rt_schedule_def[of K, unfolded hi(1)]
    consider (stays) "stat (threads K ?c) = RT_THREAD_RUNNING" "current_priority (threads K ?c) < p \<or> current_priority (threads K ?c) = p \<and> \<not> stat_yield (threads K ?c)"
      | (leaves) "stat (threads K ?c) = RT_THREAD_RUNNING" "\<not> (current_priority (threads K ?c) < p \<or> current_priority (threads K ?c) = p \<and> \<not> stat_yield (threads K ?c))"
      | (waits) "stat (threads K ?c) \<noteq> RT_THREAD_RUNNING" by blast
    then show ?thesis
    proof cases
      case stays
      have le: "current_priority (threads K ?c) \<le> current_priority (threads K x)" if "stat (threads K x) = RT_THREAD_READY" for x
        using min[OF _ that] stays(2) by auto
      have "?K' = set_stat ?c RT_THREAD_RUNNING (rt_schedule_remove_thread ?c ?K1)" using lock g stays by (simp add: S Let_def)
      note R = running_stays[OF inv stays(1) refl le this]
      have "stat (threads ?K' x) = RT_THREAD_READY \<longrightarrow> current_priority (threads ?K' ?c) \<le> current_priority (threads ?K' x)" for x
        using le[of x] by (simp add: R(3))
      then show ?thesis using R(1,2,4) stays(1) by (simp add: R(3))
    next
      case leaves
      have tc: "?c \<noteq> t" using tq(1) leaves(1) by auto
      have K': "?K' = switch_to t p True ?K1" using lock g leaves tc by (auto simp: S Let_def)
      have okc: "prio_ok (threads ?K1 ?c)" using kernel_invD(6)[OF inv, of ?c] leaves(1) by (simp add: live_def prio_ok_def)
      have "kernel_inv ?K1" using inv by (intro kernel_inv_upd) simp_all
      then have "kernel_inv_but {?c} ?K1" using running_in_no_list[OF inv leaves(1)] by (intro transit_start) simp_all
      from switch_to_correct[OF this, of True ?c t p ?K'] okc tc hi(2) leaves(1) K' timer_idle[OF inv, of ?c]
      have R: "kernel_inv ?K'" "rt_current_thread ?K' = t"
        "threads ?K' = (threads ?K1)(?c := (threads ?K1 ?c)\<lparr>stat := RT_THREAD_READY\<rparr>, t := (threads ?K1 t)\<lparr>stat := RT_THREAD_RUNNING\<rparr>)"
        "\<And>h. tlists ?K' h = removeAll t (if h = Ready (current_priority (threads K ?c)) then tlists K h @ [?c] else tlists K h)"
        "kernel.more ?K' = kernel.more K" "rt_scheduler_lock_nest ?K' = rt_scheduler_lock_nest K" "timer_part ?K' = timer_part K" by simp_all
      have le: "p \<le> current_priority (threads ?K' x)" if "stat (threads ?K' x) = RT_THREAD_READY" for x
        using that leaves(2) min[of x] tc by (auto simp: R(3) split: if_splits)
      have "sched_frame K ?K'" unfolding sched_frame_def
        using tq(1) leaves(1) other_queue[OF hi(2) inv] by (auto simp: R removeAll_id runnable_def)
      then show ?thesis using R(1,2) le tc tq(2) by (auto simp: R(3))
    next
      case waits
      show ?thesis
      proof (cases "?c = t")
        case True
        have K': "?K' = set_stat t RT_THREAD_RUNNING (rt_schedule_remove_thread t K)" using lock g waits True by (simp add: S Let_def)
        have "kernel_inv_but {t} ?K'" unfolding K' using remove_transit[OF inv tq(4)] by (intro transit_upd) simp
        then have "kernel_inv ?K'"
          by (rule transit_end) (use tq(4) True timer_idle[OF inv, of t] tq(1) in \<open>simp_all add: K' prio_ok_def\<close>)
        moreover have "p \<le> current_priority (threads ?K' x)" if "stat (threads ?K' x) = RT_THREAD_READY" for x
          using that min[of x] by (auto simp: K' split: if_splits)
        moreover have "sched_frame K ?K'" unfolding sched_frame_def using tq(1) other_queue[OF hi(2) inv] by (auto simp: K' removeAll_id runnable_def)
        ultimately show ?thesis using True tq(2) by (auto simp: K')
      next
        case tc: False
        have K': "?K' = switch_to t p False K" using lock g waits tc by (simp add: S Let_def)
        from switch_to_correct[of "{}" K False ?c t p ?K'] inv tc hi(2) waits K'
        have R: "kernel_inv ?K'" "rt_current_thread ?K' = t" "threads ?K' = (threads K)(t := (threads K t)\<lparr>stat := RT_THREAD_RUNNING\<rparr>)"
          "\<And>h. tlists ?K' h = removeAll t (tlists K h)"
          "kernel.more ?K' = kernel.more K" "rt_scheduler_lock_nest ?K' = rt_scheduler_lock_nest K" "timer_part ?K' = timer_part K" by simp_all
        have "p \<le> current_priority (threads ?K' x)" if "stat (threads ?K' x) = RT_THREAD_READY" for x
          using that min[of x] by (auto simp: R(3) split: if_splits)
        moreover have "sched_frame K ?K'" unfolding sched_frame_def using tq(1) other_queue[OF hi(2) inv] by (auto simp: R removeAll_id runnable_def)
        ultimately show ?thesis using R(1,2) tq(2) by (auto simp: R(3))
      qed
    qed
  qed
  then show "kernel_inv ?K'" "stat (threads ?K' (rt_current_thread ?K')) = RT_THREAD_RUNNING" "sched_frame K ?K'"
    "\<And>x. stat (threads ?K' x) = RT_THREAD_READY \<Longrightarrow> current_priority (threads ?K' (rt_current_thread ?K')) \<le> current_priority (threads ?K' x)"
    by blast+
qed

section \<open>Thread operations\<close>

lemma transit_timer_stop:
  assumes "kernel_inv_but {t} K"
  shows "kernel_inv_but {t} (thread_timer_stop t K)"
proof (rule transit_timer[OF assms])
  show "timers_ok (thread_timer_stop t K)" unfolding thread_timer_stop_def by (rule timer_stop_ok[OF kernel_invD(9)[OF assms]])
qed simp_all

lemma transit_timer_detach:
  assumes "kernel_inv_but {t} K"
  shows "kernel_inv_but {t} (rt_timer_detach (Thread_timer t) K)"
  by (rule transit_timer[OF assms detach_ok[OF kernel_invD(9)[OF assms]]]) simp_all

lemma suspend_transit:
  assumes inv: "kernel_inv K" and st: "stat (threads K t) = RT_THREAD_READY \<or> stat (threads K t) = RT_THREAD_RUNNING \<and> t = rt_current_thread K"
  obtains K1 where "rt_thread_suspend t K = Some (RT_EOK, K1)" "kernel_inv_but {t} K1"
    "threads K1 = (threads K)(t := (threads K t)\<lparr>stat := RT_THREAD_SUSPEND\<rparr>)"
    "rt_current_thread K1 = rt_current_thread K" "\<And>h. tlists K1 h = removeAll t (tlists K h)"
    "rt_scheduler_lock_nest K1 = rt_scheduler_lock_nest K" "kernel.more K1 = kernel.more K" "timer_part K1 = timer_part K"
proof -
  let ?K0 = "set_stat t RT_THREAD_SUSPEND (rt_schedule_remove_thread t K)"
  have idle: "\<not> timer_activated (timers K (Thread_timer t))" using kernel_invD(10)[OF inv, of t] st by auto
  then have eq: "thread_timer_stop t ?K0 = ?K0" by (simp add: thread_timer_stop_def rt_timer_stop_def)
  have "prio_ok (threads K t)" using kernel_invD(6)[OF inv, of t] st by (auto simp: live_def)
  from remove_transit[OF inv this empty_subsetI] have "kernel_inv_but {t} ?K0" by (intro transit_upd)
  moreover have "rt_thread_suspend t K = Some (RT_EOK, ?K0)" using st eq by (auto simp: rt_thread_suspend_def)
  ultimately show ?thesis by (intro that[of ?K0]) simp_all
qed

text \<open>A thread that is not ready is taken out of its list without touching the ready queues.\<close>

lemma unlink_transit:
  assumes inv: "kernel_inv K" and st: "stat (threads K t) \<noteq> RT_THREAD_READY"
  shows "kernel_inv_but {t} (rt_list_remove t K)"
proof -
  note I = kernel_invD[OF inv]
  have nr: "t \<notin> set (tlists K (Ready p))" for p using ready_queue_member(1)[OF inv, of t p] st by auto
  show ?thesis
  proof (rule kernel_invI)
    show "h = h'" if "x \<in> set (tlists (rt_list_remove t K) h)" "x \<in> set (tlists (rt_list_remove t K) h')" for h h' x
      using I(2)[of x h h'] that by simp
    show "x \<in> set (tlists (rt_list_remove t K) (Ready (current_priority (threads (rt_list_remove t K) x))))"
      if "x \<notin> {t}" "stat (threads (rt_list_remove t K) x) = RT_THREAD_READY" for x using I(5)[of x] that by simp
    show "stat (threads (rt_list_remove t K) x) = RT_THREAD_SUSPEND" if "timer_activated (timers (rt_list_remove t K) (Thread_timer x))" for x
      using I(10)[of x] that by simp
  qed (use I(1,4,6,7,8,9) nr in \<open>auto simp: distinct_removeAll removeAll_id\<close>)
qed

lemma resume_correct:
  assumes inv: "kernel_inv K" and st: "stat (threads K t) = RT_THREAD_SUSPEND"
  defines "K' \<equiv> snd (rt_thread_resume t K)"
  shows "kernel_inv K'" "fst (rt_thread_resume t K) = RT_EOK"
    "threads K' = (threads K)(t := (threads K t)\<lparr>stat := if t = rt_current_thread K then RT_THREAD_RUNNING else RT_THREAD_READY\<rparr>)"
    "rt_current_thread K' = rt_current_thread K" "rt_scheduler_lock_nest K' = rt_scheduler_lock_nest K" "kernel.more K' = kernel.more K"
    "\<And>h. (\<And>p. h \<noteq> Ready p) \<Longrightarrow> tlists K' h = removeAll t (tlists K h)"
    "timers K' = (timers K)(Thread_timer t := (timers K (Thread_timer t))\<lparr>timer_activated := False\<rparr>)"
proof -
  let ?K1 = "thread_timer_stop t (rt_list_remove t K)"
  have K': "K' = rt_schedule_insert_thread t ?K1" using st by (simp add: K'_def rt_thread_resume_def)
  show "fst (rt_thread_resume t K) = RT_EOK" using st by (simp add: rt_thread_resume_def)
  have ok: "prio_ok (threads K t)" using kernel_invD(6)[OF inv, of t] st by (simp add: live_def)
  have "kernel_inv_but {t} (rt_list_remove t K)" using st by (intro unlink_transit[OF inv]) simp
  then have tr: "kernel_inv_but {t} ?K1" by (rule transit_timer_stop)
  show "kernel_inv K'" unfolding K' by (rule insert_transit[OF tr]) (use ok in \<open>simp_all add: prio_ok_def\<close>)
qed (use st in \<open>auto simp: K'_def rt_thread_resume_def\<close>)

text \<open>A thread leaves its list for good: it ends in the list of the dead.\<close>

lemma bury_correct:
  assumes inv: "kernel_inv_but {t} K"
  shows "kernel_inv (rt_list_insert_after Thread_defunct t
    (upd_thread t (\<lambda>th. th\<lparr>stat := RT_THREAD_CLOSE, stat_yield := False\<rparr>) (rt_timer_detach (Thread_timer t) K)))"
proof -
  let ?K = "upd_thread t (\<lambda>th. th\<lparr>stat := RT_THREAD_CLOSE, stat_yield := False\<rparr>) (rt_timer_detach (Thread_timer t) K)"
  have inv': "kernel_inv_but {t} ?K" by (intro transit_upd transit_timer_detach inv)
  have "kernel_inv (?K\<lparr>tlists := (tlists ?K)(Thread_defunct := t # tlists ?K Thread_defunct)\<rparr>)"
    using kernel_invD(1)[OF inv'] kernel_invD(3)[OF inv', of t Thread_defunct]
    by (intro transit_place[OF inv']) (auto simp: queue_stat_def live_def)
  then show ?thesis by (simp add: rt_list_insert_after_def)
qed

text \<open>What holds between two calls: the invariant, and the idle thread \<open>i\<close> can always run.\<close>

definition steady :: "nat \<Rightarrow> 'a kernel_scheme \<Rightarrow> bool" where
  "steady i K \<longleftrightarrow> kernel_inv K \<and> stat (threads K (rt_current_thread K)) = RT_THREAD_RUNNING \<and> runnable (threads K i)"

lemma schedule_runnable:
  assumes inv: "kernel_inv K" and i: "runnable (threads K i)" and lock: "rt_scheduler_lock_nest K = 0"
  shows "steady i (rt_schedule K)" "sched_frame K (rt_schedule K)"
    "\<And>x. stat (threads (rt_schedule K) x) = RT_THREAD_READY \<Longrightarrow>
      current_priority (threads (rt_schedule K) (rt_current_thread (rt_schedule K))) \<le> current_priority (threads (rt_schedule K) x)"
proof -
  have run: "stat (threads K (rt_current_thread K)) = RT_THREAD_RUNNING \<or> rt_thread_ready_priority_group K \<noteq> 0"
    using i kernel_invD(7)[OF inv, of i] group_empty[OF inv, of i] by (auto simp: runnable_def)
  note S = rt_schedule_correct[OF inv lock run]
  have "runnable (threads (rt_schedule K) i)" using S(4) i by (simp add: sched_frame_def)
  then show "steady i (rt_schedule K)" using S(1,2) by (simp add: steady_def)
  show "sched_frame K (rt_schedule K)" by (rule S(4))
  show "\<And>x. stat (threads (rt_schedule K) x) = RT_THREAD_READY \<Longrightarrow>
      current_priority (threads (rt_schedule K) (rt_current_thread (rt_schedule K))) \<le> current_priority (threads (rt_schedule K) x)"
    by (rule S(3))
qed

lemma steadyD:
  assumes "steady i K"
  shows "kernel_inv K" "stat (threads K (rt_current_thread K)) = RT_THREAD_RUNNING" "runnable (threads K i)"
  using assms by (simp_all add: steady_def)

lemma schedule_steady:
  assumes "kernel_inv K" "runnable (threads K i)" "rt_scheduler_lock_nest K = 0 \<or> stat (threads K (rt_current_thread K)) = RT_THREAD_RUNNING"
  shows "steady i (rt_schedule K)" "sched_frame K (rt_schedule K)"
proof -
  have "steady i (rt_schedule K) \<and> sched_frame K (rt_schedule K)"
  proof (cases "rt_scheduler_lock_nest K = 0")
    case True
    then show ?thesis using schedule_runnable[OF assms(1,2)] by simp
  next
    case False
    then show ?thesis using assms by (simp add: rt_schedule_def steady_def)
  qed
  then show "steady i (rt_schedule K)" "sched_frame K (rt_schedule K)" by simp_all
qed

lemma live_prio: "kernel_inv K \<Longrightarrow> live (threads K t) \<Longrightarrow> prio_ok (threads K t)"
  using kernel_invD(6)[of "{}" K t] by simp

lemma steady_prio: "steady i K \<Longrightarrow> prio_ok (threads K (rt_current_thread K))"
  by (intro live_prio) (simp_all add: steady_def live_def)

text \<open>Out of transit again after a suspended thread has been put into a queue, or left in none.\<close>

lemma suspend_in_no_list:
  assumes "kernel_inv_but {t} K" "stat (threads K t) = RT_THREAD_SUSPEND" "prio_ok (threads K t)"
  shows "kernel_inv K"
  using assms by (intro transit_end) (simp_all add: live_def)

lemma timer_start_inv:
  assumes st: "thread_timer_start t tick K = Some K'" and inv: "kernel_inv K" and t: "stat (threads K t) = RT_THREAD_SUSPEND"
  shows "kernel_inv K'"
proof -
  note S = thread_timer_start_sel[OF st kernel_invD(9)[OF inv]] and I = kernel_invD[OF inv]
  show ?thesis
  proof (rule kernel_invI)
    show "h = h'" if "x \<in> set (tlists K' h)" "x \<in> set (tlists K' h')" for h h' x using I(2)[of x h h'] that S(2) by simp
    show "stat (threads K' x) = RT_THREAD_SUSPEND" if "timer_activated (timers K' (Thread_timer x))" for x
      using that I(10)[of x] t by (cases "x = t") (simp_all add: S)
  qed (use I(1,3-8) S in auto)
qed

lemma thread_timer_out: "timers_ok K \<Longrightarrow> \<not> timer_activated (timers K x) \<Longrightarrow> x \<notin> linked Hard K \<and> x \<notin> linked Soft K"
  using timers_okD(3,4) by blast

lemma init_transit:
  assumes inv: "kernel_inv_but {t} K" and idle: "\<not> timer_activated (timers K (Thread_timer t))" and K1: "thread_init t p tick K = Some K1"
  shows "kernel_inv_but {t} K1"
proof -
  obtain f where f: "K1 = timer_init (Thread_timer t) 0 False False (upd_thread t f K)" using K1 by (auto simp: thread_init_def split: if_splits)
  have u: "kernel_inv_but {t} (upd_thread t f K)" by (rule transit_upd[OF inv])
  have out: "Thread_timer t \<notin> linked Hard (upd_thread t f K) \<and> Thread_timer t \<notin> linked Soft (upd_thread t f K)"
    using idle by (intro thread_timer_out[OF kernel_invD(9)[OF u]]) simp
  show ?thesis unfolding f
    by (rule transit_timer[OF u timer_init_ok[OF kernel_invD(9)[OF u]]]) (use out in \<open>simp_all add: timer_init_def\<close>)
qed

lemma change_priority_steady:
  assumes s: "steady i K" and p: "p < RT_THREAD_PRIORITY_MAX"
  shows "steady i (change_priority t p K)" "kernel.more (change_priority t p K) = kernel.more K"
    "rt_current_thread (change_priority t p K) = rt_current_thread K"
    "rt_scheduler_lock_nest (change_priority t p K) = rt_scheduler_lock_nest K"
    "\<And>h. (\<And>q. h \<noteq> Ready q) \<Longrightarrow> tlists (change_priority t p K) h = tlists K h"
    "threads (change_priority t p K) = (threads K)(t := (threads K t)\<lparr>current_priority := p, number_mask := push_bit p 1\<rparr>)"
proof -
  note inv = steadyD(1)[OF s]
  let ?set = "upd_thread t (\<lambda>th. th\<lparr>current_priority := p, number_mask := push_bit p 1\<rparr>)" and ?K = "change_priority t p K"
  have th: "threads ?K = (threads K)(t := (threads K t)\<lparr>current_priority := p, number_mask := push_bit p 1\<rparr>)"
    using steadyD(2)[OF s] by (auto simp: change_priority_def Let_def)
  then show "threads ?K = (threads K)(t := (threads K t)\<lparr>current_priority := p, number_mask := push_bit p 1\<rparr>)" .
  show fr: "kernel.more ?K = kernel.more K" "rt_current_thread ?K = rt_current_thread K" "rt_scheduler_lock_nest ?K = rt_scheduler_lock_nest K"
    by (simp_all add: change_priority_def Let_def)
  have ok: "prio_ok ((threads K t)\<lparr>current_priority := p, number_mask := push_bit p 1\<rparr>)" using p by (simp add: prio_ok_def)
  have inv': "kernel_inv ?K"
  proof (cases "stat (threads K t) = RT_THREAD_READY")
    case True
    have "kernel_inv_but {t} (?set (rt_schedule_remove_thread t K))"
      using True by (intro transit_upd remove_transit[OF inv live_prio[OF inv]]) (simp_all add: live_def)
    then show ?thesis using True ok timer_idle[OF inv, of t] by (simp add: change_priority_def Let_def insert_transit)
  next
    case False
    then have K: "?K = ?set K" by (simp add: change_priority_def)
    note I = kernel_invD[OF inv]
    have nr: "t \<notin> set (tlists K (Ready q))" for q using ready_queue_member(1)[OF inv, of t q] False by auto
    show ?thesis unfolding K
    proof (rule kernel_invI)
      show "queue_stat h (threads (?set K) x)" if "x \<in> set (tlists (?set K) h)" for x h
        using that I(4)[of x h] nr by (cases "x = t"; cases h) (auto simp: queue_stat_def)
      show "x \<in> set (tlists (?set K) (Ready (current_priority (threads (?set K) x))))" if "stat (threads (?set K) x) = RT_THREAD_READY" for x
        using that I(5)[of x] False by (cases "x = t") simp_all
      show "prio_ok (threads (?set K) x)" if "live (threads (?set K) x)" for x
        using that I(6)[of x] ok by (cases "x = t") (simp_all add: live_def)
      show "x = rt_current_thread (?set K)" if "stat (threads (?set K) x) = RT_THREAD_RUNNING" for x
        using that I(7)[of x] by (cases "x = t") simp_all
      show "h = h'" if "x \<in> set (tlists (?set K) h)" "x \<in> set (tlists (?set K) h')" for h h' x using I(2)[of x h h'] that by simp
      show "stat (threads (?set K) x) = RT_THREAD_SUSPEND" if "timer_activated (timers (?set K) (Thread_timer x))" for x
        using that I(10)[of x] by (cases "x = t") simp_all
    qed (use I(1,8,9) in auto)
  qed
  then show "steady i ?K" using s by (auto simp: steady_def th fr runnable_def)
  show "tlists ?K h = tlists K h" if "\<And>q. h \<noteq> Ready q" for h
  proof (cases "stat (threads K t) = RT_THREAD_READY")
    case True
    then have "t \<in> set (tlists K (Ready (current_priority (threads K t))))" using kernel_invD(5)[OF inv] by simp
    then have "t \<notin> set (tlists K h)" using other_queue[OF _ inv that] by blast
    then show ?thesis using that by (auto simp: change_priority_def Let_def removeAll_id)
  qed (simp add: change_priority_def Let_def)
qed

lemma sleep_steady:
  assumes s: "steady i K" and c: "rt_current_thread K \<noteq> i" and lock: "rt_scheduler_lock_nest K = 0"
    and tick: "tick < RT_TICK_MAX div 2"
  shows "\<exists>K'. rt_thread_sleep tick K = Some K' \<and> steady i K'"
proof -
  let ?c = "rt_current_thread K"
  obtain K1 where K1: "rt_thread_suspend ?c K = Some (RT_EOK, K1)" "kernel_inv_but {?c} K1"
    "threads K1 = (threads K)(?c := (threads K ?c)\<lparr>stat := RT_THREAD_SUSPEND\<rparr>)"
    "rt_current_thread K1 = ?c" "rt_scheduler_lock_nest K1 = rt_scheduler_lock_nest K"
    using suspend_transit[OF steadyD(1)[OF s], of ?c] steadyD(2)[OF s] by metis
  have inv1: "kernel_inv K1" using K1(2) by (rule suspend_in_no_list) (use steady_prio[OF s] in \<open>simp_all add: K1(3) prio_ok_def\<close>)
  obtain K2 where K2: "thread_timer_start ?c tick K1 = Some K2" using thread_timer_start_total[OF tick] by blast
  have "kernel_inv K2" by (rule timer_start_inv[OF K2 inv1]) (simp add: K1(3))
  note T = this thread_timer_start_sel[OF K2 kernel_invD(9)[OF inv1]]
  have "runnable (threads K2 i)" using steadyD(3)[OF s] c by (simp add: T K1(3))
  from schedule_steady(1)[OF T(1) this] have "steady i (rt_schedule K2)" using lock by (simp add: T K1)
  then show ?thesis using K1(1) K2 by (simp add: rt_thread_sleep_def Let_def)
qed

lemma yield_steady:
  assumes s: "steady i K"
  shows "steady i (snd (rt_thread_yield K))" "\<not> timer_late K \<Longrightarrow> steady i (tick_time_slice K)"
proof -
  have *: "steady i (upd_thread t f K)" if "\<And>th. stat (f th) = stat th" "\<And>th. current_priority (f th) = current_priority th"
    "\<And>th. number_mask (f th) = number_mask th" "steady i K" for t f and K :: "'a kernel_scheme"
    using that by (auto simp: steady_def runnable_def intro: kernel_inv_upd)
  have sched: "steady i (rt_schedule K)" if "steady i K" for K :: "'a kernel_scheme"
    using schedule_steady(1)[of K i] that by (simp add: steady_def)
  show "steady i (snd (rt_thread_yield K))" using s by (simp add: rt_thread_yield_def sched *)
  assume "\<not> timer_late K"
  then have "timers_ok (K\<lparr>rt_tick := rt_tick K + 1\<rparr>)" using kernel_invD(9)[OF steadyD(1)[OF s]] by (intro tick_ok)
  then have "steady i (K\<lparr>rt_tick := rt_tick K + 1\<rparr>)" using s by (auto simp: steady_def kernel_inv_but_def)
  then show "steady i (tick_time_slice K)" by (simp add: tick_time_slice_def Let_def sched *)
qed

lemma sched_frame_stat:
  assumes "sched_frame K K'"
  shows "error (threads K' x) = error (threads K x)" "stat (threads K' x) = RT_THREAD_SUSPEND \<longleftrightarrow> stat (threads K x) = RT_THREAD_SUSPEND"
proof -
  obtain s y where "threads K' x = (threads K x)\<lparr>stat := s, stat_yield := y\<rparr>" using assms unfolding sched_frame_def by blast
  then show "error (threads K' x) = error (threads K x)" by simp
  have a: "stat (threads K x) \<in> {RT_THREAD_INIT, RT_THREAD_SUSPEND, RT_THREAD_CLOSE} \<Longrightarrow> stat (threads K' x) = stat (threads K x)"
    and b: "runnable (threads K x) \<Longrightarrow> runnable (threads K' x)" using assms unfolding sched_frame_def by blast+
  show "stat (threads K' x) = RT_THREAD_SUSPEND \<longleftrightarrow> stat (threads K x) = RT_THREAD_SUSPEND"
    using a b by (cases "stat (threads K x)") (auto simp: runnable_def)
qed

lemma timeout_steady:
  assumes s: "steady i K" and t: "stat (threads K t) = RT_THREAD_SUSPEND" and idle: "\<not> timer_activated (timers K (Thread_timer t))"
  shows "\<exists>K'. rt_thread_timeout t K = Some K' \<and> steady i K' \<and> kernel.more K' = kernel.more K \<and> timer_part K' = timer_part K \<and>
    (\<forall>h. (\<forall>p. h \<noteq> Ready p) \<longrightarrow> tlists K' h = removeAll t (tlists K h)) \<and> error (threads K' t) = - RT_ETIMEOUT \<and>
    runnable (threads K' t) \<and> (\<forall>x. runnable (threads K x) \<longrightarrow> runnable (threads K' x)) \<and>
    (\<forall>x. x \<noteq> t \<longrightarrow> error (threads K' x) = error (threads K x) \<and> (stat (threads K' x) = RT_THREAD_SUSPEND \<longleftrightarrow> stat (threads K x) = RT_THREAD_SUSPEND))"
proof -
  let ?K0 = "upd_thread t (\<lambda>th. th\<lparr>error := - RT_ETIMEOUT\<rparr>) K"
  let ?K1 = "rt_schedule_insert_thread t (rt_list_remove t ?K0)"
  note inv = steadyD(1)[OF s]
  have inv0: "kernel_inv ?K0" using inv by (intro kernel_inv_upd) simp_all
  have "kernel_inv_but {t} (rt_list_remove t ?K0)" using t by (intro unlink_transit[OF inv0]) simp
  then have inv1: "kernel_inv ?K1"
    by (rule insert_transit) (use live_prio[OF inv, of t] t idle in \<open>simp_all add: live_def prio_ok_def\<close>)
  have i: "runnable (threads ?K1 i)" using steadyD(3)[OF s] by (auto simp: runnable_def)
  have c: "stat (threads ?K1 (rt_current_thread ?K1)) = RT_THREAD_RUNNING" using steadyD(2)[OF s] t by auto
  note S = schedule_steady[OF inv1 i disjI2[OF c]]
  have "error (threads (rt_schedule ?K1) t) = error (threads ?K1 t)"
  proof -
    obtain s y where "threads (rt_schedule ?K1) t = (threads ?K1 t)\<lparr>stat := s, stat_yield := y\<rparr>"
      using S(2) unfolding sched_frame_def by blast
    then show ?thesis by simp
  qed
  then have "error (threads (rt_schedule ?K1) t) = - RT_ETIMEOUT" by simp
  moreover have "tlists (rt_schedule ?K1) h = removeAll t (tlists K h)" if "\<forall>p. h \<noteq> Ready p" for h
    using S(2) that by (auto simp: sched_frame_def)
  moreover have "runnable (threads ?K1 t)" by (auto simp: runnable_def)
  then have "runnable (threads (rt_schedule ?K1) t)" using S(2) unfolding sched_frame_def by blast
  moreover have "runnable (threads (rt_schedule ?K1) x)" if "runnable (threads K x)" for x
  proof -
    have "runnable (threads ?K1 x)" using that by (auto simp: runnable_def)
    then show ?thesis using S(2) unfolding sched_frame_def by blast
  qed
  moreover have "error (threads (rt_schedule ?K1) x) = error (threads K x) \<and>
      (stat (threads (rt_schedule ?K1) x) = RT_THREAD_SUSPEND \<longleftrightarrow> stat (threads K x) = RT_THREAD_SUSPEND)" if "x \<noteq> t" for x
    using sched_frame_stat[OF S(2), of x] that by simp
  ultimately show ?thesis using S t by (auto simp: rt_thread_timeout_def sched_frame_def)
qed

lemma start_steady:
  assumes s: "steady i K" and t: "\<not> live (threads K t)" "\<And>h. t \<notin> set (tlists K h)" and p: "p < RT_THREAD_PRIORITY_MAX"
  shows "\<exists>K1 K2. thread_init t p tick K = Some K1 \<and> rt_thread_startup t K1 = Some (RT_EOK, K2) \<and> steady i K2"
proof -
  obtain K1 where K1: "thread_init t p tick K = Some K1" using p by (simp add: thread_init_def)
  have th1: "threads K1 = (threads K)(t := threads K1 t)" "stat (threads K1 t) = RT_THREAD_INIT" "init_priority (threads K1 t) = p"
    "tlists K1 = tlists K" "rt_current_thread K1 = rt_current_thread K" "rt_scheduler_lock_nest K1 = rt_scheduler_lock_nest K"
    using thread_init_sel[OF K1] by simp_all
  let ?f = "\<lambda>th. th\<lparr>current_priority := init_priority th, number_mask := push_bit (init_priority th) 1, stat := RT_THREAD_SUSPEND, stat_yield := False\<rparr>"
  let ?K2 = "upd_thread t ?f K1"
  have tc: "t \<noteq> rt_current_thread K" "t \<noteq> i" using t(1) steadyD(2,3)[OF s] by (auto simp: live_def runnable_def)
  have "kernel_inv_but {t} K" using transit_start[OF steadyD(1)[OF s] t(2)] .
  then have "kernel_inv_but {t} K1" by (rule init_transit[OF _ _ K1]) (use timer_idle[OF steadyD(1)[OF s], of t] t(1) in \<open>simp add: live_def\<close>)
  then have "kernel_inv_but {t} ?K2" by (rule transit_upd)
  then have inv2: "kernel_inv ?K2" by (rule suspend_in_no_list) (use p th1(3) in \<open>simp_all add: prio_ok_def\<close>)
  define K2 where "K2 = ?K2"
  let ?K3 = "snd (rt_thread_resume t K2)"
  have st2: "stat (threads K2 t) = RT_THREAD_SUSPEND" by (simp add: K2_def)
  note R = resume_correct[OF inv2[folded K2_def] st2]
  have th2: "rt_current_thread K2 = rt_current_thread K" "x \<noteq> t \<Longrightarrow> threads K2 x = threads K x" for x
    using fun_cong[OF th1(1), of x] by (simp_all add: K2_def th1(5))
  have cur: "rt_current_thread ?K3 = rt_current_thread K" by (simp add: R(4) th2)
  have run3: "stat (threads ?K3 (rt_current_thread K)) = RT_THREAD_RUNNING" "runnable (threads ?K3 i)"
    using steadyD(2,3)[OF s] tc by (simp_all add: R(3) th2)
  have "steady i (if rt_current_thread ?K3 \<noteq> 0 then rt_schedule ?K3 else ?K3)"
  proof -
    have "steady i ?K3" using R(1) run3 by (simp add: steady_def cur)
    moreover have "steady i (rt_schedule ?K3)" using schedule_steady(1)[OF R(1) run3(2)] run3(1) by (simp add: cur)
    ultimately show ?thesis by simp
  qed
  then show ?thesis using K1 th1(2) unfolding rt_thread_startup_def Let_def K2_def by auto
qed

lemma exit_steady:
  assumes s: "steady i K" and c: "rt_current_thread K \<noteq> i" and lock: "rt_scheduler_lock_nest K = 0"
  shows "steady i (thread_exit K)"
proof -
  let ?c = "rt_current_thread K"
  have "kernel_inv_but {?c} (rt_schedule_remove_thread ?c K)" using remove_transit[OF steadyD(1)[OF s] steady_prio[OF s]] by simp
  from bury_correct[OF this] show ?thesis
    unfolding thread_exit_def Let_def
    by (rule schedule_steady) (use steadyD(3)[OF s] c lock in simp_all)
qed

lemma detach_steady:
  assumes s: "steady i K" and t: "t \<noteq> rt_current_thread K" "t \<noteq> i" "live (threads K t)"
  shows "steady i (snd (rt_thread_detach t K))"
proof -
  have "kernel_inv_but {t} (rt_schedule_remove_thread t K)"
    using remove_transit[OF steadyD(1)[OF s] live_prio[OF steadyD(1)[OF s] t(3)]] by simp
  from bury_correct[OF this] show ?thesis using s t by (auto simp: rt_thread_detach_def steady_def live_def)
qed

lemma resume_steady:
  assumes s: "steady i K" and t: "stat (threads K t) = RT_THREAD_SUSPEND"
  shows "steady i (snd (rt_thread_resume t K))"
  using resume_correct[OF steadyD(1)[OF s] t] steadyD(2,3)[OF s] t by (auto simp: steady_def runnable_def)

lemma suspend_steady:
  assumes s: "steady i K" and t: "stat (threads K t) = RT_THREAD_READY" "t \<noteq> i"
  shows "\<exists>K'. rt_thread_suspend t K = Some (RT_EOK, K') \<and> steady i K'"
proof -
  have "stat (threads K t) = RT_THREAD_READY \<or> stat (threads K t) = RT_THREAD_RUNNING \<and> t = rt_current_thread K" using t by simp
  from suspend_transit[OF steadyD(1)[OF s] this]
  obtain K' where K': "rt_thread_suspend t K = Some (RT_EOK, K')" "kernel_inv_but {t} K'"
    "threads K' = (threads K)(t := (threads K t)\<lparr>stat := RT_THREAD_SUSPEND\<rparr>)"
    "rt_current_thread K' = rt_current_thread K" by metis
  have "kernel_inv K'" using K'(2)
    by (rule suspend_in_no_list) (use live_prio[OF steadyD(1)[OF s], of t] t in \<open>simp_all add: K'(3) prio_ok_def live_def\<close>)
  then show ?thesis using K' steadyD(2,3)[OF s] t by (auto simp: steady_def)
qed

lemma critical_steady:
  assumes s: "steady i K"
  shows "steady i (rt_enter_critical K)" "steady i (rt_exit_critical K)"
proof -
  have *: "steady i (K\<lparr>rt_scheduler_lock_nest := n\<rparr>)" for n using s by (simp add: steady_def kernel_inv_but_def)
  show "steady i (rt_enter_critical K)" unfolding rt_enter_critical_def by (rule *)
  have "steady i (rt_schedule (K\<lparr>rt_scheduler_lock_nest := 0\<rparr>))"
    using schedule_steady(1)[of "K\<lparr>rt_scheduler_lock_nest := 0\<rparr>" i] *[of 0] by (simp add: steady_def)
  then show "steady i (rt_exit_critical K)" using * by (simp add: rt_exit_critical_def Let_def)
qed

lemma dequeue_steady:
  assumes s: "steady i K"
  shows "steady i (snd (rt_thread_defunct_dequeue K))"
proof (cases "tlists K Thread_defunct")
  case (Cons t ts)
  have st: "stat (threads K t) = RT_THREAD_CLOSE"
    using kernel_invD(4)[OF steadyD(1)[OF s], of t Thread_defunct] Cons by (simp add: queue_stat_def)
  then have "kernel_inv_but {t} (rt_list_remove t K)" by (intro unlink_transit[OF steadyD(1)[OF s]]) simp
  then have "kernel_inv (rt_list_remove t K)"
    by (rule transit_end) (use timer_idle[OF steadyD(1)[OF s], of t] in \<open>simp_all add: st live_def\<close>)
  then show ?thesis using s Cons by (simp add: rt_thread_defunct_dequeue_def steady_def)
qed (simp add: rt_thread_defunct_dequeue_def s)

end
