(* ===== verification/Ipc_Inv.thy ===== *)
theory Ipc_Inv
  imports Ipc Scheduler_Inv
begin

text \<open>
  Waiting and waking preserve the invariant of the scheduler; the invariants of the objects; the calls of
  \<^verbatim>\<open>ipc.c\<close> as the steps of a relation and what holds after every history of them.
\<close>

section \<open>Frames\<close>

lemma more_fields:
  fixes K K' :: ipc
  assumes "kernel.more K' = kernel.more K"
  shows "sems K' = sems K" "mutexes K' = mutexes K" "events K' = events K" "mailboxes K' = mailboxes K"
    "msgqueues K' = msgqueues K"
  using assms by (cases K; cases K'; simp)+

lemma upd_obj_sel [simp]:
  "threads (upd_sem a f K) = threads K" "threads (upd_mutex a g K) = threads K" "threads (upd_event a e K) = threads K"
  "threads (upd_mailbox a b K) = threads K" "tlists (upd_sem a f K) = tlists K" "tlists (upd_mutex a g K) = tlists K"
  "tlists (upd_event a e K) = tlists K" "tlists (upd_mailbox a b K) = tlists K"
  "rt_current_thread (upd_sem a f K) = rt_current_thread K" "rt_current_thread (upd_mutex a g K) = rt_current_thread K"
  "rt_current_thread (upd_event a e K) = rt_current_thread K" "rt_current_thread (upd_mailbox a b K) = rt_current_thread K"
  "rt_scheduler_lock_nest (upd_sem a f K) = rt_scheduler_lock_nest K" "rt_scheduler_lock_nest (upd_mutex a g K) = rt_scheduler_lock_nest K"
  "rt_scheduler_lock_nest (upd_event a e K) = rt_scheduler_lock_nest K" "rt_scheduler_lock_nest (upd_mailbox a b K) = rt_scheduler_lock_nest K"
  "sems (upd_sem a f K) = (sems K)(a := f (sems K a))" "sems (upd_mutex a g K) = sems K" "sems (upd_event a e K) = sems K"
  "sems (upd_mailbox a b K) = sems K" "mutexes (upd_sem a f K) = mutexes K" "mutexes (upd_mutex a g K) = (mutexes K)(a := g (mutexes K a))"
  "mutexes (upd_event a e K) = mutexes K" "mutexes (upd_mailbox a b K) = mutexes K" "events (upd_sem a f K) = events K"
  "events (upd_mutex a g K) = events K" "events (upd_event a e K) = (events K)(a := e (events K a))" "events (upd_mailbox a b K) = events K"
  "mailboxes (upd_sem a f K) = mailboxes K" "mailboxes (upd_mutex a g K) = mailboxes K" "mailboxes (upd_event a e K) = mailboxes K"
  "mailboxes (upd_mailbox a b K) = (mailboxes K)(a := b (mailboxes K a))"
  "msgqueues (upd_sem a f K) = msgqueues K" "msgqueues (upd_mutex a g K) = msgqueues K" "msgqueues (upd_event a e K) = msgqueues K"
  "msgqueues (upd_mailbox a b K) = msgqueues K"
  by (simp_all add: upd_sem_def upd_mutex_def upd_event_def upd_mailbox_def)

lemma upd_mq_sel [simp]:
  "threads (upd_mq a f K) = threads K" "tlists (upd_mq a f K) = tlists K" "rt_current_thread (upd_mq a f K) = rt_current_thread K"
  "rt_scheduler_lock_nest (upd_mq a f K) = rt_scheduler_lock_nest K" "sems (upd_mq a f K) = sems K" "mutexes (upd_mq a f K) = mutexes K"
  "events (upd_mq a f K) = events K" "mailboxes (upd_mq a f K) = mailboxes K"
  "msgqueues (upd_mq a f K) = (msgqueues K)(a := f (msgqueues K a))"
  by (simp_all add: upd_mq_def)

lemma obj_timers [simp]:
  "timer_part (upd_sem a f K) = timer_part K" "timer_part (upd_mutex a g K) = timer_part K" "timer_part (upd_event a e K) = timer_part K"
  "timer_part (upd_mailbox a b K) = timer_part K" "timer_part (upd_mq a q K) = timer_part K"
  "timers (upd_sem a f K) = timers K" "timers (upd_mutex a g K) = timers K" "timers (upd_event a e K) = timers K"
  "timers (upd_mailbox a b K) = timers K" "timers (upd_mq a q K) = timers K"
  "timers_ok (upd_sem a f K) = timers_ok K" "timers_ok (upd_mutex a g K) = timers_ok K" "timers_ok (upd_event a e K) = timers_ok K"
  "timers_ok (upd_mailbox a b K) = timers_ok K" "timers_ok (upd_mq a q K) = timers_ok K"
proof -
  show *: "timer_part (upd_sem a f K) = timer_part K" "timer_part (upd_mutex a g K) = timer_part K" "timer_part (upd_event a e K) = timer_part K"
    "timer_part (upd_mailbox a b K) = timer_part K" "timer_part (upd_mq a q K) = timer_part K"
    by (simp_all add: upd_sem_def upd_mutex_def upd_event_def upd_mailbox_def upd_mq_def timer_system.defs)
  show "timers_ok (upd_sem a f K) = timers_ok K" "timers_ok (upd_mutex a g K) = timers_ok K" "timers_ok (upd_event a e K) = timers_ok K"
    "timers_ok (upd_mailbox a b K) = timers_ok K" "timers_ok (upd_mq a q K) = timers_ok K" by (intro timers_ok_cong *)+
qed (simp_all add: upd_sem_def upd_mutex_def upd_event_def upd_mailbox_def upd_mq_def)

lemma obj_group [simp]:
  "rt_thread_ready_priority_group (upd_sem a f K) = rt_thread_ready_priority_group K"
  "rt_thread_ready_priority_group (upd_mutex a g K) = rt_thread_ready_priority_group K"
  "rt_thread_ready_priority_group (upd_event a e K) = rt_thread_ready_priority_group K"
  "rt_thread_ready_priority_group (upd_mailbox a b K) = rt_thread_ready_priority_group K"
  "rt_thread_ready_priority_group (upd_mq a q K) = rt_thread_ready_priority_group K"
  by (simp_all add: upd_sem_def upd_mutex_def upd_event_def upd_mailbox_def upd_mq_def)

lemma kernel_inv_obj [simp]:
  "kernel_inv_but T (upd_sem a f K) = kernel_inv_but T K" "kernel_inv_but T (upd_mutex a g K) = kernel_inv_but T K"
  "kernel_inv_but T (upd_event a e K) = kernel_inv_but T K" "kernel_inv_but T (upd_mailbox a b K) = kernel_inv_but T K"
  "kernel_inv_but T (upd_mq a q K) = kernel_inv_but T K"
  by (simp_all add: kernel_inv_but_def)

lemma steady_obj [simp]:
  "steady i (upd_sem a f K) = steady i K" "steady i (upd_mutex a g K) = steady i K" "steady i (upd_event a e K) = steady i K"
  "steady i (upd_mailbox a b K) = steady i K" "steady i (upd_mq a q K) = steady i K"
  by (simp_all add: steady_def)

lemma upd_thread_objs [simp]:
  "sems (upd_thread t f K) = sems K" "mutexes (upd_thread t f K) = mutexes K" "events (upd_thread t f K) = events K"
  "mailboxes (upd_thread t f K) = mailboxes K" "msgqueues (upd_thread t f K) = msgqueues K"
  by (simp_all add: upd_thread_def)

lemma steady_upd:
  assumes "steady i K" "stat (f (threads K t)) = stat (threads K t)" "current_priority (f (threads K t)) = current_priority (threads K t)"
    "number_mask (f (threads K t)) = number_mask (threads K t)"
  shows "steady i (upd_thread t f K)"
  using assms kernel_inv_upd[of K f t] by (auto simp: steady_def runnable_def)

section \<open>Waiting queues\<close>

lemma insert_prio_eq:
  "insert_prio f t xs = takeWhile (\<lambda>s. f s \<le> f t) xs @ t # dropWhile (\<lambda>s. f s \<le> f t) xs"
  by (induction xs) auto

lemma insert_prio_set [simp]: "set (insert_prio f t xs) = insert t (set xs)"
  by (induction xs) auto

lemma insert_prio_distinct [simp]: "distinct (insert_prio f t xs) \<longleftrightarrow> distinct xs \<and> t \<notin> set xs"
  by (induction xs) auto

lemma insert_prio_sorted: "sorted_wrt (\<lambda>x y. f x \<le> f y) xs \<Longrightarrow> sorted_wrt (\<lambda>x y. f x \<le> f y) (insert_prio f t xs)"
  by (induction xs) (auto intro: less_imp_le le_trans)

text \<open>The place of a new waiter: behind all, or in front of the first thread of lower priority.\<close>

definition enqueued :: "ipc_flag \<Rightarrow> (nat \<Rightarrow> nat) \<Rightarrow> nat \<Rightarrow> nat list \<Rightarrow> nat list" where
  "enqueued flag prio t q = (case flag of RT_IPC_FLAG_FIFO \<Rightarrow> q @ [t] | RT_IPC_FLAG_PRIO \<Rightarrow> insert_prio prio t q)"

lemma enqueued_set [simp]: "set (enqueued flag f t q) = insert t (set q)" "distinct (enqueued flag f t q) \<longleftrightarrow> distinct q \<and> t \<notin> set q"
  by (auto simp: enqueued_def split: ipc_flag.split)

definition wait_head :: "list_head \<Rightarrow> bool" where
  "wait_head h \<longleftrightarrow> (\<exists>ob. h = Suspend_thread ob \<or> h = Suspend_sender ob)"

lemma wait_head_simps [simp]: "wait_head (Suspend_thread ob)" "wait_head (Suspend_sender ob)" "\<not> wait_head (Ready p)" "\<not> wait_head Thread_defunct"
  by (simp_all add: wait_head_def)

lemma wait_head_stat: "wait_head h \<Longrightarrow> queue_stat h th \<longleftrightarrow> stat th = RT_THREAD_SUSPEND"
  by (auto simp: wait_head_def queue_stat_def)

lemma waiter_suspended: "kernel_inv_but T K \<Longrightarrow> wait_head h \<Longrightarrow> t \<in> set (tlists K h) \<Longrightarrow> stat (threads K t) = RT_THREAD_SUSPEND"
  using kernel_invD(4)[of T K t h] wait_head_stat by blast

definition timeout_ok :: "int \<Rightarrow> bool" where
  "timeout_ok time \<longleftrightarrow> time < 2 ^ 31 - 1"

text \<open>
  The running thread suspends itself, is put into a queue \<open>h\<close> that then is \<open>q\<close>, starts its timer and lets another thread
  run: it waits, the rest is as before.
\<close>

lemma place_wait_correct:
  fixes K :: "'a kernel_scheme"
  assumes s: "steady i K" and c: "rt_current_thread K \<noteq> i" and lock: "rt_scheduler_lock_nest K = 0"
    and h: "wait_head h" and time: "timeout_ok time"
    and t_def: "t = rt_current_thread K" and q: "set q = insert t (set (tlists K h))" "distinct q"
  shows "\<exists>K1 K3. rt_thread_suspend t K = Some (RT_EOK, K1) \<and> tlists K1 = tlists K \<and>
    (\<forall>x. current_priority (threads K1 x) = current_priority (threads K x)) \<and>
    start_timeout t time (K1\<lparr>tlists := (tlists K1)(h := q)\<rparr>) = Some K3 \<and>
    steady i (rt_schedule K3) \<and> kernel.more (rt_schedule K3) = kernel.more K \<and> rt_scheduler_lock_nest (rt_schedule K3) = 0 \<and>
    tlists (rt_schedule K3) h = q \<and> (\<forall>g. wait_head g \<and> g \<noteq> h \<longrightarrow> tlists (rt_schedule K3) g = tlists K g) \<and>
    stat (threads (rt_schedule K3) t) = RT_THREAD_SUSPEND \<and> error (threads (rt_schedule K3) t) = error (threads K t) \<and>
    rt_current_thread (rt_schedule K3) \<noteq> t \<and>
    (\<forall>x. current_priority (threads (rt_schedule K3) x) = current_priority (threads K x)) \<and> rt_tick (rt_schedule K3) = rt_tick K \<and>
    (timer_activated (timers (rt_schedule K3) (Thread_timer t)) \<longleftrightarrow> time > 0) \<and>
    (time > 0 \<longrightarrow> timeout_tick (timers (rt_schedule K3) (Thread_timer t)) = rt_tick K + word_of_int time \<and>
       linked Hard (rt_schedule K3) = insert (Thread_timer t) (linked Hard K) \<and>
       (\<forall>x. x \<noteq> Thread_timer t \<longrightarrow> timers (rt_schedule K3) x = timers K x))"
proof -
  obtain K1 where K1: "rt_thread_suspend t K = Some (RT_EOK, K1)" "kernel_inv_but {t} K1"
    "threads K1 = (threads K)(t := (threads K t)\<lparr>stat := RT_THREAD_SUSPEND\<rparr>)"
    "rt_current_thread K1 = t" "\<And>h. tlists K1 h = removeAll t (tlists K h)"
    "rt_scheduler_lock_nest K1 = 0" "kernel.more K1 = kernel.more K" "timer_part K1 = timer_part K"
    using suspend_transit[OF steadyD(1)[OF s], of t] steadyD(2)[OF s] lock unfolding t_def by metis
  note tp = truncate_fields(1-3)[OF K1(8)]
  have idle: "\<not> timer_activated (timers K (Thread_timer t))"
    using timer_idle[OF steadyD(1)[OF s], of t] steadyD(2)[OF s] by (simp add: t_def)
  have out: "t \<notin> set (tlists K g)" for g using running_in_no_list[OF steadyD(1)[OF s] steadyD(2)[OF s]] by (simp add: t_def)
  have l1: "tlists K1 g = tlists K g" for g using out[of g] by (simp add: K1(5) removeAll_id)
  let ?K2 = "K1\<lparr>tlists := (tlists K1)(h := q)\<rparr>"
  have inv2: "kernel_inv ?K2"
  proof (rule transit_place[OF K1(2)])
    show "queue_stat h (threads K1 t)" using h by (simp add: wait_head_stat K1(3))
    show "live (threads K1 t) \<Longrightarrow> prio_ok (threads K1 t)" using steady_prio[OF s] by (simp add: K1(3) prio_ok_def t_def)
    show "set q = insert t (set (tlists K1 h))" by (simp add: l1 q(1))
    show "stat (threads K1 t) = RT_THREAD_SUSPEND" by (simp add: K1(3))
  qed (use h q(2) in auto)
  obtain K3 where K3: "start_timeout t time ?K2 = Some K3" "kernel_inv K3" "tlists K3 = tlists ?K2" "rt_current_thread K3 = t"
    "rt_scheduler_lock_nest K3 = 0" "kernel.more K3 = kernel.more K"
    "\<And>x. stat (threads K3 x) = stat (threads ?K2 x) \<and> error (threads K3 x) = error (threads ?K2 x) \<and>
       current_priority (threads K3 x) = current_priority (threads ?K2 x)" "rt_tick K3 = rt_tick K"
    "timer_activated (timers K3 (Thread_timer t)) \<longleftrightarrow> time > 0"
    "time > 0 \<longrightarrow> timeout_tick (timers K3 (Thread_timer t)) = rt_tick K + word_of_int time \<and>
       linked Hard K3 = insert (Thread_timer t) (linked Hard K) \<and> (\<forall>x. x \<noteq> Thread_timer t \<longrightarrow> timers K3 x = timers K x)"
  proof (cases "time > 0")
    case True
    have "unat (word_of_int time :: u32) = nat time"
      using True time by (simp add: timeout_ok_def unat_eq_nat_uint uint_word_of_int)
    then have "(word_of_int time :: u32) < RT_TICK_MAX div 2"
      using True time by (simp add: timeout_ok_def tick_window_def tick_half_less)
    then obtain K3 where k: "thread_timer_start t (word_of_int time) ?K2 = Some K3" using thread_timer_start_total by blast
    have "kernel_inv K3" by (rule timer_start_inv[OF k inv2]) (simp add: K1(3))
    note T = this thread_timer_start_sel[OF k kernel_invD(9)[OF inv2]]
    show ?thesis by (rule that[of K3]) (use k True T K1 tp in \<open>simp_all add: start_timeout_def linked_def\<close>)
  next
    case False
    show ?thesis by (rule that[of ?K2]) (use False inv2 K1 tp idle in \<open>simp_all add: start_timeout_def\<close>)
  qed
  have i: "runnable (threads K3 i)" using steadyD(3)[OF s] c K3(7)[of i] by (simp add: runnable_def K1(3) t_def)
  note S = schedule_steady[OF K3(2) i disjI1[OF K3(5)]]
  have st: "stat (threads K3 t) = RT_THREAD_SUSPEND" "error (threads K3 t) = error (threads K t)" using K3(7)[of t] by (simp_all add: K1(3))
  have st': "stat (threads (rt_schedule K3) t) = RT_THREAD_SUSPEND" using S(2) st(1) by (simp add: sched_frame_def)
  obtain s' y where "threads (rt_schedule K3) t = (threads K3 t)\<lparr>stat := s', stat_yield := y\<rparr>"
    using S(2) unfolding sched_frame_def by blast
  then have er: "error (threads (rt_schedule K3) t) = error (threads K t)" using st by simp
  have tp3: "rt_tick (rt_schedule K3) = rt_tick K" "timers (rt_schedule K3) = timers K3" "linked Hard (rt_schedule K3) = linked Hard K3"
    using S(2) K3(8) truncate_fields(1-3)[of "rt_schedule K3" K3] by (simp_all add: sched_frame_def linked_def)
  have pr: "current_priority (threads (rt_schedule K3) x) = current_priority (threads K x)" for x
  proof -
    obtain s' y where "threads (rt_schedule K3) x = (threads K3 x)\<lparr>stat := s', stat_yield := y\<rparr>" using S(2) unfolding sched_frame_def by blast
    then show ?thesis using K3(7)[of x] by (simp add: K1(3))
  qed
  have ne: "rt_current_thread (rt_schedule K3) \<noteq> t" using steadyD(2)[OF S(1)] st' by auto
  have ls: "tlists (rt_schedule K3) g = (if g = h then q else tlists K g)" if "wait_head g" for g
  proof -
    have "\<forall>p. g \<noteq> Ready p" using that by auto
    then show ?thesis using S(2) by (auto simp: sched_frame_def K3(3) l1)
  qed
  have l: "tlists K1 = tlists K" "\<forall>x. current_priority (threads K1 x) = current_priority (threads K x)" by (auto simp: l1 K1(3))
  show ?thesis
    by (rule exI[of _ K1], rule exI[of _ K3]) (use K1(1) l S(1,2) st' er pr ne h ls K3(1,5,6,9,10) tp3 in \<open>auto simp: sched_frame_def\<close>)
qed

text \<open>Waiting: the running thread is in the queue, another one runs, the objects are as before.\<close>

lemma wait_on_correct:
  assumes s: "steady i K" and c: "rt_current_thread K \<noteq> i" and lock: "rt_scheduler_lock_nest K = 0"
    and h: "wait_head h" and time: "timeout_ok time"
  defines "t \<equiv> rt_current_thread K"
  shows "\<exists>K'. wait_on h flag time K = Blocked K' \<and> steady i K' \<and> kernel.more K' = kernel.more K \<and> rt_scheduler_lock_nest K' = 0 \<and>
    tlists K' h = enqueued flag (\<lambda>x. current_priority (threads K x)) t (tlists K h) \<and>
    (\<forall>g. wait_head g \<and> g \<noteq> h \<longrightarrow> tlists K' g = tlists K g) \<and>
    stat (threads K' t) = RT_THREAD_SUSPEND \<and> error (threads K' t) = error (threads K t) \<and> rt_current_thread K' \<noteq> t \<and>
    (\<forall>x. current_priority (threads K' x) = current_priority (threads K x)) \<and> rt_tick K' = rt_tick K \<and>
    (timer_activated (timers K' (Thread_timer t)) \<longleftrightarrow> time > 0) \<and>
    (time > 0 \<longrightarrow> timeout_tick (timers K' (Thread_timer t)) = rt_tick K + word_of_int time \<and>
       linked Hard K' = insert (Thread_timer t) (linked Hard K) \<and> (\<forall>x. x \<noteq> Thread_timer t \<longrightarrow> timers K' x = timers K x))"
proof -
  let ?q = "enqueued flag (\<lambda>x. current_priority (threads K x)) t (tlists K h)"
  have "t \<notin> set (tlists K h)" using running_in_no_list[OF steadyD(1)[OF s] steadyD(2)[OF s]] by (simp add: t_def)
  then have q: "set ?q = insert t (set (tlists K h))" "distinct ?q" using kernel_invD(1)[OF steadyD(1)[OF s]] by simp_all
  from place_wait_correct[OF s c lock h time meta_eq_to_obj_eq[OF t_def] q] obtain K1 K3 where
    K1: "rt_thread_suspend t K = Some (RT_EOK, K1)" "tlists K1 = tlists K" "\<forall>x. current_priority (threads K1 x) = current_priority (threads K x)"
    and K3: "start_timeout t time (K1\<lparr>tlists := (tlists K1)(h := ?q)\<rparr>) = Some K3" "steady i (rt_schedule K3)"
      "kernel.more (rt_schedule K3) = kernel.more K" "rt_scheduler_lock_nest (rt_schedule K3) = 0"
      "tlists (rt_schedule K3) h = ?q" "\<forall>g. wait_head g \<and> g \<noteq> h \<longrightarrow> tlists (rt_schedule K3) g = tlists K g"
      "stat (threads (rt_schedule K3) t) = RT_THREAD_SUSPEND" "error (threads (rt_schedule K3) t) = error (threads K t)"
      "rt_current_thread (rt_schedule K3) \<noteq> t" "\<forall>x. current_priority (threads (rt_schedule K3) x) = current_priority (threads K x)"
      "rt_tick (rt_schedule K3) = rt_tick K" "timer_activated (timers (rt_schedule K3) (Thread_timer t)) \<longleftrightarrow> time > 0"
      "time > 0 \<longrightarrow> timeout_tick (timers (rt_schedule K3) (Thread_timer t)) = rt_tick K + word_of_int time \<and>
       linked Hard (rt_schedule K3) = insert (Thread_timer t) (linked Hard K) \<and>
       (\<forall>x. x \<noteq> Thread_timer t \<longrightarrow> timers (rt_schedule K3) x = timers K x)" by blast
  have prio: "(\<lambda>x. current_priority (threads K1 x)) = (\<lambda>x. current_priority (threads K x))" using K1(3) by auto
  have "ipc_list_suspend h t flag K = Some (K1\<lparr>tlists := (tlists K1)(h := ?q)\<rparr>)"
    by (cases flag) (simp_all add: ipc_list_suspend_def K1(1,2) rt_list_insert_before_def enqueued_def prio)
  then have "wait_on h flag time K = Blocked (rt_schedule K3)" using K3(1) by (simp add: wait_on_def Let_def t_def)
  then show ?thesis using K3 by blast
qed

text \<open>Waking the first thread of a queue.\<close>

lemma ipc_list_resume_correct:
  assumes s: "steady i K" and h: "wait_head h" and q: "tlists K h = t # ts"
  defines "K' \<equiv> ipc_list_resume h K"
  shows "steady i K'" "kernel.more K' = kernel.more K" "tlists K' h = ts" "\<And>g. wait_head g \<Longrightarrow> g \<noteq> h \<Longrightarrow> tlists K' g = tlists K g"
    "threads K' = (threads K)(t := (threads K t)\<lparr>stat := RT_THREAD_READY\<rparr>)"
    "rt_scheduler_lock_nest K' = rt_scheduler_lock_nest K" "rt_current_thread K' = rt_current_thread K"
    "timers K' = (timers K)(Thread_timer t := (timers K (Thread_timer t))\<lparr>timer_activated := False\<rparr>)"
proof -
  have st: "stat (threads K t) = RT_THREAD_SUSPEND" using waiter_suspended[OF steadyD(1)[OF s] h] q by simp
  have tc: "t \<noteq> rt_current_thread K" using st steadyD(2)[OF s] by auto
  have K': "K' = snd (rt_thread_resume t K)" by (simp add: K'_def ipc_list_resume_def q)
  note R = resume_correct[OF steadyD(1)[OF s] st, folded K']
  show "steady i K'" unfolding K' by (rule resume_steady[OF s st])
  show "kernel.more K' = kernel.more K" "rt_scheduler_lock_nest K' = rt_scheduler_lock_nest K" "rt_current_thread K' = rt_current_thread K"
    "timers K' = (timers K)(Thread_timer t := (timers K (Thread_timer t))\<lparr>timer_activated := False\<rparr>)"
    by (rule R)+
  show "threads K' = (threads K)(t := (threads K t)\<lparr>stat := RT_THREAD_READY\<rparr>)" using R(3) tc by simp
  have nr: "\<And>p. g \<noteq> Ready p" if "wait_head g" for g using that by auto
  have d: "distinct (t # ts)" using kernel_invD(1)[OF steadyD(1)[OF s], of h] q by simp
  show "tlists K' h = ts" using R(7)[OF nr[OF h]] d q by (simp add: removeAll_id)
  show "tlists K' g = tlists K g" if "wait_head g" "g \<noteq> h" for g
  proof -
    have "t \<notin> set (tlists K g)" using kernel_invD(2)[OF steadyD(1)[OF s], of t g h] that(2) q by auto
    then show ?thesis using R(7)[OF nr[OF that(1)]] by (simp add: removeAll_id)
  qed
qed

text \<open>Waking them all, with an error: the loop ends, because every waiter is suspended.\<close>

lemma ipc_list_resume_all_correct:
  assumes "steady i K" "wait_head h"
  shows "\<exists>K'. ipc_list_resume_all h K = Some K' \<and> steady i K' \<and> kernel.more K' = kernel.more K \<and> tlists K' h = [] \<and>
    (\<forall>g. wait_head g \<and> g \<noteq> h \<longrightarrow> tlists K' g = tlists K g) \<and>
    (\<forall>t\<in>set (tlists K h). stat (threads K' t) = RT_THREAD_READY \<and> error (threads K' t) = - RT_ERROR) \<and>
    (\<forall>t. t \<notin> set (tlists K h) \<longrightarrow> threads K' t = threads K t) \<and> rt_scheduler_lock_nest K' = rt_scheduler_lock_nest K \<and>
    rt_current_thread K' = rt_current_thread K"
  using assms
proof (induction "tlists K h" arbitrary: K)
  case Nil
  then show ?case by (simp add: ipc_list_resume_all.simps)
next
  case (Cons t ts)
  let ?K0 = "set_error t (- RT_ERROR) K"
  have s0: "steady i ?K0" by (rule steady_upd) (use Cons.prems in simp_all)
  have q0: "tlists ?K0 h = t # ts" using Cons.hyps(2) by simp
  define K1 where "K1 = ipc_list_resume h ?K0"
  note R = ipc_list_resume_correct[OF s0 Cons.prems(2) q0, folded K1_def]
  have K1: "K1 = snd (rt_thread_resume t ?K0)" by (simp only: K1_def ipc_list_resume_def q0 list.sel)
  from Cons.hyps(1)[OF R(3)[symmetric] R(1) Cons.prems(2)] obtain K' where K': "ipc_list_resume_all h K1 = Some K'" "steady i K'"
    "kernel.more K' = kernel.more K1" "tlists K' h = []" "\<forall>g. wait_head g \<and> g \<noteq> h \<longrightarrow> tlists K' g = tlists K1 g"
    "\<forall>t\<in>set (tlists K1 h). stat (threads K' t) = RT_THREAD_READY \<and> error (threads K' t) = - RT_ERROR"
    "\<forall>t. t \<notin> set (tlists K1 h) \<longrightarrow> threads K' t = threads K1 t" "rt_scheduler_lock_nest K' = rt_scheduler_lock_nest K1"
    "rt_current_thread K' = rt_current_thread K1" by blast
  have d: "t \<notin> set ts" using kernel_invD(1)[OF steadyD(1)[OF Cons.prems(1)], of h] Cons.hyps(2) by (metis distinct.simps(2))
  have "threads K' x = threads K1 x" if "x \<notin> set ts" for x using K'(7) that R(3) by auto
  then have th: "threads K' t = (threads K t)\<lparr>error := - RT_ERROR, stat := RT_THREAD_READY\<rparr>"
    "\<And>x. x \<notin> set (t # ts) \<Longrightarrow> threads K' x = threads K x" using d by (auto simp: R(5))
  have "ipc_list_resume_all h K = Some K'"
    using Cons.hyps(2)[symmetric] K'(1) by (subst ipc_list_resume_all.simps) (simp add: K1)
  moreover have "stat (threads K' x) = RT_THREAD_READY \<and> error (threads K' x) = - RT_ERROR" if "x \<in> set (tlists K h)" for x
    using that K'(6) R(3) th(1) Cons.hyps(2)[symmetric] by auto
  ultimately show ?case using K' R th(2) Cons.hyps(2)[symmetric] by (intro exI[of _ K']) (auto simp: R)
qed

section \<open>Calls that only shorten waiting queues\<close>

definition calm :: "'a kernel_scheme \<Rightarrow> 'a kernel_scheme \<Rightarrow> bool" where
  "calm K K' \<longleftrightarrow> kernel.more K' = kernel.more K \<and> (\<forall>h. wait_head h \<longrightarrow> set (tlists K' h) \<subseteq> set (tlists K h))"

named_theorems calms \<open>operations that only shorten waiting queues\<close>

lemma calm_refl [calms]: "calm K K"
  by (simp add: calm_def)

lemma calm_trans: "calm K K1 \<Longrightarrow> calm K1 K2 \<Longrightarrow> calm K K2"
  unfolding calm_def by (metis subset_trans)

lemma calm_prims [calms]:
  "calm K (upd_thread t f K)" "calm K (rt_schedule_remove_thread t K)" "calm K (rt_schedule_insert_thread t K)"
  "calm K (rt_list_remove t K)" "calm K (rt_list_insert_after Thread_defunct t K)" "calm K (thread_timer_stop t K)"
  "calm K (K\<lparr>rt_scheduler_lock_nest := n\<rparr>)" "calm K (K\<lparr>rt_tick := n'\<rparr>)" "calm K (K\<lparr>rt_current_priority := p, rt_current_thread := c\<rparr>)"
  "calm K (rt_timer_detach x K)" "calm K (upd_timer x g K)"
  by (auto simp: calm_def)

lemma calm_switch [calms]: "calm K (switch_to t p ins K)"
  unfolding switch_to_def Let_def
  by (cases ins) (auto intro!: calms intro: calm_trans[OF calm_prims(9)] calm_trans[OF calm_trans[OF calm_prims(9) calm_prims(3)]]
    calm_trans[OF _ calm_prims(1)] calm_trans[OF _ calm_prims(2)])

lemma calm_upd: "calm K K1 \<Longrightarrow> calm K (upd_thread t f K1)"
  and calm_rem: "calm K K1 \<Longrightarrow> calm K (rt_schedule_remove_thread t K1)"
  and calm_ins: "calm K K1 \<Longrightarrow> calm K (rt_schedule_insert_thread t K1)"
  and calm_unlink: "calm K K1 \<Longrightarrow> calm K (rt_list_remove t K1)"
  and calm_bury: "calm K K1 \<Longrightarrow> calm K (rt_list_insert_after Thread_defunct t K1)"
  and calm_stop: "calm K K1 \<Longrightarrow> calm K (thread_timer_stop t K1)"
  and calm_switched: "calm K K1 \<Longrightarrow> calm K (switch_to t p ins K1)"
  and calm_detach: "calm K K1 \<Longrightarrow> calm K (rt_timer_detach x K1)"
  and calm_upd_timer: "calm K K1 \<Longrightarrow> calm K (upd_timer x g K1)"
  by (erule calm_trans, rule calms)+

lemmas calm_steps = calm_upd calm_rem calm_ins calm_unlink calm_bury calm_stop calm_switched calm_detach calm_upd_timer calm_refl

lemma calm_timer_start: "timer_start_list x K1 = Some K2 \<Longrightarrow> calm K K1 \<Longrightarrow> calm K K2"
  using timer_start_sel(2,7)[of x K1 K2] by (simp add: calm_def)

lemma calm_schedule: "calm K K1 \<Longrightarrow> calm K (rt_schedule K1)"
  by (auto simp: rt_schedule_def Let_def split: prod.split intro!: calm_steps)

lemma calm_ops:
  "rt_thread_suspend t K = Some (e, K') \<Longrightarrow> calm K K'" "calm K (snd (rt_thread_resume t K))"
  "thread_timer_start t tick K = Some K' \<Longrightarrow> calm K K'" "thread_init t p tick K = Some K' \<Longrightarrow> calm K K'"
  "calm K (thread_exit K)" "calm K (snd (rt_thread_detach t K))" "calm K (snd (rt_thread_yield K))" "calm K (change_priority t p K)"
  "rt_thread_timeout t K = Some K' \<Longrightarrow> calm K K'" "calm K (snd (rt_thread_defunct_dequeue K))" "calm K (tick_time_slice K)"
  "calm K (rt_enter_critical K)" "calm K (rt_exit_critical K)"
proof -
  show "rt_thread_suspend t K = Some (e, K') \<Longrightarrow> calm K K'"
    by (auto simp: rt_thread_suspend_def Let_def split: if_splits intro!: calm_steps)
  show "calm K (snd (rt_thread_resume t K))" by (auto simp: rt_thread_resume_def intro!: calm_steps)
  show "thread_timer_start t tick K = Some K' \<Longrightarrow> calm K K'" "thread_init t p tick K = Some K' \<Longrightarrow> calm K K'"
    by (auto simp: thread_timer_start_def rt_timer_control_def thread_init_def timer_init_def split: if_splits
        elim!: calm_timer_start intro!: calm_steps)
  show "calm K (thread_exit K)" "calm K (snd (rt_thread_yield K))"
    by (auto simp: thread_exit_def rt_thread_yield_def Let_def intro!: calm_schedule calm_steps)
  show "calm K (snd (rt_thread_detach t K))" "calm K (change_priority t p K)"
    by (auto simp: rt_thread_detach_def change_priority_def Let_def intro!: calm_steps)
  show "rt_thread_timeout t K = Some K' \<Longrightarrow> calm K K'"
    by (auto simp: rt_thread_timeout_def split: if_splits intro!: calm_schedule calm_steps)
  show "calm K (snd (rt_thread_defunct_dequeue K))" by (auto simp: rt_thread_defunct_dequeue_def split: list.split intro!: calm_steps)
  have "calm K (upd_thread s f (K\<lparr>rt_tick := n\<rparr>))" for s f n by (rule calm_trans[OF calm_prims(8) calm_prims(1)])
  then show "calm K (tick_time_slice K)" by (auto simp: tick_time_slice_def Let_def intro!: calm_schedule calm_upd calm_prims(8))
  show "calm K (rt_enter_critical K)" "calm K (rt_exit_critical K)"
    by (auto simp: rt_enter_critical_def rt_exit_critical_def Let_def intro!: calm_schedule calm_prims)
qed

lemma calm_startup: "rt_thread_startup t K = Some (e, K') \<Longrightarrow> calm K K'"
  by (auto simp: rt_thread_startup_def Let_def split: if_splits
    intro!: calm_schedule intro: calm_trans[OF calm_prims(1) calm_ops(2)])

lemma calm_sleep: "rt_thread_sleep tick K = Some K' \<Longrightarrow> calm K K'"
  by (auto simp: rt_thread_sleep_def Let_def split: option.splits dest!: calm_ops(1,3) intro!: calm_schedule intro: calm_trans)

section \<open>The invariant of the objects\<close>

definition sem_ok :: "ipc \<Rightarrow> nat \<Rightarrow> bool" where
  "sem_ok K a \<longleftrightarrow> sem_value (sems K a) \<le> RT_SEM_VALUE_MAX \<and>
     (0 < sem_value (sems K a) \<longrightarrow> tlists K (Suspend_thread (Semaphore a)) = [])"

definition mutex_free :: "rt_mutex \<Rightarrow> bool" where
  "mutex_free mu \<longleftrightarrow> owner mu = 0 \<and> mutex_value mu = 1 \<and> hold mu = 0"

definition mutex_held :: "rt_mutex \<Rightarrow> bool" where
  "mutex_held mu \<longleftrightarrow> owner mu \<noteq> 0 \<and> mutex_value mu = 0 \<and> 0 < hold mu \<and> hold mu \<le> RT_MUTEX_HOLD_MAX \<and>
     original_priority mu < RT_THREAD_PRIORITY_MAX"

definition mutex_ok :: "ipc \<Rightarrow> nat \<Rightarrow> bool" where
  "mutex_ok K m \<longleftrightarrow> owner (mutexes K m) \<notin> set (tlists K (Suspend_thread (Mutex m))) \<and> 0 \<notin> set (tlists K (Suspend_thread (Mutex m))) \<and>
     (mutex_free (mutexes K m) \<and> tlists K (Suspend_thread (Mutex m)) = [] \<or> mutex_held (mutexes K m))"

definition mb_ok :: "rt_mailbox \<Rightarrow> bool" where
  "mb_ok b \<longleftrightarrow> length (msg_pool b) = mb_size b \<and> mb_size b < 2 ^ 16 \<and> entry b \<le> mb_size b \<and>
     (0 < mb_size b \<longrightarrow> out_offset b < mb_size b \<and> in_offset b = (out_offset b + entry b) mod mb_size b)"

definition mq_ok :: "rt_messagequeue \<Rightarrow> bool" where
  "mq_ok q \<longleftrightarrow> (\<exists>qs fs hs. mq_rep q qs fs hs)"

definition ipc_inv :: "nat \<Rightarrow> ipc \<Rightarrow> bool" where
  "ipc_inv i K \<longleftrightarrow> steady i K \<and> (\<forall>a. sem_ok K a) \<and> (\<forall>m. mutex_ok K m) \<and> (\<forall>b. mb_ok (mailboxes K b)) \<and>
     (\<forall>q. mq_ok (msgqueues K q))"

lemma calm_objs:
  assumes "calm K K'"
  shows "sem_ok K a \<Longrightarrow> sem_ok K' a" "mutex_ok K m \<Longrightarrow> mutex_ok K' m" "mailboxes K' = mailboxes K" "msgqueues K' = msgqueues K"
proof -
  note f = more_fields[of K' K] and c = assms[unfolded calm_def]
  have sub: "set (tlists K' (Suspend_thread ob)) \<subseteq> set (tlists K (Suspend_thread ob))" for ob using c by simp
  have mem: "x \<in> set (tlists K' (Suspend_thread ob)) \<Longrightarrow> x \<in> set (tlists K (Suspend_thread ob))" for x ob using sub[of ob] by blast
  have empty: "tlists K (Suspend_thread ob) = [] \<Longrightarrow> tlists K' (Suspend_thread ob) = []" for ob using sub[of ob] by simp
  show "sem_ok K a \<Longrightarrow> sem_ok K' a" using f c empty by (auto simp: sem_ok_def)
  show "mutex_ok K m \<Longrightarrow> mutex_ok K' m" 
    using f c empty mem[of _ "Mutex m"] by (auto simp: mutex_ok_def)
  show "mailboxes K' = mailboxes K" "msgqueues K' = msgqueues K" using f c by simp_all
qed

lemma calm_inv: "calm K K' \<Longrightarrow> ipc_inv i K \<Longrightarrow> steady i K' \<Longrightarrow> ipc_inv i K'"
  using calm_objs by (auto simp: ipc_inv_def)

lemma ipc_invD:
  assumes "ipc_inv i K"
  shows "steady i K" "sem_ok K a" "mutex_ok K m" "mb_ok (mailboxes K b)" "mq_ok (msgqueues K q)"
  using assms by (simp_all add: ipc_inv_def)

text \<open>What blocking does to the invariants of the objects.\<close>

lemma wait_on_objs:
  assumes "kernel.more K' = kernel.more K" "wait_head h" "set (tlists K' h) = insert t (set (tlists K h))"
    "\<forall>g. wait_head g \<and> g \<noteq> h \<longrightarrow> tlists K' g = tlists K g"
  shows "sem_ok K a \<Longrightarrow> (h = Suspend_thread (Semaphore a) \<Longrightarrow> sem_value (sems K a) = 0) \<Longrightarrow> sem_ok K' a"
    "mutex_ok K m \<Longrightarrow> (h = Suspend_thread (Mutex m) \<Longrightarrow> mutex_held (mutexes K m) \<and> t \<noteq> owner (mutexes K m) \<and> t \<noteq> 0) \<Longrightarrow> mutex_ok K' m"
    "mailboxes K' = mailboxes K" "msgqueues K' = msgqueues K"
proof -
  note f = more_fields[OF assms(1)]
  show "sem_ok K a \<Longrightarrow> (h = Suspend_thread (Semaphore a) \<Longrightarrow> sem_value (sems K a) = 0) \<Longrightarrow> sem_ok K' a"
    using assms(4)[rule_format, of "Suspend_thread (Semaphore a)"] f by (cases "h = Suspend_thread (Semaphore a)") (auto simp: sem_ok_def)
  show "mutex_ok K m \<Longrightarrow> (h = Suspend_thread (Mutex m) \<Longrightarrow> mutex_held (mutexes K m) \<and> t \<noteq> owner (mutexes K m) \<and> t \<noteq> 0) \<Longrightarrow> mutex_ok K' m"
    using assms(3) assms(4)[rule_format, of "Suspend_thread (Mutex m)"] f
    by (cases "h = Suspend_thread (Mutex m)") (auto simp: mutex_ok_def mutex_held_def mutex_free_def)
  show "mailboxes K' = mailboxes K" "msgqueues K' = msgqueues K" by (rule f)+
qed

lemma blocked_inv:
  assumes inv: "ipc_inv i K" and c: "rt_current_thread K \<noteq> i" and lock: "rt_scheduler_lock_nest K = 0" and h: "wait_head h"
    and time: "timeout_ok time" and w: "wait_on h flag time K = Blocked K'"
    and sem: "\<And>a. h = Suspend_thread (Semaphore a) \<Longrightarrow> sem_value (sems K a) = 0"
    and mu: "\<And>m. h = Suspend_thread (Mutex m) \<Longrightarrow>
      mutex_held (mutexes K m) \<and> rt_current_thread K \<noteq> owner (mutexes K m) \<and> rt_current_thread K \<noteq> 0"
  shows "ipc_inv i K'"
proof -
  note W = wait_on_correct[OF ipc_invD(1)[OF inv] c lock h time, of flag]
  have K': "steady i K'" "kernel.more K' = kernel.more K" "tlists K' h = enqueued flag (\<lambda>x. current_priority (threads K x)) (rt_current_thread K) (tlists K h)"
    "\<forall>g. wait_head g \<and> g \<noteq> h \<longrightarrow> tlists K' g = tlists K g" using W w by auto
  have q: "set (tlists K' h) = insert (rt_current_thread K) (set (tlists K h))" by (simp add: K'(3))
  note O = wait_on_objs[OF K'(2) h q K'(4)]
  show ?thesis unfolding ipc_inv_def
    using K'(1) O(1)[OF ipc_invD(2)[OF inv] sem] O(2)[OF ipc_invD(3)[OF inv] mu] O(3,4) ipc_invD(4,5)[OF inv] by auto
qed

section \<open>Calls keep the invariant\<close>

lemma sem_take_inv:
  assumes inv: "ipc_inv i K"
  shows "rt_sem_take a time K = Return e K' \<Longrightarrow> ipc_inv i K'"
    "rt_sem_take a time K = Blocked K' \<Longrightarrow> rt_current_thread K \<noteq> i \<Longrightarrow> rt_scheduler_lock_nest K = 0 \<Longrightarrow> timeout_ok time \<Longrightarrow> ipc_inv i K'"
proof -
  have w: "wait_on h flag time K \<noteq> Return e K'" for h flag K by (auto simp: wait_on_def Let_def split: option.splits)
  note I = ipc_invD[OF inv]
  show "rt_sem_take a time K = Return e K' \<Longrightarrow> ipc_inv i K'"
    using inv w le_trans[OF diff_le_self, of "sem_value (sems K a)" RT_SEM_VALUE_MAX 1]
    by (auto simp: rt_sem_take_def ipc_inv_def sem_ok_def mutex_ok_def split: if_splits)
  assume b: "rt_sem_take a time K = Blocked K'" and c: "rt_current_thread K \<noteq> i" "rt_scheduler_lock_nest K = 0" "timeout_ok time"
  let ?K = "set_error (rt_current_thread K) RT_EOK K"
  have v: "sem_value (sems K a) = 0" and w: "wait_on (Suspend_thread (Semaphore a)) (sem_flag (sems K a)) time ?K = Blocked K'"
    using b by (auto simp: rt_sem_take_def split: if_splits)
  have "ipc_inv i ?K" by (rule calm_inv[OF calm_prims(1) inv]) (use I(1) in \<open>simp add: steady_upd\<close>)
  from blocked_inv[OF this _ _ _ c(3) w] c v show "ipc_inv i K'" by simp
qed

lemma sem_release_inv:
  assumes inv: "ipc_inv i K"
  shows "ipc_inv i (snd (rt_sem_release a K))"
proof (cases "tlists K (Suspend_thread (Semaphore a))")
  case Nil
  then show ?thesis using inv by (auto simp: rt_sem_release_def ipc_inv_def sem_ok_def mutex_ok_def RT_SEM_VALUE_MAX_def)
next
  case (Cons t ts)
  note R = ipc_list_resume_correct[OF ipc_invD(1)[OF inv] _ Cons]
  let ?K1 = "ipc_list_resume (Suspend_thread (Semaphore a)) K"
  have c1: "calm K ?K1" unfolding ipc_list_resume_def by (rule calm_ops(2))
  have "steady i (rt_schedule ?K1)" using R(1) schedule_steady(1)[of ?K1 i] by (simp add: steady_def)
  then show ?thesis using calm_inv[OF calm_schedule[OF c1] inv] Cons by (simp add: rt_sem_release_def)
qed

lemma resume_all_inv:
  assumes inv: "ipc_inv i K" and h: "wait_head h" and r: "ipc_list_resume_all h K = Some K'"
  shows "ipc_inv i K'" "tlists K' h = []" "calm K K'" "stat (threads K' (rt_current_thread K')) = RT_THREAD_RUNNING"
proof -
  from ipc_list_resume_all_correct[OF ipc_invD(1)[OF inv] h] r
  have K': "steady i K'" "kernel.more K' = kernel.more K" "tlists K' h = []"
    "\<And>g. wait_head g \<Longrightarrow> g \<noteq> h \<Longrightarrow> tlists K' g = tlists K g" by auto
  show c: "calm K K'" unfolding calm_def using K'(2,3,4) by (metis empty_set empty_subsetI order_refl)
  show "ipc_inv i K'" by (rule calm_inv[OF c inv K'(1)])
  show "tlists K' h = []" by (rule K')
  show "stat (threads K' (rt_current_thread K')) = RT_THREAD_RUNNING" by (rule steadyD(2)[OF K'(1)])
qed

lemma schedule_inv: "ipc_inv i K \<Longrightarrow> ipc_inv i (rt_schedule K)"
  using calm_inv[OF calm_schedule[OF calm_refl]] schedule_steady(1)[of K i] by (simp add: ipc_inv_def steady_def)

lemma object_reset_inv:
  assumes inv: "ipc_inv i K"
  shows "rt_sem_control_reset a v K = Some (e, K') \<Longrightarrow> ipc_inv i K'" "rt_event_control_reset b K = Some (e, K') \<Longrightarrow> ipc_inv i K'"
    "rt_mb_control_reset d K = Some (e, K') \<Longrightarrow> ipc_inv i K'" "rt_mb_detach d K = Some K' \<Longrightarrow> ipc_inv i K'"
proof -
  note R = resume_all_inv[OF inv]
  show "rt_sem_control_reset a v K = Some (e, K') \<Longrightarrow> ipc_inv i K'"
  proof -
    assume "rt_sem_control_reset a v K = Some (e, K')"
    then obtain K1 where K1: "ipc_list_resume_all (Suspend_thread (Semaphore a)) K = Some K1"
      "K' = rt_schedule (upd_sem a (\<lambda>s. s\<lparr>sem_value := v mod 2 ^ 16\<rparr>) K1)" by (auto simp: rt_sem_control_reset_def)
    note R1 = R[OF _ K1(1)]
    have "v mod 2 ^ 16 \<le> RT_SEM_VALUE_MAX" using mod_less_divisor[of "2 ^ 16" v] by (simp add: RT_SEM_VALUE_MAX_def)
    then show ?thesis unfolding K1(2) using R1(1,2)
      by (intro schedule_inv) (auto simp: ipc_inv_def sem_ok_def mutex_ok_def)
  qed
  show "rt_event_control_reset b K = Some (e, K') \<Longrightarrow> ipc_inv i K'"
  proof -
    assume "rt_event_control_reset b K = Some (e, K')"
    then obtain K1 where K1: "ipc_list_resume_all (Suspend_thread (Event b)) K = Some K1"
      "K' = rt_schedule (upd_event b (\<lambda>x. x\<lparr>event_bits := 0\<rparr>) K1)" by (auto simp: rt_event_control_reset_def)
    from R(1)[OF _ K1(1)] show ?thesis unfolding K1(2) by (intro schedule_inv) (auto simp: ipc_inv_def sem_ok_def mutex_ok_def)
  qed
  show d: "ipc_inv i K'" if m: "rt_mb_detach d K = Some K'" for K'
  proof -
    from m obtain K1 where K1: "ipc_list_resume_all (Suspend_thread (MailBox d)) K = Some K1"
      "ipc_list_resume_all (Suspend_sender (MailBox d)) K1 = Some K'"
      unfolding rt_mb_detach_def by (cases "ipc_list_resume_all (Suspend_thread (MailBox d)) K") auto
    from R(1)[OF _ K1(1)] have "ipc_inv i K1" by simp
    from resume_all_inv(1)[OF this _ K1(2)] show ?thesis by simp
  qed
  show "rt_mb_control_reset d K = Some (e, K') \<Longrightarrow> ipc_inv i K'"
  proof -
    assume "rt_mb_control_reset d K = Some (e, K')"
    then obtain K1 where K1: "rt_mb_detach d K = Some K1"
      "K' = rt_schedule (upd_mailbox d (\<lambda>b. b\<lparr>entry := 0, in_offset := 0, out_offset := 0\<rparr>) K1)" by (auto simp: rt_mb_control_reset_def)
    from d[OF K1(1)] show ?thesis unfolding K1(2) by (intro schedule_inv) (auto simp: ipc_inv_def sem_ok_def mutex_ok_def mb_ok_def)
  qed
qed

end
