(* ===== verification/Ipc_Steps.thy ===== *)
theory Ipc_Steps
  imports Ipc_Inv
begin

text \<open>
  Mutexes, events and mailboxes keep the invariant of \<open>Ipc_Inv\<close>; the calls of the kernel as the steps of a
  relation, and what holds after every history of them.
\<close>

section \<open>Thread fields and single objects\<close>

lemma upd_thread_inv:
  assumes "ipc_inv i K" "stat (f (threads K t)) = stat (threads K t)" "current_priority (f (threads K t)) = current_priority (threads K t)"
    "number_mask (f (threads K t)) = number_mask (threads K t)"
  shows "ipc_inv i (upd_thread t f K)"
  using steady_upd[of i K f t] assms(2,3,4) calm_inv[OF calm_prims(1) assms(1)] ipc_invD(1)[OF assms(1)] by blast

lemma upd_event_inv [simp]: "ipc_inv i (upd_event a f K) \<longleftrightarrow> ipc_inv i K"
  by (auto simp: ipc_inv_def sem_ok_def mutex_ok_def)

lemma upd_mailbox_inv: "ipc_inv i K \<Longrightarrow> mb_ok (f (mailboxes K b)) \<Longrightarrow> ipc_inv i (upd_mailbox b f K)"
  by (auto simp: ipc_inv_def sem_ok_def mutex_ok_def)

lemma upd_mutex_inv: "ipc_inv i K \<Longrightarrow> mutex_ok (upd_mutex m f K) m \<Longrightarrow> ipc_inv i (upd_mutex m f K)"
  by (auto simp: ipc_inv_def sem_ok_def mutex_ok_def)

lemma wait_on_not_return [simp]: "wait_on h flag time K \<noteq> Return e K'"
  by (auto simp: wait_on_def Let_def split: option.splits)

lemma wake_inv:
  assumes inv: "ipc_inv i K" and h: "wait_head h" and q: "tlists K h \<noteq> []"
  shows "ipc_inv i (ipc_list_resume h K)" "ipc_inv i (rt_schedule (ipc_list_resume h K))"
proof -
  obtain t ts where t: "tlists K h = t # ts" using q by (cases "tlists K h") auto
  show "ipc_inv i (ipc_list_resume h K)"
    using calm_inv[OF _ inv ipc_list_resume_correct(1)[OF ipc_invD(1)[OF inv] h t]] by (simp add: ipc_list_resume_def calm_ops(2))
  then show "ipc_inv i (rt_schedule (ipc_list_resume h K))" by (rule schedule_inv)
qed

section \<open>Mutexes\<close>

lemma change_priority_inv: "ipc_inv i K \<Longrightarrow> p < RT_THREAD_PRIORITY_MAX \<Longrightarrow> ipc_inv i (change_priority t p K)"
  by (rule calm_inv[OF calm_ops(8)]) (auto intro: change_priority_steady ipc_invD(1))

lemma mutex_cases:
  assumes "mutex_ok K m"
  obtains (free) "mutex_free (mutexes K m)" "tlists K (Suspend_thread (Mutex m)) = []" | (held) "mutex_held (mutexes K m)"
  using assms by (auto simp: mutex_ok_def)

lemma mutex_take_inv:
  assumes inv: "ipc_inv i K"
  shows "rt_mutex_take m time K = Return e K' \<Longrightarrow> ipc_inv i K'"
    "rt_mutex_take m time K = Blocked K' \<Longrightarrow> rt_current_thread K \<noteq> i \<Longrightarrow> rt_scheduler_lock_nest K = 0 \<Longrightarrow> timeout_ok time \<Longrightarrow> ipc_inv i K'"
proof -
  let ?t = "rt_current_thread K" and ?mu = "mutexes K m"
  let ?K = "set_error ?t RT_EOK K"
  have inv1: "ipc_inv i (set_error ?t e K1)" if "ipc_inv i K1" for e K1 by (rule upd_thread_inv[OF that]) simp_all
  have prio: "current_priority (threads K ?t) < RT_THREAD_PRIORITY_MAX" using steady_prio[OF ipc_invD(1)[OF inv]] by (simp add: prio_ok_def)
  note mu = ipc_invD(3)[OF inv, of m]
  have own: "ipc_inv i (upd_mutex m (\<lambda>x. x\<lparr>hold := hold x + 1\<rparr>) ?K)" if "?t \<noteq> 0" "owner ?mu = ?t" "hold ?mu < RT_MUTEX_HOLD_MAX"
    using mu that by (intro upd_mutex_inv inv1 inv) (auto simp: mutex_ok_def mutex_held_def mutex_free_def)
  have get: "ipc_inv i (upd_mutex m f ?K)"
    if "?t \<noteq> 0" "mutex_value ?mu > 0" "f ?mu = ?mu\<lparr>mutex_value := mutex_value ?mu - 1, owner := ?t,
      original_priority := current_priority (threads K ?t), hold := hold ?mu + 1\<rparr>" for f
    using mu that prio by (intro upd_mutex_inv inv1 inv) (auto simp: mutex_ok_def mutex_held_def mutex_free_def RT_MUTEX_HOLD_MAX_def)
  have room: "hold ?mu < RT_MUTEX_HOLD_MAX" if "mutex_value ?mu > 0"
    using mu that by (auto simp: mutex_ok_def mutex_held_def mutex_free_def RT_MUTEX_HOLD_MAX_def)
  have comp: "upd_mutex m g (upd_mutex m f K1) = upd_mutex m (\<lambda>x. g (f x)) K1" for f g K1 by (simp add: upd_mutex_def)
  show "rt_mutex_take m time K = Return e K' \<Longrightarrow> ipc_inv i K'"
    using own room inv1[OF inv] inv1[OF inv1[OF inv]]
    by (auto simp: rt_mutex_take_def Let_def in_thread_context_def comp intro!: get split: if_splits)
  assume b: "rt_mutex_take m time K = Blocked K'" and c: "?t \<noteq> i" "rt_scheduler_lock_nest K = 0" "timeout_ok time"
  define K1 where "K1 = (if current_priority (threads K ?t) < current_priority (threads K (owner ?mu))
    then change_priority (owner ?mu) (current_priority (threads K ?t)) ?K else ?K)"
  have w: "wait_on (Suspend_thread (Mutex m)) (mutex_flag ?mu) time K1 = Blocked K'"
    and v: "?t \<noteq> 0" "owner ?mu \<noteq> ?t" "\<not> mutex_value ?mu > 0"
    using b by (auto simp: rt_mutex_take_def Let_def in_thread_context_def K1_def upd_thread_def split: if_splits)
  have i1: "ipc_inv i K1" using change_priority_inv[OF inv1[OF inv] prio] inv1[OF inv] by (simp add: K1_def)
  note P = change_priority_steady(2,3,4)[OF ipc_invD(1)[OF inv1[OF inv]] prio]
  have f1: "rt_current_thread K1 = ?t" "rt_scheduler_lock_nest K1 = 0" "mutexes K1 = mutexes K"
    using P(2,3) more_fields(2)[OF P(1)] c(2) by (simp_all add: K1_def)
  have h: "mutex_held ?mu" using mu v(3) by (auto simp: mutex_ok_def mutex_free_def)
  show "ipc_inv i K'"
  proof (rule blocked_inv[OF i1 _ f1(2) _ c(3) w])
    show "mutex_held (mutexes K1 m') \<and> rt_current_thread K1 \<noteq> owner (mutexes K1 m') \<and> rt_current_thread K1 \<noteq> 0"
      if "Suspend_thread (Mutex m) = Suspend_thread (Mutex m')" for m' using that f1 h v(1,2) by force
  qed (simp_all add: f1(1) c(1))
qed

lemma upd_mutex_comm:
  "upd_thread t g (upd_mutex m f K) = upd_mutex m f (upd_thread t g K)"
  "rt_schedule_remove_thread t (upd_mutex m f K) = upd_mutex m f (rt_schedule_remove_thread t K)"
  "rt_schedule_insert_thread t (upd_mutex m f K) = upd_mutex m f (rt_schedule_insert_thread t K)"
  by (simp_all add: upd_mutex_def upd_thread_def rt_schedule_insert_thread_def rt_schedule_remove_thread_def
      rt_list_remove_def rt_list_insert_before_def Let_def)

lemma change_priority_upd_mutex: "change_priority t p (upd_mutex m f K) = upd_mutex m f (change_priority t p K)"
  by (simp add: change_priority_def upd_mutex_comm Let_def)

text \<open>What the last release of a mutex does, in one piece.\<close>

lemma mutex_release_last:
  assumes inv: "ipc_inv i K" and own: "owner (mutexes K m) = rt_current_thread K" and c: "in_thread_context K"
    and h: "hold (mutexes K m) = 1"
  shows "\<exists>K1. ipc_inv i K1 \<and> kernel.more K1 = kernel.more K \<and> tlists K1 (Suspend_thread (Mutex m)) = tlists K (Suspend_thread (Mutex m)) \<and>
    threads K1 = (threads K)(rt_current_thread K := threads K1 (rt_current_thread K)) \<and> rt_current_thread K1 = rt_current_thread K \<and>
    current_priority (threads K1 (rt_current_thread K)) = original_priority (mutexes K m) \<and>
    rt_mutex_release m K = Return RT_EOK
      (case tlists K (Suspend_thread (Mutex m)) of
         [] \<Rightarrow> upd_mutex m (\<lambda>x. x\<lparr>mutex_value := 1, owner := 0, original_priority := 0xff, hold := 0\<rparr>) K1
       | t # ts \<Rightarrow> rt_schedule (ipc_list_resume (Suspend_thread (Mutex m))
                  (upd_mutex m (\<lambda>x. x\<lparr>owner := t, original_priority := current_priority (threads K t), hold := 1\<rparr>) K1)))"
proof -
  let ?c = "rt_current_thread K" and ?mu = "mutexes K m" and ?h = "Suspend_thread (Mutex m)"
  have held: "mutex_held ?mu" using ipc_invD(3)[OF inv, of m] own c by (auto simp: mutex_ok_def mutex_free_def in_thread_context_def)
  have out: "?c \<notin> set (tlists K ?h)" using ipc_invD(3)[OF inv, of m] own by (simp add: mutex_ok_def)
  define K1 where "K1 = (if original_priority ?mu \<noteq> current_priority (threads K ?c) then change_priority ?c (original_priority ?mu) K else K)"
  have p: "original_priority ?mu < RT_THREAD_PRIORITY_MAX" using held by (simp add: mutex_held_def)
  note P = change_priority_steady[OF ipc_invD(1)[OF inv] p, where t = ?c]
  have K1: "ipc_inv i K1" "kernel.more K1 = kernel.more K" "tlists K1 ?h = tlists K ?h" "threads K1 = (threads K)(?c := threads K1 ?c)"
    "rt_current_thread K1 = ?c" "current_priority (threads K1 ?c) = original_priority ?mu"
    using change_priority_inv[OF inv p] inv P by (auto simp: K1_def)
  note f = more_fields(2)[OF K1(2)]
  have r: "mutex_restore_priority m (upd_mutex m (\<lambda>x. x\<lparr>hold := (hold x + 255) mod 256\<rparr>) K) = upd_mutex m (\<lambda>x. x\<lparr>hold := (hold x + 255) mod 256\<rparr>) K1"
    using own by (simp add: mutex_restore_priority_def Let_def K1_def change_priority_upd_mutex)
  have comp: "upd_mutex m g (upd_mutex m f K1) = upd_mutex m (\<lambda>x. g (f x)) K1" for f g K1 by (simp add: upd_mutex_def)
  have eq: "upd_mutex m f K1 = upd_mutex m g K1" if "f ?mu = g ?mu" for f g using that f by (simp add: upd_mutex_def)
  have rel: "rt_mutex_release m K = Return RT_EOK
      (case tlists K ?h of
         [] \<Rightarrow> upd_mutex m (\<lambda>x. x\<lparr>mutex_value := 1, owner := 0, original_priority := 0xff, hold := 0\<rparr>) K1
       | t # ts \<Rightarrow> rt_schedule (ipc_list_resume ?h
                  (upd_mutex m (\<lambda>x. x\<lparr>owner := t, original_priority := current_priority (threads K t), hold := 1\<rparr>) K1)))"
  proof (cases "tlists K ?h")
    case Nil
    then show ?thesis using own c h held K1(3) f r
      by (simp add: rt_mutex_release_def Let_def comp mutex_held_def RT_MUTEX_VALUE_MAX_def) (rule eq, simp add: h mutex_held_def)
  next
    case (Cons t ts)
    have tc: "t \<noteq> ?c" using out Cons by auto
    have pt: "current_priority (threads K1 t) = current_priority (threads K t)" using K1(4) tc by (metis fun_upd_other)
    show ?thesis using own c h held K1(3) f r Cons
      by (simp add: rt_mutex_release_def mutex_hand_over_def Let_def comp pt RT_MUTEX_HOLD_MAX_def)
        (rule arg_cong[where f = "\<lambda>x. rt_schedule (ipc_list_resume ?h x)"], rule eq, simp add: h)
  qed
  show ?thesis using K1 rel by blast
qed

lemma mutex_release_inv:
  assumes inv: "ipc_inv i K" and r: "rt_mutex_release m K = Return e K'"
  shows "ipc_inv i K'"
proof (cases "owner (mutexes K m) = rt_current_thread K \<and> in_thread_context K")
  case False
  then show ?thesis using r upd_thread_inv[OF inv] by (auto simp: rt_mutex_release_def Let_def split: if_splits)
next
  case True
  let ?mu = "mutexes K m" and ?h = "Suspend_thread (Mutex m)"
  have held: "mutex_held ?mu" using ipc_invD(3)[OF inv, of m] True by (auto simp: mutex_ok_def mutex_free_def in_thread_context_def)
  show ?thesis
  proof (cases "hold ?mu = 1")
    case False
    have "(hold ?mu + 255) mod 256 = hold ?mu - 1" and pos: "0 < hold ?mu - 1"
      using held False by (auto simp: mutex_held_def RT_MUTEX_HOLD_MAX_def mod_if)
    then have "K' = upd_mutex m (\<lambda>x. x\<lparr>hold := (hold x + 255) mod 256\<rparr>) K" and h: "(hold ?mu + 255) mod 256 = hold ?mu - 1"
      using r True by (auto simp: rt_mutex_release_def)
    then show ?thesis using ipc_invD(3)[OF inv, of m] held pos
      by (auto intro!: upd_mutex_inv inv simp: mutex_ok_def mutex_held_def mutex_free_def)
  next
    case 1: True
    from mutex_release_last[OF inv conjunct1[OF True] conjunct2[OF True] 1]
    obtain K1 where K1: "ipc_inv i K1" "kernel.more K1 = kernel.more K" "tlists K1 ?h = tlists K ?h"
      "threads K1 = (threads K)(rt_current_thread K := threads K1 (rt_current_thread K))" and
      r1: "rt_mutex_release m K = Return RT_EOK
      (case tlists K ?h of
         [] \<Rightarrow> upd_mutex m (\<lambda>x. x\<lparr>mutex_value := 1, owner := 0, original_priority := 0xff, hold := 0\<rparr>) K1
       | t # ts \<Rightarrow> rt_schedule (ipc_list_resume ?h
                  (upd_mutex m (\<lambda>x. x\<lparr>owner := t, original_priority := current_priority (threads K t), hold := 1\<rparr>) K1)))" by blast
    have mu1: "mutexes K1 m = ?mu" using more_fields(2)[OF K1(2)] by simp
    show ?thesis
    proof (cases "tlists K ?h")
      case Nil
      then have "K' = upd_mutex m (\<lambda>x. x\<lparr>mutex_value := 1, owner := 0, original_priority := 0xff, hold := 0\<rparr>) K1" using r r1 by simp
      then show ?thesis using ipc_invD(3)[OF K1(1), of m] Nil K1(3) by (auto intro!: upd_mutex_inv K1(1) simp: mutex_ok_def mutex_free_def)
    next
      case (Cons t ts)
      let ?K2 = "upd_mutex m (\<lambda>x. x\<lparr>owner := t, original_priority := current_priority (threads K t), hold := 1\<rparr>) K1"
      have K': "K' = rt_schedule (ipc_list_resume ?h ?K2)" using r r1 Cons by simp
      have s2: "steady i ?K2" using ipc_invD(1)[OF K1(1)] by simp
      have q2: "tlists ?K2 ?h = t # ts" using K1(3) Cons by simp
      note R = ipc_list_resume_correct[OF s2 _ q2]
      have c: "calm ?K2 (ipc_list_resume ?h ?K2)" by (simp add: ipc_list_resume_def calm_ops(2))
      have st: "stat (threads K t) = RT_THREAD_SUSPEND"
        using waiter_suspended[OF steadyD(1)[OF ipc_invD(1)[OF inv]], of ?h t] Cons by simp
      have p: "current_priority (threads K t) < RT_THREAD_PRIORITY_MAX"
        using live_prio[OF steadyD(1)[OF ipc_invD(1)[OF inv]], of t] st by (simp add: live_def prio_ok_def)
      have d: "distinct (t # ts)" using kernel_invD(1)[OF steadyD(1)[OF s2], of ?h] q2 by simp
      have mo: "mutexes (ipc_list_resume ?h ?K2) = mutexes ?K2" by (rule more_fields(2)[OF R(2)]) simp
      have z: "t \<noteq> 0" "0 \<notin> set ts" using ipc_invD(3)[OF inv, of m] Cons by (auto simp: mutex_ok_def)
      have "mutex_ok (ipc_list_resume ?h ?K2) m"
        using R(3) d z p held mu1 mo by (simp add: mutex_ok_def mutex_held_def RT_MUTEX_HOLD_MAX_def)
      moreover have "sem_ok ?K2 a" "m' \<noteq> m \<Longrightarrow> mutex_ok ?K2 m'" "mb_ok (mailboxes ?K2 b)"
        "mq_ok (msgqueues ?K2 b)" for a m' b
        using ipc_invD(2,3,4,5)[OF K1(1)] by (simp_all add: sem_ok_def mutex_ok_def)
      ultimately have "ipc_inv i (ipc_list_resume ?h ?K2)"
        using calm_objs[OF c] R(1) unfolding ipc_inv_def by (metis wait_head_simps(1))
      then show ?thesis unfolding K' by (rule schedule_inv)
    qed
  qed
qed

section \<open>Events\<close>

lemma event_send_loop_inv:
  assumes "ipc_inv i K" "distinct ts" "\<forall>t\<in>set ts. stat (threads K t) = RT_THREAD_SUSPEND"
  shows "ipc_inv i (snd (event_send_loop ev ts b K))"
  using assms
proof (induction ts arbitrary: b K)
  case (Cons t ts)
  let ?th = "threads K t"
  show ?case
  proof (cases "event_matches (event_info ?th) (event_set ?th) (event_bits (events K ev))")
    case (Some hit)
    show ?thesis
    proof (cases hit)
      case True
      define K2 where "K2 = event_hand ev t K"
      have i2: "ipc_inv i K2" using upd_thread_inv[OF Cons.prems(1)] by (simp add: K2_def event_hand_def Let_def)
      have st: "stat (threads K2 x) = stat (threads K x)" for x by (simp add: K2_def event_hand_def Let_def)
      have t: "stat (threads K2 t) = RT_THREAD_SUSPEND" using Cons.prems(3) by (simp add: st)
      let ?K3 = "snd (rt_thread_resume t K2)"
      have i3: "ipc_inv i ?K3" by (rule calm_inv[OF calm_ops(2) i2 resume_steady[OF ipc_invD(1)[OF i2] t]])
      have st3: "stat (threads ?K3 x) = RT_THREAD_SUSPEND" if "x \<in> set ts" for x
        using resume_correct(3)[OF steadyD(1)[OF ipc_invD(1)[OF i2]] t] that Cons.prems(2,3) by (auto simp: st)
      have "ipc_inv i (snd (event_send_loop ev ts True ?K3))"
        using Cons.prems(2,3) st3 by (intro Cons.IH[OF i3]) auto
      then show ?thesis using Some True by (simp add: K2_def)
    qed (use Cons Some in simp)
  qed (use Cons.prems in simp)
qed simp

lemma event_send_inv:
  assumes inv: "ipc_inv i K"
  shows "ipc_inv i (snd (rt_event_send ev bits K))"
proof -
  let ?K1 = "upd_event ev (\<lambda>x. x\<lparr>event_bits := event_bits x OR bits\<rparr>) K" and ?q = "tlists K (Suspend_thread (Event ev))"
  note k = steadyD(1)[OF ipc_invD(1)[OF inv]]
  have "ipc_inv i (snd (event_send_loop ev ?q False ?K1))"
    using inv kernel_invD(1)[OF k] waiter_suspended[OF k, of "Suspend_thread (Event ev)"] by (intro event_send_loop_inv) auto
  then show ?thesis using inv by (auto simp: rt_event_send_def split: prod.splits option.splits intro: schedule_inv)
qed

lemma event_recv_inv:
  assumes inv: "ipc_inv i K"
  shows "rt_event_recv ev want opt time got K = Received e g K' \<Longrightarrow> ipc_inv i K'"
    "rt_event_recv ev want opt time got K = Event_blocked K' \<Longrightarrow> rt_current_thread K \<noteq> i \<Longrightarrow> rt_scheduler_lock_nest K = 0 \<Longrightarrow>
       timeout_ok time \<Longrightarrow> ipc_inv i K'"
proof -
  have u: "ipc_inv i (upd_thread t (\<lambda>x. x\<lparr>event_set := w, event_info := o'\<rparr>) K1)" "ipc_inv i (set_error t e K1)" if "ipc_inv i K1" for t w o' e K1
    using that by (simp_all add: upd_thread_inv)
  have call: "event_call_of got c \<noteq> Received e g K'" if "\<And>e K. c \<noteq> Return e K" for c e g K' using that by (cases c) (auto simp: event_call_of_def)
  have blk: "event_call_of got c = Event_blocked K' \<longleftrightarrow> c = Blocked K'" for c by (cases c) (auto simp: event_call_of_def)
  show "rt_event_recv ev want opt time got K = Received e g K' \<Longrightarrow> ipc_inv i K'"
    using u inv by (auto simp: rt_event_recv_def Let_def call split: if_splits option.splits bool.splits)
  assume b: "rt_event_recv ev want opt time got K = Event_blocked K'" and c: "rt_current_thread K \<noteq> i" "rt_scheduler_lock_nest K = 0" "timeout_ok time"
  let ?t = "rt_current_thread K"
  let ?K1 = "upd_thread ?t (\<lambda>x. x\<lparr>event_set := want, event_info := opt\<rparr>) (set_error ?t RT_EOK K)"
  have w: "wait_on (Suspend_thread (Event ev)) (event_flag (events K ev)) time ?K1 = Blocked K'"
    using b by (auto simp: rt_event_recv_def Let_def blk split: if_splits option.splits bool.splits)
  show "ipc_inv i K'" by (rule blocked_inv[OF u(1)[OF u(2)[OF inv]] _ _ _ c(3) w]) (use c in simp_all)
qed

section \<open>Mailboxes\<close>

text \<open>The mails in a mailbox, the oldest first.\<close>

definition mb_mails :: "rt_mailbox \<Rightarrow> u32 list" where
  "mb_mails b = map (\<lambda>k. msg_pool b ! ((out_offset b + k) mod mb_size b)) [0..<entry b]"

lemma mb_mails_length [simp]: "length (mb_mails b) = entry b"
  by (simp add: mb_mails_def)

lemma mb_store_correct:
  assumes ok: "mb_ok b" and room: "entry b < mb_size b"
  obtains b' where "mb_store v b = (True, b')" "mb_ok b'" "mb_mails b' = mb_mails b @ [v]" "mb_size b' = mb_size b" "entry b' = entry b + 1"
proof -
  let ?n = "mb_size b"
  have n: "0 < ?n" "?n < 2 ^ 16" "length (msg_pool b) = ?n" "out_offset b < ?n" "in_offset b = (out_offset b + entry b) mod ?n"
    using ok room by (auto simp: mb_ok_def)
  define j where "j = (if in_offset b + 1 \<ge> ?n then 0 else in_offset b + 1)"
  define b' where "b' = b\<lparr>msg_pool := (msg_pool b)[in_offset b := v], in_offset := j, entry := entry b + 1\<rparr>"
  have il: "in_offset b < ?n" using n by simp
  have "j = (in_offset b + 1) mod ?n" using il by (auto simp: j_def mod_if)
  then have j: "j = (out_offset b + (entry b + 1)) mod ?n" by (simp add: n(5) mod_Suc_eq)
  have st: "mb_store v b = (True, b')" using room n(2) by (simp add: mb_store_def b'_def j_def RT_MB_ENTRY_MAX_def)
  have "mb_ok b'" using n room j by (simp add: mb_ok_def b'_def)
  have ne: "in_offset b \<noteq> (out_offset b + k) mod ?n" if "k < entry b" for k
  proof -
    have "(out_offset b + k) mod ?n \<noteq> (out_offset b + entry b) mod ?n"
      using that room n(1,4) by (simp add: mod_if split: if_splits) linarith
    then show ?thesis by (simp add: n(5))
  qed
  have "mb_mails b' = mb_mails b @ [v]" using n(3,5) il ne[unfolded n(5)] by (auto simp: mb_mails_def b'_def)
  with \<open>mb_ok b'\<close> st show ?thesis using that by (simp add: b'_def)
qed

lemma mb_fetch_correct:
  assumes ok: "mb_ok b" and some: "0 < entry b"
  obtains v b' where "mb_fetch b = (v, b')" "mb_ok b'" "mb_mails b = v # mb_mails b'" "mb_size b' = mb_size b" "entry b' = entry b - 1"
proof -
  let ?n = "mb_size b"
  have n: "0 < ?n" "entry b \<le> ?n" "out_offset b < ?n" "in_offset b = (out_offset b + entry b) mod ?n"
    using ok some by (auto simp: mb_ok_def)
  define j where "j = (if out_offset b + 1 \<ge> ?n then 0 else out_offset b + 1)"
  define b' where "b' = b\<lparr>out_offset := j, entry := entry b - 1\<rparr>"
  have "j = (out_offset b + 1) mod ?n" using n by (auto simp: j_def mod_if)
  then have j: "(j + k) mod ?n = (out_offset b + Suc k) mod ?n" for k by (simp add: mod_add_left_eq)
  have "mb_fetch b = (msg_pool b ! out_offset b, b')" using some by (simp add: mb_fetch_def b'_def j_def)
  moreover have "mb_ok b'" using ok some j[of "entry b - 1"] n by (auto simp: mb_ok_def b'_def) (simp add: j_def)
  moreover have "mb_mails b = msg_pool b ! out_offset b # mb_mails b'"
  proof -
    have "[0..<entry b] = 0 # map Suc [0..<entry b - 1]" using some by (simp add: map_Suc_upt upt_conv_Cons)
    then show ?thesis using n by (simp add: mb_mails_def b'_def j)
  qed
  ultimately show ?thesis using that by (simp add: b'_def)
qed

lemma mb_store_urgent_correct:
  assumes ok: "mb_ok b" and room: "entry b < mb_size b"
  shows "mb_ok (mb_store_urgent v b)" "mb_mails (mb_store_urgent v b) = v # mb_mails b"
proof -
  let ?n = "mb_size b"
  have n: "0 < ?n" "length (msg_pool b) = ?n" "out_offset b < ?n" "in_offset b = (out_offset b + entry b) mod ?n"
    using ok room by (auto simp: mb_ok_def)
  define j where "j = (if out_offset b > 0 then out_offset b - 1 else ?n - 1)"
  define b' where "b' = b\<lparr>out_offset := j, msg_pool := (msg_pool b)[j := v], entry := entry b + 1\<rparr>"
  have b': "mb_store_urgent v b = b'" by (simp add: mb_store_urgent_def b'_def j_def)
  have jn: "j < ?n" using n by (auto simp: j_def)
  have "(j + 1) mod ?n = out_offset b" using n by (auto simp: j_def)
  then have j: "(j + Suc k) mod ?n = (out_offset b + k) mod ?n" for k by (metis add.assoc mod_add_left_eq plus_1_eq_Suc)
  show "mb_ok (mb_store_urgent v b)" unfolding b' using ok room jn j[of "entry b"] n by (simp add: mb_ok_def b'_def)
  have ne: "j \<noteq> (out_offset b + k) mod ?n" if "k < entry b" for k
    using that room n(1,3) by (simp add: j_def mod_if split: if_splits) linarith
  have "[0..<entry b + 1] = 0 # map Suc [0..<entry b]" by (simp add: map_Suc_upt upt_conv_Cons)
  then show "mb_mails (mb_store_urgent v b) = v # mb_mails b" unfolding b' using n(2) jn ne j[simplified] by (auto simp: mb_mails_def b'_def)
qed

lemma mb_wake_inv: "ipc_inv i K \<Longrightarrow> wait_head h \<Longrightarrow> ipc_inv i (mb_wake h K)"
  by (simp add: mb_wake_def wake_inv)

lemma set_error_inv: "ipc_inv i K \<Longrightarrow> ipc_inv i (set_error t e K)"
  by (rule upd_thread_inv) simp_all

lemma mb_send_loop_inv:
  assumes inv: "ipc_inv i K"
  shows "mb_send_loop mb v time K = Return e K' \<Longrightarrow> ipc_inv i K'"
    "mb_send_loop mb v time K = Blocked K' \<Longrightarrow> rt_current_thread K \<noteq> i \<Longrightarrow> rt_scheduler_lock_nest K = 0 \<Longrightarrow>
       timeout_ok time \<Longrightarrow> ipc_inv i K'"
proof -
  let ?b = "mailboxes K mb"
  show "ipc_inv i K'" if r: "mb_send_loop mb v time K = Return e K'"
  proof (cases "entry ?b = mb_size ?b")
    case True
    then show ?thesis using r set_error_inv[OF inv] by (auto simp: mb_send_loop_def Let_def split: if_splits)
  next
    case False
    then have "entry ?b < mb_size ?b" using ipc_invD(4)[OF inv, of mb] by (simp add: mb_ok_def)
    from mb_store_correct[OF ipc_invD(4)[OF inv] this] obtain b' where b': "mb_store v ?b = (True, b')" "mb_ok b'" by metis
    have "ipc_inv i (upd_mailbox mb (\<lambda>_. b') K)" by (rule upd_mailbox_inv[OF inv b'(2)])
    then show ?thesis using r False b'(1) by (auto simp: mb_send_loop_def intro: mb_wake_inv)
  qed
  assume b: "mb_send_loop mb v time K = Blocked K'" and c: "rt_current_thread K \<noteq> i" "rt_scheduler_lock_nest K = 0" "timeout_ok time"
  let ?K1 = "set_error (rt_current_thread K) RT_EOK K"
  have w: "wait_on (Suspend_sender (MailBox mb)) (mb_flag ?b) time ?K1 = Blocked K'"
    using b by (auto simp: mb_send_loop_def Let_def split: if_splits prod.splits)
  show "ipc_inv i K'" by (rule blocked_inv[OF set_error_inv[OF inv] _ _ _ c(3) w]) (use c in simp_all)
qed

lemma mb_recv_loop_inv:
  assumes inv: "ipc_inv i K"
  shows "mb_recv_loop mb time K = Mail e v K' \<Longrightarrow> ipc_inv i K'"
    "mb_recv_loop mb time K = Recv_blocked K' \<Longrightarrow> rt_current_thread K \<noteq> i \<Longrightarrow> rt_scheduler_lock_nest K = 0 \<Longrightarrow>
       timeout_ok time \<Longrightarrow> ipc_inv i K'"
proof -
  let ?b = "mailboxes K mb"
  have call: "recv_call_of c \<noteq> Mail e v K'" if "\<And>e K. c \<noteq> Return e K" for c using that by (cases c) (auto simp: recv_call_of_def)
  have blk: "recv_call_of c = Recv_blocked K' \<longleftrightarrow> c = Blocked K'" for c by (cases c) (auto simp: recv_call_of_def)
  show "ipc_inv i K'" if r: "mb_recv_loop mb time K = Mail e v K'"
  proof (cases "entry ?b = 0")
    case True
    then show ?thesis using r set_error_inv[OF set_error_inv[OF inv]] by (auto simp: mb_recv_loop_def Let_def call split: if_splits)
  next
    case False
    then obtain w b' where b': "mb_fetch ?b = (w, b')" "mb_ok b'" using mb_fetch_correct[OF ipc_invD(4)[OF inv, of mb]] by blast
    have "ipc_inv i (upd_mailbox mb (\<lambda>_. b') K)" by (rule upd_mailbox_inv[OF inv b'(2)])
    then show ?thesis using r False b'(1) by (auto simp: mb_recv_loop_def intro: mb_wake_inv)
  qed
  assume b: "mb_recv_loop mb time K = Recv_blocked K'" and c: "rt_current_thread K \<noteq> i" "rt_scheduler_lock_nest K = 0" "timeout_ok time"
  let ?K1 = "set_error (rt_current_thread K) RT_EOK K"
  have w: "wait_on (Suspend_thread (MailBox mb)) (mb_flag ?b) time ?K1 = Blocked K'"
    using b by (auto simp: mb_recv_loop_def Let_def blk split: if_splits prod.splits)
  show "ipc_inv i K'" by (rule blocked_inv[OF set_error_inv[OF inv] _ _ _ c(3) w]) (use c in simp_all)
qed

lemma mb_urgent_inv:
  assumes inv: "ipc_inv i K" and r: "rt_mb_urgent mb v K = Return e K'"
  shows "ipc_inv i K'"
proof (cases "entry (mailboxes K mb) = mb_size (mailboxes K mb)")
  case False
  then have "entry (mailboxes K mb) < mb_size (mailboxes K mb)" using ipc_invD(4)[OF inv, of mb] by (simp add: mb_ok_def)
  from mb_store_urgent_correct(1)[OF ipc_invD(4)[OF inv] this] show ?thesis
    using r False by (auto simp: rt_mb_urgent_def intro!: mb_wake_inv upd_mailbox_inv inv)
qed (use r inv in \<open>simp add: rt_mb_urgent_def\<close>)

section \<open>Message queues\<close>

definition mq_hand :: "rt_messagequeue \<Rightarrow> nat \<Rightarrow> bool" where
  "mq_hand q k \<longleftrightarrow> (\<exists>qs fs hs. mq_rep q qs fs hs \<and> k \<in> hs)"

lemma upd_mq_inv: "ipc_inv i K \<Longrightarrow> mq_ok (f (msgqueues K b)) \<Longrightarrow> ipc_inv i (upd_mq b f K)"
  by (auto simp: ipc_inv_def sem_ok_def mutex_ok_def)

lemma mq_call_of_simps [simp]: "mq_call_of c = Holding k K \<longleftrightarrow> False" "mq_call_of c = Mq_return e K \<longleftrightarrow> c = Return e K"
  "mq_call_of c = Mq_blocked K \<longleftrightarrow> c = Blocked K"
  by (cases c; auto simp: mq_call_of_def)+

lemma mq_take_ok: "mq_ok q \<Longrightarrow> mq_take_free q = Some (k, q1) \<Longrightarrow> mq_ok q1 \<and> mq_hand q1 k"
  using mq_take_free_rep(2) unfolding mq_ok_def mq_hand_def by blast

lemma mq_pop_ok: "mq_ok q \<Longrightarrow> mq_pop q = Some (k, q1) \<Longrightarrow> mq_ok q1 \<and> mq_hand q1 k"
  using mq_pop_rep(2) unfolding mq_ok_def mq_hand_def by blast

lemma mq_pop_some: "mq_ok q \<Longrightarrow> mq_entry q \<noteq> 0 \<Longrightarrow> mq_pop q \<noteq> None"
proof -
  assume "mq_ok q" and e: "mq_entry q \<noteq> 0"
  then obtain qs fs hs where r: "mq_rep q qs fs hs" by (auto simp: mq_ok_def)
  then have "qs \<noteq> []" using e by (auto simp: mq_rep_def)
  then show ?thesis using mq_pop_rep(1)[OF r] by simp
qed

lemma mq_send_loop_inv:
  assumes inv: "ipc_inv i K"
  shows "mq_send_loop mq time K = Holding k K' \<Longrightarrow> ipc_inv i K' \<and> mq_hand (msgqueues K' mq) k"
    "mq_send_loop mq time K = Mq_return e K' \<Longrightarrow> ipc_inv i K'"
    "mq_send_loop mq time K = Mq_blocked K' \<Longrightarrow> rt_current_thread K \<noteq> i \<Longrightarrow> rt_scheduler_lock_nest K = 0 \<Longrightarrow>
       timeout_ok time \<Longrightarrow> ipc_inv i K'"
proof -
  show "mq_send_loop mq time K = Holding k K' \<Longrightarrow> ipc_inv i K' \<and> mq_hand (msgqueues K' mq) k"
    using mq_take_ok[OF ipc_invD(5)[OF inv, of mq]] by (auto simp: mq_send_loop_def Let_def intro!: upd_mq_inv inv split: option.splits if_splits)
  show "mq_send_loop mq time K = Mq_return e K' \<Longrightarrow> ipc_inv i K'"
    using set_error_inv[OF inv] by (auto simp: mq_send_loop_def Let_def split: option.splits if_splits)
  assume b: "mq_send_loop mq time K = Mq_blocked K'" and c: "rt_current_thread K \<noteq> i" "rt_scheduler_lock_nest K = 0" "timeout_ok time"
  have w: "wait_on (Suspend_sender (MessageQueue mq)) (mq_flag (msgqueues K mq)) time (set_error (rt_current_thread K) RT_EOK K) = Blocked K'"
    using b by (auto simp: mq_send_loop_def Let_def split: option.splits if_splits)
  show "ipc_inv i K'" by (rule blocked_inv[OF set_error_inv[OF inv] _ _ _ c(3) w]) (use c in simp_all)
qed

lemma mq_recv_loop_inv:
  assumes inv: "ipc_inv i K"
  shows "mq_recv_loop mq time K = Holding k K' \<Longrightarrow> ipc_inv i K' \<and> mq_hand (msgqueues K' mq) k"
    "mq_recv_loop mq time K = Mq_return e K' \<Longrightarrow> ipc_inv i K'"
    "mq_recv_loop mq time K = Mq_blocked K' \<Longrightarrow> rt_current_thread K \<noteq> i \<Longrightarrow> rt_scheduler_lock_nest K = 0 \<Longrightarrow>
       timeout_ok time \<Longrightarrow> ipc_inv i K'"
proof -
  show "mq_recv_loop mq time K = Holding k K' \<Longrightarrow> ipc_inv i K' \<and> mq_hand (msgqueues K' mq) k"
    using mq_pop_ok[OF ipc_invD(5)[OF inv, of mq]] by (auto simp: mq_recv_loop_def Let_def intro!: upd_mq_inv inv split: option.splits if_splits)
  show "mq_recv_loop mq time K = Mq_return e K' \<Longrightarrow> ipc_inv i K'"
    using set_error_inv[OF set_error_inv[OF inv]] by (auto simp: mq_recv_loop_def Let_def split: option.splits if_splits)
  assume b: "mq_recv_loop mq time K = Mq_blocked K'" and c: "rt_current_thread K \<noteq> i" "rt_scheduler_lock_nest K = 0" "timeout_ok time"
  have w: "wait_on (Suspend_thread (MessageQueue mq)) (mq_flag (msgqueues K mq)) time (set_error (rt_current_thread K) RT_EOK K) = Blocked K'"
    using b by (auto simp: mq_recv_loop_def Let_def split: option.splits if_splits)
  show "ipc_inv i K'" by (rule blocked_inv[OF set_error_inv[OF inv] _ _ _ c(3) w]) (use c in simp_all)
qed

lemma mq_finish_inv:
  assumes inv: "ipc_inv i K" and k: "mq_hand (msgqueues K mq) k"
  shows "ipc_inv i (snd (rt_mq_send_finish mq k K))" "fst (rt_mq_send_finish mq k K) = RT_EOK"
    "ipc_inv i (snd (rt_mq_urgent_finish mq k K))" "fst (rt_mq_urgent_finish mq k K) = RT_EOK"
    "ipc_inv i (snd (rt_mq_recv_finish mq k K))"
proof -
  obtain qs fs hs where r: "mq_rep (msgqueues K mq) qs fs hs" "k \<in> hs" using k by (auto simp: mq_hand_def)
  obtain q1 where q1: "mq_append k (msgqueues K mq) = (True, q1)" "mq_ok q1" using mq_append_rep[OF r] unfolding mq_ok_def by metis
  obtain q2 where q2: "mq_push_front k (msgqueues K mq) = (True, q2)" "mq_ok q2" using mq_push_front_rep[OF r] unfolding mq_ok_def by metis
  have q3: "mq_ok (mq_add_free k (msgqueues K mq))" using mq_add_free_rep[OF r] unfolding mq_ok_def by blast
  show "ipc_inv i (snd (rt_mq_send_finish mq k K))" "fst (rt_mq_send_finish mq k K) = RT_EOK"
    "ipc_inv i (snd (rt_mq_urgent_finish mq k K))" "fst (rt_mq_urgent_finish mq k K) = RT_EOK" "ipc_inv i (snd (rt_mq_recv_finish mq k K))"
    using upd_mq_inv[OF inv] q1 q2 q3
    by (simp_all add: rt_mq_send_finish_def rt_mq_urgent_finish_def rt_mq_recv_finish_def mq_finish_def mb_wake_inv)
qed

lemma mq_reset_inv:
  assumes inv: "ipc_inv i K"
  shows "rt_mq_detach mq K = Some K' \<Longrightarrow> ipc_inv i K'" "rt_mq_control_reset mq K = Some (e, K') \<Longrightarrow> ipc_inv i K'"
proof -
  show d: "ipc_inv i K'" if m: "rt_mq_detach mq K = Some K'" for K'
  proof -
    from m obtain K1 where K1: "ipc_list_resume_all (Suspend_thread (MessageQueue mq)) K = Some K1"
      "ipc_list_resume_all (Suspend_sender (MessageQueue mq)) K1 = Some K'"
      unfolding rt_mq_detach_def by (cases "ipc_list_resume_all (Suspend_thread (MessageQueue mq)) K") auto
    from resume_all_inv(1)[OF inv _ K1(1)] have "ipc_inv i K1" by simp
    from resume_all_inv(1)[OF this _ K1(2)] show ?thesis by simp
  qed
  assume r: "rt_mq_control_reset mq K = Some (e, K')"
  then obtain K1 q1 where K1: "rt_mq_detach mq K = Some K1" "mq_reset (msgqueues K1 mq) = Some q1" "K' = rt_schedule (upd_mq mq (\<lambda>_. q1) K1)"
    unfolding rt_mq_control_reset_def by (cases "rt_mq_detach mq K") auto
  note i1 = d[OF K1(1)]
  from ipc_invD(5)[OF i1, of mq] K1(2) have "mq_ok q1" using mq_reset_rep[of "msgqueues K1 mq"] unfolding mq_ok_def by (metis option.inject)
  then show "ipc_inv i K'" unfolding K1(3) by (intro schedule_inv upd_mq_inv i1)
qed

end
