(* ===== verification/Timer.thy ===== *)
theory Timer
  imports Scheduler
begin

text \<open>
  The functions of \<^verbatim>\<open>rt-thread/src/timer.c\<close> that touch threads: starting a timer, the checks that run the functions of
  the timers that are due, and the thread of the soft timers. The function of a thread's timer is
  \<^verbatim>\<open>rt_thread_timeout\<close>; the functions of all other timers are the argument \<open>timeout_func\<close>. The result \<open>None\<close> is a failed
  assertion, or a check that does not end.
\<close>

section \<open>Starting a timer\<close>

definition rt_timer_start :: "timer_id \<Rightarrow> 'a kernel_scheme \<Rightarrow> 'a kernel_scheme option" where
  "rt_timer_start t K =
     map_option (\<lambda>K1. if timer_soft (timers K1 t) \<and> \<not> soft_timer_busy K1 \<and> stat (threads K1 (timer_thread K1)) = RT_THREAD_SUSPEND
                      then rt_schedule (snd (rt_thread_resume (timer_thread K1) K1)) else K1)
       (timer_start_list t K)"

section \<open>Running the timers that are due\<close>

text \<open>What a check does with the first timer before its function runs: the timer is taken out of the list and kept in the
  local list of the check; a soft check lets interrupts in while the function runs.\<close>

definition timer_expire :: "timer_head \<Rightarrow> timer_id \<Rightarrow> 'a kernel_scheme \<Rightarrow> 'a kernel_scheme" where
  "timer_expire h t K =
     (let K1 = timer_remove t K;
          K2 = (if \<not> timer_periodic (timers K1 t) then timer_off t K1 else K1);
          K3 = K2\<lparr>expired := (expired K2)(h := t # expired K2 h)\<rparr>
      in if h = Soft then K3\<lparr>soft_timer_busy := True\<rparr> else K3)"

text \<open>And after it has run: a timer that is not in the local list any more was stopped or started by its function.\<close>

definition timer_expired :: "timer_head \<Rightarrow> timer_id \<Rightarrow> 'a kernel_scheme \<Rightarrow> 'a kernel_scheme option" where
  "timer_expired h t K =
     (let K1 = (if h = Soft then K\<lparr>soft_timer_busy := False\<rparr> else K)
      in if expired K1 h = [] then Some K1
         else let K2 = K1\<lparr>expired := (expired K1)(h := removeAll t (expired K1 h))\<rparr>
              in if timer_periodic (timers K2 t) \<and> timer_activated (timers K2 t)
                 then rt_timer_start t (timer_off t K2) else Some K2)"

definition call_timeout :: "(nat \<Rightarrow> 'a kernel_scheme \<Rightarrow> 'a kernel_scheme option) \<Rightarrow> timer_id \<Rightarrow> 'a kernel_scheme \<Rightarrow> 'a kernel_scheme option" where
  "call_timeout timeout_func t K =
     (case t of Thread_timer x \<Rightarrow> rt_thread_timeout x K | Timer n \<Rightarrow> timeout_func n K)"

partial_function (option) timer_check_loop ::
  "(nat \<Rightarrow> 'a kernel_scheme \<Rightarrow> 'a kernel_scheme option) \<Rightarrow> u32 \<Rightarrow> 'a kernel_scheme \<Rightarrow> 'a kernel_scheme option" where
  "timer_check_loop timeout_func current_tick K =
     (case last (timer_list K Hard) of [] \<Rightarrow> Some K
      | t # _ \<Rightarrow>
          if current_tick - timeout_tick (timers K t) < RT_TICK_MAX div 2 then
            (case call_timeout timeout_func t (timer_expire Hard t K) of None \<Rightarrow> None
             | Some K1 \<Rightarrow> (case timer_expired Hard t K1 of None \<Rightarrow> None
                 | Some K2 \<Rightarrow> timer_check_loop timeout_func (rt_tick K1) K2))
          else Some K)"

definition rt_timer_check :: "(nat \<Rightarrow> 'a kernel_scheme \<Rightarrow> 'a kernel_scheme option) \<Rightarrow> 'a kernel_scheme \<Rightarrow> 'a kernel_scheme option" where
  "rt_timer_check timeout_func K = timer_check_loop timeout_func (rt_tick K) K"

partial_function (option) rt_soft_timer_check ::
  "(nat \<Rightarrow> 'a kernel_scheme \<Rightarrow> 'a kernel_scheme option) \<Rightarrow> 'a kernel_scheme \<Rightarrow> 'a kernel_scheme option" where
  "rt_soft_timer_check timeout_func K =
     (case last (timer_list K Soft) of [] \<Rightarrow> Some K
      | t # _ \<Rightarrow>
          if rt_tick K - timeout_tick (timers K t) < RT_TICK_MAX div 2 then
            (case call_timeout timeout_func t (timer_expire Soft t K) of None \<Rightarrow> None
             | Some K1 \<Rightarrow> (case timer_expired Soft t K1 of None \<Rightarrow> None
                 | Some K2 \<Rightarrow> rt_soft_timer_check timeout_func K2))
          else Some K)"

section \<open>The tick\<close>

definition rt_tick_increase :: "(nat \<Rightarrow> 'a kernel_scheme \<Rightarrow> 'a kernel_scheme option) \<Rightarrow> 'a kernel_scheme \<Rightarrow> 'a kernel_scheme option" where
  "rt_tick_increase timeout_func K = rt_timer_check timeout_func (tick_time_slice K)"

section \<open>The thread of the soft timers\<close>

definition RT_TIMER_THREAD_PRIO :: nat where "RT_TIMER_THREAD_PRIO = 5"

text \<open>
  One round of \<^verbatim>\<open>_timer_thread_entry\<close>: the thread reads the next timeout of the soft list, with interrupts enabled again
  afterwards; without a soft timer it suspends itself, otherwise it sleeps until that timeout; then it calls
  \<^verbatim>\<open>rt_soft_timer_check\<close>. The wait is a step of its own, its argument is the timeout read before.
\<close>

definition timer_thread_wait :: "u32 \<Rightarrow> 'a kernel_scheme \<Rightarrow> 'a kernel_scheme option" where
  "timer_thread_wait next_timeout K =
     (if next_timeout = RT_TICK_MAX
      then (case rt_thread_suspend (rt_current_thread K) K of None \<Rightarrow> None | Some (_, K1) \<Rightarrow> Some (rt_schedule K1))
      else if next_timeout - rt_tick K < RT_TICK_MAX div 2
      then rt_thread_sleep (next_timeout - rt_tick K) K
      else Some K)"

definition rt_system_timer_thread_init :: "'a kernel_scheme \<Rightarrow> 'a kernel_scheme option" where
  "rt_system_timer_thread_init K =
     (let K1 = K\<lparr>timer_list := (timer_list K)(Soft := replicate RT_TIMER_SKIP_LIST_LEVEL [])\<rparr>
      in case thread_init (timer_thread K1) RT_TIMER_THREAD_PRIO 10 K1 of None \<Rightarrow> None
         | Some K2 \<Rightarrow> map_option snd (rt_thread_startup (timer_thread K2) K2))"

end
