(* ===== verification/Timer_Inv.thy ===== *)
theory Timer_Inv
  imports Timer Ipc_Inv
begin

text \<open>
  The functions on timers keep the invariant of the kernel, and one round of the check with the timer of a thread
  succeeds: the assertion of \<^verbatim>\<open>rt_thread_timeout\<close> holds because only suspended threads have a running timer.
\<close>

section \<open>Changes of timers\<close>

definition same_threads :: "'a kernel_scheme \<Rightarrow> 'a kernel_scheme \<Rightarrow> bool" where
  "same_threads K K' \<longleftrightarrow> threads K' = threads K \<and> tlists K' = tlists K \<and>
     rt_thread_ready_priority_group K' = rt_thread_ready_priority_group K \<and> rt_scheduler_lock_nest K' = rt_scheduler_lock_nest K \<and>
     rt_current_thread K' = rt_current_thread K \<and> kernel.more K' = kernel.more K"

lemma timer_change_inv:
  assumes inv: "ipc_inv i K" and same: "same_threads K K'" and ok: "timers_ok K'"
    and act: "\<And>x. timer_activated (timers K' (Thread_timer x)) \<Longrightarrow> timer_activated (timers K (Thread_timer x))"
  shows "ipc_inv i K'"
proof -
  note s = same[unfolded same_threads_def]
  have "kernel_inv K'" using steadyD(1)[OF ipc_invD(1)[OF inv]] s ok act unfolding kernel_inv_but_def by auto
  then have st: "steady i K'" using ipc_invD(1)[OF inv] s by (simp add: steady_def)
  have "calm K K'" using s by (simp add: calm_def)
  from calm_inv[OF this inv st] show ?thesis .
qed

lemma inv_timers: "ipc_inv i K \<Longrightarrow> timers_ok K"
  by (rule kernel_invD(9)[OF steadyD(1)[OF ipc_invD(1)]])

lemma same_threads_ops:
  "same_threads K (upd_timer x f K)" "same_threads K (timer_off x K)" "same_threads K (timer_remove x K)" "same_threads K (rt_timer_detach x K)"
  "same_threads K (K\<lparr>expired := a\<rparr>)" "same_threads K (K\<lparr>soft_timer_busy := b\<rparr>)" "same_threads K (snd (rt_timer_stop x K))"
  "same_threads K (timer_init x time periodic soft K)" "same_threads K (snd (snd (rt_timer_control x cmd K)))"
  "timer_start_list x K = Some K' \<Longrightarrow> same_threads K K'"
  using timer_start_sel[of x K K']
  by (auto simp: same_threads_def rt_timer_stop_def timer_init_def rt_timer_control_def split: timer_cmd.split)

lemma same_threads_trans: "same_threads K K1 \<Longrightarrow> same_threads K1 K2 \<Longrightarrow> same_threads K K2"
  by (simp add: same_threads_def)

lemma timer_expire_same: "same_threads K (timer_expire h t K)"
  by (simp add: same_threads_def timer_expire_def Let_def)

lemma timers_ok_local [simp]:
  "timers_ok (S\<lparr>expired := a\<rparr>) = timers_ok S" "timers_ok (S\<lparr>soft_timer_busy := b\<rparr>) = timers_ok S"
  by (simp_all add: timers_ok_def linked_def timer_distance_def[abs_def])

text \<open>Taking a timer out of its list for good, or only for the time its function runs.\<close>

lemma unlink_ok:
  assumes ok: "timers_ok S" and t: "\<And>x. t \<noteq> Thread_timer x"
  shows "timers_ok (timer_remove t S)"
proof -
  note o = timers_okD[OF ok]
  have "rows_sorted (timer_distance S) (map (removeAll t) (timer_list S Hard))" by (rule rows_sorted_remove[OF o(2)])
  moreover have "timer_distance (timer_remove t S) = timer_distance S" by (auto simp: timer_distance_def)
  ultimately show ?thesis unfolding timers_ok_def using o t[symmetric] rows_ok_remove[OF o(1)] by (auto simp: linked_remove[OF o(1)])
qed

lemma timer_expire_ok:
  assumes ok: "timers_ok K"
  shows "timers_ok (timer_expire h t K)"
proof (cases "timer_periodic (timers K t)")
  case True
  then have "t \<noteq> Thread_timer x" for x using timers_okD(6)[OF ok] by auto
  from unlink_ok[OF ok this] show ?thesis using True by (simp add: timer_expire_def Let_def)
next
  case False
  then show ?thesis using detach_ok[OF ok, of t] by (simp add: timer_expire_def Let_def rt_timer_detach_def)
qed

lemma timer_expire_timers:
  "timers (timer_expire h t K) = (timers K)(t := (timers K t)\<lparr>timer_activated := timer_activated (timers K t) \<and> timer_periodic (timers K t)\<rparr>)"
  by (auto simp: timer_expire_def Let_def timer_off_def)

lemma timer_expire_inv:
  assumes "ipc_inv i K"
  shows "ipc_inv i (timer_expire h t K)"
  by (rule timer_change_inv[OF assms timer_expire_same timer_expire_ok[OF inv_timers[OF assms]]])
    (auto simp: timer_expire_timers split: if_splits)

lemma resume_inv:
  assumes inv: "ipc_inv i K"
  shows "ipc_inv i (snd (rt_thread_resume t K))"
proof (cases "stat (threads K t) = RT_THREAD_SUSPEND")
  case True
  show ?thesis by (rule calm_inv[OF calm_ops(2) inv resume_steady[OF ipc_invD(1)[OF inv] True]])
qed (use inv in \<open>simp add: rt_thread_resume_def\<close>)

text \<open>Starting a timer that is not the timer of a thread.\<close>

lemma timer_start_list_inv:
  assumes inv: "ipc_inv i K" and st: "timer_start_list (Timer n) K = Some K'"
  shows "ipc_inv i K'"
  by (rule timer_change_inv[OF inv same_threads_ops(10)[OF st] timer_start_ok(1)[OF inv_timers[OF inv] st]])
    (simp add: timer_start_ok(3)[OF inv_timers[OF inv] st])

lemma rt_timer_start_inv:
  assumes inv: "ipc_inv i K" and st: "rt_timer_start (Timer n) K = Some K'"
  shows "ipc_inv i K'"
proof -
  obtain K1 where K1: "timer_start_list (Timer n) K = Some K1"
    "K' = (if timer_soft (timers K1 (Timer n)) \<and> \<not> soft_timer_busy K1 \<and> stat (threads K1 (timer_thread K1)) = RT_THREAD_SUSPEND
           then rt_schedule (snd (rt_thread_resume (timer_thread K1) K1)) else K1)"
    using st by (auto simp: rt_timer_start_def)
  show ?thesis using timer_start_list_inv[OF inv K1(1)] unfolding K1(2) by (simp add: schedule_inv resume_inv)
qed

lemma timer_expired_inv:
  assumes inv: "ipc_inv i K" and e: "timer_expired h (Timer n) K = Some K'"
  shows "ipc_inv i K'"
proof -
  let ?K1 = "if h = Soft then K\<lparr>soft_timer_busy := False\<rparr> else K"
  let ?K2 = "?K1\<lparr>expired := (expired ?K1)(h := removeAll (Timer n) (expired ?K1 h))\<rparr>"
  have i1: "ipc_inv i ?K1" by (rule timer_change_inv[OF inv]) (use inv_timers[OF inv] in \<open>simp_all add: same_threads_def split: if_splits\<close>)
  have i2: "ipc_inv i ?K2" by (rule timer_change_inv[OF i1]) (use inv_timers[OF i1] in \<open>simp_all add: same_threads_def\<close>)
  show ?thesis
  proof (cases "expired ?K1 h = []")
    case True
    then show ?thesis using e i1 by (simp add: timer_expired_def Let_def)
  next
    case False
    note e' = e[unfolded timer_expired_def Let_def if_not_P[OF False]]
    show ?thesis
    proof (cases "timer_periodic (timers ?K2 (Timer n)) \<and> timer_activated (timers ?K2 (Timer n))")
      case True
      obtain K3 where st: "timer_start_list (Timer n) (timer_off (Timer n) ?K2) = Some K3"
        using e'[unfolded if_P[OF True]] by (auto simp: rt_timer_start_def)
      have "timer_start_list (Timer n) ?K2 = Some K3" using st by (simp add: timer_start_off)
      then have "rt_timer_start (Timer n) ?K2 = Some K'" using e'[unfolded if_P[OF True]] by (simp add: rt_timer_start_def timer_start_off)
      from rt_timer_start_inv[OF i2 this] show ?thesis .
    next
      case False
      then show ?thesis using e'[unfolded if_not_P[OF False]] i2 by simp
    qed
  qed
qed

section \<open>A timeout\<close>

lemma linked_thread_timer:
  assumes inv: "ipc_inv i K" and t: "Thread_timer t \<in> linked Hard K"
  shows "stat (threads K t) = RT_THREAD_SUSPEND" "timer_activated (timers K (Thread_timer t))"
  using timers_okD(3)[OF inv_timers[OF inv] t] kernel_invD(10)[OF steadyD(1)[OF ipc_invD(1)[OF inv]], of t] by simp_all

text \<open>One round of the check whose first timer is the timer of a thread.\<close>

lemma timeout_round:
  assumes inv: "ipc_inv i K" and t: "Thread_timer t \<in> linked Hard K"
  shows "\<exists>K1 K2. rt_thread_timeout t (timer_expire Hard (Thread_timer t) K) = Some K1 \<and> timer_expired Hard (Thread_timer t) K1 = Some K2 \<and>
    ipc_inv i K2 \<and> kernel.more K2 = kernel.more K \<and> rt_tick K1 = rt_tick K \<and> rt_tick K2 = rt_tick K \<and> error (threads K2 t) = - RT_ETIMEOUT \<and>
    runnable (threads K2 t) \<and> (\<forall>x. runnable (threads K x) \<longrightarrow> runnable (threads K2 x)) \<and> (\<forall>h. (\<forall>p. h \<noteq> Ready p) \<longrightarrow> tlists K2 h = removeAll t (tlists K h)) \<and>
    (\<forall>x. x \<noteq> t \<longrightarrow> error (threads K2 x) = error (threads K x) \<and> (stat (threads K2 x) = RT_THREAD_SUSPEND \<longleftrightarrow> stat (threads K x) = RT_THREAD_SUSPEND)) \<and>
    (\<forall>x. timers K2 x = (if x = Thread_timer t then (timers K x)\<lparr>timer_activated := False\<rparr> else timers K x)) \<and>
    (\<forall>h. timer_list K2 h = map (removeAll (Thread_timer t)) (timer_list K h)) \<and>
    (\<forall>h. expired K2 h = removeAll (Thread_timer t) (expired K h))"
proof -
  let ?t = "Thread_timer t"
  define K0 where "K0 = timer_expire Hard ?t K"
  note L = linked_thread_timer[OF inv t]
  have per: "\<not> timer_periodic (timers K ?t)" by (rule timers_okD(6)[OF inv_timers[OF inv]])
  have inv0: "ipc_inv i K0" unfolding K0_def by (rule timer_expire_inv[OF inv])
  have same: "same_threads K K0" unfolding K0_def by (rule timer_expire_same)
  note s0 = same[unfolded same_threads_def]
  have tm0: "timers K0 = (timers K)(?t := (timers K ?t)\<lparr>timer_activated := False\<rparr>)" using per by (simp add: K0_def timer_expire_timers)
  have p0: "timer_list K0 h = map (removeAll ?t) (timer_list K h)" "rt_tick K0 = rt_tick K"
    "expired K0 h = (if h = Hard then [?t] else []) @ removeAll ?t (expired K h)" for h
    using per by (cases h; simp add: K0_def timer_expire_def Let_def timer_off_def)+
  have st0: "stat (threads K0 t) = RT_THREAD_SUSPEND" using s0 L by simp
  from timeout_steady[OF ipc_invD(1)[OF inv0] st0] tm0 obtain K1 where K1: "rt_thread_timeout t K0 = Some K1" "steady i K1"
    "kernel.more K1 = kernel.more K0" "timer_part K1 = timer_part K0" "\<forall>h. (\<forall>p. h \<noteq> Ready p) \<longrightarrow> tlists K1 h = removeAll t (tlists K0 h)"
    "error (threads K1 t) = - RT_ETIMEOUT" "runnable (threads K1 t)" "\<forall>x. runnable (threads K0 x) \<longrightarrow> runnable (threads K1 x)"
    "\<forall>x. x \<noteq> t \<longrightarrow> error (threads K1 x) = error (threads K0 x) \<and> (stat (threads K1 x) = RT_THREAD_SUSPEND \<longleftrightarrow> stat (threads K0 x) = RT_THREAD_SUSPEND)"
    by auto
  note p1 = truncate_fields[OF K1(4)]
  have inv1: "ipc_inv i K1" by (rule calm_inv[OF calm_ops(9)[OF K1(1)] inv0 K1(2)])
  define K2 where "K2 = K1\<lparr>expired := (expired K1)(Hard := removeAll ?t (expired K1 Hard))\<rparr>"
  have e: "timer_expired Hard ?t K1 = Some K2" using per by (simp add: timer_expired_def Let_def p1 p0 tm0 K2_def)
  have inv2: "ipc_inv i K2" by (rule timer_change_inv[OF inv1]) (use inv_timers[OF inv1] in \<open>simp_all add: same_threads_def K2_def\<close>)
  show ?thesis unfolding K0_def[symmetric]
    by (intro exI[of _ K1] exI[of _ K2] conjI) (use K1 e inv2 s0 in \<open>auto simp: K2_def p1 p0 tm0\<close>)
qed

end
