(* ===== verification/Kernel_Run.thy ===== *)
theory Kernel_Run
  imports Ipc_Steps Timer_Inv
begin

text \<open>
  The kernel as a transition system: the start of the system, the calls of threads and interrupt handlers as
  steps, and the invariant that holds in every reachable state.
\<close>

section \<open>Threads\<close>

lemma delay_until_eq:
  "rt_thread_delay_until tick inc K =
     (if rt_tick K - tick < inc then map_option (Pair (tick + inc)) (rt_thread_sleep (tick + inc - rt_tick K) K)
      else Some (rt_tick K, K))"
  by (auto simp: rt_thread_delay_until_def rt_thread_sleep_def Let_def option.map_comp comp_def split: option.splits)

lemma sleep_inv:
  assumes inv: "ipc_inv i K" and c: "rt_current_thread K \<noteq> i" "rt_scheduler_lock_nest K = 0"
  shows "rt_thread_sleep tick K = Some K' \<Longrightarrow> ipc_inv i K'" "rt_thread_delay_until tick inc K = Some (tick', K') \<Longrightarrow> ipc_inv i K'"
proof -
  show s: "ipc_inv i K'" if s: "rt_thread_sleep tick K = Some K'" for tick K'
  proof -
    have "\<exists>K1 K2 :: ipc. thread_timer_start (rt_current_thread K) tick K1 = Some K2"
      using s by (fastforce simp: rt_thread_sleep_def Let_def split: option.splits)
    then obtain K1 K2 :: ipc where "thread_timer_start (rt_current_thread K) tick K1 = Some K2" by blast
    then have "tick < RT_TICK_MAX div 2" by (rule thread_timer_start_bound)
    from sleep_steady[OF ipc_invD(1)[OF inv] c this] s have "steady i K'" by auto
    then show ?thesis by (rule calm_inv[OF calm_sleep[OF s] inv])
  qed
  show "rt_thread_delay_until tick inc K = Some (tick', K') \<Longrightarrow> ipc_inv i K'"
    using s inv by (auto simp: delay_until_eq split: if_splits)
qed

lemma suspend_self_steady:
  assumes s: "steady i K" and c: "rt_current_thread K \<noteq> i" "rt_scheduler_lock_nest K = 0"
  shows "\<exists>K1. rt_thread_suspend (rt_current_thread K) K = Some (RT_EOK, K1) \<and> calm K K1 \<and> steady i (rt_schedule K1) \<and>
    stat (threads (rt_schedule K1) (rt_current_thread K)) = RT_THREAD_SUSPEND \<and> timer_part (rt_schedule K1) = timer_part K"
proof -
  let ?t = "rt_current_thread K"
  obtain K1 where K1: "rt_thread_suspend ?t K = Some (RT_EOK, K1)" "kernel_inv_but {?t} K1"
    "threads K1 = (threads K)(?t := (threads K ?t)\<lparr>stat := RT_THREAD_SUSPEND\<rparr>)"
    "rt_scheduler_lock_nest K1 = 0" "timer_part K1 = timer_part K"
    using suspend_transit[OF steadyD(1)[OF s], of ?t] steadyD(2)[OF s] c(2) by metis
  have "prio_ok (threads K1 ?t)" using steady_prio[OF s] by (simp add: K1(3) prio_ok_def)
  from suspend_in_no_list[OF K1(2) _ this] have "kernel_inv K1" by (simp add: K1(3))
  moreover have "runnable (threads K1 i)" using steadyD(3)[OF s] c(1) by (simp add: K1(3))
  ultimately have S: "steady i (rt_schedule K1)" "sched_frame K1 (rt_schedule K1)" using schedule_steady K1(4) by blast+
  have "stat (threads (rt_schedule K1) ?t) = RT_THREAD_SUSPEND" using sched_frame_stat(2)[OF S(2), of ?t] by (simp add: K1(3))
  moreover have "timer_part (rt_schedule K1) = timer_part K" using S(2) K1(5) by (simp add: sched_frame_def)
  ultimately show ?thesis using K1(1) S(1) calm_ops(1) by blast
qed

lemma thread_inv:
  assumes inv: "ipc_inv i K"
  shows "ipc_inv i (snd (rt_thread_yield K))" "\<not> timer_late K \<Longrightarrow> ipc_inv i (tick_time_slice K)" "ipc_inv i (rt_enter_critical K)"
    "ipc_inv i (rt_exit_critical K)" "ipc_inv i (snd (rt_thread_defunct_dequeue K))" "ipc_inv i (snd (sleep_return K))"
    "ipc_inv i (snd (rt_thread_resume t K))"
    "Thread_timer t \<in> linked Hard K \<Longrightarrow> rt_thread_timeout t (timer_expire Hard (Thread_timer t) K) = Some K1 \<Longrightarrow>
      timer_expired Hard (Thread_timer t) K1 = Some K' \<Longrightarrow> ipc_inv i K'"
    "stat (threads K t) = RT_THREAD_READY \<Longrightarrow> t \<noteq> i \<Longrightarrow> rt_thread_suspend t K = Some (e, K') \<Longrightarrow> ipc_inv i K'"
    "rt_current_thread K \<noteq> i \<Longrightarrow> rt_scheduler_lock_nest K = 0 \<Longrightarrow> ipc_inv i (thread_exit K)"
    "t \<noteq> rt_current_thread K \<Longrightarrow> t \<noteq> i \<Longrightarrow> live (threads K t) \<Longrightarrow> ipc_inv i (snd (rt_thread_detach t K))"
proof -
  note s = ipc_invD(1)[OF inv]
  show "ipc_inv i (snd (rt_thread_yield K))" by (rule calm_inv[OF calm_ops(7) inv yield_steady(1)[OF s]])
  show "ipc_inv i (tick_time_slice K)" if "\<not> timer_late K" by (rule calm_inv[OF calm_ops(11) inv yield_steady(2)[OF s that]])
  show "ipc_inv i (rt_enter_critical K)" by (rule calm_inv[OF calm_ops(12) inv critical_steady(1)[OF s]])
  show "ipc_inv i (rt_exit_critical K)" by (rule calm_inv[OF calm_ops(13) inv critical_steady(2)[OF s]])
  show "ipc_inv i (snd (rt_thread_defunct_dequeue K))" by (rule calm_inv[OF calm_ops(10) inv dequeue_steady[OF s]])
  show "ipc_inv i (snd (sleep_return K))" using inv by (auto simp: sleep_return_def intro: upd_thread_inv)
  show "ipc_inv i (snd (rt_thread_resume t K))" by (rule resume_inv[OF inv])
  show "ipc_inv i K'" if "Thread_timer t \<in> linked Hard K" "rt_thread_timeout t (timer_expire Hard (Thread_timer t) K) = Some K1"
    "timer_expired Hard (Thread_timer t) K1 = Some K'" using timeout_round[OF inv that(1)] that(2,3) by auto
  show "ipc_inv i K'" if "stat (threads K t) = RT_THREAD_READY" "t \<noteq> i" "rt_thread_suspend t K = Some (e, K')"
    using suspend_steady[OF s that(1,2)] that(3) by (intro calm_inv[OF calm_ops(1)[OF that(3)] inv]) auto
  show "ipc_inv i (thread_exit K)" if "rt_current_thread K \<noteq> i" "rt_scheduler_lock_nest K = 0"
    by (rule calm_inv[OF calm_ops(5) inv exit_steady[OF s that]])
  show "ipc_inv i (snd (rt_thread_detach t K))" if "t \<noteq> rt_current_thread K" "t \<noteq> i" "live (threads K t)"
    by (rule calm_inv[OF calm_ops(6) inv detach_steady[OF s that]])
qed

lemma interrupt_inv [simp]: "ipc_inv i (rt_interrupt_enter K) \<longleftrightarrow> ipc_inv i K" "ipc_inv i (rt_interrupt_leave K) \<longleftrightarrow> ipc_inv i K"
  by (simp_all add: rt_interrupt_enter_def rt_interrupt_leave_def ipc_inv_def steady_def kernel_inv_but_def sem_ok_def mutex_ok_def)

lemma suspend_self_inv:
  assumes inv: "ipc_inv i K" and c: "rt_current_thread K \<noteq> i" "rt_scheduler_lock_nest K = 0"
    and s: "rt_thread_suspend (rt_current_thread K) K = Some (e, K1)"
  shows "ipc_inv i (rt_schedule K1)"
proof -
  from suspend_self_steady[OF ipc_invD(1)[OF inv] c] s have "calm K K1" "steady i (rt_schedule K1)" by auto
  from calm_inv[OF calm_schedule[OF this(1)] inv this(2)] show ?thesis .
qed

lemma start_inv:
  assumes inv: "ipc_inv i K" and t: "\<not> live (threads K t)" "\<forall>h. t \<notin> set (tlists K h)"
    and s: "thread_init t p tick K = Some K1" "rt_thread_startup t K1 = Some (e, K2)"
  shows "ipc_inv i K2"
proof -
  have p: "p < RT_THREAD_PRIORITY_MAX" using s(1) by (auto simp: thread_init_def split: if_splits)
  from start_steady[OF ipc_invD(1)[OF inv] t(1) t(2)[rule_format] p, where tick = tick] s have "steady i K2" by auto
  then show ?thesis by (rule calm_inv[OF calm_trans[OF calm_ops(4)[OF s(1)] calm_startup[OF s(2)]] inv])
qed

section \<open>Initialising an object that no thread waits for\<close>

definition unused :: "ipc_object \<Rightarrow> 'a kernel_scheme \<Rightarrow> bool" where
  "unused ob K \<longleftrightarrow> tlists K (Suspend_thread ob) = [] \<and> tlists K (Suspend_sender ob) = []"

lemma object_init_inv:
  assumes inv: "ipc_inv i K"
  shows "unused (Semaphore a) K \<Longrightarrow> rt_sem_init a v f K = Some K' \<Longrightarrow> ipc_inv i K'"
    "unused (Mutex a) K \<Longrightarrow> ipc_inv i (rt_mutex_init a K)" "unused (Event a) K \<Longrightarrow> ipc_inv i (rt_event_init a f K)"
    "unused (MailBox a) K \<Longrightarrow> length pool = n \<Longrightarrow> n < 2 ^ 16 \<Longrightarrow> ipc_inv i (rt_mb_init a pool n f K)"
    "unused (MessageQueue a) K \<Longrightarrow> \<forall>k. length (mpool k) = RT_ALIGN4 sz mod 2 ^ 16 \<Longrightarrow> ipc_inv i (rt_mq_init a mpool sz psz f K)"
proof -
  have id: "K1\<lparr>tlists := (tlists K)(h := [])\<rparr> = K1" if "tlists K h = []" "tlists K1 = tlists K" for K1 :: ipc and h
    using that by (metis fun_upd_triv kernel.surjective kernel.update_convs(2))
  have id2: "K1\<lparr>tlists := (tlists K)(h := [], h' := [])\<rparr> = K1" if "tlists K h = []" "tlists K h' = []" "tlists K1 = tlists K" for K1 :: ipc and h h'
    using that by (metis fun_upd_triv kernel.surjective kernel.update_convs(2))
  show "ipc_inv i K'" if "unused (Semaphore a) K" "rt_sem_init a v f K = Some K'"
    using that inv by (auto simp: rt_sem_init_def unused_def id ipc_inv_def sem_ok_def mutex_ok_def RT_SEM_VALUE_MAX_def split: if_splits)
  show "ipc_inv i (rt_mutex_init a K)" if "unused (Mutex a) K"
    using that inv by (auto simp: rt_mutex_init_def unused_def id intro!: upd_mutex_inv) (simp add: mutex_ok_def mutex_free_def)
  show "ipc_inv i (rt_event_init a f K)" if "unused (Event a) K"
    using that inv by (simp add: rt_event_init_def unused_def id)
  show "ipc_inv i (rt_mb_init a pool n f K)" if "unused (MailBox a) K" "length pool = n" "n < 2 ^ 16"
    using that inv by (auto simp: rt_mb_init_def unused_def id2 mb_ok_def intro!: upd_mailbox_inv)
  show "ipc_inv i (rt_mq_init a mpool sz psz f K)" if u: "unused (MessageQueue a) K" and l: "\<forall>k. length (mpool k) = RT_ALIGN4 sz mod 2 ^ 16"
  proof -
    let ?s = "RT_ALIGN4 sz mod 2 ^ 16"
    have "mq_ok (mq_init_pool ?s (psz div (?s + 4) mod 2 ^ 16) mpool f)" unfolding mq_ok_def using mq_init_pool_rep l by (metis mod_less_divisor zero_less_numeral zero_less_power)
    then show ?thesis using u inv by (simp add: rt_mq_init_def Let_def unused_def id2 upd_mq_inv)
  qed
qed

section \<open>Steps\<close>

text \<open>
  \<open>i\<close> is the idle thread, which neither blocks nor ends. A call blocks only in another thread and with the scheduler
  unlocked; a timeout is below half of the range of the tick counter. The continuations (\<open>_resumed\<close>) may run at any
  time, which covers the executions in which they run when the code runs them.
\<close>

definition may_block :: "nat \<Rightarrow> 'a kernel_scheme \<Rightarrow> bool" where
  "may_block i K \<longleftrightarrow> rt_current_thread K \<noteq> i \<and> rt_scheduler_lock_nest K = 0"

inductive thread_step :: "nat \<Rightarrow> ipc \<Rightarrow> ipc \<Rightarrow> bool" for i K where
  schedule: "thread_step i K (rt_schedule K)"
| tick: "\<not> timer_late K \<Longrightarrow> thread_step i K (tick_time_slice K)"
| timeout: "last (timer_list K Hard) = Thread_timer t # ts \<Longrightarrow> timer_due Hard K \<Longrightarrow>
    rt_thread_timeout t (timer_expire Hard (Thread_timer t) K) = Some K1 \<Longrightarrow>
    timer_expired Hard (Thread_timer t) K1 = Some K' \<Longrightarrow> thread_step i K K'"
| yield: "thread_step i K (snd (rt_thread_yield K))"
| sleep: "may_block i K \<Longrightarrow> rt_thread_sleep tick K = Some K' \<Longrightarrow> thread_step i K K'"
| mdelay: "may_block i K \<Longrightarrow> rt_thread_mdelay ms K = Some K' \<Longrightarrow> thread_step i K K'"
| delay_until: "may_block i K \<Longrightarrow> rt_thread_delay_until tick inc K = Some (tick', K') \<Longrightarrow> thread_step i K K'"
| awake: "thread_step i K (snd (sleep_return K))"
| start: "\<not> live (threads K t) \<Longrightarrow> \<forall>h. t \<notin> set (tlists K h) \<Longrightarrow> thread_init t p tick K = Some K1 \<Longrightarrow>
    rt_thread_startup t K1 = Some (e, K') \<Longrightarrow> thread_step i K K'"
| exit: "may_block i K \<Longrightarrow> thread_step i K (thread_exit K)"
| detach: "t \<noteq> rt_current_thread K \<Longrightarrow> t \<noteq> i \<Longrightarrow> live (threads K t) \<Longrightarrow> thread_step i K (snd (rt_thread_detach t K))"
| reap: "thread_step i K (snd (rt_thread_defunct_dequeue K))"
| suspend: "stat (threads K t) = RT_THREAD_READY \<Longrightarrow> t \<noteq> i \<Longrightarrow> rt_thread_suspend t K = Some (e, K') \<Longrightarrow> thread_step i K K'"
| suspend_self: "may_block i K \<Longrightarrow> rt_thread_suspend (rt_current_thread K) K = Some (e, K1) \<Longrightarrow> thread_step i K (rt_schedule K1)"
| resume: "thread_step i K (snd (rt_thread_resume t K))"
| change_prio: "p < RT_THREAD_PRIORITY_MAX \<Longrightarrow> rt_thread_control t (RT_THREAD_CTRL_CHANGE_PRIORITY p) K = Some (e, K') \<Longrightarrow> thread_step i K K'"
| enter_critical: "thread_step i K (rt_enter_critical K)"
| exit_critical: "thread_step i K (rt_exit_critical K)"
| interrupt_enter: "thread_step i K (rt_interrupt_enter K)"
| interrupt_leave: "thread_step i K (rt_interrupt_leave K)"

text \<open>The function of a timer runs between \<open>begin\<close> and \<open>end\<close>: it is any sequence of steps.\<close>

inductive timer_step :: "nat \<Rightarrow> ipc \<Rightarrow> ipc \<Rightarrow> bool" for i K where
  init: "Timer n \<notin> linked Hard K \<union> linked Soft K \<Longrightarrow> timer_step i K (timer_init (Timer n) time periodic soft K)"
| start: "rt_timer_start (Timer n) K = Some K' \<Longrightarrow> timer_step i K K'"
| stop: "timer_step i K (snd (rt_timer_stop (Timer n) K))"
| detach: "timer_step i K (rt_timer_detach (Timer n) K)"
| control: "timer_step i K (snd (snd (rt_timer_control (Timer n) cmd K)))"
| begin_timeout: "last (timer_list K h) = Timer n # ts \<Longrightarrow> timer_due h K \<Longrightarrow> timer_step i K (timer_expire h (Timer n) K)"
| end_timeout: "timer_expired h (Timer n) K = Some K' \<Longrightarrow> timer_step i K K'"
| soft_wait: "may_block i K \<Longrightarrow> timer_thread_wait next_timeout K = Some K' \<Longrightarrow> timer_step i K K'"

inductive sync_step :: "nat \<Rightarrow> ipc \<Rightarrow> ipc \<Rightarrow> bool" for i K where
  sem_init: "unused (Semaphore a) K \<Longrightarrow> rt_sem_init a v f K = Some K' \<Longrightarrow> sync_step i K K'"
| sem_detach: "rt_sem_detach a K = Some K' \<Longrightarrow> sync_step i K K'"
| sem_take: "rt_sem_take a time K = Return e K' \<Longrightarrow> sync_step i K K'"
| sem_wait: "may_block i K \<Longrightarrow> timeout_ok time \<Longrightarrow> rt_sem_take a time K = Blocked K' \<Longrightarrow> sync_step i K K'"
| sem_release: "sync_step i K (snd (rt_sem_release a K))"
| sem_reset: "rt_sem_control_reset a v K = Some (e, K') \<Longrightarrow> sync_step i K K'"
| mutex_init: "unused (Mutex a) K \<Longrightarrow> sync_step i K (rt_mutex_init a K)"
| mutex_detach: "rt_mutex_detach a K = Some K' \<Longrightarrow> sync_step i K K'"
| mutex_take: "rt_mutex_take a time K = Return e K' \<Longrightarrow> sync_step i K K'"
| mutex_wait: "may_block i K \<Longrightarrow> timeout_ok time \<Longrightarrow> rt_mutex_take a time K = Blocked K' \<Longrightarrow> sync_step i K K'"
| mutex_release: "rt_mutex_release a K = Return e K' \<Longrightarrow> sync_step i K K'"
| event_init: "unused (Event a) K \<Longrightarrow> sync_step i K (rt_event_init a f K)"
| event_detach: "rt_event_detach a K = Some K' \<Longrightarrow> sync_step i K K'"
| event_send: "sync_step i K (snd (rt_event_send a bits K))"
| event_recv: "rt_event_recv a want opt time got K = Received e r K' \<Longrightarrow> sync_step i K K'"
| event_wait: "may_block i K \<Longrightarrow> timeout_ok time \<Longrightarrow> rt_event_recv a want opt time got K = Event_blocked K' \<Longrightarrow> sync_step i K K'"
| event_reset: "rt_event_control_reset a K = Some (e, K') \<Longrightarrow> sync_step i K K'"

definition mq_calls :: "nat \<Rightarrow> nat \<Rightarrow> int \<Rightarrow> u32 \<Rightarrow> mq_call \<Rightarrow> ipc \<Rightarrow> bool" where
  "mq_calls a n time tick c K \<longleftrightarrow> c \<in> {rt_mq_send_wait a n time K, rt_mq_send_resumed a time tick K, rt_mq_urgent a n K,
     rt_mq_recv a n time K, rt_mq_recv_resumed a time tick K}"

inductive message_step :: "nat \<Rightarrow> ipc \<Rightarrow> ipc \<Rightarrow> bool" for i K where
  mb_init: "unused (MailBox a) K \<Longrightarrow> length pool = n \<Longrightarrow> n < 2 ^ 16 \<Longrightarrow> message_step i K (rt_mb_init a pool n f K)"
| mb_detach: "rt_mb_detach a K = Some K' \<Longrightarrow> message_step i K K'"
| mb_send: "rt_mb_send_wait a v time K = Return e K' \<or> rt_mb_send_resumed a v time tick K = Return e K' \<Longrightarrow> message_step i K K'"
| mb_send_blocks: "may_block i K \<Longrightarrow> timeout_ok time \<and> rt_mb_send_wait a v time K = Blocked K' \<or>
    timeout_ok (timeout_left time tick (rt_tick K)) \<and> rt_mb_send_resumed a v time tick K = Blocked K' \<Longrightarrow> message_step i K K'"
| mb_urgent: "rt_mb_urgent a v K = Return e K' \<Longrightarrow> message_step i K K'"
| mb_recv: "rt_mb_recv a time K = Mail e m K' \<or> rt_mb_recv_resumed a time tick K = Mail e m K' \<Longrightarrow> message_step i K K'"
| mb_recv_blocks: "may_block i K \<Longrightarrow> timeout_ok time \<and> rt_mb_recv a time K = Recv_blocked K' \<or>
    timeout_ok (timeout_left time tick (rt_tick K)) \<and> rt_mb_recv_resumed a time tick K = Recv_blocked K' \<Longrightarrow> message_step i K K'"
| mb_reset: "rt_mb_control_reset a K = Some (e, K') \<Longrightarrow> message_step i K K'"
| mq_init: "unused (MessageQueue a) K \<Longrightarrow> \<forall>k. length (mpool k) = RT_ALIGN4 sz mod 2 ^ 16 \<Longrightarrow> message_step i K (rt_mq_init a mpool sz psz f K)"
| mq_detach: "rt_mq_detach a K = Some K' \<Longrightarrow> message_step i K K'"
| mq_call: "mq_calls a n time tick c K \<Longrightarrow> c = Holding k K' \<or> c = Mq_return e K' \<Longrightarrow> message_step i K K'"
| mq_blocks: "may_block i K \<Longrightarrow> timeout_ok time \<Longrightarrow> timeout_ok (timeout_left time tick (rt_tick K)) \<Longrightarrow>
    mq_calls a n time tick (Mq_blocked K') K \<Longrightarrow> message_step i K K'"
| mq_copy: "mq_hand (msgqueues K a) k \<Longrightarrow> length buf \<le> msg_size (msgqueues K a) \<Longrightarrow> message_step i K (upd_mq a (mq_fill k buf) K)"
| mq_finish: "mq_hand (msgqueues K a) k \<Longrightarrow>
    r \<in> {rt_mq_send_finish a k K, rt_mq_urgent_finish a k K, rt_mq_recv_finish a k K} \<Longrightarrow> message_step i K (snd r)"
| mq_reset: "rt_mq_control_reset a K = Some (e, K') \<Longrightarrow> message_step i K K'"

lemma thread_step_inv: "thread_step i K K' \<Longrightarrow> ipc_inv i K \<Longrightarrow> ipc_inv i K'"
proof (induction rule: thread_step.induct)
  case (timeout t ts K1 K')
  then have "Thread_timer t \<in> linked Hard K" by (simp add: linked_def)
  from thread_inv(8)[OF timeout.prems this timeout.hyps(3,4)] show ?case .
next
  case (sleep tick K')
  with sleep_inv(1)[OF sleep.prems _ _ sleep.hyps(2)] show ?case by (simp add: may_block_def)
next
  case (mdelay ms K')
  with sleep_inv(1)[OF mdelay.prems _ _ mdelay.hyps(2)[unfolded rt_thread_mdelay_def]] show ?case by (simp add: may_block_def)
next
  case (delay_until tick inc tick' K')
  with sleep_inv(2)[OF delay_until.prems _ _ delay_until.hyps(2)] show ?case by (simp add: may_block_def)
next
  case (start t p tick K1 e K')
  from start_inv[OF start.prems start.hyps] show ?case .
next
  case exit
  then show ?case using thread_inv(10) by (simp add: may_block_def)
next
  case (suspend t e K')
  from thread_inv(9)[OF suspend.prems suspend.hyps] show ?case .
next
  case (suspend_self e K1)
  with suspend_self_inv[OF suspend_self.prems _ _ suspend_self.hyps(2)] show ?case by (simp add: may_block_def)
next
  case (change_prio p t e K')
  then have "K' = change_priority t p K" by (simp add: rt_thread_control_def)
  then show ?case using change_priority_inv[OF change_prio.prems change_prio.hyps(1)] by simp
qed (simp_all add: schedule_inv thread_inv(1-7,11))

lemma timer_control_ok:
  assumes ok: "timers_ok S"
  shows "timers_ok (snd (snd (rt_timer_control (Timer n) cmd S)))"
proof -
  have *: "timers_ok (upd_timer (Timer n) f S)" if "\<And>x. timeout_tick (f x) = timeout_tick x \<and> timer_activated (f x) = timer_activated x \<and>
      timer_soft (f x) = timer_soft x" for f
  proof -
    have "timer_distance (upd_timer (Timer n) f S) = timer_distance S" using that by (auto simp: timer_distance_def)
    then show ?thesis using ok that by (auto simp: timers_ok_def)
  qed
  show ?thesis using ok by (cases cmd) (simp_all add: rt_timer_control_def *)
qed

lemma timer_step_inv: "timer_step i K K' \<Longrightarrow> ipc_inv i K \<Longrightarrow> ipc_inv i K'"
proof (induction rule: timer_step.induct)
  case (init n time periodic soft)
  then show ?case by (intro timer_change_inv[OF init.prems same_threads_ops(8) timer_init_ok[OF inv_timers[OF init.prems]]])
    (auto simp: timer_init_def split: if_splits)
next
  case (start n K')
  from rt_timer_start_inv[OF start.prems start.hyps] show ?case .
next
  case (stop n)
  show ?case by (rule timer_change_inv[OF stop.prems same_threads_ops(7) timer_stop_ok[OF inv_timers[OF stop.prems]]])
    (auto simp: rt_timer_stop_def timer_off_def split: if_splits)
next
  case (detach n)
  show ?case by (rule timer_change_inv[OF detach.prems same_threads_ops(4) detach_ok[OF inv_timers[OF detach.prems]]]) simp
next
  case (control n cmd)
  show ?case by (rule timer_change_inv[OF control.prems same_threads_ops(9) timer_control_ok[OF inv_timers[OF control.prems]]])
    (cases cmd; simp add: rt_timer_control_def)
next
  case (begin_timeout h n ts)
  show ?case by (rule timer_expire_inv[OF begin_timeout.prems])
next
  case (end_timeout h n K')
  from timer_expired_inv[OF end_timeout.prems end_timeout.hyps] show ?case .
next
  case (soft_wait nt K')
  then show ?case using sleep_inv(1)[OF soft_wait.prems] suspend_self_inv[OF soft_wait.prems]
    by (auto simp: timer_thread_wait_def may_block_def split: if_splits option.splits)
qed

lemma sync_step_inv: "sync_step i K K' \<Longrightarrow> ipc_inv i K \<Longrightarrow> ipc_inv i K'"
proof (induction rule: sync_step.induct)
  case (sem_init a v f K')
  from object_init_inv(1)[OF sem_init.prems sem_init.hyps] show ?case .
next
  case (sem_detach a K')
  from resume_all_inv(1)[OF sem_detach.prems _ sem_detach.hyps[unfolded rt_sem_detach_def]] show ?case by simp
next
  case (sem_take a time e K')
  from sem_take_inv(1)[OF sem_take.prems sem_take.hyps] show ?case .
next
  case (sem_wait time a K')
  with sem_take_inv(2)[OF sem_wait.prems sem_wait.hyps(3)] show ?case by (simp add: may_block_def)
next
  case (sem_reset a v e K')
  from object_reset_inv(1)[OF sem_reset.prems sem_reset.hyps] show ?case .
next
  case (mutex_detach a K')
  from resume_all_inv(1)[OF mutex_detach.prems _ mutex_detach.hyps[unfolded rt_mutex_detach_def]] show ?case by simp
next
  case (mutex_take a time e K')
  from mutex_take_inv(1)[OF mutex_take.prems mutex_take.hyps] show ?case .
next
  case (mutex_wait time a K')
  with mutex_take_inv(2)[OF mutex_wait.prems mutex_wait.hyps(3)] show ?case by (simp add: may_block_def)
next
  case (mutex_release a e K')
  from mutex_release_inv[OF mutex_release.prems mutex_release.hyps] show ?case .
next
  case (event_detach a K')
  from resume_all_inv(1)[OF event_detach.prems _ event_detach.hyps[unfolded rt_event_detach_def]] show ?case by simp
next
  case (event_recv a want opt time got e r K')
  from event_recv_inv(1)[OF event_recv.prems event_recv.hyps] show ?case .
next
  case (event_wait time a want opt got K')
  with event_recv_inv(2)[OF event_wait.prems event_wait.hyps(3)] show ?case by (simp add: may_block_def)
next
  case (event_reset a e K')
  from object_reset_inv(2)[OF event_reset.prems event_reset.hyps] show ?case .
qed (simp_all add: object_init_inv(2,3) sem_release_inv event_send_inv)

lemma mq_calls_inv:
  assumes inv: "ipc_inv i K" and c: "mq_calls a n time tick c K"
  shows "c = Holding k K' \<Longrightarrow> ipc_inv i K' \<and> mq_hand (msgqueues K' a) k" "c = Mq_return e K' \<Longrightarrow> ipc_inv i K'"
    "c = Mq_blocked K' \<Longrightarrow> may_block i K \<Longrightarrow> timeout_ok time \<Longrightarrow> timeout_ok (timeout_left time tick (rt_tick K)) \<Longrightarrow> ipc_inv i K'"
proof -
  have c': "c = mq_send_loop a time K \<or> c = mq_send_loop a (timeout_left time tick (rt_tick K)) K \<or> c = mq_recv_loop a time K \<or>
      c = mq_recv_loop a (timeout_left time tick (rt_tick K)) K \<or> c = rt_mq_urgent a n K \<or> c = Mq_halt \<or> (\<exists>e. c = Mq_return e K)"
  proof -
    have "rt_mq_send_wait a n time K \<in> insert (mq_send_loop a time K) (insert Mq_halt (range (\<lambda>e. Mq_return e K)))"
      "rt_mq_recv a n time K \<in> insert (mq_recv_loop a time K) (insert Mq_halt (range (\<lambda>e. Mq_return e K)))"
      "rt_mq_send_resumed a time tick K \<in> insert (mq_send_loop a (timeout_left time tick (rt_tick K)) K) (range (\<lambda>e. Mq_return e K))"
      "rt_mq_recv_resumed a time tick K \<in> insert (mq_recv_loop a (timeout_left time tick (rt_tick K)) K) (range (\<lambda>e. Mq_return e K))"
      by (simp_all add: rt_mq_send_wait_def rt_mq_send_resumed_def rt_mq_recv_def rt_mq_recv_resumed_def Let_def)
    then show ?thesis using c unfolding mq_calls_def by blast
  qed
  have u: "rt_mq_urgent a n K = Holding k K' \<Longrightarrow> ipc_inv i K' \<and> mq_hand (msgqueues K' a) k"
    "rt_mq_urgent a n K = Mq_return e K' \<Longrightarrow> ipc_inv i K'" "rt_mq_urgent a n K \<noteq> Mq_blocked K'"
    using mq_take_ok[OF ipc_invD(5)[OF inv, of a]] inv by (auto simp: rt_mq_urgent_def intro!: upd_mq_inv split: if_splits option.splits)
  let ?left = "timeout_left time tick (rt_tick K)"
  note S = mq_send_loop_inv[OF inv, of a time] mq_send_loop_inv[OF inv, of a ?left]
    and R = mq_recv_loop_inv[OF inv, of a time] mq_recv_loop_inv[OF inv, of a ?left]
  show "c = Holding k K' \<Longrightarrow> ipc_inv i K' \<and> mq_hand (msgqueues K' a) k" using c' u(1) S(1,4) R(1,4) by (elim disjE exE) simp_all
  show "c = Mq_return e K' \<Longrightarrow> ipc_inv i K'" using c' u(2) S(2,5) R(2,5) inv by (elim disjE exE) simp_all
  show "c = Mq_blocked K' \<Longrightarrow> may_block i K \<Longrightarrow> timeout_ok time \<Longrightarrow> timeout_ok ?left \<Longrightarrow> ipc_inv i K'"
    using c' u(3) S(3,6) R(3,6) unfolding may_block_def by (elim disjE exE) simp_all
qed

lemma message_step_inv: "message_step i K K' \<Longrightarrow> ipc_inv i K \<Longrightarrow> ipc_inv i K'"
proof (induction rule: message_step.induct)
  case (mb_detach a K')
  from object_reset_inv(4)[OF mb_detach.prems mb_detach.hyps] show ?case .
next
  case (mb_send a v time e K' tick)
  then show ?case using mb_send_loop_inv(1)[OF mb_send.prems] by (auto simp: rt_mb_send_wait_def rt_mb_send_resumed_def Let_def split: if_splits)
next
  case (mb_send_blocks time a v K' tick)
  then show ?case using mb_send_loop_inv(2)[OF mb_send_blocks.prems]
    by (auto simp: rt_mb_send_wait_def rt_mb_send_resumed_def Let_def may_block_def split: if_splits)
next
  case (mb_urgent a v e K')
  from mb_urgent_inv[OF mb_urgent.prems mb_urgent.hyps] show ?case .
next
  case (mb_recv a time e m K' tick)
  then show ?case using mb_recv_loop_inv(1)[OF mb_recv.prems] by (auto simp: rt_mb_recv_def rt_mb_recv_resumed_def Let_def split: if_splits)
next
  case (mb_recv_blocks time a K' tick)
  then show ?case using mb_recv_loop_inv(2)[OF mb_recv_blocks.prems]
    by (auto simp: rt_mb_recv_def rt_mb_recv_resumed_def Let_def may_block_def split: if_splits)
next
  case (mb_reset a e K')
  from object_reset_inv(3)[OF mb_reset.prems mb_reset.hyps] show ?case .
next
  case (mq_detach a K')
  from mq_reset_inv(1)[OF mq_detach.prems mq_detach.hyps] show ?case .
next
  case (mq_call a n time tick c k K' e)
  then show ?case using mq_calls_inv(1,2)[OF mq_call.prems mq_call.hyps(1)] by blast
next
  case (mq_blocks time tick a n K')
  then show ?case using mq_calls_inv(3)[OF mq_blocks.prems mq_blocks.hyps(4)] by blast
next
  case (mq_copy a k buf)
  then obtain qs fs hs where "mq_rep (msgqueues K a) qs fs hs" "k \<in> hs" by (auto simp: mq_hand_def)
  then have "mq_ok (mq_fill k buf (msgqueues K a))" using mq_copy.hyps(2) mq_fill_rep(1) unfolding mq_ok_def by blast
  then show ?case by (rule upd_mq_inv[OF mq_copy.prems])
next
  case (mq_finish a k r)
  then show ?case using mq_finish_inv[OF mq_finish.prems mq_finish.hyps(1)] by blast
next
  case (mq_reset a e K')
  from mq_reset_inv(2)[OF mq_reset.prems mq_reset.hyps] show ?case .
qed (auto intro: object_init_inv)

section \<open>The start of the system\<close>

text \<open>
  \<^verbatim>\<open>rtthread_startup\<close> of \<^verbatim>\<open>components.c\<close>: the timers and the scheduler are initialised, the application, timer and idle threads
  are created and started, then the scheduler runs. A thread is its address, its priority and its time slice.
\<close>

fun start_threads :: "(nat \<times> nat \<times> u32) list \<Rightarrow> 'a kernel_scheme \<Rightarrow> 'a kernel_scheme option" where
  "start_threads [] K = Some K"
| "start_threads ((t, p, tick) # ts) K =
     (case thread_init t p tick K of None \<Rightarrow> None
      | Some K1 \<Rightarrow> (case rt_thread_startup t K1 of None \<Rightarrow> None | Some (_, K2) \<Rightarrow> start_threads ts K2))"

definition rtthread_startup :: "(nat \<times> nat \<times> u32) list \<Rightarrow> nat \<times> nat \<times> u32 \<Rightarrow> 'a kernel_scheme \<Rightarrow> 'a kernel_scheme option" where
  "rtthread_startup app idle K =
     (case start_threads app (rt_system_scheduler_init (rt_system_timer_init K)) of None \<Rightarrow> None
      | Some K1 \<Rightarrow> (case rt_system_timer_thread_init K1 of None \<Rightarrow> None
          | Some K2 \<Rightarrow> map_option rt_system_scheduler_start (start_threads [idle] K2)))"

text \<open>
  The memory before the start: no thread runs or waits, no timer runs, the objects are as their \<open>init\<close> functions leave
  them. The rows of the soft timer list are empty: zeroed list heads and initialised ones are the same list here.
\<close>

definition cold :: "ipc \<Rightarrow> bool" where
  "cold K \<longleftrightarrow> (\<forall>h. tlists K h = []) \<and> (\<forall>t. \<not> live (threads K t)) \<and> rt_current_thread K = 0 \<and>
     (\<forall>a. sem_value (sems K a) \<le> RT_SEM_VALUE_MAX) \<and> (\<forall>m. mutex_free (mutexes K m)) \<and> (\<forall>b. mb_ok (mailboxes K b)) \<and>
     (\<forall>q. mq_ok (msgqueues K q)) \<and> timer_list K Soft = replicate RT_TIMER_SKIP_LIST_LEVEL [] \<and>
     (\<forall>t. \<not> timer_activated (timers K t) \<and> \<not> timer_periodic (timers K t) \<and> \<not> timer_soft (timers K t))"

text \<open>The threads a start runs: valid priorities, different addresses, none of them \<^verbatim>\<open>RT_NULL\<close>.\<close>

definition startable :: "(nat \<times> nat \<times> u32) list \<Rightarrow> nat \<times> nat \<times> u32 \<Rightarrow> 'a kernel_scheme \<Rightarrow> bool" where
  "startable app idle K \<longleftrightarrow> distinct (timer_thread K # map fst (idle # app)) \<and> 0 \<notin> set (timer_thread K # map fst (idle # app)) \<and>
     (\<forall>x\<in>set (idle # app). fst (snd x) < RT_THREAD_PRIORITY_MAX)"

definition starting :: "nat set \<Rightarrow> 'a kernel_scheme \<Rightarrow> bool" where
  "starting T K \<longleftrightarrow> kernel_inv K \<and> rt_current_thread K = 0 \<and> 0 \<notin> T \<and> (\<forall>h. (\<forall>p. h \<noteq> Ready p) \<longrightarrow> tlists K h = []) \<and>
     (\<forall>t. if t \<in> T then stat (threads K t) = RT_THREAD_READY else \<not> live (threads K t)) \<and>
     timer_list K = (\<lambda>_. replicate RT_TIMER_SKIP_LIST_LEVEL [])"

lemma startup_starting:
  assumes s: "starting T K" and t: "t \<noteq> 0" "t \<notin> T" and p: "p < RT_THREAD_PRIORITY_MAX"
  shows "\<exists>K1 e K2. thread_init t p tick K = Some K1 \<and> rt_thread_startup t K1 = Some (e, K2) \<and> starting (insert t T) K2 \<and>
    kernel.more K2 = kernel.more K \<and> timer_thread K2 = timer_thread K"
proof -
  have inv: "kernel_inv K" and cur: "rt_current_thread K = 0" and other: "\<And>h. (\<And>p. h \<noteq> Ready p) \<Longrightarrow> tlists K h = []"
    and st: "\<And>x. x \<in> T \<Longrightarrow> stat (threads K x) = RT_THREAD_READY" "\<And>x. x \<notin> T \<Longrightarrow> \<not> live (threads K x)"
    using s by (auto simp: starting_def)
  have out: "t \<notin> set (tlists K h)" for h
  proof (cases h)
    case (Ready q)
    then show ?thesis using ready_queue_member(1)[OF inv, of t q] st(2)[OF t(2)] by (auto simp: live_def)
  qed (simp_all add: other)
  obtain K1 where K1: "thread_init t p tick K = Some K1" using p by (simp add: thread_init_def)
  let ?f = "\<lambda>th. th\<lparr>current_priority := init_priority th, number_mask := push_bit (init_priority th) 1, stat := RT_THREAD_SUSPEND, stat_yield := False\<rparr>"
  define K2 where "K2 = upd_thread t ?f K1"
  have th1: "stat (threads K1 t) = RT_THREAD_INIT" "init_priority (threads K1 t) = p" "\<And>x. x \<noteq> t \<Longrightarrow> threads K1 x = threads K x"
    "tlists K1 = tlists K" "rt_current_thread K1 = 0" "kernel.more K1 = kernel.more K"
    using thread_init_sel(2-6,8)[OF K1] cur trans[OF fun_cong[OF thread_init_sel(1)[OF K1]] fun_upd_other] by simp_all
  have idle: "\<not> timer_activated (timers K (Thread_timer t))" using timer_idle[OF inv, of t] st(2)[OF t(2)] by (simp add: live_def)
  have "kernel_inv_but {t} K1" by (rule init_transit[OF transit_start[OF inv out] idle K1])
  then have "kernel_inv_but {t} K2" unfolding K2_def by (rule transit_upd)
  then have inv2: "kernel_inv K2" by (rule suspend_in_no_list) (use p th1(2) in \<open>simp_all add: prio_ok_def K2_def\<close>)
  have st2: "stat (threads K2 t) = RT_THREAD_SUSPEND" "rt_current_thread K2 = 0" "\<And>x. x \<noteq> t \<Longrightarrow> threads K2 x = threads K x"
    "tlists K2 = tlists K" "kernel.more K2 = kernel.more K" by (simp_all add: K2_def th1)
  let ?K3 = "snd (rt_thread_resume t K2)"
  note R = resume_correct[OF inv2 st2(1)]
  have sel: "rt_current_thread ?K3 = 0" "kernel.more ?K3 = kernel.more K" by (simp_all add: R(4,6) st2)
  have "timer_part ?K3 = timer_part K1" using resume_idle[of K2 t] thread_init_sel(10)[OF K1] by (simp add: K2_def)
  from truncate_fields[OF this] have tl: "timer_list ?K3 = timer_list K" "timer_thread ?K3 = timer_thread K"
    using thread_init_sel[OF K1] by simp_all
  have "rt_thread_startup t K1 = Some (RT_EOK, ?K3)" using th1(1) sel unfolding rt_thread_startup_def Let_def K2_def by simp
  moreover have "starting (insert t T) ?K3"
    unfolding starting_def
  proof (intro conjI allI impI)
    show "kernel_inv ?K3" by (rule R(1))
    show "rt_current_thread ?K3 = 0" "0 \<notin> insert t T" using sel s t(1) by (auto simp: starting_def)
    show "tlists ?K3 h = []" if "\<forall>p. h \<noteq> Ready p" for h using R(7)[of h] that other[of h] by (simp add: st2(4))
    show "if x \<in> insert t T then stat (threads ?K3 x) = RT_THREAD_READY else \<not> live (threads ?K3 x)" for x
      using st t by (cases "x = t") (auto simp: R(3) st2)
    show "timer_list ?K3 = (\<lambda>_. replicate RT_TIMER_SKIP_LIST_LEVEL [])" using s tl(1) by (simp add: starting_def)
  qed
  ultimately show ?thesis using K1 sel(2) tl(2) by blast
qed

lemma start_threads_starting:
  assumes "starting T K" "distinct (map fst ts)" "\<forall>x\<in>set ts. fst x \<noteq> 0 \<and> fst x \<notin> T \<and> fst (snd x) < RT_THREAD_PRIORITY_MAX"
  shows "\<exists>K'. start_threads ts K = Some K' \<and> starting (T \<union> fst ` set ts) K' \<and> kernel.more K' = kernel.more K \<and> timer_thread K' = timer_thread K"
  using assms
proof (induction ts arbitrary: T K)
  case (Cons x ts)
  obtain t p tick where x: "x = (t, p, tick)" by (cases x)
  from startup_starting[OF Cons.prems(1), of t p tick] Cons.prems(3) x obtain K1 e K2 where
    K2: "thread_init t p tick K = Some K1" "rt_thread_startup t K1 = Some (e, K2)" "starting (insert t T) K2"
      "kernel.more K2 = kernel.more K" "timer_thread K2 = timer_thread K" by auto
  have d: "distinct (map fst ts)" and n: "t \<notin> fst ` set ts" using Cons.prems(2) x by auto
  have "\<forall>y\<in>set ts. fst y \<noteq> 0 \<and> fst y \<notin> insert t T \<and> fst (snd y) < RT_THREAD_PRIORITY_MAX" using Cons.prems(3) n by auto
  from Cons.IH[OF K2(3) d this] obtain K' where "start_threads ts K2 = Some K'" "starting (insert t T \<union> fst ` set ts) K'"
    "kernel.more K' = kernel.more K2" "timer_thread K' = timer_thread K2" by blast
  then show ?case using K2 x by auto
qed simp

lemma timer_thread_starting:
  assumes s: "starting T K" and t: "timer_thread K \<noteq> 0" "timer_thread K \<notin> T"
  shows "\<exists>K'. rt_system_timer_thread_init K = Some K' \<and> starting (insert (timer_thread K) T) K' \<and> kernel.more K' = kernel.more K"
proof -
  have "K\<lparr>timer_list := (timer_list K)(Soft := replicate RT_TIMER_SKIP_LIST_LEVEL [])\<rparr> = K"
    using s by (simp add: starting_def fun_upd_idem)
  moreover obtain K1 e K2 where K2: "thread_init (timer_thread K) RT_TIMER_THREAD_PRIO 10 K = Some K1"
    "rt_thread_startup (timer_thread K) K1 = Some (e, K2)" "starting (insert (timer_thread K) T) K2"
    "kernel.more K2 = kernel.more K" "timer_thread K2 = timer_thread K"
    using startup_starting[OF s t, of RT_TIMER_THREAD_PRIO 10] by (auto simp: RT_TIMER_THREAD_PRIO_def RT_THREAD_PRIORITY_MAX_def)
  moreover have "timer_thread K1 = timer_thread K" by (rule thread_init_sel(12)[OF K2(1)])
  ultimately show ?thesis by (simp add: rt_system_timer_thread_init_def Let_def)
qed

lemma scheduler_start_steady:
  assumes s: "starting T K" and i: "i \<in> T"
  shows "steady i (rt_system_scheduler_start K)" "\<forall>h. (\<forall>p. h \<noteq> Ready p) \<longrightarrow> tlists (rt_system_scheduler_start K) h = []"
    "kernel.more (rt_system_scheduler_start K) = kernel.more K"
    "\<And>x. live (threads (rt_system_scheduler_start K) x) \<Longrightarrow> current_priority (threads (rt_system_scheduler_start K)
       (rt_current_thread (rt_system_scheduler_start K))) \<le> current_priority (threads (rt_system_scheduler_start K) x)"
proof -
  have inv: "kernel_inv K" and st: "\<And>x. x \<in> T \<Longrightarrow> stat (threads K x) = RT_THREAD_READY" "\<And>x. x \<notin> T \<Longrightarrow> \<not> live (threads K x)"
    and other: "\<And>h. (\<And>p. h \<noteq> Ready p) \<Longrightarrow> tlists K h = []" using s by (auto simp: starting_def)
  have "rt_thread_ready_priority_group K \<noteq> 0" using group_empty[OF inv, of i] st(1)[OF i] by auto
  from highest_ready[OF inv this] obtain t p where h: "scheduler_get_highest_priority_thread K = (t, p)" "t \<in> set (tlists K (Ready p))"
    "\<And>x. stat (threads K x) = RT_THREAD_READY \<Longrightarrow> p \<le> current_priority (threads K x)" by (metis empty_iff)
  note M = ready_queue_member[OF inv h(2)]
  let ?K1 = "K\<lparr>rt_current_thread := t\<rparr>"
  let ?f = "\<lambda>th. th\<lparr>stat := RT_THREAD_RUNNING, stat_yield := False\<rparr>"
  have run: "stat (threads K x) \<noteq> RT_THREAD_RUNNING" for x using st[of x] by (cases "x \<in> T") (auto simp: live_def)
  have inv1: "kernel_inv ?K1"
  proof (rule kernel_invI)
    show "h = h'" if "x \<in> set (tlists ?K1 h)" "x \<in> set (tlists ?K1 h')" for x h h' using kernel_invD(2)[OF inv, of x h h'] that by simp
    show "stat (threads ?K1 x) = RT_THREAD_SUSPEND" if "timer_activated (timers ?K1 (Thread_timer x))" for x
      using kernel_invD(10)[OF inv, of x] that by simp
  qed (use kernel_invD(1,3-9)[OF inv] run in simp_all)
  let ?K2 = "upd_thread t ?f (rt_schedule_remove_thread t ?K1)"
  have eq: "rt_system_scheduler_start K = ?K2" by (simp add: rt_system_scheduler_start_def Let_def h(1))
  have "kernel_inv_but {t} (rt_schedule_remove_thread t ?K1)" using remove_transit[OF inv1] M(4) by simp
  then have tr: "kernel_inv_but {t} ?K2" by (rule transit_upd)
  have "kernel_inv ?K2" using tr by (rule transit_end) (use M(1,4) timer_idle[OF inv, of t] in \<open>simp_all add: prio_ok_def\<close>)
  moreover have "runnable (threads ?K2 i)" using st(1)[OF i] by (simp add: runnable_def)
  ultimately show "steady i (rt_system_scheduler_start K)" by (simp add: steady_def eq)
  show "\<forall>h. (\<forall>p. h \<noteq> Ready p) \<longrightarrow> tlists (rt_system_scheduler_start K) h = []" using other by (simp add: eq)
  show "kernel.more (rt_system_scheduler_start K) = kernel.more K" by (simp add: eq)
  show "current_priority (threads (rt_system_scheduler_start K) (rt_current_thread (rt_system_scheduler_start K)))
      \<le> current_priority (threads (rt_system_scheduler_start K) x)" if "live (threads (rt_system_scheduler_start K) x)" for x
    using that st[of x] h(3)[of x] M(2) by (cases "x = t"; cases "x \<in> T") (auto simp: eq)
qed

lemma cold_starting:
  assumes c: "cold K"
  shows "starting {} (rt_system_scheduler_init (rt_system_timer_init K))"
    "kernel.more (rt_system_scheduler_init (rt_system_timer_init K)) = kernel.more K"
    "timer_thread (rt_system_scheduler_init (rt_system_timer_init K)) = timer_thread K"
proof -
  let ?K0 = "rt_system_scheduler_init (rt_system_timer_init K)" and ?rows = "replicate RT_TIMER_SKIP_LIST_LEVEL []"
  have k0: "tlists ?K0 = tlists K" using c
    by (auto simp: cold_def rt_system_scheduler_init_def rt_system_timer_init_def split: list_head.split)
  have sel: "threads ?K0 = threads K" "rt_current_thread ?K0 = rt_current_thread K" "rt_thread_ready_priority_group ?K0 = 0"
    "timers ?K0 = timers K" by (simp_all add: rt_system_scheduler_init_def rt_system_timer_init_def)
  show "kernel.more ?K0 = kernel.more K" "timer_thread ?K0 = timer_thread K"
    by (simp_all add: rt_system_scheduler_init_def rt_system_timer_init_def)
  have tl: "timer_list ?K0 = (\<lambda>_. ?rows)"
  proof
    fix h show "timer_list ?K0 h = ?rows"
      using c by (cases h) (simp_all add: rt_system_scheduler_init_def rt_system_timer_init_def cold_def)
  qed
  have "timers_ok ?K0" using c
    by (simp add: timers_ok_def tl sel rows_ok_def rows_sorted_def linked_def cold_def RT_TIMER_SKIP_LIST_LEVEL_def)
  then have "kernel_inv ?K0" using c by (auto simp: kernel_inv_but_def k0 sel cold_def live_def)
  then show "starting {} ?K0" using c by (simp add: starting_def k0 sel tl cold_def)
qed

lemma startup_inv:
  assumes c: "cold K" and ts: "startable app idle K"
  shows "\<exists>K'. rtthread_startup app idle K = Some K' \<and> ipc_inv (fst idle) K' \<and>
    (\<forall>x. live (threads K' x) \<longrightarrow> current_priority (threads K' (rt_current_thread K')) \<le> current_priority (threads K' x))"
proof -
  let ?K0 = "rt_system_scheduler_init (rt_system_timer_init K)"
  note s0 = cold_starting[OF c] and t = ts[unfolded startable_def]
  obtain K1 where K1: "start_threads app ?K0 = Some K1" "starting (fst ` set app) K1" "kernel.more K1 = kernel.more K" "timer_thread K1 = timer_thread K"
    using start_threads_starting[OF s0(1), of app] t s0(2,3) by force
  obtain K2 where K2: "rt_system_timer_thread_init K1 = Some K2" "starting (insert (timer_thread K) (fst ` set app)) K2" "kernel.more K2 = kernel.more K"
    using timer_thread_starting[OF K1(2)] t K1(3,4) by auto
  obtain K3 where K3: "start_threads [idle] K2 = Some K3" "starting (insert (timer_thread K) (fst ` set app) \<union> {fst idle}) K3" "kernel.more K3 = kernel.more K"
    using start_threads_starting[OF K2(2), of "[idle]"] t K2(3) by auto
  note S = scheduler_start_steady[OF K3(2), of "fst idle"]
  let ?K = "rt_system_scheduler_start K3"
  note f = more_fields[OF S(3)[unfolded K3(3)]]
  have "ipc_inv (fst idle) ?K" using S(1,2) f c by (simp add: ipc_inv_def sem_ok_def mutex_ok_def cold_def mutex_free_def)
  then show ?thesis using S(4) by (simp add: rtthread_startup_def K1(1) K2(1) K3(1))
qed

section \<open>Reachable states\<close>

definition kernel_step :: "nat \<Rightarrow> ipc \<Rightarrow> ipc \<Rightarrow> bool" where
  "kernel_step i K K' \<longleftrightarrow> thread_step i K K' \<or> timer_step i K K' \<or> sync_step i K K' \<or> message_step i K K'"

inductive reachable :: "nat \<Rightarrow> ipc \<Rightarrow> bool" for i where
  boot: "cold K \<Longrightarrow> startable app idle K \<Longrightarrow> i = fst idle \<Longrightarrow> rtthread_startup app idle K = Some K' \<Longrightarrow> reachable i K'"
| step: "reachable i K \<Longrightarrow> kernel_step i K K' \<Longrightarrow> reachable i K'"

lemma kernel_step_inv: "kernel_step i K K' \<Longrightarrow> ipc_inv i K \<Longrightarrow> ipc_inv i K'"
  unfolding kernel_step_def using thread_step_inv timer_step_inv sync_step_inv message_step_inv by blast

lemma reachable_inv: "reachable i K \<Longrightarrow> ipc_inv i K"
proof (induction rule: reachable.induct)
  case (boot K app idle K')
  then show ?case using startup_inv[of K app idle] by auto
next
  case (step K K')
  then show ?case using kernel_step_inv by blast
qed

end
