(* ===== verification/Kernel_Demo.thy ===== *)
theory Kernel_Demo
  imports Kernel_Run
begin

text \<open>
  A small system on which the properties of the kernel are exercised: the idle thread 1, the timer thread 4 and the
  threads 2 and 3 of priority 10, started from zeroed memory, and states reached from there.
\<close>

definition cold_thread :: rt_thread where
  "cold_thread = \<lparr>stat = RT_THREAD_INIT, stat_yield = False, error = RT_EOK, current_priority = 0, init_priority = 0, number_mask = 0,
     event_set = 0, event_info = 0, init_tick = 0, remaining_tick = 0\<rparr>"

definition cold_timer :: rt_timer where
  "cold_timer = \<lparr>timer_activated = False, timer_periodic = False, timer_soft = False, timeout_tick = 0, timer_init_tick = 0\<rparr>"

definition cold_kernel :: ipc where
  "cold_kernel = \<lparr>rt_tick = 0, timers = \<lambda>_. cold_timer, timer_list = \<lambda>_. [[]], expired = \<lambda>_. [], random_nr = 0,
     soft_timer_busy = False, timer_thread = 4, threads = \<lambda>_. cold_thread, tlists = \<lambda>_. [], rt_thread_ready_priority_group = 0, rt_scheduler_lock_nest = 0,
     rt_current_thread = 0, rt_current_priority = 0, rt_interrupt_nest = 0,
     sems = \<lambda>_. \<lparr>sem_flag = RT_IPC_FLAG_PRIO, sem_value = 0\<rparr>,
     mutexes = \<lambda>_. \<lparr>mutex_flag = RT_IPC_FLAG_PRIO, mutex_value = 1, original_priority = 0xFF, hold = 0, owner = 0\<rparr>,
     events = \<lambda>_. \<lparr>event_flag = RT_IPC_FLAG_FIFO, event_bits = 0\<rparr>,
     mailboxes = \<lambda>_. \<lparr>mb_flag = RT_IPC_FLAG_FIFO, msg_pool = [0, 0], mb_size = 2, entry = 0, in_offset = 0, out_offset = 0\<rparr>,
     msgqueues = \<lambda>_. mq_init_pool 4 1 (\<lambda>_. [0, 0, 0, 0]) RT_IPC_FLAG_FIFO\<rparr>"

lemma cold_kernel_cold: "cold cold_kernel"
  using mq_init_pool_rep[of 1 "\<lambda>_. [0, 0, 0, 0]" 4]
  by (auto simp: cold_def cold_kernel_def cold_thread_def cold_timer_def live_def mutex_free_def mb_ok_def mq_ok_def RT_TIMER_SKIP_LIST_LEVEL_def)

lemma cold_kernel_sel [simp]:
  "rt_tick cold_kernel = 0" "timers cold_kernel x = cold_timer" "timer_list cold_kernel h = [[]]" "timer_thread cold_kernel = 4"
  "expired cold_kernel h = []" "threads cold_kernel t = cold_thread" "tlists cold_kernel q = []"
  "rt_thread_ready_priority_group cold_kernel = 0" "rt_scheduler_lock_nest cold_kernel = 0" "rt_current_thread cold_kernel = 0"
  "rt_interrupt_nest cold_kernel = 0"
  by (simp_all add: cold_kernel_def)

text \<open>The start: the timer thread has the best priority, runs first, finds no soft timer and suspends itself.\<close>

definition demo_app :: "(nat \<times> nat \<times> u32) list" where
  "demo_app = [(2, 10, 20), (3, 10, 20)]"

definition demo_idle :: "nat \<times> nat \<times> u32" where
  "demo_idle = (1, 31, 20)"

definition demo_boot :: ipc where
  "demo_boot = the (rtthread_startup demo_app demo_idle cold_kernel)"

definition demo :: ipc where
  "demo = the (timer_thread_wait RT_TICK_MAX demo_boot)"

lemma demo_startable: "startable demo_app demo_idle cold_kernel" "fst demo_idle = 1"
  by (simp_all add: startable_def demo_app_def demo_idle_def RT_THREAD_PRIORITY_MAX_def)

lemma demo_started: "rtthread_startup demo_app demo_idle cold_kernel = Some demo_boot"
  using startup_inv[OF cold_kernel_cold demo_startable(1)] by (auto simp: demo_boot_def)

lemma demo_boot_reachable: "reachable 1 demo_boot"
  using reachable.boot[OF cold_kernel_cold demo_startable(1) refl demo_started] by (simp add: demo_startable(2))

lemmas kernel_eval = rtthread_startup_def rt_system_scheduler_init_def thread_init_def rt_thread_startup_def rt_thread_resume_def
  rt_schedule_insert_thread_def rt_schedule_remove_thread_def rt_list_insert_before_def rt_list_remove_def thread_timer_stop_def
  upd_thread_def Let_def RT_THREAD_PRIORITY_MAX_def rt_system_scheduler_start_def scheduler_get_highest_priority_thread_def
  rt_timer_stop_def timer_init_def upd_timer_def rt_system_timer_thread_init_def RT_TIMER_THREAD_PRIO_def

lemma ffs_demo: "rt_ffs 0x80000420 = 6" "rt_ffs 0x80000400 = 11" "rt_ffs 0x80100020 = 6" "rt_ffs 0x80100000 = 21" "rt_ffs 0x80100400 = 11"
  by code_simp+

lemma cold_init: "rt_system_scheduler_init (rt_system_timer_init cold_kernel) = cold_kernel"
  by (simp add: rt_system_scheduler_init_def rt_system_timer_init_def cold_kernel_def fun_eq_iff RT_TIMER_SKIP_LIST_LEVEL_def split: list_head.split)

definition demo_thread :: "nat \<Rightarrow> thread_stat \<Rightarrow> rt_thread" where
  "demo_thread p s = cold_thread\<lparr>stat := s, current_priority := p, init_priority := p, number_mask := 2 ^ p, init_tick := 20, remaining_tick := 20\<rparr>"

definition demo_timer_thread :: "thread_stat \<Rightarrow> rt_thread" where
  "demo_timer_thread s = (demo_thread 5 s)\<lparr>init_tick := 10, remaining_tick := 10\<rparr>"

lemmas demo_eval = kernel_eval cold_kernel_def cold_thread_def cold_timer_def demo_thread_def demo_timer_thread_def ffs_demo fun_eq_iff
  RT_TIMER_SKIP_LIST_LEVEL_def

lemma demo_boot_eq:
  "demo_boot = cold_kernel\<lparr>threads := (threads cold_kernel)(1 := demo_thread 31 RT_THREAD_READY, 2 := demo_thread 10 RT_THREAD_READY,
       3 := demo_thread 10 RT_THREAD_READY, 4 := demo_timer_thread RT_THREAD_RUNNING),
     tlists := (tlists cold_kernel)(Ready 31 := [1], Ready 10 := [2, 3]), rt_thread_ready_priority_group := 0x80000400, rt_current_thread := 4\<rparr>"
  unfolding demo_boot_def rtthread_startup_def cold_init
  by (simp add: demo_app_def demo_idle_def demo_eval)

lemma demo_wait: "timer_thread_wait RT_TICK_MAX demo_boot = Some demo"
  and demo_eq: "demo = cold_kernel\<lparr>threads := (threads cold_kernel)(1 := demo_thread 31 RT_THREAD_READY, 2 := demo_thread 10 RT_THREAD_RUNNING,
       3 := demo_thread 10 RT_THREAD_READY, 4 := demo_timer_thread RT_THREAD_SUSPEND),
     tlists := (tlists cold_kernel)(Ready 31 := [1], Ready 10 := [3]), rt_thread_ready_priority_group := 0x80000400,
     rt_current_thread := 2, rt_current_priority := 10\<rparr>"
  unfolding demo_def demo_boot_eq
  by (simp_all add: timer_thread_wait_def rt_thread_suspend_def rt_schedule_def switch_to_def demo_eval)

lemma demo_reachable: "reachable 1 demo"
proof -
  have "timer_step 1 demo_boot demo" by (rule timer_step.soft_wait[OF _ demo_wait]) (simp add: may_block_def demo_boot_eq)
  then show ?thesis using reachable.step[OF demo_boot_reachable] by (simp add: kernel_step_def)
qed

lemma demo_facts [simp]:
  "rt_current_thread demo = 2" "rt_scheduler_lock_nest demo = 0" "rt_interrupt_nest demo = 0" "sems demo a = \<lparr>sem_flag = RT_IPC_FLAG_PRIO, sem_value = 0\<rparr>"
  "mutexes demo m = \<lparr>mutex_flag = RT_IPC_FLAG_PRIO, mutex_value = 1, original_priority = 0xFF, hold = 0, owner = 0\<rparr>"
  "wait_head h \<Longrightarrow> tlists demo h = []" "timer_list demo g = [[]]" "tlists demo (Ready 10) = [3]" "tlists demo (Ready 31) = [1]"
  "rt_tick demo = 0"
  by (auto simp: demo_eq cold_kernel_def wait_head_def)

text \<open>Thread 2 waits for semaphore 7; thread 3 runs.\<close>

definition demo_waiting :: ipc where
  "demo_waiting = (case rt_sem_take 7 (- 1) demo of Blocked K \<Rightarrow> K | _ \<Rightarrow> demo)"

lemma demo_waiting:
  "reachable 1 demo_waiting" "tlists demo_waiting (Suspend_thread (Semaphore 7)) = [2]" "rt_scheduler_lock_nest demo_waiting = 0"
  "rt_sem_take 7 (- 1) demo = Blocked demo_waiting"
proof -
  let ?K = "set_error 2 RT_EOK demo"
  note inv = set_error_inv[OF reachable_inv[OF demo_reachable], of 2 RT_EOK]
  obtain K' where K': "wait_on (Suspend_thread (Semaphore 7)) RT_IPC_FLAG_PRIO (- 1) ?K = Blocked K'"
    "tlists K' (Suspend_thread (Semaphore 7)) = [2]" "rt_scheduler_lock_nest K' = 0"
    using wait_on_correct[OF ipc_invD(1)[OF inv], of "Suspend_thread (Semaphore 7)" "- 1" RT_IPC_FLAG_PRIO]
    by (auto simp: timeout_ok_def enqueued_def)
  have t: "rt_sem_take 7 (- 1) demo = Blocked K'" using K'(1) by (simp add: rt_sem_take_def in_thread_context_def)
  then have eq: "demo_waiting = K'" by (simp add: demo_waiting_def)
  show "rt_sem_take 7 (- 1) demo = Blocked demo_waiting" using t eq by simp
  then have "sync_step 1 demo demo_waiting" by (intro sync_step.sem_wait[of _ _ "- 1" 7]) (auto simp: may_block_def timeout_ok_def)
  then show "reachable 1 demo_waiting" using reachable.step[OF demo_reachable] by (simp add: kernel_step_def)
  show "tlists demo_waiting (Suspend_thread (Semaphore 7)) = [2]" "rt_scheduler_lock_nest demo_waiting = 0" using K' eq by simp_all
qed

text \<open>Thread 2 holds mutex 5.\<close>

definition demo_locked :: ipc where
  "demo_locked = (case rt_mutex_take 5 0 demo of Return e K \<Rightarrow> K | _ \<Rightarrow> demo)"

lemma demo_locked:
  "rt_mutex_take 5 0 demo = Return RT_EOK demo_locked" "reachable 1 demo_locked" "owner (mutexes demo_locked 5) = 2"
  "hold (mutexes demo_locked 5) = 1" "in_thread_context demo_locked" "rt_current_thread demo_locked = 2"
  "tlists demo_locked = tlists demo" "rt_scheduler_lock_nest demo_locked = 0"
proof -
  show t: "rt_mutex_take 5 0 demo = Return RT_EOK demo_locked"
    by (simp add: demo_locked_def rt_mutex_take_def in_thread_context_def RT_MUTEX_HOLD_MAX_def Let_def)
  have "sync_step 1 demo demo_locked" by (rule sync_step.mutex_take[OF t])
  then show "reachable 1 demo_locked" using reachable.step[OF demo_reachable] by (simp add: kernel_step_def)
  have e: "demo_locked = upd_mutex 5 (\<lambda>x. x\<lparr>hold := hold x + 1\<rparr>) (upd_mutex 5 (\<lambda>x. x\<lparr>mutex_value := mutex_value x - 1, owner := 2,
      original_priority := current_priority (threads demo 2)\<rparr>) (set_error 2 RT_EOK demo))"
    by (simp add: demo_locked_def rt_mutex_take_def in_thread_context_def RT_MUTEX_HOLD_MAX_def Let_def)
  show "owner (mutexes demo_locked 5) = 2" "hold (mutexes demo_locked 5) = 1" "rt_current_thread demo_locked = 2"
    "in_thread_context demo_locked" "tlists demo_locked = tlists demo" "rt_scheduler_lock_nest demo_locked = 0"
    by (simp_all add: e in_thread_context_def) (simp add: upd_mutex_def upd_thread_def)
qed

text \<open>
  Thread 3 of priority 20 holds the mutexes 5 and 6 when thread 2 of priority 10 is started, which then runs.
\<close>

definition demo_low_boot :: ipc where
  "demo_low_boot = the (rtthread_startup [(3, 20, 20)] demo_idle cold_kernel)"

definition demo_low :: ipc where
  "demo_low = the (timer_thread_wait RT_TICK_MAX demo_low_boot)"

definition returned :: "call \<Rightarrow> ipc" where
  "returned c = (case c of Return e K \<Rightarrow> K | Blocked K \<Rightarrow> K | Halt \<Rightarrow> cold_kernel)"

definition demo_low2 :: ipc where
  "demo_low2 = returned (rt_mutex_take 6 0 (returned (rt_mutex_take 5 0 demo_low)))"

definition demo_preempted :: ipc where
  "demo_preempted = snd (the (rt_thread_startup 2 (the (thread_init 2 10 20 demo_low2))))"

lemma demo_low_boot_eq:
  "demo_low_boot = cold_kernel\<lparr>threads := (threads cold_kernel)(1 := demo_thread 31 RT_THREAD_READY, 3 := demo_thread 20 RT_THREAD_READY,
       4 := demo_timer_thread RT_THREAD_RUNNING),
     tlists := (tlists cold_kernel)(Ready 31 := [1], Ready 20 := [3]), rt_thread_ready_priority_group := 0x80100000, rt_current_thread := 4\<rparr>"
  unfolding demo_low_boot_def rtthread_startup_def cold_init
  by (simp add: demo_idle_def demo_eval)

lemma demo_low_wait: "timer_thread_wait RT_TICK_MAX demo_low_boot = Some demo_low"
  and demo_low_eq: "demo_low = cold_kernel\<lparr>threads := (threads cold_kernel)(1 := demo_thread 31 RT_THREAD_READY, 3 := demo_thread 20 RT_THREAD_RUNNING,
       4 := demo_timer_thread RT_THREAD_SUSPEND),
     tlists := (tlists cold_kernel)(Ready 31 := [1]), rt_thread_ready_priority_group := 0x80000000, rt_current_thread := 3, rt_current_priority := 20\<rparr>"
  unfolding demo_low_def demo_low_boot_eq
  by (simp_all add: timer_thread_wait_def rt_thread_suspend_def rt_schedule_def switch_to_def demo_eval)

lemma demo_low: "reachable 1 demo_low"
proof -
  have st: "startable [(3, 20, 20)] demo_idle cold_kernel" by (simp add: startable_def demo_idle_def RT_THREAD_PRIORITY_MAX_def)
  have "rtthread_startup [(3, 20, 20)] demo_idle cold_kernel = Some demo_low_boot"
    using startup_inv[OF cold_kernel_cold st] by (auto simp: demo_low_boot_def)
  from reachable.boot[OF cold_kernel_cold st refl this] have b: "reachable 1 demo_low_boot" by (simp add: demo_startable(2))
  have "timer_step 1 demo_low_boot demo_low" by (rule timer_step.soft_wait[OF _ demo_low_wait]) (simp add: may_block_def demo_low_boot_eq)
  then show ?thesis using reachable.step[OF b] by (simp add: kernel_step_def)
qed

definition demo_mutex :: rt_mutex where
  "demo_mutex = \<lparr>mutex_flag = RT_IPC_FLAG_PRIO, mutex_value = 0, original_priority = 20, hold = 1, owner = 3\<rparr>"

lemma demo_low2_eq: "demo_low2 = demo_low\<lparr>mutexes := (mutexes cold_kernel)(5 := demo_mutex, 6 := demo_mutex)\<rparr>"
  and demo_low2_calls: "\<exists>K. rt_mutex_take 5 0 demo_low = Return RT_EOK K \<and> rt_mutex_take 6 0 K = Return RT_EOK demo_low2"
  by (simp_all add: demo_low2_def returned_def demo_low_eq rt_mutex_take_def in_thread_context_def Let_def RT_MUTEX_HOLD_MAX_def upd_mutex_def upd_thread_def
      cold_kernel_def demo_thread_def cold_thread_def demo_mutex_def fun_eq_iff)

lemma demo_low2: "reachable 1 demo_low2"
proof -
  obtain K1 where K1: "rt_mutex_take 5 0 demo_low = Return RT_EOK K1" "rt_mutex_take 6 0 K1 = Return RT_EOK demo_low2"
    using demo_low2_calls by blast
  have "reachable 1 K1" by (rule reachable.step[OF demo_low]) (use sync_step.mutex_take[OF K1(1)] in \<open>simp add: kernel_step_def\<close>)
  then show ?thesis by (rule reachable.step) (use sync_step.mutex_take[OF K1(2)] in \<open>simp add: kernel_step_def\<close>)
qed

lemma demo_preempted_eq:
  "demo_preempted = demo_low2\<lparr>threads := (threads demo_low2)(2 := demo_thread 10 RT_THREAD_RUNNING, 3 := demo_thread 20 RT_THREAD_READY),
     tlists := (tlists cold_kernel)(Ready 31 := [1], Ready 20 := [3]), rt_thread_ready_priority_group := 0x80100000,
     rt_current_thread := 2, rt_current_priority := 10\<rparr>"
  and demo_preempted_calls: "\<exists>K. thread_init 2 10 20 demo_low2 = Some K \<and> rt_thread_startup 2 K = Some (RT_EOK, demo_preempted)"
  by (simp_all add: demo_preempted_def demo_low2_eq demo_low_eq rt_schedule_def switch_to_def demo_eval)

lemma demo_preempted: "reachable 1 demo_preempted"
proof -
  obtain K where K: "thread_init 2 10 20 demo_low2 = Some K" "rt_thread_startup 2 K = Some (RT_EOK, demo_preempted)"
    using demo_preempted_calls by blast
  have "\<not> live (threads demo_low2 2)" "\<forall>h. 2 \<notin> set (tlists demo_low2 h)"
    by (simp_all add: demo_low2_eq demo_low_eq cold_kernel_def cold_thread_def live_def)
  from thread_step.start[OF this K] show ?thesis by (intro reachable.step[OF demo_low2]) (simp add: kernel_step_def)
qed

text \<open>Thread 2 waits for mutex 6; thread 3 runs with the priority of thread 2.\<close>

definition demo_inherited :: ipc where
  "demo_inherited = returned (rt_mutex_take 6 (- 1) demo_preempted)"

lemma demo_inherited:
  "reachable 1 demo_inherited" "rt_current_thread demo_inherited = 3" "in_thread_context demo_inherited"
  "mutexes demo_inherited 5 = demo_mutex" "mutexes demo_inherited 6 = demo_mutex" "current_priority (threads demo_inherited 2) = 10"
  "tlists demo_inherited (Suspend_thread (Mutex 6)) = [2]" "tlists demo_inherited (Suspend_thread (Mutex 5)) = []"
proof -
  note eqs = demo_inherited_def returned_def demo_preempted_eq demo_low2_eq demo_low_eq rt_mutex_take_def in_thread_context_def Let_def
    wait_on_def ipc_list_suspend_def rt_thread_suspend_def start_timeout_def change_priority_def rt_schedule_def switch_to_def
    demo_eval demo_mutex_def
  show "rt_current_thread demo_inherited = 3" "in_thread_context demo_inherited" "mutexes demo_inherited 5 = demo_mutex"
    "mutexes demo_inherited 6 = demo_mutex" "current_priority (threads demo_inherited 2) = 10"
    "tlists demo_inherited (Suspend_thread (Mutex 6)) = [2]" "tlists demo_inherited (Suspend_thread (Mutex 5)) = []"
    by (simp_all add: eqs)
  have "\<exists>K. rt_mutex_take 6 (- 1) demo_preempted = Blocked K" by (simp add: eqs)
  then have b: "rt_mutex_take 6 (- 1) demo_preempted = Blocked demo_inherited" by (auto simp: demo_inherited_def returned_def)
  have "may_block 1 demo_preempted" "timeout_ok (- 1)"
    by (simp_all add: may_block_def timeout_ok_def demo_preempted_eq demo_low2_eq demo_low_eq cold_kernel_def)
  from sync_step.mutex_wait[OF this b] show "reachable 1 demo_inherited"
    by (intro reachable.step[OF demo_preempted]) (simp add: kernel_step_def)
qed

end
