(* ===== verification/Kernel_Props.thy ===== *)
theory Kernel_Props
  imports Kernel_Demo
begin

text \<open>
  What the scheduler, the semaphores and the mutexes promise in every reachable state of the kernel.
\<close>

section \<open>The scheduler\<close>

text \<open>Starting the system from zeroed memory with distinct threads of valid priority succeeds; the thread that runs
  then has the best priority of all live threads.\<close>

theorem rtthread_startup_runs_highest:
  assumes "cold K" "startable app idle K"
  shows "\<exists>K'. rtthread_startup app idle K = Some K' \<and> reachable (fst idle) K' \<and> stat (threads K' (rt_current_thread K')) = RT_THREAD_RUNNING \<and>
    (\<forall>x. live (threads K' x) \<longrightarrow> current_priority (threads K' (rt_current_thread K')) \<le> current_priority (threads K' x))"
proof -
  obtain K' where K': "rtthread_startup app idle K = Some K'" "ipc_inv (fst idle) K'"
    "\<forall>x. live (threads K' x) \<longrightarrow> current_priority (threads K' (rt_current_thread K')) \<le> current_priority (threads K' x)"
    using startup_inv[OF assms] by blast
  from reachable.boot[OF assms refl K'(1)] K' steadyD(2)[OF ipc_invD(1)[OF K'(2)]] show ?thesis by blast
qed

theorem rtthread_startup_runs_highest_witness:
  "\<exists>K'. rtthread_startup demo_app demo_idle cold_kernel = Some K' \<and> reachable 1 K' \<and> stat (threads K' (rt_current_thread K')) = RT_THREAD_RUNNING"
  using rtthread_startup_runs_highest[OF cold_kernel_cold demo_startable(1)] by (auto simp: demo_startable(2))

text \<open>C6: In every reachable state the bitmap tells which ready queues hold threads, the ready queue of a priority holds
  exactly the ready threads of that priority, each once, and the current thread is the one that runs.\<close>

theorem scheduler_invariant:
  assumes "reachable i K"
  shows "(\<forall>p<RT_THREAD_PRIORITY_MAX. bit (rt_thread_ready_priority_group K) p \<longleftrightarrow> tlists K (Ready p) \<noteq> []) \<and>
    (\<forall>p t. t \<in> set (tlists K (Ready p)) \<longleftrightarrow> stat (threads K t) = RT_THREAD_READY \<and> current_priority (threads K t) = p) \<and>
    (\<forall>p. distinct (tlists K (Ready p))) \<and> (\<forall>t. stat (threads K t) = RT_THREAD_RUNNING \<longleftrightarrow> t = rt_current_thread K)"
proof -
  note s = ipc_invD(1)[OF reachable_inv[OF assms]]
  note I = kernel_invD[OF steadyD(1)[OF s]]
  have q: "t \<in> set (tlists K (Ready p)) \<longleftrightarrow> stat (threads K t) = RT_THREAD_READY \<and> current_priority (threads K t) = p" for t p
    using I(5)[of t] ready_queue_member(1,2)[OF steadyD(1)[OF s], of t p] by auto
  have r: "stat (threads K t) = RT_THREAD_RUNNING \<longleftrightarrow> t = rt_current_thread K" for t using I(7)[of t] steadyD(2)[OF s] by auto
  show ?thesis by (simp add: q r I(1,8))
qed

theorem scheduler_invariant_witness:
  "stat (threads demo 3) = RT_THREAD_READY \<and> current_priority (threads demo 3) = 10 \<and> bit (rt_thread_ready_priority_group demo) 10"
proof -
  note S = scheduler_invariant[OF demo_reachable]
  show ?thesis using S[THEN conjunct2, THEN conjunct1, THEN spec, of 10, THEN spec, of 3] S[THEN conjunct1, THEN spec, of 10]
    by (simp add: RT_THREAD_PRIORITY_MAX_def)
qed

text \<open>C7: With the scheduler unlocked, \<^verbatim>\<open>rt_schedule\<close> leaves a running thread that no ready thread precedes in priority; it
  keeps every other field of every thread, every waiting queue, and every runnable thread runnable.\<close>

theorem rt_schedule_runs_highest:
  assumes "reachable i K" "rt_scheduler_lock_nest K = 0"
  shows "stat (threads (rt_schedule K) (rt_current_thread (rt_schedule K))) = RT_THREAD_RUNNING \<and>
    (\<forall>t. stat (threads (rt_schedule K) t) = RT_THREAD_READY \<longrightarrow>
       current_priority (threads (rt_schedule K) (rt_current_thread (rt_schedule K))) \<le> current_priority (threads (rt_schedule K) t)) \<and>
    sched_frame K (rt_schedule K)"
proof -
  note s = ipc_invD(1)[OF reachable_inv[OF assms(1)]]
  note S = schedule_runnable[OF steadyD(1,3)[OF s] assms(2)]
  show ?thesis using S(2,3) steadyD(2)[OF S(1)] by blast
qed

theorem rt_schedule_runs_highest_witness:
  "stat (threads (rt_schedule demo_waiting) (rt_current_thread (rt_schedule demo_waiting))) = RT_THREAD_RUNNING"
  using rt_schedule_runs_highest[OF demo_waiting(1,3)] by blast

text \<open>Threads of one priority take turns: a thread that yields goes to the end of the queue of its priority with a new
  time slice, and the first thread of that queue runs.\<close>

theorem rt_thread_yield_round_robin:
  assumes "reachable i K" "rt_scheduler_lock_nest K = 0" "c = rt_current_thread K" "p = current_priority (threads K c)"
    "tlists K (Ready p) = t # ts" "\<forall>q<p. tlists K (Ready q) = []"
  shows "rt_current_thread (snd (rt_thread_yield K)) = t \<and> tlists (snd (rt_thread_yield K)) (Ready p) = ts @ [c] \<and>
    remaining_tick (threads (snd (rt_thread_yield K)) c) = init_tick (threads K c)"
proof -
  note s = ipc_invD(1)[OF reachable_inv[OF assms(1)]]
  let ?f = "\<lambda>th. th\<lparr>remaining_tick := init_tick th, stat_yield := True\<rparr>"
  define K1 where "K1 = upd_thread c ?f K"
  define K2 where "K2 = upd_thread c (\<lambda>th. th\<lparr>stat_yield := False\<rparr>) K1"
  have run: "stat (threads K c) = RT_THREAD_RUNNING" using steadyD(2)[OF s] assms(3) by simp
  have inv: "kernel_inv K2" unfolding K2_def K1_def by (intro kernel_inv_upd steadyD(1)[OF s]) simp_all
  have inv1: "kernel_inv K1" unfolding K1_def by (intro kernel_inv_upd steadyD(1)[OF s]) simp_all
  have t: "t \<in> set (tlists K2 (Ready p))" using assms(5) by (simp add: K2_def K1_def)
  have out: "c \<notin> set (tlists K h)" for h using running_in_no_list[OF steadyD(1)[OF s] run] .
  then have ct: "c \<noteq> t" using assms(5) by (metis list.set_intros(1))
  have g: "rt_thread_ready_priority_group K1 \<noteq> 0"
    using group_empty[OF inv1, of t] ready_queue_member(1)[OF inv1, of t p] assms(5) by (auto simp: K1_def)
  obtain t' p' where h: "scheduler_get_highest_priority_thread K1 = (t', p')" "tlists K1 (Ready p') = t' # tl (tlists K1 (Ready p'))"
    "\<And>x. stat (threads K1 x) = RT_THREAD_READY \<Longrightarrow> p' \<le> current_priority (threads K1 x)"
    using highest_ready[OF inv1 g] by (metis empty_iff)
  have "t \<in> set (tlists K1 (Ready p))" using assms(5) by (simp add: K1_def)
  from ready_queue_member(1,2)[OF inv1 this] h(3)[of t] have "p' \<le> p" by simp
  moreover have "\<not> p' < p" using assms(6) h(2) by (auto simp: K1_def)
  ultimately have p': "p' = p" by simp
  then have t': "t' = t" using h(2) assms(5) by (simp add: K1_def)
  have sel: "rt_current_thread K1 = c" "rt_scheduler_lock_nest K1 = 0" "stat (threads K1 c) = RT_THREAD_RUNNING" "stat_yield (threads K1 c)"
    "current_priority (threads K1 c) = p" using assms(2,3,4) run by (simp_all add: K1_def)
  have eq: "snd (rt_thread_yield K) = switch_to t p True K2"
    using g sel h(1) ct by (simp add: rt_thread_yield_def assms(3)[symmetric] K1_def[symmetric] rt_schedule_def p' t' K2_def)
  have c2: "prio_ok (threads K2 c)" using steady_prio[OF s] assms(3) by (simp add: K2_def K1_def prio_ok_def)
  have tr: "kernel_inv_but {c} K2" by (rule transit_start[OF inv]) (use out in \<open>simp add: K2_def K1_def\<close>)
  have "stat (threads K2 c) = RT_THREAD_RUNNING" "c = rt_current_thread K2" using run assms(3) by (simp_all add: K2_def K1_def)
  note st = this
  have "\<not> timer_activated (timers K2 (Thread_timer c))" using timer_idle[OF inv, of c] st(1) by simp
  note W = switch_to_correct[OF tr _ st(2) ct _ c2 this t eq]
  have d: "t \<notin> set ts" using kernel_invD(1)[OF steadyD(1)[OF s], of "Ready p"] assms(5) by simp
  show ?thesis using W(2) W(3) W(4)[of "Ready p"] st(1) ct d assms(4,5) by (simp add: K2_def K1_def removeAll_id)
qed

theorem rt_thread_yield_round_robin_witness:
  "rt_current_thread (snd (rt_thread_yield demo)) = 3 \<and> tlists (snd (rt_thread_yield demo)) (Ready 10) = [2]"
proof -
  have "\<forall>q<10. tlists demo (Ready q) = []" "current_priority (threads demo 2) = 10" by (simp_all add: demo_eq demo_thread_def)
  then show ?thesis using rt_thread_yield_round_robin[OF demo_reachable, of 2 10 3 "[]"] by simp
qed

end
