(* ===== verification/Sync_Props.thy ===== *)
theory Sync_Props
  imports Kernel_Demo
begin

text \<open>
  What semaphores and mutexes promise to the threads that use them, in every reachable state of the kernel.
\<close>

text \<open>What a call of the scheduler keeps of a thread.\<close>

lemma frame_thread:
  assumes "sched_frame K K'"
  shows "error (threads K' t) = error (threads K t)" "current_priority (threads K' t) = current_priority (threads K t)"
    "event_set (threads K' t) = event_set (threads K t)" "event_info (threads K' t) = event_info (threads K t)"
    "timers K' = timers K"
proof -
  obtain s y where "threads K' t = (threads K t)\<lparr>stat := s, stat_yield := y\<rparr>" using assms unfolding sched_frame_def by blast
  then show "error (threads K' t) = error (threads K t)" "current_priority (threads K' t) = current_priority (threads K t)"
    "event_set (threads K' t) = event_set (threads K t)" "event_info (threads K' t) = event_info (threads K t)" by simp_all
  show "timers K' = timers K" using assms truncate_fields(2)[of K' K] by (simp add: sched_frame_def)
qed

lemma frame_wait: "sched_frame K K' \<Longrightarrow> wait_head h \<Longrightarrow> tlists K' h = tlists K h"
  unfolding sched_frame_def by (metis wait_head_simps(3))

lemma steady_sched: "steady i K \<Longrightarrow> steady i (rt_schedule K) \<and> sched_frame K (rt_schedule K)"
  using schedule_steady[of K i] by (simp add: steady_def)

text \<open>Waking the first waiter and calling the scheduler.\<close>

lemma wake_correct:
  fixes K :: "'a kernel_scheme"
  assumes s: "steady i K" and h: "wait_head h" and q: "tlists K h = t # ts"
  defines "K' \<equiv> rt_schedule (ipc_list_resume h K)"
  shows "steady i K'" "tlists K' h = ts" "\<And>g. wait_head g \<Longrightarrow> g \<noteq> h \<Longrightarrow> tlists K' g = tlists K g" "runnable (threads K' t)"
    "error (threads K' t) = error (threads K t)" "\<not> timer_activated (timers K' (Thread_timer t))" "kernel.more K' = kernel.more K"
    "\<And>x. current_priority (threads K' x) = current_priority (threads K x)"
proof -
  note R = ipc_list_resume_correct[OF s h q]
  note S = steady_sched[OF R(1), folded K'_def]
  note F = frame_thread[OF conjunct2[OF S]]
  show "steady i K'" using S by simp
  show "tlists K' h = ts" using frame_wait[OF conjunct2[OF S] h] R(3) by simp
  show "tlists K' g = tlists K g" if "wait_head g" "g \<noteq> h" for g using frame_wait[OF conjunct2[OF S] that(1)] R(4)[OF that] by simp
  have "runnable (threads (ipc_list_resume h K) t)" by (simp add: R(5) runnable_def)
  then show "runnable (threads K' t)" using S unfolding sched_frame_def by blast
  show "error (threads K' t) = error (threads K t)" "\<not> timer_activated (timers K' (Thread_timer t))" by (simp_all add: F R(5,8))
  show "kernel.more K' = kernel.more K" using S R(2) by (simp add: sched_frame_def)
  show "current_priority (threads K' x) = current_priority (threads K x)" for x by (simp add: F R(5))
qed

section \<open>Objects in every reachable state\<close>

text \<open>C22: No wake-up is lost: in every reachable state a thread waits for a semaphore only when its value is 0, and for a
  mutex only when another thread owns it; the counters stay within their range; a waiting thread is suspended and
  waits in one queue only.\<close>

theorem no_lost_wakeup:
  assumes "reachable i K"
  shows "(\<forall>a. sem_value (sems K a) \<le> RT_SEM_VALUE_MAX \<and> (tlists K (Suspend_thread (Semaphore a)) \<noteq> [] \<longrightarrow> sem_value (sems K a) = 0)) \<and>
    (\<forall>m. if owner (mutexes K m) = 0 then mutex_value (mutexes K m) = 1 \<and> hold (mutexes K m) = 0 \<and> tlists K (Suspend_thread (Mutex m)) = []
         else mutex_value (mutexes K m) = 0 \<and> 1 \<le> hold (mutexes K m) \<and> hold (mutexes K m) \<le> RT_MUTEX_HOLD_MAX \<and>
           owner (mutexes K m) \<notin> set (tlists K (Suspend_thread (Mutex m)))) \<and>
    (\<forall>h t. wait_head h \<longrightarrow> t \<in> set (tlists K h) \<longrightarrow> stat (threads K t) = RT_THREAD_SUSPEND \<and> (\<forall>g. t \<in> set (tlists K g) \<longrightarrow> g = h))"
proof -
  note inv = reachable_inv[OF assms]
  note k = steadyD(1)[OF ipc_invD(1)[OF inv]]
  have "sem_value (sems K a) \<le> RT_SEM_VALUE_MAX \<and> (tlists K (Suspend_thread (Semaphore a)) \<noteq> [] \<longrightarrow> sem_value (sems K a) = 0)" for a
    using ipc_invD(2)[OF inv, of a] by (auto simp: sem_ok_def)
  moreover have "if owner (mutexes K m) = 0 then mutex_value (mutexes K m) = 1 \<and> hold (mutexes K m) = 0 \<and> tlists K (Suspend_thread (Mutex m)) = []
         else mutex_value (mutexes K m) = 0 \<and> 1 \<le> hold (mutexes K m) \<and> hold (mutexes K m) \<le> RT_MUTEX_HOLD_MAX \<and>
           owner (mutexes K m) \<notin> set (tlists K (Suspend_thread (Mutex m)))" for m
    using ipc_invD(3)[OF inv, of m] by (auto simp: mutex_ok_def mutex_free_def mutex_held_def)
  moreover have "stat (threads K t) = RT_THREAD_SUSPEND \<and> (\<forall>g. t \<in> set (tlists K g) \<longrightarrow> g = h)" if "wait_head h" "t \<in> set (tlists K h)" for h t
    using waiter_suspended[OF k that] kernel_invD(2)[OF k, of t _ h] that(2) by blast
  ultimately show ?thesis by blast
qed

theorem no_lost_wakeup_witness:
  "tlists demo_waiting (Suspend_thread (Semaphore 7)) = [2] \<and> sem_value (sems demo_waiting 7) = 0"
proof -
  from no_lost_wakeup[OF demo_waiting(1)]
  have "tlists demo_waiting (Suspend_thread (Semaphore 7)) \<noteq> [] \<longrightarrow> sem_value (sems demo_waiting 7) = 0" by blast
  then show ?thesis using demo_waiting(2) by simp
qed

section \<open>Semaphores\<close>

text \<open>C23: A take that cannot be served puts the thread into the waiting queue and lets another thread run: behind all
  waiters in FIFO order, in priority order in front of the first waiter of lower priority, so that waiters of equal
  priority keep their order. The timer runs exactly when a timeout was given.\<close>

theorem rt_sem_take_waits:
  assumes "reachable i K" "may_block i K" "in_thread_context K" "sem_value (sems K a) = 0" "time \<noteq> 0" "timeout_ok time"
    and "t = rt_current_thread K" "q = tlists K (Suspend_thread (Semaphore a))"
  shows "\<exists>K'. rt_sem_take a time K = Blocked K' \<and> reachable i K' \<and> rt_current_thread K' \<noteq> t \<and> stat (threads K' t) = RT_THREAD_SUSPEND \<and>
    (timer_activated (timers K' (Thread_timer t)) \<longleftrightarrow> time > 0) \<and>
    (time > 0 \<longrightarrow> timeout_tick (timers K' (Thread_timer t)) = rt_tick K + word_of_int time) \<and> sems K' = sems K \<and>
    tlists K' (Suspend_thread (Semaphore a)) =
      (case sem_flag (sems K a) of RT_IPC_FLAG_FIFO \<Rightarrow> q @ [t]
       | RT_IPC_FLAG_PRIO \<Rightarrow> takeWhile (\<lambda>s. current_priority (threads K s) \<le> current_priority (threads K t)) q @
           t # dropWhile (\<lambda>s. current_priority (threads K s) \<le> current_priority (threads K t)) q)"
proof -
  let ?h = "Suspend_thread (Semaphore a)" and ?K = "set_error t RT_EOK K"
  note inv = set_error_inv[OF reachable_inv[OF assms(1)], of t RT_EOK]
  have c: "rt_current_thread ?K \<noteq> i" "rt_scheduler_lock_nest ?K = 0" "wait_head ?h" using assms(2,7) by (simp_all add: may_block_def)
  obtain K' where K': "wait_on ?h (sem_flag (sems K a)) time ?K = Blocked K'" "kernel.more K' = kernel.more ?K"
    "tlists K' ?h = enqueued (sem_flag (sems K a)) (\<lambda>x. current_priority (threads ?K x)) t q"
    "stat (threads K' t) = RT_THREAD_SUSPEND" "rt_current_thread K' \<noteq> t" "timer_activated (timers K' (Thread_timer t)) \<longleftrightarrow> time > 0"
    "time > 0 \<longrightarrow> timeout_tick (timers K' (Thread_timer t)) = rt_tick K + word_of_int time"
    using wait_on_correct[OF ipc_invD(1)[OF inv] c assms(6), of "sem_flag (sems K a)"] assms(7,8) by auto
  have take: "rt_sem_take a time K = Blocked K'" using assms(3,4,5,7) K'(1) by (simp add: rt_sem_take_def)
  have "reachable i K'"
    by (rule reachable.step[OF assms(1)]) (use sync_step.sem_wait[OF assms(2,6) take] in \<open>simp add: kernel_step_def\<close>)
  moreover have f: "(\<lambda>x. current_priority (threads ?K x)) = (\<lambda>x. current_priority (threads K x))" by (simp add: fun_eq_iff)
  then have "tlists K' ?h = (case sem_flag (sems K a) of RT_IPC_FLAG_FIFO \<Rightarrow> q @ [t]
       | RT_IPC_FLAG_PRIO \<Rightarrow> takeWhile (\<lambda>s. current_priority (threads K s) \<le> current_priority (threads K t)) q @
           t # dropWhile (\<lambda>s. current_priority (threads K s) \<le> current_priority (threads K t)) q)"
    unfolding K'(3) by (simp only: enqueued_def insert_prio_eq)
  moreover have "sems K' = sems K" using more_fields(1)[OF K'(2)] by simp
  ultimately show ?thesis using take K'(4-7) by (intro exI[of _ K'] conjI)
qed

theorem rt_sem_take_waits_witness:
  "\<exists>K'. rt_sem_take 7 5 demo = Blocked K' \<and> tlists K' (Suspend_thread (Semaphore 7)) = [2] \<and> timer_activated (timers K' (Thread_timer 2))"
proof -
  have h: "may_block 1 demo" "in_thread_context demo" "sem_value (sems demo 7) = 0" "(5 :: int) \<noteq> 0" "timeout_ok 5" "2 = rt_current_thread demo"
    "[] = tlists demo (Suspend_thread (Semaphore 7))" by (simp_all add: may_block_def in_thread_context_def timeout_ok_def)
  obtain K' where "rt_sem_take 7 5 demo = Blocked K'" "timer_activated (timers K' (Thread_timer 2)) \<longleftrightarrow> (0 :: int) < 5"
    "tlists K' (Suspend_thread (Semaphore 7)) = (case sem_flag (sems demo 7) of RT_IPC_FLAG_FIFO \<Rightarrow> [] @ [2]
       | RT_IPC_FLAG_PRIO \<Rightarrow> takeWhile (\<lambda>s. current_priority (threads demo s) \<le> current_priority (threads demo 2)) [] @
           2 # dropWhile (\<lambda>s. current_priority (threads demo s) \<le> current_priority (threads demo 2)) [])"
    using rt_sem_take_waits[OF demo_reachable h] by metis
  then show ?thesis by simp
qed

text \<open>A release hands over to the first waiter, which can run again and finds no error, and leaves the count; without
  a waiter it adds one, or reports the overflow and changes nothing.\<close>

theorem rt_sem_release_hands_over:
  assumes "reachable i K"
  shows "case tlists K (Suspend_thread (Semaphore a)) of
      [] \<Rightarrow> rt_sem_release a K = (if sem_value (sems K a) < RT_SEM_VALUE_MAX
               then (RT_EOK, upd_sem a (\<lambda>s. s\<lparr>sem_value := sem_value s + 1\<rparr>) K) else (- RT_EFULL, K))
    | t # ts \<Rightarrow> fst (rt_sem_release a K) = RT_EOK \<and> tlists (snd (rt_sem_release a K)) (Suspend_thread (Semaphore a)) = ts \<and>
        runnable (threads (snd (rt_sem_release a K)) t) \<and> error (threads (snd (rt_sem_release a K)) t) = error (threads K t) \<and>
        sems (snd (rt_sem_release a K)) = sems K \<and>
        (\<forall>g. wait_head g \<and> g \<noteq> Suspend_thread (Semaphore a) \<longrightarrow> tlists (snd (rt_sem_release a K)) g = tlists K g)"
proof (cases "tlists K (Suspend_thread (Semaphore a))")
  case (Cons t ts)
  note W = wake_correct[OF ipc_invD(1)[OF reachable_inv[OF assms]] _ Cons]
  show ?thesis using W(2-5) more_fields(1)[OF W(7)] Cons by (simp add: rt_sem_release_def)
qed (simp add: rt_sem_release_def)

theorem rt_sem_release_hands_over_witness:
  "tlists (snd (rt_sem_release 7 demo_waiting)) (Suspend_thread (Semaphore 7)) = [] \<and> runnable (threads (snd (rt_sem_release 7 demo_waiting)) 2)"
  using rt_sem_release_hands_over[OF demo_waiting(1), of 7] by (simp add: demo_waiting(2))

text \<open>A reset of a semaphore always returns: every waiter can run again with the error \<^verbatim>\<open>-RT_ERROR\<close>, nobody waits any
  more, and the count is the new value cut to 16 bits.\<close>

theorem rt_sem_control_reset_returns:
  assumes "reachable i K"
  shows "\<exists>K'. rt_sem_control_reset a v K = Some (RT_EOK, K') \<and> reachable i K' \<and> tlists K' (Suspend_thread (Semaphore a)) = [] \<and>
    (\<forall>t\<in>set (tlists K (Suspend_thread (Semaphore a))). runnable (threads K' t) \<and> error (threads K' t) = - RT_ERROR) \<and>
    sem_value (sems K' a) = v mod 2 ^ 16"
proof -
  let ?h = "Suspend_thread (Semaphore a)"
  obtain K1 where K1: "ipc_list_resume_all ?h K = Some K1" "steady i K1" "tlists K1 ?h = []"
    "\<And>t. t \<in> set (tlists K ?h) \<Longrightarrow> stat (threads K1 t) = RT_THREAD_READY \<and> error (threads K1 t) = - RT_ERROR"
    using ipc_list_resume_all_correct[OF ipc_invD(1)[OF reachable_inv[OF assms]], of ?h] by auto
  let ?K2 = "upd_sem a (\<lambda>s. s\<lparr>sem_value := v mod 2 ^ 16\<rparr>) K1" and ?K' = "rt_schedule (upd_sem a (\<lambda>s. s\<lparr>sem_value := v mod 2 ^ 16\<rparr>) K1)"
  have s2: "steady i ?K2" using K1(2) by simp
  note S = conjunct2[OF steady_sched[OF s2]]
  have r: "rt_sem_control_reset a v K = Some (RT_EOK, ?K')" by (simp add: rt_sem_control_reset_def K1(1))
  have "reachable i ?K'"
    by (rule reachable.step[OF assms]) (use sync_step.sem_reset[OF r] in \<open>simp add: kernel_step_def\<close>)
  moreover have "tlists ?K' ?h = []" using frame_wait[OF S] K1(3) by simp
  moreover have "runnable (threads ?K' t) \<and> error (threads ?K' t) = - RT_ERROR" if "t \<in> set (tlists K ?h)" for t
  proof -
    have "runnable (threads ?K2 t)" using K1(4)[OF that] by (simp add: runnable_def)
    then have "runnable (threads ?K' t)" using S unfolding sched_frame_def by blast
    then show ?thesis using frame_thread(1)[OF S, of t] K1(4)[OF that] by simp
  qed
  moreover have "kernel.more ?K' = kernel.more ?K2" using S by (simp add: sched_frame_def)
  then have "sem_value (sems ?K' a) = v mod 2 ^ 16" using more_fields(1)[of ?K' ?K2] by simp
  ultimately show ?thesis using r by blast
qed

theorem rt_sem_control_reset_returns_witness:
  "\<exists>K'. rt_sem_control_reset 7 3 demo_waiting = Some (RT_EOK, K') \<and> error (threads K' 2) = - RT_ERROR \<and> sem_value (sems K' 7) = 3"
  using rt_sem_control_reset_returns[OF demo_waiting(1), of 7 3] by (auto simp: demo_waiting(2))

section \<open>Mutexes\<close>

text \<open>A take that succeeds makes the caller the only owner: the mutex was free or already the caller's, and it is
  now held by the caller once more.\<close>

theorem rt_mutex_take_exclusive:
  assumes "reachable i K" "rt_mutex_take m time K = Return RT_EOK K'"
  shows "rt_current_thread K \<noteq> 0 \<and> owner (mutexes K m) \<in> {0, rt_current_thread K} \<and> owner (mutexes K' m) = rt_current_thread K \<and>
    hold (mutexes K' m) = hold (mutexes K m) + 1 \<and> (\<forall>n. n \<noteq> m \<longrightarrow> mutexes K' n = mutexes K n) \<and> tlists K' = tlists K"
proof -
  have free: "mutex_value (mutexes K m) > 0 \<Longrightarrow> owner (mutexes K m) = 0"
    using ipc_invD(3)[OF reachable_inv[OF assms(1)], of m] by (auto simp: mutex_ok_def mutex_free_def mutex_held_def)
  have e: "RT_EOK \<noteq> - RT_EFULL" "RT_EOK \<noteq> - RT_ETIMEOUT" by (simp_all add: RT_EOK_def RT_EFULL_def RT_ETIMEOUT_def)
  show ?thesis using assms(2) free e by (auto simp: rt_mutex_take_def Let_def in_thread_context_def split: if_splits)
qed

theorem rt_mutex_take_exclusive_witness:
  "owner (mutexes demo_locked 5) = 2 \<and> hold (mutexes demo_locked 5) = 1"
  using rt_mutex_take_exclusive[OF demo_reachable demo_locked(1)] by simp

text \<open>C26: The last release of a mutex sets the owner's priority back to the one saved in the mutex and hands the mutex over
  to the first waiter, which can run again and owns it once; without a waiter the mutex is free.\<close>

theorem rt_mutex_release_hands_over:
  assumes "reachable i K" "in_thread_context K" "owner (mutexes K m) = rt_current_thread K" "hold (mutexes K m) = 1"
  shows "\<exists>K'. rt_mutex_release m K = Return RT_EOK K' \<and> reachable i K' \<and>
    current_priority (threads K' (rt_current_thread K)) = original_priority (mutexes K m) \<and>
    (case tlists K (Suspend_thread (Mutex m)) of
       [] \<Rightarrow> mutex_free (mutexes K' m) \<and> tlists K' (Suspend_thread (Mutex m)) = []
     | t # ts \<Rightarrow> owner (mutexes K' m) = t \<and> hold (mutexes K' m) = 1 \<and> original_priority (mutexes K' m) = current_priority (threads K t) \<and>
         tlists K' (Suspend_thread (Mutex m)) = ts \<and> runnable (threads K' t) \<and> error (threads K' t) = error (threads K t))"
proof -
  let ?h = "Suspend_thread (Mutex m)" and ?c = "rt_current_thread K"
  note inv = reachable_inv[OF assms(1)]
  from mutex_release_last[OF inv assms(3,2,4)] obtain K1 where K1: "ipc_inv i K1" "kernel.more K1 = kernel.more K" "tlists K1 ?h = tlists K ?h"
    "threads K1 = (threads K)(?c := threads K1 ?c)" "current_priority (threads K1 ?c) = original_priority (mutexes K m)" and
    r: "rt_mutex_release m K = Return RT_EOK (case tlists K ?h of
         [] \<Rightarrow> upd_mutex m (\<lambda>x. x\<lparr>mutex_value := 1, owner := 0, original_priority := 0xff, hold := 0\<rparr>) K1
       | t # ts \<Rightarrow> rt_schedule (ipc_list_resume ?h
                  (upd_mutex m (\<lambda>x. x\<lparr>owner := t, original_priority := current_priority (threads K t), hold := 1\<rparr>) K1)))" by blast
  have reach: "reachable i K'" if "rt_mutex_release m K = Return RT_EOK K'" for K'
    by (rule reachable.step[OF assms(1)]) (use sync_step.mutex_release[OF that] in \<open>simp add: kernel_step_def\<close>)
  have mu1: "mutexes K1 = mutexes K" by (rule more_fields(2)[OF K1(2)])
  show ?thesis
  proof (cases "tlists K ?h")
    case Nil
    then show ?thesis using r reach K1(3,5) by (auto simp: mutex_free_def)
  next
    case (Cons t ts)
    let ?K2 = "upd_mutex m (\<lambda>x. x\<lparr>owner := t, original_priority := current_priority (threads K t), hold := 1\<rparr>) K1"
    let ?K' = "rt_schedule (ipc_list_resume ?h ?K2)"
    have s2: "steady i ?K2" using ipc_invD(1)[OF K1(1)] by simp
    have q2: "tlists ?K2 ?h = t # ts" using K1(3) Cons by simp
    note W = wake_correct[OF s2 _ q2]
    have "t \<noteq> ?c" using ipc_invD(3)[OF inv, of m] assms(3) Cons by (auto simp: mutex_ok_def)
    then have t1: "threads K1 t = threads K t" using K1(4) by (metis fun_upd_other)
    have "mutexes ?K' = mutexes ?K2" by (rule more_fields(2)[OF W(7)]) simp
    then have "owner (mutexes ?K' m) = t \<and> hold (mutexes ?K' m) = 1 \<and> original_priority (mutexes ?K' m) = current_priority (threads K t)" by simp
    moreover have "current_priority (threads ?K' ?c) = original_priority (mutexes K m)" using W(8) K1(5) by simp
    moreover have "tlists ?K' ?h = ts" "runnable (threads ?K' t)" "error (threads ?K' t) = error (threads K t)"
      using W(2,4,5) t1 by simp_all
    moreover have "rt_mutex_release m K = Return RT_EOK ?K'" using r Cons by simp
    ultimately show ?thesis using reach Cons by (intro exI[of _ ?K']) simp
  qed
qed

theorem rt_mutex_release_hands_over_witness:
  "\<exists>K'. rt_mutex_release 5 demo_locked = Return RT_EOK K' \<and> mutex_free (mutexes K' 5)"
  using rt_mutex_release_hands_over[OF demo_locked(2,5), of 5] demo_locked(3,4,6,7) by auto

text \<open>C27: Priority inheritance: a thread that has to wait for a mutex raises the owner to its own priority when the owner's
  is lower, then waits in the mutex's queue in its place while another thread runs.\<close>

theorem rt_mutex_take_inherits:
  assumes "reachable i K" "may_block i K" "in_thread_context K" "time \<noteq> 0" "timeout_ok time"
    and "t = rt_current_thread K" "o' = owner (mutexes K m)" "o' \<noteq> 0" "o' \<noteq> t"
  shows "\<exists>K'. rt_mutex_take m time K = Blocked K' \<and> reachable i K' \<and> rt_current_thread K' \<noteq> t \<and>
    current_priority (threads K' o') = min (current_priority (threads K o')) (current_priority (threads K t)) \<and>
    (\<forall>x. x \<noteq> o' \<longrightarrow> current_priority (threads K' x) = current_priority (threads K x)) \<and>
    t \<in> set (tlists K' (Suspend_thread (Mutex m))) \<and> mutexes K' = mutexes K"
proof -
  let ?h = "Suspend_thread (Mutex m)" and ?K0 = "set_error t RT_EOK K" and ?p = "current_priority (threads K t)"
  note inv = set_error_inv[OF reachable_inv[OF assms(1)], of t RT_EOK]
  define K1 where "K1 = (if ?p < current_priority (threads K o') then change_priority o' ?p ?K0 else ?K0)"
  have p: "?p < RT_THREAD_PRIORITY_MAX" using steady_prio[OF ipc_invD(1)[OF inv]] assms(6) by (simp add: prio_ok_def)
  note P = change_priority_steady[OF ipc_invD(1)[OF inv] p, where t = o']
  have K1: "ipc_inv i K1" "rt_current_thread K1 = t" "rt_scheduler_lock_nest K1 = 0" "kernel.more K1 = kernel.more K"
    using change_priority_inv[OF inv p, where t = o'] inv P(2,3,4) assms(2,6) by (auto simp: K1_def may_block_def)
  have pr: "current_priority (threads K1 x) = (if x = o' then min (current_priority (threads K o')) ?p else current_priority (threads K x))" for x
    using P(6) by (auto simp: K1_def)
  have c: "rt_current_thread K1 \<noteq> i" using K1(2) assms(2,6) by (simp add: may_block_def)
  obtain K' where K': "wait_on ?h (mutex_flag (mutexes K m)) time K1 = Blocked K'" "kernel.more K' = kernel.more K1"
    "tlists K' ?h = enqueued (mutex_flag (mutexes K m)) (\<lambda>x. current_priority (threads K1 x)) t (tlists K1 ?h)"
    "rt_current_thread K' \<noteq> t" "\<And>x. current_priority (threads K' x) = current_priority (threads K1 x)"
    using wait_on_correct[OF ipc_invD(1)[OF K1(1)] c K1(3), of ?h time "mutex_flag (mutexes K m)"] assms(5) K1(2) by auto
  have "mutex_value (mutexes K m) = 0"
    using ipc_invD(3)[OF reachable_inv[OF assms(1)], of m] assms(7,8) by (auto simp: mutex_ok_def mutex_free_def mutex_held_def)
  then have take: "rt_mutex_take m time K = Blocked K'"
    using assms(3,4,6-9) K'(1) by (auto simp: rt_mutex_take_def Let_def K1_def)
  have "reachable i K'"
    by (rule reachable.step[OF assms(1)]) (use sync_step.mutex_wait[OF assms(2,5) take] in \<open>simp add: kernel_step_def\<close>)
  moreover have "mutexes K' = mutexes K" using more_fields(2)[OF K'(2)[unfolded K1(4)]] .
  moreover have "t \<in> set (tlists K' ?h)" unfolding K'(3) by simp
  ultimately show ?thesis using take K'(4,5) pr by (intro exI[of _ K']) simp
qed

theorem rt_mutex_take_inherits_witness:
  "\<exists>K'. rt_mutex_take 6 (- 1) demo_preempted = Blocked K' \<and> current_priority (threads K' 3) = 10"
proof -
  have h: "may_block 1 demo_preempted" "in_thread_context demo_preempted" "(- 1 :: int) \<noteq> 0" "timeout_ok (- 1)"
    "2 = rt_current_thread demo_preempted" "3 = owner (mutexes demo_preempted 6)" "(3 :: nat) \<noteq> 0" "(3 :: nat) \<noteq> 2"
    and p: "current_priority (threads demo_preempted 3) = 20" "current_priority (threads demo_preempted 2) = 10"
    by (simp_all add: may_block_def in_thread_context_def timeout_ok_def demo_preempted_eq demo_low2_eq demo_low_eq cold_kernel_def
        demo_mutex_def demo_thread_def)
  obtain K' where "rt_mutex_take 6 (- 1) demo_preempted = Blocked K'"
    "current_priority (threads K' 3) = min (current_priority (threads demo_preempted 3)) (current_priority (threads demo_preempted 2))"
    using rt_mutex_take_inherits[OF demo_preempted h] by metis
  then show ?thesis using p by simp
qed

text \<open>The priority saved in a mutex is the one its owner had when it took that mutex, so releasing one of two mutexes
  takes back the priority the owner has inherited through the other: a waiter of better priority goes on waiting for
  a mutex whose owner runs with its old, lower priority.\<close>

theorem rt_mutex_release_drops_inheritance:
  assumes "reachable i K" "in_thread_context K" "c = rt_current_thread K" "owner (mutexes K m) = c" "hold (mutexes K m) = 1"
    and "tlists K (Suspend_thread (Mutex m)) = []" "n \<noteq> m" "owner (mutexes K n) = c" "w \<in> set (tlists K (Suspend_thread (Mutex n)))"
    and "current_priority (threads K w) < original_priority (mutexes K m)"
  shows "\<exists>K'. rt_mutex_release m K = Return RT_EOK K' \<and> owner (mutexes K' n) = c \<and> w \<in> set (tlists K' (Suspend_thread (Mutex n))) \<and>
    current_priority (threads K' w) < current_priority (threads K' c)"
proof -
  note inv = reachable_inv[OF assms(1)]
  have p: "original_priority (mutexes K m) < RT_THREAD_PRIORITY_MAX"
    using ipc_invD(3)[OF inv, of m] assms(5) by (auto simp: mutex_ok_def mutex_free_def mutex_held_def)
  note P = change_priority_steady[OF ipc_invD(1)[OF inv] p, where t = c]
  define K1 where "K1 = (if original_priority (mutexes K m) \<noteq> current_priority (threads K c) then change_priority c (original_priority (mutexes K m)) K else K)"
  have K1: "kernel.more K1 = kernel.more K" "\<And>x. x \<noteq> c \<Longrightarrow> threads K1 x = threads K x" "current_priority (threads K1 c) = original_priority (mutexes K m)"
    "\<And>ob. tlists K1 (Suspend_thread ob) = tlists K (Suspend_thread ob)" using P by (auto simp: K1_def)
  let ?f = "\<lambda>x. x\<lparr>hold := (hold x + 255) mod 256\<rparr>"
  let ?K' = "upd_mutex m (\<lambda>x. x\<lparr>mutex_value := mutex_value x + 1, owner := 0, original_priority := 0xff\<rparr>) (upd_mutex m ?f K1)"
  have "mutex_restore_priority m (upd_mutex m ?f K) = upd_mutex m ?f K1"
    using assms(4) by (simp add: mutex_restore_priority_def Let_def K1_def change_priority_upd_mutex)
  moreover have "mutexes K1 = mutexes K" by (rule more_fields(2)[OF K1(1)])
  moreover have "mutex_value (mutexes K m) = 0"
    using ipc_invD(3)[OF inv, of m] assms(5) by (auto simp: mutex_ok_def mutex_free_def mutex_held_def)
  ultimately have "rt_mutex_release m K = Return RT_EOK ?K'"
    using assms(2-6) K1(4) by (simp add: rt_mutex_release_def Let_def RT_MUTEX_VALUE_MAX_def)
  moreover have "w \<noteq> c" using ipc_invD(3)[OF inv, of n] assms(8,9) by (auto simp: mutex_ok_def)
  ultimately show ?thesis using K1 assms(7-10) \<open>mutexes K1 = mutexes K\<close> by (intro exI[of _ ?K']) simp
qed

theorem rt_mutex_release_drops_inheritance_witness:
  "\<exists>K'. rt_mutex_release 5 demo_inherited = Return RT_EOK K' \<and> 2 \<in> set (tlists K' (Suspend_thread (Mutex 6))) \<and>
    current_priority (threads K' 2) < current_priority (threads K' 3)"
  using rt_mutex_release_drops_inheritance[OF demo_inherited(1,3), of 3 5 6 2] demo_inherited(2,4-8)
  by (auto simp: demo_mutex_def)

section \<open>Waiting with the scheduler locked\<close>

text \<open>The check in front of a blocking take does not look at the scheduler lock. With the scheduler locked the thread is
  put into the waiting queue and goes on running: the take returns \<^verbatim>\<open>RT_EOK\<close> although the count was 0 and nobody has
  released the semaphore.\<close>

theorem rt_sem_take_locked_scheduler:
  assumes "reachable i K" "in_thread_context K" "rt_scheduler_lock_nest K \<noteq> 0" "sem_value (sems K a) = 0" "time < 0"
  shows "\<exists>K'. rt_sem_take a time K = Blocked K' \<and> rt_current_thread K' = rt_current_thread K \<and> rt_sem_take_resumed K' = Return RT_EOK K' \<and>
    sems K' = sems K \<and> rt_current_thread K \<in> set (tlists K' (Suspend_thread (Semaphore a)))"
proof -
  let ?t = "rt_current_thread K" and ?h = "Suspend_thread (Semaphore a)"
  let ?K0 = "set_error ?t RT_EOK K"
  note s = ipc_invD(1)[OF set_error_inv[OF reachable_inv[OF assms(1)], of ?t RT_EOK]]
  obtain K1 where K1: "rt_thread_suspend ?t ?K0 = Some (RT_EOK, K1)"
    "threads K1 = (threads ?K0)(?t := (threads ?K0 ?t)\<lparr>stat := RT_THREAD_SUSPEND\<rparr>)"
    "rt_current_thread K1 = ?t" "rt_scheduler_lock_nest K1 = rt_scheduler_lock_nest K" "kernel.more K1 = kernel.more ?K0"
    using suspend_transit[OF steadyD(1)[OF s], of ?t] steadyD(2)[OF s] by auto
  obtain K2 where K2: "ipc_list_suspend ?h ?t (sem_flag (sems K a)) ?K0 = Some K2" "threads K2 = threads K1" "rt_current_thread K2 = ?t"
    "rt_scheduler_lock_nest K2 \<noteq> 0" "kernel.more K2 = kernel.more K1" "?t \<in> set (tlists K2 ?h)"
    using K1 assms(3) by (cases "sem_flag (sems K a)") (auto simp: ipc_list_suspend_def)
  have "rt_schedule K2 = K2" using K2(4) by (simp add: rt_schedule_def)
  then have "rt_sem_take a time K = Blocked K2"
    using assms(2,4,5) K2(1) by (simp add: rt_sem_take_def wait_on_def start_timeout_def Let_def)
  moreover have "rt_sem_take_resumed K2 = Return RT_EOK K2" using K2(2,3) K1(2) by (simp add: rt_sem_take_resumed_def Let_def)
  moreover have "sems K2 = sems K" using more_fields(1)[of K2 ?K0] K2(5) K1(5) by simp
  ultimately show ?thesis using K2(3,6) by blast
qed

theorem rt_sem_take_locked_scheduler_witness:
  "\<exists>K'. rt_sem_take 7 (- 1) (rt_enter_critical demo) = Blocked K' \<and> rt_sem_take_resumed K' = Return RT_EOK K'"
proof -
  have r: "reachable 1 (rt_enter_critical demo)"
    by (rule reachable.step[OF demo_reachable]) (simp add: kernel_step_def thread_step.enter_critical)
  have "in_thread_context (rt_enter_critical demo)" "rt_scheduler_lock_nest (rt_enter_critical demo) \<noteq> 0"
    "sem_value (sems (rt_enter_critical demo) 7) = 0" by (simp_all add: rt_enter_critical_def in_thread_context_def)
  from rt_sem_take_locked_scheduler[OF r this, of "- 1"] show ?thesis by auto
qed

end
