(* ===== verification/Message_Props.thy ===== *)
theory Message_Props
  imports Sync_Props
begin

text \<open>
  What events, mailboxes and message queues promise in every reachable state of the kernel.
\<close>

section \<open>Events\<close>

definition fewer :: "u32 \<Rightarrow> u32 \<Rightarrow> bool" where
  "fewer a b \<longleftrightarrow> a AND b = a"

lemma fewer_refl [simp]: "fewer a a"
  by (simp add: fewer_def)

lemma fewer_trans: "fewer a b \<Longrightarrow> fewer b c \<Longrightarrow> fewer a c"
  unfolding fewer_def by (metis and.assoc)

lemma fewer_clear [simp]: "fewer (a AND NOT b) a"
  unfolding fewer_def by (metis and.assoc and.commute and.idem)

lemma event_matches_more:
  assumes m: "event_matches option want bits' = Some True" and f: "fewer bits' bits"
  shows "event_matches option want bits = Some True"
proof (cases "option AND RT_EVENT_FLAG_AND = 0")
  case True
  then have o': "option AND RT_EVENT_FLAG_OR \<noteq> 0" and ne: "want AND bits' \<noteq> 0" using m by (simp_all add: event_matches_def split: if_splits)
  have "want AND bits' = (want AND bits) AND bits'" using f unfolding fewer_def by (metis and.assoc and.commute)
  then have "want AND bits \<noteq> 0" using ne by (metis and_zero_eq and.commute)
  then show ?thesis using True o' by (simp add: event_matches_def)
next
  case False
  then have "want AND bits' = want" using m by (simp add: event_matches_def)
  then have "want AND bits = want" using f unfolding fewer_def by (metis and.assoc)
  then show ?thesis using False by (simp add: event_matches_def)
qed

lemma event_matches_fewer:
  "event_matches option want bits \<noteq> Some True \<Longrightarrow> fewer bits' bits \<Longrightarrow> event_matches option want bits' \<noteq> Some True"
  using event_matches_more by blast

lemma event_hand_frame:
  "threads (event_hand ev t K) = (threads K)(t := threads (event_hand ev t K) t)" "tlists (event_hand ev t K) = tlists K"
  "stat (threads (event_hand ev t K) x) = stat (threads K x)" "fewer (event_bits (events (event_hand ev t K) ev)) (event_bits (events K ev))"
  by (simp_all add: event_hand_def Let_def)

lemma event_send_loop_complete:
  assumes "event_send_loop ev ts b K = (Some b', K')" "ipc_inv i K" "distinct ts" "set ts \<subseteq> set (tlists K (Suspend_thread (Event ev)))"
  shows "fewer (event_bits (events K' ev)) (event_bits (events K ev)) \<and>
    (\<forall>t\<in>set ts. t \<in> set (tlists K' (Suspend_thread (Event ev))) \<longrightarrow>
       event_matches (event_info (threads K' t)) (event_set (threads K' t)) (event_bits (events K' ev)) \<noteq> Some True) \<and>
    (\<forall>t. t \<notin> set ts \<longrightarrow> threads K' t = threads K t) \<and>
    set (tlists K' (Suspend_thread (Event ev))) \<subseteq> set (tlists K (Suspend_thread (Event ev)))"
  using assms
proof (induction ts arbitrary: b K)
  case (Cons t ts)
  let ?q = "Suspend_thread (Event ev)" and ?th = "threads K t"
  note k = steadyD(1)[OF ipc_invD(1)[OF Cons.prems(2)]]
  have st: "stat ?th = RT_THREAD_SUSPEND" using waiter_suspended[OF k, of ?q t] Cons.prems(4) by simp
  have t: "t \<notin> set ts" "distinct ts" using Cons.prems(3) by auto
  show ?case
  proof (cases "event_matches (event_info ?th) (event_set ?th) (event_bits (events K ev)) = Some True")
    case True
    let ?K2 = "event_hand ev t K" and ?K3 = "snd (rt_thread_resume t (event_hand ev t K))"
    note F = event_hand_frame[of ev t K]
    have i2: "ipc_inv i ?K2" using upd_thread_inv[OF Cons.prems(2)] by (simp add: event_hand_def Let_def)
    have st2: "stat (threads ?K2 t) = RT_THREAD_SUSPEND" using st by (simp add: F(3))
    note R = resume_correct[OF steadyD(1)[OF ipc_invD(1)[OF i2]] st2]
    have i3: "ipc_inv i ?K3" by (rule calm_inv[OF calm_ops(2) i2 resume_steady[OF ipc_invD(1)[OF i2] st2]])
    have q3: "tlists ?K3 ?q = removeAll t (tlists K ?q)" using R(7)[of ?q] by (simp add: F(2))
    have th3: "threads ?K3 x = threads K x" if "x \<noteq> t" for x using that fun_cong[OF F(1), of x] by (simp add: R(3))
    have ev3: "events ?K3 = events ?K2" by (rule more_fields(3)[OF R(6)])
    have loop: "event_send_loop ev ts True ?K3 = (Some b', K')" using Cons.prems(1) True by simp
    have sub: "set ts \<subseteq> set (tlists ?K3 ?q)" using Cons.prems(4) t(1) by (auto simp: q3)
    note IH = Cons.IH[OF loop i3 t(2) sub]
    have "t \<notin> set (tlists K' ?q)" using IH by (auto simp: q3)
    then show ?thesis using IH th3 F(4) by (auto simp: q3 ev3 intro: fewer_trans)
  next
    case False
    then have loop: "event_send_loop ev ts b K = (Some b', K')"
      using Cons.prems(1) by (auto simp: Let_def split: option.splits bool.splits)
    note IH = Cons.IH[OF loop Cons.prems(2) t(2)]
    have "set ts \<subseteq> set (tlists K ?q)" using Cons.prems(4) by simp
    note IH = IH[OF this]
    have "threads K' t = ?th" using IH t(1) by blast
    then have "event_matches (event_info (threads K' t)) (event_set (threads K' t)) (event_bits (events K' ev)) \<noteq> Some True"
      using event_matches_fewer[OF False] IH by simp
    then show ?thesis using IH by auto
  qed
qed simp

text \<open>C29: Sending events misses nobody: when the call has returned, no thread still waiting for the event has a condition
  that the bits of the event satisfy, although threads woken earlier may have cleared bits.\<close>

theorem rt_event_send_misses_nobody:
  assumes "reachable i K" "rt_event_send ev bits K = (RT_EOK, K')" "t \<in> set (tlists K' (Suspend_thread (Event ev)))"
  shows "t \<in> set (tlists K (Suspend_thread (Event ev))) \<and>
    event_matches (event_info (threads K' t)) (event_set (threads K' t)) (event_bits (events K' ev)) \<noteq> Some True \<and>
    fewer (event_bits (events K' ev)) (event_bits (events K ev) OR bits)"
proof -
  let ?q = "Suspend_thread (Event ev)" and ?K1 = "upd_event ev (\<lambda>x. x\<lparr>event_bits := event_bits x OR bits\<rparr>) K"
  have e: "RT_EOK \<noteq> - RT_ERROR" "RT_EOK \<noteq> - RT_EINVAL" by (simp_all add: RT_EOK_def RT_ERROR_def RT_EINVAL_def)
  note inv = reachable_inv[OF assms(1)]
  have i1: "ipc_inv i ?K1" using inv by simp
  obtain b K2 where K2: "event_send_loop ev (tlists ?K1 ?q) False ?K1 = (Some b, K2)" "K' = (if b then rt_schedule K2 else K2)"
    using assms(2) e by (auto simp: rt_event_send_def Let_def split: if_splits prod.splits option.splits)
  have d: "distinct (tlists ?K1 ?q)" using kernel_invD(1)[OF steadyD(1)[OF ipc_invD(1)[OF i1]]] .
  note L = event_send_loop_complete[OF K2(1) i1 d subset_refl]
  have i2: "ipc_inv i K2"
    using event_send_loop_inv[OF i1 d, of ev False] K2(1) waiter_suspended[OF steadyD(1)[OF ipc_invD(1)[OF i1]], of ?q] by auto
  have fr: "sched_frame K2 K'" using K2(2) steady_sched[OF ipc_invD(1)[OF i2]] by simp
  have "kernel.more K' = kernel.more K2" using fr by (simp add: sched_frame_def)
  then have ev: "events K' = events K2" by (rule more_fields(3))
  have q: "tlists K' ?q = tlists K2 ?q" by (rule frame_wait[OF fr]) simp
  show ?thesis using L assms(3) frame_thread(3,4)[OF fr, of t] by (auto simp: q ev)
qed

lemma ffs_idle: "rt_ffs 0x80000000 = 32"
  by code_simp

definition demo_event :: ipc where
  "demo_event = (case rt_event_recv 4 3 RT_EVENT_FLAG_AND (- 1) 0 demo_low of Event_blocked K \<Rightarrow> K | _ \<Rightarrow> demo_low)"

lemmas recv_eval = demo_low_eq rt_event_recv_def event_matches_def event_call_of_def in_thread_context_def Let_def
    wait_on_def ipc_list_suspend_def rt_thread_suspend_def start_timeout_def rt_schedule_def switch_to_def ffs_idle
    demo_eval RT_EVENT_FLAG_AND_def RT_EVENT_FLAG_OR_def RT_EVENT_FLAG_CLEAR_def

lemma demo_event_blocks: "rt_event_recv 4 3 RT_EVENT_FLAG_AND (- 1) 0 demo_low = Event_blocked demo_event"
  and demo_event_eq: "demo_event = demo_low\<lparr>threads := (threads demo_low)(1 := demo_thread 31 RT_THREAD_RUNNING,
      3 := (demo_thread 20 RT_THREAD_SUSPEND)\<lparr>event_set := 3, event_info := RT_EVENT_FLAG_AND\<rparr>),
    tlists := (tlists cold_kernel)(Suspend_thread (Event 4) := [3]), rt_thread_ready_priority_group := 0,
    rt_current_thread := 1, rt_current_priority := 31\<rparr>"
  unfolding demo_event_def by (simp_all add: recv_eval)

lemma demo_event: "reachable 1 demo_event" "\<exists>K'. rt_event_send 4 1 demo_event = (RT_EOK, K') \<and> 3 \<in> set (tlists K' (Suspend_thread (Event 4)))"
proof -
  have "may_block 1 demo_low" "timeout_ok (- 1)" by (simp_all add: may_block_def timeout_ok_def demo_low_eq cold_kernel_def)
  from sync_step.event_wait[OF this demo_event_blocks] show "reachable 1 demo_event"
    by (intro reachable.step[OF demo_low]) (simp add: kernel_step_def)
  show "\<exists>K'. rt_event_send 4 1 demo_event = (RT_EOK, K') \<and> 3 \<in> set (tlists K' (Suspend_thread (Event 4)))"
    by (simp add: demo_event_eq rt_event_send_def upd_event_def event_matches_def demo_low_eq demo_thread_def RT_EVENT_FLAG_AND_def
        cold_kernel_def cold_thread_def)
qed

theorem rt_event_send_misses_nobody_witness:
  "\<exists>K'. rt_event_send 4 1 demo_event = (RT_EOK, K') \<and> 3 \<in> set (tlists K' (Suspend_thread (Event 4))) \<and>
    event_matches (event_info (threads K' 3)) (event_set (threads K' 3)) (event_bits (events K' 4)) \<noteq> Some True"
proof -
  obtain K' where K': "rt_event_send 4 1 demo_event = (RT_EOK, K')" "3 \<in> set (tlists K' (Suspend_thread (Event 4)))"
    using demo_event(2) by blast
  from rt_event_send_misses_nobody[OF demo_event(1) K'] K' show ?thesis by blast
qed

section \<open>A contract for queues of messages\<close>

text \<open>
  What mailboxes and message queues have in common: a put that is refused exactly when the queue is full and appends
  otherwise, a get that is refused exactly when it is empty and takes the oldest message otherwise.
\<close>

locale message_fifo =
  fixes ok :: "'s \<Rightarrow> bool" and items :: "'s \<Rightarrow> 'm list" and room :: "'s \<Rightarrow> nat" and fits :: "'s \<Rightarrow> 'm \<Rightarrow> bool"
    and put :: "'m \<Rightarrow> 's \<Rightarrow> 's option" and get :: "'s \<Rightarrow> ('m \<times> 's) option"
  assumes put_law: "ok s \<Longrightarrow> fits s m \<Longrightarrow> (case put m s of None \<Rightarrow> length (items s) = room s
      | Some s' \<Rightarrow> ok s' \<and> room s' = room s \<and> (\<forall>x. fits s' x = fits s x) \<and> length (items s) < room s \<and> items s' = items s @ [m])"
    and get_law: "ok s \<Longrightarrow> (case get s of None \<Rightarrow> items s = []
      | Some (m, s') \<Rightarrow> ok s' \<and> room s' = room s \<and> (\<forall>x. fits s' x = fits s x) \<and> items s = m # items s')"

datatype 'm fifo_op = Put_message 'm | Get_message

text \<open>A history of calls: what was accepted, what was delivered, and the final state.\<close>

fun run_fifo :: "('m \<Rightarrow> 's \<Rightarrow> 's option) \<Rightarrow> ('s \<Rightarrow> ('m \<times> 's) option) \<Rightarrow> 'm fifo_op list \<Rightarrow> 's \<Rightarrow> 'm list \<times> 'm list \<times> 's" where
  "run_fifo put get [] s = ([], [], s)"
| "run_fifo put get (Put_message m # cs) s =
     (case put m s of None \<Rightarrow> run_fifo put get cs s
      | Some s1 \<Rightarrow> (case run_fifo put get cs s1 of (acc, del, s2) \<Rightarrow> (m # acc, del, s2)))"
| "run_fifo put get (Get_message # cs) s =
     (case get s of None \<Rightarrow> run_fifo put get cs s
      | Some (m, s1) \<Rightarrow> (case run_fifo put get cs s1 of (acc, del, s2) \<Rightarrow> (acc, m # del, s2)))"

context message_fifo
begin

lemma run_fifo_correct:
  "ok s \<Longrightarrow> (\<forall>m. Put_message m \<in> set cs \<longrightarrow> fits s m) \<Longrightarrow> run_fifo put get cs s = (acc, del, s') \<Longrightarrow>
    ok s' \<and> items s @ acc = del @ items s' \<and> length (items s') \<le> max (room s) (length (items s))"
proof (induction cs arbitrary: s acc del s')
  case (Cons c cs)
  show ?case
  proof (cases c)
    case (Put_message m)
    have f: "fits s m" "\<forall>m. Put_message m \<in> set cs \<longrightarrow> fits s m" using Cons.prems(2) Put_message by auto
    show ?thesis
    proof (cases "put m s")
      case None
      then show ?thesis using Cons.IH[OF Cons.prems(1) f(2)] Cons.prems(3) Put_message by simp
    next
      case (Some s1)
      have p: "ok s1" "room s1 = room s" "\<forall>x. fits s1 x = fits s x" "length (items s) < room s" "items s1 = items s @ [m]"
        using put_law[OF Cons.prems(1) f(1)] Some by auto
      obtain acc1 del1 s2 where r: "run_fifo put get cs s1 = (acc1, del1, s2)" by (metis prod_cases3)
      have "\<forall>m. Put_message m \<in> set cs \<longrightarrow> fits s1 m" using f(2) p(3) by simp
      from Cons.IH[OF p(1) this r] p Cons.prems(3) Put_message Some r show ?thesis by auto
    qed
  next
    case Get_message
    show ?thesis
    proof (cases "get s")
      case None
      then show ?thesis using Cons.IH[OF Cons.prems(1)] Cons.prems(2,3) Get_message by simp
    next
      case (Some x)
      obtain m s1 where x: "x = (m, s1)" by (cases x)
      have p: "ok s1" "room s1 = room s" "\<forall>x. fits s1 x = fits s x" "items s = m # items s1"
        using get_law[OF Cons.prems(1)] Some x by auto
      obtain acc1 del1 s2 where r: "run_fifo put get cs s1 = (acc1, del1, s2)" by (metis prod_cases3)
      have "\<forall>m. Put_message m \<in> set cs \<longrightarrow> fits s1 m" using Cons.prems(2) p(3) by auto
      from Cons.IH[OF p(1) this r] p Cons.prems(3) Get_message Some x r show ?thesis by auto
    qed
  qed
qed simp

end

text \<open>The mailbox as a provider: the tests of \<^verbatim>\<open>rt_mb_send\<close> and \<^verbatim>\<open>rt_mb_recv\<close> without waiting, around the data operations.\<close>

definition mb_put :: "u32 \<Rightarrow> rt_mailbox \<Rightarrow> rt_mailbox option" where
  "mb_put v b = (if entry b = mb_size b then None else Some (snd (mb_store v b)))"

definition mb_get :: "rt_mailbox \<Rightarrow> (u32 \<times> rt_mailbox) option" where
  "mb_get b = (if entry b = 0 then None else Some (mb_fetch b))"

interpretation mail: message_fifo mb_ok mb_mails mb_size "\<lambda>_ _. True" mb_put mb_get
proof unfold_locales
  fix b :: rt_mailbox and v :: u32
  assume ok: "mb_ok b"
  show "case mb_put v b of None \<Rightarrow> length (mb_mails b) = mb_size b
    | Some s' \<Rightarrow> mb_ok s' \<and> mb_size s' = mb_size b \<and> (\<forall>x::u32. True = True) \<and> length (mb_mails b) < mb_size b \<and> mb_mails s' = mb_mails b @ [v]"
  proof (cases "entry b = mb_size b")
    case False
    then have l: "entry b < mb_size b" using ok by (simp add: mb_ok_def)
    from mb_store_correct[OF ok l] obtain b' where "mb_store v b = (True, b')" "mb_ok b'" "mb_mails b' = mb_mails b @ [v]" "mb_size b' = mb_size b"
      by metis
    then show ?thesis using False l by (simp add: mb_put_def)
  qed (simp add: mb_put_def)
  show "case mb_get b of None \<Rightarrow> mb_mails b = []
    | Some (m, s') \<Rightarrow> mb_ok s' \<and> mb_size s' = mb_size b \<and> (\<forall>x::u32. True = True) \<and> mb_mails b = m # mb_mails s'"
  proof (cases "entry b = 0")
    case False
    then obtain w b' where "mb_fetch b = (w, b')" "mb_ok b'" "mb_mails b = w # mb_mails b'" "mb_size b' = mb_size b"
      using mb_fetch_correct[OF ok] by (metis gr0I)
    then show ?thesis using False by (simp add: mb_get_def)
  qed (simp add: mb_get_def mb_mails_def)
qed

text \<open>The message queue as a provider, when no other thread is inside a call: the two critical sections one after the other.\<close>

definition mq_put :: "bytes \<Rightarrow> rt_messagequeue \<Rightarrow> rt_messagequeue option" where
  "mq_put buf q = map_option (\<lambda>(k, q1). snd (mq_append k (mq_fill k buf q1))) (mq_take_free q)"

definition mq_get :: "rt_messagequeue \<Rightarrow> (bytes \<times> rt_messagequeue) option" where
  "mq_get q = map_option (\<lambda>(k, q1). (mq_copy_out k (msg_size q1) q1, mq_add_free k q1)) (mq_pop q)"

text \<open>The queued blocks, found by following the links.\<close>

primrec walk :: "(nat \<Rightarrow> nat option) \<Rightarrow> nat \<Rightarrow> nat option \<Rightarrow> nat list" where
  "walk nx 0 p = []"
| "walk nx (Suc n) p = (case p of None \<Rightarrow> [] | Some k \<Rightarrow> k # walk nx n (nx k))"

definition mq_chain :: "rt_messagequeue \<Rightarrow> nat list" where
  "mq_chain q = walk (msg_next q) (mq_entry q) (msg_queue_head q)"

definition mq_items :: "rt_messagequeue \<Rightarrow> bytes list" where
  "mq_items q = map (msg_data q) (mq_chain q)"

lemma walk_chain: "chain nx p xs \<Longrightarrow> walk nx (length xs) p = xs"
  by (induction xs arbitrary: p) auto

lemma mq_chain_rep: "mq_rep q qs fs hs \<Longrightarrow> mq_chain q = qs"
  unfolding mq_chain_def mq_rep_def by (metis walk_chain)

definition mq_idle :: "rt_messagequeue \<Rightarrow> bool" where
  "mq_idle q \<longleftrightarrow> (\<exists>qs fs. mq_rep q qs fs {})"

interpretation msgq: message_fifo mq_idle mq_items max_msgs "\<lambda>q m. length m = msg_size q" mq_put mq_get
proof unfold_locales
  fix q :: rt_messagequeue and m :: bytes
  assume "mq_idle q"
  then obtain qs fs where r: "mq_rep q qs fs {}" by (auto simp: mq_idle_def)
  have it: "mq_items q = mq_msgs q qs" by (simp add: mq_items_def mq_chain_rep[OF r])
  show "case mq_put m q of None \<Rightarrow> length (mq_items q) = max_msgs q
    | Some s' \<Rightarrow> mq_idle s' \<and> max_msgs s' = max_msgs q \<and> (\<forall>x::bytes. (length x = msg_size s') = (length x = msg_size q)) \<and>
        length (mq_items q) < max_msgs q \<and> mq_items s' = mq_items q @ [m]"
    if l: "length m = msg_size q"
  proof (cases "mq_take_free q")
    case None
    then have "fs = []" using mq_take_free_rep(1)[OF r] by simp
    then show ?thesis using None mq_rep_length[OF r] by (simp add: mq_put_def it)
  next
    case (Some x)
    obtain k q1 where x: "x = (k, q1)" by (cases x)
    from mq_take_free_rep(2)[OF r Some[unfolded x]] obtain fs' where
      q1: "fs = k # fs'" "mq_rep q1 qs fs' {k}" "msg_data q1 = msg_data q" "msg_size q1 = msg_size q" "max_msgs q1 = max_msgs q" by auto
    have l1: "length m \<le> msg_size q1" using l q1(4) by simp
    note F = mq_fill_rep[OF q1(2) _ l1]
    have k: "k \<in> {k}" by simp
    from mq_append_rep[OF F(1)[OF k] k] obtain q2 where
      q2: "mq_append k (mq_fill k m q1) = (True, q2)" "mq_rep q2 (qs @ [k]) fs' ({k} - {k})" "msg_data q2 = msg_data (mq_fill k m q1)"
      "msg_size q2 = msg_size q" "max_msgs q2 = max_msgs q" by (auto simp: mq_fill_def q1(4,5))
    have "length (msg_data q1 k) = msg_size q1" using q1(2) by (auto simp: mq_rep_def set_eq_iff)
    then have "msg_data q2 k = m" using l by (simp add: q2(3) mq_fill_def q1(4))
    moreover have "mq_msgs q2 qs = mq_msgs q qs" using F(2)[OF k] by (simp add: q2(3) q1(3))
    ultimately have "mq_items q2 = mq_items q @ [m]" using mq_chain_rep[OF q2(2)] by (simp add: mq_items_def[of q2] it)
    moreover have "mq_idle q2" using q2(2) unfolding mq_idle_def by auto
    moreover have "length (mq_items q) < max_msgs q" using mq_rep_length[OF r] q1(1) by (simp add: it)
    ultimately show ?thesis using Some x q2 by (simp add: mq_put_def)
  qed
  show "case mq_get q of None \<Rightarrow> mq_items q = []
    | Some (m, s') \<Rightarrow> mq_idle s' \<and> max_msgs s' = max_msgs q \<and> (\<forall>x::bytes. (length x = msg_size s') = (length x = msg_size q)) \<and>
        mq_items q = m # mq_items s'"
  proof (cases "mq_pop q")
    case None
    then show ?thesis using mq_pop_rep(1)[OF r] by (simp add: mq_get_def it)
  next
    case (Some x)
    obtain k q1 where x: "x = (k, q1)" by (cases x)
    from mq_pop_rep(2)[OF r Some[unfolded x]] obtain qs' where
      q1: "qs = k # qs'" "mq_rep q1 qs' fs {k}" "msg_data q1 = msg_data q" "msg_size q1 = msg_size q" "max_msgs q1 = max_msgs q" by auto
    have r2: "mq_rep (mq_add_free k q1) qs' (k # fs) ({k} - {k})" by (rule mq_add_free_rep[OF q1(2)]) simp
    have "length (msg_data q1 k) = msg_size q1" using q1(2) by (auto simp: mq_rep_def set_eq_iff)
    then have "mq_copy_out k (msg_size q1) q1 = msg_data q k" by (simp add: mq_copy_out_def q1(3))
    moreover have "mq_items (mq_add_free k q1) = mq_msgs q qs'" using mq_chain_rep[OF r2] by (simp add: mq_items_def mq_add_free_def q1(3))
    moreover have "mq_idle (mq_add_free k q1)" using r2 unfolding mq_idle_def by auto
    ultimately show ?thesis using Some x by (simp add: mq_get_def it q1 mq_add_free_def)
  qed
qed

section \<open>Mailboxes and message queues are bounded FIFO queues\<close>

lemma mb_wake_objs:
  assumes "ipc_inv i K" "wait_head h"
  shows "kernel.more (mb_wake h K) = kernel.more K"
proof (cases "tlists K h")
  case (Cons t ts)
  then show ?thesis using wake_correct(7)[OF ipc_invD(1)[OF assms(1)] assms(2) Cons] by (simp add: mb_wake_def)
qed (simp add: mb_wake_def)

lemma mb_wake_upd: "ipc_inv i K \<Longrightarrow> mb_ok b \<Longrightarrow> wait_head h \<Longrightarrow> mailboxes (mb_wake h (upd_mailbox a (\<lambda>_. b) K)) = (mailboxes K)(a := b)"
  using more_fields(4)[OF mb_wake_objs[OF upd_mailbox_inv[of i K "\<lambda>_. b" a]]] by simp

text \<open>C30: In every reachable state a send that returns \<^verbatim>\<open>RT_EOK\<close> has appended its mail to a mailbox that was not full, a receive
  that returns \<^verbatim>\<open>RT_EOK\<close> has taken the oldest mail, an urgent send has put its mail in front of all; a call that returns an
  error has changed no mailbox, and no call changes another mailbox.\<close>

theorem mailbox_calls_fifo:
  assumes "reachable i K"
  shows "(\<forall>e K'. rt_mb_send_wait a v time K = Return e K' \<longrightarrow>
      (if e = RT_EOK then length (mb_mails (mailboxes K a)) < mb_size (mailboxes K a) \<and> mb_mails (mailboxes K' a) = mb_mails (mailboxes K a) @ [v]
       else mailboxes K' = mailboxes K) \<and> (\<forall>c. c \<noteq> a \<longrightarrow> mailboxes K' c = mailboxes K c)) \<and>
    (\<forall>e r K'. rt_mb_recv a time K = Mail e r K' \<longrightarrow>
      (case r of Some m \<Rightarrow> e = RT_EOK \<and> mb_mails (mailboxes K a) = m # mb_mails (mailboxes K' a)
       | None \<Rightarrow> e \<noteq> RT_EOK \<and> mailboxes K' = mailboxes K) \<and> (\<forall>c. c \<noteq> a \<longrightarrow> mailboxes K' c = mailboxes K c)) \<and>
    (\<forall>e K'. rt_mb_urgent a v K = Return e K' \<longrightarrow>
      (if e = RT_EOK then length (mb_mails (mailboxes K a)) < mb_size (mailboxes K a) \<and> mb_mails (mailboxes K' a) = v # mb_mails (mailboxes K a)
       else mailboxes K' = mailboxes K) \<and> (\<forall>c. c \<noteq> a \<longrightarrow> mailboxes K' c = mailboxes K c))"
proof -
  note inv = reachable_inv[OF assms]
  let ?b = "mailboxes K a"
  note ok = ipc_invD(4)[OF inv, of a]
  have e: "- RT_EFULL \<noteq> RT_EOK" "- RT_ETIMEOUT \<noteq> RT_EOK" by (simp_all add: RT_EOK_def RT_EFULL_def RT_ETIMEOUT_def)
  have room: "entry ?b < mb_size ?b" if "entry ?b \<noteq> mb_size ?b" using ok that by (simp add: mb_ok_def)
  have call: "recv_call_of c \<noteq> Mail e r K'" if "\<And>e K. c \<noteq> Return e K" for c e r K' using that by (cases c) (auto simp: recv_call_of_def)
  have send: "(if e = RT_EOK then length (mb_mails ?b) < mb_size ?b \<and> mb_mails (mailboxes K' a) = mb_mails ?b @ [v] else mailboxes K' = mailboxes K) \<and>
      (\<forall>c. c \<noteq> a \<longrightarrow> mailboxes K' c = mailboxes K c)" if r: "rt_mb_send_wait a v time K = Return e K'" for e K'
  proof (cases "entry ?b = mb_size ?b")
    case True
    then show ?thesis using r e by (auto simp: rt_mb_send_wait_def mb_send_loop_def Let_def split: if_splits)
  next
    case False
    from mb_store_correct[OF ok room[OF False]] obtain b' where
      b': "mb_store v ?b = (True, b')" "mb_ok b'" "mb_mails b' = mb_mails ?b @ [v]" by metis
    then have "e = RT_EOK" "K' = mb_wake (Suspend_thread (MailBox a)) (upd_mailbox a (\<lambda>_. b') K)"
      using r False by (simp_all add: rt_mb_send_wait_def mb_send_loop_def)
    then show ?thesis using mb_wake_upd[OF inv b'(2), of "Suspend_thread (MailBox a)" a] b'(3) room[OF False] by simp
  qed
  have recv: "(case r of Some m \<Rightarrow> e = RT_EOK \<and> mb_mails ?b = m # mb_mails (mailboxes K' a) | None \<Rightarrow> e \<noteq> RT_EOK \<and> mailboxes K' = mailboxes K) \<and>
      (\<forall>c. c \<noteq> a \<longrightarrow> mailboxes K' c = mailboxes K c)" if r: "rt_mb_recv a time K = Mail e r K'" for e r K'
  proof (cases "entry ?b = 0")
    case True
    then show ?thesis using r e by (auto simp: rt_mb_recv_def mb_recv_loop_def Let_def call split: if_splits)
  next
    case False
    then obtain w b' where b': "mb_fetch ?b = (w, b')" "mb_ok b'" "mb_mails ?b = w # mb_mails b'"
      using mb_fetch_correct[OF ok] by (metis gr0I)
    then have "e = RT_EOK" "r = Some w" "K' = mb_wake (Suspend_sender (MailBox a)) (upd_mailbox a (\<lambda>_. b') K)"
      using r False by (auto simp: rt_mb_recv_def mb_recv_loop_def)
    then show ?thesis using mb_wake_upd[OF inv b'(2), of "Suspend_sender (MailBox a)" a] b'(3) by simp
  qed
  have urgent: "(if e = RT_EOK then length (mb_mails ?b) < mb_size ?b \<and> mb_mails (mailboxes K' a) = v # mb_mails ?b else mailboxes K' = mailboxes K) \<and>
      (\<forall>c. c \<noteq> a \<longrightarrow> mailboxes K' c = mailboxes K c)" if r: "rt_mb_urgent a v K = Return e K'" for e K'
  proof (cases "entry ?b = mb_size ?b")
    case True
    then show ?thesis using r e by (auto simp: rt_mb_urgent_def)
  next
    case False
    note U = mb_store_urgent_correct[OF ok room[OF False], of v]
    have "upd_mailbox a (mb_store_urgent v) K = upd_mailbox a (\<lambda>_. mb_store_urgent v ?b) K" by (simp add: upd_mailbox_def)
    then have "e = RT_EOK" "K' = mb_wake (Suspend_thread (MailBox a)) (upd_mailbox a (\<lambda>_. mb_store_urgent v ?b) K)"
      using r False by (simp_all add: rt_mb_urgent_def)
    then show ?thesis using mb_wake_upd[OF inv U(1), of "Suspend_thread (MailBox a)" a] U(2) room[OF False] by simp
  qed
  show ?thesis using send recv urgent by blast
qed

theorem mailbox_calls_fifo_witness:
  "\<exists>K'. rt_mb_send_wait 8 77 0 demo = Return RT_EOK K' \<and> mb_mails (mailboxes K' 8) = [77]"
proof -
  have b: "mailboxes demo 8 = \<lparr>mb_flag = RT_IPC_FLAG_FIFO, msg_pool = [0, 0], mb_size = 2, entry = 0, in_offset = 0, out_offset = 0\<rparr>"
    by (simp add: demo_eq cold_kernel_def)
  then obtain K' where K': "rt_mb_send_wait 8 77 0 demo = Return RT_EOK K'"
    by (simp add: rt_mb_send_wait_def mb_send_loop_def mb_store_def Let_def RT_MB_ENTRY_MAX_def)
  then have "mb_mails (mailboxes K' 8) = mb_mails (mailboxes demo 8) @ [77]"
    using mailbox_calls_fifo[OF demo_reachable, of 8 77 0] by (simp only: simp_thms)
  then show ?thesis using K' b by (simp add: mb_mails_def)
qed

text \<open>Every history of calls that do not wait, on a mailbox as \<^verbatim>\<open>rt_mb_init\<close> leaves it and on a message queue as
  \<^verbatim>\<open>rt_mq_init\<close> leaves it with messages of its block size, delivers the accepted messages in order, and never holds more
  than its capacity.\<close>

theorem message_histories_fifo:
  assumes "length pool = n" "n < 2 ^ 16"
    and "run_fifo mb_put mb_get cs (mailboxes (rt_mb_init a pool n flag K) a) = (acc, del, b)"
    and "m < 2 ^ 16" "\<forall>k. length (mpool k) = sz" "\<forall>x. Put_message x \<in> set ds \<longrightarrow> length x = sz"
    and "run_fifo mq_put mq_get ds (mq_init_pool sz m mpool flag) = (acc', del', q)"
  shows "acc = del @ mb_mails b \<and> length (mb_mails b) \<le> n \<and> acc' = del' @ mq_items q \<and> length (mq_items q) \<le> m"
proof -
  let ?b0 = "mailboxes (rt_mb_init a pool n flag K) a" and ?q0 = "mq_init_pool sz m mpool flag"
  have b0: "mb_ok ?b0" "mb_mails ?b0 = []" "mb_size ?b0 = n"
    using assms(1,2) by (auto simp: rt_mb_init_def upd_mailbox_def mb_ok_def mb_mails_def)
  have r0: "mq_rep ?q0 [] (rev [0..<m]) {}" by (rule mq_init_pool_rep) (use assms(4,5) in simp_all)
  have fold_sel: "max_msgs (fold mq_add_free xs x) = max_msgs x \<and> msg_size (fold mq_add_free xs x) = msg_size x" for xs x
    by (induction xs arbitrary: x) (simp_all add: mq_add_free_def)
  have q0: "mq_idle ?q0" "mq_items ?q0 = []" using r0 by (auto simp: mq_idle_def mq_items_def mq_chain_rep[OF r0])
  have sel0: "max_msgs ?q0 = m" "msg_size ?q0 = sz" by (simp_all add: mq_init_pool_def fold_sel)
  show ?thesis using mail.run_fifo_correct[OF b0(1) _ assms(3)] msgq.run_fifo_correct[OF q0(1) _ assms(7)] assms(6) b0 q0 sel0 by simp
qed

theorem message_histories_fifo_witness:
  "\<exists>acc del b acc' del' q.
    run_fifo mb_put mb_get [Put_message 1, Put_message 2, Get_message] (mailboxes (rt_mb_init 8 [0, 0] 2 RT_IPC_FLAG_FIFO demo) 8) = (acc, del, b) \<and>
    acc = del @ mb_mails b \<and>
    run_fifo mq_put mq_get [Put_message [7], Get_message] (mq_init_pool 1 2 (\<lambda>_. [0]) RT_IPC_FLAG_FIFO) = (acc', del', q) \<and> acc' = del' @ mq_items q"
proof -
  obtain acc del b where r: "run_fifo mb_put mb_get [Put_message 1, Put_message 2, Get_message]
      (mailboxes (rt_mb_init 8 [0, 0] 2 RT_IPC_FLAG_FIFO demo) 8) = (acc, del, b)" by (metis prod_cases3)
  obtain acc' del' q where s: "run_fifo mq_put mq_get [Put_message [7], Get_message] (mq_init_pool 1 2 (\<lambda>_. [0]) RT_IPC_FLAG_FIFO) = (acc', del', q)"
    by (metis prod_cases3)
  from message_histories_fifo[OF _ _ r _ _ _ s] have "acc = del @ mb_mails b \<and> acc' = del' @ mq_items q" by simp
  then show ?thesis using r s by blast
qed

end
