(* ===== verification/Msg_Interleave.thy ===== *)
theory Msg_Interleave
  imports Message_Props
begin

text \<open>
  The message queue with its windows. Between the two critical sections of a send or a receive interrupts are enabled, so
  the calls of several threads interleave. A thread in a window holds a block; a history is a list of critical
  sections and copies, in any order the code of each thread allows.
\<close>

section \<open>Histories\<close>

datatype role = Taken nat | Filled nat | Popped nat

primrec block :: "role \<Rightarrow> nat" where
  "block (Taken k) = k" | "block (Filled k) = k" | "block (Popped k) = k"

text \<open>What a thread does: it takes a free block, copies its message in, links the block (a send); it takes the oldest block,
  copies the message out and puts the block back (a receive).\<close>

datatype action = Take nat | Fill nat bytes | Link nat bytes | Pop nat bytes | Deliver nat bytes

inductive mq_step :: "rt_messagequeue \<times> (nat \<rightharpoonup> role) \<Rightarrow> action \<Rightarrow> rt_messagequeue \<times> (nat \<rightharpoonup> role) \<Rightarrow> bool" where
  take: "h t = None \<Longrightarrow> mq_take_free q = Some (k, q') \<Longrightarrow> mq_step (q, h) (Take t) (q', h(t \<mapsto> Taken k))"
| fill: "h t = Some (Taken k) \<Longrightarrow> length buf = msg_size q \<Longrightarrow> mq_step (q, h) (Fill t buf) (mq_fill k buf q, h(t \<mapsto> Filled k))"
| link: "h t = Some (Filled k) \<Longrightarrow> mq_step (q, h) (Link t (msg_data q k)) (snd (mq_append k q), h(t := None))"
| pop: "h t = None \<Longrightarrow> mq_pop q = Some (k, q') \<Longrightarrow> mq_step (q, h) (Pop t (msg_data q k)) (q', h(t \<mapsto> Popped k))"
| deliver: "h t = Some (Popped k) \<Longrightarrow> mq_step (q, h) (Deliver t (mq_copy_out k (msg_size q) q)) (mq_add_free k q, h(t := None))"

inductive mq_history :: "rt_messagequeue \<Rightarrow> action list \<Rightarrow> rt_messagequeue \<times> (nat \<rightharpoonup> role) \<Rightarrow> bool" for q0 where
  start: "mq_history q0 [] (q0, Map.empty)"
| step: "mq_history q0 as s \<Longrightarrow> mq_step s a s' \<Longrightarrow> mq_history q0 (as @ [a]) s'"

text \<open>The messages linked and the messages taken out, in order; the last copy in and the last message taken out by a thread.\<close>

fun linked :: "action list \<Rightarrow> bytes list" where
  "linked [] = []" | "linked (Link t m # as) = m # linked as" | "linked (_ # as) = linked as"

fun popped :: "action list \<Rightarrow> bytes list" where
  "popped [] = []" | "popped (Pop t m # as) = m # popped as" | "popped (_ # as) = popped as"

fun filled_by :: "nat \<Rightarrow> action list \<Rightarrow> bytes option \<Rightarrow> bytes option" where
  "filled_by t [] v = v" | "filled_by t (Fill s m # as) v = filled_by t as (if s = t then Some m else v)" | "filled_by t (_ # as) v = filled_by t as v"

fun popped_by :: "nat \<Rightarrow> action list \<Rightarrow> bytes option \<Rightarrow> bytes option" where
  "popped_by t [] v = v" | "popped_by t (Pop s m # as) v = popped_by t as (if s = t then Some m else v)" | "popped_by t (_ # as) v = popped_by t as v"

text \<open>Every thread links what it has copied in and delivers what it has taken out.\<close>

definition faithful :: "action list \<Rightarrow> bool" where
  "faithful as \<longleftrightarrow> (\<forall>xs t m ys. as = xs @ Link t m # ys \<longrightarrow> filled_by t xs None = Some m) \<and>
     (\<forall>xs t m ys. as = xs @ Deliver t m # ys \<longrightarrow> popped_by t xs None = Some m)"

lemma linked_append [simp]: "linked (as @ bs) = linked as @ linked bs"
  by (induction as rule: linked.induct) auto

lemma popped_append [simp]: "popped (as @ bs) = popped as @ popped bs"
  by (induction as rule: popped.induct) auto

lemma filled_by_append [simp]: "filled_by t (as @ bs) v = filled_by t bs (filled_by t as v)"
  by (induction t as v rule: filled_by.induct) auto

lemma popped_by_append [simp]: "popped_by t (as @ bs) v = popped_by t bs (popped_by t as v)"
  by (induction t as v rule: popped_by.induct) auto

lemma faithful_snoc:
  "faithful (as @ [a]) \<longleftrightarrow> faithful as \<and> (case a of Link t m \<Rightarrow> filled_by t as None = Some m | Deliver t m \<Rightarrow> popped_by t as None = Some m | _ \<Rightarrow> True)"
proof -
  have split: "as @ [a] = xs @ b # ys \<longleftrightarrow> (ys = [] \<and> xs = as \<and> b = a) \<or> (\<exists>zs. ys = zs @ [a] \<and> as = xs @ b # zs)" for xs b ys
    by (cases ys rule: rev_cases) auto
  show ?thesis unfolding faithful_def split by (cases a) auto
qed

section \<open>The invariant\<close>

definition held_blocks :: "(nat \<rightharpoonup> role) \<Rightarrow> nat set" where
  "held_blocks h = {b. \<exists>t r. h t = Some r \<and> block r = b}"

definition one_each :: "(nat \<rightharpoonup> role) \<Rightarrow> bool" where
  "one_each h \<longleftrightarrow> (\<forall>t t' r r'. h t = Some r \<longrightarrow> h t' = Some r' \<longrightarrow> block r = block r' \<longrightarrow> t = t')"

definition history_inv :: "action list \<Rightarrow> rt_messagequeue \<Rightarrow> (nat \<rightharpoonup> role) \<Rightarrow> nat list \<Rightarrow> bool" where
  "history_inv as q h qs \<longleftrightarrow> (\<exists>fs. mq_rep q qs fs (held_blocks h)) \<and> one_each h \<and> linked as = popped as @ mq_msgs q qs \<and> faithful as \<and>
     (\<forall>t k. h t = Some (Filled k) \<longrightarrow> filled_by t as None = Some (msg_data q k)) \<and>
     (\<forall>t k. h t = Some (Popped k) \<longrightarrow> popped_by t as None = Some (msg_data q k))"

lemma held_put: "h t = None \<or> (\<exists>r0. h t = Some r0 \<and> block r0 = block r) \<Longrightarrow> held_blocks (h(t \<mapsto> r)) = insert (block r) (held_blocks h)"
  unfolding held_blocks_def set_eq_iff mem_Collect_eq insert_iff by (metis fun_upd_apply option.distinct(1) option.inject)

lemma held_drop: "one_each h \<Longrightarrow> h t = Some r \<Longrightarrow> held_blocks (h(t := None)) = held_blocks h - {block r}"
  unfolding held_blocks_def one_each_def set_eq_iff mem_Collect_eq Diff_iff singleton_iff
  by (metis fun_upd_apply option.distinct(1) option.inject)

lemma one_each_put: "one_each h \<Longrightarrow> block r \<notin> held_blocks (h(t := None)) \<Longrightarrow> one_each (h(t \<mapsto> r))"
  unfolding one_each_def held_blocks_def mem_Collect_eq by (metis fun_upd_apply option.inject)

lemma one_each_drop: "one_each h \<Longrightarrow> one_each (h(t := None))"
  unfolding one_each_def by simp

lemma held_mem: "h t = Some r \<Longrightarrow> block r \<in> held_blocks h"
  unfolding held_blocks_def by blast

lemma step_inv:
  assumes st: "mq_step (q, h) a (q', h')" and inv: "history_inv as q h qs"
  shows "\<exists>qs'. history_inv (as @ [a]) q' h' qs'"
proof -
  obtain fs where r: "mq_rep q qs fs (held_blocks h)" and one: "one_each h" and seq: "linked as = popped as @ mq_msgs q qs"
    and fa: "faithful as" and fl: "\<And>t k. h t = Some (Filled k) \<Longrightarrow> filled_by t as None = Some (msg_data q k)"
    and po: "\<And>t k. h t = Some (Popped k) \<Longrightarrow> popped_by t as None = Some (msg_data q k)"
    using inv unfolding history_inv_def by blast
  from st show ?thesis
  proof cases
    case (take t k)
    from mq_take_free_rep(2)[OF r take(4)] obtain fs' where q': "mq_rep q' qs fs' (insert k (held_blocks h))" "fs = k # fs'" "msg_data q' = msg_data q"
      by blast
    have k: "k \<notin> held_blocks h" using r q'(2) by (auto simp: mq_rep_def)
    have "held_blocks h' = insert k (held_blocks h)" using held_put[of h t "Taken k"] take by simp
    moreover have "one_each h'" unfolding take(2) by (rule one_each_put[OF one]) (use k take(3) in \<open>simp add: fun_upd_idem\<close>)
    ultimately show ?thesis using q' seq fa fl po take
      by (intro exI[of _ qs]) (auto simp: history_inv_def faithful_snoc split: if_splits)
  next
    case (fill t k buf)
    have kh: "k \<in> held_blocks h" using held_mem[of h t "Taken k"] fill(4) by simp
    note F = mq_fill_rep[OF r kh eq_refl[OF fill(5)]]
    have h': "held_blocks h' = held_blocks h" using held_put[of h t "Filled k"] fill(3,4) kh by auto
    have oth: "msg_data q' (block r') = msg_data q (block r')" if "h t' = Some r'" "t' \<noteq> t" for t' r'
      using that one fill(2,4) by (auto simp: mq_fill_def one_each_def)
    have new: "msg_data q' k = buf" using r kh fill(2,5) by (auto simp: mq_fill_def mq_rep_def set_eq_iff)
    have "one_each h'" unfolding fill(3) by (rule one_each_put[OF one]) (use held_drop[OF one fill(4)] in simp)
    then show ?thesis using F h' seq fa fl po fill oth[of _ "Filled _"] oth[of _ "Popped _"] new
      by (intro exI[of _ qs]) (auto simp: history_inv_def faithful_snoc split: if_splits)
  next
    case (link t k)
    have kh: "k \<in> held_blocks h" using held_mem[of h t "Filled k"] link(4) by simp
    from mq_append_rep[OF r kh] obtain q1 where
      q1: "mq_append k q = (True, q1)" "mq_rep q1 (qs @ [k]) fs (held_blocks h - {k})" "msg_data q1 = msg_data q" by auto
    have "held_blocks h' = held_blocks h - {k}" using held_drop[OF one link(4)] link(3) by simp
    then show ?thesis using q1 one_each_drop[OF one] seq fa fl po link
      by (intro exI[of _ "qs @ [k]"]) (auto simp: history_inv_def faithful_snoc split: if_splits)
  next
    case (pop t k)
    from mq_pop_rep(2)[OF r pop(4)] obtain qs' where q': "mq_rep q' qs' fs (insert k (held_blocks h))" "qs = k # qs'" "msg_data q' = msg_data q"
      by blast
    have k: "k \<notin> held_blocks h" using r q'(2) by (auto simp: mq_rep_def)
    have "held_blocks h' = insert k (held_blocks h)" using held_put[of h t "Popped k"] pop by simp
    moreover have "one_each h'" unfolding pop(2) by (rule one_each_put[OF one]) (use k pop(3) in \<open>simp add: fun_upd_idem\<close>)
    ultimately show ?thesis using q' seq fa fl po pop
      by (intro exI[of _ qs']) (auto simp: history_inv_def faithful_snoc split: if_splits)
  next
    case (deliver t k)
    have k: "k \<in> held_blocks h" using held_mem[of h t "Popped k"] deliver(4) by simp
    have "length (msg_data q k) = msg_size q" using r k by (auto simp: mq_rep_def set_eq_iff)
    then have out: "mq_copy_out k (msg_size q) q = msg_data q k" by (simp add: mq_copy_out_def)
    have "held_blocks h' = held_blocks h - {k}" using held_drop[OF one deliver(4)] deliver(3) by simp
    moreover have "msg_data q' = msg_data q" using deliver(2) by (simp add: mq_add_free_def)
    ultimately show ?thesis using mq_add_free_rep[OF r k] one_each_drop[OF one] seq fa fl po deliver out
      by (intro exI[of _ qs]) (auto simp: history_inv_def faithful_snoc split: if_splits)
  qed
qed

lemma history_correct:
  assumes "mq_history q0 as s" "mq_idle q0" "mq_items q0 = []"
  shows "\<exists>qs. history_inv as (fst s) (snd s) qs"
  using assms
proof (induction rule: mq_history.induct)
  case start
  then obtain qs fs where r: "mq_rep q0 qs fs {}" by (auto simp: mq_idle_def)
  then have "qs = []" using start(2) by (simp add: mq_items_def mq_chain_rep[OF r])
  then show ?case using r by (auto simp: history_inv_def held_blocks_def one_each_def faithful_def)
next
  case (step as s a s')
  then obtain qs where i: "history_inv as (fst s) (snd s) qs" by blast
  have "mq_step (fst s, snd s) a (fst s', snd s')" using step.hyps(2) by simp
  from step_inv[OF this i] show ?case .
qed

section \<open>What every history shows\<close>

text \<open>C24: However the critical sections of any number of senders and receivers interleave on an empty message queue, the
  messages taken out are the messages linked, in the same order, and the rest is in the queue; every thread links what
  it copied in and delivers what it took out; the blocks in use by threads, queue and free list never overlap.\<close>

theorem message_queue_interleaving:
  assumes "mq_history (mq_init_pool sz n pool flag) as (q, h)" "n < 2 ^ 16" "\<forall>k. length (pool k) = sz"
  shows "linked as = popped as @ mq_items q \<and> faithful as \<and> length (mq_items q) \<le> n \<and> (\<exists>qs fs. mq_rep q qs fs (held_blocks h))"
proof -
  let ?q0 = "mq_init_pool sz n pool flag"
  have r0: "mq_rep ?q0 [] (rev [0..<n]) {}" by (rule mq_init_pool_rep) (use assms(2,3) in simp_all)
  have "mq_idle ?q0" "mq_items ?q0 = []" using r0 by (auto simp: mq_idle_def mq_items_def mq_chain_rep[OF r0])
  from history_correct[OF assms(1) this] obtain qs fs where i: "history_inv as q h qs" "mq_rep q qs fs (held_blocks h)"
    unfolding history_inv_def by auto
  have m: "max_msgs q = n"
  proof -
    have keep: "max_msgs (fst s') = max_msgs (fst s)" if "mq_step s a s'" for s a s'
      using that by cases (auto simp: mq_take_free_def mq_fill_def mq_append_def mq_pop_def mq_add_free_def Let_def)
    have fold_max: "max_msgs (fold mq_add_free xs x) = max_msgs x" for xs x by (induction xs arbitrary: x) (simp_all add: mq_add_free_def)
    have "max_msgs (fst s) = n" if "mq_history ?q0 as s" for as s
      using that by (induction rule: mq_history.induct) (simp_all add: keep mq_init_pool_def fold_max)
    from this[OF assms(1)] show ?thesis by simp
  qed
  have "mq_items q = mq_msgs q qs" by (simp add: mq_items_def mq_chain_rep[OF i(2)])
  moreover have "length qs \<le> n" using mq_rep_length[OF i(2)] m by simp
  ultimately show ?thesis using i by (auto simp: history_inv_def)
qed

text \<open>Thread 4 takes out the message of thread 2 while thread 3, which took its block first, is still copying.\<close>

definition demo_queue :: rt_messagequeue where
  "demo_queue = mq_init_pool 1 2 (\<lambda>_. [0]) RT_IPC_FLAG_FIFO"

lemma demo_history:
  "\<exists>q h. mq_history demo_queue [Take 3, Take 2, Fill 2 [7], Link 2 [7], Fill 3 [9], Pop 4 [7], Link 3 [9], Deliver 4 [7]] (q, h)"
proof -
  let ?H = "mq_history demo_queue"
  define q1 where "q1 = snd (the (mq_take_free demo_queue))"
  define q2 where "q2 = snd (the (mq_take_free q1))"
  define q3 where "q3 = mq_fill 0 [7] q2"
  define q4 where "q4 = snd (mq_append 0 q3)"
  define q5 where "q5 = mq_fill 1 [9] q4"
  define q6 where "q6 = snd (the (mq_pop q5))"
  define q7 where "q7 = snd (mq_append 1 q6)"
  note qs = q7_def q6_def q5_def q4_def q3_def q2_def q1_def demo_queue_def mq_init_pool_def mq_add_free_def mq_take_free_def mq_fill_def
    mq_append_def mq_pop_def RT_MQ_ENTRY_MAX_def Let_def mq_copy_out_def
  have f: "mq_take_free demo_queue = Some (1, q1)" "mq_take_free q1 = Some (0, q2)" "mq_pop q5 = Some (0, q6)"
    "msg_size q2 = 1" "msg_size q4 = 1" "msg_data q3 0 = [7]" "msg_data q5 0 = [7]" "msg_data q6 1 = [9]" "mq_copy_out 0 (msg_size q7) q7 = [7]"
    by (simp_all add: qs numeral_2_eq_2)
  let ?h1 = "[3 \<mapsto> Taken 1]"
  let ?h2 = "?h1(2 \<mapsto> Taken 0)"
  let ?h3 = "?h2(2 \<mapsto> Filled 0)"
  let ?h4 = "?h3(2 := None)"
  let ?h5 = "?h4(3 \<mapsto> Filled 1)"
  let ?h6 = "?h5(4 \<mapsto> Popped 0)"
  let ?h7 = "?h6(3 := None)"
  have "?H [Take 3] (q1, ?h1)" using mq_history.step[OF mq_history.start, of demo_queue] mq_step.take[of Map.empty 3 demo_queue 1 q1] f by fastforce
  from mq_history.step[OF this mq_step.take[of ?h1 2 q1 0 q2]] f have "?H [Take 3, Take 2] (q2, ?h2)" by simp
  from mq_history.step[OF this mq_step.fill[of ?h2 2 0 "[7]" q2]] f have "?H [Take 3, Take 2, Fill 2 [7]] (q3, ?h3)" by (simp add: q3_def)
  from mq_history.step[OF this mq_step.link[of ?h3 2 0 q3]] f have "?H [Take 3, Take 2, Fill 2 [7], Link 2 [7]] (q4, ?h4)" by (simp add: q4_def)
  from mq_history.step[OF this mq_step.fill[of ?h4 3 1 "[9]" q4]] f
  have "?H [Take 3, Take 2, Fill 2 [7], Link 2 [7], Fill 3 [9]] (q5, ?h5)" by (simp add: q5_def)
  from mq_history.step[OF this mq_step.pop[of ?h5 4 q5 0 q6]] f
  have "?H [Take 3, Take 2, Fill 2 [7], Link 2 [7], Fill 3 [9], Pop 4 [7]] (q6, ?h6)" by simp
  from mq_history.step[OF this mq_step.link[of ?h6 3 1 q6]] f
  have "?H [Take 3, Take 2, Fill 2 [7], Link 2 [7], Fill 3 [9], Pop 4 [7], Link 3 [9]] (q7, ?h7)" by (simp add: q7_def)
  from mq_history.step[OF this mq_step.deliver[of ?h7 4 0 q7]] f
  show ?thesis by (intro exI[of _ "mq_add_free 0 q7"] exI[of _ Map.empty]) simp
qed

theorem message_queue_interleaving_witness:
  "\<exists>q h. linked [Take 3, Take 2, Fill 2 [7], Link 2 [7], Fill 3 [9], Pop 4 [7], Link 3 [9], Deliver 4 [7]] =
    [7] # mq_items q \<and> mq_history demo_queue [Take 3, Take 2, Fill 2 [7], Link 2 [7], Fill 3 [9], Pop 4 [7], Link 3 [9], Deliver 4 [7]] (q, h)"
proof -
  obtain q h where h: "mq_history demo_queue [Take 3, Take 2, Fill 2 [7], Link 2 [7], Fill 3 [9], Pop 4 [7], Link 3 [9], Deliver 4 [7]] (q, h)"
    using demo_history by blast
  from message_queue_interleaving[OF this[unfolded demo_queue_def]] h show ?thesis by auto
qed

end
