(* ===== verification/Timer_Run.thy ===== *)
theory Timer_Run
  imports Kernel_Demo
begin

text \<open>
  The check of the hard timers as a whole: it ends with no timer due, whatever the functions of the timers do within
  their limits; and what a tick does to the threads whose timeout it is.
\<close>

section \<open>Timers that are due\<close>

definition due_timers :: "'a timer_system_scheme \<Rightarrow> timer_id set" where
  "due_timers S = {t \<in> linked Hard S. timer_distance S t \<le> 1}"

lemma finite_due [simp]: "finite (due_timers S)"
  by (simp add: due_timers_def linked_def)

lemma due_mono:
  assumes "linked Hard S' \<subseteq> linked Hard S" "rt_tick S' = rt_tick S"
    "\<And>t. t \<in> linked Hard S' \<Longrightarrow> timeout_tick (timers S' t) = timeout_tick (timers S t)"
  shows "due_timers S' \<subseteq> due_timers S"
  using assms by (auto simp: due_timers_def timer_distance_def)

lemma due_head:
  assumes ok: "timers_ok S" and l: "last (timer_list S Hard) = t # ts"
  shows "t \<in> linked Hard S" "rt_tick S - timeout_tick (timers S t) < RT_TICK_MAX div 2 \<longleftrightarrow> t \<in> due_timers S"
proof -
  show t: "t \<in> linked Hard S" by (simp add: linked_def l)
  show "rt_tick S - timeout_tick (timers S t) < RT_TICK_MAX div 2 \<longleftrightarrow> t \<in> due_timers S"
    using due_distance[OF linked_sorted(2)[OF ok t]] t by (simp add: due_timers_def)
qed

lemma timer_due_iff:
  assumes ok: "timers_ok S"
  shows "timer_due Hard S \<longleftrightarrow> due_timers S \<noteq> {}"
proof
  assume d: "timer_due Hard S"
  then obtain t ts where l: "last (timer_list S Hard) = t # ts" by (auto simp: timer_due_def split: list.splits)
  then show "due_timers S \<noteq> {}" using d due_head[OF ok l] by (auto simp: timer_due_def)
next
  assume "due_timers S \<noteq> {}"
  then show "timer_due Hard S" using not_due[OF ok] by (fastforce simp: due_timers_def)
qed

section \<open>The functions of the timers\<close>

text \<open>
  What the check relies on: a periodic timer has a period that is not zero and below half of the range; a timer
  function, called in a reachable state, returns in a reachable state of the same tick, keeps the periods, and starts
  no hard timer that is due at once.
\<close>

definition periods_ok :: "'a timer_system_scheme \<Rightarrow> bool" where
  "periods_ok S \<longleftrightarrow> (\<forall>n. timer_periodic (timers S (Timer n)) \<longrightarrow>
     0 < timer_init_tick (timers S (Timer n)) \<and> timer_init_tick (timers S (Timer n)) < RT_TICK_MAX div 2)"

definition callback_ok :: "nat \<Rightarrow> (nat \<Rightarrow> ipc \<Rightarrow> ipc option) \<Rightarrow> bool" where
  "callback_ok i f \<longleftrightarrow> (\<forall>n K. reachable i K \<and> periods_ok K \<longrightarrow>
     (\<exists>K'. f n K = Some K' \<and> reachable i K' \<and> rt_tick K' = rt_tick K \<and> periods_ok K' \<and> due_timers K' \<subseteq> due_timers K))"

lemma reachable_timers: "reachable i K \<Longrightarrow> timers_ok K"
  by (rule inv_timers[OF reachable_inv])

lemma reachable_thread_step: "reachable i K \<Longrightarrow> thread_step i K K' \<Longrightarrow> reachable i K'"
  and reachable_timer_step: "reachable i K \<Longrightarrow> timer_step i K K' \<Longrightarrow> reachable i K'"
  by (erule reachable.step, simp add: kernel_step_def)+

lemma resume_timers:
  assumes "timers_ok K"
  shows "linked Hard (snd (rt_thread_resume t K)) \<subseteq> linked Hard K" "rt_tick (snd (rt_thread_resume t K)) = rt_tick K"
    "timeout_tick (timers (snd (rt_thread_resume t K)) x) = timeout_tick (timers K x)"
    "timer_periodic (timers (snd (rt_thread_resume t K)) x) = timer_periodic (timers K x)"
    "timer_init_tick (timers (snd (rt_thread_resume t K)) x) = timer_init_tick (timers K x)"
proof -
  let ?K1 = "thread_timer_stop t (rt_list_remove t K)"
  have p: "timer_part (snd (rt_thread_resume t K)) = timer_part (if stat (threads K t) \<noteq> RT_THREAD_SUSPEND then K else ?K1)"
    by (simp add: rt_thread_resume_def)
  note f = truncate_fields(1-3)[OF p]
  have l: "linked Hard ?K1 \<subseteq> linked Hard K"
  proof (cases "timer_activated (timers K (Thread_timer t))")
    case True
    then have "timer_list ?K1 h = map (removeAll (Thread_timer t)) (timer_list K h)" for h
      using truncate_fields(3)[of "rt_list_remove t K" K] by (simp add: thread_timer_stop_def rt_timer_stop_def timer_off_def)
    then show ?thesis using timers_okD(1)[OF assms, of Hard] by (auto simp: linked_def rows_ok_def last_map)
  next
    case False
    then show ?thesis using truncate_fields(3)[of "rt_list_remove t K" K] by (simp add: thread_timer_stop_def rt_timer_stop_def linked_def)
  qed
  show "linked Hard (snd (rt_thread_resume t K)) \<subseteq> linked Hard K" using l f(3) by (simp add: linked_def split: if_splits)
  have "rt_tick ?K1 = rt_tick K"
    using truncate_fields(1)[of "rt_list_remove t K" K] by (simp add: thread_timer_stop_def rt_timer_stop_def timer_off_def)
  then show "rt_tick (snd (rt_thread_resume t K)) = rt_tick K" using f(1) by simp
  show "timeout_tick (timers (snd (rt_thread_resume t K)) x) = timeout_tick (timers K x)"
    "timer_periodic (timers (snd (rt_thread_resume t K)) x) = timer_periodic (timers K x)"
    "timer_init_tick (timers (snd (rt_thread_resume t K)) x) = timer_init_tick (timers K x)" using f(2) by auto
qed

lemma schedule_part:
  assumes "ipc_inv i K"
  shows "timer_part (rt_schedule K) = timer_part K"
  using schedule_steady(2)[of K i] ipc_invD(1)[OF assms] by (simp add: steady_def sched_frame_def)

text \<open>Restarting a periodic timer: it is not due, and nothing else becomes due.\<close>

lemma restart_due:
  assumes inv: "ipc_inv i K" and init: "0 < timer_init_tick (timers K (Timer n))" "timer_init_tick (timers K (Timer n)) < RT_TICK_MAX div 2"
    and p: "periods_ok K"
  shows "\<exists>K'. rt_timer_start (Timer n) K = Some K' \<and> rt_tick K' = rt_tick K \<and> due_timers K' \<subseteq> due_timers K \<and> periods_ok K'"
proof -
  obtain K1 where st: "timer_start_list (Timer n) K = Some K1" using timer_start_total[OF init(2)] by blast
  note T = timer_start_ok[OF inv_timers[OF inv] st]
  have i1: "ipc_inv i K1" by (rule timer_start_list_inv[OF inv st])
  let ?d = "timer_distance K1 (Timer n)"
  have "unat (timer_init_tick (timers K (Timer n)) + 1) = Suc (unat (timer_init_tick (timers K (Timer n))))"
    using init by (simp add: RT_TICK_MAX_def unat_word_ariths word_less_nat_alt)
  then have "?d = Suc (unat (timer_init_tick (timers K (Timer n))))" by (simp add: timer_distance_def T(3,4) distance_def)
  then have d: "2 \<le> ?d" using init(1) by (simp add: word_less_nat_alt)
  have l: "linked Hard K1 \<subseteq> insert (Timer n) (linked Hard K)" using T(2) T(6)[of Hard] by (cases "timer_soft (timers K (Timer n))") auto
  have due: "due_timers K1 \<subseteq> due_timers K"
    using l d by (auto simp: due_timers_def timer_distance_def T(3,4) split: if_splits)
  have p1: "periods_ok K1" using p by (simp add: periods_ok_def T(3))
  let ?K' = "rt_schedule (snd (rt_thread_resume (timer_thread K1) K1))"
  note R = resume_timers[OF inv_timers[OF i1], of "timer_thread K1"]
  note S = truncate_fields(1-3)[OF schedule_part[OF resume_inv[OF i1]], of "timer_thread K1"]
  have "due_timers ?K' \<subseteq> due_timers K1" by (rule due_mono) (use R S in \<open>auto simp: linked_def\<close>)
  moreover have "periods_ok ?K'" using p1 R(4,5) by (simp add: periods_ok_def S(2))
  ultimately show ?thesis using due p1 st T(4) R(2) S(1) by (auto simp: rt_timer_start_def)
qed

section \<open>One round of the check\<close>

lemma removed_due:
  assumes ok: "timers_ok S" and l: "timer_list S' Hard = map (removeAll t) (timer_list S Hard)" and r: "rt_tick S' = rt_tick S"
    and d: "\<And>x. timeout_tick (timers S' x) = timeout_tick (timers S x)"
  shows "due_timers S' = due_timers S - {t}" "linked Hard S' = linked Hard S - {t}"
proof -
  show k: "linked Hard S' = linked Hard S - {t}" using timers_okD(1)[OF ok, of Hard] by (simp add: linked_def l rows_ok_def last_map)
  show "due_timers S' = due_timers S - {t}" by (auto simp: due_timers_def k timer_distance_def r d)
qed

lemma timer_end_total:
  assumes inv: "ipc_inv i K" and p: "periods_ok K"
  shows "\<exists>K'. timer_expired Hard (Timer n) K = Some K' \<and> rt_tick K' = rt_tick K \<and> periods_ok K' \<and> due_timers K' \<subseteq> due_timers K"
proof (cases "expired K Hard = []")
  case True
  then show ?thesis using p by (simp add: timer_expired_def)
next
  case False
  let ?K2 = "K\<lparr>expired := (expired K)(Hard := removeAll (Timer n) (expired K Hard))\<rparr>"
  have due: "due_timers ?K2 = due_timers K" by (simp add: due_timers_def linked_def timer_distance_def[abs_def])
  have p2: "periods_ok ?K2" using p by (simp add: periods_ok_def)
  show ?thesis
  proof (cases "timer_periodic (timers K (Timer n)) \<and> timer_activated (timers K (Timer n))")
    case True
    have i2: "ipc_inv i ?K2" by (rule timer_change_inv[OF inv]) (use inv_timers[OF inv] in \<open>simp_all add: same_threads_def\<close>)
    have e: "timer_expired Hard (Timer n) K = rt_timer_start (Timer n) ?K2"
      using False True by (simp add: timer_expired_def Let_def rt_timer_start_def timer_start_off)
    have "timer_periodic (timers ?K2 (Timer n))" using True by simp
    then have "0 < timer_init_tick (timers ?K2 (Timer n))" "timer_init_tick (timers ?K2 (Timer n)) < RT_TICK_MAX div 2"
      using p2 unfolding periods_ok_def by blast+
    from restart_due[OF i2 this p2] show ?thesis by (auto simp: e due)
  next
    case F: False
    then have "timer_expired Hard (Timer n) K = Some ?K2" using False by (auto simp: timer_expired_def Let_def)
    then show ?thesis using due p2 by simp
  qed
qed

lemma check_round:
  assumes r: "reachable i K" and p: "periods_ok K" and f: "callback_ok i f"
    and l: "last (timer_list K Hard) = t # ts" and d: "timer_due Hard K"
  shows "\<exists>K1 K2. call_timeout f t (timer_expire Hard t K) = Some K1 \<and> timer_expired Hard t K1 = Some K2 \<and> rt_tick K1 = rt_tick K \<and>
    rt_tick K2 = rt_tick K \<and> reachable i K2 \<and> periods_ok K2 \<and> due_timers K2 \<subset> due_timers K"
proof -
  note inv = reachable_inv[OF r]
  note ok = inv_timers[OF inv]
  have t: "t \<in> linked Hard K" "t \<in> due_timers K" using due_head[OF ok l] d by (simp_all add: timer_due_def l)
  show ?thesis
  proof (cases t)
    case (Thread_timer x)
    note t' = t(1)[unfolded Thread_timer]
    obtain K1 K2 where K: "rt_thread_timeout x (timer_expire Hard (Thread_timer x) K) = Some K1"
      "timer_expired Hard (Thread_timer x) K1 = Some K2" "rt_tick K1 = rt_tick K" "rt_tick K2 = rt_tick K"
      "\<forall>y. timers K2 y = (if y = Thread_timer x then (timers K y)\<lparr>timer_activated := False\<rparr> else timers K y)"
      "\<forall>h. timer_list K2 h = map (removeAll (Thread_timer x)) (timer_list K h)" using timeout_round[OF inv t'] by blast
    have "reachable i K2" by (rule reachable_thread_step[OF r thread_step.timeout[OF l[unfolded Thread_timer] d K(1,2)]])
    moreover have "periods_ok K2" using p K(5) by (simp add: periods_ok_def)
    moreover have "due_timers K2 = due_timers K - {t}" by (rule removed_due[OF ok]) (use K(4-6) Thread_timer in auto)
    ultimately show ?thesis using K(1-4) t(2) by (auto simp: call_timeout_def Thread_timer)
  next
    case (Timer n)
    let ?K0 = "timer_expire Hard t K"
    have r0: "reachable i ?K0" unfolding Timer by (rule reachable_timer_step[OF r timer_step.begin_timeout[OF l[unfolded Timer] d]])
    have p0: "periods_ok ?K0" using p by (auto simp: periods_ok_def timer_expire_timers)
    have tick0: "rt_tick ?K0 = rt_tick K" by (simp add: timer_expire_def Let_def timer_off_def)
    have d0: "due_timers ?K0 = due_timers K - {t}"
      by (rule removed_due[OF ok _ tick0]) (simp_all add: timer_expire_timers, simp add: timer_expire_def Let_def timer_off_def)
    obtain K1 where K1: "f n ?K0 = Some K1" "reachable i K1" "rt_tick K1 = rt_tick ?K0" "periods_ok K1" "due_timers K1 \<subseteq> due_timers ?K0"
      using f r0 p0 unfolding callback_ok_def by blast
    obtain K2 where K2: "timer_expired Hard (Timer n) K1 = Some K2" "rt_tick K2 = rt_tick K1" "periods_ok K2" "due_timers K2 \<subseteq> due_timers K1"
      using timer_end_total[OF reachable_inv[OF K1(2)] K1(4)] by blast
    have "reachable i K2" by (rule reachable_timer_step[OF K1(2) timer_step.end_timeout[OF K2(1)]])
    moreover have "due_timers K2 \<subset> due_timers K" using K1(5) K2(4) d0 t(2) by blast
    ultimately show ?thesis using K1 K2 tick0 by (auto simp: call_timeout_def Timer)
  qed
qed

lemma check_loop_total:
  assumes "reachable i K" "periods_ok K" "callback_ok i f"
  shows "\<exists>K'. timer_check_loop f (rt_tick K) K = Some K' \<and> reachable i K' \<and> \<not> timer_due Hard K' \<and> rt_tick K' = rt_tick K \<and> periods_ok K'"
  using assms(1,2)
proof (induction "card (due_timers K)" arbitrary: K rule: less_induct)
  case less
  note loop = timer_check_loop.simps[of f "rt_tick K" K]
  show ?case
  proof (cases "timer_due Hard K")
    case True
    then obtain t ts where l: "last (timer_list K Hard) = t # ts" "rt_tick K - timeout_tick (timers K t) < RT_TICK_MAX div 2"
      by (auto simp: timer_due_def split: list.splits)
    from check_round[OF less.prems assms(3) l(1) True] obtain K1 K2 where K: "call_timeout f t (timer_expire Hard t K) = Some K1"
      "timer_expired Hard t K1 = Some K2" "rt_tick K1 = rt_tick K" "rt_tick K2 = rt_tick K" "reachable i K2" "periods_ok K2"
      "due_timers K2 \<subset> due_timers K" by blast
    have "card (due_timers K2) < card (due_timers K)" by (rule psubset_card_mono[OF finite_due K(7)])
    from less.hyps[OF this K(5,6)] show ?thesis using loop l K(1-4) by simp
  next
    case False
    then show ?thesis using less.prems loop by (auto simp: timer_due_def split: list.splits)
  qed
qed

section \<open>Timeouts of threads\<close>

text \<open>The check when only timers of threads are due: exactly their threads wake up.\<close>

definition woken :: "timer_id set \<Rightarrow> 'a kernel_scheme \<Rightarrow> 'a kernel_scheme \<Rightarrow> bool" where
  "woken D K K' \<longleftrightarrow> kernel.more K' = kernel.more K \<and> linked Hard K' = linked Hard K - D \<and> linked Soft K' = linked Soft K - D \<and>
     (\<forall>x. x \<notin> D \<longrightarrow> timers K' x = timers K x) \<and>
     (\<forall>h. (\<forall>p. h \<noteq> Ready p) \<longrightarrow> tlists K' h = filter (\<lambda>t. Thread_timer t \<notin> D) (tlists K h)) \<and>
     (\<forall>t. if Thread_timer t \<in> D then error (threads K' t) = - RT_ETIMEOUT \<and> runnable (threads K' t)
          else error (threads K' t) = error (threads K t) \<and> (stat (threads K' t) = RT_THREAD_SUSPEND \<longleftrightarrow> stat (threads K t) = RT_THREAD_SUSPEND))"

lemma woken_none [simp]: "woken {} K K"
  by (simp add: woken_def)

lemma woken_more:
  assumes a: "kernel.more K1 = kernel.more K" "linked Hard K1 = linked Hard K - {Thread_timer t}" "linked Soft K1 = linked Soft K - {Thread_timer t}"
    "\<forall>x. x \<noteq> Thread_timer t \<longrightarrow> timers K1 x = timers K x" "\<forall>h. (\<forall>p. h \<noteq> Ready p) \<longrightarrow> tlists K1 h = removeAll t (tlists K h)"
    "error (threads K1 t) = - RT_ETIMEOUT" "runnable (threads K1 t)" "\<forall>x. runnable (threads K1 x) \<longrightarrow> runnable (threads K2 x)"
    "\<forall>x. x \<noteq> t \<longrightarrow> error (threads K1 x) = error (threads K x) \<and> (stat (threads K1 x) = RT_THREAD_SUSPEND \<longleftrightarrow> stat (threads K x) = RT_THREAD_SUSPEND)"
    and w: "woken D K1 K2" and t: "Thread_timer t \<notin> D"
  shows "woken (insert (Thread_timer t) D) K K2"
proof -
  have l: "filter (\<lambda>x. Thread_timer x \<notin> insert (Thread_timer t) D) xs = filter (\<lambda>x. Thread_timer x \<notin> D) (removeAll t xs)" for xs
    by (induction xs) auto
  note w = w[unfolded woken_def]
  have th: "if Thread_timer x \<in> insert (Thread_timer t) D then error (threads K2 x) = - RT_ETIMEOUT \<and> runnable (threads K2 x)
          else error (threads K2 x) = error (threads K x) \<and> (stat (threads K2 x) = RT_THREAD_SUSPEND \<longleftrightarrow> stat (threads K x) = RT_THREAD_SUSPEND)" for x
    using w a(6-9) t by (cases "x = t") (auto split: if_splits)
  have "tlists K2 h = filter (\<lambda>x. Thread_timer x \<notin> insert (Thread_timer t) D) (tlists K h)" if h: "\<forall>p. h \<noteq> Ready p" for h
  proof -
    have "tlists K2 h = filter (\<lambda>x. Thread_timer x \<notin> D) (tlists K1 h)" "tlists K1 h = removeAll t (tlists K h)" using w a(5) h by blast+
    then show ?thesis by (simp only: l)
  qed
  moreover have "timers K2 x = timers K x" if "x \<notin> insert (Thread_timer t) D" for x using w a(4) that by simp
  moreover have "linked Hard K2 = linked Hard K - insert (Thread_timer t) D" "linked Soft K2 = linked Soft K - insert (Thread_timer t) D"
    using w a(2,3) by auto
  moreover have "kernel.more K2 = kernel.more K" using w a(1) by simp
  ultimately show ?thesis unfolding woken_def using th by blast
qed

lemma check_loop_threads:
  assumes "reachable i K" "due_timers K \<subseteq> range Thread_timer"
  shows "\<exists>K'. timer_check_loop f (rt_tick K) K = Some K' \<and> reachable i K' \<and> \<not> timer_due Hard K' \<and> rt_tick K' = rt_tick K \<and>
    woken (due_timers K) K K' \<and> (\<forall>x. runnable (threads K x) \<longrightarrow> runnable (threads K' x))"
  using assms
proof (induction "card (due_timers K)" arbitrary: K rule: less_induct)
  case less
  note loop = timer_check_loop.simps[of f "rt_tick K" K]
  note inv = reachable_inv[OF less.prems(1)]
  note ok = inv_timers[OF inv]
  show ?case
  proof (cases "timer_due Hard K")
    case True
    then obtain x ts where l: "last (timer_list K Hard) = x # ts" "rt_tick K - timeout_tick (timers K x) < RT_TICK_MAX div 2"
      by (auto simp: timer_due_def split: list.splits)
    have x: "x \<in> linked Hard K" "x \<in> due_timers K" using due_head[OF ok l(1)] l(2) by simp_all
    then obtain t where t: "x = Thread_timer t" using less.prems(2) by blast
    obtain K1 K2 where K: "rt_thread_timeout t (timer_expire Hard (Thread_timer t) K) = Some K1"
      "timer_expired Hard (Thread_timer t) K1 = Some K2" "kernel.more K2 = kernel.more K" "rt_tick K1 = rt_tick K" "rt_tick K2 = rt_tick K"
      "error (threads K2 t) = - RT_ETIMEOUT" "runnable (threads K2 t)" "\<forall>x. runnable (threads K x) \<longrightarrow> runnable (threads K2 x)"
      "\<forall>h. (\<forall>p. h \<noteq> Ready p) \<longrightarrow> tlists K2 h = removeAll t (tlists K h)"
      "\<forall>x. x \<noteq> t \<longrightarrow> error (threads K2 x) = error (threads K x) \<and> (stat (threads K2 x) = RT_THREAD_SUSPEND \<longleftrightarrow> stat (threads K x) = RT_THREAD_SUSPEND)"
      "\<forall>x. timers K2 x = (if x = Thread_timer t then (timers K x)\<lparr>timer_activated := False\<rparr> else timers K x)"
      "\<forall>h. timer_list K2 h = map (removeAll (Thread_timer t)) (timer_list K h)"
      using timeout_round[OF inv x(1)[unfolded t]] by blast
    have r2: "reachable i K2" by (rule reachable_thread_step[OF less.prems(1) thread_step.timeout[OF l(1)[unfolded t] True K(1,2)]])
    have "due_timers K2 = due_timers K - {x}" "linked Hard K2 = linked Hard K - {x}" by (rule removed_due[OF ok]; use K(5,11,12) t in auto)+
    note d2 = this
    have soft: "linked Soft K2 = linked Soft K - {Thread_timer t}"
      using timers_okD(1)[OF ok, of Soft] K(12) by (simp add: linked_def rows_ok_def last_map)
    have "card (due_timers K2) < card (due_timers K)" by (rule psubset_card_mono[OF finite_due]) (use d2 x in auto)
    moreover have "due_timers K2 \<subseteq> range Thread_timer" using d2 less.prems(2) by blast
    ultimately obtain K' where K': "timer_check_loop f (rt_tick K2) K2 = Some K'" "reachable i K'"
      "\<not> timer_due Hard K'" "rt_tick K' = rt_tick K2" "woken (due_timers K2) K2 K'" "\<forall>x. runnable (threads K2 x) \<longrightarrow> runnable (threads K' x)"
      using less.hyps[OF _ r2] by blast
    have "woken (insert (Thread_timer t) (due_timers K2)) K K'"
      by (rule woken_more[OF K(3) _ soft _ K(9,6,7) K'(6) K(10) K'(5)]) (use K(11) d2 t in auto)
    moreover have "insert (Thread_timer t) (due_timers K2) = due_timers K" using d2 x t by auto
    moreover have "timer_check_loop f (rt_tick K) K = Some K'" using loop l K(1,2,4,5) K'(1) by (simp add: call_timeout_def t)
    ultimately show ?thesis using K'(2-4,6) K(5,8) by auto
  next
    case False
    then have "timer_check_loop f (rt_tick K) K = Some K" using loop by (auto simp: timer_due_def split: list.splits)
    then show ?thesis using False less.prems(1) timer_due_iff[OF ok] by simp
  qed
qed

section \<open>A tick\<close>

lemma tick_frame:
  assumes inv: "ipc_inv i K" and d: "\<not> timer_late K"
  shows "timer_part (tick_time_slice K) = timer_part (K\<lparr>rt_tick := rt_tick K + 1\<rparr>)" "kernel.more (tick_time_slice K) = kernel.more K"
    "\<forall>h. (\<forall>p. h \<noteq> Ready p) \<longrightarrow> tlists (tick_time_slice K) h = tlists K h"
    "error (threads (tick_time_slice K) t) = error (threads K t)"
    "stat (threads (tick_time_slice K) t) = RT_THREAD_SUSPEND \<longleftrightarrow> stat (threads K t) = RT_THREAD_SUSPEND"
    "runnable (threads K t) \<Longrightarrow> runnable (threads (tick_time_slice K) t)"
proof -
  let ?K0 = "K\<lparr>rt_tick := rt_tick K + 1\<rparr>" and ?c = "rt_current_thread K"
  let ?K1 = "upd_thread ?c (\<lambda>th. th\<lparr>remaining_tick := remaining_tick th - 1\<rparr>) ?K0"
  let ?K2 = "upd_thread ?c (\<lambda>th. th\<lparr>remaining_tick := init_tick th, stat_yield := True\<rparr>) ?K1"
  have "timers_ok ?K0" using inv_timers[OF inv] d by (rule tick_ok)
  then have "steady i ?K0" using ipc_invD(1)[OF inv] by (auto simp: steady_def kernel_inv_but_def)
  then have "steady i ?K2" by (intro steady_upd) auto
  then have "sched_frame ?K2 (rt_schedule ?K2)" using schedule_steady(2)[of ?K2 i] by (simp add: steady_def)
  then have S: "sched_frame ?K2 (rt_schedule ?K2)" .
  note F = S[unfolded sched_frame_def] sched_frame_stat[OF S]
  have e: "tick_time_slice K = ?K1 \<or> tick_time_slice K = rt_schedule ?K2" by (simp add: tick_time_slice_def Let_def)
  have p: "timer_part ?K1 = timer_part ?K0" "timer_part ?K2 = timer_part ?K0" by simp_all
  show "timer_part (tick_time_slice K) = timer_part ?K0" using e F(1) p by auto
  show "kernel.more (tick_time_slice K) = kernel.more K" "\<forall>h. (\<forall>p. h \<noteq> Ready p) \<longrightarrow> tlists (tick_time_slice K) h = tlists K h"
    using e F(1) by auto
  show "error (threads (tick_time_slice K) t) = error (threads K t)" using e F(2)[of t] by auto
  show "stat (threads (tick_time_slice K) t) = RT_THREAD_SUSPEND \<longleftrightarrow> stat (threads K t) = RT_THREAD_SUSPEND" using e F(3)[of t] by (cases "t = ?c") auto
  assume "runnable (threads K t)"
  then have "runnable (threads ?K1 t)" "runnable (threads ?K2 t)" by (auto simp: runnable_def)
  moreover from this(2) have "runnable (threads (rt_schedule ?K2) t)" using F(1) by blast
  ultimately show "runnable (threads (tick_time_slice K) t)" using e by (elim disjE) (simp_all only:)
qed

text \<open>After a finished check, the timers that are due at the next tick are those with exactly that timeout.\<close>

definition due_next :: "'a timer_system_scheme \<Rightarrow> timer_id set" where
  "due_next S = {t \<in> linked Hard S. timeout_tick (timers S t) = rt_tick S + 1}"

lemma next_distance: "timer_distance S t = 2 \<longleftrightarrow> timeout_tick (timers S t) = rt_tick S + 1"
proof -
  have "timer_distance S t = 2 \<longleftrightarrow> timeout_tick (timers S t) - (rt_tick S - 1) = 2"
    by (simp add: timer_distance_def distance_def word_unat_eq_iff)
  also have "\<dots> \<longleftrightarrow> timeout_tick (timers S t) = rt_tick S + 1" by (auto simp: algebra_simps)
  finally show ?thesis .
qed

lemma tick_due:
  assumes inv: "ipc_inv i K" and d: "\<not> timer_due Hard K"
  shows "due_timers (tick_time_slice K) = due_next K" "\<And>h. linked h (tick_time_slice K) = linked h K"
    "timers (tick_time_slice K) = timers K" "rt_tick (tick_time_slice K) = rt_tick K + 1"
proof -
  note ok = inv_timers[OF inv]
  note l = not_due_late[OF ok d]
  note f = truncate_fields(1-3)[OF tick_frame(1)[OF inv l]]
  show "timers (tick_time_slice K) = timers K" "rt_tick (tick_time_slice K) = rt_tick K + 1" using f by simp_all
  show k: "linked h (tick_time_slice K) = linked h K" for h using f by (simp add: linked_def)
  have "timer_distance (tick_time_slice K) t \<le> 1 \<longleftrightarrow> timeout_tick (timers K t) = rt_tick K + 1" if t: "t \<in> linked Hard K" for t
  proof -
    have "timer_distance (tick_time_slice K) t = timer_distance (K\<lparr>rt_tick := rt_tick K + 1\<rparr>) t" using f by (simp add: timer_distance_def)
    then have "timer_distance K t = Suc (timer_distance (tick_time_slice K) t)" using tick_distance[OF l t] by simp
    moreover have "2 \<le> timer_distance K t" by (rule not_due[OF ok d t])
    ultimately show ?thesis unfolding next_distance[symmetric] by auto
  qed
  then show "due_timers (tick_time_slice K) = due_next K" unfolding due_timers_def due_next_def k by blast
qed

lemma tick_wakes:
  assumes r: "reachable i K" and d: "\<not> timer_due Hard K" and n: "due_next K \<subseteq> range Thread_timer"
  shows "\<exists>K'. rt_tick_increase f K = Some K' \<and> reachable i K' \<and> \<not> timer_due Hard K' \<and> rt_tick K' = rt_tick K + 1 \<and>
    woken (due_next K) K K' \<and> (\<forall>x. runnable (threads K x) \<longrightarrow> runnable (threads K' x))"
proof -
  let ?K1 = "tick_time_slice K"
  note inv = reachable_inv[OF r]
  note l = not_due_late[OF inv_timers[OF inv] d]
  note T = tick_due[OF inv d]
  note F = tick_frame[OF inv l]
  have r1: "reachable i ?K1" by (rule reachable_thread_step[OF r thread_step.tick[OF l]])
  have "due_timers ?K1 \<subseteq> range Thread_timer" using n T(1) by simp
  from check_loop_threads[OF r1 this, of f] obtain K' where K': "timer_check_loop f (rt_tick ?K1) ?K1 = Some K'" "reachable i K'"
    "\<not> timer_due Hard K'" "rt_tick K' = rt_tick ?K1" "woken (due_next K) ?K1 K'" "\<forall>x. runnable (threads ?K1 x) \<longrightarrow> runnable (threads K' x)"
    unfolding T(1) by blast
  have "woken (due_next K) K K'" using K'(5) F(2-5) unfolding woken_def T(2,3) by simp
  then show ?thesis using K' F(6) T(4) by (auto simp: rt_tick_increase_def rt_timer_check_def)
qed

text \<open>Several ticks in a row.\<close>

fun ticks :: "(nat \<Rightarrow> ipc \<Rightarrow> ipc option) \<Rightarrow> nat \<Rightarrow> ipc \<Rightarrow> ipc option" where
  "ticks f 0 K = Some K"
| "ticks f (Suc n) K = (case rt_tick_increase f K of None \<Rightarrow> None | Some K1 \<Rightarrow> ticks f n K1)"

text \<open>A thread that waits with a timeout \<open>n\<close> ticks ahead wakes with the \<open>n\<close>-th tick, and not before.\<close>

lemma ticks_wake:
  assumes "reachable i K" "\<not> timer_due Hard K" "linked Hard K \<subseteq> range Thread_timer"
    and "Thread_timer t \<in> linked Hard K" "timer_distance K (Thread_timer t) = n + 1" "wait_head h" "t \<in> set (tlists K h)"
  shows "\<exists>K'. ticks f n K = Some K' \<and> reachable i K' \<and> rt_tick K' = rt_tick K + of_nat n \<and> runnable (threads K' t) \<and>
      error (threads K' t) = - RT_ETIMEOUT \<and> t \<notin> set (tlists K' h)"
    and "m < n \<Longrightarrow> \<exists>K'. ticks f m K = Some K' \<and> stat (threads K' t) = RT_THREAD_SUSPEND \<and> t \<in> set (tlists K' h)"
proof -
  have "(\<exists>K'. ticks f n K = Some K' \<and> reachable i K' \<and> rt_tick K' = rt_tick K + of_nat n \<and> runnable (threads K' t) \<and>
      error (threads K' t) = - RT_ETIMEOUT \<and> t \<notin> set (tlists K' h)) \<and>
      (m < n \<longrightarrow> (\<exists>K'. ticks f m K = Some K' \<and> stat (threads K' t) = RT_THREAD_SUSPEND \<and> t \<in> set (tlists K' h)))"
    using assms
  proof (induction n arbitrary: K m)
    case 0
    then show ?case using not_due[OF reachable_timers[OF 0(1)] 0(2,4)] by simp
  next
    case (Suc n)
    note inv = reachable_inv[OF Suc.prems(1)]
    have sus: "stat (threads K t) = RT_THREAD_SUSPEND" by (rule linked_thread_timer(1)[OF inv Suc.prems(4)])
    have h: "\<forall>p. h \<noteq> Ready p" using Suc.prems(6) by (auto simp: wait_head_def)
    have "due_next K \<subseteq> range Thread_timer" using Suc.prems(3) by (auto simp: due_next_def)
    from tick_wakes[OF Suc.prems(1,2) this, of f] obtain K1 where K1: "rt_tick_increase f K = Some K1" "reachable i K1"
      "\<not> timer_due Hard K1" "rt_tick K1 = rt_tick K + 1" "woken (due_next K) K K1" by blast
    note w = K1(5)[unfolded woken_def]
    have q: "tlists K1 h = filter (\<lambda>t. Thread_timer t \<notin> due_next K) (tlists K h)" using w h by blast
    have nx: "Thread_timer t \<in> due_next K \<longleftrightarrow> n = 0" using Suc.prems(4,5) next_distance[of K "Thread_timer t"] by (auto simp: due_next_def)
    show ?case
    proof (cases "n = 0")
      case True
      have "error (threads K1 t) = - RT_ETIMEOUT \<and> runnable (threads K1 t)" using w nx True by metis
      moreover have "t \<notin> set (tlists K1 h)" using q nx True by simp
      ultimately show ?thesis using K1 True sus Suc.prems(7) by simp
    next
      case False
      have l1: "Thread_timer t \<in> linked Hard K1" "linked Hard K1 \<subseteq> range Thread_timer" using w nx False Suc.prems(3,4) by auto
      have "timers K1 (Thread_timer t) = timers K (Thread_timer t)" using w nx False by blast
      moreover have "\<not> timer_late K" by (rule not_due_late[OF reachable_timers[OF Suc.prems(1)] Suc.prems(2)])
      ultimately have d1: "timer_distance K1 (Thread_timer t) = n + 1"
        using tick_distance[OF _ Suc.prems(4)] Suc.prems(5) K1(4) by (simp add: timer_distance_def)
      have t1: "t \<in> set (tlists K1 h)" using q nx False Suc.prems(7) by simp
      note IH = Suc.IH[OF K1(2,3) l1(2,1) d1 Suc.prems(6) t1]
      show ?thesis using IH[of "m - 1"] K1(1,4) sus Suc.prems(7) by (cases m) (auto simp: algebra_simps)
    qed
  qed
  then show "\<exists>K'. ticks f n K = Some K' \<and> reachable i K' \<and> rt_tick K' = rt_tick K + of_nat n \<and> runnable (threads K' t) \<and>
      error (threads K' t) = - RT_ETIMEOUT \<and> t \<notin> set (tlists K' h)"
    "m < n \<Longrightarrow> \<exists>K'. ticks f m K = Some K' \<and> stat (threads K' t) = RT_THREAD_SUSPEND \<and> t \<in> set (tlists K' h)" by blast+
qed

text \<open>A thread that is suspended without a timeout sleeps through any number of ticks, and the soft timers stay as they are.\<close>

lemma ticks_asleep:
  assumes "reachable i K" "\<not> timer_due Hard K" "linked Hard K \<subseteq> range Thread_timer"
    and "stat (threads K t) = RT_THREAD_SUSPEND" "Thread_timer t \<notin> linked Hard K"
  shows "\<exists>K'. ticks f n K = Some K' \<and> reachable i K' \<and> rt_tick K' = rt_tick K + of_nat n \<and>
    stat (threads K' t) = RT_THREAD_SUSPEND \<and> linked Soft K' = linked Soft K"
  using assms
proof (induction n arbitrary: K)
  case (Suc n)
  have d: "due_next K \<subseteq> range Thread_timer" "Thread_timer t \<notin> due_next K" using Suc.prems(3,5) by (auto simp: due_next_def)
  from tick_wakes[OF Suc.prems(1,2) d(1), of f] obtain K1 where K1: "rt_tick_increase f K = Some K1" "reachable i K1"
    "\<not> timer_due Hard K1" "rt_tick K1 = rt_tick K + 1" "woken (due_next K) K K1" by blast
  note w = K1(5)[unfolded woken_def]
  have l: "linked Hard K1 \<subseteq> range Thread_timer" "Thread_timer t \<notin> linked Hard K1" using w Suc.prems(3,5) by auto
  have s: "stat (threads K1 t) = RT_THREAD_SUSPEND" using w d(2) Suc.prems(4) by metis
  have "linked Hard K \<inter> linked Soft K = {}" using timers_okD(3,4)[OF reachable_timers[OF Suc.prems(1)]] by blast
  then have "linked Soft K1 = linked Soft K" using w by (auto simp: due_next_def)
  then show ?case using Suc.IH[OF K1(2,3) l(1) s l(2)] K1(1,4) by (auto simp: algebra_simps)
qed simp

end
