(* ===== verification/Timer_Props.thy ===== *)
theory Timer_Props
  imports Timer_Run
begin

text \<open>
  What the timers promise: the skip list is a sorted list, the lists are well formed whenever the kernel is reachable,
  the check ends, and a waiting thread wakes with exactly the tick it asked for. Two races and slips of the code close
  the theory: a soft timer that is started while the timer thread is about to suspend itself, and a timer that its own
  function turns into a one-shot timer.
\<close>

section \<open>The skip list\<close>

text \<open>C10: Inserting a timer through the rows of the skip list puts it into the last row behind all timers with the same
  or an earlier timeout, across the wrap-around of the tick counter; the rows stay sorted, nested and equal in number.
  This holds for any number of rows and any random number.\<close>

theorem timer_link_sorted_insertion:
  assumes "rows_ok rows" "rows_sorted (\<lambda>x. distance base (due x)) rows" "t \<notin> set (last rows)"
    and "0 < distance base (due t)" "distance base (due t) < 2 ^ 31"
  shows "last (timer_link nr due t rows) = takeWhile (\<lambda>x. distance base (due x) \<le> distance base (due t)) (last rows) @
      t # dropWhile (\<lambda>x. distance base (due x) \<le> distance base (due t)) (last rows) \<and>
    rows_ok (timer_link nr due t rows) \<and> rows_sorted (\<lambda>x. distance base (due x)) (timer_link nr due t rows) \<and>
    length (timer_link nr due t rows) = length rows"
proof -
  have "distance base (due t) < tick_window" using assms(5) by (simp add: tick_window_def)
  note S = timer_link_sorted[OF assms(1,2,4) this, of nr] and O = timer_link_ok[OF assms(1,3), of nr due]
  show ?thesis using S O by (simp add: insert_due_def)
qed

definition demo_due :: "timer_id \<Rightarrow> u32" where
  "demo_due x = (case x of Timer n \<Rightarrow> (if n = 0 then 0xFFFFFFFF else of_nat n) | Thread_timer n \<Rightarrow> 3)"

theorem timer_link_sorted_insertion_witness:
  "last (timer_link 4 demo_due (Thread_timer 7) [[Timer 3], [Timer 0, Timer 3, Timer 5]]) = [Timer 0, Timer 3, Thread_timer 7, Timer 5]"
proof -
  have d: "distance 0xFFFFFFF0 (demo_due (Timer 0)) = 15" "distance 0xFFFFFFF0 (demo_due (Timer 3)) = 19"
    "distance 0xFFFFFFF0 (demo_due (Timer 5)) = 21" "distance 0xFFFFFFF0 (demo_due (Thread_timer 7)) = 19"
    by (simp_all add: distance_def demo_due_def)
  have "rows_ok [[Timer 3], [Timer 0, Timer 3, Timer 5]]" "Thread_timer 7 \<notin> set (last [[Timer 3], [Timer 0, Timer 3, Timer 5]])"
    "rows_sorted (\<lambda>x. distance 0xFFFFFFF0 (demo_due x)) [[Timer 3], [Timer 0, Timer 3, Timer 5]]"
    by (simp_all add: rows_ok_def rows_sorted_def d tick_window_def)
  from timer_link_sorted_insertion[OF this(1,3,2), of 4] show ?thesis by (simp add: d)
qed

section \<open>Timers in every reachable state\<close>

text \<open>Thread 2 waits for semaphore 7 for one tick.\<close>

definition demo_timed :: ipc where
  "demo_timed = (case rt_sem_take 7 1 demo of Blocked K \<Rightarrow> K | _ \<Rightarrow> demo)"

lemma demo_timed:
  "reachable 1 demo_timed" "linked Hard demo_timed = {Thread_timer 2}" "timeout_tick (timers demo_timed (Thread_timer 2)) = 1"
  "rt_tick demo_timed = 0" "tlists demo_timed (Suspend_thread (Semaphore 7)) = [2]" "timer_activated (timers demo_timed (Thread_timer 2))"
proof -
  let ?K = "set_error 2 RT_EOK demo"
  note inv = set_error_inv[OF reachable_inv[OF demo_reachable], of 2 RT_EOK]
  have none: "linked Hard ?K = {}" by (simp add: linked_def upd_thread_def)
  obtain K' where K': "wait_on (Suspend_thread (Semaphore 7)) RT_IPC_FLAG_PRIO 1 ?K = Blocked K'"
    "tlists K' (Suspend_thread (Semaphore 7)) = [2]" "rt_tick K' = 0" "timeout_tick (timers K' (Thread_timer 2)) = 1"
    "linked Hard K' = {Thread_timer 2}" "timer_activated (timers K' (Thread_timer 2))"
    using wait_on_correct[OF ipc_invD(1)[OF inv], of "Suspend_thread (Semaphore 7)" 1 RT_IPC_FLAG_PRIO]
    by (auto simp: timeout_ok_def enqueued_def none)
  have t: "rt_sem_take 7 1 demo = Blocked K'" using K'(1) by (simp add: rt_sem_take_def in_thread_context_def)
  then have eq: "demo_timed = K'" by (simp add: demo_timed_def)
  have "sync_step 1 demo K'" using t by (intro sync_step.sem_wait[of _ _ 1 7]) (auto simp: may_block_def timeout_ok_def)
  then show "reachable 1 demo_timed" using reachable.step[OF demo_reachable] eq by (simp add: kernel_step_def)
  show "linked Hard demo_timed = {Thread_timer 2}" "timeout_tick (timers demo_timed (Thread_timer 2)) = 1" "rt_tick demo_timed = 0"
    "tlists demo_timed (Suspend_thread (Semaphore 7)) = [2]" "timer_activated (timers demo_timed (Thread_timer 2))" using K' eq by simp_all
qed

lemma demo_timed_not_due: "\<not> timer_due Hard demo_timed"
  using timer_due_iff[OF reachable_timers[OF demo_timed(1)]] demo_timed(2-4)
  by (simp add: due_timers_def timer_distance_def distance_def)

text \<open>C11: In every reachable state the rows of both timer lists are nested and without repetitions; a timer in a list is
  activated and of the kind of that list; the hard list is in the order of the timeouts, each at most one tick overdue and less than
  half of the range of the tick counter ahead; the timer of a thread is activated exactly when it is in the hard list, and
  only for a suspended thread.\<close>

theorem timers_well_formed:
  assumes "reachable i K"
  shows "rows_ok (timer_list K h) \<and> sorted (map (timer_distance K) (last (timer_list K Hard))) \<and>
    (\<forall>t\<in>linked Hard K. timer_activated (timers K t) \<and> \<not> timer_soft (timers K t) \<and> unat (timeout_tick (timers K t) - (rt_tick K - 1)) < 2 ^ 31) \<and>
    (\<forall>t\<in>linked Soft K. timer_activated (timers K t) \<and> timer_soft (timers K t)) \<and>
    (\<forall>x. timer_activated (timers K (Thread_timer x)) \<longleftrightarrow> Thread_timer x \<in> linked Hard K) \<and>
    (\<forall>x. timer_activated (timers K (Thread_timer x)) \<longrightarrow> stat (threads K x) = RT_THREAD_SUSPEND)"
proof -
  note inv = reachable_inv[OF assms]
  note o = timers_okD[OF inv_timers[OF inv]] and s = linked_sorted[OF inv_timers[OF inv]]
  have "\<forall>t\<in>linked Hard K. unat (timeout_tick (timers K t) - (rt_tick K - 1)) < 2 ^ 31"
    using s(2) by (auto simp: timer_distance_def distance_def tick_window_def)
  moreover have "\<forall>x. timer_activated (timers K (Thread_timer x)) \<longleftrightarrow> Thread_timer x \<in> linked Hard K" using o(3,7) by blast
  moreover have "\<forall>x. timer_activated (timers K (Thread_timer x)) \<longrightarrow> stat (threads K x) = RT_THREAD_SUSPEND"
    using o(7) linked_thread_timer(1)[OF inv] by blast
  ultimately show ?thesis using o(1,3,4) s(1) by blast
qed

theorem timers_well_formed_witness:
  "Thread_timer 2 \<in> linked Hard demo_timed \<and> stat (threads demo_timed 2) = RT_THREAD_SUSPEND \<and> rows_ok (timer_list demo_timed Hard)"
  using timers_well_formed[OF demo_timed(1), of Hard] demo_timed(2,6) by simp

section \<open>The check\<close>

text \<open>C12: The check of the hard timers always ends, with no timer due any more, when periodic timers have a period and the
  functions of the timers keep within their limits: they return in a reachable state of the same tick and start no
  timer that is due at once.\<close>

theorem rt_timer_check_returns:
  assumes "reachable i K" "periods_ok K" "callback_ok i f"
  shows "\<exists>K'. rt_timer_check f K = Some K' \<and> reachable i K' \<and> \<not> timer_due Hard K' \<and> rt_tick K' = rt_tick K \<and> periods_ok K'"
  unfolding rt_timer_check_def by (rule check_loop_total[OF assms])

text \<open>The function of the timer releases a semaphore.\<close>

definition post :: "nat \<Rightarrow> ipc \<Rightarrow> ipc option" where
  "post n K = Some (snd (rt_sem_release 7 K))"

lemma post_ok: "callback_ok i post"
  unfolding callback_ok_def
proof (intro allI impI, elim conjE)
  fix n K assume r: "reachable i K" and p: "periods_ok K"
  let ?K' = "snd (rt_sem_release 7 K)"
  note inv = reachable_inv[OF r]
  have reach: "reachable i ?K'"
    by (rule reachable.step[OF r]) (use sync_step.sem_release[of i K 7] in \<open>simp add: kernel_step_def\<close>)
  have "rt_tick ?K' = rt_tick K \<and> periods_ok ?K' \<and> due_timers ?K' \<subseteq> due_timers K"
  proof (cases "tlists K (Suspend_thread (Semaphore 7))")
    case Nil
    then show ?thesis using p by (auto simp: rt_sem_release_def periods_ok_def due_timers_def linked_def timer_distance_def upd_sem_def)
  next
    case (Cons t ts)
    then have e: "?K' = rt_schedule (snd (rt_thread_resume t K))" by (simp add: rt_sem_release_def ipc_list_resume_def)
    note R = resume_timers[OF inv_timers[OF inv], of t]
    note S = truncate_fields(1-3)[OF schedule_part[OF resume_inv[OF inv]], of t]
    have "due_timers ?K' \<subseteq> due_timers K" unfolding e by (rule due_mono) (use R S in \<open>auto simp: linked_def\<close>)
    moreover have "periods_ok ?K'" using p R(4,5) by (simp add: periods_ok_def S(2) e)
    ultimately show ?thesis using R(2) S(1) by (simp add: e)
  qed
  then show "\<exists>K'. post n K = Some K' \<and> reachable i K' \<and> rt_tick K' = rt_tick K \<and> periods_ok K' \<and> due_timers K' \<subseteq> due_timers K"
    using reach by (simp add: post_def)
qed

text \<open>A periodic timer of one tick, one tick after its start.\<close>

definition demo_periodic :: ipc where
  "demo_periodic = tick_time_slice (the (rt_timer_start (Timer 0) (timer_init (Timer 0) 1 True False demo)))"

lemma demo_periodic: "reachable 1 demo_periodic" "timer_due Hard demo_periodic" "periods_ok demo_periodic"
proof -
  let ?K = "timer_init (Timer 0) 1 True False demo"
  have "timer_step 1 demo ?K" by (rule timer_step.init) (simp add: linked_def)
  then have r: "reachable 1 ?K" by (rule reachable_timer_step[OF demo_reachable])
  have tm: "timers ?K = (timers demo)(Timer 0 := \<lparr>timer_activated = False, timer_periodic = True, timer_soft = False, timeout_tick = 0, timer_init_tick = 1\<rparr>)"
    and tick0: "rt_tick ?K = 0" by (simp_all add: timer_init_def)
  obtain K1 where K1: "timer_start_list (Timer 0) ?K = Some K1" using timer_start_total[of ?K "Timer 0"] by (auto simp: tm RT_TICK_MAX_def)
  note T = timer_start_ok[OF reachable_timers[OF r] K1]
  have st: "rt_timer_start (Timer 0) ?K = Some K1" by (simp add: rt_timer_start_def K1 T(3) tm)
  have r1: "reachable 1 K1" by (rule reachable_timer_step[OF r timer_step.start[OF st]])
  have tick: "rt_tick K1 = 0" by (simp add: T(4) tick0)
  have l1: "linked Hard K1 = {Timer 0}" using T(2) by (simp add: tm) (simp add: linked_def timer_init_def)
  have "due_timers K1 = {}" using l1 T(3) tick by (simp add: due_timers_def timer_distance_def distance_def tm tick0)
  then have d1: "\<not> timer_due Hard K1" by (simp add: timer_due_iff[OF reachable_timers[OF r1]])
  note D = tick_due[OF reachable_inv[OF r1] d1]
  have e: "demo_periodic = tick_time_slice K1" by (simp add: demo_periodic_def st)
  show r2: "reachable 1 demo_periodic" unfolding e
    by (rule reachable_thread_step[OF r1 thread_step.tick[OF not_due_late[OF reachable_timers[OF r1] d1]]])
  have "due_next K1 = {Timer 0}" using l1 T(3) tick by (auto simp: due_next_def T(3) tm tick0 tick)
  with D(1) have "due_timers (tick_time_slice K1) \<noteq> {}" by simp
  then show "timer_due Hard demo_periodic" using timer_due_iff[OF reachable_timers[OF r2]] unfolding e by blast
  have "timers demo x = cold_timer" for x by (simp add: demo_eq)
  then show "periods_ok demo_periodic" by (simp add: periods_ok_def e D(3) T(3) tm RT_TICK_MAX_def cold_timer_def)
qed

theorem rt_timer_check_returns_witness:
  "timer_due Hard demo_periodic \<and> (\<exists>K'. rt_timer_check post demo_periodic = Some K' \<and> \<not> timer_due Hard K')"
  using rt_timer_check_returns[OF demo_periodic(1,3) post_ok] demo_periodic(2) by blast

section \<open>Timeouts\<close>

text \<open>C9: One tick, when the timers that time out with it are those of threads: exactly these threads leave the queues they
  wait in, can run again and carry the timeout error; every other thread keeps its error, its queue and its suspension,
  and every other timer stays as it is. No timer is due afterwards.\<close>

theorem timeouts_on_time:
  assumes "reachable i K" "\<not> timer_due Hard K"
    and "\<forall>n. Timer n \<in> linked Hard K \<longrightarrow> timeout_tick (timers K (Timer n)) \<noteq> rt_tick K + 1"
    and "D = {t. Thread_timer t \<in> linked Hard K \<and> timeout_tick (timers K (Thread_timer t)) = rt_tick K + 1}"
  shows "\<exists>K'. rt_tick_increase f K = Some K' \<and> reachable i K' \<and> \<not> timer_due Hard K' \<and> rt_tick K' = rt_tick K + 1 \<and>
    linked Hard K' = linked Hard K - Thread_timer ` D \<and> (\<forall>x. x \<notin> Thread_timer ` D \<longrightarrow> timers K' x = timers K x) \<and>
    (\<forall>h. wait_head h \<longrightarrow> tlists K' h = filter (\<lambda>t. t \<notin> D) (tlists K h)) \<and>
    (\<forall>t. if t \<in> D then error (threads K' t) = - RT_ETIMEOUT \<and> runnable (threads K' t)
         else error (threads K' t) = error (threads K t) \<and> (stat (threads K' t) = RT_THREAD_SUSPEND \<longleftrightarrow> stat (threads K t) = RT_THREAD_SUSPEND)) \<and>
    kernel.more K' = kernel.more K"
proof -
  have n: "due_next K = Thread_timer ` D"
    using assms(3) by (auto simp: due_next_def assms(4) image_iff) (metis timer_id.exhaust)
  have "due_next K \<subseteq> range Thread_timer" by (auto simp: n)
  from tick_wakes[OF assms(1,2) this, of f] obtain K' where K': "rt_tick_increase f K = Some K'" "reachable i K'" "\<not> timer_due Hard K'"
    "rt_tick K' = rt_tick K + 1" "woken (Thread_timer ` D) K K'" unfolding n by blast
  have m: "Thread_timer t \<in> Thread_timer ` D \<longleftrightarrow> t \<in> D" for t by auto
  note w = K'(5)[unfolded woken_def m]
  have "\<forall>h. wait_head h \<longrightarrow> tlists K' h = filter (\<lambda>t. t \<notin> D) (tlists K h)" using w by (auto simp: wait_head_def)
  then show ?thesis using K'(1-4) w by blast
qed

theorem timeouts_on_time_witness:
  "\<exists>K'. rt_tick_increase post demo_timed = Some K' \<and> tlists K' (Suspend_thread (Semaphore 7)) = [] \<and>
    runnable (threads K' 2) \<and> error (threads K' 2) = - RT_ETIMEOUT"
proof -
  have "\<forall>n. Timer n \<in> linked Hard demo_timed \<longrightarrow> timeout_tick (timers demo_timed (Timer n)) \<noteq> rt_tick demo_timed + 1"
    and D: "{2} = {t. Thread_timer t \<in> linked Hard demo_timed \<and> timeout_tick (timers demo_timed (Thread_timer t)) = rt_tick demo_timed + 1}"
    using demo_timed(2-4) by auto
  from timeouts_on_time[OF demo_timed(1) demo_timed_not_due this, of post] obtain K' where K': "rt_tick_increase post demo_timed = Some K'"
    "\<forall>h. wait_head h \<longrightarrow> tlists K' h = filter (\<lambda>t. t \<notin> {2}) (tlists demo_timed h)"
    "\<forall>t. if t \<in> {2} then error (threads K' t) = - RT_ETIMEOUT \<and> runnable (threads K' t)
         else error (threads K' t) = error (threads demo_timed t) \<and> (stat (threads K' t) = RT_THREAD_SUSPEND \<longleftrightarrow> stat (threads demo_timed t) = RT_THREAD_SUSPEND)"
    by blast
  then show ?thesis using demo_timed(5) by (intro exI[of _ K']) (simp add: spec[OF K'(3), of 2, simplified])
qed

text \<open>C8: A take with a timeout of \<open>n\<close> ticks on a semaphore that nobody releases: the thread is in the queue and suspended
  through the first \<open>n - 1\<close> ticks; with the \<open>n\<close>-th tick it leaves the queue and can run, and when it runs the call
  returns the timeout error.\<close>

theorem rt_sem_take_times_out:
  assumes "reachable i K" "may_block i K" "in_thread_context K" "sem_value (sems K a) = 0" "0 < n" "n < 2 ^ 31 - 1"
    and "\<not> timer_due Hard K" "linked Hard K \<subseteq> range Thread_timer" "t = rt_current_thread K"
  shows "\<exists>K1 K2. rt_sem_take a (int n) K = Blocked K1 \<and>
    (\<forall>m<n. \<exists>K'. ticks f m K1 = Some K' \<and> stat (threads K' t) = RT_THREAD_SUSPEND \<and> t \<in> set (tlists K' (Suspend_thread (Semaphore a)))) \<and>
    ticks f n K1 = Some K2 \<and> reachable i K2 \<and> rt_tick K2 = rt_tick K + of_nat n \<and> runnable (threads K2 t) \<and>
    t \<notin> set (tlists K2 (Suspend_thread (Semaphore a))) \<and>
    (rt_current_thread K2 = t \<longrightarrow> rt_sem_take_resumed K2 = Return (- RT_ETIMEOUT) K2)"
proof -
  let ?h = "Suspend_thread (Semaphore a)" and ?K = "set_error t RT_EOK K" and ?tt = "Thread_timer t"
  note inv0 = reachable_inv[OF assms(1)]
  note inv = set_error_inv[OF inv0, of t RT_EOK]
  have c: "rt_current_thread ?K \<noteq> i" "rt_scheduler_lock_nest ?K = 0" "wait_head ?h" "timeout_ok (int n)" "int n > 0"
    using assms(2,5,6,9) by (simp_all add: may_block_def timeout_ok_def)
  have p: "linked Hard ?K = linked Hard K" by (simp add: linked_def upd_thread_def)
  obtain K1 where K1: "wait_on ?h (sem_flag (sems K a)) (int n) ?K = Blocked K1" "t \<in> set (tlists K1 ?h)" "rt_tick K1 = rt_tick K"
    "timeout_tick (timers K1 ?tt) = rt_tick K + word_of_int (int n)" "linked Hard K1 = insert ?tt (linked Hard K)"
    "\<forall>x. x \<noteq> ?tt \<longrightarrow> timers K1 x = timers K x"
    using wait_on_correct[OF ipc_invD(1)[OF inv] c(1-4), of "sem_flag (sems K a)"] c(5) assms(9) p by auto
  have take: "rt_sem_take a (int n) K = Blocked K1" using assms(3-5,9) K1(1) by (simp add: rt_sem_take_def)
  have r1: "reachable i K1"
    by (rule reachable.step[OF assms(1)]) (use sync_step.sem_wait[OF assms(2) c(4) take] in \<open>simp add: kernel_step_def\<close>)
  have d: "timer_distance K1 ?tt = n + 1"
    using assms(6) by (simp add: timer_distance_def distance_def K1(3,4) unat_word_ariths unat_of_nat)
  have "due_timers K = {}" using assms(7) timer_due_iff[OF inv_timers[OF inv0]] by simp
  moreover have "timer_distance K1 x = timer_distance K x" if "x \<noteq> ?tt" for x using that K1(3,6) by (simp add: timer_distance_def)
  ultimately have "2 \<le> timer_distance K1 x" if "x \<in> linked Hard K1" for x
    using that d assms(5) K1(5) by (cases "x = ?tt") (fastforce simp: due_timers_def)+
  then have "due_timers K1 = {}" by (fastforce simp: due_timers_def)
  then have nd: "\<not> timer_due Hard K1" by (simp add: timer_due_iff[OF reachable_timers[OF r1]])
  have l: "linked Hard K1 \<subseteq> range Thread_timer" "?tt \<in> linked Hard K1" using K1(5) assms(8) by auto
  note W = ticks_wake[where f = f, OF r1 nd l d c(3) K1(2)]
  have e: "- RT_ETIMEOUT \<noteq> RT_EOK" by (simp add: RT_ETIMEOUT_def RT_EOK_def)
  from W(1) obtain K2 where K2: "ticks f n K1 = Some K2" "reachable i K2" "rt_tick K2 = rt_tick K + of_nat n" "runnable (threads K2 t)"
    "error (threads K2 t) = - RT_ETIMEOUT" "t \<notin> set (tlists K2 ?h)" unfolding K1(3) by blast
  have "rt_current_thread K2 = t \<longrightarrow> rt_sem_take_resumed K2 = Return (- RT_ETIMEOUT) K2" using K2(5) e by (simp add: rt_sem_take_resumed_def)
  then show ?thesis using take W(2) K2 by blast
qed

theorem rt_sem_take_times_out_witness:
  "\<exists>K1 K2. rt_sem_take 7 5 demo = Blocked K1 \<and> ticks post 5 K1 = Some K2 \<and> rt_tick K2 = 5 \<and> runnable (threads K2 2)"
proof -
  have "may_block 1 demo" "in_thread_context demo" "sem_value (sems demo 7) = 0" "(0 :: nat) < 5" "(5 :: nat) < 2 ^ 31 - 1"
    "\<not> timer_due Hard demo" "linked Hard demo \<subseteq> range Thread_timer" "2 = rt_current_thread demo"
    by (simp_all add: may_block_def in_thread_context_def timer_due_def linked_def)
  from rt_sem_take_times_out[OF demo_reachable this, of post] show ?thesis by auto
qed

section \<open>A soft timer that nobody waits for\<close>

text \<open>C40: The timer thread reads the next timeout of the empty list of soft timers; an interrupt handler starts a soft timer
  before the thread suspends itself. The thread is then suspended although a soft timer is linked, and no tick wakes
  it, however late the timer gets.\<close>

theorem soft_timer_wakeup_lost:
  assumes "reachable i K" "may_block i K" "rt_current_thread K = timer_thread K" "linked Soft K = {}"
    and "timer_soft (timers K (Timer n))" "timer_init_tick (timers K (Timer n)) < RT_TICK_MAX div 2"
    and "\<not> timer_due Hard K" "linked Hard K \<subseteq> range Thread_timer"
  shows "timer_list_next_timeout Soft K = RT_TICK_MAX \<and>
    (\<exists>K1 K2. rt_timer_start (Timer n) K = Some K1 \<and> timer_thread_wait RT_TICK_MAX K1 = Some K2 \<and>
      (\<forall>m. \<exists>K3. ticks f m K2 = Some K3 \<and> reachable i K3 \<and> rt_tick K3 = rt_tick K + of_nat m \<and>
         stat (threads K3 (timer_thread K)) = RT_THREAD_SUSPEND \<and> Timer n \<in> linked Soft K3))"
proof -
  let ?c = "timer_thread K"
  note inv = reachable_inv[OF assms(1)]
  have none: "timer_list_next_timeout Soft K = RT_TICK_MAX" using assms(4) by (simp add: timer_list_next_timeout_def linked_def)
  obtain K1 where K1: "timer_start_list (Timer n) K = Some K1" using timer_start_total[OF assms(6)] by blast
  note T = timer_start_ok[OF inv_timers[OF inv] K1] and same = same_threads_ops(10)[OF K1, unfolded same_threads_def]
  have tt: "timer_thread K1 = ?c" using K1 by (auto simp: timer_start_list_def Let_def upd_timer_def timer_off_def timer_remove_def split: if_splits)
  have run: "stat (threads K ?c) = RT_THREAD_RUNNING" using steadyD(2)[OF ipc_invD(1)[OF inv]] assms(3) by simp
  have st: "rt_timer_start (Timer n) K = Some K1" using run same tt by (simp add: rt_timer_start_def K1)
  have r1: "reachable i K1" by (rule reachable_timer_step[OF assms(1) timer_step.start[OF st]])
  note inv1 = reachable_inv[OF r1]
  have cur: "rt_current_thread K1 = ?c" "rt_scheduler_lock_nest K1 = 0" "?c \<noteq> i" "may_block i K1"
    using same assms(2,3) by (simp_all add: may_block_def)
  have run1: "stat (threads K1 ?c) = RT_THREAD_RUNNING" using run same by simp
  obtain K2 where K2: "rt_thread_suspend ?c K1 = Some (RT_EOK, K2)" "stat (threads (rt_schedule K2) ?c) = RT_THREAD_SUSPEND"
    "timer_part (rt_schedule K2) = timer_part K1"
    using suspend_self_steady[OF ipc_invD(1)[OF inv1]] cur(1-3) by auto
  let ?K2 = "rt_schedule K2"
  have w: "timer_thread_wait RT_TICK_MAX K1 = Some ?K2" by (simp add: timer_thread_wait_def cur(1) K2(1))
  have r2: "reachable i ?K2" by (rule reachable_timer_step[OF r1 timer_step.soft_wait[OF cur(4) w]])
  note f = truncate_fields(1-3)[OF K2(3)]
  have l: "linked Hard ?K2 = linked Hard K" "Timer n \<in> linked Soft ?K2" "rt_tick ?K2 = rt_tick K"
    using T(2,4) T(6)[of Hard] timers_okD(3)[OF inv_timers[OF inv], of "Timer n"] assms(5) by (auto simp: linked_def f)
  have "due_timers ?K2 = due_timers K" using T(3) timers_okD(3)[OF inv_timers[OF inv], of "Timer n"] assms(5)
    by (auto simp: due_timers_def l timer_distance_def f)
  then have nd: "\<not> timer_due Hard ?K2"
    using assms(7) timer_due_iff[OF inv_timers[OF inv]] timer_due_iff[OF reachable_timers[OF r2]] by simp
  have out: "Thread_timer ?c \<notin> linked Hard ?K2" using linked_thread_timer(1)[OF inv, of ?c] run l(1) by auto
  have "\<exists>K3. ticks f m ?K2 = Some K3 \<and> reachable i K3 \<and> rt_tick K3 = rt_tick K + of_nat m \<and>
         stat (threads K3 ?c) = RT_THREAD_SUSPEND \<and> Timer n \<in> linked Soft K3" for m
    using ticks_asleep[OF r2 nd _ K2(2) out, of f m] l assms(8) by auto
  then show ?thesis using none st w by blast
qed

theorem soft_timer_wakeup_lost_witness:
  "\<exists>K1 K2 K3. rt_timer_start (Timer 0) (timer_init (Timer 0) 5 False True demo_boot) = Some K1 \<and> timer_thread_wait RT_TICK_MAX K1 = Some K2 \<and>
    ticks post 1000 K2 = Some K3 \<and> rt_tick K3 = 1000 \<and> stat (threads K3 4) = RT_THREAD_SUSPEND \<and> Timer 0 \<in> linked Soft K3"
proof -
  let ?K = "timer_init (Timer 0) 5 False True demo_boot"
  have b: "timer_list demo_boot h = [[]]" "rt_tick demo_boot = 0" "rt_current_thread demo_boot = 4" "rt_scheduler_lock_nest demo_boot = 0"
    "timer_thread demo_boot = 4" for h by (simp_all add: demo_boot_eq)
  have "timer_step 1 demo_boot ?K" by (rule timer_step.init) (simp add: linked_def b)
  then have r: "reachable 1 ?K" by (rule reachable_timer_step[OF demo_boot_reachable])
  have tt: "timer_thread ?K = 4" "rt_current_thread ?K = 4" "rt_scheduler_lock_nest ?K = 0" by (simp_all add: timer_init_def upd_timer_def b)
  have "may_block 1 ?K" "rt_current_thread ?K = timer_thread ?K" "linked Soft ?K = {}" "timer_soft (timers ?K (Timer 0))"
    "timer_init_tick (timers ?K (Timer 0)) < RT_TICK_MAX div 2" "\<not> timer_due Hard ?K" "linked Hard ?K \<subseteq> range Thread_timer"
    by (simp_all add: may_block_def tt) (simp_all add: timer_init_def linked_def timer_due_def RT_TICK_MAX_def b)
  from soft_timer_wakeup_lost[OF r this, of post] obtain K1 K2 where K: "rt_timer_start (Timer 0) ?K = Some K1"
    "timer_thread_wait RT_TICK_MAX K1 = Some K2" "\<forall>m. \<exists>K3. ticks post m K2 = Some K3 \<and> reachable 1 K3 \<and>
      rt_tick K3 = rt_tick ?K + of_nat m \<and> stat (threads K3 (timer_thread ?K)) = RT_THREAD_SUSPEND \<and> Timer 0 \<in> linked Soft K3" by blast
  have "rt_tick ?K = 0" by (simp add: timer_init_def b)
  with K(1,2) spec[OF K(3), of 1000] show ?thesis unfolding tt by auto
qed

section \<open>One-shot from within\<close>

text \<open>A periodic timer whose function turns it into a one-shot timer: after the round of the check it is in no list, and no
  tick can find it, but \<^verbatim>\<open>RT_TIMER_CTRL_GET_STATE\<close> goes on reporting it as activated.\<close>

lemma oneshot_in_callback:
  assumes "reachable i K" "last (timer_list K Hard) = Timer n # ts" "timer_periodic (timers K (Timer n))"
  shows "\<exists>K'. timer_expired Hard (Timer n) (snd (snd (rt_timer_control (Timer n) RT_TIMER_CTRL_SET_ONESHOT (timer_expire Hard (Timer n) K)))) = Some K' \<and>
    Timer n \<notin> linked Hard K' \<union> linked Soft K' \<and> rt_timer_control (Timer n) RT_TIMER_CTRL_GET_STATE K' = (RT_EOK, Some 1, K')"
proof -
  note ok = reachable_timers[OF assms(1)]
  have t: "timer_activated (timers K (Timer n))" using timers_okD(3)[OF ok, of "Timer n"] assms(2) by (simp add: linked_def)
  let ?K1 = "snd (snd (rt_timer_control (Timer n) RT_TIMER_CTRL_SET_ONESHOT (timer_expire Hard (Timer n) K)))"
  let ?K2 = "?K1\<lparr>expired := (expired ?K1)(Hard := removeAll (Timer n) (expired ?K1 Hard))\<rparr>"
  have tm: "timers ?K1 (Timer n) = (timers K (Timer n))\<lparr>timer_periodic := False\<rparr>"
    using assms(3) t by (simp add: rt_timer_control_def timer_expire_timers)
  have tl: "timer_list ?K1 h = map (removeAll (Timer n)) (timer_list K h)" "expired ?K1 Hard \<noteq> []" for h
    using assms(3) by (simp_all add: rt_timer_control_def timer_expire_def Let_def upd_timer_def)
  have "timer_expired Hard (Timer n) ?K1 = Some ?K2" using tl(2) tm by (simp add: timer_expired_def Let_def)
  moreover have "Timer n \<notin> linked h ?K2" for h using timers_okD(1)[OF ok, of h] tl(1) by (simp add: linked_def rows_ok_def last_map)
  moreover have "rt_timer_control (Timer n) RT_TIMER_CTRL_GET_STATE ?K2 = (RT_EOK, Some 1, ?K2)"
    using tm t by (simp add: rt_timer_control_def)
  ultimately show ?thesis by blast
qed

end
