(* ===== verification/Ymodem.thy ===== *)
theory Ymodem
  imports Prelude
begin

text \<open>
  The receiver of \<^verbatim>\<open>rt-thread/components/utilities/ymodem/ymodem.c\<close>. The serial line is a list of bytes, each with the
  ticks that pass between the byte before it and its arrival; what the receiver sends is collected. Waiting for a byte
  with a timeout is \<^verbatim>\<open>rt_sem_take\<close> on the semaphore that the receive interrupt releases; bytes that arrive while the
  thread sleeps are kept by the driver. The callbacks are functions on a state of their own; the result \<open>None\<close> is an
  access outside the packet buffer, or a loop that does not end.
\<close>

section \<open>Codes\<close>

type_synonym rym_code = u8

definition RYM_CODE_NONE :: rym_code where "RYM_CODE_NONE = 0x00"
definition RYM_CODE_SOH :: rym_code where "RYM_CODE_SOH = 0x01"
definition RYM_CODE_STX :: rym_code where "RYM_CODE_STX = 0x02"
definition RYM_CODE_EOT :: rym_code where "RYM_CODE_EOT = 0x04"
definition RYM_CODE_ACK :: rym_code where "RYM_CODE_ACK = 0x06"
definition RYM_CODE_NAK :: rym_code where "RYM_CODE_NAK = 0x15"
definition RYM_CODE_CAN :: rym_code where "RYM_CODE_CAN = 0x18"
definition RYM_CODE_C :: rym_code where "RYM_CODE_C = 0x43"

definition RYM_ERR_TMO :: int where "RYM_ERR_TMO = 0x70"
definition RYM_ERR_CODE :: int where "RYM_ERR_CODE = 0x71"
definition RYM_ERR_SEQ :: int where "RYM_ERR_SEQ = 0x72"
definition RYM_ERR_CRC :: int where "RYM_ERR_CRC = 0x73"
definition RYM_ERR_DSZ :: int where "RYM_ERR_DSZ = 0x74"
definition RYM_ERR_CAN :: int where "RYM_ERR_CAN = 0x75"
definition RT_ENOMEM :: int where "RT_ENOMEM = 5"

definition RT_TICK_PER_SECOND :: nat where "RT_TICK_PER_SECOND = 1000"
definition RYM_WAIT_CHR_TICK :: nat where "RYM_WAIT_CHR_TICK = RT_TICK_PER_SECOND * 3"
definition RYM_WAIT_PKG_TICK :: nat where "RYM_WAIT_PKG_TICK = RT_TICK_PER_SECOND * 3"
definition RYM_CHD_INTV_TICK :: nat where "RYM_CHD_INTV_TICK = RT_TICK_PER_SECOND * 3"
definition RYM_END_SESSION_SEND_CAN_NUM :: nat where "RYM_END_SESSION_SEND_CAN_NUM = 7"
definition RYM_SOH_PKG_SZ :: nat where "RYM_SOH_PKG_SZ = 1 + 2 + 128 + 2"
definition RYM_STX_PKG_SZ :: nat where "RYM_STX_PKG_SZ = 1 + 2 + 1024 + 2"

datatype rym_stage =
  RYM_STAGE_NONE | RYM_STAGE_ESTABLISHING | RYM_STAGE_ESTABLISHED | RYM_STAGE_TRANSMITTING | RYM_STAGE_FINISHING
| RYM_STAGE_FINISHED

section \<open>Checksum\<close>

definition crc16_shift :: "u16 \<Rightarrow> u16" where
  "crc16_shift crc = (if crc AND 0x8000 \<noteq> 0 then push_bit 1 crc XOR 0x1021 else push_bit 1 crc)"

fun CRC16_loop :: "u16 \<Rightarrow> bytes \<Rightarrow> u16" where
  "CRC16_loop crc [] = crc"
| "CRC16_loop crc (b # q) = CRC16_loop ((crc16_shift ^^ 8) (crc XOR push_bit 8 (ucast b))) q"

definition CRC16 :: "bytes \<Rightarrow> u16" where
  "CRC16 q = CRC16_loop 0 q"

text \<open>The variant of \<^verbatim>\<open>YMODEM_USING_CRC_TABLE\<close>.\<close>

definition ccitt_table :: "u16 list" where
  "ccitt_table = [
   0x0000, 0x1021, 0x2042, 0x3063, 0x4084, 0x50A5, 0x60C6, 0x70E7,
   0x8108, 0x9129, 0xA14A, 0xB16B, 0xC18C, 0xD1AD, 0xE1CE, 0xF1EF,
   0x1231, 0x0210, 0x3273, 0x2252, 0x52B5, 0x4294, 0x72F7, 0x62D6,
   0x9339, 0x8318, 0xB37B, 0xA35A, 0xD3BD, 0xC39C, 0xF3FF, 0xE3DE,
   0x2462, 0x3443, 0x0420, 0x1401, 0x64E6, 0x74C7, 0x44A4, 0x5485,
   0xA56A, 0xB54B, 0x8528, 0x9509, 0xE5EE, 0xF5CF, 0xC5AC, 0xD58D,
   0x3653, 0x2672, 0x1611, 0x0630, 0x76D7, 0x66F6, 0x5695, 0x46B4,
   0xB75B, 0xA77A, 0x9719, 0x8738, 0xF7DF, 0xE7FE, 0xD79D, 0xC7BC,
   0x48C4, 0x58E5, 0x6886, 0x78A7, 0x0840, 0x1861, 0x2802, 0x3823,
   0xC9CC, 0xD9ED, 0xE98E, 0xF9AF, 0x8948, 0x9969, 0xA90A, 0xB92B,
   0x5AF5, 0x4AD4, 0x7AB7, 0x6A96, 0x1A71, 0x0A50, 0x3A33, 0x2A12,
   0xDBFD, 0xCBDC, 0xFBBF, 0xEB9E, 0x9B79, 0x8B58, 0xBB3B, 0xAB1A,
   0x6CA6, 0x7C87, 0x4CE4, 0x5CC5, 0x2C22, 0x3C03, 0x0C60, 0x1C41,
   0xEDAE, 0xFD8F, 0xCDEC, 0xDDCD, 0xAD2A, 0xBD0B, 0x8D68, 0x9D49,
   0x7E97, 0x6EB6, 0x5ED5, 0x4EF4, 0x3E13, 0x2E32, 0x1E51, 0x0E70,
   0xFF9F, 0xEFBE, 0xDFDD, 0xCFFC, 0xBF1B, 0xAF3A, 0x9F59, 0x8F78,
   0x9188, 0x81A9, 0xB1CA, 0xA1EB, 0xD10C, 0xC12D, 0xF14E, 0xE16F,
   0x1080, 0x00A1, 0x30C2, 0x20E3, 0x5004, 0x4025, 0x7046, 0x6067,
   0x83B9, 0x9398, 0xA3FB, 0xB3DA, 0xC33D, 0xD31C, 0xE37F, 0xF35E,
   0x02B1, 0x1290, 0x22F3, 0x32D2, 0x4235, 0x5214, 0x6277, 0x7256,
   0xB5EA, 0xA5CB, 0x95A8, 0x8589, 0xF56E, 0xE54F, 0xD52C, 0xC50D,
   0x34E2, 0x24C3, 0x14A0, 0x0481, 0x7466, 0x6447, 0x5424, 0x4405,
   0xA7DB, 0xB7FA, 0x8799, 0x97B8, 0xE75F, 0xF77E, 0xC71D, 0xD73C,
   0x26D3, 0x36F2, 0x0691, 0x16B0, 0x6657, 0x7676, 0x4615, 0x5634,
   0xD94C, 0xC96D, 0xF90E, 0xE92F, 0x99C8, 0x89E9, 0xB98A, 0xA9AB,
   0x5844, 0x4865, 0x7806, 0x6827, 0x18C0, 0x08E1, 0x3882, 0x28A3,
   0xCB7D, 0xDB5C, 0xEB3F, 0xFB1E, 0x8BF9, 0x9BD8, 0xABBB, 0xBB9A,
   0x4A75, 0x5A54, 0x6A37, 0x7A16, 0x0AF1, 0x1AD0, 0x2AB3, 0x3A92,
   0xFD2E, 0xED0F, 0xDD6C, 0xCD4D, 0xBDAA, 0xAD8B, 0x9DE8, 0x8DC9,
   0x7C26, 0x6C07, 0x5C64, 0x4C45, 0x3CA2, 0x2C83, 0x1CE0, 0x0CC1,
   0xEF1F, 0xFF3E, 0xCF5D, 0xDF7C, 0xAF9B, 0xBFBA, 0x8FD9, 0x9FF8,
   0x6E17, 0x7E36, 0x4E55, 0x5E74, 0x2E93, 0x3EB2, 0x0ED1, 0x1EF0
  ]"

fun CRC16_table_loop :: "u16 \<Rightarrow> bytes \<Rightarrow> u16" where
  "CRC16_table_loop crc [] = crc"
| "CRC16_table_loop crc (b # q) =
     CRC16_table_loop (push_bit 8 crc XOR ccitt_table ! unat ((drop_bit 8 crc XOR ucast b) AND 0xFF)) q"

definition CRC16_table :: "bytes \<Rightarrow> u16" where
  "CRC16_table q = CRC16_table_loop 0 q"

section \<open>State\<close>

record 'u rym =
  rx :: "(nat \<times> u8) list"
  tx :: bytes
  now :: u32
  rbuf :: bytes
  stage :: rym_stage
  user :: 'u

text \<open>A callback gets the buffer from its first data byte on and the length of the data.\<close>

type_synonym 'u rym_callback = "bytes \<Rightarrow> nat \<Rightarrow> 'u \<Rightarrow> (rym_code \<times> 'u) option"

record 'u rym_callbacks =
  on_begin :: "'u rym_callback option"
  on_data :: "'u rym_callback option"
  on_end :: "'u rym_callback option"

text \<open>\<^verbatim>\<open>None\<close> is a callback that is not set, with the code the caller goes on with.\<close>

definition rym_call :: "'u rym_callback option \<Rightarrow> rym_code \<Rightarrow> nat \<Rightarrow> 'u rym \<Rightarrow> (rym_code \<times> 'u rym) option" where
  "rym_call cb c len s =
     (case cb of None \<Rightarrow> Some (c, s)
      | Some f \<Rightarrow> map_option (\<lambda>(c', u). (c', s\<lparr>user := u\<rparr>)) (f (drop 3 (rbuf s)) len (user s)))"

section \<open>The line\<close>

fun advance :: "nat \<Rightarrow> (nat \<times> u8) list \<Rightarrow> (nat \<times> u8) list" where
  "advance n [] = []"
| "advance n ((d, b) # r) = (if n \<le> d then (d - n, b) # r else (0, b) # advance (n - d) r)"

definition rt_thread_mdelay_rx :: "nat \<Rightarrow> 'u rym \<Rightarrow> 'u rym" where
  "rt_thread_mdelay_rx n s = s\<lparr>now := now s + of_nat n, rx := advance n (rx s)\<rparr>"

definition rx_wait :: "nat \<Rightarrow> 'u rym \<Rightarrow> u8 option \<times> 'u rym" where
  "rx_wait timeout s =
     (case rx s of
        [] \<Rightarrow> (None, s\<lparr>now := now s + of_nat timeout\<rparr>)
      | (d, b) # r \<Rightarrow>
          if d < timeout then (Some b, s\<lparr>rx := r, now := now s + of_nat d\<rparr>)
          else (None, s\<lparr>rx := (d - timeout, b) # r, now := now s + of_nat timeout\<rparr>))"

definition rym_putchar :: "rym_code \<Rightarrow> 'u rym \<Rightarrow> 'u rym" where
  "rym_putchar c s = s\<lparr>tx := tx s @ [c]\<rparr>"

definition rym_read_code :: "nat \<Rightarrow> 'u rym \<Rightarrow> rym_code \<times> 'u rym" where
  "rym_read_code timeout s =
     (case rx_wait timeout s of
        (None, s1) \<Rightarrow> (RYM_CODE_NONE, s1)
      | (Some b, s1) \<Rightarrow> (b, s1\<lparr>rbuf := (rbuf s1)[0 := b]\<rparr>))"

text \<open>The bytes go to the buffer behind the code; the result is the number of bytes that came in time.\<close>

fun read_bytes :: "nat \<Rightarrow> nat \<Rightarrow> 'u rym \<Rightarrow> nat \<times> 'u rym" where
  "read_bytes 0 readlen s = (readlen, s)"
| "read_bytes (Suc n) readlen s =
     (case rx_wait RYM_WAIT_CHR_TICK s of
        (None, s1) \<Rightarrow> (readlen, s1)
      | (Some b, s1) \<Rightarrow> read_bytes n (readlen + 1) (s1\<lparr>rbuf := (rbuf s1)[1 + readlen := b]\<rparr>))"

definition rym_read_data :: "nat \<Rightarrow> 'u rym \<Rightarrow> nat \<times> 'u rym" where
  "rym_read_data len s = read_bytes len 0 s"

section \<open>Handshake\<close>

fun rym_wait_start :: "nat \<Rightarrow> 'u rym \<Rightarrow> nat option \<times> 'u rym" where
  "rym_wait_start 0 s = (None, s)"
| "rym_wait_start (Suc n) s =
     (case rym_read_code RYM_CHD_INTV_TICK (rym_putchar RYM_CODE_C s) of (code, s1) \<Rightarrow>
        if code = RYM_CODE_SOH then (Some RYM_SOH_PKG_SZ, s1)
        else if code = RYM_CODE_STX then (Some RYM_STX_PKG_SZ, s1)
        else rym_wait_start n s1)"

partial_function (option) rym_fill :: "u32 \<Rightarrow> nat \<Rightarrow> nat \<Rightarrow> 'u rym \<Rightarrow> (nat \<times> 'u rym) option" where
  "rym_fill tick len i s =
     (if now s \<le> tick + 100 \<and> i < len
      then (case rym_read_data len s of (k, s1) \<Rightarrow> rym_fill tick len (i + k) (rt_thread_mdelay_rx 5 s1))
      else Some (i, s))"

definition recv_crc :: "nat \<Rightarrow> bytes \<Rightarrow> u16" where
  "recv_crc k buf = push_bit 8 (ucast (buf ! k)) OR ucast (buf ! (k + 1))"

definition rym_do_handshake :: "'u rym_callbacks \<Rightarrow> nat \<Rightarrow> 'u rym \<Rightarrow> (int \<times> 'u rym) option" where
  "rym_do_handshake cb tm_sec s0 =
     (case rym_wait_start tm_sec (s0\<lparr>stage := RYM_STAGE_ESTABLISHING\<rparr>) of
        (None, s) \<Rightarrow> Some (- RYM_ERR_TMO, s)
      | (Some data_sz, s) \<Rightarrow>
          (case rym_fill (now s) (data_sz - 1) 0 s of None \<Rightarrow> None
           | Some (i, s1) \<Rightarrow>
               if i \<noteq> data_sz - 1 then Some (- RYM_ERR_DSZ, s1)
               else if rbuf s1 ! 1 \<noteq> 0 \<or> rbuf s1 ! 2 \<noteq> 0xFF then Some (- RYM_ERR_SEQ, s1)
               else if recv_crc (data_sz - 2) (rbuf s1) \<noteq> CRC16 (take (data_sz - 5) (drop 3 (rbuf s1)))
               then Some (- RYM_ERR_CRC, s1)
               else map_option (\<lambda>(code, s2). (if code \<noteq> RYM_CODE_ACK then - RYM_ERR_CAN else RT_EOK, s2))
                      (rym_call (on_begin cb) RYM_CODE_ACK (data_sz - 5) s1)))"

section \<open>Data\<close>

definition rym_trans_data :: "'u rym_callbacks \<Rightarrow> nat \<Rightarrow> 'u rym \<Rightarrow> (int \<times> rym_code \<times> 'u rym) option" where
  "rym_trans_data cb data_sz s =
     (let tsz = 2 + data_sz + 2
      in case rym_read_data tsz s of (i, s1) \<Rightarrow>
           if i \<noteq> tsz then Some (- RYM_ERR_DSZ, RYM_CODE_NONE, s1)
           else if unat (rbuf s1 ! 1) + unat (rbuf s1 ! 2) \<noteq> 0xFF then Some (- RYM_ERR_SEQ, RYM_CODE_NONE, s1)
           else if stage s1 = RYM_STAGE_ESTABLISHED \<and> rbuf s1 ! 1 = 0 then Some (RT_EOK, RYM_CODE_NONE, s1)
           else let s2 = s1\<lparr>stage := RYM_STAGE_TRANSMITTING\<rparr>
                in if recv_crc (tsz - 1) (rbuf s2) \<noteq> CRC16 (take data_sz (drop 3 (rbuf s2)))
                   then Some (- RYM_ERR_CRC, RYM_CODE_NONE, s2)
                   else map_option (Pair RT_EOK) (rym_call (on_data cb) RYM_CODE_ACK data_sz s2))"

lemma rx_wait_length: "rx_wait t s = (v, s1) \<Longrightarrow> length (rx s1) = length (rx s) - (if v = None then 0 else 1) \<and> (v \<noteq> None \<longrightarrow> rx s \<noteq> [])"
  by (auto simp: rx_wait_def split: list.splits if_splits)

lemma read_code_length: "rym_read_code t s = (c, s1) \<Longrightarrow> length (rx s1) \<le> length (rx s) \<and> (c \<noteq> RYM_CODE_NONE \<longrightarrow> length (rx s1) < length (rx s))"
  using rx_wait_length[of t s] by (cases "rx_wait t s") (auto simp: rym_read_code_def split: option.splits)

lemma read_bytes_length: "read_bytes n i s = (k, s1) \<Longrightarrow> length (rx s1) \<le> length (rx s)"
proof (induction n i s rule: read_bytes.induct)
  case (2 n i s)
  then show ?case using rx_wait_length[of RYM_WAIT_CHR_TICK s]
    by (cases "rx_wait RYM_WAIT_CHR_TICK s") (fastforce split: option.splits)
qed simp

lemma call_rx: "rym_call f c n s = Some (c', s1) \<Longrightarrow> rx s1 = rx s"
  by (auto simp: rym_call_def split: option.splits)

lemma putchar_rx [simp]: "rx (rym_putchar c s) = rx s"
  by (simp add: rym_putchar_def)

lemma trans_data_length: "rym_trans_data cb n s = Some (e, c, s1) \<Longrightarrow> length (rx s1) \<le> length (rx s)"
  using read_bytes_length[of "2 + n + 2" 0 s]
  by (auto simp: rym_trans_data_def rym_read_data_def Let_def split: prod.splits if_splits dest!: call_rx)

definition code_size :: "rym_code \<Rightarrow> nat" where
  "code_size code = (if code = RYM_CODE_SOH then 128 else 1024)"

function rym_trans_loop :: "'u rym_callbacks \<Rightarrow> 'u rym \<Rightarrow> (int \<times> 'u rym) option" where
  "rym_trans_loop cb s =
     (case rym_read_code RYM_WAIT_PKG_TICK s of (code, s1) \<Rightarrow>
        if code = RYM_CODE_SOH \<or> code = RYM_CODE_STX then
          (case rym_trans_data cb (code_size code) s1 of None \<Rightarrow> None
           | Some (err, code', s2) \<Rightarrow>
               if err \<noteq> RT_EOK then Some (err, s2)
               else if code' = RYM_CODE_CAN
               then Some (- RYM_ERR_CAN, (rym_putchar RYM_CODE_CAN ^^ RYM_END_SESSION_SEND_CAN_NUM) s2)
               else if code' = RYM_CODE_ACK then rym_trans_loop cb (rym_putchar RYM_CODE_ACK s2)
               else rym_trans_loop cb s2)
        else if code = RYM_CODE_EOT then Some (RT_EOK, s1)
        else Some (- RYM_ERR_CODE, s1))"
  by pat_completeness auto
termination
  by (relation "measure (\<lambda>(cb, s). length (rx s))")
    (auto simp: RYM_CODE_SOH_def RYM_CODE_STX_def RYM_CODE_NONE_def dest!: read_code_length[OF sym] trans_data_length)

declare rym_trans_loop.simps [simp del]

definition rym_do_trans :: "'u rym_callbacks \<Rightarrow> 'u rym \<Rightarrow> (int \<times> 'u rym) option" where
  "rym_do_trans cb s =
     rym_trans_loop cb ((rym_putchar RYM_CODE_C (rym_putchar RYM_CODE_ACK s))\<lparr>stage := RYM_STAGE_ESTABLISHED\<rparr>)"

section \<open>End\<close>

text \<open>The last packet is read with the small size, also when it begins with the code of a large one.\<close>

definition rym_fin_packet :: "'u rym_callbacks \<Rightarrow> nat \<Rightarrow> 'u rym \<Rightarrow> (int \<times> 'u rym) option" where
  "rym_fin_packet cb data_sz s =
     (case rym_read_data (RYM_SOH_PKG_SZ - 1) s of (i, s1) \<Rightarrow>
        if i \<noteq> RYM_SOH_PKG_SZ - 1 then Some (- RYM_ERR_DSZ, s1)
        else if rbuf s1 ! 1 \<noteq> 0 \<or> rbuf s1 ! 2 \<noteq> 0xFF then Some (- RYM_ERR_SEQ, s1)
        else if recv_crc (RYM_SOH_PKG_SZ - 2) (rbuf s1) \<noteq> CRC16 (take (RYM_SOH_PKG_SZ - 5) (drop 3 (rbuf s1)))
        then Some (- RYM_ERR_CRC, s1)
        else if rbuf s1 ! 3 \<noteq> 0
        then map_option (\<lambda>(code, s2). (if code \<noteq> RYM_CODE_ACK then - RYM_ERR_CAN else RT_EOK, s2))
               (rym_call (on_begin cb) RYM_CODE_ACK (data_sz - 5) s1)
        else Some (RT_EOK, rym_putchar RYM_CODE_ACK (s1\<lparr>stage := RYM_STAGE_FINISHED\<rparr>)))"

definition rym_do_fin :: "'u rym_callbacks \<Rightarrow> 'u rym \<Rightarrow> (int \<times> 'u rym) option" where
  "rym_do_fin cb s0 =
     (case rym_call (on_end cb) RYM_CODE_NONE 128 (s0\<lparr>stage := RYM_STAGE_FINISHING\<rparr>) of None \<Rightarrow> None
      | Some (_, s) \<Rightarrow>
          (case rym_read_code RYM_WAIT_PKG_TICK (rym_putchar RYM_CODE_NAK s) of (code, s1) \<Rightarrow>
             if code \<noteq> RYM_CODE_EOT then Some (- RYM_ERR_CODE, s1)
             else (case rym_read_code RYM_WAIT_PKG_TICK (rym_putchar RYM_CODE_C (rym_putchar RYM_CODE_ACK s1)) of (code, s2) \<Rightarrow>
                     if code = RYM_CODE_SOH then rym_fin_packet cb RYM_SOH_PKG_SZ s2
                     else if code = RYM_CODE_STX then rym_fin_packet cb RYM_STX_PKG_SZ s2
                     else Some (- RYM_ERR_CODE, s2))))"

section \<open>Session\<close>

lemma putchars_rx [simp]: "rx ((rym_putchar c ^^ n) s) = rx s"
  by (induction n) simp_all

lemma trans_loop_length: "rym_trans_loop cb s = Some (e, s1) \<Longrightarrow> length (rx s1) \<le> length (rx s) \<and> (e = RT_EOK \<longrightarrow> length (rx s1) < length (rx s))"
proof (induction cb s rule: rym_trans_loop.induct)
  case (1 cb s)
  obtain code s' where r: "rym_read_code RYM_WAIT_PKG_TICK s = (code, s')" by fastforce
  note R = read_code_length[OF r]
  note L = "1.prems"[unfolded rym_trans_loop.simps[of cb s] r prod.case]
  show ?case
  proof (cases "code = RYM_CODE_SOH \<or> code = RYM_CODE_STX")
    case c: True
    then obtain e' c' s2 where d: "rym_trans_data cb (code_size code) s' = Some (e', c', s2)" using L by (auto split: option.splits)
    note D = trans_data_length[OF d]
    note IH = "1.IH"[OF r[symmetric] c d refl refl]
    show ?thesis
    proof (cases "e' = RT_EOK \<and> c' \<noteq> RYM_CODE_CAN")
      case True
      then show ?thesis using L D R c d IH by (auto split: if_splits)
    next
      case False
      then show ?thesis using L D R c d by (auto simp: RT_EOK_def RYM_ERR_CAN_def split: if_splits)
    qed
  next
    case False
    then show ?thesis using L R by (auto simp: RT_EOK_def RYM_ERR_CODE_def RYM_CODE_NONE_def RYM_CODE_EOT_def split: if_splits)
  qed
qed

lemma fin_packet_length: "rym_fin_packet cb n s = Some (e, s1) \<Longrightarrow> length (rx s1) \<le> length (rx s)"
  using read_bytes_length[of "RYM_SOH_PKG_SZ - 1" 0 s]
  by (auto simp: rym_fin_packet_def rym_read_data_def split: prod.splits if_splits dest!: call_rx)

lemma fin_length: "rym_do_fin cb s = Some (e, s1) \<Longrightarrow> length (rx s1) \<le> length (rx s)"
  by (fastforce simp: rym_do_fin_def split: option.splits prod.splits if_splits dest!: call_rx read_code_length fin_packet_length)

function rym_recv_loop :: "'u rym_callbacks \<Rightarrow> 'u rym \<Rightarrow> (int \<times> 'u rym) option" where
  "rym_recv_loop cb s =
     (case rym_do_trans cb s of None \<Rightarrow> None
      | Some (err, s1) \<Rightarrow>
          if err \<noteq> RT_EOK then Some (err, s1)
          else (case rym_do_fin cb s1 of None \<Rightarrow> None
                | Some (err, s2) \<Rightarrow>
                    if err \<noteq> RT_EOK then Some (err, s2)
                    else if stage s2 = RYM_STAGE_FINISHED then Some (err, s2)
                    else rym_recv_loop cb s2))"
  by pat_completeness auto
termination
  by (relation "measure (\<lambda>(cb, s). length (rx s))")
    (auto simp: rym_do_trans_def dest!: trans_loop_length fin_length)

declare rym_recv_loop.simps [simp del]

definition rym_do_recv :: "'u rym_callbacks \<Rightarrow> bool \<Rightarrow> nat \<Rightarrow> 'u rym \<Rightarrow> (int \<times> 'u rym) option" where
  "rym_do_recv cb malloc_ok handshake_timeout s =
     (let s0 = s\<lparr>stage := RYM_STAGE_NONE\<rparr>
      in if \<not> malloc_ok then Some (- RT_ENOMEM, s0)
         else (case rym_do_handshake cb handshake_timeout s0 of None \<Rightarrow> None
               | Some (err, s1) \<Rightarrow> if err \<noteq> RT_EOK then Some (err, s1) else rym_recv_loop cb s1))"

definition rym_recv_on_device :: "'u rym_callbacks \<Rightarrow> int \<Rightarrow> bool \<Rightarrow> nat \<Rightarrow> 'u rym \<Rightarrow> (int \<times> 'u rym) option" where
  "rym_recv_on_device cb open_res malloc_ok handshake_timeout s =
     (if open_res \<noteq> RT_EOK then Some (open_res, s) else rym_do_recv cb malloc_ok handshake_timeout s)"

end
