(* ===== verification/Ymodem_Inv.thy ===== *)
theory Ymodem_Inv
  imports Ymodem
begin

text \<open>
  What the functions of the receiver do on a well-formed piece of the line: a packet that arrives without a pause is read
  as a whole, and its checksum is the one the sender computed.
\<close>

section \<open>Checksum\<close>

lemma crc16_top: "crc AND 0x8000 \<noteq> 0 \<longleftrightarrow> bit (crc :: u16) 15"
proof -
  have "crc AND 0x8000 = (if bit crc 15 then 0x8000 else 0)"
  proof (rule bit_word_eqI)
    fix n assume "n < LENGTH(16)"
    have "(0x8000 :: u16) = 2 ^ 15" by simp
    then have "bit (0x8000 :: u16) n \<longleftrightarrow> n = 15" by (simp only: bit_exp_iff) auto
    then show "bit (crc AND 0x8000) n \<longleftrightarrow> bit (if bit crc 15 then 0x8000 else (0 :: u16)) n"
      by (auto simp: bit_and_iff)
  qed
  then show ?thesis by simp
qed

lemma crc16_shift_xor: "crc16_shift (a XOR b) = crc16_shift a XOR crc16_shift b"
  by (auto simp: crc16_shift_def crc16_top bit_xor_iff push_bit_xor ac_simps intro!: bit_word_eqI simp: bit_simps)

lemma crc16_shifts_xor: "(crc16_shift ^^ n) (a XOR b) = (crc16_shift ^^ n) a XOR (crc16_shift ^^ n) b"
  by (induction n) (simp_all add: crc16_shift_xor)

lemma crc16_shifts_clear: "(\<And>k. 16 - n \<le> k \<Longrightarrow> k < 16 \<Longrightarrow> \<not> bit c k) \<Longrightarrow> n \<le> 16 \<Longrightarrow> (crc16_shift ^^ n) c = push_bit n c"
proof (induction n arbitrary: c)
  case (Suc n)
  have "crc16_shift c = push_bit 1 c" using Suc.prems(1)[of 15] Suc.prems(2) by (simp add: crc16_shift_def crc16_top)
  moreover have "(crc16_shift ^^ n) (push_bit 1 c) = push_bit n (push_bit 1 c)"
  proof (rule Suc.IH)
    fix k assume k: "16 - n \<le> k" "k < 16"
    then have "16 - Suc n \<le> k - 1" "k - 1 < 16" using Suc.prems(2) by auto
    then show "\<not> bit (push_bit 1 c) k" using Suc.prems(1)[of "k - 1"] unfolding bit_push_bit_iff by blast
  qed (use Suc.prems in simp)
  ultimately show ?case by (simp add: funpow_swap1 push_bit_push_bit)
qed simp

section \<open>Packets on the line\<close>

definition crc_bytes :: "bytes \<Rightarrow> bytes" where
  "crc_bytes p = [ucast (drop_bit 8 (CRC16 p)), ucast (CRC16 p)]"

definition packet :: "u8 \<Rightarrow> bytes \<Rightarrow> bytes" where
  "packet q p = [q, NOT q] @ p @ crc_bytes p"

definition code_of :: "bytes \<Rightarrow> rym_code" where
  "code_of p = (if length p = 128 then RYM_CODE_SOH else RYM_CODE_STX)"

definition block_ok :: "bytes \<Rightarrow> bool" where
  "block_ok p \<longleftrightarrow> length p = 128 \<or> length p = 1024"

definition frame :: "u8 \<Rightarrow> bytes \<Rightarrow> bytes" where
  "frame q p = code_of p # packet q p"

lemma length_packet [simp]: "length (packet q p) = 2 + length p + 2"
  by (simp add: packet_def crc_bytes_def)

lemma code_size_of [simp]: "block_ok p \<Longrightarrow> code_size (code_of p) = length p"
  by (auto simp: code_size_def code_of_def block_ok_def RYM_CODE_SOH_def RYM_CODE_STX_def)

lemma recv_crc_bytes: "push_bit 8 (ucast (ucast (drop_bit 8 c) :: u8)) OR ucast (ucast c :: u8) = (c :: u16)"
  by (rule bit_word_eqI) (auto simp: bit_simps)

lemma not_seq: "unat (q :: u8) + unat (NOT q) = 0xFF"
proof -
  have "NOT q = - 1 - q" by (simp add: not_eq_complement)
  moreover have "unat (- 1 - q) = unat (- 1 :: u8) - unat q" by (rule unat_sub) simp
  moreover have "unat q < 2 ^ LENGTH(8)" by (rule unsigned_less)
  moreover have "unat (- 1 :: u8) = 255" by code_simp
  ultimately show ?thesis by simp
qed

text \<open>No pause is as long as a timeout.\<close>

definition prompt :: "(nat \<times> u8) list \<Rightarrow> bool" where
  "prompt xs \<longleftrightarrow> (\<forall>(d, b)\<in>set xs. d < 3 * RT_TICK_PER_SECOND)"

lemma prompt_simps [simp]:
  "prompt []" "prompt (x # xs) \<longleftrightarrow> fst x < 3 * RT_TICK_PER_SECOND \<and> prompt xs" "prompt (xs @ ys) \<longleftrightarrow> prompt xs \<and> prompt ys"
  by (auto simp: prompt_def)

lemmas rym_ticks = RYM_WAIT_CHR_TICK_def RYM_WAIT_PKG_TICK_def RYM_CHD_INTV_TICK_def mult.commute[of RT_TICK_PER_SECOND]

lemma rx_wait_prompt: "rx s = (d, b) # r \<Longrightarrow> d < timeout \<Longrightarrow> rx_wait timeout s = (Some b, s\<lparr>rx := r, now := now s + of_nat d\<rparr>)"
  by (simp add: rx_wait_def)

lemma read_code_prompt:
  assumes "map snd (rx s) = c # bs" "prompt (rx s)" "t \<in> {RYM_WAIT_PKG_TICK, RYM_CHD_INTV_TICK}"
  shows "\<exists>r d. rym_read_code t s = (c, s\<lparr>rx := r, now := now s + of_nat d, rbuf := (rbuf s)[0 := c]\<rparr>) \<and> map snd r = bs \<and> prompt r \<and> d < 3000"
proof -
  obtain d r where r: "rx s = (d, c) # r" "map snd r = bs" using assms(1) by (cases "rx s") auto
  then have "d < t" "prompt r" "d < 3000" using assms(2,3) by (auto simp: rym_ticks RT_TICK_PER_SECOND_def)
  then show ?thesis using r by (auto simp: rym_read_code_def rx_wait_prompt)
qed

lemma buf_write_Nil [simp]: "buf_write dst i [] = dst"
  by (simp add: buf_write_def)

lemma buf_write_step: "i < length dst \<Longrightarrow> buf_write (dst[i := b]) (i + 1) bs = buf_write dst i (b # bs)"
  by (simp add: buf_write_def take_Suc_conv_app_nth)

lemma read_bytes_prompt:
  assumes "map snd (rx s) = bs @ cs" "prompt (rx s)" "1 + i + length bs \<le> length (rbuf s)"
  shows "\<exists>r n. read_bytes (length bs) i s = (i + length bs, s\<lparr>rx := r, now := n, rbuf := buf_write (rbuf s) (1 + i) bs\<rparr>) \<and> map snd r = cs \<and> prompt r"
  using assms
proof (induction bs arbitrary: i s)
  case (Cons b bs)
  obtain d r where r: "rx s = (d, b) # r" "map snd r = bs @ cs" using Cons.prems(1) by (cases "rx s") auto
  let ?s = "s\<lparr>rx := r, now := now s + of_nat d, rbuf := (rbuf s)[1 + i := b]\<rparr>"
  have w: "rx_wait RYM_WAIT_CHR_TICK s = (Some b, s\<lparr>rx := r, now := now s + of_nat d\<rparr>)"
    using r Cons.prems(2) by (intro rx_wait_prompt) (simp_all add: rym_ticks)
  have "\<exists>r' n. read_bytes (length bs) (i + 1) ?s = (i + 1 + length bs, ?s\<lparr>rx := r', now := n, rbuf := buf_write (rbuf ?s) (1 + (i + 1)) bs\<rparr>)
      \<and> map snd r' = cs \<and> prompt r'"
    by (rule Cons.IH) (use r Cons.prems in auto)
  then obtain r' n where IH: "read_bytes (length bs) (i + 1) ?s = (i + 1 + length bs, ?s\<lparr>rx := r', now := n, rbuf := buf_write (rbuf ?s) (1 + (i + 1)) bs\<rparr>)"
    "map snd r' = cs" "prompt r'" by blast
  have "buf_write (rbuf ?s) (1 + (i + 1)) bs = buf_write (rbuf s) (1 + i) (b # bs)"
    using buf_write_step[of "1 + i" "rbuf s"] Cons.prems(3) by simp
  then show ?case using w IH by (auto simp: Let_def intro!: exI[of _ r'] exI[of _ n])
next
  case Nil
  have "s = s\<lparr>rx := rx s, now := now s, rbuf := rbuf s\<rparr>" by simp
  then show ?case using Nil by (metis append_Nil buf_write_Nil list.size(3) read_bytes.simps(1) add.right_neutral)
qed

text \<open>A packet in the buffer: number, complement, data and checksum are where the code looks for them.\<close>

lemma packet_buf:
  assumes "3 + length p + 2 \<le> length b"
    and B_def: "B = buf_write b 1 (packet q p)"
  shows "B ! 1 = q" "B ! 2 = NOT q" "take (length p) (drop 3 B) = p" "recv_crc (3 + length p) B = CRC16 p" "length B = length b"
proof -
  have B: "B = take 1 b @ packet q p @ drop (1 + length (packet q p)) b" by (simp add: B_def buf_write_def)
  have l: "length (take 1 b) = 1" using assms(1) by simp
  show "length B = length b" unfolding B_def by (rule length_buf_write) (use assms(1) in simp)
  show "B ! 1 = q" "B ! 2 = NOT q" unfolding B using l by (simp_all add: nth_append packet_def)
  show "take (length p) (drop 3 B) = p" unfolding B using l by (simp add: packet_def numeral_3_eq_3)
  have "B ! (3 + length p) = ucast (drop_bit 8 (CRC16 p))" "B ! (3 + length p + 1) = ucast (CRC16 p)"
    unfolding B using l by (simp_all add: nth_append packet_def crc_bytes_def)
  then show "recv_crc (3 + length p) B = CRC16 p" by (simp add: recv_crc_def recv_crc_bytes)
qed

lemma trans_data_packet:
  assumes "map snd (rx s) = packet q p @ cs" "prompt (rx s)" "block_ok p" "length (rbuf s) = RYM_STX_PKG_SZ"
    and "stage s = RYM_STAGE_ESTABLISHED \<Longrightarrow> q \<noteq> 0"
  shows "\<exists>r n B. rym_trans_data cb (length p) s = map_option (Pair RT_EOK) (rym_call (on_data cb) RYM_CODE_ACK (length p)
      (s\<lparr>rx := r, now := n, rbuf := B, stage := RYM_STAGE_TRANSMITTING\<rparr>)) \<and>
    map snd r = cs \<and> prompt r \<and> take (length p) (drop 3 B) = p \<and> length B = RYM_STX_PKG_SZ"
proof -
  have fits: "3 + length p + 2 \<le> length (rbuf s)" using assms(3,4) by (auto simp: block_ok_def RYM_STX_PKG_SZ_def)
  from read_bytes_prompt[OF assms(1,2), of 0] fits obtain r n where r:
    "read_bytes (length (packet q p)) 0 s = (length (packet q p), s\<lparr>rx := r, now := n, rbuf := buf_write (rbuf s) 1 (packet q p)\<rparr>)"
    "map snd r = cs" "prompt r" by auto
  let ?B = "buf_write (rbuf s) 1 (packet q p)"
  note B = packet_buf[OF fits refl, of q]
  have sum: "unat q + unat (NOT q) = 0xFF" by (rule not_seq)
  have crc: "recv_crc (2 + length p + 2 - 1) ?B = CRC16 p" using B(4) by (simp add: add.commute add.left_commute numeral_eq_Suc)
  have st: "\<not> (stage s = RYM_STAGE_ESTABLISHED \<and> q = 0)" using assms(5) by blast
  have t: "rym_trans_data cb (length p) s = map_option (Pair RT_EOK) (rym_call (on_data cb) RYM_CODE_ACK (length p)
      (s\<lparr>rx := r, now := n, rbuf := ?B, stage := RYM_STAGE_TRANSMITTING\<rparr>))"
    using r(1) st B(1,2) sum crc by (auto simp: rym_trans_data_def rym_read_data_def Let_def B(3)[unfolded One_nat_def] simp del: read_bytes.simps)
  show ?thesis by (intro exI[of _ r] exI[of _ n] exI[of _ ?B] conjI t r(2,3) B(3)) (simp add: B(5)[unfolded One_nat_def] assms(4))
qed

section \<open>A session\<close>

text \<open>The callback takes a block whatever lies behind it in the buffer.\<close>

definition accepts :: "'u rym_callback \<Rightarrow> bytes \<Rightarrow> 'u \<Rightarrow> 'u \<Rightarrow> bool" where
  "accepts f p u u' \<longleftrightarrow> (\<forall>buf. length buf = RYM_STX_PKG_SZ - 3 \<longrightarrow> take (length p) buf = p \<longrightarrow> f buf (length p) u = Some (RYM_CODE_ACK, u'))"

fun accepts_all :: "'u rym_callback \<Rightarrow> bytes list \<Rightarrow> 'u \<Rightarrow> 'u \<Rightarrow> bool" where
  "accepts_all f [] u u' \<longleftrightarrow> u' = u"
| "accepts_all f (p # ps) u u' \<longleftrightarrow> (\<exists>u1. accepts f p u u1 \<and> accepts_all f ps u1 u')"

text \<open>What the sender sends: the packet with the file name, the data, the end of the file twice and an empty packet.\<close>

definition data_frames :: "(u8 \<times> bytes) list \<Rightarrow> bytes" where
  "data_frames fs = concat (map (\<lambda>(q, p). frame q p) fs)"

definition session :: "bytes \<Rightarrow> (u8 \<times> bytes) list \<Rightarrow> bytes" where
  "session hdr fs = frame 0 hdr @ data_frames fs @ [RYM_CODE_EOT, RYM_CODE_EOT] @ frame 0 (replicate 128 0)"

lemma call_accepts:
  assumes "accepts f p (user s) u" "take (length p) (drop 3 (rbuf s)) = p" "length (rbuf s) = RYM_STX_PKG_SZ"
  shows "rym_call (Some f) c (length p) s = Some (RYM_CODE_ACK, s\<lparr>user := u\<rparr>)"
  using assms by (simp add: rym_call_def accepts_def)

lemma code_of_cases: "block_ok p \<Longrightarrow> code_of p = RYM_CODE_SOH \<or> code_of p = RYM_CODE_STX"
  by (simp add: code_of_def)

lemma code_distinct:
  "RYM_CODE_ACK \<noteq> RYM_CODE_CAN" "RYM_CODE_EOT \<noteq> RYM_CODE_SOH" "RYM_CODE_EOT \<noteq> RYM_CODE_STX" "RYM_CODE_STX \<noteq> RYM_CODE_SOH"
  by (simp_all add: RYM_CODE_ACK_def RYM_CODE_CAN_def RYM_CODE_EOT_def RYM_CODE_SOH_def RYM_CODE_STX_def)

lemma trans_loop_frames:
  assumes "map snd (rx s) = data_frames fs @ RYM_CODE_EOT # cs" "prompt (rx s)" "\<forall>(q, p)\<in>set fs. block_ok p"
    and "length (rbuf s) = RYM_STX_PKG_SZ" "stage s = RYM_STAGE_ESTABLISHED \<Longrightarrow> fs \<noteq> [] \<Longrightarrow> fst (hd fs) \<noteq> 0"
    and "on_data cb = Some f" "accepts_all f (map snd fs) (user s) u"
  shows "\<exists>r n B st. rym_trans_loop cb s =
      Some (RT_EOK, s\<lparr>rx := r, tx := tx s @ replicate (length fs) RYM_CODE_ACK, now := n, rbuf := B, stage := st, user := u\<rparr>) \<and>
    map snd r = cs \<and> prompt r \<and> length B = RYM_STX_PKG_SZ"
  using assms(1-5,7)
proof (induction fs arbitrary: s)
  case Nil
  from read_code_prompt[of s RYM_CODE_EOT cs RYM_WAIT_PKG_TICK] Nil.prems(1,2) obtain r d where r:
    "rym_read_code RYM_WAIT_PKG_TICK s = (RYM_CODE_EOT, s\<lparr>rx := r, now := now s + of_nat d, rbuf := (rbuf s)[0 := RYM_CODE_EOT]\<rparr>)"
    "map snd r = cs" "prompt r" by (auto simp: data_frames_def)
  have "rym_trans_loop cb s = Some (RT_EOK, s\<lparr>rx := r, now := now s + of_nat d, rbuf := (rbuf s)[0 := RYM_CODE_EOT]\<rparr>)"
    by (simp add: rym_trans_loop.simps[of cb s] r(1) code_distinct)
  then show ?case using r(2,3) Nil.prems(4,6)
    by (intro exI[of _ r] exI[of _ "now s + of_nat d"] exI[of _ "(rbuf s)[0 := RYM_CODE_EOT]"] exI[of _ "stage s"]) simp
next
  case (Cons x fs)
  obtain q p where x: "x = (q, p)" by (cases x)
  obtain u1 where u1: "accepts f p (user s) u1" "accepts_all f (map snd fs) u1 u" using Cons.prems(6) x by auto
  have ok: "block_ok p" using Cons.prems(3) x by simp
  have "map snd (rx s) = code_of p # packet q p @ data_frames fs @ RYM_CODE_EOT # cs"
    using Cons.prems(1) by (simp add: x data_frames_def frame_def)
  from read_code_prompt[OF this Cons.prems(2), of RYM_WAIT_PKG_TICK] obtain r d where r:
    "rym_read_code RYM_WAIT_PKG_TICK s = (code_of p, s\<lparr>rx := r, now := now s + of_nat d, rbuf := (rbuf s)[0 := code_of p]\<rparr>)"
    "map snd r = packet q p @ data_frames fs @ RYM_CODE_EOT # cs" "prompt r" by auto
  let ?s1 = "s\<lparr>rx := r, now := now s + of_nat d, rbuf := (rbuf s)[0 := code_of p]\<rparr>"
  from trans_data_packet[of ?s1 q p "data_frames fs @ RYM_CODE_EOT # cs" cb] r(2,3) ok Cons.prems(4,5) x obtain r' n B where D:
    "rym_trans_data cb (length p) ?s1 = map_option (Pair RT_EOK) (rym_call (on_data cb) RYM_CODE_ACK (length p)
      (?s1\<lparr>rx := r', now := n, rbuf := B, stage := RYM_STAGE_TRANSMITTING\<rparr>))"
    "map snd r' = data_frames fs @ RYM_CODE_EOT # cs" "prompt r'" "take (length p) (drop 3 B) = p" "length B = RYM_STX_PKG_SZ" by auto
  let ?s2 = "s\<lparr>rx := r', tx := tx s @ [RYM_CODE_ACK], now := n, rbuf := B, stage := RYM_STAGE_TRANSMITTING, user := u1\<rparr>"
  have "rym_call (on_data cb) RYM_CODE_ACK (length p) (?s1\<lparr>rx := r', now := n, rbuf := B, stage := RYM_STAGE_TRANSMITTING\<rparr>) =
      Some (RYM_CODE_ACK, s\<lparr>rx := r', now := n, rbuf := B, stage := RYM_STAGE_TRANSMITTING, user := u1\<rparr>)"
    unfolding assms(6) by (subst call_accepts[where u = u1]) (use u1(1) D(4,5) in simp_all)
  moreover have "rym_putchar RYM_CODE_ACK (s\<lparr>rx := r', now := n, rbuf := B, stage := RYM_STAGE_TRANSMITTING, user := u1\<rparr>) = ?s2"
    by (simp add: rym_putchar_def)
  ultimately have "rym_trans_loop cb s = rym_trans_loop cb ?s2"
    using D(1) code_of_cases[OF ok] ok by (subst rym_trans_loop.simps) (auto simp: r(1) code_distinct simp del: One_nat_def)
  moreover from Cons.IH[of ?s2] D(2,3,5) Cons.prems(3) u1(2) obtain r2 n2 B2 st where
    "rym_trans_loop cb ?s2 = Some (RT_EOK, ?s2\<lparr>rx := r2, tx := tx ?s2 @ replicate (length fs) RYM_CODE_ACK, now := n2, rbuf := B2, stage := st, user := u\<rparr>)"
    "map snd r2 = cs" "prompt r2" "length B2 = RYM_STX_PKG_SZ" by auto
  ultimately show ?case
    by (intro exI[of _ r2] exI[of _ n2] exI[of _ B2] exI[of _ st]) (simp add: replicate_append_same[symmetric])
qed

lemma fin_packet_empty:
  assumes "map snd (rx s) = packet 0 (replicate 128 0) @ cs" "prompt (rx s)" "length (rbuf s) = RYM_STX_PKG_SZ"
  shows "\<exists>r n B. rym_fin_packet cb sz s =
      Some (RT_EOK, s\<lparr>rx := r, tx := tx s @ [RYM_CODE_ACK], now := n, rbuf := B, stage := RYM_STAGE_FINISHED\<rparr>) \<and> map snd r = cs \<and> prompt r"
proof -
  let ?p = "replicate 128 (0 :: u8)"
  have fits: "3 + length ?p + 2 \<le> length (rbuf s)" using assms(3) by (simp add: RYM_STX_PKG_SZ_def)
  from read_bytes_prompt[OF assms(1,2), of 0] fits obtain r n where r:
    "read_bytes (length (packet 0 ?p)) 0 s = (length (packet 0 ?p), s\<lparr>rx := r, now := n, rbuf := buf_write (rbuf s) 1 (packet 0 ?p)\<rparr>)"
    "map snd r = cs" "prompt r" by auto
  let ?B = "buf_write (rbuf s) 1 (packet 0 ?p)"
  note B = packet_buf[OF fits refl, of 0]
  have z: "?B ! 3 = 0" using arg_cong[OF B(3), of hd] fits B(5) by (simp add: hd_drop_conv_nth)
  have d: "rym_read_data 132 s = (132, s\<lparr>rx := r, now := n, rbuf := ?B\<rparr>)" using r(1) by (simp add: rym_read_data_def del: read_bytes.simps)
  have crc: "recv_crc 131 ?B = CRC16 ?p" "take 128 (drop 3 ?B) = ?p" using B(3,4) by simp_all
  have f: "(NOT 0 :: u8) = 0xFF" by simp
  have "rym_fin_packet cb sz s = Some (RT_EOK, s\<lparr>rx := r, tx := tx s @ [RYM_CODE_ACK], now := n, rbuf := ?B, stage := RYM_STAGE_FINISHED\<rparr>)"
    using d B(1,2) f z crc by (simp add: rym_fin_packet_def RYM_SOH_PKG_SZ_def rym_putchar_def)
  then show ?thesis using r(2,3) by blast
qed


lemma call_none [simp]: "rym_call None c n s = Some (c, s)"
  by (simp add: rym_call_def)

lemma do_fin_session:
  assumes "map snd (rx s) = RYM_CODE_EOT # frame 0 (replicate 128 0) @ cs" "prompt (rx s)" "length (rbuf s) = RYM_STX_PKG_SZ" "on_end cb = None"
  shows "\<exists>r n B. rym_do_fin cb s = Some (RT_EOK, s\<lparr>rx := r,
      tx := tx s @ [RYM_CODE_NAK, RYM_CODE_ACK, RYM_CODE_C, RYM_CODE_ACK], now := n, rbuf := B, stage := RYM_STAGE_FINISHED\<rparr>) \<and>
    map snd r = cs \<and> prompt r"
proof -
  let ?p = "replicate 128 (0 :: u8)"
  let ?s0 = "s\<lparr>stage := RYM_STAGE_FINISHING, tx := tx s @ [RYM_CODE_NAK]\<rparr>"
  from read_code_prompt[of ?s0 RYM_CODE_EOT "frame 0 ?p @ cs" RYM_WAIT_PKG_TICK] assms(1,2) obtain r d where r:
    "rym_read_code RYM_WAIT_PKG_TICK ?s0 = (RYM_CODE_EOT, ?s0\<lparr>rx := r, now := now ?s0 + of_nat d, rbuf := (rbuf ?s0)[0 := RYM_CODE_EOT]\<rparr>)"
    "map snd r = frame 0 ?p @ cs" "prompt r" by auto
  let ?s1 = "s\<lparr>rx := r, tx := tx s @ [RYM_CODE_NAK, RYM_CODE_ACK, RYM_CODE_C], now := now s + of_nat d,
      rbuf := (rbuf s)[0 := RYM_CODE_EOT], stage := RYM_STAGE_FINISHING\<rparr>"
  have "map snd (rx ?s1) = RYM_CODE_SOH # packet 0 ?p @ cs" using r(2) by (simp add: frame_def code_of_def)
  from read_code_prompt[OF this, of RYM_WAIT_PKG_TICK] r(3) obtain r1 d1 where r1:
    "rym_read_code RYM_WAIT_PKG_TICK ?s1 = (RYM_CODE_SOH, ?s1\<lparr>rx := r1, now := now ?s1 + of_nat d1, rbuf := (rbuf ?s1)[0 := RYM_CODE_SOH]\<rparr>)"
    "map snd r1 = packet 0 ?p @ cs" "prompt r1" by auto
  let ?s2 = "?s1\<lparr>rx := r1, now := now ?s1 + of_nat d1, rbuf := (rbuf ?s1)[0 := RYM_CODE_SOH]\<rparr>"
  from fin_packet_empty[of ?s2 cs cb RYM_SOH_PKG_SZ] r1(2,3) assms(3) obtain r2 n B where r2:
    "rym_fin_packet cb RYM_SOH_PKG_SZ ?s2 = Some (RT_EOK, ?s2\<lparr>rx := r2, tx := tx ?s2 @ [RYM_CODE_ACK], now := n, rbuf := B, stage := RYM_STAGE_FINISHED\<rparr>)"
    "map snd r2 = cs" "prompt r2" by auto
  have eot: "rym_putchar RYM_CODE_NAK (s\<lparr>stage := RYM_STAGE_FINISHING\<rparr>) = ?s0"
    "rym_putchar RYM_CODE_C (rym_putchar RYM_CODE_ACK (?s0\<lparr>rx := r, now := now ?s0 + of_nat d, rbuf := (rbuf ?s0)[0 := RYM_CODE_EOT]\<rparr>)) = ?s1"
    by (simp_all add: rym_putchar_def)
  have "rym_do_fin cb s = rym_fin_packet cb RYM_SOH_PKG_SZ ?s2"
    unfolding rym_do_fin_def assms(4) call_none option.case prod.case eot(1) r(1) eot(2) r1(1) by simp
  then show ?thesis using r2 by (intro exI[of _ r2] exI[of _ n] exI[of _ B]) simp
qed

lemma advance_snd [simp]: "map snd (advance n xs) = map snd xs"
  by (induction n xs rule: advance.induct) auto

lemma advance_prompt: "prompt xs \<Longrightarrow> prompt (advance n xs)"
  by (induction n xs rule: advance.induct) (auto simp: RT_TICK_PER_SECOND_def)

lemma do_handshake_frame:
  assumes "map snd (rx s) = frame 0 hdr @ cs" "prompt (rx s)" "block_ok hdr" "length (rbuf s) = RYM_STX_PKG_SZ" "0 < tm"
    and "unat (now s) + 3100 < 2 ^ 32" "on_begin cb = Some f" "accepts f hdr (user s) u"
  shows "\<exists>r n B. rym_do_handshake cb tm s = Some (RT_EOK,
      s\<lparr>rx := r, tx := tx s @ [RYM_CODE_C], now := n, rbuf := B, stage := RYM_STAGE_ESTABLISHING, user := u\<rparr>) \<and>
    map snd r = cs \<and> prompt r \<and> length B = RYM_STX_PKG_SZ"
proof -
  let ?s0 = "s\<lparr>stage := RYM_STAGE_ESTABLISHING, tx := tx s @ [RYM_CODE_C]\<rparr>"
  have "map snd (rx ?s0) = code_of hdr # packet 0 hdr @ cs" using assms(1) by (simp add: frame_def)
  from read_code_prompt[OF this, of RYM_CHD_INTV_TICK] assms(2) obtain r d where r:
    "rym_read_code RYM_CHD_INTV_TICK ?s0 = (code_of hdr, ?s0\<lparr>rx := r, now := now ?s0 + of_nat d, rbuf := (rbuf ?s0)[0 := code_of hdr]\<rparr>)"
    "map snd r = packet 0 hdr @ cs" "prompt r" "d < 3000" by auto
  let ?s1 = "?s0\<lparr>rx := r, now := now ?s0 + of_nat d, rbuf := (rbuf ?s0)[0 := code_of hdr]\<rparr>"
  obtain k where k: "tm = Suc k" using assms(5) by (cases tm) auto
  have p0: "rym_putchar RYM_CODE_C (s\<lparr>stage := RYM_STAGE_ESTABLISHING\<rparr>) = ?s0" by (simp add: rym_putchar_def)
  have sz: "RYM_SOH_PKG_SZ = 128 + 5" "RYM_STX_PKG_SZ = 1024 + 5" by (simp_all add: RYM_SOH_PKG_SZ_def RYM_STX_PKG_SZ_def)
  have start: "rym_wait_start tm (s\<lparr>stage := RYM_STAGE_ESTABLISHING\<rparr>) = (Some (length hdr + 5), ?s1)"
    using assms(3) code_distinct unfolding k rym_wait_start.simps p0 r(1) by (auto simp: code_of_def block_ok_def sz)
  let ?n = "length (packet 0 hdr)"
  have fits: "3 + length hdr + 2 \<le> length (rbuf s)" using assms(3,4) by (auto simp: block_ok_def sz)
  from read_bytes_prompt[of ?s1 "packet 0 hdr" cs 0] r(2,3) fits obtain r1 n where r1:
    "read_bytes ?n 0 ?s1 = (?n, ?s1\<lparr>rx := r1, now := n, rbuf := buf_write (rbuf ?s1) 1 (packet 0 hdr)\<rparr>)"
    "map snd r1 = cs" "prompt r1" by auto
  let ?B = "buf_write (rbuf ?s1) 1 (packet 0 hdr)"
  let ?s2 = "?s1\<lparr>rbuf := ?B, now := n + 5, rx := advance 5 r1\<rparr>"
  have tick: "now ?s1 \<le> now ?s1 + 100"
  proof (rule word_le_nat_alt[THEN iffD2])
    have "unat (now ?s1) = unat (now s) + d" using assms(6) r(4) by (simp add: unat_word_ariths unat_of_nat)
    then show "unat (now ?s1) \<le> unat (now ?s1 + 100)" using assms(6) r(4) by (simp add: unat_word_ariths)
  qed
  have "rym_fill (now ?s1) ?n 0 ?s1 = rym_fill (now ?s1) ?n ?n ?s2"
    by (rule trans[OF rym_fill.simps])
      (simp only: tick rym_read_data_def r1(1) prod.case rt_thread_mdelay_rx_def if_True, simp)
  also have "\<dots> = Some (?n, ?s2)" by (subst rym_fill.simps) simp
  finally have fill: "rym_fill (now ?s1) ?n 0 ?s1 = Some (?n, ?s2)" .
  have fits1: "3 + length hdr + 2 \<le> length (rbuf ?s1)" using fits by simp
  note B = packet_buf[OF fits1 refl, of 0, unfolded One_nat_def]
  have l: "length hdr + 5 - 1 = ?n" by simp
  have crc: "recv_crc (length hdr + 5 - 2) ?B = CRC16 hdr" "take (length hdr + 5 - 5) (drop 3 ?B) = hdr"
    using B(3,4) by (simp_all add: add.commute)
  have call: "rym_call (Some f) RYM_CODE_ACK (length hdr) ?s2 = Some (RYM_CODE_ACK, ?s2\<lparr>user := u\<rparr>)"
    by (rule call_accepts) (use assms(4,8) B(3,5) in simp_all)
  have "rym_do_handshake cb tm s = Some (RT_EOK, ?s2\<lparr>user := u\<rparr>)"
    unfolding rym_do_handshake_def start prod.case option.case l fill
    using B(1,2) crc call by (simp add: assms(7))
  then show ?thesis using r1(2,3) B(5) assms(4)
    by (intro exI[of _ "advance 5 r1"] exI[of _ "n + 5"] exI[of _ ?B]) (simp add: advance_prompt)
qed

end
