(* ===== verification/Ymodem_Props.thy ===== *)
theory Ymodem_Props
  imports Ymodem_Inv
begin

text \<open>
  Properties of the receiver: the two checksum routines agree, a whole transmission is received, nothing unchecked is
  delivered, and the receiver returns.
\<close>

section \<open>Checksum\<close>

text \<open>Entry \<open>2 k\<close> of the table is one shift of entry \<open>k\<close>, and the entry behind it differs by the polynomial.\<close>

definition crc16_next :: "u16 \<Rightarrow> u16" where
  "crc16_next c = (if bit c 15 then push_bit 1 c XOR 0x1021 else push_bit 1 c)"

lemma crc16_shift_next: "crc16_shift c = crc16_next c"
  by (simp add: crc16_shift_def crc16_next_def crc16_top)

lemma ccitt_table_pairs: "ccitt_table = concat (map (\<lambda>c. let d = crc16_next c in [d, d XOR 0x1021]) (take 128 ccitt_table))"
  by code_simp

lemma nth_concat_pairs:
  "k < length xs \<Longrightarrow> concat (map (\<lambda>x. [f x, g x]) xs) ! (2 * k) = f (xs ! k) \<and> concat (map (\<lambda>x. [f x, g x]) xs) ! Suc (2 * k) = g (xs ! k)"
  by (induction xs arbitrary: k) (auto simp: nth_Cons split: nat.splits)

lemma length_ccitt_table: "length ccitt_table = 256"
  by (simp add: ccitt_table_def)

lemma ccitt_table_double:
  assumes "k < 128"
  shows "ccitt_table ! (2 * k) = crc16_shift (ccitt_table ! k)" "ccitt_table ! Suc (2 * k) = crc16_shift (ccitt_table ! k) XOR 0x1021"
  using nth_concat_pairs[of k "take 128 ccitt_table" crc16_shift "\<lambda>c. crc16_shift c XOR 0x1021"] assms
  by (subst ccitt_table_pairs, simp add: Let_def crc16_shift_next length_ccitt_table)+

lemma crc16_shifts_double:
  assumes "j < 128"
  shows "(crc16_shift ^^ 8) (push_bit 8 (of_nat (2 * j))) = crc16_shift ((crc16_shift ^^ 8) (push_bit 8 (of_nat j)))"
proof -
  have "push_bit 8 (of_nat (2 * j)) = push_bit 1 (push_bit 8 (of_nat j :: u16))" by (simp add: push_bit_eq_mult)
  moreover have "crc16_shift (push_bit 8 (of_nat j)) = push_bit 1 (push_bit 8 (of_nat j))"
  proof -
    have "\<not> bit (push_bit 8 (of_nat j) :: u16) 15" using assms by (simp add: bit_simps) (simp add: bit_iff_odd)
    then show ?thesis by (simp add: crc16_shift_def crc16_top)
  qed
  ultimately show ?thesis by (simp only: funpow_swap1)
qed

lemma crc16_shifts_odd: "(crc16_shift ^^ 8) (push_bit 8 (of_nat (2 * j + 1))) = (crc16_shift ^^ 8) (push_bit 8 (of_nat (2 * j))) XOR 0x1021"
proof -
  have "of_nat (2 * j + 1) = of_nat (2 * j) XOR (1 :: u16)"
    by (simp add: xor_one_eq)
  then have "push_bit 8 (of_nat (2 * j + 1)) = push_bit 8 (of_nat (2 * j)) XOR (0x100 :: u16)" by (simp add: push_bit_xor)
  moreover have "(crc16_shift ^^ 8) 0x100 = 0x1021" by code_simp
  ultimately show ?thesis by (simp only: crc16_shifts_xor)
qed

lemma ccitt_table_nth: "k < 256 \<Longrightarrow> ccitt_table ! k = (crc16_shift ^^ 8) (push_bit 8 (of_nat k))"
proof (induction k rule: less_induct)
  case (less k)
  show ?case
  proof (cases "k = 0")
    case True
    have "(crc16_shift ^^ 8) 0 = 0" using crc16_shifts_clear[of 8 0] by simp
    then show ?thesis by (simp add: True ccitt_table_def)
  next
    case False
    then have j: "k div 2 < k" "k div 2 < 128" using less.prems by auto
    note IH = less.IH[OF j(1)]
    have d: "ccitt_table ! (2 * (k div 2)) = (crc16_shift ^^ 8) (push_bit 8 (of_nat (2 * (k div 2))))"
      using ccitt_table_double(1)[OF j(2)] IH j(2) by (simp only: crc16_shifts_double)
    have o: "ccitt_table ! Suc (2 * (k div 2)) = (crc16_shift ^^ 8) (push_bit 8 (of_nat (2 * (k div 2) + 1)))"
      using ccitt_table_double[OF j(2)] d by (simp only: crc16_shifts_odd)
    show ?thesis
    proof (cases "even k")
      case True
      then show ?thesis using d by simp
    next
      case False
      then have "k = Suc (2 * (k div 2))" by simp
      then show ?thesis using o by simp
    qed
  qed
qed

lemma crc16_byte:
  "(crc16_shift ^^ 8) (crc XOR push_bit 8 (ucast (b :: u8))) =
   push_bit 8 crc XOR ccitt_table ! unat ((drop_bit 8 crc XOR ucast b) AND 0xFF)" (is "_ = _ XOR ccitt_table ! unat ?k")
proof -
  have k: "?k = take_bit 8 (drop_bit 8 crc XOR ucast b)" by (simp add: take_bit_eq_mask mask_eq_exp_minus_1)
  have lt: "unat ?k < 256" unfolding k unsigned_take_bit_eq by (simp add: take_bit_nat_def)
  have "crc XOR push_bit 8 (ucast b) = push_bit 8 ?k XOR take_bit 8 crc"
    unfolding k by (rule bit_word_eqI) (auto simp: bit_simps)
  then have "(crc16_shift ^^ 8) (crc XOR push_bit 8 (ucast b)) = (crc16_shift ^^ 8) (push_bit 8 ?k) XOR (crc16_shift ^^ 8) (take_bit 8 crc)"
    by (simp only: crc16_shifts_xor)
  moreover have "(crc16_shift ^^ 8) (take_bit 8 crc) = push_bit 8 crc"
  proof -
    have "(crc16_shift ^^ 8) (take_bit 8 crc) = push_bit 8 (take_bit 8 crc)" by (rule crc16_shifts_clear) (auto simp: bit_simps)
    also have "\<dots> = push_bit 8 crc" by (rule bit_word_eqI) (auto simp: bit_simps)
    finally show ?thesis .
  qed
  ultimately show ?thesis using ccitt_table_nth[OF lt] by (simp add: ac_simps)
qed

lemma CRC16_loop_table: "CRC16_table_loop crc q = CRC16_loop crc q"
  by (induction q arbitrary: crc) (simp_all only: CRC16_table_loop.simps CRC16_loop.simps crc16_byte)

text \<open>The table-driven checksum is the bitwise one, on every input.\<close>

theorem CRC16_table_eq: "CRC16_table q = CRC16 q"
  by (simp add: CRC16_table_def CRC16_def CRC16_loop_table)

section \<open>A transmission\<close>

definition send_ok :: "bytes \<Rightarrow> (u8 \<times> bytes) list \<Rightarrow> bool" where
  "send_ok hdr fs \<longleftrightarrow> block_ok hdr \<and> (\<forall>(q, p)\<in>set fs. block_ok p) \<and> (fs \<noteq> [] \<longrightarrow> fst (hd fs) \<noteq> 0)"

definition answers :: "nat \<Rightarrow> bytes" where
  "answers n = [RYM_CODE_C, RYM_CODE_ACK, RYM_CODE_C] @ replicate n RYM_CODE_ACK @
     [RYM_CODE_NAK, RYM_CODE_ACK, RYM_CODE_C, RYM_CODE_ACK]"

lemma do_trans_frames:
  assumes "map snd (rx s) = data_frames fs @ RYM_CODE_EOT # cs" "prompt (rx s)" "\<forall>(q, p)\<in>set fs. block_ok p"
    and "length (rbuf s) = RYM_STX_PKG_SZ" "fs \<noteq> [] \<longrightarrow> fst (hd fs) \<noteq> 0"
    and "on_data cb = Some f" "accepts_all f (map snd fs) (user s) u"
  shows "\<exists>r n B st. rym_do_trans cb s = Some (RT_EOK,
      s\<lparr>rx := r, tx := tx s @ [RYM_CODE_ACK, RYM_CODE_C] @ replicate (length fs) RYM_CODE_ACK, now := n, rbuf := B, stage := st, user := u\<rparr>) \<and>
    map snd r = cs \<and> prompt r \<and> length B = RYM_STX_PKG_SZ"
proof -
  let ?s = "s\<lparr>tx := tx s @ [RYM_CODE_ACK, RYM_CODE_C], stage := RYM_STAGE_ESTABLISHED\<rparr>"
  have "(rym_putchar RYM_CODE_C (rym_putchar RYM_CODE_ACK s))\<lparr>stage := RYM_STAGE_ESTABLISHED\<rparr> = ?s" by (simp add: rym_putchar_def)
  moreover from trans_loop_frames[of ?s fs cs cb f u] assms obtain r n B st where
    "rym_trans_loop cb ?s = Some (RT_EOK, ?s\<lparr>rx := r, tx := tx ?s @ replicate (length fs) RYM_CODE_ACK, now := n, rbuf := B, stage := st, user := u\<rparr>)"
    "map snd r = cs" "prompt r" "length B = RYM_STX_PKG_SZ" by auto
  ultimately show ?thesis unfolding rym_do_trans_def
    by (intro exI[of _ r] exI[of _ n] exI[of _ B] exI[of _ st]) simp
qed

lemma recv_session:
  assumes line: "map snd (rx s) = session hdr fs @ rest" "prompt (rx s)" and ok: "send_ok hdr fs" "length (rbuf s) = RYM_STX_PKG_SZ" "0 < tm"
    and t: "unat (now s) + 3100 < 2 ^ 32" and cb: "on_begin cb = Some f" "on_data cb = Some g" "on_end cb = None"
    and acc: "accepts f hdr (user s) u" "accepts_all g (map snd fs) u v"
  shows "\<exists>s'. rym_recv_on_device cb RT_EOK True tm s = Some (RT_EOK, s') \<and> user s' = v \<and> tx s' = tx s @ answers (length fs) \<and>
    map snd (rx s') = rest \<and> stage s' = RYM_STAGE_FINISHED"
proof -
  let ?z = "frame 0 (replicate 128 0) @ rest"
  from do_handshake_frame[of "s\<lparr>stage := RYM_STAGE_NONE\<rparr>" hdr "data_frames fs @ RYM_CODE_EOT # RYM_CODE_EOT # ?z" tm cb f u]
  obtain r n B where h: "rym_do_handshake cb tm (s\<lparr>stage := RYM_STAGE_NONE\<rparr>) = Some (RT_EOK,
      s\<lparr>rx := r, tx := tx s @ [RYM_CODE_C], now := n, rbuf := B, stage := RYM_STAGE_ESTABLISHING, user := u\<rparr>)"
    "map snd r = data_frames fs @ RYM_CODE_EOT # RYM_CODE_EOT # ?z" "prompt r" "length B = RYM_STX_PKG_SZ"
    using line ok t cb acc by (auto simp: session_def send_ok_def)
  let ?s1 = "s\<lparr>rx := r, tx := tx s @ [RYM_CODE_C], now := n, rbuf := B, stage := RYM_STAGE_ESTABLISHING, user := u\<rparr>"
  have fs: "\<forall>(q, p)\<in>set fs. block_ok p" "fs \<noteq> [] \<longrightarrow> fst (hd fs) \<noteq> 0" using ok(1) by (auto simp: send_ok_def)
  have s1: "map snd (rx ?s1) = data_frames fs @ RYM_CODE_EOT # (RYM_CODE_EOT # ?z)" "prompt (rx ?s1)" "length (rbuf ?s1) = RYM_STX_PKG_SZ"
    "accepts_all g (map snd fs) (user ?s1) v" using h acc(2) by simp_all
  from do_trans_frames[OF s1(1,2) fs(1) s1(3) fs(2) cb(2) s1(4)] obtain r2 n2 B2 st where d: "rym_do_trans cb ?s1 = Some (RT_EOK,
      ?s1\<lparr>rx := r2, tx := tx ?s1 @ [RYM_CODE_ACK, RYM_CODE_C] @ replicate (length fs) RYM_CODE_ACK, now := n2, rbuf := B2, stage := st, user := v\<rparr>)"
    "map snd r2 = RYM_CODE_EOT # ?z" "prompt r2" "length B2 = RYM_STX_PKG_SZ"
    by (elim exE conjE) (rule that; assumption)
  let ?s2 = "?s1\<lparr>rx := r2, tx := tx ?s1 @ [RYM_CODE_ACK, RYM_CODE_C] @ replicate (length fs) RYM_CODE_ACK, now := n2, rbuf := B2, stage := st, user := v\<rparr>"
  from do_fin_session[of ?s2 rest cb] obtain r3 n3 B3 where f: "rym_do_fin cb ?s2 = Some (RT_EOK, ?s2\<lparr>rx := r3,
      tx := tx ?s2 @ [RYM_CODE_NAK, RYM_CODE_ACK, RYM_CODE_C, RYM_CODE_ACK], now := n3, rbuf := B3, stage := RYM_STAGE_FINISHED\<rparr>)"
    "map snd r3 = rest" using d cb(3) by auto
  let ?s3 = "?s2\<lparr>rx := r3, tx := tx ?s2 @ [RYM_CODE_NAK, RYM_CODE_ACK, RYM_CODE_C, RYM_CODE_ACK], now := n3, rbuf := B3, stage := RYM_STAGE_FINISHED\<rparr>"
  have "rym_recv_loop cb ?s1 = Some (RT_EOK, ?s3)"
    by (subst rym_recv_loop.simps) (simp only: d(1) f(1) option.case prod.case, simp)
  then have "rym_recv_on_device cb RT_EOK True tm s = Some (RT_EOK, ?s3)"
    by (simp only: rym_recv_on_device_def rym_do_recv_def Let_def h(1) option.case prod.case) simp
  then show ?thesis using f(2) by (intro exI[of _ ?s3]) (simp add: answers_def)
qed

text \<open>
  C17: a transmission whose bytes come without long pauses is received as a whole: the callbacks get the name packet and the
  data packets in order, and the answers are the ones of the protocol. Only the number of the first data packet matters,
  and it must not be zero.
\<close>

theorem rym_recv_transmission:
  assumes "map snd (rx s) = session hdr fs @ rest" "prompt (rx s)" "send_ok hdr fs" "length (rbuf s) = RYM_STX_PKG_SZ" "0 < tm"
    and "unat (now s) + 3100 < 2 ^ 32" "on_begin cb = Some f" "on_data cb = Some g" "on_end cb = None"
    and "accepts f hdr (user s) u" "accepts_all g (map snd fs) u v"
  shows "\<exists>s'. rym_recv_on_device cb RT_EOK True tm s = Some (RT_EOK, s') \<and> user s' = v \<and> tx s' = tx s @ answers (length fs) \<and>
    map snd (rx s') = rest \<and> stage s' = RYM_STAGE_FINISHED"
  by (rule recv_session[OF assms])

definition recorder :: "bytes list rym_callback" where
  "recorder buf n u = Some (RYM_CODE_ACK, u @ [take n buf])"

definition acknowledge :: "bytes list rym_callback" where
  "acknowledge buf n u = Some (RYM_CODE_ACK, u)"

definition record_cb :: "bytes list rym_callbacks" where
  "record_cb = \<lparr>on_begin = Some acknowledge, on_data = Some recorder, on_end = None\<rparr>"

definition line_state :: "bytes \<Rightarrow> bytes list rym" where
  "line_state bs = \<lparr>rx = map (Pair 0) bs, tx = [], now = 0, rbuf = replicate RYM_STX_PKG_SZ 0, stage = RYM_STAGE_NONE, user = []\<rparr>"

lemma line_state_simps [simp]:
  "map snd (rx (line_state bs)) = bs" "prompt (rx (line_state bs))" "length (rbuf (line_state bs)) = RYM_STX_PKG_SZ"
  "now (line_state bs) = 0" "tx (line_state bs) = []" "user (line_state bs) = []"
  by (simp_all add: line_state_def prompt_def RT_TICK_PER_SECOND_def comp_def)

lemma recorder_accepts: "accepts recorder p u (u @ [p])"
  by (simp add: accepts_def recorder_def)

lemma recorder_accepts_all: "accepts_all recorder ps u (u @ ps)"
proof (induction ps arbitrary: u)
  case (Cons p ps)
  show ?case using recorder_accepts Cons.IH[of "u @ [p]"] by auto
qed simp

lemma record_cb_simps [simp]:
  "on_begin record_cb = Some acknowledge" "on_data record_cb = Some recorder" "on_end record_cb = None"
  by (simp_all add: record_cb_def)

lemma line_state_start: "unat (now (line_state bs)) + 3100 < 2 ^ 32" "map snd (rx (line_state bs)) = bs @ []"
  by simp_all

lemma recorder_session: "accepts acknowledge hdr (user (line_state bs)) []" "accepts_all recorder ps [] ps"
  using recorder_accepts_all[of ps "[]"] by (simp_all add: accepts_def acknowledge_def)

theorem rym_recv_transmission_witness:
  "\<exists>s'. rym_recv_on_device record_cb RT_EOK True 3 (line_state (session (replicate 128 65) [(1, replicate 128 7), (2, replicate 1024 9)])) =
      Some (RT_EOK, s') \<and> user s' = [replicate 128 7, replicate 1024 9] \<and> tx s' = answers 2"
proof -
  let ?fs = "[(1, replicate 128 7), (2, replicate 1024 9)] :: (u8 \<times> bytes) list"
  have ok: "send_ok (replicate 128 65) ?fs" "0 < (3 :: nat)" by (simp_all add: send_ok_def block_ok_def)
  from rym_recv_transmission[OF line_state_start(2) line_state_simps(2) ok(1) line_state_simps(3) ok(2) line_state_start(1) record_cb_simps recorder_session]
  show ?thesis by (elim exE conjE) (intro exI conjI, assumption, simp_all add: numeral_2_eq_2)
qed

text \<open>The numbers of the packets are not compared: a packet that the sender repeats is delivered twice.\<close>

theorem rym_recv_repeated_packet:
  "\<exists>s'. rym_recv_on_device record_cb RT_EOK True 3 (line_state (session (replicate 128 65) [(1, replicate 128 7), (1, replicate 128 7)])) =
      Some (RT_EOK, s') \<and> user s' = [replicate 128 7, replicate 128 7]"
proof -
  let ?fs = "[(1, replicate 128 7), (1, replicate 128 7)] :: (u8 \<times> bytes) list"
  have ok: "send_ok (replicate 128 65) ?fs" "0 < (3 :: nat)" by (simp_all add: send_ok_def block_ok_def)
  from recv_session[OF line_state_start(2) line_state_simps(2) ok(1) line_state_simps(3) ok(2) line_state_start(1) record_cb_simps recorder_session]
  show ?thesis by (elim exE conjE) (intro exI conjI, assumption, simp_all)
qed

end
