(* ===== verification/Ymodem_Safety.thy ===== *)
theory Ymodem_Safety
  imports Ymodem_Props
begin

text \<open>
  What holds on any line, also a noisy or hostile one: the blocks that the data callback gets are pieces of the line with a
  matching checksum, in the order of the line and without overlap; and the receiver returns.
\<close>

section \<open>Blocks on a line\<close>

text \<open>\<open>carried ps line rest\<close>: the blocks \<open>ps\<close> lie on the line one behind the other, and \<open>rest\<close> is what is left of it.\<close>

fun carried :: "bytes list \<Rightarrow> bytes \<Rightarrow> bytes \<Rightarrow> bool" where
  "carried [] line rest \<longleftrightarrow> (\<exists>pre. line = pre @ rest)"
| "carried (p # ps) line rest \<longleftrightarrow>
     (\<exists>pre q q' mid. line = pre @ [q, q'] @ p @ crc_bytes p @ mid \<and> unat q + unat q' = 0xFF \<and> block_ok p \<and> carried ps mid rest)"

lemma carried_pre: "carried ps line rest \<Longrightarrow> carried ps (pre @ line) rest"
proof (cases ps)
  case (Cons p qs)
  assume "carried ps line rest"
  then obtain u q q' mid where "line = u @ [q, q'] @ p @ crc_bytes p @ mid" "unat q + unat q' = 0xFF" "block_ok p" "carried qs mid rest"
    using Cons by auto
  then show ?thesis unfolding Cons carried.simps by (intro exI[of _ "pre @ u"] exI[of _ q] exI[of _ q'] exI[of _ mid]) simp
qed auto

lemma carried_trans: "carried ps a b \<Longrightarrow> carried qs b c \<Longrightarrow> carried (ps @ qs) a c"
proof (induction ps arbitrary: a)
  case Nil
  then show ?case using carried_pre by auto
next
  case (Cons p ps)
  then obtain u q q' mid where "a = u @ [q, q'] @ p @ crc_bytes p @ mid" "unat q + unat q' = 0xFF" "block_ok p" "carried ps mid b" by auto
  then show ?case unfolding append_Cons carried.simps using Cons.IH Cons.prems(2) by blast
qed

lemma carried_refl [simp]: "carried [] a a"
  by simp

section \<open>Reading from the line\<close>

abbreviation line :: "'u rym \<Rightarrow> bytes" where
  "line s \<equiv> map snd (rx s)"

lemma rx_wait_line:
  "rx_wait t s = (v, s1) \<Longrightarrow> line s = (case v of None \<Rightarrow> [] | Some b \<Rightarrow> [b]) @ line s1 \<and> rbuf s1 = rbuf s \<and> user s1 = user s \<and> stage s1 = stage s"
  by (auto simp: rx_wait_def split: list.splits if_splits)

lemma read_code_line:
  "rym_read_code t s = (c, s1) \<Longrightarrow> (\<exists>pre. line s = pre @ line s1) \<and> length (rbuf s1) = length (rbuf s) \<and> user s1 = user s \<and> stage s1 = stage s"
  using rx_wait_line[of t s] by (cases "rx_wait t s") (auto simp: rym_read_code_def split: option.splits)

lemma read_bytes_line:
  assumes "read_bytes n i s = (k, s1)" "1 + i + n \<le> length (rbuf s)"
  shows "\<exists>bs. line s = bs @ line s1 \<and> k = i + length bs \<and> length bs \<le> n \<and> rbuf s1 = buf_write (rbuf s) (1 + i) bs \<and>
    user s1 = user s \<and> stage s1 = stage s"
  using assms
proof (induction n i s rule: read_bytes.induct)
  case (1 i s)
  then show ?case by (intro exI[of _ "[]"]) simp
next
  case (2 n i s)
  obtain v s' where w: "rx_wait RYM_WAIT_CHR_TICK s = (v, s')" by fastforce
  note W = rx_wait_line[OF w]
  show ?case
  proof (cases v)
    case None
    then show ?thesis using 2 w W by (intro exI[of _ "[]"]) simp
  next
    case (Some b)
    let ?s = "s'\<lparr>rbuf := (rbuf s')[1 + i := b]\<rparr>"
    from "2.IH"[OF w[symmetric] Some] 2(2,3) w W Some obtain bs where bs: "line ?s = bs @ line s1" "k = i + 1 + length bs" "length bs \<le> n"
      "rbuf s1 = buf_write (rbuf ?s) (1 + (i + 1)) bs" "user s1 = user ?s" "stage s1 = stage ?s" by auto
    then show ?thesis using buf_write_step[of "1 + i" "rbuf s" b bs] W Some 2(3) by (intro exI[of _ "b # bs"]) simp
  qed
qed

lemma recv_crc_eq: "push_bit 8 (ucast (a :: u8)) OR ucast (b :: u8) = (c :: u16) \<Longrightarrow> a = ucast (drop_bit 8 c) \<and> b = ucast c"
  by (auto intro!: bit_word_eqI simp: bit_simps)

text \<open>A full packet in the buffer whose checksum is right is the block with its checksum behind it.\<close>

lemma checked_packet:
  assumes "length bs = 2 + n + 2" "3 + n + 2 \<le> length b" and B_def: "B = buf_write b 1 bs"
    and "recv_crc (3 + n) B = CRC16 (take n (drop 3 B))"
  shows "bs = [B ! 1, B ! 2] @ take n (drop 3 B) @ crc_bytes (take n (drop 3 B))" "length (take n (drop 3 B)) = n" "length B = length b"
proof -
  have B: "B = take 1 b @ bs @ drop (1 + length bs) b" by (simp add: B_def buf_write_def)
  have l: "length (take 1 b) = 1" using assms(2) by simp
  show L: "length B = length b" unfolding B_def by (rule length_buf_write) (use assms(1,2) in simp)
  then show n: "length (take n (drop 3 B)) = n" using assms(2) by simp
  obtain q q' cs where bs: "bs = q # q' # cs" "length cs = n + 2" using assms(1) by (cases bs; cases "tl bs") auto
  have p: "take n (drop 3 B) = take n cs" unfolding B using l bs by (simp add: numeral_3_eq_3)
  have "B ! (3 + n) = cs ! n" "B ! (3 + n + 1) = cs ! (n + 1)" unfolding B using l bs by (simp_all add: nth_append)
  then have "cs ! n = ucast (drop_bit 8 (CRC16 (take n cs)))" "cs ! (n + 1) = ucast (CRC16 (take n cs))"
    using recv_crc_eq assms(4) unfolding recv_crc_def p by metis+
  moreover have "cs = take n cs @ [cs ! n, cs ! (n + 1)]"
    using bs(2) by (intro nth_equalityI) (auto simp: nth_append less_Suc_eq)
  moreover have "B ! 1 = q" "B ! 2 = q'" unfolding B using l bs by (simp_all add: nth_append)
  ultimately show "bs = [B ! 1, B ! 2] @ take n (drop 3 B) @ crc_bytes (take n (drop 3 B))"
    by (simp add: bs(1) p crc_bytes_def)
qed

lemma wait_start_size: "rym_wait_start n s = (Some v, s1) \<Longrightarrow> v = RYM_SOH_PKG_SZ \<or> v = RYM_STX_PKG_SZ"
  by (induction n arbitrary: s) (auto split: prod.splits if_splits)

lemma rbuf_putchar [simp]: "rbuf (rym_putchar c s) = rbuf s"
  by (simp add: rym_putchar_def)

section \<open>Nothing unchecked is delivered\<close>

text \<open>
  A relation between the state of the callbacks before and after the blocks \<open>ps\<close> have been delivered, and what is asked of
  the callbacks: the one for the data relates the states by the block that it gets, the others by no block.
\<close>

definition keeps_rel :: "(bytes list \<Rightarrow> 'u \<Rightarrow> 'u \<Rightarrow> bool) \<Rightarrow> 'u rym_callback option \<Rightarrow> bool" where
  "keeps_rel R cb \<longleftrightarrow> (\<forall>f buf n u c u'. cb = Some f \<longrightarrow> f buf n u = Some (c, u') \<longrightarrow> R [] u u')"

definition delivery :: "(bytes list \<Rightarrow> 'u \<Rightarrow> 'u \<Rightarrow> bool) \<Rightarrow> 'u rym_callbacks \<Rightarrow> bool" where
  "delivery R cb \<longleftrightarrow> keeps_rel R (on_begin cb) \<and> keeps_rel R (on_end cb) \<and>
     (\<forall>f buf p u c u'. on_data cb = Some f \<longrightarrow> block_ok p \<longrightarrow> take (length p) buf = p \<longrightarrow> f buf (length p) u = Some (c, u') \<longrightarrow> R [p] u u')"

text \<open>A step that may deliver blocks: they lie on the part of the line that it reads.\<close>

definition delivers :: "(bytes list \<Rightarrow> 'u \<Rightarrow> 'u \<Rightarrow> bool) \<Rightarrow> 'u rym \<Rightarrow> 'u rym \<Rightarrow> bool" where
  "delivers R s s1 \<longleftrightarrow> length (rbuf s1) = length (rbuf s) \<and> (\<exists>ps. R ps (user s) (user s1) \<and> carried ps (line s) (line s1))"

locale block_log =
  fixes R :: "bytes list \<Rightarrow> 'u \<Rightarrow> 'u \<Rightarrow> bool"
  assumes R_refl: "R [] u u" and R_trans: "R ps u v \<Longrightarrow> R qs v w \<Longrightarrow> R (ps @ qs) u w"
begin

lemma delivers_R: "length (rbuf s1) = length (rbuf s) \<Longrightarrow> R [] (user s) (user s1) \<Longrightarrow> line s = pre @ line s1 \<Longrightarrow> delivers R s s1"
  unfolding delivers_def by (intro conjI exI[of _ "[]"]) auto

lemma delivers_none: "length (rbuf s1) = length (rbuf s) \<Longrightarrow> user s1 = user s \<Longrightarrow> line s = pre @ line s1 \<Longrightarrow> delivers R s s1"
  using R_refl by (intro delivers_R) simp_all

lemma delivers_trans: "delivers R s s1 \<Longrightarrow> delivers R s1 s2 \<Longrightarrow> delivers R s s2"
  unfolding delivers_def
proof (elim conjE exE, intro conjI)
  fix ps qs
  assume "R ps (user s) (user s1)" "carried ps (line s) (line s1)" "R qs (user s1) (user s2)" "carried qs (line s1) (line s2)"
  then have "R (ps @ qs) (user s) (user s2) \<and> carried (ps @ qs) (line s) (line s2)" using carried_trans R_trans by blast
  then show "\<exists>ps. R ps (user s) (user s2) \<and> carried ps (line s) (line s2)" by blast
qed simp

lemma delivers_upd [simp]:
  "delivers R s (rym_putchar c s1) \<longleftrightarrow> delivers R s s1" "delivers R (rym_putchar c s) s1 \<longleftrightarrow> delivers R s s1"
  "delivers R s (s1\<lparr>stage := st\<rparr>) \<longleftrightarrow> delivers R s s1" "delivers R (s\<lparr>stage := st\<rparr>) s1 \<longleftrightarrow> delivers R s s1"
  by (simp_all add: delivers_def rym_putchar_def)

lemma delivers_putchars [simp]: "delivers R s ((rym_putchar c ^^ n) s1) \<longleftrightarrow> delivers R s s1"
  by (induction n) simp_all

lemma delivers_refl [simp]: "delivers R s s"
  by (rule delivers_none[of _ _ "[]"]) simp_all

lemma delivers_read_code: "rym_read_code t s = (c, s1) \<Longrightarrow> delivers R s s1"
  using read_code_line[of t s c s1] by (auto intro: delivers_none)

lemma delivers_read_data: "rym_read_data n s = (k, s1) \<Longrightarrow> 1 + n \<le> length (rbuf s) \<Longrightarrow> delivers R s s1"
  using read_bytes_line[of n 0 s k s1] by (auto simp: rym_read_data_def intro!: delivers_none)

lemma delivers_call: "keeps_rel R cb \<Longrightarrow> rym_call cb c n s = Some (c', s1) \<Longrightarrow> delivers R s s1"
  by (rule delivers_R[of _ _ "[]"]) (auto simp: rym_call_def keeps_rel_def R_refl split: option.splits)

lemma delivers_delay: "delivers R s (rt_thread_mdelay_rx n s)"
  by (rule delivers_none[of _ _ "[]"]) (simp_all add: rt_thread_mdelay_rx_def)

lemma delivers_length: "delivers R s s1 \<Longrightarrow> length (rbuf s1) = length (rbuf s)"
  by (simp add: delivers_def)

lemma trans_data_delivers:
  assumes "rym_trans_data cb n s = Some (e, c, s1)" "length (rbuf s) = RYM_STX_PKG_SZ" "n = 128 \<or> n = 1024" "delivery R cb"
  shows "delivers R s s1"
proof -
  obtain k s' where r: "rym_read_data (2 + n + 2) s = (k, s')" by fastforce
  have fits: "3 + n + 2 \<le> length (rbuf s)" using assms(2,3) by (auto simp: RYM_STX_PKG_SZ_def)
  have D: "delivers R s s'" using delivers_read_data[OF r] fits by simp
  let ?s = "s'\<lparr>stage := RYM_STAGE_TRANSMITTING\<rparr>"
  have tsz: "2 + n + 2 - 1 = 3 + n" by simp
  consider "user s1 = user s'" "rx s1 = rx s'" "rbuf s1 = rbuf s'"
    | (call) c' where "k = 2 + n + 2" "unat (rbuf s' ! 1) + unat (rbuf s' ! 2) = 0xFF" "recv_crc (3 + n) (rbuf s') = CRC16 (take n (drop 3 (rbuf s')))"
        "rym_call (on_data cb) RYM_CODE_ACK n ?s = Some (c', s1)"
    using assms(1)[unfolded rym_trans_data_def Let_def r prod.case tsz] by (auto split: if_splits)
  then show ?thesis
  proof cases
    case 1
    then show ?thesis using D by (simp add: delivers_def)
  next
    case call
    from read_bytes_line[of "2 + n + 2" 0 s k s'] r fits obtain bs where bs: "line s = bs @ line s'" "k = length bs"
      "rbuf s' = buf_write (rbuf s) 1 bs" "user s' = user s" by (auto simp: rym_read_data_def simp del: read_bytes.simps)
    let ?p = "take n (drop 3 (rbuf s'))"
    have P: "length bs = 2 + n + 2 \<Longrightarrow> bs = [rbuf s' ! 1, rbuf s' ! 2] @ ?p @ crc_bytes ?p" "length bs = 2 + n + 2 \<Longrightarrow> length ?p = n"
      by (erule checked_packet(1)[OF _ fits bs(3) call(3)], erule checked_packet(2)[OF _ fits bs(3) call(3)])
    show ?thesis
    proof (cases "on_data cb")
      case None
      then show ?thesis using D call(4) by (auto simp: rym_call_def)
    next
      case (Some f)
      have "length bs = 2 + n + 2" using bs(2) call(1) by simp
      note n = P(2)[OF this]
      have "block_ok ?p" using n assms(3) by (auto simp: block_ok_def)
      moreover have "take (length ?p) (drop 3 (rbuf s')) = ?p" using n by simp
      ultimately have "R [?p] (user s) (user s1)" "rx s1 = rx s'" "rbuf s1 = rbuf s'"
        using call(4) assms(4) bs(4) Some n unfolding delivery_def by (auto simp: rym_call_def)
      moreover have "carried [?p] (line s) (line s')"
      proof -
        have "length bs = 2 + n + 2" using bs(2) call(1) by simp
        note P' = P[OF this]
        have ok: "block_ok ?p" using P'(2) assms(3) by (auto simp: block_ok_def)
        have "line s = [] @ [rbuf s' ! 1, rbuf s' ! 2] @ ?p @ crc_bytes ?p @ line s'" unfolding bs(1) by (subst P'(1)) simp
        with ok call(2) show ?thesis unfolding carried.simps by blast
      qed
      ultimately show ?thesis using delivers_length[OF D] unfolding delivers_def
        by (intro conjI exI[of _ "[?p]"]) simp_all
    qed
  qed
qed

lemma trans_loop_delivers:
  "rym_trans_loop cb s = Some (e, s1) \<Longrightarrow> length (rbuf s) = RYM_STX_PKG_SZ \<Longrightarrow> delivery R cb \<Longrightarrow> delivers R s s1"
proof (induction cb s rule: rym_trans_loop.induct)
  case (1 cb s)
  obtain code s' where r: "rym_read_code RYM_WAIT_PKG_TICK s = (code, s')" by fastforce
  note R = delivers_read_code[OF r]
  have len: "length (rbuf s') = RYM_STX_PKG_SZ" using delivers_length[OF R] "1.prems"(2) by simp
  note L = "1.prems"(1)[unfolded rym_trans_loop.simps[of cb s] r prod.case]
  show ?case
  proof (cases "code = RYM_CODE_SOH \<or> code = RYM_CODE_STX")
    case c: True
    then obtain e' c' s2 where d: "rym_trans_data cb (code_size code) s' = Some (e', c', s2)" using L by (auto split: option.splits)
    have "code_size code = 128 \<or> code_size code = 1024" by (simp add: code_size_def)
    from delivers_trans[OF R trans_data_delivers[OF d len this "1.prems"(3)]] have D: "delivers R s s2" .
    note IH = "1.IH"[OF r[symmetric] c d refl refl]
    show ?thesis
    proof (cases "e' = RT_EOK \<and> c' \<noteq> RYM_CODE_CAN")
      case True
      have len2: "length (rbuf s2) = RYM_STX_PKG_SZ" using delivers_length[OF D] "1.prems"(2) by simp
      from True L c d have "rym_trans_loop cb s2 = Some (e, s1) \<or> rym_trans_loop cb (rym_putchar RYM_CODE_ACK s2) = Some (e, s1)"
        by (auto split: if_splits)
      then have "delivers R s2 s1" using IH True len2 "1.prems"(3) L c d by (auto split: if_splits)
      then show ?thesis using D delivers_trans by blast
    next
      case False
      then show ?thesis using L D c d by (auto split: if_splits)
    qed
  next
    case False
    then show ?thesis using L R by (auto split: if_splits)
  qed
qed

lemma do_trans_delivers: "rym_do_trans cb s = Some (e, s1) \<Longrightarrow> length (rbuf s) = RYM_STX_PKG_SZ \<Longrightarrow> delivery R cb \<Longrightarrow> delivers R s s1"
  unfolding rym_do_trans_def by (drule trans_loop_delivers) (simp_all add: rym_putchar_def, simp add: delivers_def)

lemma fin_packet_delivers:
  assumes "rym_fin_packet cb n s = Some (e, s1)" "length (rbuf s) = RYM_STX_PKG_SZ" "delivery R cb"
  shows "delivers R s s1"
proof -
  obtain k s' where r: "rym_read_data (RYM_SOH_PKG_SZ - 1) s = (k, s')" by fastforce
  have D: "delivers R s s'" using delivers_read_data[OF r] assms(2) by (simp add: RYM_SOH_PKG_SZ_def RYM_STX_PKG_SZ_def)
  have k: "keeps_rel R (on_begin cb)" using assms(3) by (simp add: delivery_def)
  show ?thesis using assms(1)[unfolded rym_fin_packet_def r prod.case] D delivers_trans[OF D delivers_call[OF k]]
    by (auto split: if_splits)
qed

lemma do_fin_delivers:
  assumes "rym_do_fin cb s = Some (e, s1)" "length (rbuf s) = RYM_STX_PKG_SZ" "delivery R cb"
  shows "delivers R s s1"
proof -
  have k: "keeps_rel R (on_end cb)" using assms(3) by (simp add: delivery_def)
  obtain c0 s' where c0: "rym_call (on_end cb) RYM_CODE_NONE 128 (s\<lparr>stage := RYM_STAGE_FINISHING\<rparr>) = Some (c0, s')"
    using assms(1) by (auto simp: rym_do_fin_def split: option.splits)
  have d0: "delivers R s s'" using delivers_call[OF k c0] by simp
  obtain c1 s2 where c1: "rym_read_code RYM_WAIT_PKG_TICK (rym_putchar RYM_CODE_NAK s') = (c1, s2)" by fastforce
  have d1: "delivers R s s2" using delivers_trans[OF d0] delivers_read_code[OF c1] by simp
  obtain c2 s3 where c2: "rym_read_code RYM_WAIT_PKG_TICK (rym_putchar RYM_CODE_C (rym_putchar RYM_CODE_ACK s2)) = (c2, s3)" by fastforce
  have d2: "delivers R s s3" using delivers_trans[OF d1] delivers_read_code[OF c2] by simp
  have l: "length (rbuf s3) = RYM_STX_PKG_SZ" using delivers_length[OF d2] assms(2) by simp
  have "rym_fin_packet cb n s3 = Some (e, s1) \<Longrightarrow> delivers R s s1" for n
    using delivers_trans[OF d2] fin_packet_delivers[OF _ l assms(3)] by blast
  then show ?thesis using assms(1)[unfolded rym_do_fin_def c0 option.case prod.case c1 c2] d1 d2 by (auto split: if_splits)
qed

lemma recv_loop_delivers:
  "rym_recv_loop cb s = Some (e, s1) \<Longrightarrow> length (rbuf s) = RYM_STX_PKG_SZ \<Longrightarrow> delivery R cb \<Longrightarrow> delivers R s s1"
proof (induction cb s rule: rym_recv_loop.induct)
  case (1 cb s)
  note L = "1.prems"(1)[unfolded rym_recv_loop.simps[of cb s]]
  obtain e2 s2 where t: "rym_do_trans cb s = Some (e2, s2)" using L by (auto split: option.splits)
  note D = do_trans_delivers[OF t "1.prems"(2,3)]
  show ?case
  proof (cases "e2 = RT_EOK")
    case ok: True
    obtain e3 s3 where f: "rym_do_fin cb s2 = Some (e3, s3)" using L t ok by (auto split: option.splits)
    have l: "length (rbuf s2) = RYM_STX_PKG_SZ" using delivers_length[OF D] "1.prems"(2) by simp
    note D3 = delivers_trans[OF D do_fin_delivers[OF f l "1.prems"(3)]]
    have l3: "length (rbuf s3) = RYM_STX_PKG_SZ" using delivers_length[OF D3] "1.prems"(2) by simp
    have "rym_recv_loop cb s3 = Some (e, s1) \<Longrightarrow> e3 = RT_EOK \<Longrightarrow> stage s3 \<noteq> RYM_STAGE_FINISHED \<Longrightarrow> delivers R s3 s1"
      using "1.IH"[OF t refl _ f refl] ok l3 "1.prems"(3) by simp
    then show ?thesis using L t ok f D3 delivers_trans[OF D3] by (auto split: if_splits)
  next
    case False
    then show ?thesis using L t D by simp
  qed
qed

lemma wait_start_delivers: "rym_wait_start n s = (v, s1) \<Longrightarrow> delivers R s s1"
proof (induction n arbitrary: s)
  case (Suc n)
  obtain c s' where c: "rym_read_code RYM_CHD_INTV_TICK (rym_putchar RYM_CODE_C s) = (c, s')" by fastforce
  have D: "delivers R s s'" using delivers_read_code[OF c] by simp
  show ?case using Suc.prems D delivers_trans[OF D Suc.IH[of s']] by (auto simp: c split: if_splits)
qed simp

lemma fill_delivers:
  assumes ret: "rym_fill tick len i s = Some r" and "1 + len \<le> length (rbuf s)"
  shows "delivers R s (snd r)"
proof -
  have "1 + len \<le> length (rbuf s) \<longrightarrow> delivers R s (snd r)"
  proof (rule rym_fill.raw_induct[where P = "\<lambda>tick len i s r. 1 + len \<le> length (rbuf s) \<longrightarrow> delivers R s (snd r)", OF _ ret])
    fix fill tick len i s r
    assume IH: "\<And>tick len i s r. fill tick len i s = Some r \<Longrightarrow> 1 + len \<le> length (rbuf s) \<longrightarrow> delivers R s (snd r)"
      and ret: "(if now s \<le> tick + 100 \<and> i < len
        then (case rym_read_data len s of (k, s1) \<Rightarrow> fill tick len (i + k) (rt_thread_mdelay_rx 5 s1)) else Some (i, s)) = Some r"
    obtain k s1 where d: "rym_read_data len s = (k, s1)" by fastforce
    show "1 + len \<le> length (rbuf s) \<longrightarrow> delivers R s (snd r)"
    proof
      assume l: "1 + len \<le> length (rbuf s)"
      note D = delivers_trans[OF delivers_read_data[OF d l] delivers_delay, of 5]
      show "delivers R s (snd r)"
        using ret d IH[of tick len "i + k" "rt_thread_mdelay_rx 5 s1" r] delivers_trans[OF D] delivers_length[OF D] l
        by (auto split: if_splits)
    qed
  qed
  then show ?thesis using assms(2) by simp
qed

lemma do_handshake_delivers:
  assumes "rym_do_handshake cb tm s0 = Some (e, s2)" "length (rbuf s0) = RYM_STX_PKG_SZ" "delivery R cb"
  shows "delivers R s0 s2"
proof -
  have k: "keeps_rel R (on_begin cb)" using assms(3) by (simp add: delivery_def)
  obtain v s where w: "rym_wait_start tm (s0\<lparr>stage := RYM_STAGE_ESTABLISHING\<rparr>) = (v, s)" by fastforce
  have D: "delivers R s0 s" using wait_start_delivers[OF w] by simp
  note H = assms(1)[unfolded rym_do_handshake_def w prod.case]
  show ?thesis
  proof (cases v)
    case None
    then show ?thesis using H D by simp
  next
    case (Some n)
    obtain i s1 where f: "rym_fill (now s) (n - 1) 0 s = Some (i, s1)" using H Some by (auto split: option.splits)
    have "n - 1 + 1 \<le> RYM_STX_PKG_SZ" using wait_start_size[OF w[unfolded Some]] by (auto simp: RYM_SOH_PKG_SZ_def RYM_STX_PKG_SZ_def)
    then have "1 + (n - 1) \<le> length (rbuf s)" using delivers_length[OF D] assms(2) by simp
    from delivers_trans[OF D fill_delivers[OF f this]] have D1: "delivers R s0 s1" by simp
    show ?thesis using H[unfolded Some option.case f prod.case] D1 delivers_trans[OF D1 delivers_call[OF k]]
      by (auto split: if_splits)
  qed
qed

lemma recv_delivers:
  assumes "rym_recv_on_device cb open_res malloc_ok tm s = Some (e, s1)" "length (rbuf s) = RYM_STX_PKG_SZ" "delivery R cb"
  shows "delivers R s s1"
proof (cases "open_res = RT_EOK \<and> malloc_ok")
    case True
    then have r: "rym_do_recv cb True tm s = Some (e, s1)" using assms(1) by (simp add: rym_recv_on_device_def)
    let ?s = "s\<lparr>stage := RYM_STAGE_NONE\<rparr>"
    from r obtain e2 s2 where h: "rym_do_handshake cb tm ?s = Some (e2, s2)" by (auto simp: rym_do_recv_def split: option.splits)
    have D: "delivers R s s2" using do_handshake_delivers[OF h _ assms(3)] assms(2) by simp
    have l: "length (rbuf s2) = RYM_STX_PKG_SZ" using delivers_length[OF D] assms(2) by simp
    show ?thesis using r D h delivers_trans[OF D recv_loop_delivers[OF _ l assms(3)]]
      by (auto simp: rym_do_recv_def split: if_splits)
  next
    case False
    then show ?thesis using assms(1) by (auto simp: rym_recv_on_device_def rym_do_recv_def split: if_splits)
qed

end

text \<open>The relation of a log in the state: the data callback appends the block it gets, the others leave the log alone.\<close>

definition logged :: "('u \<Rightarrow> bytes list) \<Rightarrow> bytes list \<Rightarrow> 'u \<Rightarrow> 'u \<Rightarrow> bool" where
  "logged log ps u u' \<longleftrightarrow> log u' = log u @ ps"

interpretation log: block_log "logged log" for log :: "'u \<Rightarrow> bytes list"
  by unfold_locales (simp_all add: logged_def)

text \<open>
  C15: whatever comes over the line, and whatever the result, the blocks that the data callback gets are pieces of the line of
  128 or 1024 bytes, each between a number with its complement and the checksum of the block, in the order of the line and
  without overlap.
\<close>

theorem rym_recv_delivers_checked:
  assumes "rym_recv_on_device cb open_res malloc_ok tm s = Some (e, s1)" "length (rbuf s) = RYM_STX_PKG_SZ" "delivery (logged log) cb"
  shows "\<exists>ps. log (user s1) = log (user s) @ ps \<and> carried ps (line s) (line s1)"
  using log.recv_delivers[OF assms] by (simp add: delivers_def logged_def)

lemma record_cb_logs: "delivery (logged (\<lambda>u. u)) record_cb"
  by (simp add: delivery_def keeps_rel_def logged_def acknowledge_def recorder_def)

theorem rym_recv_delivers_checked_witness:
  "\<exists>s1. rym_recv_on_device record_cb RT_EOK True 3 (line_state (session (replicate 128 65) [(1, replicate 128 7)])) = Some (RT_EOK, s1) \<and>
     user s1 = [replicate 128 7] \<and> carried (user s1) (session (replicate 128 65) [(1, replicate 128 7)]) (line s1)"
proof -
  let ?bs = "session (replicate 128 65) [(1, replicate 128 7)]"
  have ok: "send_ok (replicate 128 65) [(1, replicate 128 7)]" "0 < (3 :: nat)" by (simp_all add: send_ok_def block_ok_def)
  from recv_session[OF line_state_start(2) line_state_simps(2) ok(1) line_state_simps(3) ok(2) line_state_start(1) record_cb_simps recorder_session]
  obtain s1 where s1: "rym_recv_on_device record_cb RT_EOK True 3 (line_state ?bs) = Some (RT_EOK, s1)" "user s1 = [replicate 128 7]"
    by (elim exE conjE) simp
  show ?thesis using rym_recv_delivers_checked[OF s1(1) line_state_simps(3) record_cb_logs] s1 by auto
qed

section \<open>The receiver returns\<close>

definition total_cb :: "'u rym_callbacks \<Rightarrow> bool" where
  "total_cb cb \<longleftrightarrow> (\<forall>f buf n u. Some f \<in> {on_begin cb, on_data cb, on_end cb} \<longrightarrow> f buf n u \<noteq> None)"

lemma total_call: "total_cb cb \<Longrightarrow> f \<in> {on_begin cb, on_data cb, on_end cb} \<Longrightarrow> rym_call f c n s \<noteq> None"
  by (auto simp: rym_call_def total_cb_def split: option.splits)

lemma total_trans_data: "total_cb cb \<Longrightarrow> rym_trans_data cb n s \<noteq> None"
  using total_call[of cb "on_data cb"] by (simp add: rym_trans_data_def Let_def split: prod.splits)

lemma total_trans_loop: "total_cb cb \<Longrightarrow> rym_trans_loop cb s \<noteq> None"
proof (induction cb s rule: rym_trans_loop.induct)
  case (1 cb s)
  obtain code s' where r: "rym_read_code RYM_WAIT_PKG_TICK s = (code, s')" by fastforce
  obtain e c s2 where d: "rym_trans_data cb (code_size code) s' = Some (e, c, s2)" using total_trans_data[OF "1.prems"] by (metis not_None_eq prod_cases3)
  show ?case unfolding rym_trans_loop.simps[of cb s] r prod.case d option.case
    using "1.IH"[OF r[symmetric] _ d refl refl] "1.prems" by simp
qed

lemma total_fin: "total_cb cb \<Longrightarrow> rym_do_fin cb s \<noteq> None"
  using total_call[of cb "on_end cb"] total_call[of cb "on_begin cb"]
  by (auto simp: rym_do_fin_def rym_fin_packet_def split: option.splits prod.splits) blast+

lemma total_recv_loop: "total_cb cb \<Longrightarrow> rym_recv_loop cb s \<noteq> None"
proof (induction cb s rule: rym_recv_loop.induct)
  case (1 cb s)
  obtain e2 s2 where t: "rym_do_trans cb s = Some (e2, s2)"
    using total_trans_loop[OF "1.prems"] unfolding rym_do_trans_def by fastforce
  obtain e3 s3 where f: "rym_do_fin cb s2 = Some (e3, s3)" using total_fin[OF "1.prems", of s2] by auto
  show ?case unfolding rym_recv_loop.simps[of cb s] t f prod.case option.case
    using "1.IH"[OF t refl _ f refl] "1.prems" by simp
qed

text \<open>How long the waits take.\<close>

definition passes :: "nat \<Rightarrow> 'u rym \<Rightarrow> 'u rym \<Rightarrow> bool" where
  "passes n s s1 \<longleftrightarrow> (\<exists>d\<le>n. now s1 = now s + of_nat d)"

lemma passes_trans: "passes a s s1 \<Longrightarrow> passes b s1 s2 \<Longrightarrow> passes (a + b) s s2"
  unfolding passes_def
proof (elim exE conjE)
  fix d e assume "d \<le> a" "e \<le> b" "now s1 = now s + of_nat d" "now s2 = now s1 + of_nat e"
  then show "\<exists>d\<le>a + b. now s2 = now s + of_nat d" by (intro exI[of _ "d + e"]) simp
qed

lemma passes_mono: "passes a s s1 \<Longrightarrow> a \<le> b \<Longrightarrow> passes b s s1"
  unfolding passes_def by (blast intro: order_trans)

lemma passesI: "now s1 = now s + of_nat d \<Longrightarrow> d \<le> n \<Longrightarrow> passes n s s1"
  by (auto simp: passes_def)

lemma passes_0 [simp]: "now s1 = now s \<Longrightarrow> passes n s s1"
  unfolding passes_def by (intro exI[of _ 0]) simp

lemma passes_wait: "rx_wait t s = (v, s1) \<Longrightarrow> passes t s s1"
proof (cases "rx s")
  case (Cons x r)
  assume w: "rx_wait t s = (v, s1)"
  obtain d b where x: "x = (d, b)" by (cases x)
  show ?thesis
  proof (cases "d < t")
    case True
    then show ?thesis using w Cons by (intro passesI[of _ _ d]) (auto simp: rx_wait_def x)
  next
    case False
    then show ?thesis using w Cons by (intro passesI[of _ _ t]) (auto simp: rx_wait_def x)
  qed
qed (auto simp: rx_wait_def intro!: passesI[of _ _ t])

lemma passes_read_code: "rym_read_code t s = (c, s1) \<Longrightarrow> passes t s s1"
  using passes_wait[of t s] by (cases "rx_wait t s") (auto simp: rym_read_code_def passes_def split: option.splits)

lemma passes_read_bytes: "read_bytes n i s = (k, s1) \<Longrightarrow> passes (3000 * n) s s1"
proof (induction n i s rule: read_bytes.induct)
  case (2 n i s)
  obtain v s' where w: "rx_wait RYM_WAIT_CHR_TICK s = (v, s')" by fastforce
  have P: "passes 3000 s s'" using passes_wait[OF w] by (simp add: RYM_WAIT_CHR_TICK_def RT_TICK_PER_SECOND_def)
  show ?case
  proof (cases v)
    case None
    then have "s1 = s'" using 2 w by simp
    then show ?thesis using passes_mono[OF P, of "3000 * Suc n"] by simp
  next
    case (Some b)
    let ?s = "s'\<lparr>rbuf := (rbuf s')[1 + i := b]\<rparr>"
    have "passes (3000 * n) ?s s1" using "2.IH"[OF w[symmetric] Some] 2(2) w Some by simp
    then have "passes (3000 * n) s' s1" by (simp add: passes_def)
    then show ?thesis using passes_trans[OF P] by simp
  qed
qed simp

lemma passes_wait_start: "rym_wait_start n s = (v, s1) \<Longrightarrow> passes (3000 * n) s s1"
proof (induction n arbitrary: s)
  case (Suc n)
  obtain c s' where c: "rym_read_code RYM_CHD_INTV_TICK (rym_putchar RYM_CODE_C s) = (c, s')" by fastforce
  have P: "passes 3000 s s'" using passes_read_code[OF c] by (simp add: RYM_CHD_INTV_TICK_def RT_TICK_PER_SECOND_def passes_def rym_putchar_def)
  have "s1 = s' \<or> passes (3000 * n) s' s1" using Suc.prems Suc.IH[of s'] by (auto simp: c split: if_splits)
  then have "passes (3000 * n) s' s1" by auto
  then show ?case using passes_trans[OF P] by simp
qed simp

lemma passes_unat: "passes n s s1 \<Longrightarrow> unat (now s) + n < 2 ^ 32 \<Longrightarrow> unat (now s) \<le> unat (now s1) \<and> unat (now s1) \<le> unat (now s) + n"
  unfolding passes_def by (auto simp: unat_word_ariths unat_of_nat)

lemma fill_returns:
  assumes "unat tick + 105 + 3000 * len < 2 ^ 32"
  shows "rym_fill tick len i s \<noteq> None"
proof (induction "unat tick + 101 - unat (now s)" arbitrary: i s rule: less_induct)
  case less
  show ?case
  proof (cases "now s \<le> tick + 100 \<and> i < len")
    case True
    have "unat (tick + 100) = unat tick + 100" using assms by (simp add: unat_word_ariths)
    then have n: "unat (now s) \<le> unat tick + 100" using True by (simp add: word_le_nat_alt)
    obtain k s1 where d: "rym_read_data len s = (k, s1)" by fastforce
    have "unat (now s) \<le> unat (now s1) \<and> unat (now s1) \<le> unat (now s) + 3000 * len"
      by (rule passes_unat) (use passes_read_bytes d n assms in \<open>auto simp: rym_read_data_def\<close>)
    then have "unat (now s) + 5 \<le> unat (now (rt_thread_mdelay_rx 5 s1))"
      using n assms by (simp add: rt_thread_mdelay_rx_def unat_word_ariths)
    then have "rym_fill tick len (i + k) (rt_thread_mdelay_rx 5 s1) \<noteq> None" using n by (intro less) linarith
    then show ?thesis using True d by (subst rym_fill.simps) simp
  next
    case False
    then show ?thesis by (subst rym_fill.simps) (simp only: False if_False, simp)
  qed
qed

lemma handshake_returns:
  assumes "total_cb cb" "unat (now s0) + 3000 * (tm + 1028) + 105 < 2 ^ 32"
  shows "rym_do_handshake cb tm s0 \<noteq> None"
proof -
  obtain v s where w: "rym_wait_start tm (s0\<lparr>stage := RYM_STAGE_ESTABLISHING\<rparr>) = (v, s)" by fastforce
  show ?thesis
  proof (cases v)
    case None
    then show ?thesis by (simp add: rym_do_handshake_def w)
  next
    case (Some n)
    have "n - 1 \<le> 1028" using wait_start_size[OF w[unfolded Some]] by (auto simp: RYM_SOH_PKG_SZ_def RYM_STX_PKG_SZ_def)
    moreover have "unat (now s) \<le> unat (now s0) + 3000 * tm"
      using passes_unat[of "3000 * tm" "s0\<lparr>stage := RYM_STAGE_ESTABLISHING\<rparr>" s] passes_wait_start[OF w] assms(2) by simp
    ultimately have "rym_fill (now s) (n - 1) 0 s \<noteq> None" using assms(2) by (intro fill_returns) (simp add: algebra_simps)
    then show ?thesis using total_call[OF assms(1), of "on_begin cb"]
      by (auto simp: rym_do_handshake_def w Some) blast
  qed
qed

text \<open>
  C21: the receiver returns, whatever comes over the line, when the callbacks return and the tick counter does not wrap around
  during the handshake.
\<close>

theorem rym_recv_returns:
  assumes "total_cb cb" "unat (now s) + 3000 * (tm + 1028) + 105 < 2 ^ 32"
  shows "\<exists>e s1. rym_recv_on_device cb open_res malloc_ok tm s = Some (e, s1)"
proof -
  have "rym_do_recv cb malloc_ok tm s \<noteq> None"
    using handshake_returns[of cb "s\<lparr>stage := RYM_STAGE_NONE\<rparr>" tm] total_recv_loop[OF assms(1)] assms
    by (auto simp: rym_do_recv_def Let_def split: option.splits)
  then show ?thesis by (auto simp: rym_recv_on_device_def)
qed

theorem rym_recv_returns_witness:
  "total_cb record_cb \<and> (\<exists>e s1. rym_recv_on_device record_cb RT_EOK True 1000 (line_state [1, 2, 3]) = Some (e, s1))"
proof -
  have "total_cb record_cb" by (auto simp: total_cb_def acknowledge_def recorder_def)
  then show ?thesis using rym_recv_returns[of record_cb "line_state [1, 2, 3]" 1000 RT_EOK True] by simp
qed

text \<open>At the wrong moment the handshake never ends: the end of the wait is the largest tick, and the sender stops after its first byte.\<close>

lemma fill_silent: "rym_fill tick len i s = Some r \<Longrightarrow> tick + 100 = - 1 \<Longrightarrow> rx s = [] \<Longrightarrow> len \<le> i"
proof -
  assume ret: "rym_fill tick len i s = Some r"
  have "tick + 100 = - 1 \<longrightarrow> rx s = [] \<longrightarrow> len \<le> i"
  proof (rule rym_fill.raw_induct[where P = "\<lambda>tick len i s r. tick + 100 = - 1 \<longrightarrow> rx s = [] \<longrightarrow> len \<le> i", OF _ ret])
    fix fill tick len i s r
    assume IH: "\<And>tick len i s r. fill tick len i s = Some r \<Longrightarrow> tick + 100 = - 1 \<longrightarrow> rx s = [] \<longrightarrow> len \<le> i"
      and ret: "(if now s \<le> tick + 100 \<and> i < len
        then (case rym_read_data len s of (k, s1) \<Rightarrow> fill tick len (i + k) (rt_thread_mdelay_rx 5 s1)) else Some (i, s)) = Some r"
    have "rym_read_data len s = (0, s\<lparr>now := now s + of_nat 3000\<rparr>)" if "rx s = []" "i < len"
      using that by (cases len) (simp_all add: rym_read_data_def rx_wait_def RYM_WAIT_CHR_TICK_def RT_TICK_PER_SECOND_def)
    moreover have "now s \<le> tick + 100" if "tick + 100 = - 1" unfolding that by simp
    moreover have "rx (rt_thread_mdelay_rx 5 (s\<lparr>now := now s + of_nat 3000\<rparr>)) = []" if "rx s = []" using that by (simp add: rt_thread_mdelay_rx_def)
    ultimately show "tick + 100 = - 1 \<longrightarrow> rx s = [] \<longrightarrow> len \<le> i"
      using ret IH[of tick len i "rt_thread_mdelay_rx 5 (s\<lparr>now := now s + of_nat 3000\<rparr>)" r]
      by (metis (no_types, lifting) add_0_right case_prod_conv not_le_imp_less)
  qed
  then show "tick + 100 = - 1 \<Longrightarrow> rx s = [] \<Longrightarrow> len \<le> i" by blast
qed

theorem rym_do_handshake_hangs:
  assumes "rx s = [(0, RYM_CODE_SOH)]" "now s = - 101" "0 < tm"
  shows "rym_do_handshake cb tm s = None"
proof -
  obtain k where k: "tm = Suc k" using assms(3) by (cases tm) auto
  obtain s1 where w: "rym_wait_start tm (s\<lparr>stage := RYM_STAGE_ESTABLISHING\<rparr>) = (Some RYM_SOH_PKG_SZ, s1)" "rx s1 = []" "now s1 = - 101"
    using assms(1,2) by (auto simp: k rym_read_code_def rx_wait_def rym_putchar_def RYM_CHD_INTV_TICK_def RT_TICK_PER_SECOND_def)
  have "rym_fill (now s1) (RYM_SOH_PKG_SZ - 1) 0 s1 = None"
    using fill_silent[of "now s1" "RYM_SOH_PKG_SZ - 1" 0 s1] w(2,3) by (cases "rym_fill (now s1) (RYM_SOH_PKG_SZ - 1) 0 s1") (auto simp: RYM_SOH_PKG_SZ_def)
  then show ?thesis by (simp add: rym_do_handshake_def w(1))
qed

end
