(* ===== verification/Ymodem_Ota.thy ===== *)
theory Ymodem_Ota
  imports Ymodem_Safety Fota_Boot
begin

text \<open>
  The Ymodem downloader of \<^verbatim>\<open>packages/ota_downloader-v1.0.0/src/ymodem_ota.c\<close>: the callbacks that it gives to the
  receiver of \<^verbatim>\<open>ymodem.c\<close> write the file to a partition of the flash abstraction layer. Its static variables and the flash
  are the state of the callbacks. The result \<open>None\<close> is a fault: a packet without the NUL behind the file name, a number that
  runs to the end of the buffer or does not fit in a \<open>long\<close>, a write without a partition.
\<close>

section \<open>Operations\<close>

record ota =
  ota_flash :: flash
  recv_partition :: bytes
  update_file_total_size :: u32
  update_file_cur_size :: u32
  dl_part :: "fal_partition option"

definition DEFAULT_DOWNLOAD_PART :: bytes where "DEFAULT_DOWNLOAD_PART = bytes_of_string ''download''"

definition rt_strlen :: "bytes \<Rightarrow> nat option" where
  "rt_strlen s = (if 0 \<in> set s then Some (length (c_str s)) else None)"

text \<open>\<^verbatim>\<open>atol\<close> of the C library: blanks, a sign, digits. A value that is no \<open>long\<close> is undefined there.\<close>

fun atol_digits :: "int \<Rightarrow> bytes \<Rightarrow> int option" where
  "atol_digits a [] = None"
| "atol_digits a (c # cs) = (if 48 \<le> c \<and> c \<le> 57 then atol_digits (a * 10 + (uint c - 48)) cs else Some a)"

definition is_space :: "u8 \<Rightarrow> bool" where
  "is_space c \<longleftrightarrow> c = 32 \<or> 9 \<le> c \<and> c \<le> 13"

definition atol :: "bytes \<Rightarrow> int option" where
  "atol s =
     (let t = dropWhile is_space s;
          v = (case t of [] \<Rightarrow> None
               | c # cs \<Rightarrow> if c = 45 then map_option uminus (atol_digits 0 cs)
                            else if c = 43 then atol_digits 0 cs else atol_digits 0 t)
      in case v of None \<Rightarrow> None | Some n \<Rightarrow> if - (2 ^ 31) \<le> n \<and> n < 2 ^ 31 then Some n else None)"

definition ymodem_on_begin :: "rom \<Rightarrow> fal_state \<Rightarrow> ota rym_callback" where
  "ymodem_on_begin r f buf len u =
     (case rt_strlen buf of None \<Rightarrow> None
      | Some n \<Rightarrow>
          (case atol (drop (n + 1) buf) of None \<Rightarrow> None
           | Some file_size \<Rightarrow>
               let u1 = u\<lparr>update_file_total_size := of_int file_size, update_file_cur_size := 0,
                          dl_part := fal_partition_find f (recv_partition u)\<rparr>
               in case dl_part u1 of
                    None \<Rightarrow> Some (RYM_CODE_CAN, u1)
                  | Some p \<Rightarrow>
                      if update_file_total_size u1 > part_len p then Some (RYM_CODE_CAN, u1)
                      else (case fal_partition_erase r p 0 (update_file_total_size u1) (ota_flash u1) of (res, m) \<Rightarrow>
                              Some (if res < 0 then RYM_CODE_CAN else RYM_CODE_ACK, u1\<lparr>ota_flash := m\<rparr>))))"

definition ymodem_on_data :: "rom \<Rightarrow> ota rym_callback" where
  "ymodem_on_data r buf len u =
     (case dl_part u of None \<Rightarrow> None
      | Some p \<Rightarrow>
          (case fal_partition_write r p (update_file_cur_size u) buf (of_nat len) (ota_flash u) of None \<Rightarrow> None
           | Some (res, m) \<Rightarrow>
               let u1 = u\<lparr>ota_flash := m\<rparr>
               in if res < 0 then Some (RYM_CODE_CAN, u1)
                  else Some (RYM_CODE_ACK, u1\<lparr>update_file_cur_size := update_file_cur_size u1 + of_nat len\<rparr>)))"

definition ota_callbacks :: "rom \<Rightarrow> fal_state \<Rightarrow> ota rym_callbacks" where
  "ota_callbacks r f = \<lparr>on_begin = Some (ymodem_on_begin r f), on_data = Some (ymodem_on_data r), on_end = None\<rparr>"

datatype ota_end = Ota_Usage | Ota_Reset | Ota_Fail

text \<open>The partition that the command line names, or \<^verbatim>\<open>None\<close> when it is wrong.\<close>

definition ota_partition_arg :: "bytes list \<Rightarrow> bytes option" where
  "ota_partition_arg argv =
     (if length argv < 2 then Some DEFAULT_DOWNLOAD_PART
      else if c_str (argv ! 1) = bytes_of_string ''-p'' then (if length argv < 3 then None else Some (argv ! 2))
      else None)"

definition ymodem_ota :: "rom \<Rightarrow> fal_state \<Rightarrow> int \<Rightarrow> bool \<Rightarrow> bytes list \<Rightarrow> ota rym \<Rightarrow> (ota_end \<times> ota rym) option" where
  "ymodem_ota r f open_res malloc_ok argv s =
     (case ota_partition_arg argv of None \<Rightarrow> Some (Ota_Usage, s)
      | Some name \<Rightarrow>
          (case rym_recv_on_device (ota_callbacks r f) open_res malloc_ok RT_TICK_PER_SECOND
                  (s\<lparr>user := (user s)\<lparr>recv_partition := name\<rparr>\<rparr>) of None \<Rightarrow> None
           | Some (err, s1) \<Rightarrow>
               if err = RT_EOK then Some (Ota_Reset, rt_thread_mdelay_rx 200 s1)
               else Some (Ota_Fail, rt_thread_mdelay_rx RT_TICK_PER_SECOND s1)))"

section \<open>Flash operations that fail\<close>

text \<open>A write or an erase inside a partition changes no other partition, also when it fails half way.\<close>

lemma only_changes_cells:
  assumes "part_wf p" "a + n \<le> unat (part_len p)"
    and "\<And>x. \<not> in_range (flash_cell (unat (part_offset p) + a)) n x \<Longrightarrow> m' x = m x"
  shows "only_changes p m m'"
  unfolding only_changes_def
proof (intro allI impI)
  fix q b k assume q: "part_wf q" "b + k \<le> unat (part_len q)" "part_disjoint p q"
  let ?o = "unat (part_offset p) + a"
  have o: "?o \<le> flash_len" "n \<le> flash_len" using assms(1,2) by (auto simp: part_wf_def)
  have "m' (flash_cell (unat (part_offset q) + b + i)) = m (flash_cell (unat (part_offset q) + b + i))" if "i < k" for i
  proof (rule assms(3))
    have "unat (part_offset q) + b + i < flash_len" using that part_bounds(1)[OF q(1,2)] by linarith
    then show "\<not> in_range (flash_cell ?o) n (flash_cell (unat (part_offset q) + b + i))"
      using that q(2,3) assms(2) o by (subst in_range_cell) (auto simp: part_disjoint_def flash_len_def)
  qed
  then show "part_bytes m' q b k = part_bytes m q b k" by (auto simp: part_bytes_def flash_bytes_cell)
qed

lemma part_write_any:
  assumes "rom_frame r" "part_wf p" "a + n \<le> unat (part_len p)" "a mod 256 = 0 \<or> 256 - a mod 256 \<le> n"
    and "fal_partition_write r p (of_nat a) buf (of_nat n) m = Some (res, m')"
  shows "only_changes p m m'"
proof (rule only_changes_cells[OF assms(2,3)])
  fix x assume x: "\<not> in_range (flash_cell (unat (part_offset p) + a)) n x"
  note b = part_bounds[OF assms(2,3)]
  let ?c = "flash_cell (unat (part_offset p) + a)"
  have n: "unat (of_nat n :: u32) = n" using b(3) by (rule unat_of_nat_flash)
  have "unat ?c mod 256 = a mod 256" using b(1) part_offset_mod(1)[OF assms(2), of a] unat_flash_cell[of "unat (part_offset p) + a"]
    by (simp add: mod_add_eq[symmetric, of "0x1000000"])
  then have no: "no_overshoot ?c n 0" using assms(4) by (intro no_overshoot_0) simp
  have "mh_flash_write r ?c buf (of_nat n) m = Some (res, m')"
    using assms(5) b(4,5) by (simp add: fal_partition_write_def fal_flash_device_find_onchip[OF assms(2)] mh_onchip_flash_def
        fal_flash_write_def flash_cell_def del: of_nat_add)
  then have "m' = m \<or> (\<exists>res'. mh_flash_write_loop r ?c buf n 0 m = Some (res', m'))"
    by (auto simp: mh_flash_write_def n split: if_splits option.splits)
  then show "m' x = m x"
    using mh_flash_write_loop_frame[OF assms(1) _ _ no, of buf m _ m' x] x b(3) by (auto simp: flash_len_def)
qed

lemma part_erase_any:
  assumes "rom_frame r" "part_wf p" "n \<le> unat (part_len p)"
    and "fal_partition_erase r p 0 (of_nat n) m = (res, m')"
  shows "only_changes p m m'"
proof -
  have z: "0 + n \<le> unat (part_len p)" using assms(3) by simp
  note b = part_bounds[OF assms(2) z]
  let ?c = "flash_cell (unat (part_offset p) + 0)"
  have n: "unat (of_nat n :: u32) = n" using b(3) by (rule unat_of_nat_flash)
  have w: "within_flash ?c (unat (of_nat n :: u32))" unfolding n using b(1) by (rule within_flash_cell)
  have al: "unat ?c mod 4096 = 0"
    using b(1) part_offset_mod(2)[OF assms(2), of 0] unat_flash_cell[of "unat (part_offset p) + 0"]
    by (simp add: mod_add_eq[symmetric, of "0x1000000"])
  obtain l where l: "unat (part_len p) = 4096 * l" using assms(2) by (auto simp: part_wf_def)
  then have s: "0 + sectors n * 4096 \<le> unat (part_len p)" using sectors_le[of n l] assms(3) by (auto simp: mult.commute)
  have sn: "unat (RT_ALIGN (of_nat n) (of_nat MH_FLASH_GRANULARITY) div of_nat MH_FLASH_GRANULARITY :: u32) = sectors n"
    using sector_num_sectors[OF within_flash_check(3)[OF w]] unfolding n .
  have e: "mh_flash_erase r ?c (of_nat n) m = (res, m')"
    using assms(4) b(4,5) by (simp add: fal_partition_erase_def fal_flash_device_find_onchip[OF assms(2)] mh_onchip_flash_def
        fal_flash_erase_def flash_cell_def)
  then have m: "m' = m \<or> (\<exists>res'. mh_flash_erase_loop r (sectors n) ?c m = (res', m'))"
    using sn by (auto simp: mh_flash_erase_def Let_def RT_ALIGN_DOWN_aligned[OF al[unfolded add_0_right]] split: if_splits prod.splits)
  have "sectors n * 4096 \<le> 2 ^ 32" using s part_bounds(3)[OF assms(2), of 0] assms(2) by (auto simp: part_wf_def flash_len_def)
  then show ?thesis
    using m mh_flash_erase_loop_frame[OF assms(1) al] by (intro only_changes_cells[OF assms(2) s]) auto
qed

section \<open>The blocks of a file\<close>

text \<open>A write takes the bytes of its block, whatever lies behind them in the buffer.\<close>

lemma write_loop_take:
  "no_overshoot addr sz w \<Longrightarrow> sz \<le> length buf \<Longrightarrow> mh_flash_write_loop r addr buf sz w m = mh_flash_write_loop r addr (take sz buf) sz w m"
proof (induction "sz - w" arbitrary: w m rule: less_induct)
  case less
  show ?case
  proof (cases "w < sz")
    case True
    let ?n = "write_piece addr sz w"
    have n: "?n \<le> sz - w" "0 < ?n" using less.prems(1) True by (auto intro: write_piece_le write_piece_pos)
    have "w + ?n \<le> sz" using n(1) True by simp
    then have "caller_bytes (take sz buf) w ?n = caller_bytes buf w ?n"
      using less.prems(2) True by (simp add: caller_bytes_def buf_read_def drop_take min_absorb1)
    moreover have "mh_flash_write_loop r addr buf sz (w + ?n) m' = mh_flash_write_loop r addr (take sz buf) sz (w + ?n) m'" for m'
      using n True no_overshoot_step[OF True less.prems(1)] less.prems(2) by (intro less.hyps) auto
    ultimately show ?thesis
      by (subst mh_flash_write_loop.simps, subst (2) mh_flash_write_loop.simps) (simp add: Let_def cong: option.case_cong prod.case_cong if_cong)
  qed (simp add: mh_flash_write_loop_done)
qed

lemma part_write_take:
  assumes "part_wf p" "a + n \<le> unat (part_len p)" "a mod 256 = 0 \<or> 256 - a mod 256 \<le> n" "n \<le> length buf"
  shows "fal_partition_write r p (of_nat a) buf (of_nat n) m = fal_partition_write r p (of_nat a) (take n buf) (of_nat n) m"
proof -
  note b = part_bounds[OF assms(1,2)]
  let ?c = "flash_cell (unat (part_offset p) + a)"
  have n: "unat (of_nat n :: u32) = n" using b(3) by (rule unat_of_nat_flash)
  have "unat ?c mod 256 = a mod 256" using b(1) part_offset_mod(1)[OF assms(1), of a] unat_flash_cell[of "unat (part_offset p) + a"]
    by (simp add: mod_add_eq[symmetric, of "0x1000000"])
  then have no: "no_overshoot ?c n 0" using assms(3) by (intro no_overshoot_0) simp
  have "mh_flash_write r ?c buf (of_nat n) m = mh_flash_write r ?c (take n buf) (of_nat n) m"
    unfolding mh_flash_write_def n write_loop_take[OF no assms(4)] ..
  then show ?thesis
    using b(4,5) by (simp add: fal_partition_write_def fal_flash_device_find_onchip[OF assms(1)] mh_onchip_flash_def
        fal_flash_write_def flash_cell_def del: of_nat_add)
qed

lemma block_align: "block_ok b \<Longrightarrow> a mod 128 = 0 \<Longrightarrow> a mod 256 = 0 \<or> 256 - a mod 256 \<le> length b" for a :: nat
proof -
  assume b: "block_ok b" "a mod 128 = 0"
  obtain j where "a = 128 * j" using b(2) by auto
  then have "a mod 256 = 128 * (j mod 2)" using mult_mod_right[of 128 j 2] by simp
  then show ?thesis using b(1) by (cases "even j") (auto simp: block_ok_def even_iff_mod_2_eq_zero odd_iff_mod_2_eq_one)
qed

lemma block_mod: "block_ok b \<Longrightarrow> a mod 128 = 0 \<Longrightarrow> (a + length b) mod 128 = 0" for a :: nat
  by (auto simp: block_ok_def mod_add_eq[symmetric])

lemma block_pos: "block_ok b \<Longrightarrow> 0 < length b"
  by (auto simp: block_ok_def)

lemma on_data_accepts:
  assumes "rom_nor r" "part_wf p" "dl_part u = Some p" "update_file_cur_size u = of_nat a" "a mod 128 = 0" "block_ok b"
    and "a + length b \<le> unat (part_len p)" "part_bytes (ota_flash u) p a (length b) = replicate (length b) 0xFF"
  shows "\<exists>m'. accepts (ymodem_on_data r) b u (u\<lparr>ota_flash := m', update_file_cur_size := of_nat (a + length b)\<rparr>) \<and>
    part_bytes m' p a (length b) = b \<and> only_changes p (ota_flash u) m' \<and>
    (\<forall>c k. c + k \<le> unat (part_len p) \<longrightarrow> c + k \<le> a \<or> a + length b \<le> c \<longrightarrow> part_bytes m' p c k = part_bytes (ota_flash u) p c k)"
proof -
  note al = block_align[OF assms(6,5)]
  have al4: "a mod 4 = 0" using assms(5) by presburger
  note fr = rom_nor_frame[OF assms(1)]
  from part_write_nor[OF assms(1,2,7) al4 block_pos[OF assms(6)] al order_refl assms(8)] obtain m' where
    w: "fal_partition_write r p (of_nat a) b (of_nat (length b)) (ota_flash u) = Some (int (length b), m')" by blast
  have "accepts (ymodem_on_data r) b u (u\<lparr>ota_flash := m', update_file_cur_size := of_nat (a + length b)\<rparr>)"
    unfolding accepts_def
  proof (intro allI impI)
    fix buf assume buf: "length buf = RYM_STX_PKG_SZ - 3" "take (length b) buf = b"
    have "length b \<le> length buf" using arg_cong[OF buf(2), of length] by simp
    from part_write_take[OF assms(2,7) al this, of r "ota_flash u"] w buf(2)
    show "ymodem_on_data r buf (length b) u = Some (RYM_CODE_ACK, u\<lparr>ota_flash := m', update_file_cur_size := of_nat (a + length b)\<rparr>)"
      by (simp add: ymodem_on_data_def assms(3,4) Let_def)
  qed
  moreover have "part_bytes m' p a (length b) = b" using part_write_frame(1)[OF fr assms(2,7) al w] by simp
  moreover have "only_changes p (ota_flash u) m'" by (rule part_write_any[OF fr assms(2,7) al w])
  moreover have "part_bytes m' p c k = part_bytes (ota_flash u) p c k" if "c + k \<le> unat (part_len p)" "c + k \<le> a \<or> a + length b \<le> c" for c k
    using part_write_frame(2)[OF fr assms(2,7) al w _ assms(2) that(1)] that(2) by simp
  ultimately show ?thesis by blast
qed

lemma on_data_accepts_all:
  assumes "rom_nor r" "part_wf p" "dl_part u = Some p" "update_file_cur_size u = of_nat a" "a mod 128 = 0" "\<forall>b\<in>set ps. block_ok b"
    and "a + length (concat ps) \<le> e" "e \<le> unat (part_len p)" "part_bytes (ota_flash u) p a (e - a) = replicate (e - a) 0xFF"
  shows "\<exists>v. accepts_all (ymodem_on_data r) ps u v \<and> part_bytes (ota_flash v) p a (length (concat ps)) = concat ps \<and>
    only_changes p (ota_flash u) (ota_flash v) \<and>
    (\<forall>c k. c + k \<le> a \<longrightarrow> part_bytes (ota_flash v) p c k = part_bytes (ota_flash u) p c k)"
  using assms(3-7,9)
proof (induction ps arbitrary: u a)
  case Nil
  show ?case by (intro exI[of _ u]) (simp add: part_bytes_def flash_bytes_def)
next
  case (Cons b ps)
  have fit: "a + length b + length (concat ps) \<le> e" "a + length b \<le> unat (part_len p)" using Cons.prems(5) assms(8) by auto
  have ok: "block_ok b" "\<forall>b\<in>set ps. block_ok b" using Cons.prems(4) by auto
  have sp: "e - a = length b + (e - (a + length b))" using fit(1) by simp
  have ff: "part_bytes (ota_flash u) p a (length b) = replicate (length b) 0xFF"
    "part_bytes (ota_flash u) p (a + length b) (e - (a + length b)) = replicate (e - (a + length b)) 0xFF"
    using Cons.prems(6) unfolding sp part_bytes_append replicate_add by auto
  from on_data_accepts[OF assms(1,2) Cons.prems(1-3) ok(1) fit(2) ff(1)] obtain m' where
    m': "accepts (ymodem_on_data r) b u (u\<lparr>ota_flash := m', update_file_cur_size := of_nat (a + length b)\<rparr>)"
    "part_bytes m' p a (length b) = b" "only_changes p (ota_flash u) m'"
    "\<And>c k. c + k \<le> unat (part_len p) \<Longrightarrow> c + k \<le> a \<or> a + length b \<le> c \<Longrightarrow> part_bytes m' p c k = part_bytes (ota_flash u) p c k" by blast
  let ?u = "u\<lparr>ota_flash := m', update_file_cur_size := of_nat (a + length b)\<rparr>"
  have ff': "part_bytes (ota_flash ?u) p (a + length b) (e - (a + length b)) = replicate (e - (a + length b)) 0xFF"
    using m'(4)[of "a + length b" "e - (a + length b)"] ff(2) fit(1) assms(8) by simp
  from Cons.IH[of ?u "a + length b"] Cons.prems(1) block_mod[OF ok(1) Cons.prems(3)] ok(2) fit(1) ff' obtain v where
    v: "accepts_all (ymodem_on_data r) ps ?u v" "part_bytes (ota_flash v) p (a + length b) (length (concat ps)) = concat ps"
    "only_changes p m' (ota_flash v)" "\<And>c k. c + k \<le> a + length b \<Longrightarrow> part_bytes (ota_flash v) p c k = part_bytes m' p c k" by auto
  have "part_bytes (ota_flash v) p a (length (concat (b # ps))) = concat (b # ps)"
    using v(2) v(4)[of a "length b"] m'(2) by (simp add: part_bytes_append)
  moreover have "part_bytes (ota_flash v) p c k = part_bytes (ota_flash u) p c k" if "c + k \<le> a" for c k
    using v(4)[of c k] m'(4)[of c k] that fit(2) by simp
  ultimately show ?case using v(1) m'(1) only_changes_trans[OF m'(3) v(3)] by (intro exI[of _ v]) auto
qed

section \<open>The header of a file\<close>

fun dec_digits :: "nat \<Rightarrow> bytes" where
  "dec_digits n = (if n < 10 then [of_nat (48 + n)] else dec_digits (n div 10) @ [of_nat (48 + n mod 10)])"

declare dec_digits.simps [simp del]

definition is_digit :: "u8 \<Rightarrow> bool" where
  "is_digit c \<longleftrightarrow> 48 \<le> c \<and> c \<le> 57"

lemma digit_byte: "d < 10 \<Longrightarrow> is_digit (of_nat (48 + d)) \<and> uint (of_nat (48 + d) :: u8) - 48 = int d"
  by (auto simp: is_digit_def word_le_nat_alt unat_word_ariths unat_of_nat uint_nat)

lemma dec_digits_digit: "c \<in> set (dec_digits n) \<Longrightarrow> is_digit c"
proof (induction n rule: dec_digits.induct)
  case (1 n)
  then show ?case using digit_byte[of n] digit_byte[of "n mod 10"] by (subst (asm) dec_digits.simps) (auto split: if_splits)
qed

lemma atol_digits_append: "atol_digits a (dec_digits n @ xs) = atol_digits (a * 10 ^ length (dec_digits n) + int n) xs"
proof (induction n arbitrary: xs rule: dec_digits.induct)
  case (1 n)
  show ?case
  proof (cases "n < 10")
    case True
    then show ?thesis using digit_byte[OF True] by (simp add: dec_digits.simps[of n] is_digit_def)
  next
    case False
    let ?d = "of_nat (48 + n mod 10) :: u8"
    have d: "is_digit ?d" "uint ?d - 48 = int (n mod 10)" using digit_byte[of "n mod 10"] by simp_all
    have dn: "dec_digits n = dec_digits (n div 10) @ [?d]" using False by (simp add: dec_digits.simps[of n])
    have "atol_digits a (dec_digits n @ xs) = atol_digits (a * 10 ^ length (dec_digits (n div 10)) + int (n div 10)) (?d # xs)"
      unfolding dn using "1.IH"[OF False, of "?d # xs"] by simp
    also have "\<dots> = atol_digits ((a * 10 ^ length (dec_digits (n div 10)) + int (n div 10)) * 10 + int (n mod 10)) xs"
      using d by (simp add: is_digit_def)
    also have "(a * 10 ^ length (dec_digits (n div 10)) + int (n div 10)) * 10 + int (n mod 10) = a * 10 ^ length (dec_digits n) + int n"
      unfolding dn by (simp add: algebra_simps zmod_int zdiv_int)
    finally show ?thesis .
  qed
qed

lemma dec_digits_Cons: "\<exists>c cs. dec_digits n = c # cs \<and> is_digit c"
proof -
  have "dec_digits n \<noteq> []" by (subst dec_digits.simps) simp
  then obtain c cs where "dec_digits n = c # cs" by (cases "dec_digits n") auto
  with dec_digits_digit[of c n] show ?thesis by simp
qed

lemma digit_no_space: "is_digit c \<Longrightarrow> \<not> is_space c \<and> c \<noteq> 45 \<and> c \<noteq> 43"
  by (auto simp: is_digit_def is_space_def word_le_nat_alt)

lemma atol_dec: "n < 2 ^ 31 \<Longrightarrow> atol (dec_digits n @ 0 # xs) = Some (int n)"
proof -
  assume n: "n < 2 ^ 31"
  obtain c cs where c: "dec_digits n = c # cs" "is_digit c" using dec_digits_Cons by blast
  have "dropWhile is_space (dec_digits n @ 0 # xs) = dec_digits n @ 0 # xs" using c digit_no_space[OF c(2)] by simp
  moreover have "atol_digits 0 (dec_digits n @ 0 # xs) = Some (int n)" by (simp add: atol_digits_append)
  ultimately show ?thesis using c digit_no_space[OF c(2)] n by (simp add: atol_def)
qed

text \<open>The name of the file, its size in decimal, and zeros.\<close>

definition file_header :: "bytes \<Rightarrow> nat \<Rightarrow> nat \<Rightarrow> bytes" where
  "file_header name n k = name @ [0] @ dec_digits n @ replicate k 0"

lemma header_read:
  assumes "0 \<notin> set name" "n < 2 ^ 31" "0 < k" "take (length (file_header name n k)) buf = file_header name n k"
  shows "rt_strlen buf = Some (length name)" "atol (drop (length name + 1) buf) = Some (int n)"
proof -
  obtain k' where k: "k = Suc k'" using assms(3) by (cases k) auto
  obtain r where r: "buf = file_header name n k @ r" using assms(4) by (metis append_take_drop_id)
  have t: "takeWhile (\<lambda>c. c \<noteq> 0) (name @ 0 # ys) = name" for ys
    using assms(1) by (subst takeWhile_append2) auto
  show "rt_strlen buf = Some (length name)" using t by (simp add: r file_header_def rt_strlen_def c_str_def)
  show "atol (drop (length name + 1) buf) = Some (int n)" using atol_dec[OF assms(2)] by (simp add: r file_header_def k)
qed

lemma on_begin_accepts:
  assumes "rom_nor r" "part_wf p" "fal_partition_find f (recv_partition u) = Some p" "0 < n" "n \<le> unat (part_len p)"
    and "0 \<notin> set name" "0 < k"
  shows "\<exists>m'. accepts (ymodem_on_begin r f) (file_header name n k) u
      (u\<lparr>update_file_total_size := of_nat n, update_file_cur_size := 0, dl_part := Some p, ota_flash := m'\<rparr>) \<and>
    part_bytes m' p 0 (sectors n * 4096) = replicate (sectors n * 4096) 0xFF \<and> only_changes p (ota_flash u) m'"
proof -
  have n0: "0 + n \<le> unat (part_len p)" using assms(5) by simp
  note fr = rom_nor_frame[OF assms(1)]
  have small: "n < 2 ^ 31" "unat (of_nat n :: u32) = n" using assms(2,5) by (auto simp: part_wf_def flash_len_def unat_of_nat)
  from part_erase_nor[OF assms(1,2) n0 _ assms(4)] obtain m' where
    e: "fal_partition_erase r p (of_nat 0) (of_nat n) (ota_flash u) = (int n, m')" by force
  have "accepts (ymodem_on_begin r f) (file_header name n k) u
      (u\<lparr>update_file_total_size := of_nat n, update_file_cur_size := 0, dl_part := Some p, ota_flash := m'\<rparr>)"
    unfolding accepts_def
  proof (intro allI impI)
    fix buf assume "take (length (file_header name n k)) buf = file_header name n k"
    from header_read[OF assms(6) small(1) assms(7) this] e small(2) assms(3,5)
    show "ymodem_on_begin r f buf (length (file_header name n k)) u =
        Some (RYM_CODE_ACK, u\<lparr>update_file_total_size := of_nat n, update_file_cur_size := 0, dl_part := Some p, ota_flash := m'\<rparr>)"
      by (simp add: ymodem_on_begin_def word_less_nat_alt)
  qed
  moreover have "part_bytes m' p 0 (sectors n * 4096) = replicate (sectors n * 4096) 0xFF"
    using part_erase_sectors[OF fr assms(2) n0 _ e] by simp
  moreover have "only_changes p (ota_flash u) m'" using part_erase_any[OF fr assms(2,5)] e by simp
  ultimately show ?thesis by blast
qed

section \<open>From the sender to the new firmware\<close>

text \<open>What an image must be like to be installed: \<open>new_image\<close> without the flash that holds it.\<close>

definition installable :: "string \<Rightarrow> string \<Rightarrow> nat \<Rightarrow> bytes \<Rightarrow> bool" where
  "installable dv cv raw fw \<longleftrightarrow> length dv < 24 \<and> length cv < 24 \<and> c_str (char_array 24 dv) \<noteq> c_str (char_array 24 cv)
     \<and> 0 < raw \<and> raw \<le> 0x168000 \<and> length fw < 0x167000 \<and> sectors raw = sectors (length fw)"

definition packed :: "string \<Rightarrow> string \<Rightarrow> nat \<Rightarrow> bytes \<Rightarrow> bytes" where
  "packed dv cv raw fw = pack_head rt_fota_crc_init 0 ''app'' dv cv (of_nat raw) fw @ fw"

lemma new_image_packed: "installable dv cv raw fw \<Longrightarrow> holds_image m download_part (packed dv cv raw fw) \<Longrightarrow> new_image m dv cv raw fw"
  by (simp add: new_image_def installable_def packed_def)

lemma download_part_find: "fal_partition_find fal_ready DEFAULT_DOWNLOAD_PART = Some download_part"
  using ready_find(1) by (simp add: RT_FOTA_FM_PART_NAME_def DEFAULT_DOWNLOAD_PART_def)

text \<open>
  The blocks that the sender sends of a file: they hold the file, and what fills the last one stays within its last sector.
\<close>

definition blocks_of :: "bytes \<Rightarrow> bytes list \<Rightarrow> bool" where
  "blocks_of file ps \<longleftrightarrow> (\<exists>fill. concat ps = file @ fill) \<and> length (concat ps) \<le> sectors (length file) * 4096"

lemma ota_download:
  assumes "rom_nor r" "0 < length file" "length file \<le> unat (part_len download_part)" "0 \<notin> set name" "0 < k"
    and "map snd (rx s) = session (file_header name (length file) k) fs @ rest" "prompt (rx s)"
    and "send_ok (file_header name (length file) k) fs" "blocks_of file (map snd fs)"
    and "length (rbuf s) = RYM_STX_PKG_SZ" "unat (now s) + 3100 < 2 ^ 32"
  shows "\<exists>s'. ymodem_ota r fal_ready RT_EOK True [cmd] s = Some (Ota_Reset, s') \<and> tx s' = tx s @ answers (length fs) \<and>
    holds_image (ota_flash (user s')) download_part file \<and> only_changes download_part (ota_flash (user s)) (ota_flash (user s'))"
proof -
  let ?p = download_part and ?h = "file_header name (length file) k" and ?ps = "map snd fs"
  let ?s = "s\<lparr>user := (user s)\<lparr>recv_partition := DEFAULT_DOWNLOAD_PART\<rparr>\<rparr>"
  have find: "fal_partition_find fal_ready (recv_partition (user ?s)) = Some ?p" by (simp add: download_part_find)
  have wf: "part_wf ?p" by (rule demo_download(3))
  from on_begin_accepts[OF assms(1) wf find assms(2-5)] obtain m1 where m1:
    "accepts (ymodem_on_begin r fal_ready) ?h (user ?s)
      ((user ?s)\<lparr>update_file_total_size := of_nat (length file), update_file_cur_size := 0, dl_part := Some ?p, ota_flash := m1\<rparr>)"
    "part_bytes m1 ?p 0 (sectors (length file) * 4096) = replicate (sectors (length file) * 4096) 0xFF"
    "only_changes ?p (ota_flash (user s)) m1" by auto
  let ?u = "(user ?s)\<lparr>update_file_total_size := of_nat (length file), update_file_cur_size := 0, dl_part := Some ?p, ota_flash := m1\<rparr>"
  have e: "sectors (length file) * 4096 \<le> unat (part_len ?p)"
    using sectors_le[of "length file" 360] assms(3) demo_download(4) by simp
  have bl: "\<forall>b\<in>set ?ps. block_ok b" using assms(8) by (auto simp: send_ok_def)
  have u: "dl_part ?u = Some ?p" "update_file_cur_size ?u = of_nat 0" "(0 :: nat) mod 128 = 0"
    "0 + length (concat ?ps) \<le> sectors (length file) * 4096"
    "part_bytes (ota_flash ?u) ?p 0 (sectors (length file) * 4096 - 0) = replicate (sectors (length file) * 4096 - 0) 0xFF"
    using m1(2) assms(9) by (simp_all add: blocks_of_def)
  from on_data_accepts_all[OF assms(1) wf u(1-3) bl u(4) e u(5)] obtain v where v:
    "accepts_all (ymodem_on_data r) ?ps ?u v" "part_bytes (ota_flash v) ?p 0 (length (concat ?ps)) = concat ?ps"
    "only_changes ?p m1 (ota_flash v)" by auto
  have cb: "on_begin (ota_callbacks r fal_ready) = Some (ymodem_on_begin r fal_ready)" "on_data (ota_callbacks r fal_ready) = Some (ymodem_on_data r)"
    "on_end (ota_callbacks r fal_ready) = None" by (simp_all add: ota_callbacks_def)
  have st: "map snd (rx ?s) = session ?h fs @ rest" "prompt (rx ?s)" "length (rbuf ?s) = RYM_STX_PKG_SZ" "0 < RT_TICK_PER_SECOND"
    "unat (now ?s) + 3100 < 2 ^ 32" using assms by (simp_all add: RT_TICK_PER_SECOND_def)
  from recv_session[OF st(1,2) assms(8) st(3-5) cb m1(1) v(1)] obtain s' where s':
    "rym_recv_on_device (ota_callbacks r fal_ready) RT_EOK True RT_TICK_PER_SECOND ?s = Some (RT_EOK, s')" "user s' = v"
    "tx s' = tx s @ answers (length fs)" by auto
  have "ymodem_ota r fal_ready RT_EOK True [cmd] s = Some (Ota_Reset, rt_thread_mdelay_rx 200 s')"
    by (simp add: ymodem_ota_def ota_partition_arg_def s'(1))
  moreover have "holds_image (ota_flash v) ?p file"
  proof -
    obtain fill where f: "concat ?ps = file @ fill" using assms(9) by (auto simp: blocks_of_def)
    then have "part_bytes (ota_flash v) ?p 0 (length file) @ part_bytes (ota_flash v) ?p (length file) (length fill) = file @ fill"
      using v(2) part_bytes_append[of "ota_flash v" ?p 0 "length file" "length fill"] by simp
    then show ?thesis by (simp add: holds_image_def)
  qed
  moreover have "only_changes ?p (ota_flash (user s)) (ota_flash v)" using only_changes_trans[OF m1(3) v(3)] .
  ultimately show ?thesis using s'(2,3) by (intro exI[of _ "rt_thread_mdelay_rx 200 s'"]) (simp add: rt_thread_mdelay_rx_def)
qed

text \<open>
  C2: an update over the serial line, from the sender to the running firmware. When a sender transmits, without long pauses, an
  unencrypted, uncompressed packed image of another version with an acceptable vector table, the downloader answers every packet and
  ends with a reset, the image lies at the start of the download partition, no other partition has changed,
  and the boot loader that then starts on this flash installs the firmware of the image and runs it.
\<close>

theorem ymodem_ota_installs:
  assumes "rom_nor (env_rom e)" "\<forall>k. heap e k" "installable dv cv raw fw" "bootable fw" "img = packed dv cv raw fw"
    and "map snd (rx s) = session (file_header name (length img) k) fs @ rest" "prompt (rx s)"
    and "send_ok (file_header name (length img) k) fs" "blocks_of img (map snd fs)" "0 \<notin> set name" "0 < k"
    and "length (rbuf s) = RYM_STX_PKG_SZ" "unat (now s) + 3100 < 2 ^ 32"
  shows "\<exists>s' b. ymodem_ota (env_rom e) fal_ready RT_EOK True [cmd] s = Some (Ota_Reset, s') \<and> tx s' = tx s @ answers (length fs) \<and>
    holds_image (ota_flash (user s')) download_part img \<and> only_changes download_part (ota_flash (user s)) (ota_flash (user s')) \<and>
    rt_fota_thread_entry e (power_on (ota_flash (user s'))) = Running (get_le32 fw 0) (get_le32 fw 4) b \<and>
    part_bytes (flash_mem b) app_part 0 (length fw) = fw"
proof -
  have l: "length img = HEAD_SIZE + length fw" by (simp add: assms(5) packed_def pack_head_fields(1))
  have "0 < length img" "length img \<le> unat (part_len download_part)"
    using assms(3) demo_download(4) by (simp_all add: l HEAD_SIZE_def installable_def)
  from ota_download[OF assms(1) this assms(10,11,6-9,12,13)] obtain s' where s':
    "ymodem_ota (env_rom e) fal_ready RT_EOK True [cmd] s = Some (Ota_Reset, s')" "tx s' = tx s @ answers (length fs)"
    "holds_image (ota_flash (user s')) download_part img" "only_changes download_part (ota_flash (user s)) (ota_flash (user s'))" by blast
  have new: "new_image (ota_flash (user s')) dv cv raw fw" using new_image_packed[OF assms(3)] s'(3) assms(5) by simp
  from upgrade_boot[OF assms(1,2) new] obtain b where b: "rt_fota_thread_entry e (power_on (ota_flash (user s'))) = boot_entry e b"
    "fal b = fal_ready" "part_bytes (flash_mem b) app_part 0 (length fw) = fw" by blast
  then show ?thesis using s' start_application_bootable[OF b(2,3) assms(4)] by (auto simp: boot_entry_def)
qed

definition demo_img :: bytes where
  "demo_img = packed ''2.0'' ''1.0'' 8 demo_fw"

definition demo_ota_block :: bytes where
  "demo_ota_block = demo_img @ replicate 24 0x1A"

definition ota_line :: "bytes \<Rightarrow> ota rym" where
  "ota_line bs = \<lparr>rx = map (Pair 0) bs, tx = [], now = 0, rbuf = replicate RYM_STX_PKG_SZ 0, stage = RYM_STAGE_NONE,
     user = \<lparr>ota_flash = (\<lambda>_. 0), recv_partition = DEFAULT_DOWNLOAD_PART, update_file_total_size = 0, update_file_cur_size = 0, dl_part = None\<rparr>\<rparr>"

lemma ota_line_simps [simp]:
  "map snd (rx (ota_line bs)) = bs" "prompt (rx (ota_line bs))" "length (rbuf (ota_line bs)) = RYM_STX_PKG_SZ" "now (ota_line bs) = 0"
  "tx (ota_line bs) = []"
  by (simp_all add: ota_line_def prompt_def RT_TICK_PER_SECOND_def comp_def)

lemma length_demo_img: "length demo_img = 104"
  by (simp add: demo_img_def packed_def pack_head_fields(1) HEAD_SIZE_def demo_fw_words)

lemma demo_header: "length (file_header [102] 104 123) = 128"
  by (simp add: file_header_def dec_digits.simps)

lemma demo_installable: "installable ''2.0'' ''1.0'' 8 demo_fw"
  using demo_new(1) by (simp add: new_image_def installable_def)

theorem ymodem_ota_installs_witness:
  "\<exists>s' b. ymodem_ota nor_rom fal_ready RT_EOK True [bytes_of_string ''ymodem_ota''] (ota_line (session (file_header [102] 104 123) [(1, demo_ota_block)])) = Some (Ota_Reset, s') \<and>
    rt_fota_thread_entry demo_env (power_on (ota_flash (user s'))) = Running 0x20001000 0x01018101 b"
proof -
  let ?fs = "[(1, demo_ota_block)] :: (u8 \<times> bytes) list" and ?h = "file_header [102] (length demo_img) 123"
  have h: "send_ok ?h ?fs" "blocks_of demo_img (map snd ?fs)" "0 \<notin> set [102 :: u8]" "(0 :: nat) < 123"
    using demo_header by (simp_all add: send_ok_def block_ok_def demo_ota_block_def length_demo_img blocks_of_def sectors_def)
  have l: "map snd (rx (ota_line (session ?h ?fs))) = session ?h ?fs @ []" "unat (now (ota_line (session ?h ?fs))) + 3100 < 2 ^ 32" by simp_all
  from ymodem_ota_installs[OF demo_new(3,4) demo_installable demo_new(2) demo_img_def l(1) ota_line_simps(2) h(1,2,3,4) ota_line_simps(3) l(2), of "bytes_of_string ''ymodem_ota''"]
  show ?thesis unfolding demo_fw_words length_demo_img by (auto simp: demo_env_def)
qed

section \<open>Only the chosen partition\<close>

text \<open>The downloader writes to the partition \<open>p\<close> that is named \<open>name\<close>.\<close>

definition targets :: "bytes \<Rightarrow> fal_partition \<Rightarrow> ota \<Rightarrow> bool" where
  "targets name p u \<longleftrightarrow> recv_partition u = name \<and>
     (dl_part u = None \<or> dl_part u = Some p \<and>
       (\<exists>a. update_file_cur_size u = of_nat a \<and> a \<le> unat (part_len p) \<and> a mod 128 = 0))"

definition confined :: "bytes \<Rightarrow> fal_partition \<Rightarrow> bytes list \<Rightarrow> ota \<Rightarrow> ota \<Rightarrow> bool" where
  "confined name p ps u u' \<longleftrightarrow> (targets name p u \<longrightarrow> targets name p u' \<and> only_changes p (ota_flash u) (ota_flash u'))"

interpretation target: block_log "confined name p" for name p
  by unfold_locales (auto simp: confined_def intro: only_changes_trans)

lemma on_begin_confined:
  assumes "rom_frame r" "part_wf p" "fal_partition_find f name = Some p" "ymodem_on_begin r f buf n u = Some (c, u')"
  shows "confined name p [] u u'"
  unfolding confined_def
proof
  assume t: "targets name p u"
  then have n: "recv_partition u = name" by (simp add: targets_def)
  obtain k file_size where h: "rt_strlen buf = Some k" "atol (drop (k + 1) buf) = Some file_size"
    using assms(4) by (auto simp: ymodem_on_begin_def split: option.splits)
  define sz :: u32 where "sz = of_int file_size"
  have sz: "u' = u\<lparr>update_file_total_size := sz, update_file_cur_size := 0, dl_part := Some p\<rparr> \<or>
    (sz \<le> part_len p \<and> u' = u\<lparr>update_file_total_size := sz, update_file_cur_size := 0, dl_part := Some p,
       ota_flash := snd (fal_partition_erase r p 0 sz (ota_flash u))\<rparr>)"
    using assms(3,4) n h by (auto simp: ymodem_on_begin_def Let_def sz_def split: if_splits prod.splits)
  have "only_changes p (ota_flash u) (ota_flash u')"
  proof (cases "ota_flash u' = ota_flash u")
    case False
    then have "unat sz \<le> unat (part_len p)" "ota_flash u' = snd (fal_partition_erase r p 0 sz (ota_flash u))"
      using sz by (auto simp: word_le_nat_alt)
    then show ?thesis using part_erase_any[OF assms(1,2), of "unat sz" "ota_flash u"] by (cases "fal_partition_erase r p 0 sz (ota_flash u)") simp
  qed simp
  moreover have "targets name p u'" using sz n by (auto simp: targets_def intro!: exI[of _ 0])
  ultimately show "targets name p u' \<and> only_changes p (ota_flash u) (ota_flash u')" by simp
qed

lemma on_data_confined:
  assumes "rom_frame r" "part_wf p" "block_ok b" "ymodem_on_data r buf (length b) u = Some (c, u')"
  shows "confined name p [b] u u'"
  unfolding confined_def
proof
  assume t: "targets name p u"
  obtain res m where w: "fal_partition_write r p (update_file_cur_size u) buf (of_nat (length b)) (ota_flash u) = Some (res, m)"
    and d: "dl_part u = Some p" and u': "u' = u\<lparr>ota_flash := m\<rparr> \<or>
      (0 \<le> res \<and> u' = u\<lparr>ota_flash := m, update_file_cur_size := update_file_cur_size u + of_nat (length b)\<rparr>)"
    using assms(4) t by (auto simp: ymodem_on_data_def targets_def Let_def split: option.splits if_splits)
  obtain a where a: "update_file_cur_size u = of_nat a" "a \<le> unat (part_len p)" "a mod 128 = 0" using t d by (auto simp: targets_def)
  show "targets name p u' \<and> only_changes p (ota_flash u) (ota_flash u')"
  proof (cases "a + length b \<le> unat (part_len p)")
    case True
    have "only_changes p (ota_flash u) m" by (rule part_write_any[OF assms(1,2) True block_align[OF assms(3) a(3)] w[unfolded a(1)]])
    moreover have "targets name p u'" using u'
    proof
      assume "0 \<le> res \<and> u' = u\<lparr>ota_flash := m, update_file_cur_size := update_file_cur_size u + of_nat (length b)\<rparr>"
      then show ?thesis using t d True block_mod[OF assms(3) a(3)] a(1) by (auto simp: targets_def intro!: exI[of _ "a + length b"])
    qed (use t in \<open>simp add: targets_def\<close>)
    ultimately show ?thesis using u' by auto
  next
    case False
    have "unat (of_nat a + of_nat (length b) :: u32) = a + length b"
      using a(2) assms(2,3) by (auto simp: part_wf_def flash_len_def block_ok_def unat_word_ariths unat_of_nat)
    then have "of_nat a + of_nat (length b) > part_len p" using False by (simp add: word_less_nat_alt)
    then have "res = - 1 \<and> m = ota_flash u" using w by (simp add: a(1) fal_partition_write_def)
    then show ?thesis using u' t by (auto simp: targets_def)
  qed
qed

text \<open>
  C14: whatever comes over the line, whatever the flash routines return and however the download ends, it changes no partition
  but the one it is told to write: neither the boot loader nor the running application can be overwritten.
\<close>

theorem ymodem_ota_confined:
  assumes "rom_frame r" "ota_partition_arg argv = Some name" "fal_partition_find fal_ready name = Some p"
    and "ymodem_ota r fal_ready open_res malloc_ok argv s = Some (res, s')" "length (rbuf s) = RYM_STX_PKG_SZ" "dl_part (user s) = None"
    and "q \<in> set partition_table_def" "q \<noteq> p"
  shows "part_bytes (ota_flash (user s')) q 0 (unat (part_len q)) = part_bytes (ota_flash (user s)) q 0 (unat (part_len q))"
proof -
  have p: "p \<in> set partition_table_def" using fal_partition_find_mem[OF assms(3)] by simp
  note wf = partition_table_wf[OF p]
  let ?s = "s\<lparr>user := (user s)\<lparr>recv_partition := name\<rparr>\<rparr>"
  obtain err s1 where r: "rym_recv_on_device (ota_callbacks r fal_ready) open_res malloc_ok RT_TICK_PER_SECOND ?s = Some (err, s1)"
    "user s' = user s1"
    using assms(2,4) by (auto simp: ymodem_ota_def rt_thread_mdelay_rx_def split: option.splits if_splits)
  have "delivery (confined name p) (ota_callbacks r fal_ready)"
    using on_begin_confined[OF assms(1) wf assms(3)] on_data_confined[OF assms(1) wf]
    by (auto simp: delivery_def keeps_rel_def ota_callbacks_def)
  from target.recv_delivers[OF r(1) _ this] assms(5) obtain ps where "confined name p ps (user ?s) (user s1)" by (auto simp: delivers_def)
  moreover have "targets name p (user ?s)" using assms(6) by (simp add: targets_def)
  ultimately have "only_changes p (ota_flash (user s)) (ota_flash (user s'))" by (simp add: confined_def r(2))
  then show ?thesis
    using partition_table_disjoint[OF p assms(7)] assms(8) partition_table_wf[OF assms(7)] by (intro only_changesD) auto
qed

theorem ymodem_ota_confined_witness:
  "\<exists>s'. ymodem_ota nor_rom fal_ready RT_EOK True [bytes_of_string ''ymodem_ota''] (ota_line (session (file_header [102] 104 123) [(1, demo_ota_block)])) = Some (Ota_Reset, s') \<and>
    part_bytes (ota_flash (user s')) app_part 0 (unat (part_len app_part)) = replicate (unat (part_len app_part)) 0"
proof -
  let ?fs = "[(1, demo_ota_block)] :: (u8 \<times> bytes) list" and ?h = "file_header [102] (length demo_img) 123"
  let ?s = "ota_line (session ?h ?fs)"
  have h: "send_ok ?h ?fs" "blocks_of demo_img (map snd ?fs)" "0 \<notin> set [102 :: u8]" "(0 :: nat) < 123" "0 < length demo_img"
    "length demo_img \<le> unat (part_len download_part)"
    using demo_header demo_download(4) by (simp_all add: send_ok_def block_ok_def demo_ota_block_def length_demo_img blocks_of_def sectors_def)
  have l: "map snd (rx ?s) = session ?h ?fs @ []" "unat (now ?s) + 3100 < 2 ^ 32" by simp_all
  from ota_download[OF rom_nor_nor_rom h(5,6,3,4) l(1) ota_line_simps(2) h(1,2) ota_line_simps(3) l(2), of "bytes_of_string ''ymodem_ota''"] obtain s' where
    s': "ymodem_ota nor_rom fal_ready RT_EOK True [bytes_of_string ''ymodem_ota''] ?s = Some (Ota_Reset, s')" by blast
  have arg: "ota_partition_arg [bytes_of_string ''ymodem_ota''] = Some DEFAULT_DOWNLOAD_PART" by (simp add: ota_partition_arg_def)
  have q: "dl_part (user ?s) = None" "app_part \<in> set partition_table_def" "app_part \<noteq> download_part"
    using fal_partition_find_mem[OF ready_find(2)] app_download_parts(4) by (simp_all add: ota_line_def)
  from ymodem_ota_confined[OF rom_frame_nor_rom arg download_part_find s' ota_line_simps(3) q]
  have "part_bytes (ota_flash (user s')) app_part 0 (unat (part_len app_part)) = part_bytes (\<lambda>_. 0) app_part 0 (unat (part_len app_part))"
    by (simp add: ota_line_def)
  also have "\<dots> = replicate (unat (part_len app_part)) 0" by (simp add: part_bytes_def flash_bytes_def map_replicate_const)
  finally show ?thesis using s' unfolding length_demo_img by blast
qed

end
