(* ===== verification/Ymodem_Send.thy ===== *)
theory Ymodem_Send
  imports Ymodem_Props
begin

text \<open>
  The sender of \<^verbatim>\<open>rt-thread/components/utilities/ymodem/ymodem.c\<close>. Its callbacks fill the packet buffer and may
  change the stage, which is how the data callback says that it has given the last block. The sender waits for an answer
  without a timeout: the result \<open>None\<close> is an answer that never comes, or a callback that fails.
\<close>

section \<open>Operations\<close>

definition RYM_ERR_ACK :: int where "RYM_ERR_ACK = 0x76"

type_synonym 'u send_callback = "bytes \<Rightarrow> nat \<Rightarrow> rym_stage \<Rightarrow> 'u \<Rightarrow> (rym_code \<times> bytes \<times> rym_stage \<times> 'u) option"

record 'u send_callbacks =
  send_begin :: "'u send_callback option"
  send_data :: "'u send_callback option"
  send_end :: "'u send_callback option"

definition rym_send_call :: "'u send_callback option \<Rightarrow> nat \<Rightarrow> 'u rym \<Rightarrow> (rym_code \<times> 'u rym) option" where
  "rym_send_call cb len s =
     (case cb of None \<Rightarrow> Some (RYM_CODE_SOH, s)
      | Some f \<Rightarrow> map_option (\<lambda>(c, b, st, u). (c, s\<lparr>rbuf := take 3 (rbuf s) @ b, stage := st, user := u\<rparr>))
                    (f (drop 3 (rbuf s)) len (stage s) (user s)))"

definition rym_send_packet :: "rym_code \<Rightarrow> u8 \<Rightarrow> 'u rym \<Rightarrow> 'u rym" where
  "rym_send_packet code index s =
     (let send_crc = CRC16 (take (RYM_SOH_PKG_SZ - 5) (drop 3 (rbuf s)));
          b = (rbuf s)[0 := code, 1 := index, 2 := NOT index, 131 := ucast (drop_bit 8 send_crc), 132 := ucast send_crc]
      in s\<lparr>rbuf := b, tx := tx s @ take RYM_SOH_PKG_SZ b\<rparr>)"

definition rym_getchar :: "'u rym \<Rightarrow> (u8 \<times> 'u rym) option" where
  "rym_getchar s = (case rx s of [] \<Rightarrow> None | (d, b) # r \<Rightarrow> Some (b, s\<lparr>rx := r, now := now s + of_nat d\<rparr>))"

fun rym_wait_c :: "nat \<Rightarrow> 'u rym \<Rightarrow> bool \<times> 'u rym" where
  "rym_wait_c 0 s = (False, s)"
| "rym_wait_c (Suc n) s =
     (case rym_read_code RYM_CHD_INTV_TICK s of (code, s1) \<Rightarrow> if code = RYM_CODE_C then (True, s1) else rym_wait_c n s1)"

definition rym_do_send_handshake :: "'u send_callbacks \<Rightarrow> nat \<Rightarrow> 'u rym \<Rightarrow> (int \<times> 'u rym) option" where
  "rym_do_send_handshake cb tm_sec s0 =
     (case rym_wait_c tm_sec (s0\<lparr>stage := RYM_STAGE_ESTABLISHING\<rparr>) of
        (False, s) \<Rightarrow> Some (- RYM_ERR_TMO, s)
      | (True, s) \<Rightarrow>
          (case rym_send_call (send_begin cb) (RYM_SOH_PKG_SZ - 5) s of None \<Rightarrow> None
           | Some (code, s1) \<Rightarrow>
               if code \<noteq> RYM_CODE_SOH then Some (- RYM_ERR_CODE, s1)
               else (case rym_getchar (rym_send_packet RYM_CODE_SOH 0 s1) of None \<Rightarrow> None
                     | Some (getc_ack, s2) \<Rightarrow>
                         if getc_ack \<noteq> RYM_CODE_ACK then Some (- RYM_ERR_ACK, s2)
                         else (case rym_getchar s2 of None \<Rightarrow> None
                               | Some (getc_ack, s3) \<Rightarrow>
                                   if getc_ack \<noteq> RYM_CODE_C then Some (- RYM_ERR_ACK, s3)
                                   else Some (RT_EOK, s3\<lparr>stage := RYM_STAGE_ESTABLISHED\<rparr>)))))"

lemma send_call_rx: "rym_send_call f n s = Some (c, s1) \<Longrightarrow> rx s1 = rx s"
  by (auto simp: rym_send_call_def split: option.splits)

lemma send_packet_rx [simp]: "rx (rym_send_packet c i s) = rx s"
  by (simp add: rym_send_packet_def Let_def)

lemma getchar_length: "rym_getchar s = Some (c, s1) \<Longrightarrow> length (rx s1) < length (rx s)"
  by (auto simp: rym_getchar_def split: list.splits)

function rym_send_loop :: "'u send_callbacks \<Rightarrow> u32 \<Rightarrow> 'u rym \<Rightarrow> (int \<times> 'u rym) option" where
  "rym_send_loop cb index s =
     (case rym_send_call (send_data cb) (RYM_SOH_PKG_SZ - 5) s of None \<Rightarrow> None
      | Some (code, s1) \<Rightarrow>
          if code \<noteq> RYM_CODE_SOH then Some (- RYM_ERR_CODE, s1)
          else (case rym_getchar (rym_send_packet RYM_CODE_SOH (ucast index) s1) of None \<Rightarrow> None
                | Some (getc_ack, s2) \<Rightarrow>
                    if getc_ack \<noteq> RYM_CODE_ACK then Some (- RYM_ERR_ACK, s2)
                    else if stage s2 = RYM_STAGE_FINISHING then Some (RT_EOK, s2)
                    else rym_send_loop cb (index + 1) s2))"
  by pat_completeness auto
termination
  by (relation "measure (\<lambda>(cb, i, s). length (rx s))") (auto dest!: send_call_rx getchar_length)

declare rym_send_loop.simps [simp del]

definition rym_do_send_trans :: "'u send_callbacks \<Rightarrow> 'u rym \<Rightarrow> (int \<times> 'u rym) option" where
  "rym_do_send_trans cb s = rym_send_loop cb 1 (s\<lparr>stage := RYM_STAGE_TRANSMITTING\<rparr>)"

definition rym_do_send_fin :: "'u send_callbacks \<Rightarrow> 'u rym \<Rightarrow> (int \<times> 'u rym) option" where
  "rym_do_send_fin cb s =
     (case rym_getchar (rym_putchar RYM_CODE_EOT s) of None \<Rightarrow> None
      | Some (getc_ack, s1) \<Rightarrow>
          if getc_ack \<noteq> RYM_CODE_NAK then Some (- RYM_ERR_ACK, s1)
          else (case rym_getchar (rym_putchar RYM_CODE_EOT s1) of None \<Rightarrow> None
                | Some (getc_ack, s2) \<Rightarrow>
                    if getc_ack \<noteq> RYM_CODE_ACK then Some (- RYM_ERR_ACK, s2)
                    else (case rym_getchar s2 of None \<Rightarrow> None
                          | Some (getc_ack, s3) \<Rightarrow>
                              if getc_ack \<noteq> RYM_CODE_C then Some (- RYM_ERR_ACK, s3)
                              else (case rym_send_call (send_end cb) (RYM_SOH_PKG_SZ - 5) s3 of None \<Rightarrow> None
                                    | Some (code, s4) \<Rightarrow>
                                        if code \<noteq> RYM_CODE_SOH then Some (- RYM_ERR_CODE, s4)
                                        else Some (RT_EOK, (rym_send_packet RYM_CODE_SOH 0 s4)\<lparr>stage := RYM_STAGE_FINISHED\<rparr>)))))"

definition rym_do_send :: "'u send_callbacks \<Rightarrow> bool \<Rightarrow> nat \<Rightarrow> 'u rym \<Rightarrow> (int \<times> 'u rym) option" where
  "rym_do_send cb malloc_ok handshake_timeout s =
     (let s0 = s\<lparr>stage := RYM_STAGE_NONE\<rparr>
      in if \<not> malloc_ok then Some (- RT_ENOMEM, s0)
         else (case rym_do_send_handshake cb handshake_timeout s0 of None \<Rightarrow> None
               | Some (err, s1) \<Rightarrow>
                   if err \<noteq> RT_EOK then Some (err, s1)
                   else (case rym_do_send_trans cb s1 of None \<Rightarrow> None
                         | Some (err, s2) \<Rightarrow> if err \<noteq> RT_EOK then Some (err, s2) else rym_do_send_fin cb s2)))"

definition rym_send_on_device :: "'u send_callbacks \<Rightarrow> int \<Rightarrow> bool \<Rightarrow> nat \<Rightarrow> 'u rym \<Rightarrow> (int \<times> 'u rym) option" where
  "rym_send_on_device cb open_res malloc_ok handshake_timeout s =
     (if open_res \<noteq> RT_EOK then Some (open_res, s) else rym_do_send cb malloc_ok handshake_timeout s)"

section \<open>What the sender sends\<close>

text \<open>The callback fills the first 128 data bytes of the buffer.\<close>

definition offers :: "'u send_callback \<Rightarrow> bytes \<Rightarrow> rym_stage \<Rightarrow> rym_stage \<Rightarrow> 'u \<Rightarrow> 'u \<Rightarrow> bool" where
  "offers f p st st' u u' \<longleftrightarrow> length p = 128 \<and>
     (\<forall>buf. length buf = RYM_STX_PKG_SZ - 3 \<longrightarrow>
        (\<exists>b. f buf 128 st u = Some (RYM_CODE_SOH, b, st', u') \<and> length b = RYM_STX_PKG_SZ - 3 \<and> take 128 b = p))"

fun offers_all :: "'u send_callback \<Rightarrow> bytes list \<Rightarrow> 'u \<Rightarrow> 'u \<Rightarrow> bool" where
  "offers_all f [] u u' \<longleftrightarrow> False"
| "offers_all f [p] u u' \<longleftrightarrow> offers f p RYM_STAGE_TRANSMITTING RYM_STAGE_FINISHING u u'"
| "offers_all f (p # q # ps) u u' \<longleftrightarrow>
     (\<exists>u1. offers f p RYM_STAGE_TRANSMITTING RYM_STAGE_TRANSMITTING u u1 \<and> offers_all f (q # ps) u1 u')"

fun numbered :: "u32 \<Rightarrow> bytes list \<Rightarrow> (u8 \<times> bytes) list" where
  "numbered i [] = []"
| "numbered i (p # ps) = (ucast i, p) # numbered (i + 1) ps"

lemma map_snd_numbered [simp]: "map snd (numbered i ps) = ps"
  by (induction ps arbitrary: i) auto

lemma length_numbered [simp]: "length (numbered i ps) = length ps"
  by (induction ps arbitrary: i) auto

lemma set_numbered: "(q, p) \<in> set (numbered i ps) \<Longrightarrow> p \<in> set ps"
  by (induction ps arbitrary: i) auto

text \<open>A callback and the packet that follows it.\<close>

lemma send_frame:
  assumes "offers f p (stage s) st' (user s) u" "length (rbuf s) = RYM_STX_PKG_SZ"
  shows "\<exists>B B'. rym_send_call (Some f) (RYM_SOH_PKG_SZ - 5) s = Some (RYM_CODE_SOH, s\<lparr>rbuf := B, stage := st', user := u\<rparr>) \<and>
    rym_send_packet RYM_CODE_SOH q (s\<lparr>rbuf := B, stage := st', user := u\<rparr>) =
      s\<lparr>rbuf := B', stage := st', user := u, tx := tx s @ frame q p\<rparr> \<and> length B' = RYM_STX_PKG_SZ"
proof -
  have l: "length (drop 3 (rbuf s)) = RYM_STX_PKG_SZ - 3" using assms(2) by simp
  then obtain b where b: "f (drop 3 (rbuf s)) 128 (stage s) (user s) = Some (RYM_CODE_SOH, b, st', u)"
    "length b = RYM_STX_PKG_SZ - 3" "take 128 b = p" using assms(1) unfolding offers_def by blast
  have p: "length p = 128" using assms(1) by (simp add: offers_def)
  let ?B = "take 3 (rbuf s) @ b"
  obtain x y z where h: "take 3 (rbuf s) = [x, y, z]"
    using assms(2) by (cases "rbuf s"; cases "tl (rbuf s)"; cases "tl (tl (rbuf s))") (auto simp: RYM_STX_PKG_SZ_def numeral_3_eq_3)
  have bb: "b = p @ drop 128 b" using b(3) append_take_drop_id[of 128 b] by simp
  obtain c1 c2 r where r: "drop 128 b = c1 # c2 # r"
    using b(2) by (cases "drop 128 b"; cases "tl (drop 128 b)") (auto simp: RYM_STX_PKG_SZ_def dest: arg_cong[where f = length])
  have B: "?B = x # y # z # p @ c1 # c2 # r" using h bb r by simp
  have crc: "take (RYM_SOH_PKG_SZ - 5) (drop 3 ?B) = p" unfolding B using p by (simp add: RYM_SOH_PKG_SZ_def numeral_3_eq_3)
  let ?c = "CRC16 p"
  let ?B' = "RYM_CODE_SOH # q # NOT q # p @ ucast (drop_bit 8 ?c) # ucast ?c # r"
  have n: "(132 :: nat) = Suc (Suc (Suc (length p + 1)))" "(131 :: nat) = Suc (Suc (Suc (length p)))" using p by simp_all
  have upd: "?B[0 := RYM_CODE_SOH, 1 := q, 2 := NOT q, 131 := ucast (drop_bit 8 ?c), 132 := ucast ?c] = ?B'"
    unfolding B n by (simp add: list_update_append numeral_2_eq_2)
  have tk: "take RYM_SOH_PKG_SZ ?B' = frame q p" using p by (simp add: RYM_SOH_PKG_SZ_def frame_def packet_def crc_bytes_def code_of_def)
  have "length ?B = RYM_STX_PKG_SZ" using assms(2) b(2) by (simp add: RYM_STX_PKG_SZ_def)
  then have l': "length ?B' = RYM_STX_PKG_SZ" unfolding B by simp
  have call: "rym_send_call (Some f) (RYM_SOH_PKG_SZ - 5) s = Some (RYM_CODE_SOH, s\<lparr>rbuf := ?B, stage := st', user := u\<rparr>)"
    using b(1) by (simp add: rym_send_call_def RYM_SOH_PKG_SZ_def)
  have "rym_send_packet RYM_CODE_SOH q (s\<lparr>rbuf := ?B, stage := st', user := u\<rparr>) = s\<lparr>rbuf := ?B', stage := st', user := u, tx := tx s @ frame q p\<rparr>"
  proof -
    have sel: "rbuf (s\<lparr>rbuf := ?B, stage := st', user := u\<rparr>) = ?B" "tx (s\<lparr>rbuf := ?B, stage := st', user := u\<rparr>) = tx s" by simp_all
    show ?thesis unfolding rym_send_packet_def Let_def sel crc upd tk by simp
  qed
  then show ?thesis using call l' by blast
qed

lemma getchar_line:
  assumes "map snd (rx s) = c # bs"
  shows "\<exists>r n. rym_getchar s = Some (c, s\<lparr>rx := r, now := n\<rparr>) \<and> map snd r = bs"
proof -
  obtain d r where "rx s = (d, c) # r" "map snd r = bs" using assms by (cases "rx s") auto
  then show ?thesis by (intro exI[of _ r] exI[of _ "now s + of_nat d"]) (simp add: rym_getchar_def)
qed

lemma send_loop_frames:
  assumes "map snd (rx s) = replicate (length ps) RYM_CODE_ACK @ cs" "stage s = RYM_STAGE_TRANSMITTING" "length (rbuf s) = RYM_STX_PKG_SZ"
    and "send_data cb = Some f" "offers_all f ps (user s) u"
  shows "\<exists>r n B. rym_send_loop cb i s = Some (RT_EOK,
      s\<lparr>rx := r, tx := tx s @ data_frames (numbered i ps), now := n, rbuf := B, stage := RYM_STAGE_FINISHING, user := u\<rparr>) \<and>
    map snd r = cs \<and> length B = RYM_STX_PKG_SZ"
  using assms(1-3,5)
proof (induction ps arbitrary: s i)
  case (Cons p ps)
  define st where "st = (if ps = [] then RYM_STAGE_FINISHING else RYM_STAGE_TRANSMITTING)"
  obtain u1 where u1: "offers f p (stage s) st (user s) u1" "ps = [] \<Longrightarrow> u1 = u" "ps \<noteq> [] \<Longrightarrow> offers_all f ps u1 u"
    using Cons.prems(2,4) by (cases ps) (auto simp: st_def)
  from send_frame[OF u1(1) Cons.prems(3), of "ucast i"] obtain B B' where F:
    "rym_send_call (Some f) (RYM_SOH_PKG_SZ - 5) s = Some (RYM_CODE_SOH, s\<lparr>rbuf := B, stage := st, user := u1\<rparr>)"
    "rym_send_packet RYM_CODE_SOH (ucast i) (s\<lparr>rbuf := B, stage := st, user := u1\<rparr>) =
      s\<lparr>rbuf := B', stage := st, user := u1, tx := tx s @ frame (ucast i) p\<rparr>" "length B' = RYM_STX_PKG_SZ" by (elim exE conjE) (rule that; assumption)
  let ?s = "s\<lparr>rbuf := B', stage := st, user := u1, tx := tx s @ frame (ucast i) p\<rparr>"
  have "map snd (rx ?s) = RYM_CODE_ACK # replicate (length ps) RYM_CODE_ACK @ cs" using Cons.prems(1) by simp
  from getchar_line[OF this] obtain r n where g: "rym_getchar ?s = Some (RYM_CODE_ACK, ?s\<lparr>rx := r, now := n\<rparr>)"
    "map snd r = replicate (length ps) RYM_CODE_ACK @ cs" by (elim exE conjE) (rule that; assumption)
  have step: "rym_send_loop cb i s = (if st = RYM_STAGE_FINISHING then Some (RT_EOK, ?s\<lparr>rx := r, now := n\<rparr>)
      else rym_send_loop cb (i + 1) (?s\<lparr>rx := r, now := n\<rparr>))"
    unfolding rym_send_loop.simps[of cb i s] assms(4) F(1) option.case prod.case F(2) g(1) by simp
  show ?case
  proof (cases "ps = []")
    case True
    then show ?thesis using step u1(2) g(2) F(3)
      by (intro exI[of _ r] exI[of _ n] exI[of _ B']) (simp add: st_def data_frames_def)
  next
    case False
    from Cons.IH[of "?s\<lparr>rx := r, now := n\<rparr>" "i + 1"] g(2) F(3) u1(3)[OF False] obtain r2 n2 B2 where
      "rym_send_loop cb (i + 1) (?s\<lparr>rx := r, now := n\<rparr>) = Some (RT_EOK, ?s\<lparr>rx := r2, tx := tx ?s @ data_frames (numbered (i + 1) ps),
        now := n2, rbuf := B2, stage := RYM_STAGE_FINISHING, user := u\<rparr>)" "map snd r2 = cs" "length B2 = RYM_STX_PKG_SZ"
      using False by (auto simp: st_def)
    then show ?thesis using step False
      by (intro exI[of _ r2] exI[of _ n2] exI[of _ B2]) (simp add: st_def data_frames_def)
  qed
qed simp

lemma send_handshake_line:
  assumes "map snd (rx s) = RYM_CODE_C # RYM_CODE_ACK # RYM_CODE_C # cs" "fst (hd (rx s)) < 3 * RT_TICK_PER_SECOND" "0 < tm"
    and "length (rbuf s) = RYM_STX_PKG_SZ" "send_begin cb = Some f" "offers f hdr RYM_STAGE_ESTABLISHING st (user s) u"
  shows "\<exists>r n B. rym_do_send_handshake cb tm s = Some (RT_EOK,
      s\<lparr>rx := r, tx := tx s @ frame 0 hdr, now := n, rbuf := B, stage := RYM_STAGE_ESTABLISHED, user := u\<rparr>) \<and>
    map snd r = cs \<and> length B = RYM_STX_PKG_SZ"
proof -
  obtain d r where r: "rx s = (d, RYM_CODE_C) # r" "map snd r = RYM_CODE_ACK # RYM_CODE_C # cs" using assms(1) by (cases "rx s") auto
  obtain k where k: "tm = Suc k" using assms(3) by (cases tm) auto
  let ?s0 = "s\<lparr>stage := RYM_STAGE_ESTABLISHING\<rparr>"
  let ?s1 = "s\<lparr>rx := r, now := now s + of_nat d, rbuf := (rbuf s)[0 := RYM_CODE_C], stage := RYM_STAGE_ESTABLISHING\<rparr>"
  have w: "rym_wait_c tm ?s0 = (True, ?s1)"
    using r(1) assms(2) by (simp add: k rym_read_code_def rx_wait_def RYM_CHD_INTV_TICK_def mult.commute)
  have o: "offers f hdr (stage ?s1) st (user ?s1) u" "length (rbuf ?s1) = RYM_STX_PKG_SZ" using assms(4,6) by simp_all
  from send_frame[OF o, of 0] obtain B B' where F:
    "rym_send_call (Some f) (RYM_SOH_PKG_SZ - 5) ?s1 = Some (RYM_CODE_SOH, ?s1\<lparr>rbuf := B, stage := st, user := u\<rparr>)"
    "rym_send_packet RYM_CODE_SOH 0 (?s1\<lparr>rbuf := B, stage := st, user := u\<rparr>) =
      ?s1\<lparr>rbuf := B', stage := st, user := u, tx := tx ?s1 @ frame 0 hdr\<rparr>" "length B' = RYM_STX_PKG_SZ" by (elim exE conjE) (rule that; assumption)
  let ?s2 = "?s1\<lparr>rbuf := B', stage := st, user := u, tx := tx ?s1 @ frame 0 hdr\<rparr>"
  have "map snd (rx ?s2) = RYM_CODE_ACK # RYM_CODE_C # cs" using r(2) by simp
  from getchar_line[OF this] obtain r1 n1 where g1: "rym_getchar ?s2 = Some (RYM_CODE_ACK, ?s2\<lparr>rx := r1, now := n1\<rparr>)"
    "map snd r1 = RYM_CODE_C # cs" by (elim exE conjE) (rule that; assumption)
  have "map snd (rx (?s2\<lparr>rx := r1, now := n1\<rparr>)) = RYM_CODE_C # cs" using g1(2) by simp
  from getchar_line[OF this] obtain r2 n2 where g2: "rym_getchar (?s2\<lparr>rx := r1, now := n1\<rparr>) = Some (RYM_CODE_C, ?s2\<lparr>rx := r1, now := n1, rx := r2, now := n2\<rparr>)"
    "map snd r2 = cs" by (elim exE conjE) (rule that; assumption)
  show ?thesis
    unfolding rym_do_send_handshake_def w prod.case bool.case assms(5) F(1) option.case F(2) g1(1) g2(1)
    using g2(2) F(3) by (intro exI[of _ r2] exI[of _ n2] exI[of _ B']) simp
qed

lemma send_fin_line:
  assumes "map snd (rx s) = RYM_CODE_NAK # RYM_CODE_ACK # RYM_CODE_C # cs" "length (rbuf s) = RYM_STX_PKG_SZ"
    and "send_end cb = Some f" "offers f (replicate 128 0) (stage s) st (user s) u"
  shows "\<exists>r n B. rym_do_send_fin cb s = Some (RT_EOK,
      s\<lparr>rx := r, tx := tx s @ [RYM_CODE_EOT, RYM_CODE_EOT] @ frame 0 (replicate 128 0), now := n, rbuf := B, stage := RYM_STAGE_FINISHED, user := u\<rparr>) \<and>
    map snd r = cs"
proof -
  let ?s0 = "s\<lparr>tx := tx s @ [RYM_CODE_EOT]\<rparr>"
  have p0: "rym_putchar RYM_CODE_EOT s = ?s0" by (simp add: rym_putchar_def)
  have "map snd (rx ?s0) = RYM_CODE_NAK # RYM_CODE_ACK # RYM_CODE_C # cs" using assms(1) by simp
  from getchar_line[OF this] obtain r1 n1 where g1: "rym_getchar ?s0 = Some (RYM_CODE_NAK, ?s0\<lparr>rx := r1, now := n1\<rparr>)"
    "map snd r1 = RYM_CODE_ACK # RYM_CODE_C # cs" by (elim exE conjE) (rule that; assumption)
  let ?s1 = "s\<lparr>rx := r1, tx := tx s @ [RYM_CODE_EOT, RYM_CODE_EOT], now := n1\<rparr>"
  have p1: "rym_putchar RYM_CODE_EOT (?s0\<lparr>rx := r1, now := n1\<rparr>) = ?s1" by (simp add: rym_putchar_def)
  have "map snd (rx ?s1) = RYM_CODE_ACK # RYM_CODE_C # cs" using g1(2) by simp
  from getchar_line[OF this] obtain r2 n2 where g2: "rym_getchar ?s1 = Some (RYM_CODE_ACK, ?s1\<lparr>rx := r2, now := n2\<rparr>)"
    "map snd r2 = RYM_CODE_C # cs" by (elim exE conjE) (rule that; assumption)
  have "map snd (rx (?s1\<lparr>rx := r2, now := n2\<rparr>)) = RYM_CODE_C # cs" using g2(2) by simp
  from getchar_line[OF this] obtain r3 n3 where g3: "rym_getchar (?s1\<lparr>rx := r2, now := n2\<rparr>) = Some (RYM_CODE_C, ?s1\<lparr>rx := r2, now := n2, rx := r3, now := n3\<rparr>)"
    "map snd r3 = cs" by (elim exE conjE) (rule that; assumption)
  let ?s3 = "?s1\<lparr>rx := r2, now := n2, rx := r3, now := n3\<rparr>"
  have o: "offers f (replicate 128 0) (stage ?s3) st (user ?s3) u" "length (rbuf ?s3) = RYM_STX_PKG_SZ" using assms(2,4) by simp_all
  from send_frame[OF o, of 0] obtain B B' where F:
    "rym_send_call (Some f) (RYM_SOH_PKG_SZ - 5) ?s3 = Some (RYM_CODE_SOH, ?s3\<lparr>rbuf := B, stage := st, user := u\<rparr>)"
    "rym_send_packet RYM_CODE_SOH 0 (?s3\<lparr>rbuf := B, stage := st, user := u\<rparr>) =
      ?s3\<lparr>rbuf := B', stage := st, user := u, tx := tx ?s3 @ frame 0 (replicate 128 0)\<rparr>" "length B' = RYM_STX_PKG_SZ" by (elim exE conjE) (rule that; assumption)
  have neq: "(RYM_CODE_NAK \<noteq> RYM_CODE_NAK) = False" "(RYM_CODE_ACK \<noteq> RYM_CODE_ACK) = False" "(RYM_CODE_C \<noteq> RYM_CODE_C) = False"
    "(RYM_CODE_SOH \<noteq> RYM_CODE_SOH) = False" by simp_all
  have "rym_do_send_fin cb s = Some (RT_EOK, (?s3\<lparr>rbuf := B', stage := st, user := u, tx := tx ?s3 @ frame 0 (replicate 128 0)\<rparr>)\<lparr>stage := RYM_STAGE_FINISHED\<rparr>)"
    unfolding rym_do_send_fin_def p0 g1(1) option.case prod.case neq if_False p1 g2(1) g3(1) assms(3) F(1) F(2) ..
  then show ?thesis using g3(2) by (intro exI[of _ r3] exI[of _ n3] exI[of _ B']) simp
qed

section \<open>Sender and receiver\<close>

text \<open>What the callbacks of a sender give: the packet with the name, the data and an empty packet.\<close>

definition sends :: "'u send_callbacks \<Rightarrow> bytes \<Rightarrow> bytes list \<Rightarrow> 'u \<Rightarrow> bool" where
  "sends cb hdr ps u \<longleftrightarrow> (\<exists>f g h u1 u2 u3 st st'. send_begin cb = Some f \<and> send_data cb = Some g \<and> send_end cb = Some h \<and>
     offers f hdr RYM_STAGE_ESTABLISHING st u u1 \<and> offers_all g ps u1 u2 \<and> offers h (replicate 128 0) RYM_STAGE_FINISHING st' u2 u3)"

lemma send_session:
  assumes "map snd (rx s) = answers (length ps)" "fst (hd (rx s)) < 3 * RT_TICK_PER_SECOND" "0 < tm" "length (rbuf s) = RYM_STX_PKG_SZ"
    and "sends cb hdr ps (user s)"
  shows "\<exists>s'. rym_send_on_device cb RT_EOK True tm s = Some (RT_EOK, s') \<and> tx s' = tx s @ session hdr (numbered 1 ps) \<and>
    map snd (rx s') = [RYM_CODE_ACK] \<and> stage s' = RYM_STAGE_FINISHED"
proof -
  obtain f g h u1 u2 u3 st st' where cb: "send_begin cb = Some f" "send_data cb = Some g" "send_end cb = Some h"
    and o: "offers f hdr RYM_STAGE_ESTABLISHING st (user s) u1" "offers_all g ps u1 u2" "offers h (replicate 128 0) RYM_STAGE_FINISHING st' u2 u3"
    using assms(5) unfolding sends_def by blast
  let ?s0 = "s\<lparr>stage := RYM_STAGE_NONE\<rparr>"
  let ?e = "[RYM_CODE_NAK, RYM_CODE_ACK, RYM_CODE_C, RYM_CODE_ACK]"
  have l0: "map snd (rx ?s0) = RYM_CODE_C # RYM_CODE_ACK # RYM_CODE_C # replicate (length ps) RYM_CODE_ACK @ ?e" "fst (hd (rx ?s0)) < 3 * RT_TICK_PER_SECOND"
    "length (rbuf ?s0) = RYM_STX_PKG_SZ" "offers f hdr RYM_STAGE_ESTABLISHING st (user ?s0) u1" using assms o(1) by (simp_all add: answers_def)
  from send_handshake_line[OF l0(1,2) assms(3) l0(3) cb(1) l0(4)] obtain r n B where h: "rym_do_send_handshake cb tm ?s0 = Some (RT_EOK,
      ?s0\<lparr>rx := r, tx := tx ?s0 @ frame 0 hdr, now := n, rbuf := B, stage := RYM_STAGE_ESTABLISHED, user := u1\<rparr>)"
    "map snd r = replicate (length ps) RYM_CODE_ACK @ ?e" "length B = RYM_STX_PKG_SZ" by (elim exE conjE) (rule that; assumption)
  let ?s1 = "?s0\<lparr>rx := r, tx := tx ?s0 @ frame 0 hdr, now := n, rbuf := B, stage := RYM_STAGE_ESTABLISHED, user := u1\<rparr>"
  let ?t1 = "?s1\<lparr>stage := RYM_STAGE_TRANSMITTING\<rparr>"
  have l1: "map snd (rx ?t1) = replicate (length ps) RYM_CODE_ACK @ ?e" "stage ?t1 = RYM_STAGE_TRANSMITTING" "length (rbuf ?t1) = RYM_STX_PKG_SZ"
    "offers_all g ps (user ?t1) u2" using h(2,3) o(2) by simp_all
  from send_loop_frames[OF l1(1-3) cb(2) l1(4), of 1] obtain r2 n2 B2 where d: "rym_send_loop cb 1 ?t1 = Some (RT_EOK,
      ?t1\<lparr>rx := r2, tx := tx ?t1 @ data_frames (numbered 1 ps), now := n2, rbuf := B2, stage := RYM_STAGE_FINISHING, user := u2\<rparr>)"
    "map snd r2 = ?e" "length B2 = RYM_STX_PKG_SZ" by (elim exE conjE) (rule that; assumption)
  let ?s2 = "?t1\<lparr>rx := r2, tx := tx ?t1 @ data_frames (numbered 1 ps), now := n2, rbuf := B2, stage := RYM_STAGE_FINISHING, user := u2\<rparr>"
  have l2: "map snd (rx ?s2) = RYM_CODE_NAK # RYM_CODE_ACK # RYM_CODE_C # [RYM_CODE_ACK]" "length (rbuf ?s2) = RYM_STX_PKG_SZ"
    "offers h (replicate 128 0) (stage ?s2) st' (user ?s2) u3" using d(2,3) o(3) by simp_all
  from send_fin_line[OF l2(1,2) cb(3) l2(3)] obtain r3 n3 B3 where e: "rym_do_send_fin cb ?s2 = Some (RT_EOK,
      ?s2\<lparr>rx := r3, tx := tx ?s2 @ [RYM_CODE_EOT, RYM_CODE_EOT] @ frame 0 (replicate 128 0), now := n3, rbuf := B3, stage := RYM_STAGE_FINISHED, user := u3\<rparr>)"
    "map snd r3 = [RYM_CODE_ACK]" by (elim exE conjE) (rule that; assumption)
  let ?s3 = "?s2\<lparr>rx := r3, tx := tx ?s2 @ [RYM_CODE_EOT, RYM_CODE_EOT] @ frame 0 (replicate 128 0), now := n3, rbuf := B3, stage := RYM_STAGE_FINISHED, user := u3\<rparr>"
  have neq: "(RT_EOK \<noteq> RT_EOK) = False" "(\<not> True) = False" by simp_all
  have "rym_send_on_device cb RT_EOK True tm s = Some (RT_EOK, ?s3)"
    unfolding rym_send_on_device_def rym_do_send_def rym_do_send_trans_def Let_def neq if_False h(1) option.case prod.case d(1) e(1) ..
  then show ?thesis using e(2) by (intro exI[of _ ?s3]) (simp add: session_def)
qed

lemma offers_all_size: "offers_all f ps u u' \<Longrightarrow> p \<in> set ps \<Longrightarrow> length p = 128"
  by (induction f ps u u' rule: offers_all.induct) (auto simp: offers_def)

lemma offers_all_cons: "offers_all f ps u u' \<Longrightarrow> ps \<noteq> []"
  by (cases ps) auto

lemma sends_ok: "sends cb hdr ps u \<Longrightarrow> send_ok hdr (numbered 1 ps)"
  unfolding sends_def send_ok_def
  by (auto simp: block_ok_def offers_def dest: offers_all_size set_numbered; cases ps; auto)

text \<open>
  C16: sender and receiver fit together. On the answers of a receiver the sender sends a whole transmission, and a receiver that
  gets what it sent, without long pauses, takes every block in order and gives exactly these answers. The number of the
  packet is a byte and wraps around; that does not matter.
\<close>

theorem rym_send_recv:
  assumes "map snd (rx s) = answers (length ps)" "fst (hd (rx s)) < 3 * RT_TICK_PER_SECOND" "0 < tm" "length (rbuf s) = RYM_STX_PKG_SZ"
    and "sends scb hdr ps (user s)" "tx s = []"
    and "length (rbuf r) = RYM_STX_PKG_SZ" "prompt (rx r)" "unat (now r) + 3100 < 2 ^ 32" "0 < tm'" "tx r = []"
    and "on_begin cb = Some f" "on_data cb = Some g" "on_end cb = None" "accepts f hdr (user r) u" "accepts_all g ps u v"
  shows "\<exists>s'. rym_send_on_device scb RT_EOK True tm s = Some (RT_EOK, s') \<and>
    (map snd (rx r) = tx s' \<longrightarrow>
      (\<exists>r'. rym_recv_on_device cb RT_EOK True tm' r = Some (RT_EOK, r') \<and> user r' = v \<and> tx r' = map snd (rx s)))"
proof -
  from send_session[OF assms(1-5)] obtain s' where s': "rym_send_on_device scb RT_EOK True tm s = Some (RT_EOK, s')"
    "tx s' = session hdr (numbered 1 ps)" using assms(6) by auto
  moreover have "\<exists>r'. rym_recv_on_device cb RT_EOK True tm' r = Some (RT_EOK, r') \<and> user r' = v \<and> tx r' = map snd (rx s)"
    if "map snd (rx r) = tx s'"
  proof -
    have l: "map snd (rx r) = session hdr (numbered 1 ps) @ []" using that s'(2) by simp
    have "accepts_all g (map snd (numbered 1 ps)) u v" using assms(16) by simp
    from recv_session[OF l assms(8) sends_ok[OF assms(5)] assms(7) assms(10) assms(9) assms(12-15) this] show ?thesis
      using assms(1,11) by auto
  qed
  ultimately show ?thesis by blast
qed

definition feed :: "bytes list send_callback" where
  "feed buf n st u = (case u of [] \<Rightarrow> None
     | p # ps \<Rightarrow> Some (RYM_CODE_SOH, p @ drop 128 buf, if ps = [] then RYM_STAGE_FINISHING else st, ps))"

definition fill_with :: "bytes \<Rightarrow> bytes list send_callback" where
  "fill_with p buf n st u = Some (RYM_CODE_SOH, p @ drop 128 buf, st, u)"

definition feed_cb :: "bytes list send_callbacks" where
  "feed_cb = \<lparr>send_begin = Some (fill_with (replicate 128 65)), send_data = Some feed, send_end = Some (fill_with (replicate 128 0))\<rparr>"

lemma fill_with_offers: "length p = 128 \<Longrightarrow> offers (fill_with p) p st st u u"
  by (simp add: offers_def fill_with_def RYM_STX_PKG_SZ_def)

lemma feed_offers: "length p = 128 \<Longrightarrow> st' = (if ps = [] then RYM_STAGE_FINISHING else st) \<Longrightarrow> offers feed p st st' (p # ps) ps"
  by (simp add: offers_def feed_def RYM_STX_PKG_SZ_def)

lemma feed_offers_all: "ps \<noteq> [] \<Longrightarrow> \<forall>p\<in>set ps. length p = 128 \<Longrightarrow> offers_all feed ps ps []"
proof (induction ps)
  case (Cons p ps)
  then show ?case by (cases ps) (auto intro!: feed_offers exI[of _ ps])
qed simp

lemma feed_sends: "ps \<noteq> [] \<Longrightarrow> \<forall>p\<in>set ps. length p = 128 \<Longrightarrow> sends feed_cb (replicate 128 65) ps ps"
  unfolding sends_def feed_cb_def using feed_offers_all[of ps] fill_with_offers
  by (intro exI[of _ "fill_with (replicate 128 65)"] exI[of _ feed] exI[of _ "fill_with (replicate 128 0)"] exI[of _ ps] exI[of _ "[]"]
      exI[of _ RYM_STAGE_ESTABLISHING] exI[of _ RYM_STAGE_FINISHING]) simp

theorem rym_send_recv_witness:
  "\<exists>s'. rym_send_on_device feed_cb RT_EOK True 3 ((line_state (answers 2))\<lparr>user := [replicate 128 7, replicate 128 9]\<rparr>) = Some (RT_EOK, s') \<and>
    (\<exists>r'. rym_recv_on_device record_cb RT_EOK True 3 (line_state (tx s')) = Some (RT_EOK, r') \<and>
      user r' = [replicate 128 7, replicate 128 9] \<and> tx r' = answers 2)"
proof -
  let ?ps = "[replicate 128 7, replicate 128 9] :: bytes list"
  let ?s = "(line_state (answers 2))\<lparr>user := ?ps\<rparr>"
  have s: "map snd (rx ?s) = answers (length ?ps)" "fst (hd (rx ?s)) < 3 * RT_TICK_PER_SECOND" "0 < (3 :: nat)" "length (rbuf ?s) = RYM_STX_PKG_SZ"
    "sends feed_cb (replicate 128 65) ?ps (user ?s)" "tx ?s = []"
    using feed_sends[of ?ps] by (simp_all add: answers_def line_state_def RT_TICK_PER_SECOND_def numeral_2_eq_2)
  have r: "tx (line_state bs) = []" "unat (now (line_state bs)) + 3100 < 2 ^ 32" for bs by simp_all
  note T = rym_send_recv[OF s line_state_simps(3) line_state_simps(2) r(2) s(3) r(1) record_cb_simps recorder_session]
  from T[of "[]"] obtain s' where s': "rym_send_on_device feed_cb RT_EOK True 3 ?s = Some (RT_EOK, s')" by blast
  with T[of "tx s'"] have "\<exists>r'. rym_recv_on_device record_cb RT_EOK True 3 (line_state (tx s')) = Some (RT_EOK, r') \<and>
      user r' = ?ps \<and> tx r' = map snd (rx ?s)" by simp
  then show ?thesis using s' s(1) by (auto simp: numeral_2_eq_2)
qed

end
