(* ===== verification/Mempool.thy ===== *)
theory Mempool
  imports Ipc Flash
begin

text \<open>
  The memory pools of \<^verbatim>\<open>rt-thread/src/mempool.c\<close>: blocks of one size in a memory area, and a queue of threads that wait for a
  block. The word in front of a block is the link of the free list, or the address of the pool while the block is handed
  out; these words are the function \<open>pool_word\<close>. \<^verbatim>\<open>rt_mp_alloc\<close> waits in a loop: what it does behind its
  \<^verbatim>\<open>rt_schedule\<close> is \<open>rt_mp_alloc_resumed\<close>, which gets the local variables of the call.
\<close>

section \<open>State\<close>

record rt_mempool =
  start_address :: u32
  mp_size :: u32
  mp_block_size :: u32
  mp_block_list :: u32
  block_total_count :: u32
  block_free_count :: u32

record pools = kernel +
  mempools :: "u32 \<Rightarrow> rt_mempool"
  pool_word :: "u32 \<Rightarrow> u32"
  rt_errno :: int

text \<open>A call returns the address of a block or 0, or blocks with its local variable \<^verbatim>\<open>before_sleep\<close>, or fails an assertion.\<close>

datatype mp_call = MP_Return u32 pools | MP_Blocked u32 pools | MP_Halt

definition upd_mp :: "u32 \<Rightarrow> (rt_mempool \<Rightarrow> rt_mempool) \<Rightarrow> pools \<Rightarrow> pools" where
  "upd_mp a f K = K\<lparr>mempools := (mempools K)(a := f (mempools K a))\<rparr>"

definition set_word :: "u32 \<Rightarrow> u32 \<Rightarrow> pools \<Rightarrow> pools" where
  "set_word p v K = K\<lparr>pool_word := (pool_word K)(p := v)\<rparr>"

abbreviation mp_queue :: "u32 \<Rightarrow> list_head" where
  "mp_queue a \<equiv> Suspend_thread (MemPool (unat a))"

definition rt_set_errno :: "int \<Rightarrow> pools \<Rightarrow> pools" where
  "rt_set_errno e K =
     (if rt_interrupt_nest K \<noteq> 0 \<or> rt_current_thread K = 0 then K\<lparr>rt_errno := e\<rparr> else set_error (rt_current_thread K) e K)"

section \<open>Operations\<close>

text \<open>The loop that links every block to the one behind it.\<close>

fun link_blocks :: "u32 \<Rightarrow> u32 \<Rightarrow> nat \<Rightarrow> (u32 \<Rightarrow> u32) \<Rightarrow> u32 \<Rightarrow> u32" where
  "link_blocks start stride 0 w = w"
| "link_blocks start stride (Suc n) w =
     (link_blocks start stride n w)(start + of_nat n * stride := start + of_nat (Suc n) * stride)"

definition rt_mp_init :: "u32 \<Rightarrow> u32 \<Rightarrow> u32 \<Rightarrow> u32 \<Rightarrow> pools \<Rightarrow> (int \<times> pools) option" where
  "rt_mp_init mp start sz blk_size K =
     (if start = 0 \<or> sz = 0 \<or> blk_size = 0 then None
      else let bs = RT_ALIGN blk_size 4; stride = bs + 4
           in if stride = 0 then None
              else let total = RT_ALIGN_DOWN sz 4 div stride;
                       w = link_blocks start stride (unat total) (pool_word K)
                   in Some (RT_EOK, K\<lparr>
                        mempools := (mempools K)(mp := \<lparr>start_address = start, mp_size = RT_ALIGN_DOWN sz 4, mp_block_size = bs,
                          mp_block_list = start, block_total_count = total, block_free_count = total\<rparr>),
                        pool_word := w(start + (total - 1) * stride := 0),
                        tlists := (tlists K)(mp_queue mp := [])\<rparr>))"

definition rt_mp_detach :: "u32 \<Rightarrow> pools \<Rightarrow> (int \<times> pools) option" where
  "rt_mp_detach mp K = map_option (Pair RT_EOK) (ipc_list_resume_all (mp_queue mp) K)"

text \<open>
  The pass through the loop of \<^verbatim>\<open>rt_mp_alloc\<close>, from its test to the block or to \<^verbatim>\<open>rt_schedule\<close>. A thread that waits is put in
  front of the queue. Waiting in an interrupt is refused by \<^verbatim>\<open>RT_DEBUG_NOT_IN_INTERRUPT\<close>, and without a thread it is a fault.
\<close>

definition mp_take :: "u32 \<Rightarrow> pools \<Rightarrow> mp_call" where
  "mp_take mp K =
     (let K1 = upd_mp mp (\<lambda>m. m\<lparr>block_free_count := block_free_count m - 1\<rparr>) K;
          block_ptr = mp_block_list (mempools K mp)
      in if block_ptr = 0 then MP_Halt
         else MP_Return (block_ptr + 4)
                (set_word block_ptr mp (upd_mp mp (\<lambda>m. m\<lparr>mp_block_list := pool_word K block_ptr\<rparr>) K1)))"

definition rt_mp_alloc :: "u32 \<Rightarrow> int \<Rightarrow> pools \<Rightarrow> mp_call" where
  "rt_mp_alloc mp time K =
     (if block_free_count (mempools K mp) = 0 then
        (if time = 0 then MP_Return 0 (rt_set_errno (- RT_ETIMEOUT) K)
         else if \<not> in_thread_context K then MP_Halt
         else let t = rt_current_thread K
              in case rt_thread_suspend t (set_error t RT_EOK K) of
                   None \<Rightarrow> MP_Halt
                 | Some (_, K1) \<Rightarrow>
                     (case start_timeout t time (rt_list_insert_after (mp_queue mp) t K1) of
                        None \<Rightarrow> MP_Halt
                      | Some K2 \<Rightarrow> MP_Blocked (if time > 0 then rt_tick K else 0) (rt_schedule K2)))
      else mp_take mp K)"

definition rt_mp_alloc_resumed :: "u32 \<Rightarrow> int \<Rightarrow> u32 \<Rightarrow> pools \<Rightarrow> mp_call" where
  "rt_mp_alloc_resumed mp time before_sleep K =
     (if error (threads K (rt_current_thread K)) \<noteq> RT_EOK then MP_Return 0 K
      else let rest = (if time > 0 then sint (word_of_int time - (rt_tick K - before_sleep) :: u32) else time)
           in rt_mp_alloc mp (if time > 0 \<and> rest < 0 then 0 else rest) K)"

definition rt_mp_free :: "u32 \<Rightarrow> pools \<Rightarrow> pools" where
  "rt_mp_free block K =
     (if block = 0 then K
      else let block_ptr = block - 4; mp = pool_word K block_ptr;
               K1 = upd_mp mp (\<lambda>m. m\<lparr>block_free_count := block_free_count m + 1\<rparr>) K;
               K2 = upd_mp mp (\<lambda>m. m\<lparr>mp_block_list := block_ptr\<rparr>) (set_word block_ptr (mp_block_list (mempools K mp)) K1)
           in if tlists K2 (mp_queue mp) \<noteq> []
              then let t = hd (tlists K2 (mp_queue mp))
                   in rt_schedule (snd (rt_thread_resume t (set_error t RT_EOK K2)))
              else K2)"

end
