(* ===== verification/Mempool_Inv.thy ===== *)
theory Mempool_Inv
  imports Mempool Ipc_Inv
begin

text \<open>
  The invariant of the memory pools: the free list runs through distinct blocks of the pool, as many as the counter says, and
  every other block is handed out and leads back to its pool. The calls as steps among those of the rest of the kernel.
\<close>

section \<open>Layout\<close>

definition mp_stride :: "rt_mempool \<Rightarrow> u32" where
  "mp_stride m = mp_block_size m + 4"

definition mp_blocks :: "rt_mempool \<Rightarrow> u32 set" where
  "mp_blocks m = (\<lambda>k. start_address m + of_nat k * mp_stride m) ` {..<unat (block_total_count m)}"

text \<open>The blocks lie in the address space, and not at address 0.\<close>

definition mp_fits :: "rt_mempool \<Rightarrow> bool" where
  "mp_fits m \<longleftrightarrow> 0 < unat (start_address m) \<and> 4 < unat (mp_stride m) \<and>
     unat (start_address m) + unat (block_total_count m) * unat (mp_stride m) \<le> 2 ^ 32"

fun slist_chain :: "(u32 \<Rightarrow> u32) \<Rightarrow> u32 \<Rightarrow> u32 list \<Rightarrow> bool" where
  "slist_chain w p [] \<longleftrightarrow> p = 0"
| "slist_chain w p (b # bs) \<longleftrightarrow> p = b \<and> b \<noteq> 0 \<and> slist_chain w (w b) bs"

fun follow :: "nat \<Rightarrow> (u32 \<Rightarrow> u32) \<Rightarrow> u32 \<Rightarrow> u32 list" where
  "follow 0 w p = []"
| "follow (Suc n) w p = p # follow n w (w p)"

definition free_blocks :: "pools \<Rightarrow> u32 \<Rightarrow> u32 list" where
  "free_blocks K a = follow (unat (block_free_count (mempools K a))) (pool_word K) (mp_block_list (mempools K a))"

definition held_blocks :: "pools \<Rightarrow> u32 \<Rightarrow> u32 set" where
  "held_blocks K a = mp_blocks (mempools K a) - set (free_blocks K a)"

definition pool_ok :: "pools \<Rightarrow> u32 \<Rightarrow> bool" where
  "pool_ok K a \<longleftrightarrow> mp_fits (mempools K a) \<and> slist_chain (pool_word K) (mp_block_list (mempools K a)) (free_blocks K a) \<and>
     distinct (free_blocks K a) \<and> set (free_blocks K a) \<subseteq> mp_blocks (mempools K a) \<and> (\<forall>b\<in>held_blocks K a. pool_word K b = a)"

definition pools_ok :: "u32 set \<Rightarrow> pools \<Rightarrow> bool" where
  "pools_ok P K \<longleftrightarrow> (\<forall>a\<in>P. pool_ok K a) \<and>
     (\<forall>a\<in>P. \<forall>c\<in>P. a \<noteq> c \<longrightarrow> mp_blocks (mempools K a) \<inter> mp_blocks (mempools K c) = {})"

definition mp_inv :: "nat \<Rightarrow> u32 set \<Rightarrow> pools \<Rightarrow> bool" where
  "mp_inv i P K \<longleftrightarrow> steady i K \<and> pools_ok P K \<and> (\<forall>c. c \<notin> P \<longrightarrow> tlists K (mp_queue c) = [])"

lemma chain_follow: "slist_chain w p bs \<Longrightarrow> follow (length bs) w p = bs"
  by (induction bs arbitrary: p) auto

lemma chain_cong: "slist_chain w p bs \<Longrightarrow> (\<And>b. b \<in> set bs \<Longrightarrow> w' b = w b) \<Longrightarrow> slist_chain w' p bs"
  by (induction bs arbitrary: p) auto

lemma follow_cong: "(\<And>b. b \<in> set (follow n w p) \<Longrightarrow> w' b = w b) \<Longrightarrow> follow n w' p = follow n w p"
  by (induction n arbitrary: p) auto

lemma length_follow [simp]: "length (follow n w p) = n"
  by (induction n arbitrary: p) auto

lemma length_free_blocks [simp]: "length (free_blocks K a) = unat (block_free_count (mempools K a))"
  by (simp add: free_blocks_def)

lemma block_unat: "mp_fits m \<Longrightarrow> k < unat (block_total_count m) \<Longrightarrow>
  unat (start_address m + of_nat k * mp_stride m) = unat (start_address m) + k * unat (mp_stride m)"
proof -
  assume f: "mp_fits m" and k: "k < unat (block_total_count m)"
  have "k * unat (mp_stride m) + unat (mp_stride m) \<le> unat (block_total_count m) * unat (mp_stride m)"
    using mult_le_mono1[of "Suc k" "unat (block_total_count m)" "unat (mp_stride m)"] k by simp
  then have lt: "unat (start_address m) + k * unat (mp_stride m) < 2 ^ 32" using f by (simp add: mp_fits_def)
  have "start_address m + of_nat k * mp_stride m = of_nat (unat (start_address m) + k * unat (mp_stride m))" by simp
  then show ?thesis using lt by (simp only: unat_of_nat) simp
qed

lemma block_inj: "mp_fits m \<Longrightarrow> inj_on (\<lambda>k. start_address m + of_nat k * mp_stride m) {..<unat (block_total_count m)}"
proof (rule inj_onI)
  fix j k assume f: "mp_fits m" and jk: "j \<in> {..<unat (block_total_count m)}" "k \<in> {..<unat (block_total_count m)}"
    and e: "start_address m + of_nat j * mp_stride m = start_address m + of_nat k * mp_stride m"
  have "unat (start_address m) + j * unat (mp_stride m) = unat (start_address m) + k * unat (mp_stride m)"
    using block_unat[OF f] jk arg_cong[OF e, of unat] by auto
  then show "j = k" using f by (simp add: mp_fits_def)
qed

lemma block_nonzero: "mp_fits m \<Longrightarrow> b \<in> mp_blocks m \<Longrightarrow> b \<noteq> 0"
proof
  assume f: "mp_fits m" and b: "b \<in> mp_blocks m" "b = 0"
  then obtain k where k: "k < unat (block_total_count m)" "start_address m + of_nat k * mp_stride m = 0" by (auto simp: mp_blocks_def)
  have "unat (start_address m) + k * unat (mp_stride m) = 0" using block_unat[OF f k(1)] arg_cong[OF k(2), of unat] by simp
  then show False using f by (simp add: mp_fits_def)
qed

lemma block_end: "mp_fits m \<Longrightarrow> b \<in> mp_blocks m \<Longrightarrow> b + 4 \<noteq> 0"
proof -
  assume f: "mp_fits m" and "b \<in> mp_blocks m"
  then obtain k where k: "k < unat (block_total_count m)" "b = start_address m + of_nat k * mp_stride m" by (auto simp: mp_blocks_def)
  have "Suc k * unat (mp_stride m) \<le> unat (block_total_count m) * unat (mp_stride m)" by (rule mult_le_mono1) (use k in simp)
  then have lt: "unat b + 4 < 2 ^ 32" using block_unat[OF f k(1)] f k(2) by (simp add: mp_fits_def)
  have "b + 4 = of_nat (unat b + 4)" by simp
  then have "unat (b + 4) = unat b + 4" using lt by (simp only: unat_of_nat) simp
  then show ?thesis by auto
qed

lemma card_blocks: "mp_fits m \<Longrightarrow> card (mp_blocks m) = unat (block_total_count m)"
  by (simp add: mp_blocks_def card_image block_inj)

section \<open>Initialisation\<close>

lemma link_blocks_other: "(\<And>k. k < n \<Longrightarrow> x \<noteq> start + of_nat k * stride) \<Longrightarrow> link_blocks start stride n w x = w x"
  by (induction n) (auto simp: less_Suc_eq)

lemma link_blocks_nth:
  "inj_on (\<lambda>k. start + of_nat k * stride) {..<n} \<Longrightarrow> k < n \<Longrightarrow>
   link_blocks start stride n w (start + of_nat k * stride) = start + of_nat (Suc k) * (stride :: u32)"
proof (induction n)
  case (Suc n)
  have inj: "inj_on (\<lambda>k. start + of_nat k * stride) {..<n}" using Suc.prems(1) by (rule inj_on_subset) auto
  show ?case
  proof (cases "k = n")
    case False
    then have "start + of_nat k * stride \<noteq> start + of_nat n * stride" using inj_onD[OF Suc.prems(1), of k n] Suc.prems(2) by auto
    then show ?thesis using Suc.IH[OF inj] Suc.prems(2) False by simp
  qed simp
qed simp

text \<open>The slist_chain of a fresh pool.\<close>

lemma fresh_chain:
  assumes "\<And>k. k < n \<Longrightarrow> w (b k) = (if Suc k = n then 0 else b (Suc k))" "\<And>k. k < n \<Longrightarrow> b k \<noteq> 0" "j \<le> n"
  shows "slist_chain w (if j = n then 0 else b j) (map b [j..<n])"
  using assms(3)
proof (induction "n - j" arbitrary: j)
  case (Suc d)
  then have j: "j < n" by simp
  have "[j..<n] = j # [Suc j..<n]" using j by (rule upt_conv_Cons)
  then show ?case using Suc.hyps(1)[of "Suc j"] Suc.hyps(2) assms(1)[OF j] assms(2)[OF j] j by simp
qed simp

definition fresh_pool :: "u32 \<Rightarrow> u32 \<Rightarrow> u32 \<Rightarrow> rt_mempool" where
  "fresh_pool start sz blk_size =
     (let bs = RT_ALIGN blk_size 4; total = RT_ALIGN_DOWN sz 4 div (bs + 4)
      in \<lparr>start_address = start, mp_size = RT_ALIGN_DOWN sz 4, mp_block_size = bs, mp_block_list = start,
          block_total_count = total, block_free_count = total\<rparr>)"

lemma init_pool_ok:
  assumes init: "rt_mp_init a start sz blk K = Some (e, K')" and fits: "mp_fits (fresh_pool start sz blk)"
    and some: "block_total_count (fresh_pool start sz blk) \<noteq> 0"
  shows "pool_ok K' a" "mempools K' = (mempools K)(a := fresh_pool start sz blk)"
    "x \<notin> mp_blocks (fresh_pool start sz blk) \<Longrightarrow> pool_word K' x = pool_word K x"
    "held_blocks K' a = {}"
proof -
  let ?m = "fresh_pool start sz blk"
  define stride where "stride = mp_stride ?m"
  define n where "n = unat (block_total_count ?m)"
  let ?b = "\<lambda>k. start + of_nat k * stride"
  have m: "start_address ?m = start" "mp_block_list ?m = start" "block_free_count ?m = block_total_count ?m"
    by (simp_all add: fresh_pool_def Let_def)
  have n0: "0 < n" using some by (simp add: n_def unat_gt_0)
  have last: "start + (block_total_count ?m - 1) * stride = ?b (n - 1)"
  proof -
    have "of_nat (n - 1) = block_total_count ?m - 1" using n0 by (simp add: n_def of_nat_diff)
    then show ?thesis by simp
  qed
  have K': "K' = K\<lparr>mempools := (mempools K)(a := ?m),
      pool_word := (link_blocks start stride n (pool_word K))(?b (n - 1) := 0), tlists := (tlists K)(mp_queue a := [])\<rparr>"
    using init unfolding last[symmetric]
    by (auto simp: rt_mp_init_def Let_def fresh_pool_def stride_def mp_stride_def n_def split: if_splits)
  show mem: "mempools K' = (mempools K)(a := ?m)" by (simp add: K')
  have inj: "inj_on ?b {..<n}" using block_inj[OF fits] by (simp add: m stride_def n_def)
  have blocks: "mp_blocks ?m = ?b ` {..<n}" by (simp add: mp_blocks_def m stride_def n_def)
  have w: "pool_word K' (?b k) = (if Suc k = n then 0 else ?b (Suc k))" if "k < n" for k
  proof (cases "Suc k = n")
    case True
    then have "k = n - 1" by simp
    then show ?thesis using True by (simp add: K')
  next
    case False
    then have "?b k \<noteq> ?b (n - 1)" using inj_onD[OF inj, of k "n - 1"] that by auto
    then show ?thesis using False link_blocks_nth[OF inj that, of "pool_word K"] by (simp add: K')
  qed
  have nz: "?b k \<noteq> 0" if "k < n" for k using block_nonzero[OF fits, of "?b k"] that by (auto simp: blocks)
  have ch: "slist_chain (pool_word K') start (map ?b [0..<n])" using fresh_chain[of n "pool_word K'" ?b 0] w nz n0 by simp
  have fr: "free_blocks K' a = map ?b [0..<n]"
    using chain_follow[OF ch] by (simp add: free_blocks_def mem m n_def)
  have set: "set (free_blocks K' a) = mp_blocks ?m" by (auto simp: fr blocks)
  show held: "held_blocks K' a = {}" by (simp add: held_blocks_def set mem)
  have "distinct (free_blocks K' a)" unfolding fr distinct_map using inj by (simp add: atLeast0LessThan)
  then show "pool_ok K' a" using ch fits set held by (simp add: pool_ok_def mem m fr)
  show "pool_word K' x = pool_word K x" if "x \<notin> mp_blocks ?m"
  proof -
    have ne: "\<And>k. k < n \<Longrightarrow> x \<noteq> ?b k" using that by (auto simp: blocks)
    have "x \<noteq> ?b (n - 1)" by (rule ne) (use n0 in simp)
    then have "pool_word K' x = link_blocks start stride n (pool_word K) x" by (simp only: K') simp
    then show ?thesis using link_blocks_other[OF ne] by metis
  qed
qed


text \<open>A memory area too small for one block: the end of the list is written in front of the area.\<close>

lemma rt_mp_init_underflow:
  assumes "rt_mp_init a start sz blk K = Some (e, K')" "block_total_count (fresh_pool start sz blk) = 0"
  shows "pool_word K' (start - mp_stride (fresh_pool start sz blk)) = 0"
  using assms by (auto simp: rt_mp_init_def Let_def fresh_pool_def mp_stride_def split: if_splits)

section \<open>Frames\<close>

lemma pools_more:
  fixes K K' :: pools
  assumes "kernel.more K' = kernel.more K"
  shows "mempools K' = mempools K" "pool_word K' = pool_word K" "rt_errno K' = rt_errno K"
  using assms by (cases K; cases K'; simp)+

lemma pool_upd_sel [simp]:
  "mempools (upd_mp a f K) = (mempools K)(a := f (mempools K a))" "pool_word (upd_mp a f K) = pool_word K"
  "mempools (set_word p v K) = mempools K" "pool_word (set_word p v K) = (pool_word K)(p := v)"
  "mempools (upd_thread t g K) = mempools K" "pool_word (upd_thread t g K) = pool_word K"
  by (simp_all add: upd_mp_def set_word_def upd_thread_def)

lemma pool_upd_kernel [simp]:
  "threads (upd_mp a f K) = threads K" "threads (set_word p v K) = threads K" "threads (K\<lparr>rt_errno := e\<rparr>) = threads K"
  "tlists (upd_mp a f K) = tlists K" "tlists (set_word p v K) = tlists K"
  "rt_current_thread (upd_mp a f K) = rt_current_thread K" "rt_current_thread (set_word p v K) = rt_current_thread K"
  "rt_scheduler_lock_nest (upd_mp a f K) = rt_scheduler_lock_nest K" "rt_scheduler_lock_nest (set_word p v K) = rt_scheduler_lock_nest K"
  by (simp_all add: upd_mp_def set_word_def)

text \<open>The invariant of the scheduler does not look at the pools.\<close>

lemma steady_pool [simp]:
  "steady i (upd_mp a f K) = steady i K" "steady i (set_word p v K) = steady i K" "steady i (K\<lparr>rt_errno := e\<rparr>) = steady i K"
proof -
  have t: "timers_ok (upd_mp a f K) = timers_ok K" "timers_ok (set_word p v K) = timers_ok K" "timers_ok (K\<lparr>rt_errno := e\<rparr>) = timers_ok K"
    by (rule timers_ok_cong, simp add: upd_mp_def set_word_def timer_system.defs)+
  have m: "timers (upd_mp a f K) = timers K" "timers (set_word p v K) = timers K"
    "rt_thread_ready_priority_group (upd_mp a f K) = rt_thread_ready_priority_group K"
    "rt_thread_ready_priority_group (set_word p v K) = rt_thread_ready_priority_group K"
    by (simp_all add: upd_mp_def set_word_def)
  show "steady i (upd_mp a f K) = steady i K" "steady i (set_word p v K) = steady i K" "steady i (K\<lparr>rt_errno := e\<rparr>) = steady i K"
    by (simp_all add: steady_def kernel_inv_but_def t m)
qed

lemma steady_pool_all: "steady i K \<Longrightarrow> steady i (K\<lparr>mempools := M, pool_word := W\<rparr>)"
proof -
  have "timers_ok (K\<lparr>mempools := M, pool_word := W\<rparr>) = timers_ok K" by (rule timers_ok_cong) (simp add: timer_system.defs)
  then show "steady i K \<Longrightarrow> steady i (K\<lparr>mempools := M, pool_word := W\<rparr>)" by (simp add: steady_def kernel_inv_but_def)
qed

text \<open>A pool is as before when its record and its words are.\<close>

lemma pool_frame:
  assumes ok: "pool_ok K c" and m: "mempools K' c = mempools K c" and w: "\<And>x. x \<in> mp_blocks (mempools K c) \<Longrightarrow> pool_word K' x = pool_word K x"
  shows "pool_ok K' c" "free_blocks K' c = free_blocks K c" "held_blocks K' c = held_blocks K c"
proof -
  note d = ok[unfolded pool_ok_def]
  have wf: "pool_word K' b = pool_word K b" if "b \<in> set (free_blocks K c)" for b using that d w by blast
  show f: "free_blocks K' c = free_blocks K c" unfolding free_blocks_def m by (rule follow_cong) (use wf in \<open>simp add: free_blocks_def\<close>)
  show h: "held_blocks K' c = held_blocks K c" by (simp add: held_blocks_def f m)
  have "slist_chain (pool_word K') (mp_block_list (mempools K c)) (free_blocks K c)" by (rule chain_cong[of "pool_word K"]) (use d wf in auto)
  then show "pool_ok K' c" using d w by (auto simp: pool_ok_def f h m held_blocks_def)
qed

text \<open>What a change of one pool and of words of its blocks leaves to the others.\<close>

lemma pools_frame:
  assumes ok: "pools_ok P K" and a: "a \<in> P" and same: "mempools K' = (mempools K)(a := m')" "mp_blocks m' = mp_blocks (mempools K a)"
    and w: "\<And>x. x \<notin> mp_blocks (mempools K a) \<Longrightarrow> pool_word K' x = pool_word K x" and new: "pool_ok K' a"
  shows "pools_ok P K'" "\<And>c. c \<in> P \<Longrightarrow> c \<noteq> a \<Longrightarrow> mempools K' c = mempools K c \<and> free_blocks K' c = free_blocks K c \<and> held_blocks K' c = held_blocks K c"
proof -
  have fr: "pool_ok K' c \<and> free_blocks K' c = free_blocks K c \<and> held_blocks K' c = held_blocks K c" if c: "c \<in> P" "c \<noteq> a" for c
  proof -
    have "pool_word K' x = pool_word K x" if "x \<in> mp_blocks (mempools K c)" for x
      by (rule w) (use ok a c that in \<open>auto simp: pools_ok_def\<close>)
    moreover have "pool_ok K c" "mempools K' c = mempools K c" using ok c same by (auto simp: pools_ok_def)
    ultimately show ?thesis using pool_frame[of K c K'] by simp
  qed
  show "mempools K' c = mempools K c \<and> free_blocks K' c = free_blocks K c \<and> held_blocks K' c = held_blocks K c"
    if "c \<in> P" "c \<noteq> a" for c using fr[OF that] same that by simp
  have "mp_blocks (mempools K' c) = mp_blocks (mempools K c)" for c using same by simp
  then show "pools_ok P K'" using ok fr new by (auto simp: pools_ok_def)
qed

section \<open>Taking and returning a block\<close>

lemma pool_nonempty:
  assumes "pool_ok K a" "block_free_count (mempools K a) \<noteq> 0"
  obtains b bs where "free_blocks K a = b # bs" "mp_block_list (mempools K a) = b" "b \<noteq> 0" "b + 4 \<noteq> 0" "b \<notin> set bs"
    "b \<in> mp_blocks (mempools K a)" "slist_chain (pool_word K) (pool_word K b) bs" "set bs \<subseteq> mp_blocks (mempools K a)" "distinct bs"
proof -
  note d = assms(1)[unfolded pool_ok_def]
  have "0 < length (free_blocks K a)" using assms(2) by (simp add: unat_gt_0)
  then obtain b bs where q: "free_blocks K a = b # bs" by (cases "free_blocks K a") auto
  have b: "b \<in> mp_blocks (mempools K a)" using d q by simp
  have "b + 4 \<noteq> 0" using block_end[OF _ b] d by blast
  then show ?thesis using that[OF q] d q b by auto
qed

lemma take_pool:
  assumes ok: "pools_ok P K" and a: "a \<in> P" and n: "block_free_count (mempools K a) \<noteq> 0"
  shows "\<exists>b bs K'. free_blocks K a = b # bs \<and> mp_take a K = MP_Return (b + 4) K' \<and> b + 4 \<noteq> 0 \<and> pools_ok P K' \<and> free_blocks K' a = bs \<and>
    held_blocks K' a = insert b (held_blocks K a) \<and> b \<notin> held_blocks K a \<and> b \<in> mp_blocks (mempools K a) \<and>
    block_free_count (mempools K' a) = block_free_count (mempools K a) - 1 \<and>
    (\<forall>c\<in>P. c \<noteq> a \<longrightarrow> mempools K' c = mempools K c \<and> free_blocks K' c = free_blocks K c \<and> held_blocks K' c = held_blocks K c) \<and>
    K' = K\<lparr>mempools := mempools K', pool_word := pool_word K'\<rparr>"
proof -
  have oka: "pool_ok K a" using ok a by (simp add: pools_ok_def)
  note d = oka[unfolded pool_ok_def]
  from pool_nonempty[OF oka n] obtain b bs where b: "free_blocks K a = b # bs" "mp_block_list (mempools K a) = b" "b \<noteq> 0" "b + 4 \<noteq> 0"
    "b \<notin> set bs" "b \<in> mp_blocks (mempools K a)" "slist_chain (pool_word K) (pool_word K b) bs" "set bs \<subseteq> mp_blocks (mempools K a)" "distinct bs" .
  let ?m = "(mempools K a)\<lparr>block_free_count := block_free_count (mempools K a) - 1, mp_block_list := pool_word K b\<rparr>"
  define K' where "K' = K\<lparr>mempools := (mempools K)(a := ?m), pool_word := (pool_word K)(b := a)\<rparr>"
  have mem: "mempools K' a = ?m" by (simp add: K'_def)
  have take: "mp_take a K = MP_Return (b + 4) K'"
    using b(2,3) by (simp add: mp_take_def Let_def upd_mp_def set_word_def K'_def)
  have len: "length bs = unat (block_free_count (mempools K a) - 1)"
    using arg_cong[OF b(1), of length] n by (simp add: unat_minus_one)
  have ch: "slist_chain (pool_word K') (pool_word K b) bs" by (rule chain_cong[OF b(7)]) (use b(5) in \<open>auto simp: K'_def\<close>)
  have fr: "free_blocks K' a = bs" using chain_follow[OF ch] by (simp add: free_blocks_def K'_def len)
  have bl: "mp_blocks ?m = mp_blocks (mempools K a)" by (simp add: mp_blocks_def mp_stride_def)
  have held: "held_blocks K' a = insert b (held_blocks K a)" using b(1,5,6) by (auto simp: held_blocks_def fr mem bl)
  have nb: "b \<notin> held_blocks K a" by (simp add: held_blocks_def b(1))
  have w: "pool_word K' x = a" if "x \<in> held_blocks K' a" for x using that d unfolding held by (auto simp: K'_def)
  have new: "pool_ok K' a" unfolding pool_ok_def
    using d ch b(8,9) w fr by (simp add: mem bl) (simp add: mp_fits_def mp_stride_def)
  have F: "pools_ok P K'" "\<And>c. c \<in> P \<Longrightarrow> c \<noteq> a \<Longrightarrow> mempools K' c = mempools K c \<and> free_blocks K' c = free_blocks K c \<and> held_blocks K' c = held_blocks K c"
    by (rule pools_frame[OF ok a _ bl _ new]; use b(6) in \<open>auto simp: K'_def\<close>)+
  show ?thesis
    by (rule exI[of _ b], rule exI[of _ bs], rule exI[of _ K'])
      (use take b fr held nb F in \<open>auto simp: K'_def\<close>)
qed

text \<open>The part of \<^verbatim>\<open>rt_mp_free\<close> in front of the wake-up.\<close>

definition give_back :: "u32 \<Rightarrow> u32 \<Rightarrow> pools \<Rightarrow> pools" where
  "give_back a b K = upd_mp a (\<lambda>m. m\<lparr>block_free_count := block_free_count m + 1, mp_block_list := b\<rparr>)
     (set_word b (mp_block_list (mempools K a)) K)"

lemma free_eq:
  assumes "b + 4 \<noteq> 0" "pool_word K b = a"
  shows "rt_mp_free (b + 4) K =
    (if tlists K (mp_queue a) \<noteq> [] then rt_schedule (ipc_list_resume (mp_queue a) (set_error (hd (tlists K (mp_queue a))) RT_EOK (give_back a b K)))
     else give_back a b K)"
  using assms by (simp add: rt_mp_free_def Let_def give_back_def ipc_list_resume_def upd_mp_def set_word_def)

lemma give_pool:
  assumes ok: "pools_ok P K" and a: "a \<in> P" and b: "b \<in> held_blocks K a"
  defines "K' \<equiv> give_back a b K"
  shows "pools_ok P K'" "free_blocks K' a = b # free_blocks K a" "held_blocks K' a = held_blocks K a - {b}"
    "\<And>c. c \<in> P \<Longrightarrow> c \<noteq> a \<Longrightarrow> mempools K' c = mempools K c \<and> free_blocks K' c = free_blocks K c \<and> held_blocks K' c = held_blocks K c"
proof -
  have oka: "pool_ok K a" using ok a by (simp add: pools_ok_def)
  note d = oka[unfolded pool_ok_def]
  let ?m = "(mempools K a)\<lparr>block_free_count := block_free_count (mempools K a) + 1, mp_block_list := b\<rparr>"
  have K': "mempools K' = (mempools K)(a := ?m)" "pool_word K' = (pool_word K)(b := mp_block_list (mempools K a))"
    by (simp_all add: K'_def give_back_def)
  have nb: "b \<notin> set (free_blocks K a)" "b \<in> mp_blocks (mempools K a)" using b by (simp_all add: held_blocks_def)
  have "Suc (unat (block_free_count (mempools K a))) = card (set (b # free_blocks K a))" using d nb distinct_card[of "free_blocks K a"] by simp
  also have "\<dots> \<le> card (mp_blocks (mempools K a))" by (rule card_mono) (use d nb in \<open>auto simp: mp_blocks_def\<close>)
  also have "\<dots> = unat (block_total_count (mempools K a))" using card_blocks d by blast
  also have "\<dots> < 2 ^ 32" using unsigned_less[of "block_total_count (mempools K a)", where 'a = nat] by simp
  finally have len: "unat (block_free_count (mempools K a) + 1) = Suc (unat (block_free_count (mempools K a)))"
    by (simp add: unat_word_ariths)
  have ch: "slist_chain (pool_word K') (mp_block_list (mempools K a)) (free_blocks K a)"
    by (rule chain_cong[of "pool_word K"]) (use d nb in \<open>auto simp: K'\<close>)
  have ch': "slist_chain (pool_word K') b (b # free_blocks K a)" using ch block_nonzero[of "mempools K a" b] d nb by (simp add: K'(2))
  show fr: "free_blocks K' a = b # free_blocks K a" using chain_follow[OF ch'] by (simp add: free_blocks_def K'(1) len)
  have bl: "mp_blocks ?m = mp_blocks (mempools K a)" by (simp add: mp_blocks_def mp_stride_def)
  show held: "held_blocks K' a = held_blocks K a - {b}" by (auto simp: held_blocks_def fr K'(1) bl)
  have w: "pool_word K' x = a" if "x \<in> held_blocks K' a" for x using that d unfolding held by (auto simp: K'(2))
  have new: "pool_ok K' a" unfolding pool_ok_def
    using d ch' nb w fr by (simp add: K'(1) bl) (simp add: mp_fits_def mp_stride_def)
  show "pools_ok P K'" "\<And>c. c \<in> P \<Longrightarrow> c \<noteq> a \<Longrightarrow> mempools K' c = mempools K c \<and> free_blocks K' c = free_blocks K c \<and> held_blocks K' c = held_blocks K c"
    by (rule pools_frame[OF ok a _ bl _ new]; use nb in \<open>auto simp: K'\<close>)+
qed

end
