(* ===== verification/Mempool_Props.thy ===== *)
theory Mempool_Props
  imports Mempool_Inv Sync_Props
begin

text \<open>
  The calls on memory pools as the steps of a relation, among all other calls of the kernel, and what holds after every
  history of them.
\<close>

section \<open>Calls\<close>

lemma pools_eq: "mempools K' = mempools K \<Longrightarrow> pool_word K' = pool_word K \<Longrightarrow> pools_ok P K' = pools_ok P K"
  "mempools K' = mempools K \<Longrightarrow> pool_word K' = pool_word K \<Longrightarrow> free_blocks K' a = free_blocks K a"
  "mempools K' = mempools K \<Longrightarrow> pool_word K' = pool_word K \<Longrightarrow> held_blocks K' a = held_blocks K a"
  by (simp_all add: pools_ok_def pool_ok_def free_blocks_def held_blocks_def)

lemma unat_u32_inj [simp]: "unat a = unat c \<longleftrightarrow> a = (c :: u32)"
  by (auto dest: arg_cong[of _ _ "of_nat :: nat \<Rightarrow> u32"])

lemma mp_invD: "mp_inv i P K \<Longrightarrow> steady i K" "mp_inv i P K \<Longrightarrow> pools_ok P K" "mp_inv i P K \<Longrightarrow> c \<notin> P \<Longrightarrow> tlists K (mp_queue c) = []"
  by (simp_all add: mp_inv_def)

text \<open>A call that leaves the pools alone and only shortens the queues of the pools.\<close>

lemma mp_inv_frame:
  assumes "mp_inv i P K" "steady i K'" "mempools K' = mempools K" "pool_word K' = pool_word K"
    "\<And>c. c \<notin> P \<Longrightarrow> set (tlists K' (mp_queue c)) \<subseteq> set (tlists K (mp_queue c))"
  shows "mp_inv i P K'"
  using assms pools_eq(1)[of K' K P] unfolding mp_inv_def by fastforce

lemma set_errno_inv: "mp_inv i P K \<Longrightarrow> mp_inv i P (rt_set_errno e K)"
  by (rule mp_inv_frame[of i P K]) (auto simp: rt_set_errno_def intro!: steady_upd dest: mp_invD(1))

lemma alloc_now:
  assumes inv: "mp_inv i P K" and a: "a \<in> P" and n: "block_free_count (mempools K a) \<noteq> 0"
  obtains b K' where "rt_mp_alloc a time K = MP_Return (b + 4) K'" "mp_inv i P K'" "b + 4 \<noteq> 0" "b \<in> mp_blocks (mempools K a)"
    "free_blocks K a = b # free_blocks K' a" "held_blocks K' a = insert b (held_blocks K a)" "b \<notin> held_blocks K a"
    "\<forall>c\<in>P. c \<noteq> a \<longrightarrow> mempools K' c = mempools K c \<and> free_blocks K' c = free_blocks K c \<and> held_blocks K' c = held_blocks K c"
    "K' = K\<lparr>mempools := mempools K', pool_word := pool_word K'\<rparr>" "mp_take a K = MP_Return (b + 4) K'"
    "block_free_count (mempools K' a) = block_free_count (mempools K a) - 1"
proof -
  from take_pool[OF mp_invD(2)[OF inv] a n] obtain b bs K' where
    t: "free_blocks K a = b # bs" "mp_take a K = MP_Return (b + 4) K'" "b + 4 \<noteq> 0" "pools_ok P K'" "free_blocks K' a = bs"
    "held_blocks K' a = insert b (held_blocks K a)" "b \<notin> held_blocks K a" "b \<in> mp_blocks (mempools K a)"
    "block_free_count (mempools K' a) = block_free_count (mempools K a) - 1"
    "\<forall>c\<in>P. c \<noteq> a \<longrightarrow> mempools K' c = mempools K c \<and> free_blocks K' c = free_blocks K c \<and> held_blocks K' c = held_blocks K c"
    and K': "K' = K\<lparr>mempools := mempools K', pool_word := pool_word K'\<rparr>" by (elim exE conjE) (rule that; assumption)
  have s: "K' = set_word b a (upd_mp a (\<lambda>m. m\<lparr>mp_block_list := pool_word K b\<rparr>) (upd_mp a (\<lambda>m. m\<lparr>block_free_count := block_free_count m - 1\<rparr>) K))"
    using t(2) by (auto simp: mp_take_def Let_def split: if_splits)
  have inv': "mp_inv i P K'" using inv t(4) by (simp add: mp_inv_def) (simp add: s)
  show ?thesis by (rule that[OF _ inv' t(3,8)]) (use t K' n in \<open>simp_all add: rt_mp_alloc_def\<close>)
qed

text \<open>Waiting: the running thread is put in front of the waiters.\<close>

lemma alloc_wait:
  assumes inv: "mp_inv i P K" and a: "a \<in> P" and n: "block_free_count (mempools K a) = 0" and b: "may_block i K" "in_thread_context K"
    and time: "time \<noteq> 0" "timeout_ok time"
  defines "t \<equiv> rt_current_thread K"
  obtains s K' where "rt_mp_alloc a time K = MP_Blocked s K'" "mp_inv i P K'" "kernel.more K' = kernel.more K"
    "tlists K' (mp_queue a) = t # tlists K (mp_queue a)" "stat (threads K' t) = RT_THREAD_SUSPEND" "rt_current_thread K' \<noteq> t"
    "timer_activated (timers K' (Thread_timer t)) \<longleftrightarrow> time > 0"
    "time > 0 \<Longrightarrow> s = rt_tick K \<and> timeout_tick (timers K' (Thread_timer t)) = rt_tick K + word_of_int time"
proof -
  let ?K = "set_error t RT_EOK K" and ?h = "mp_queue a"
  have s: "steady i ?K" by (rule steady_upd) (use mp_invD(1)[OF inv] in simp_all)
  have out: "t \<notin> set (tlists ?K ?h)" using running_in_no_list[OF steadyD(1)[OF s] steadyD(2)[OF s]] by (simp add: t_def)
  then have q: "set (t # tlists ?K ?h) = insert t (set (tlists ?K ?h))" "distinct (t # tlists ?K ?h)"
    using kernel_invD(1)[OF steadyD(1)[OF s]] by simp_all
  have c: "rt_current_thread ?K \<noteq> i" "rt_scheduler_lock_nest ?K = 0" "t = rt_current_thread ?K" using b by (simp_all add: may_block_def t_def)
  from place_wait_correct[OF s c(1,2) _ time(2) c(3) q] obtain K1 K3 where
    K1: "rt_thread_suspend t ?K = Some (RT_EOK, K1)" "tlists K1 = tlists ?K"
    and K3: "start_timeout t time (K1\<lparr>tlists := (tlists K1)(?h := t # tlists ?K ?h)\<rparr>) = Some K3" "steady i (rt_schedule K3)"
      "kernel.more (rt_schedule K3) = kernel.more ?K"
      "tlists (rt_schedule K3) ?h = t # tlists ?K ?h" "\<forall>g. wait_head g \<and> g \<noteq> ?h \<longrightarrow> tlists (rt_schedule K3) g = tlists ?K g"
      "stat (threads (rt_schedule K3) t) = RT_THREAD_SUSPEND" "rt_current_thread (rt_schedule K3) \<noteq> t"
      "timer_activated (timers (rt_schedule K3) (Thread_timer t)) \<longleftrightarrow> time > 0"
      "time > 0 \<longrightarrow> timeout_tick (timers (rt_schedule K3) (Thread_timer t)) = rt_tick ?K + word_of_int time" by auto
  have "rt_mp_alloc a time K = MP_Blocked (if time > 0 then rt_tick K else 0) (rt_schedule K3)"
    using n time(1) b(2) K1 K3(1) by (simp add: rt_mp_alloc_def Let_def rt_list_insert_after_def t_def)
  moreover have "tlists (rt_schedule K3) (mp_queue c) = tlists K (mp_queue c)" if "c \<notin> P" for c
    using K3(5)[rule_format, of "mp_queue c"] a that by auto
  then have "mp_inv i P (rt_schedule K3)" using pools_more[OF K3(3)] by (intro mp_inv_frame[OF inv K3(2)]) simp_all
  moreover have "kernel.more (rt_schedule K3) = kernel.more K" "rt_tick ?K = rt_tick K" using K3(3) by (simp_all add: upd_thread_def)
  ultimately show ?thesis using K3 by (intro that[of "if time > 0 then rt_tick K else 0" "rt_schedule K3"]) auto
qed

lemma mp_alloc_inv:
  assumes inv: "mp_inv i P K" and a: "a \<in> P"
  shows "rt_mp_alloc a time K = MP_Return p K' \<Longrightarrow> mp_inv i P K'"
    "rt_mp_alloc a time K = MP_Blocked s K' \<Longrightarrow> may_block i K \<Longrightarrow> timeout_ok time \<Longrightarrow> mp_inv i P K'"
proof -
  have w: "block_free_count (mempools K a) = 0 \<Longrightarrow> rt_mp_alloc a time K = MP_Return p K' \<Longrightarrow> K' = rt_set_errno (- RT_ETIMEOUT) K" 
    by (auto simp: rt_mp_alloc_def Let_def split: if_splits option.splits)
  show "rt_mp_alloc a time K = MP_Return p K' \<Longrightarrow> mp_inv i P K'"
    using w set_errno_inv[OF inv] alloc_now[OF inv a, of time] by (cases "block_free_count (mempools K a) = 0") (metis mp_call.inject(1))+
  assume r: "rt_mp_alloc a time K = MP_Blocked s K'" and b: "may_block i K" "timeout_ok time"
  have n: "block_free_count (mempools K a) = 0" using alloc_now[OF inv a, of time] r by (metis mp_call.distinct(1))
  then have "in_thread_context K" "time \<noteq> 0" using r by (auto simp: rt_mp_alloc_def split: if_splits)
  from alloc_wait[OF inv a n b(1) this b(2)] r show "mp_inv i P K'" by (metis mp_call.inject(2))
qed

text \<open>The remaining time of a call that waited for less than half of the tick range.\<close>

lemma rest_ok:
  assumes "timeout_ok time" "unat (d :: u32) < 2 ^ 31" "time > 0"
  shows "timeout_ok (sint (word_of_int time - d))"
proof -
  obtain n where d: "d = of_nat n" and n: "n < 2 ^ 31" by (rule that[of "unat d"]) (use assms(2) in simp_all)
  have "word_of_int time - d = (word_of_int (time - int n) :: u32)" by (simp add: d)
  then have "sint (word_of_int time - d) = signed_take_bit 31 (time - int n)" by (simp only: sint_sbintrunc') simp
  also have "\<dots> = time - int n" by (rule signed_take_bit_int_eq_self) (use assms(1,3) n in \<open>simp_all add: timeout_ok_def\<close>)
  finally show ?thesis using assms by (simp add: timeout_ok_def)
qed

lemma resumed_eq:
  "rt_mp_alloc_resumed a time s K = (if error (threads K (rt_current_thread K)) \<noteq> RT_EOK then MP_Return 0 K
     else rt_mp_alloc a (if time > 0 then max 0 (sint (word_of_int time - (rt_tick K - s) :: u32)) else time) K)"
  by (simp add: rt_mp_alloc_resumed_def Let_def max_def)

lemma resumed_inv:
  assumes inv: "mp_inv i P K" and a: "a \<in> P"
  shows "rt_mp_alloc_resumed a time s K = MP_Return p K' \<Longrightarrow> mp_inv i P K'"
    "rt_mp_alloc_resumed a time s K = MP_Blocked s' K' \<Longrightarrow> may_block i K \<Longrightarrow> timeout_ok time \<Longrightarrow> unat (rt_tick K - s) < 2 ^ 31 \<Longrightarrow> mp_inv i P K'"
proof -
  show "rt_mp_alloc_resumed a time s K = MP_Return p K' \<Longrightarrow> mp_inv i P K'"
    using mp_alloc_inv(1)[OF inv a] inv by (auto simp: resumed_eq split: if_splits)
  assume r: "rt_mp_alloc_resumed a time s K = MP_Blocked s' K'" and b: "may_block i K" "timeout_ok time" and d: "unat (rt_tick K - s) < 2 ^ 31"
  let ?r = "if time > 0 then max 0 (sint (word_of_int time - (rt_tick K - s) :: u32)) else time"
  have "timeout_ok ?r" using rest_ok[OF b(2) d] b(2) by (auto simp: timeout_ok_def)
  moreover have "rt_mp_alloc a ?r K = MP_Blocked s' K'" using r unfolding resumed_eq by (simp split: if_splits)
  ultimately show "mp_inv i P K'" using mp_alloc_inv(2)[OF inv a] b(1) by blast
qed

lemma free_now:
  assumes inv: "mp_inv i P K" and a: "a \<in> P" and b: "b \<in> held_blocks K a"
  defines "K' \<equiv> rt_mp_free (b + 4) K"
  shows "mp_inv i P K'" "free_blocks K' a = b # free_blocks K a" "held_blocks K' a = held_blocks K a - {b}"
    "\<And>c. c \<in> P \<Longrightarrow> c \<noteq> a \<Longrightarrow> mempools K' c = mempools K c \<and> free_blocks K' c = free_blocks K c \<and> held_blocks K' c = held_blocks K c"
    "tlists K (mp_queue a) = [] \<Longrightarrow> K' = give_back a b K"
    "tlists K (mp_queue a) = t # ts \<Longrightarrow> tlists K' (mp_queue a) = ts \<and> runnable (threads K' t) \<and> error (threads K' t) = RT_EOK \<and>
       \<not> timer_activated (timers K' (Thread_timer t))"
proof -
  let ?G = "give_back a b K"
  note G = give_pool[OF mp_invD(2)[OF inv] a b]
  have oka: "pool_ok K a" using mp_invD(2)[OF inv] a by (simp add: pools_ok_def)
  have b4: "b + 4 \<noteq> 0" using block_end[of "mempools K a" b] oka b by (simp add: pool_ok_def held_blocks_def)
  have w: "pool_word K b = a" using oka b by (simp add: pool_ok_def)
  have sG: "steady i ?G" using mp_invD(1)[OF inv] by (simp add: give_back_def)
  have tG: "tlists ?G = tlists K" "threads ?G = threads K" by (simp_all add: give_back_def)
  have iG: "mp_inv i P ?G" using inv sG G(1) by (simp add: mp_inv_def tG)
  show nil: "K' = ?G" if "tlists K (mp_queue a) = []" using that by (simp add: K'_def free_eq[OF b4 w])
  let ?H = "\<lambda>t. rt_schedule (ipc_list_resume (mp_queue a) (set_error t RT_EOK ?G))"
  have cons: "K' = ?H t" if "tlists K (mp_queue a) = t # ts" for t ts using that by (simp add: K'_def free_eq[OF b4 w])
  have sH: "steady i (set_error u RT_EOK ?G)" for u by (rule steady_upd) (use sG in simp_all)
  have qH: "tlists (set_error u RT_EOK ?G) = tlists K" for u by (simp add: tG)
  have H: "mempools K' = mempools ?G" "pool_word K' = pool_word ?G" "mp_inv i P K'"
  proof -
    have "mempools K' = mempools ?G \<and> pool_word K' = pool_word ?G \<and> mp_inv i P K'"
    proof (cases "tlists K (mp_queue a)")
      case Nil
      then show ?thesis using nil iG by simp
    next
      case (Cons t ts)
      note W' = wake_correct[OF sH[of t] wait_head_simps(1), unfolded qH, OF Cons, folded cons[OF Cons]]
      have m: "mempools K' = mempools ?G" "pool_word K' = pool_word ?G" using pools_more[OF W'(7)] by simp_all
      have "tlists K' (mp_queue c) = tlists K (mp_queue c)" if "c \<notin> P" for c by (rule W'(3)) (use a that in auto)
      then have "mp_inv i P K'" by (intro mp_inv_frame[OF iG W'(1) m]) (simp add: tG)
      then show ?thesis using m by simp
    qed
    then show "mempools K' = mempools ?G" "pool_word K' = pool_word ?G" "mp_inv i P K'" by simp_all
  qed
  show "mp_inv i P K'" by (rule H)
  show "free_blocks K' a = b # free_blocks K a" "held_blocks K' a = held_blocks K a - {b}"
    using G(2,3) pools_eq(2,3)[OF H(1,2)] by simp_all
  show "mempools K' c = mempools K c \<and> free_blocks K' c = free_blocks K c \<and> held_blocks K' c = held_blocks K c" if "c \<in> P" "c \<noteq> a" for c
    using G(4)[OF that] H(1) pools_eq(2,3)[OF H(1,2)] by simp
  show "tlists K' (mp_queue a) = ts \<and> runnable (threads K' t) \<and> error (threads K' t) = RT_EOK \<and>
      \<not> timer_activated (timers K' (Thread_timer t))" if "tlists K (mp_queue a) = t # ts"
    using wake_correct(2,4,5,6)[OF sH[of t] wait_head_simps(1), unfolded qH, OF that, folded cons[OF that]] by simp
qed

lemma mp_init_shape: "rt_mp_init a start sz blk K = Some (e, K') \<Longrightarrow>
  \<exists>M W. K' = K\<lparr>mempools := M, pool_word := W, tlists := (tlists K)(mp_queue a := [])\<rparr>"
  by (auto simp: rt_mp_init_def Let_def split: if_splits)

text \<open>A new pool, in memory that no other pool uses.\<close>

lemma mp_init_inv:
  assumes inv: "mp_inv i P K" and a: "a \<notin> P" and init: "rt_mp_init a start sz blk K = Some (e, K')"
    and fits: "mp_fits (fresh_pool start sz blk)" and some: "block_total_count (fresh_pool start sz blk) \<noteq> 0"
    and apart: "\<forall>c\<in>P. mp_blocks (mempools K c) \<inter> mp_blocks (fresh_pool start sz blk) = {}"
  shows "mp_inv i (insert a P) K'"
proof -
  note I = init_pool_ok[OF init fits some]
  have other: "pool_ok K' c" if c: "c \<in> P" for c
  proof (rule pool_frame(1)[of K])
    show "pool_ok K c" using mp_invD(2)[OF inv] c by (simp add: pools_ok_def)
    show "mempools K' c = mempools K c" using a c by (auto simp: I(2))
    show "pool_word K' x = pool_word K x" if "x \<in> mp_blocks (mempools K c)" for x by (rule I(3)) (use apart c that in auto)
  qed
  have ok: "pools_ok (insert a P) K'" using other I(1) mp_invD(2)[OF inv] a apart by (auto simp: pools_ok_def I(2) Int_commute)
  have "(tlists K)(mp_queue a := []) = tlists K" using mp_invD(3)[OF inv a] by (simp add: fun_eq_iff)
  then have K': "\<exists>M W. K' = K\<lparr>mempools := M, pool_word := W\<rparr>" using mp_init_shape[OF init] by fastforce
  have "steady i (K\<lparr>mempools := M, pool_word := W\<rparr>)" for M W by (rule steady_pool_all[OF mp_invD(1)[OF inv]])
  then show ?thesis using ok K' inv by (auto simp: mp_inv_def)
qed

lemma mp_detach_inv:
  assumes inv: "mp_inv i P K" and d: "rt_mp_detach a K = Some (e, K')"
  shows "mp_inv i (P - {a}) K'"
proof -
  obtain K1 where K1: "ipc_list_resume_all (mp_queue a) K = Some K1" "steady i K1" "kernel.more K1 = kernel.more K" "tlists K1 (mp_queue a) = []"
    "\<forall>g. wait_head g \<and> g \<noteq> mp_queue a \<longrightarrow> tlists K1 g = tlists K g"
    using ipc_list_resume_all_correct[OF mp_invD(1)[OF inv] wait_head_simps(1)] by blast
  then have eq: "K' = K1" using d by (simp add: rt_mp_detach_def)
  have "pools_ok P K1" using mp_invD(2)[OF inv] pools_eq(1)[of K1 K P] pools_more[OF K1(3)] by simp
  then have ok: "pools_ok (P - {a}) K1" by (auto simp: pools_ok_def)
  have "tlists K1 (mp_queue c) = []" if "c \<notin> P - {a}" for c
    using that K1(4) K1(5)[rule_format, of "mp_queue c"] mp_invD(3)[OF inv, of c] by (cases "c = a") auto
  then show ?thesis using ok K1(2) by (simp add: mp_inv_def eq)
qed

section \<open>Histories\<close>

text \<open>
  The steps of the pools in \<open>P\<close>. A call that waited is resumed with its local variables, within half of the tick range; a block that
  is returned is one that is handed out; everything else that happens keeps the scheduler steady and adds nobody to the
  queues of the pools.
\<close>

inductive pool_step :: "nat \<Rightarrow> u32 set \<Rightarrow> pools \<Rightarrow> u32 set \<Rightarrow> pools \<Rightarrow> bool" for i P K where
  init: "a \<notin> P \<Longrightarrow> rt_mp_init a start sz blk K = Some (e, K') \<Longrightarrow> mp_fits (fresh_pool start sz blk) \<Longrightarrow>
    block_total_count (fresh_pool start sz blk) \<noteq> 0 \<Longrightarrow> \<forall>c\<in>P. mp_blocks (mempools K c) \<inter> mp_blocks (fresh_pool start sz blk) = {} \<Longrightarrow>
    pool_step i P K (insert a P) K'"
| detach: "a \<in> P \<Longrightarrow> rt_mp_detach a K = Some (e, K') \<Longrightarrow> pool_step i P K (P - {a}) K'"
| alloc: "a \<in> P \<Longrightarrow> rt_mp_alloc a time K = MP_Return p K' \<Longrightarrow> pool_step i P K P K'"
| wait: "a \<in> P \<Longrightarrow> may_block i K \<Longrightarrow> timeout_ok time \<Longrightarrow> rt_mp_alloc a time K = MP_Blocked s K' \<Longrightarrow> pool_step i P K P K'"
| resumed: "a \<in> P \<Longrightarrow> rt_mp_alloc_resumed a time s K = MP_Return p K' \<Longrightarrow> pool_step i P K P K'"
| wait_again: "a \<in> P \<Longrightarrow> may_block i K \<Longrightarrow> timeout_ok time \<Longrightarrow> unat (rt_tick K - s) < 2 ^ 31 \<Longrightarrow>
    rt_mp_alloc_resumed a time s K = MP_Blocked s' K' \<Longrightarrow> pool_step i P K P K'"
| give: "a \<in> P \<Longrightarrow> b \<in> held_blocks K a \<Longrightarrow> K' = rt_mp_free (b + 4) K \<Longrightarrow> pool_step i P K P K'"
| other: "kernel.more K' = kernel.more K \<Longrightarrow> steady i K' \<Longrightarrow>
    \<forall>c. set (tlists K' (mp_queue c)) \<subseteq> set (tlists K (mp_queue c)) \<Longrightarrow> pool_step i P K P K'"

inductive pool_reachable :: "nat \<Rightarrow> u32 set \<Rightarrow> pools \<Rightarrow> bool" for i where
  start: "steady i K \<Longrightarrow> \<forall>c. tlists K (mp_queue c) = [] \<Longrightarrow> pool_reachable i {} K"
| step: "pool_reachable i P K \<Longrightarrow> pool_step i P K P' K' \<Longrightarrow> pool_reachable i P' K'"

lemma pool_step_inv: "pool_step i P K P' K' \<Longrightarrow> mp_inv i P K \<Longrightarrow> mp_inv i P' K'"
proof (induction rule: pool_step.induct)
  case (other K')
  show ?case by (rule mp_inv_frame[OF other(4,2) pools_more(1,2)[OF other(1)]]) (use other(3) in simp)
next
  case (init a start sz blk e K')
  show ?case by (rule mp_init_inv[OF init(6,1,2,3,4,5)])
next
  case (detach a e K')
  show ?case by (rule mp_detach_inv[OF detach(3,2)])
next
  case (alloc a time p K')
  show ?case by (rule mp_alloc_inv(1)[OF alloc(3,1,2)])
next
  case (wait a time s K')
  show ?case by (rule mp_alloc_inv(2)[OF wait(5,1,4,2,3)])
next
  case (resumed a time s p K')
  show ?case by (rule resumed_inv(1)[OF resumed(3,1,2)])
next
  case (wait_again a time s s' K')
  show ?case by (rule resumed_inv(2)[OF wait_again(6,1,5,2,3,4)])
next
  case (give a b K')
  show ?case unfolding give(3) by (rule free_now(1)[OF give(4,1,2)])
qed

lemma pool_reachable_inv: "pool_reachable i P K \<Longrightarrow> mp_inv i P K"
proof (induction rule: pool_reachable.induct)
  case (start K)
  then show ?case by (simp add: mp_inv_def pools_ok_def)
qed (rule pool_step_inv)

section \<open>Examples\<close>

text \<open>The small system of the kernel with a pool at address 0x100: two blocks of 8 bytes in the 24 bytes at 0x1000.\<close>

definition demo_pools :: pools where
  "demo_pools = kernel.extend (kernel.truncate demo)
     \<lparr>mempools = \<lambda>_. \<lparr>start_address = 0, mp_size = 0, mp_block_size = 0, mp_block_list = 0, block_total_count = 0, block_free_count = 0\<rparr>,
      pool_word = \<lambda>_. 0, rt_errno = 0\<rparr>"

definition demo_pool :: pools where
  "demo_pool = snd (the (rt_mp_init 0x100 0x1000 24 8 demo_pools))"

lemma demo_pools_sel [simp]: "threads demo_pools = threads demo" "tlists demo_pools = tlists demo" "rt_current_thread demo_pools = 2"
  "rt_scheduler_lock_nest demo_pools = 0" "rt_interrupt_nest demo_pools = 0"
  by (simp_all add: demo_pools_def kernel.defs demo_eq)

lemma demo_pools_reachable: "pool_reachable 1 {} demo_pools"
proof (rule pool_reachable.start)
  have t: "timers_ok demo_pools = timers_ok demo" by (rule timers_ok_cong) (simp add: demo_pools_def kernel.defs timer_system.defs)
  have m: "timers demo_pools = timers demo" "rt_thread_ready_priority_group demo_pools = rt_thread_ready_priority_group demo"
    by (simp_all add: demo_pools_def kernel.defs)
  have "steady 1 demo_pools = steady 1 demo" by (simp add: steady_def kernel_inv_but_def t m)
  then show "steady 1 demo_pools" using ipc_invD(1)[OF reachable_inv[OF demo_reachable]] by simp
qed simp

lemma demo_fresh: "fresh_pool 0x1000 24 8 = \<lparr>start_address = 0x1000, mp_size = 24, mp_block_size = 8, mp_block_list = 0x1000,
    block_total_count = 2, block_free_count = 2\<rparr>"
  by code_simp

lemma demo_pool_init: "rt_mp_init 0x100 0x1000 24 8 demo_pools = Some (RT_EOK, demo_pool)"
proof -
  have "(RT_ALIGN 8 4 :: u32) = 8" by code_simp
  then have "rt_mp_init 0x100 0x1000 24 8 demo_pools \<noteq> None" by (simp add: rt_mp_init_def Let_def)
  then show ?thesis by (auto simp: demo_pool_def rt_mp_init_def Let_def split: if_splits)
qed

lemma demo_pool: "pool_reachable 1 {0x100} demo_pool" "mempools demo_pool 0x100 = fresh_pool 0x1000 24 8" "held_blocks demo_pool 0x100 = {}"
  "threads demo_pool = threads demo" "rt_current_thread demo_pool = 2" "rt_scheduler_lock_nest demo_pool = 0" "rt_interrupt_nest demo_pool = 0"
  "tlists demo_pool (mp_queue 0x100) = []"
proof -
  have f: "mp_fits (fresh_pool 0x1000 24 8)" "block_total_count (fresh_pool 0x1000 24 8) \<noteq> 0"
    by (simp_all add: demo_fresh mp_fits_def mp_stride_def)
  show "pool_reachable 1 {0x100} demo_pool"
    by (rule pool_reachable.step[OF demo_pools_reachable pool_step.init[OF _ demo_pool_init f]]) simp_all
  show "mempools demo_pool 0x100 = fresh_pool 0x1000 24 8" "held_blocks demo_pool 0x100 = {}"
    using init_pool_ok(2,4)[OF demo_pool_init f] by simp_all
  from mp_init_shape[OF demo_pool_init] obtain M W where
    eq: "demo_pool = demo_pools\<lparr>mempools := M, pool_word := W, tlists := (tlists demo_pools)(mp_queue 0x100 := [])\<rparr>" by blast
  show "threads demo_pool = threads demo" "rt_current_thread demo_pool = 2"
    "rt_scheduler_lock_nest demo_pool = 0" "rt_interrupt_nest demo_pool = 0" "tlists demo_pool (mp_queue 0x100) = []" by (simp_all add: eq)
qed


text \<open>Both blocks are handed out.\<close>

lemma demo_empty: "\<exists>b K. pool_reachable 1 {0x100} K \<and> b \<in> held_blocks K 0x100 \<and> block_free_count (mempools K 0x100) = 0 \<and>
    rt_current_thread K = 2 \<and> may_block 1 K \<and> in_thread_context K \<and> tlists K (mp_queue 0x100) = []"
proof -
  note D = demo_pool
  have n: "block_free_count (mempools demo_pool 0x100) \<noteq> 0" by (simp add: D(2) demo_fresh)
  have a: "(0x100 :: u32) \<in> {0x100}" by simp
  obtain b K1 where
    K1: "rt_mp_alloc 0x100 0 demo_pool = MP_Return (b + 4) K1" "held_blocks K1 0x100 = insert b (held_blocks demo_pool 0x100)"
      "block_free_count (mempools K1 0x100) = block_free_count (mempools demo_pool 0x100) - 1"
      "K1 = demo_pool\<lparr>mempools := mempools K1, pool_word := pool_word K1\<rparr>"
    by (rule alloc_now[OF pool_reachable_inv[OF D(1)] a n, of 0]) (rule that; assumption)
  have r1: "pool_reachable 1 {0x100} K1" by (rule pool_reachable.step[OF D(1) pool_step.alloc[OF _ K1(1)]]) simp
  have n1: "block_free_count (mempools K1 0x100) \<noteq> 0" by (simp add: K1(3) D(2) demo_fresh)
  obtain c K2 where
    K2: "rt_mp_alloc 0x100 0 K1 = MP_Return (c + 4) K2" "held_blocks K2 0x100 = insert c (held_blocks K1 0x100)"
      "block_free_count (mempools K2 0x100) = block_free_count (mempools K1 0x100) - 1"
      "K2 = K1\<lparr>mempools := mempools K2, pool_word := pool_word K2\<rparr>"
    by (rule alloc_now[OF pool_reachable_inv[OF r1] a n1, of 0]) (rule that; assumption)
  have r2: "pool_reachable 1 {0x100} K2" by (rule pool_reachable.step[OF r1 pool_step.alloc[OF _ K2(1)]]) simp
  obtain M W where e: "K2 = demo_pool\<lparr>mempools := M, pool_word := W\<rparr>"
  proof -
    have "K2 = demo_pool\<lparr>mempools := mempools K2, pool_word := pool_word K2\<rparr>" by (subst K2(4), subst K1(4)) simp
    then show ?thesis by (rule that)
  qed
  have "rt_current_thread K2 = 2" "may_block 1 K2" "in_thread_context K2" "tlists K2 (mp_queue 0x100) = []"
    using D(5-8) by (simp_all add: e may_block_def in_thread_context_def)
  moreover have "block_free_count (mempools K2 0x100) = 0" by (simp add: K2(3) K1(3) D(2) demo_fresh)
  moreover have "b \<in> held_blocks K2 0x100" by (simp add: K2(2) K1(2))
  ultimately show ?thesis using r2 by blast
qed

section \<open>Properties\<close>

text \<open>C36: In every history of memory pools the free list of a pool runs through distinct blocks of it, as many as its counter
  says; every other block is handed out, once, and leads back to its pool; the blocks of different pools are
  disjoint; and whoever waits for a block is suspended.\<close>

theorem mp_pools_sound:
  assumes "pool_reachable i P K" "a \<in> P"
  shows "distinct (free_blocks K a) \<and> set (free_blocks K a) \<union> held_blocks K a = mp_blocks (mempools K a) \<and>
    set (free_blocks K a) \<inter> held_blocks K a = {} \<and> slist_chain (pool_word K) (mp_block_list (mempools K a)) (free_blocks K a) \<and>
    length (free_blocks K a) = unat (block_free_count (mempools K a)) \<and>
    length (free_blocks K a) + card (held_blocks K a) = unat (block_total_count (mempools K a)) \<and>
    (\<forall>b\<in>held_blocks K a. pool_word K b = a \<and> b \<noteq> 0) \<and>
    (\<forall>c\<in>P. c \<noteq> a \<longrightarrow> mp_blocks (mempools K c) \<inter> mp_blocks (mempools K a) = {}) \<and>
    (\<forall>t\<in>set (tlists K (mp_queue a)). stat (threads K t) = RT_THREAD_SUSPEND)"
proof -
  note inv = pool_reachable_inv[OF assms(1)]
  have ok: "pool_ok K a" using mp_invD(2)[OF inv] assms(2) by (simp add: pools_ok_def)
  note d = ok[unfolded pool_ok_def]
  have fin: "finite (mp_blocks (mempools K a))" by (simp add: mp_blocks_def)
  have "card (held_blocks K a) = card (mp_blocks (mempools K a)) - card (set (free_blocks K a))"
    unfolding held_blocks_def by (rule card_Diff_subset) (use d fin in auto)
  moreover have "card (set (free_blocks K a)) \<le> card (mp_blocks (mempools K a))" by (rule card_mono[OF fin]) (use d in blast)
  ultimately have "length (free_blocks K a) + card (held_blocks K a) = unat (block_total_count (mempools K a))"
    using card_blocks[of "mempools K a"] d distinct_card[of "free_blocks K a"] by simp
  moreover have "set (free_blocks K a) \<union> held_blocks K a = mp_blocks (mempools K a)" "set (free_blocks K a) \<inter> held_blocks K a = {}"
    using d by (auto simp: held_blocks_def)
  moreover have "pool_word K b = a \<and> b \<noteq> 0" if "b \<in> held_blocks K a" for b
    using d block_nonzero[of "mempools K a" b] that by (auto simp: held_blocks_def)
  moreover have "mp_blocks (mempools K c) \<inter> mp_blocks (mempools K a) = {}" if "c \<in> P" "c \<noteq> a" for c
    using mp_invD(2)[OF inv] that assms(2) by (simp add: pools_ok_def)
  moreover have "stat (threads K t) = RT_THREAD_SUSPEND" if "t \<in> set (tlists K (mp_queue a))" for t
    by (rule waiter_suspended[OF steadyD(1)[OF mp_invD(1)[OF inv]] wait_head_simps(1) that])
  ultimately show ?thesis using d by simp
qed

theorem mp_pools_sound_witness:
  "length (free_blocks demo_pool 0x100) + card (held_blocks demo_pool 0x100) = 2"
  using mp_pools_sound[OF demo_pool(1), of "0x100"] by (simp add: demo_pool(2) demo_fresh)

text \<open>C37: While blocks are free a call gets one at once, whatever its timeout: the first of the free list, which nobody holds, and
  no other pool changes. Returning it when nobody waits restores the state exactly.\<close>

theorem mp_alloc_free_roundtrip:
  assumes "pool_reachable i P K" "a \<in> P" "block_free_count (mempools K a) \<noteq> 0"
  shows "\<exists>b K'. rt_mp_alloc a time K = MP_Return (b + 4) K' \<and> pool_reachable i P K' \<and> b + 4 \<noteq> 0 \<and> b = hd (free_blocks K a) \<and>
    (\<forall>c\<in>P. b \<notin> held_blocks K c) \<and> free_blocks K' a = tl (free_blocks K a) \<and> held_blocks K' a = insert b (held_blocks K a) \<and>
    (\<forall>c\<in>P. c \<noteq> a \<longrightarrow> free_blocks K' c = free_blocks K c \<and> held_blocks K' c = held_blocks K c) \<and>
    (tlists K (mp_queue a) = [] \<longrightarrow> rt_mp_free (b + 4) K' = K)"
proof -
  note inv = pool_reachable_inv[OF assms(1)]
  obtain b K' where
    A: "rt_mp_alloc a time K = MP_Return (b + 4) K'" "mp_inv i P K'" "b + 4 \<noteq> 0" "b \<in> mp_blocks (mempools K a)"
    "free_blocks K a = b # free_blocks K' a" "held_blocks K' a = insert b (held_blocks K a)" "b \<notin> held_blocks K a"
    "\<forall>c\<in>P. c \<noteq> a \<longrightarrow> mempools K' c = mempools K c \<and> free_blocks K' c = free_blocks K c \<and> held_blocks K' c = held_blocks K c"
    "K' = K\<lparr>mempools := mempools K', pool_word := pool_word K'\<rparr>" "mp_take a K = MP_Return (b + 4) K'"
    by (rule alloc_now[OF inv assms(2,3), of time]) (rule that; assumption)
  have r: "pool_reachable i P K'" by (rule pool_reachable.step[OF assms(1) pool_step.alloc[OF assms(2) A(1)]])
  have bl: "mp_block_list (mempools K a) = b"
  proof -
    have "pool_ok K a" using mp_invD(2)[OF inv] assms(2) by (simp add: pools_ok_def)
    then have "slist_chain (pool_word K) (mp_block_list (mempools K a)) (b # free_blocks K' a)" by (simp add: pool_ok_def A(5))
    then show ?thesis by simp
  qed
  have K': "K' = K\<lparr>mempools := (mempools K)(a := (mempools K a)\<lparr>block_free_count := block_free_count (mempools K a) - 1,
      mp_block_list := pool_word K b\<rparr>), pool_word := (pool_word K)(b := a)\<rparr>"
    using A(10) bl by (auto simp: mp_take_def Let_def upd_mp_def set_word_def split: if_splits)
  have "b \<notin> held_blocks K c" if "c \<in> P" for c
    using A(4,7) mp_invD(2)[OF inv] assms(2) that by (cases "c = a") (auto simp: pools_ok_def held_blocks_def)
  moreover have "rt_mp_free (b + 4) K' = K" if "tlists K (mp_queue a) = []"
  proof -
    have q: "tlists K' (mp_queue a) = []" using that by (subst A(9)) simp
    have "b \<in> held_blocks K' a" using A(6) by simp
    from free_now(5)[OF A(2) assms(2) this q] have "rt_mp_free (b + 4) K' = give_back a b K'" .
    also have "\<dots> = K" by (simp add: give_back_def upd_mp_def set_word_def K' bl[symmetric])
    finally show ?thesis .
  qed
  ultimately show ?thesis using A r by (intro exI[of _ b] exI[of _ K']) auto
qed

theorem mp_alloc_free_roundtrip_witness:
  "\<exists>b K'. rt_mp_alloc 0x100 5 demo_pool = MP_Return (b + 4) K' \<and> held_blocks K' 0x100 = {b} \<and> rt_mp_free (b + 4) K' = demo_pool"
proof -
  have n: "block_free_count (mempools demo_pool 0x100) \<noteq> 0" by (simp add: demo_pool(2) demo_fresh)
  from mp_alloc_free_roundtrip[OF demo_pool(1) _ n, of 5] show ?thesis using demo_pool(3,8) by fastforce
qed

text \<open>C38: A call that waits on an empty pool comes in front of the threads that wait already, whatever their priorities, and a block
  that is returned wakes the thread in front and finds it without error and its timer stopped: the last comer is
  served first, and the older waiters keep waiting.\<close>

theorem mp_last_waiter_first:
  assumes "pool_reachable i P K" "a \<in> P" "block_free_count (mempools K a) = 0" "may_block i K" "in_thread_context K"
    and "time \<noteq> 0" "timeout_ok time" "b \<in> held_blocks K a" "t = rt_current_thread K"
  shows "\<exists>s K'. rt_mp_alloc a time K = MP_Blocked s K' \<and> pool_reachable i P K' \<and> rt_current_thread K' \<noteq> t \<and>
    stat (threads K' t) = RT_THREAD_SUSPEND \<and> tlists K' (mp_queue a) = t # tlists K (mp_queue a) \<and>
    (time > 0 \<longrightarrow> s = rt_tick K \<and> timer_activated (timers K' (Thread_timer t)) \<and>
       timeout_tick (timers K' (Thread_timer t)) = rt_tick K + word_of_int time) \<and>
    (let F = rt_mp_free (b + 4) K'
     in pool_reachable i P F \<and> free_blocks F a = [b] \<and> tlists F (mp_queue a) = tlists K (mp_queue a) \<and> runnable (threads F t) \<and>
        error (threads F t) = RT_EOK \<and> \<not> timer_activated (timers F (Thread_timer t)))"
proof -
  note inv = pool_reachable_inv[OF assms(1)]
  from alloc_wait[OF inv assms(2-7)] obtain s K' where
    W: "rt_mp_alloc a time K = MP_Blocked s K'" "mp_inv i P K'" "kernel.more K' = kernel.more K"
    "tlists K' (mp_queue a) = t # tlists K (mp_queue a)" "stat (threads K' t) = RT_THREAD_SUSPEND" "rt_current_thread K' \<noteq> t"
    "timer_activated (timers K' (Thread_timer t)) \<longleftrightarrow> time > 0"
    "time > 0 \<longrightarrow> s = rt_tick K \<and> timeout_tick (timers K' (Thread_timer t)) = rt_tick K + word_of_int time"
    unfolding assms(9)[symmetric] by metis
  have r: "pool_reachable i P K'" by (rule pool_reachable.step[OF assms(1) pool_step.wait[OF assms(2,4,7) W(1)]])
  note m = pools_more[OF W(3)]
  have b: "b \<in> held_blocks K' a" using assms(8) pools_eq(3)[OF m(1,2)] by simp
  note F = free_now[OF W(2) assms(2) b]
  have "free_blocks K' a = []" using assms(3) pools_eq(2)[OF m(1,2), of a] by (simp add: free_blocks_def)
  moreover have "pool_reachable i P (rt_mp_free (b + 4) K')" by (rule pool_reachable.step[OF r pool_step.give[OF assms(2) b refl]])
  ultimately show ?thesis using W r F(2) F(6)[OF W(4)] by (intro exI[of _ s] exI[of _ K']) (simp add: Let_def)
qed

theorem mp_last_waiter_first_witness:
  "\<exists>K s K'. rt_mp_alloc 0x100 5 K = MP_Blocked s K' \<and> tlists K' (mp_queue 0x100) = [2] \<and> stat (threads K' 2) = RT_THREAD_SUSPEND"
proof -
  from demo_empty obtain b K where K: "pool_reachable 1 {0x100} K" "b \<in> held_blocks K 0x100" "block_free_count (mempools K 0x100) = 0"
    "rt_current_thread K = 2" "may_block 1 K" "in_thread_context K" "tlists K (mp_queue 0x100) = []" by blast
  have h: "(5 :: int) \<noteq> 0" "timeout_ok 5" by (simp_all add: timeout_ok_def)
  from mp_last_waiter_first[OF K(1) _ K(3,5,6) h K(2) K(4)[symmetric]] K(7) show ?thesis by auto
qed

end
