(* ===== verification/Spec2Isabelle.thy ===== *)
theory Spec2Isabelle
  imports Fota_Boot Ringbuffer Base64 Memheap_Clients Kernel_Props Sync_Props Message_Props Msg_Interleave Timer_Props
    Ymodem_Ota Ymodem_Send Mempool_Props
begin

text \<open>
  Verification of the firmware-over-the-air boot loader of the MH1903 port of RT-Thread, of the
  services it is built on, of the downloader that brings a new image over the serial line, and of the core
  of the kernel: scheduler, threads, timers and inter-process communication. Paths are relative to the repository's source directory.

  \<^bold>\<open>The program.\<close> At power-on the thread \<^verbatim>\<open>rt_fota_thread_entry\<close> of \<^verbatim>\<open>bootloader/src/rt_fota.c\<close> initialises the
  flash abstraction layer, verifies the image in the partition \<^verbatim>\<open>download\<close>, compares its two version
  fields, copies the image into the partition \<^verbatim>\<open>app\<close> (decrypting and decompressing on the way), writes
  the new version back into the image header, and jumps to the application. It calls the CRC of
  \<^verbatim>\<open>rt_fota_crc.c\<close>, the partition layer \<^verbatim>\<open>packages/fal-v0.5.0\<close>, which calls the driver \<^verbatim>\<open>board/drv_flash.c\<close>,
  which calls the ROM through \<^verbatim>\<open>mhscpu_qspi.c\<close>; the cipher of \<^verbatim>\<open>packages/tinycrypt-v1.0.0\<close>; and the
  decompressors \<^verbatim>\<open>packages/fastlz-v1.0.1\<close> and \<^verbatim>\<open>packages/quicklz-v1.0.1\<close>.

  \<^bold>\<open>The theories.\<close>
  \<^item> \<^verbatim>\<open>Prelude\<close>: machine words, byte buffers, little-endian words, C strings, the shared lemma collections.
  \<^item> \<^verbatim>\<open>Crc32\<close> (\<^verbatim>\<open>rt_fota_crc.c\<close>): \<^verbatim>\<open>bitrev\<close>, \<^verbatim>\<open>crc32_init\<close>, \<^verbatim>\<open>crc32\<close>, \<^verbatim>\<open>rt_fota_crc\<close>, \<^verbatim>\<open>rt_fota_step_crc\<close>; equality with
    CRC-32, defined as a division by its polynomial bit by bit, streaming, detection of single-byte errors.
  \<^item> \<^verbatim>\<open>Flash\<close> (\<^verbatim>\<open>drv_flash.c\<close>, \<^verbatim>\<open>mhscpu_qspi.c\<close>): the flash is a function from addresses to bytes, the two ROM routines are
    the fields of the record \<^verbatim>\<open>rom\<close>, a parameter. \<^verbatim>\<open>rom_frame\<close> (a routine changes only the cells it was asked
    to change) and \<^verbatim>\<open>rom_nor\<close> (a NOR chip) are the hypotheses on it; \<^verbatim>\<open>nor_rom\<close> satisfies both.
  \<^item> \<^verbatim>\<open>Fal\<close> (\<^verbatim>\<open>fal.c\<close>, \<^verbatim>\<open>fal_flash.c\<close>, \<^verbatim>\<open>fal_partition.c\<close>, \<^verbatim>\<open>fal_cfg.h\<close>): the three static flags and the table are the record
    \<^verbatim>\<open>fal_state\<close>. The locale \<^verbatim>\<open>flash_device\<close> is the contract of a device; \<^verbatim>\<open>onchip_flash\<close> derives it for the driver.
  \<^item> \<^verbatim>\<open>Aes_Tables\<close>, \<^verbatim>\<open>Aes\<close> (\<^verbatim>\<open>tiny_aes.c\<close>): the ROM tables checked against their algebraic definition for every index,
    then key schedules, rounds, ECB, CBC and CFB128 with their round trips.
  \<^item> \<^verbatim>\<open>Fastlz\<close>, \<^verbatim>\<open>Quicklz\<close>: the decompressors. An access outside a buffer is the result \<open>None\<close>, so memory safety is
    the statement that the result is not \<open>None\<close>.
  \<^item> \<^verbatim>\<open>Fota_Image\<close> (\<^verbatim>\<open>rt_fota.c\<close> lines 92 to 386): header, verification, version commit, erase and write of the application
    partition. \<^verbatim>\<open>fota_sys\<close> holds the flash, the partition table, the static header and the number of
    allocations made; \<^verbatim>\<open>fota_env\<close> holds the ROM and which allocations succeed.
  \<^item> \<^verbatim>\<open>Fota_Upgrade\<close> (lines 388 to 775): \<^verbatim>\<open>rt_fota_upgrade\<close> and its loops. The locals of the C function are the record
    \<^verbatim>\<open>upg\<close>; a step ends in a fault, in an exit with an error code, or goes on.
  \<^item> \<^verbatim>\<open>Fota_Boot\<close> (lines 777 to 864 and 985 to 1063): the application start and the boot thread.
  \<^item> \<^verbatim>\<open>Ymodem\<close> (\<^verbatim>\<open>rt-thread/components/utilities/ymodem/ymodem.c\<close>): the receiver. The serial line is a list of bytes, each with the
    ticks before its arrival; a callback is a function on a state of its own. \<^verbatim>\<open>Ymodem_Inv\<close>: what the functions do on a well-formed
    packet, from the linearity of the checksum to a whole phase of the protocol; \<^verbatim>\<open>Ymodem_Props\<close>: the table of the checksum and a
    whole transmission. \<^verbatim>\<open>Ymodem_Safety\<close>: what holds on any line; the locale \<^verbatim>\<open>block_log\<close> carries a relation on the callbacks' state
    through the receiver, and is interpreted by a log of the blocks and, in \<^verbatim>\<open>Ymodem_Ota\<close>, by the partition that is written.
    \<^verbatim>\<open>Ymodem_Send\<close>: the sender, and that the two fit together.
  \<^item> \<^verbatim>\<open>Ymodem_Ota\<close> (\<^verbatim>\<open>packages/ota_downloader-v1.0.0/src/ymodem_ota.c\<close>): the callbacks of the downloader on the flash abstraction
    layer, and the way of an image from the sender to the running firmware, with the boot thread of \<^verbatim>\<open>Fota_Boot\<close>.
  \<^item> \<^verbatim>\<open>Ringbuffer\<close> (\<^verbatim>\<open>components/drivers/src/ringbuffer.c\<close>): the mirrored ring buffer as an implementation of the
    locale \<^verbatim>\<open>byte_fifo\<close>.
  \<^item> \<^verbatim>\<open>Base64\<close> (\<^verbatim>\<open>tiny_base64.c\<close>): encoder and decoder.

  \<^item> \<^verbatim>\<open>Links\<close>, \<^verbatim>\<open>Memheap\<close>, \<^verbatim>\<open>Memheap_Clients\<close> (\<^verbatim>\<open>rt-thread/src/memheap.c\<close>, the heap behind \<^verbatim>\<open>rt_malloc\<close>): doubly linked
    lists in a heap of link functions; the allocator with its block list and free list, the invariant \<^verbatim>\<open>heap_inv\<close> that relates
    both lists to the layout of the pool, and the abstraction \<^verbatim>\<open>represents\<close> to the set of regions handed out; the locale
    \<^verbatim>\<open>allocator\<close>, interpreted by the heap, and the step relation \<^verbatim>\<open>heap_step\<close> of its clients with the reachable histories.
    The C fields of the block headers are functions from addresses; a call that does not return is \<open>None\<close>; a call runs with
    the heap's lock held, so calls of several threads are a sequence of steps.

  \<^bold>\<open>The kernel\<close> (\<^verbatim>\<open>rt-thread/src\<close>, in the configuration \<^verbatim>\<open>rtconfig.h\<close> of the application, 32 priorities).
  \<^item> \<^verbatim>\<open>Ffs\<close> (\<^verbatim>\<open>kservice.c\<close>): \<^verbatim>\<open>__rt_ffs\<close> finds the lowest bit, every entry of its table checked.
  \<^item> \<^verbatim>\<open>Timer_List\<close> (\<^verbatim>\<open>timer.c\<close>): the hard and the soft timer list, each a list of rows (the skip list), the timers as a table and the
    operations on one timer: the record \<^verbatim>\<open>timer_system\<close>, which the kernel extends. \<^verbatim>\<open>Timer_List_Inv\<close>: an insertion through the rows
    is an insertion into a sorted list, in the order of the distance from a base tick, which survives the wrap-around; \<^verbatim>\<open>timers_ok\<close>.
  \<^item> \<^verbatim>\<open>Scheduler\<close> (\<^verbatim>\<open>scheduler.c\<close>, \<^verbatim>\<open>thread.c\<close>, \<^verbatim>\<open>clock.c\<close>, \<^verbatim>\<open>idle.c\<close>, \<^verbatim>\<open>irq.c\<close>): the globals are the record \<^verbatim>\<open>kernel\<close>; a thread is an address
    and 0 is \<^verbatim>\<open>RT_NULL\<close>; the list nodes \<^verbatim>\<open>thread->tlist\<close> are one list of threads per list head. An operation runs with
    interrupts disabled, so it is one step. \<^verbatim>\<open>rt_schedule\<close> changes \<^verbatim>\<open>rt_current_thread\<close>: a blocking call ends in the model at
    its \<^verbatim>\<open>rt_schedule\<close>, and the code behind it is an operation of its own (\<^verbatim>\<open>_resumed\<close>, \<^verbatim>\<open>sleep_return\<close>).
  \<^item> \<^verbatim>\<open>Scheduler_Inv\<close>: the invariant \<^verbatim>\<open>kernel_inv\<close> of queues, bitmap and thread states, with the threads in transit between two
    lists exempted, and its preservation by every operation; \<^verbatim>\<open>steady i\<close> adds that the current thread runs and the
    idle thread \<^verbatim>\<open>i\<close> can run.
  \<^item> \<^verbatim>\<open>Timer\<close> (\<^verbatim>\<open>timer.c\<close>): what involves threads: starting a timer, the checks that run the functions of due timers, the tick, the
    thread of the soft timers. The function of a thread's timer is \<^verbatim>\<open>rt_thread_timeout\<close>; those of other timers are a parameter, for
    which \<^verbatim>\<open>callback_ok\<close> says what the check relies on. \<^verbatim>\<open>Timer_Inv\<close>, \<^verbatim>\<open>Timer_Run\<close>: invariant, one round of the check, its end, and what a
    tick does; \<^verbatim>\<open>Timer_Props\<close>: the properties. A check with the functions it calls is also covered step by step (\<^verbatim>\<open>timer_step\<close>), because
    a soft check lets other threads in while a function runs.
  \<^item> \<^verbatim>\<open>Msg_Queue\<close>, \<^verbatim>\<open>Ipc\<close> (\<^verbatim>\<open>ipc.c\<close>): the record \<^verbatim>\<open>ipc\<close> extends \<^verbatim>\<open>kernel\<close> by one table per kind of object. A call returns, blocks or
    fails an assertion. The message queue is modelled with its links and in two critical sections per call, because the
    code copies messages with interrupts enabled.
  \<^item> \<^verbatim>\<open>Ipc_Inv\<close>, \<^verbatim>\<open>Ipc_Steps\<close>: \<^verbatim>\<open>ipc_inv\<close> adds the invariants of the objects; \<^verbatim>\<open>calm\<close> bundles the operations that only shorten
    waiting queues, which keep them for free. \<^verbatim>\<open>Kernel_Run\<close> (\<^verbatim>\<open>components.c\<close>): the start of the system, the calls as step relations,
    and the invariant in every reachable state. Threads block with the scheduler unlocked and not in the idle thread.
  \<^item> \<^verbatim>\<open>Kernel_Demo\<close> holds the concrete reachable states on which the properties of \<^verbatim>\<open>Kernel_Props\<close>, \<^verbatim>\<open>Sync_Props\<close>, \<^verbatim>\<open>Message_Props\<close> and
    \<^verbatim>\<open>Msg_Interleave\<close> are exercised. The locale \<^verbatim>\<open>message_fifo\<close> is the contract that mailboxes and message queues share;
    \<^verbatim>\<open>Msg_Interleave\<close> shows that the windows of the message queue are harmless.
  \<^item> \<^verbatim>\<open>Mempool\<close> (\<^verbatim>\<open>mempool.c\<close>): the record \<^verbatim>\<open>pools\<close> extends \<^verbatim>\<open>kernel\<close> by the pools and the word in front of every block.
    \<^verbatim>\<open>Mempool_Inv\<close>: the free list of a pool and the blocks handed out make up its blocks (\<^verbatim>\<open>pool_ok\<close>), from the initialisation on;
    \<^verbatim>\<open>Mempool_Props\<close>: the calls as the relation \<^verbatim>\<open>pool_step\<close>, in which the rest of the kernel is any step that keeps \<^verbatim>\<open>steady\<close> and adds
    nobody to the queues of the pools, and what holds after every history.

  \<^bold>\<open>Termination and bounds.\<close> Every loop is a recursive function with a termination proof: the flash
  loops by the bytes that remain, the verification loop and the two loops of the upgrade by the position in
  the image, the decompressors by the position in the block, the phases of Ymodem by the bytes still on the line. The wait for the
  first Ymodem packet, which the code bounds by the tick counter, is a partial function that is shown to return when the counter
  does not wrap around. The search of the memory heap along its free list, which has no
  bound in the code, is a partial function that is shown to return on every reachable heap; so are the loop that wakes all
  waiters of an object, the one that empties a message queue and the check of the hard timers. Machine integers are words of
  the width of the C type where the code computes on them.

  \<^bold>\<open>Not modelled.\<close> Logging and the shell (compiled out of the boot loader), the interrupt controller
  writes before the jump; in the kernel signals, hooks, SMP, stacks, and the object manager with create and delete;
  the second heap of an allocation that fails (auto binding) and the heap's trace commands, the HTTP downloader (a loop over a web client that is not in the repository), the hash functions, the compressors, peripheral
  drivers, the network stack, the file systems and the vendor libraries.
\<close>

end
